(* ===== verification/JsText.thy ===== *)
theory JsText
  imports Prelude
begin

text \<open>
  The parts of the JavaScript standard library the clients use on text: UTF-8 encoding and fatal
  decoding (\<open>TextEncoder\<close>, \<open>TextDecoder\<close>).
\<close>

section \<open>UTF-16 code units and code points\<close>

definition high_surrogate :: "nat \<Rightarrow> bool" where
  "high_surrogate u \<longleftrightarrow> 0xD800 \<le> u \<and> u \<le> 0xDBFF"

definition low_surrogate :: "nat \<Rightarrow> bool" where
  "low_surrogate u \<longleftrightarrow> 0xDC00 \<le> u \<and> u \<le> 0xDFFF"

definition surrogate :: "nat \<Rightarrow> bool" where
  "surrogate u \<longleftrightarrow> 0xD800 \<le> u \<and> u \<le> 0xDFFF"

text \<open>
  The code points of a string, with U+FFFD for an unpaired surrogate (the conversion to a scalar
  value string that \<open>TextEncoder.encode\<close> starts with).
\<close>

fun code_points :: "jstr \<Rightarrow> nat list" where
  "code_points [] = []"
| "code_points [u] = [if surrogate (unat u) then 0xFFFD else unat u]"
| "code_points (u # v # us) =
     (if high_surrogate (unat u) \<and> low_surrogate (unat v)
      then (0x10000 + (unat u - 0xD800) * 0x400 + (unat v - 0xDC00)) # code_points us
      else (if surrogate (unat u) then 0xFFFD else unat u) # code_points (v # us))"

text \<open>The UTF-16 form of a code point, as \<open>TextDecoder.decode\<close> returns it.\<close>

definition utf16_of :: "nat \<Rightarrow> jstr" where
  "utf16_of c =
     (if c < 0x10000 then [word_of_nat c]
      else [word_of_nat (0xD800 + (c - 0x10000) div 0x400),
            word_of_nat (0xDC00 + (c - 0x10000) mod 0x400)])"

definition scalar_value :: "nat \<Rightarrow> bool" where
  "scalar_value c \<longleftrightarrow> c < 0x110000 \<and> \<not> surrogate c"

section \<open>UTF-8\<close>

definition utf8_of :: "nat \<Rightarrow> nat list" where
  "utf8_of c =
     (if c < 0x80 then [c]
      else if c < 0x800 then [0xC0 + c div 64, 0x80 + c mod 64]
      else if c < 0x10000 then [0xE0 + c div 4096, 0x80 + (c div 64) mod 64, 0x80 + c mod 64]
      else [0xF0 + c div 262144, 0x80 + (c div 4096) mod 64, 0x80 + (c div 64) mod 64,
            0x80 + c mod 64])"

definition utf8_encode :: "jstr \<Rightarrow> byte list" where
  "utf8_encode s = map word_of_nat (concat (map utf8_of (code_points s)))"

text \<open>A continuation byte, and the range the byte after the lead byte has to be in.\<close>

definition cont :: "nat \<Rightarrow> bool" where
  "cont b \<longleftrightarrow> 0x80 \<le> b \<and> b \<le> 0xBF"

definition second_ok :: "nat \<Rightarrow> nat \<Rightarrow> bool" where
  "second_ok lead b \<longleftrightarrow>
     (if lead = 0xE0 then 0xA0 else if lead = 0xF0 then 0x90 else 0x80) \<le> b \<and>
     b \<le> (if lead = 0xED then 0x9F else if lead = 0xF4 then 0x8F else 0xBF)"

text \<open>
  The UTF-8 decoder of a \<open>TextDecoder\<close> with \<open>fatal: true\<close>: \<open>None\<close> where it throws. The lead byte
  decides the length, and the ranges of the second byte exclude overlong forms, surrogates and
  values above U+10FFFF.
\<close>

fun utf8_points :: "nat list \<Rightarrow> nat list option" where
  "utf8_points [] = Some []"
| "utf8_points (b # bs) =
     (if b < 0x80 then map_option ((#) b) (utf8_points bs)
      else if 0xC2 \<le> b \<and> b \<le> 0xDF then
        (case bs of
           c # bs' \<Rightarrow>
             if cont c
             then map_option ((#) ((b - 0xC0) * 64 + (c - 0x80))) (utf8_points bs')
             else None
         | _ \<Rightarrow> None)
      else if 0xE0 \<le> b \<and> b \<le> 0xEF then
        (case bs of
           c # d # bs' \<Rightarrow>
             if second_ok b c \<and> cont d
             then map_option ((#) ((b - 0xE0) * 4096 + (c - 0x80) * 64 + (d - 0x80)))
                    (utf8_points bs')
             else None
         | _ \<Rightarrow> None)
      else if 0xF0 \<le> b \<and> b \<le> 0xF4 then
        (case bs of
           c # d # e # bs' \<Rightarrow>
             if second_ok b c \<and> cont d \<and> cont e
             then map_option
                    ((#) ((b - 0xF0) * 262144 + (c - 0x80) * 4096 + (d - 0x80) * 64 + (e - 0x80)))
                    (utf8_points bs')
             else None
         | _ \<Rightarrow> None)
      else None)"

definition BOM :: nat where "BOM = 0xFEFF"

text \<open>
  \<open>TextDecoder.decode\<close>: the decoder is created without \<open>ignoreBOM\<close>, so one leading byte order
  mark is removed from the output.
\<close>

definition strip_bom :: "nat list \<Rightarrow> nat list" where
  "strip_bom cs = (case cs of c # cs' \<Rightarrow> if c = BOM then cs' else cs | [] \<Rightarrow> [])"

definition text_decode :: "byte list \<Rightarrow> jstr option" where
  "text_decode bs =
     map_option (\<lambda>cs. concat (map utf16_of (strip_bom cs))) (utf8_points (map unat bs))"

text \<open>
  Well-formed UTF-16: every high surrogate is followed by a low one and no low one stands alone.
\<close>

fun well_formed16 :: "jstr \<Rightarrow> bool" where
  "well_formed16 [] \<longleftrightarrow> True"
| "well_formed16 [u] \<longleftrightarrow> \<not> surrogate (unat u)"
| "well_formed16 (u # v # us) \<longleftrightarrow>
     (if high_surrogate (unat u) then low_surrogate (unat v) \<and> well_formed16 us
      else \<not> low_surrogate (unat u) \<and> well_formed16 (v # us))"

definition starts_with_bom :: "jstr \<Rightarrow> bool" where
  "starts_with_bom s \<longleftrightarrow> (case s of u # _ \<Rightarrow> unat u = BOM | [] \<Rightarrow> False)"

lemma surrogate_split: "surrogate u \<longleftrightarrow> high_surrogate u \<or> low_surrogate u"
  by (auto simp: surrogate_def high_surrogate_def low_surrogate_def)

lemma unat_16_less: "unat (u :: 16 word) < 65536"
  using unsigned_less [of u, where ?'a = nat] by simp

lemma unat_8_less: "unat (b :: byte) < 256"
  using unsigned_less [of b, where ?'a = nat] by simp

lemma code_points_scalar: "c \<in> set (code_points s) \<Longrightarrow> scalar_value c"
proof (induction s rule: code_points.induct)
  case (2 u)
  then show ?case
    using unat_16_less [of u] by (auto simp: scalar_value_def surrogate_def split: if_splits)
next
  case (3 u v us)
  show ?case
  proof (cases "high_surrogate (unat u) \<and> low_surrogate (unat v)")
    case True
    with 3 show ?thesis
      by (auto simp: scalar_value_def surrogate_def high_surrogate_def low_surrogate_def)
  next
    case False
    with 3 show ?thesis
      using unat_16_less [of u]
      by (auto simp: scalar_value_def surrogate_def split: if_splits)
  qed
qed simp

lemma utf16_code_points:
  "well_formed16 s \<Longrightarrow> concat (map utf16_of (code_points s)) = s"
proof (induction s rule: code_points.induct)
  case (2 u)
  then show ?case using unat_16_less [of u] by (simp add: utf16_of_def)
next
  case (3 u v us)
  show ?case
  proof (cases "high_surrogate (unat u)")
    case True
    with "3.prems" have low: "low_surrogate (unat v)" and wf: "well_formed16 us" by simp_all
    let ?c = "0x10000 + (unat u - 0xD800) * 0x400 + (unat v - 0xDC00)"
    have rest: "?c - 0x10000 = (unat u - 0xD800) * 0x400 + (unat v - 0xDC00)"
      and small: "unat v - 0xDC00 < 0x400"
      using low unfolding low_surrogate_def by arith+
    from small have "(?c - 0x10000) div 0x400 = unat u - 0xD800"
      and "(?c - 0x10000) mod 0x400 = unat v - 0xDC00"
      unfolding rest by simp_all
    moreover from True low have "0xD800 + (unat u - 0xD800) = unat u"
      and "0xDC00 + (unat v - 0xDC00) = unat v"
      by (simp_all add: high_surrogate_def low_surrogate_def)
    ultimately have "utf16_of ?c = [u, v]"
      by (simp add: utf16_of_def)
    with True low wf "3.IH"(1) show ?thesis by simp
  next
    case False
    with "3.prems" have "\<not> surrogate (unat u)" and "well_formed16 (v # us)"
      by (simp_all add: surrogate_split)
    with False "3.IH"(2) show ?thesis
      using unat_16_less [of u] by (simp add: utf16_of_def)
  qed
qed simp

lemma scalar_value_high:
  assumes "0x10000 \<le> c" "scalar_value c"
  obtains u v where "utf16_of c = [u, v]" "high_surrogate (unat u)" "low_surrogate (unat v)"
    "c = 0x10000 + (unat u - 0xD800) * 0x400 + (unat v - 0xDC00)"
proof -
  define h where "h = (c - 0x10000) div 0x400"
  define l where "l = (c - 0x10000) mod 0x400"
  define u :: "16 word" where "u = word_of_nat (0xD800 + h)"
  define v :: "16 word" where "v = word_of_nat (0xDC00 + l)"
  have c: "c = 0x10000 + h * 0x400 + l"
    unfolding h_def l_def using assms(1) by auto
  have "l < 0x400" by (simp add: l_def)
  moreover have "h < 0x400" using assms(2) c by (simp add: scalar_value_def)
  ultimately have uv: "unat u = 0xD800 + h" "unat v = 0xDC00 + l"
    and sur: "high_surrogate (unat u)" "low_surrogate (unat v)"
    unfolding u_def v_def
    by (simp_all add: high_surrogate_def low_surrogate_def del: of_nat_add)
  have "utf16_of c = [u, v]"
    using assms(1) by (simp add: utf16_of_def h_def l_def u_def v_def)
  from this sur show thesis by (rule that) (simp add: uv c)
qed

lemma code_points_utf16:
  assumes "\<forall>c \<in> set cs. scalar_value c"
  shows "code_points (concat (map utf16_of cs)) = cs" "well_formed16 (concat (map utf16_of cs))"
proof -
  have "code_points (concat (map utf16_of cs)) = cs \<and> well_formed16 (concat (map utf16_of cs))"
    using assms
  proof (induction cs)
    case (Cons c cs)
    let ?r = "concat (map utf16_of cs)"
    have IH: "code_points ?r = cs" "well_formed16 ?r" and c: "scalar_value c"
      using Cons by auto
    show ?case
    proof (cases "c < 0x10000")
      case True
      with c have "\<not> surrogate c" and one: "utf16_of c = [word_of_nat c]"
        by (simp_all add: scalar_value_def utf16_of_def)
      with True IH show ?thesis
        by (cases ?r) (auto simp: surrogate_split)
    next
      case False
      then obtain u v where "utf16_of c = [u, v]" "high_surrogate (unat u)" "low_surrogate (unat v)"
        "c = 0x10000 + (unat u - 0xD800) * 0x400 + (unat v - 0xDC00)"
        using c scalar_value_high [of c] by auto
      with IH show ?thesis by simp
    qed
  qed simp
  then show "code_points (concat (map utf16_of cs)) = cs"
    "well_formed16 (concat (map utf16_of cs))" by simp_all
qed

text \<open>One encoded code point in front of any bytes is read back.\<close>

lemma div_mod_digit:
  fixes q m d :: nat
  assumes "d < m"
  shows "(q * m + d) div m = q" "(q * m + d) mod m = d"
  using assms by simp_all

lemma split_digits:
  fixes c m :: nat
  assumes "0 < m"
  obtains q d where "c = q * m + d" "d < m"
proof
  show "c = (c div m) * m + c mod m" by simp
qed (use assms in simp)

lemma utf8_of_2:
  assumes "2 \<le> q" "q < 32" "d < 64"
  shows "utf8_of (q * 64 + d) = [0xC0 + q, 0x80 + d]" "scalar_value (q * 64 + d)"
  using assms div_mod_digit [of d 64 q]
  by (simp_all add: utf8_of_def scalar_value_def surrogate_def)

lemma utf8_of_3:
  assumes "a < 16" "a = 0 \<longrightarrow> 32 \<le> b" "a = 13 \<longrightarrow> b < 32" "b < 64" "d < 64"
  shows "utf8_of (a * 4096 + b * 64 + d) = [0xE0 + a, 0x80 + b, 0x80 + d]"
    "scalar_value (a * 4096 + b * 64 + d)"
proof -
  let ?c = "a * 4096 + b * 64 + d"
  have c: "?c = (a * 64 + b) * 64 + d" by simp
  have cd: "?c div 64 = a * 64 + b" "?c mod 64 = d" "(a * 64 + b) div 64 = a" "(a * 64 + b) mod 64 = b"
    unfolding c using assms by (simp_all only: div_mod_digit)
  then have "?c div 4096 = a" using div_mult2_eq [of ?c 64 64] by simp
  moreover have "\<not> ?c < 0x800" "?c < 0x10000" using assms by linarith+
  ultimately show "utf8_of ?c = [0xE0 + a, 0x80 + b, 0x80 + d]"
    using cd by (simp add: utf8_of_def)
  have "\<not> surrogate ?c"
  proof
    assume "surrogate ?c"
    then have "0xD800 \<le> ?c" "?c \<le> 0xDFFF" by (simp_all add: surrogate_def)
    moreover from this have "a = 13" using assms by linarith
    ultimately have "32 \<le> b" using assms by presburger
    with \<open>a = 13\<close> assms(3) show False by simp
  qed
  with \<open>?c < 0x10000\<close> show "scalar_value ?c" by (simp add: scalar_value_def)
qed

lemma utf8_of_4:
  assumes "e < 5" "e = 0 \<longrightarrow> 16 \<le> f" "e = 4 \<longrightarrow> f < 16" "f < 64" "b < 64" "d < 64"
  shows "utf8_of (e * 262144 + f * 4096 + b * 64 + d) = [0xF0 + e, 0x80 + f, 0x80 + b, 0x80 + d]"
    "scalar_value (e * 262144 + f * 4096 + b * 64 + d)"
proof -
  let ?c = "e * 262144 + f * 4096 + b * 64 + d"
  let ?a = "e * 64 + f"
  have c: "?c = (?a * 64 + b) * 64 + d" by simp
  have cd: "?c div 64 = ?a * 64 + b" "?c mod 64 = d" "(?a * 64 + b) div 64 = ?a"
    "(?a * 64 + b) mod 64 = b" "?a div 64 = e" "?a mod 64 = f"
    unfolding c using assms by (simp_all only: div_mod_digit)
  have "?c div 4096 = ?c div 64 div 64" using div_mult2_eq [of ?c 64 64] by simp
  then have 1: "?c div 4096 = ?a" by (simp only: cd(1,3))
  have "?c div 262144 = ?c div 4096 div 64" using div_mult2_eq [of ?c 4096 64] by simp
  then have 2: "?c div 262144 = e" by (simp only: 1 cd(5))
  have ge: "\<not> ?c < 0x10000" "?c < 0x110000" using assms by linarith+
  then show "utf8_of ?c = [0xF0 + e, 0x80 + f, 0x80 + b, 0x80 + d]"
    using cd 1 2 by (simp add: utf8_of_def)
  from ge show "scalar_value ?c" by (simp add: scalar_value_def surrogate_def)
qed

lemma utf8_points_utf8_of:
  assumes "scalar_value c"
  shows "utf8_points (utf8_of c @ bs) = map_option ((#) c) (utf8_points bs)"
proof -
  obtain q d where c: "c = q * 64 + d" and d: "d < 64"
    using split_digits [of 64 c] by auto
  obtain a b where q: "q = a * 64 + b" and b: "b < 64"
    using split_digits [of 64 q] by auto
  obtain e f where a: "a = e * 64 + f" and f: "f < 64"
    using split_digits [of 64 a] by auto
  have ns: "\<not> surrogate c" "c < 0x110000" using assms by (simp_all add: scalar_value_def)
  consider "c < 0x80" | "0x80 \<le> c" "c < 0x800" | "0x800 \<le> c" "c < 0x10000" | "0x10000 \<le> c"
    by linarith
  then show ?thesis
  proof cases
    case 1
    then show ?thesis by (simp add: utf8_of_def)
  next
    case 2
    then have "2 \<le> q" "q < 32" using c d by linarith+
    with utf8_of_2(1) [of q d] d show ?thesis by (simp add: cont_def c)
  next
    case 3
    have c3: "c = a * 4096 + b * 64 + d" using c q by simp
    have r: "a < 16" "a = 0 \<longrightarrow> 32 \<le> b" using 3 c3 b d by linarith+
    have s: "a = 13 \<longrightarrow> b < 32"
    proof (intro impI, rule ccontr)
      assume "a = 13" "\<not> b < 32"
      with c3 b d have "0xD800 \<le> c" "c \<le> 0xDFFF" by linarith+
      with ns(1) show False by (simp add: surrogate_def)
    qed
    from utf8_of_3(1) [OF r s b d] r s b d show ?thesis
      by (auto simp: cont_def second_ok_def c3)
  next
    case 4
    have c4: "c = e * 262144 + f * 4096 + b * 64 + d" using c q a by simp
    have r: "e < 5" "e = 0 \<longrightarrow> 16 \<le> f" "e = 4 \<longrightarrow> f < 16"
      using 4 ns(2) c4 b d f by linarith+
    from utf8_of_4(1) [OF r f b d] r f b d show ?thesis
      by (auto simp: cont_def second_ok_def c4)
  qed
qed

lemma utf8_points_encode:
  "\<forall>c \<in> set cs. scalar_value c \<Longrightarrow> utf8_points (concat (map utf8_of cs)) = Some cs"
  by (induction cs) (simp_all add: utf8_points_utf8_of)

lemma utf8_of_bytes: "scalar_value c \<Longrightarrow> b \<in> set (utf8_of c) \<Longrightarrow> b < 256"
  by (auto simp: utf8_of_def scalar_value_def split: if_splits)

section \<open>The decoder accepts the encoder's image only\<close>

lemma utf8_points_sound:
  "utf8_points bs = Some cs \<Longrightarrow>
     bs = concat (map utf8_of cs) \<and> (\<forall>c \<in> set cs. scalar_value c)"
proof (induction bs arbitrary: cs rule: utf8_points.induct)
  case 1
  then show ?case by simp
next
  case (2 b bs)
  consider "b < 0x80" | "0xC2 \<le> b" "b \<le> 0xDF" | "0xE0 \<le> b" "b \<le> 0xEF" | "0xF0 \<le> b" "b \<le> 0xF4"
    using "2.prems" by (auto split: if_splits)
  then show ?case
  proof cases
    case 1
    with 2 show ?thesis by (auto simp: utf8_of_def scalar_value_def surrogate_def)
  next
    case 2
    with "2.prems" obtain c bs' cs' where bs: "bs = c # bs'" "cont c"
      "utf8_points bs' = Some cs'" "cs = ((b - 0xC0) * 64 + (c - 0x80)) # cs'"
      by (auto split: list.splits if_splits)
    with 2 "2.IH"(2) have IH: "bs' = concat (map utf8_of cs')" "\<forall>c \<in> set cs'. scalar_value c"
      by auto
    have "2 \<le> b - 0xC0" "b - 0xC0 < 32" "c - 0x80 < 64" "0xC0 + (b - 0xC0) = b" "0x80 + (c - 0x80) = c"
      using 2 bs(2) by (auto simp: cont_def)
    with utf8_of_2 [of "b - 0xC0" "c - 0x80"] bs IH show ?thesis by simp
  next
    case 3
    with "2.prems" obtain c d bs' cs' where bs: "bs = c # d # bs'" "second_ok b c" "cont d"
      "utf8_points bs' = Some cs'"
      "cs = ((b - 0xE0) * 4096 + (c - 0x80) * 64 + (d - 0x80)) # cs'"
      by (auto split: list.splits if_splits)
    with 3 "2.IH"(3) have IH: "bs' = concat (map utf8_of cs')" "\<forall>c \<in> set cs'. scalar_value c"
      by auto
    have "b - 0xE0 < 16" "b - 0xE0 = 0 \<longrightarrow> 32 \<le> c - 0x80" "b - 0xE0 = 13 \<longrightarrow> c - 0x80 < 32"
      "c - 0x80 < 64" "d - 0x80 < 64"
      "0xE0 + (b - 0xE0) = b" "0x80 + (c - 0x80) = c" "0x80 + (d - 0x80) = d"
      using 3 bs(2,3) by (auto simp: cont_def second_ok_def split: if_splits)
    with utf8_of_3 [of "b - 0xE0" "c - 0x80" "d - 0x80"] bs IH show ?thesis by simp
  next
    case 4
    with "2.prems" obtain c d e bs' cs' where bs: "bs = c # d # e # bs'" "second_ok b c" "cont d"
      "cont e" "utf8_points bs' = Some cs'"
      "cs = ((b - 0xF0) * 262144 + (c - 0x80) * 4096 + (d - 0x80) * 64 + (e - 0x80)) # cs'"
      by (auto split: list.splits if_splits)
    with 4 "2.IH"(4) have IH: "bs' = concat (map utf8_of cs')" "\<forall>c \<in> set cs'. scalar_value c"
      by auto
    have "b - 0xF0 < 5" "b - 0xF0 = 0 \<longrightarrow> 16 \<le> c - 0x80" "b - 0xF0 = 4 \<longrightarrow> c - 0x80 < 16"
      "c - 0x80 < 64" "d - 0x80 < 64" "e - 0x80 < 64"
      "0xF0 + (b - 0xF0) = b" "0x80 + (c - 0x80) = c" "0x80 + (d - 0x80) = d" "0x80 + (e - 0x80) = e"
      using 4 bs(2,3,4) by (auto simp: cont_def second_ok_def split: if_splits)
    with utf8_of_4 [of "b - 0xF0" "c - 0x80" "d - 0x80" "e - 0x80"] bs IH show ?thesis by simp
  qed
qed

lemma strip_bom_code_points:
  "\<not> starts_with_bom s \<Longrightarrow> strip_bom (code_points s) = code_points s"
proof (cases s rule: code_points.cases)
  case (2 u)
  moreover assume "\<not> starts_with_bom s"
  ultimately show ?thesis by (simp add: strip_bom_def starts_with_bom_def BOM_def)
next
  case (3 u v us)
  moreover assume "\<not> starts_with_bom s"
  ultimately show ?thesis by (auto simp: strip_bom_def starts_with_bom_def BOM_def)
qed (simp add: strip_bom_def)

lemma map_unat_word_of_nat: "\<forall>b \<in> set bs. b < 256 \<Longrightarrow> map unat (map word_of_nat bs :: byte list) = bs"
  by (induction bs) (simp_all add: unat_of_nat)

lemma map_word_of_nat_unat: "map word_of_nat (map unat bs) = (bs :: byte list)"
  by (induction bs) simp_all

lemma utf8_encode_points: "utf8_points (map unat (utf8_encode s)) = Some (code_points s)"
proof -
  have "\<forall>b \<in> set (concat (map utf8_of (code_points s))). b < 256"
    using utf8_of_bytes code_points_scalar by fastforce
  then show ?thesis
    using utf8_points_encode [of "code_points s"] code_points_scalar
    unfolding utf8_encode_def by (simp add: map_unat_word_of_nat del: map_map)
qed

lemma text_decode_encode:
  assumes "well_formed16 s" "\<not> starts_with_bom s"
  shows "text_decode (utf8_encode s) = Some s"
  using assms by (simp add: text_decode_def utf8_encode_points strip_bom_code_points utf16_code_points)

lemma text_decode_encode_bom:
  assumes "well_formed16 (u # s)" "unat u = BOM"
  shows "text_decode (utf8_encode (u # s)) = Some s"
proof -
  have "\<not> high_surrogate (unat u)" "\<not> surrogate (unat u)"
    using assms(2) by (simp_all add: BOM_def high_surrogate_def surrogate_def)
  then have "code_points (u # s) = BOM # code_points s" "well_formed16 s"
    using assms by (cases s; simp)+
  then show ?thesis
    by (simp add: text_decode_def utf8_encode_points strip_bom_def utf16_code_points)
qed

definition bom_bytes :: "byte list" where "bom_bytes = [0xEF, 0xBB, 0xBF]"

lemma text_decode_sound:
  assumes "text_decode bs = Some s"
  shows "well_formed16 s" "utf8_encode s = bs \<or> bom_bytes @ utf8_encode s = bs"
proof -
  from assms obtain cs where cs: "utf8_points (map unat bs) = Some cs"
    and s: "s = concat (map utf16_of (strip_bom cs))"
    by (auto simp: text_decode_def)
  from utf8_points_sound [OF cs] have bs: "map unat bs = concat (map utf8_of cs)"
    and sv: "\<forall>c \<in> set cs. scalar_value c" by auto
  have sv': "\<forall>c \<in> set (strip_bom cs). scalar_value c"
    using sv by (auto simp: strip_bom_def split: list.splits if_splits)
  then show "well_formed16 s" unfolding s by (rule code_points_utf16)
  have enc: "utf8_encode s = map word_of_nat (concat (map utf8_of (strip_bom cs)))"
    unfolding s utf8_encode_def code_points_utf16(1) [OF sv'] ..
  have "map word_of_nat (concat (map utf8_of cs)) = bs"
    by (metis bs map_word_of_nat_unat)
  moreover have "strip_bom cs = cs \<or> cs = BOM # strip_bom cs"
    by (auto simp: strip_bom_def split: list.splits if_splits)
  moreover have "map word_of_nat (utf8_of BOM) = bom_bytes"
    by (simp add: utf8_of_def BOM_def bom_bytes_def)
  ultimately show "utf8_encode s = bs \<or> bom_bytes @ utf8_encode s = bs"
    unfolding enc by (metis concat.simps(2) list.simps(9) map_append)
qed

end
