(* ===== verification/JsNum.thy ===== *)
theory JsNum
  imports Prelude
begin

text \<open>
  Integers of the JavaScript standard library: decimal and hexadecimal text (\<open>BigInt(text)\<close>,
  \<open>toString\<close>, \<open>padStart\<close>), the canonical-text regular expressions of the clients, and the
  little-endian integers a \<open>DataView\<close> reads and writes.
\<close>

section \<open>Positional digits\<close>

text \<open>
  \<open>toString(base)\<close> of a nonnegative integer, most significant digit first, and the value of a digit
  string. \<open>pad_start\<close> is \<open>padStart(n, '0')\<close>.
\<close>

fun to_digits :: "nat \<Rightarrow> nat \<Rightarrow> nat list" where
  "to_digits b n = (if b < 2 \<or> n < b then [n] else to_digits b (n div b) @ [n mod b])"

declare to_digits.simps [simp del]

definition of_digits :: "nat \<Rightarrow> nat list \<Rightarrow> nat" where
  "of_digits b ds = foldl (\<lambda>a d. a * b + d) 0 ds"

definition digit_unit :: "nat \<Rightarrow> 16 word" where
  "digit_unit d = word_of_nat (if d < 10 then 48 + d else 87 + d)"

definition digit_value :: "16 word \<Rightarrow> nat" where
  "digit_value u = (if unat u < 58 then unat u - 48 else unat u - 87)"

definition nat_text :: "nat \<Rightarrow> nat \<Rightarrow> jstr" where
  "nat_text b n = map digit_unit (to_digits b n)"

definition text_nat :: "nat \<Rightarrow> jstr \<Rightarrow> nat" where
  "text_nat b s = of_digits b (map digit_value s)"

definition pad_start :: "nat \<Rightarrow> jstr \<Rightarrow> jstr" where
  "pad_start n s = replicate (n - length s) (digit_unit 0) @ s"

definition int_text :: "int \<Rightarrow> jstr" where
  "int_text z = (if z < 0 then 45 # nat_text 10 (nat (- z)) else nat_text 10 (nat z))"

definition text_int :: "jstr \<Rightarrow> int" where
  "text_int s = (case s of u # s' \<Rightarrow> if u = 45 then - int (text_nat 10 s') else int (text_nat 10 s)
                 | [] \<Rightarrow> 0)"

lemma of_digits_append [simp]: "of_digits b (ds @ [d]) = of_digits b ds * b + d"
  by (simp add: of_digits_def)

lemma of_digits_Nil [simp]: "of_digits b [] = 0"
  by (simp add: of_digits_def)

lemma of_to_digits: "of_digits b (to_digits b n) = n"
proof (induction b n rule: to_digits.induct)
  case (1 b n)
  then show ?case
    by (subst to_digits.simps) (auto simp: of_digits_def)
qed

lemma to_digits_less: "2 \<le> b \<Longrightarrow> d \<in> set (to_digits b n) \<Longrightarrow> d < b"
proof (induction b n rule: to_digits.induct)
  case (1 b n)
  then show ?case by (subst (asm) to_digits.simps) (auto split: if_splits)
qed

lemma to_digits_nonempty: "to_digits b n \<noteq> []"
  by (subst to_digits.simps) simp

lemma hd_to_digits: "2 \<le> b \<Longrightarrow> 0 < n \<Longrightarrow> hd (to_digits b n) \<noteq> 0"
proof (induction b n rule: to_digits.induct)
  case (1 b n)
  then show ?case
    by (subst to_digits.simps) (auto simp: to_digits_nonempty hd_append div_greater_zero_iff)
qed

lemma to_of_digits:
  "2 \<le> b \<Longrightarrow> \<forall>d \<in> set ds. d < b \<Longrightarrow> ds \<noteq> [] \<Longrightarrow> hd ds \<noteq> 0 \<or> length ds = 1 \<Longrightarrow>
     to_digits b (of_digits b ds) = ds"
proof (induction ds rule: rev_induct)
  case (snoc d ds)
  show ?case
  proof (cases "ds = []")
    case True
    with snoc.prems show ?thesis by (subst to_digits.simps) (simp add: of_digits_def)
  next
    case False
    with snoc have IH: "to_digits b (of_digits b ds) = ds" "hd ds \<noteq> 0" by auto
    have "of_digits b ds \<noteq> 0"
    proof
      assume "of_digits b ds = 0"
      with IH snoc.prems have "ds = [0]" by (simp add: to_digits.simps [of b 0])
      with IH(2) show False by simp
    qed
    then have "1 \<le> of_digits b ds" by simp
    then have "1 * b \<le> of_digits b ds * b" by (rule mult_le_mono1)
    then have "\<not> of_digits b (ds @ [d]) < b" unfolding of_digits_append by linarith
    moreover have "\<not> b < 2" "d < b" using snoc.prems by auto
    ultimately show ?thesis using IH by (subst to_digits.simps) simp
  qed
qed simp

text \<open>Canonical integer text: the regular expression \<open>^(?:0|-[1-9][0-9]*|[1-9][0-9]*)$\<close>.\<close>

definition decimal_digit :: "16 word \<Rightarrow> bool" where
  "decimal_digit u \<longleftrightarrow> 48 \<le> unat u \<and> unat u \<le> 57"

definition positive_text :: "jstr \<Rightarrow> bool" where
  "positive_text s \<longleftrightarrow>
     (case s of [] \<Rightarrow> False
      | u # us \<Rightarrow> 49 \<le> unat u \<and> unat u \<le> 57 \<and> list_all decimal_digit us)"

definition I64 :: "jstr \<Rightarrow> bool" where
  "I64 s \<longleftrightarrow> s = [48] \<or> positive_text s \<or> (\<exists>s'. s = 45 # s' \<and> positive_text s')"

lemma I64_code [code]:
  "I64 s \<longleftrightarrow> s = [48] \<or> positive_text s \<or>
     (case s of [] \<Rightarrow> False | u # s' \<Rightarrow> u = 45 \<and> positive_text s')"
  by (auto simp: I64_def split: list.splits)

text \<open>Sixteen lowercase hexadecimal digits: \<open>^[0-9a-f]{16}$\<close>.\<close>

definition hex_digit :: "16 word \<Rightarrow> bool" where
  "hex_digit u \<longleftrightarrow> (48 \<le> unat u \<and> unat u \<le> 57) \<or> (97 \<le> unat u \<and> unat u \<le> 102)"

definition FLOAT64 :: "jstr \<Rightarrow> bool" where
  "FLOAT64 s \<longleftrightarrow> length s = 16 \<and> list_all hex_digit s"

lemma digit_value_unit [simp]: "d < 16 \<Longrightarrow> digit_value (digit_unit d) = d"
  by (simp add: digit_value_def digit_unit_def del: of_nat_add)

lemma digit_unit_value:
  "hex_digit u \<Longrightarrow> digit_unit (digit_value u) = u"
  by (auto simp: digit_value_def digit_unit_def hex_digit_def simp flip: of_nat_add)

lemma decimal_is_hex: "decimal_digit u \<Longrightarrow> hex_digit u"
  by (simp add: decimal_digit_def hex_digit_def)

lemma text_nat_text [simp]:
  assumes "2 \<le> b" "b \<le> 16"
  shows "text_nat b (nat_text b n) = n"
proof -
  have "map (digit_value \<circ> digit_unit) (to_digits b n) = to_digits b n"
  proof (rule map_idI)
    fix d assume "d \<in> set (to_digits b n)"
    then have "d < b" using assms(1) by (rule to_digits_less [rotated])
    with assms(2) show "(digit_value \<circ> digit_unit) d = d" by simp
  qed
  then show ?thesis by (simp add: text_nat_def nat_text_def of_to_digits)
qed

lemma nat_text_text:
  assumes "2 \<le> b" "b \<le> 16" "\<forall>u \<in> set s. hex_digit u \<and> digit_value u < b" "s \<noteq> []"
    "digit_value (hd s) \<noteq> 0 \<or> length s = 1"
  shows "nat_text b (text_nat b s) = s"
proof -
  have "to_digits b (of_digits b (map digit_value s)) = map digit_value s"
    using assms by (intro to_of_digits) (auto simp: hd_map)
  moreover have "map digit_unit (map digit_value s) = s"
    using assms(3) by (simp add: digit_unit_value map_idI)
  ultimately show ?thesis by (simp add: nat_text_def text_nat_def)
qed

lemma positive_text_digits:
  assumes "positive_text s"
  shows "s \<noteq> []" "list_all decimal_digit s" "digit_value (hd s) \<noteq> 0" "hd s \<noteq> 45"
proof -
  from assms obtain u us where s: "s = u # us" "49 \<le> unat u" "unat u \<le> 57" "list_all decimal_digit us"
    by (auto simp: positive_text_def split: list.splits)
  then show "s \<noteq> []" "list_all decimal_digit s" "digit_value (hd s) \<noteq> 0"
    by (simp_all add: decimal_digit_def digit_value_def)
  from s show "hd s \<noteq> 45" by auto
qed

lemma decimal_digit_value: "decimal_digit u \<Longrightarrow> digit_value u < 10"
  unfolding decimal_digit_def digit_value_def by (erule conjE) simp

lemma nat_text_positive:
  assumes "positive_text s"
  shows "nat_text 10 (text_nat 10 s) = s"
  using positive_text_digits [OF assms]
  by (intro nat_text_text) (auto simp: list_all_iff decimal_is_hex decimal_digit_value)

lemma nat_text_decimal: "list_all decimal_digit (nat_text 10 n)"
proof -
  have "decimal_digit (digit_unit d)" if "d \<in> set (to_digits 10 n)" for d
    using to_digits_less [of 10 d n] that
    by (simp add: decimal_digit_def digit_unit_def del: of_nat_add)
  then show ?thesis by (simp add: nat_text_def list_all_iff)
qed

lemma positive_nat_text:
  assumes "0 < n"
  shows "positive_text (nat_text 10 n)"
proof -
  obtain d ds where ds: "to_digits 10 n = d # ds" using to_digits_nonempty [of 10 n] by (cases "to_digits 10 n") auto
  then have "d \<noteq> 0" "d < 10" using hd_to_digits [of 10 n] to_digits_less [of 10 d n] assms by auto
  moreover have "list_all decimal_digit (map digit_unit ds)"
    using nat_text_decimal [of n] ds by (simp add: nat_text_def)
  ultimately show ?thesis
    using ds by (simp add: nat_text_def positive_text_def digit_unit_def unat_of_nat del: of_nat_add)
qed

lemma text_nat_positive:
  assumes "positive_text s"
  shows "0 < text_nat 10 s"
proof (rule ccontr)
  assume "\<not> 0 < text_nat 10 s"
  then have "s = nat_text 10 0" using nat_text_positive [OF assms] by simp
  then have "hd s = digit_unit 0" by (simp add: nat_text_def to_digits.simps)
  then show False using positive_text_digits(3) [OF assms] by simp
qed

lemma int_text_0: "int_text 0 = [48]"
  by (simp add: int_text_def nat_text_def to_digits.simps digit_unit_def)

lemma I64_int_text: "I64 (int_text z)"
proof -
  consider "z = 0" | "0 < z" | "z < 0" by linarith
  then show ?thesis
  proof cases
    case 1
    then show ?thesis by (simp add: int_text_0 I64_def)
  next
    case 2
    then show ?thesis using positive_nat_text [of "nat z"] by (simp add: int_text_def I64_def)
  next
    case 3
    then show ?thesis using positive_nat_text [of "nat (- z)"] by (simp add: int_text_def I64_def)
  qed
qed

lemma text_int_text [simp]: "text_int (int_text z) = z"
proof -
  consider "z = 0" | "0 < z" | "z < 0" by linarith
  then show ?thesis
  proof cases
    case 1
    then show ?thesis by (simp add: int_text_0 text_int_def text_nat_def digit_value_def of_digits_def)
  next
    case 2
    have p: "positive_text (nat_text 10 (nat z))" using 2 by (simp add: positive_nat_text)
    from positive_text_digits(1,4) [OF p]
    have "text_int (nat_text 10 (nat z)) = int (text_nat 10 (nat_text 10 (nat z)))"
      by (cases "nat_text 10 (nat z)") (auto simp: text_int_def)
    then show ?thesis using 2 by (simp add: int_text_def)
  next
    case 3
    then show ?thesis by (simp add: int_text_def text_int_def)
  qed
qed

lemma int_text_int:
  assumes "I64 s"
  shows "int_text (text_int s) = s"
proof -
  from assms consider "s = [48]" | "positive_text s" | s' where "s = 45 # s'" "positive_text s'"
    by (auto simp: I64_def)
  then show ?thesis
  proof cases
    case 1
    have "text_int [48] = 0" by (simp add: text_int_def text_nat_def digit_value_def of_digits_def)
    with 1 show ?thesis by (simp add: int_text_0)
  next
    case 2
    then have "text_int s = int (text_nat 10 s)"
      using positive_text_digits [OF 2] by (cases s) (auto simp: text_int_def)
    then show ?thesis using nat_text_positive [OF 2] by (simp add: int_text_def)
  next
    case 3
    then have "text_int s = - int (text_nat 10 s')" by (simp add: text_int_def)
    then show ?thesis
      using 3 text_nat_positive [of s'] nat_text_positive [of s'] by (simp add: int_text_def)
  qed
qed

theorem I64_iff: "I64 s \<longleftrightarrow> (\<exists>z. s = int_text z)"
  using I64_int_text int_text_int by metis

lemma int_text_inject [simp]: "int_text y = int_text z \<longleftrightarrow> y = z"
  by (metis text_int_text)

section \<open>Little-endian integers\<close>

fun le_bytes :: "nat \<Rightarrow> nat \<Rightarrow> byte list" where
  "le_bytes 0 n = []"
| "le_bytes (Suc k) n = word_of_nat n # le_bytes k (n div 256)"

fun le_nat :: "byte list \<Rightarrow> nat" where
  "le_nat [] = 0"
| "le_nat (b # bs) = unat b + 256 * le_nat bs"

definition le_int :: "byte list \<Rightarrow> int" where
  "le_int bs = (let n = int (le_nat bs); m = 2 ^ (8 * length bs)
                in if 2 * n < m then n else n - m)"

lemma length_le_bytes [simp]: "length (le_bytes k n) = k"
  by (induction k arbitrary: n) simp_all

lemma unat_byte_of_nat: "unat (word_of_nat n :: byte) = n mod 256"
  by (simp add: unat_of_nat)

lemma le_nat_bytes [simp]: "le_nat (le_bytes k n) = n mod 256 ^ k"
proof (induction k arbitrary: n)
  case (Suc k)
  have "n mod 256 + 256 * (n div 256 mod 256 ^ k) = n mod (256 * 256 ^ k)"
    by (simp add: mod_mult2_eq)
  with Suc show ?case by (simp add: unat_byte_of_nat)
qed simp

lemma le_nat_less: "le_nat bs < 256 ^ length bs"
proof (induction bs)
  case (Cons b bs)
  have "unat b < 256" using unsigned_less [of b, where ?'a = nat] by simp
  with Cons show ?case by simp
qed simp

lemma le_bytes_nat [simp]: "le_bytes (length bs) (le_nat bs) = bs"
proof (induction bs)
  case (Cons b bs)
  have "unat b < 256" using unsigned_less [of b, where ?'a = nat] by simp
  then have "(unat b + 256 * le_nat bs) div 256 = le_nat bs" by simp
  moreover have "(word_of_nat (unat b + 256 * le_nat bs) :: byte) = b"
    by (rule unsigned_word_eqI [where 'a = nat]) (use \<open>unat b < 256\<close> in \<open>simp add: unat_byte_of_nat del: of_nat_add\<close>)
  ultimately show ?case using Cons by simp
qed simp

lemma le_nat_inject: "length bs = length cs \<Longrightarrow> le_nat bs = le_nat cs \<Longrightarrow> bs = cs"
  by (metis le_bytes_nat)

lemma le_int_bytes:
  assumes "- (2 ^ 63) \<le> z" "z < 2 ^ 63"
  shows "le_int (le_bytes 8 (nat (z mod 2 ^ 64))) = z"
proof -
  have "int (le_nat (le_bytes 8 (nat (z mod 2 ^ 64)))) = z mod 2 ^ 64"
    by (simp add: zmod_int)
  moreover have "z mod 2 ^ 64 = (if 0 \<le> z then z else z + 2 ^ 64)"
    using assms mod_pos_pos_trivial [of z "2 ^ 64"] mod_pos_pos_trivial [of "z + 2 ^ 64" "2 ^ 64"]
    by auto
  ultimately show ?thesis using assms by (auto simp: le_int_def Let_def)
qed

lemma le_int_range:
  assumes "length bs = 8"
  shows "- (2 ^ 63) \<le> le_int bs" "le_int bs < 2 ^ 63" "le_bytes 8 (nat (le_int bs mod 2 ^ 64)) = bs"
proof -
  have l: "le_nat bs < 2 ^ 64" using le_nat_less [of bs] assms by simp
  then show "- (2 ^ 63) \<le> le_int bs" "le_int bs < 2 ^ 63"
    using assms by (auto simp: le_int_def Let_def)
  have "le_int bs mod 2 ^ 64 = int (le_nat bs)"
    using l assms mod_pos_pos_trivial [of "int (le_nat bs)" "2 ^ 64"]
    by (auto simp: le_int_def Let_def)
  then show "le_bytes 8 (nat (le_int bs mod 2 ^ 64)) = bs"
    using le_bytes_nat [of bs] assms by simp
qed

end
