(* ===== verification/JsValue.thy ===== *)
theory JsValue
  imports JsText JsNum
begin

text \<open>
  The JavaScript values a caller can hand to the clients, and the language operations the code
  applies to them: \<open>typeof\<close>, \<open>Array.isArray\<close>, truthiness, own properties, and the number tests.
  Numbers are IEEE-754 bit patterns, bigints are integers, objects are their own enumerable string
  properties in order. A \<open>Date\<close> is its \<open>getTime\<close> value, \<open>None\<close> for an invalid date.
\<close>

datatype jsval =
    JUndef
  | JNull
  | JBool bool
  | JNum "64 word"
  | JBigInt int
  | JStr jstr
  | JDate "int option"
  | JArr "jsval list"
  | JObj "(jstr \<times> jsval) list"
  | JFun

section \<open>Numbers\<close>

definition num_exponent :: "64 word \<Rightarrow> nat" where
  "num_exponent b = unat b div 2 ^ 52 mod 2048"

definition num_fraction :: "64 word \<Rightarrow> nat" where
  "num_fraction b = unat b mod 2 ^ 52"

definition is_nan :: "64 word \<Rightarrow> bool" where
  "is_nan b \<longleftrightarrow> num_exponent b = 2047 \<and> num_fraction b \<noteq> 0"

text \<open>The integer a finite number denotes, \<open>None\<close> when it is not an integer.\<close>

definition num_int :: "64 word \<Rightarrow> int option" where
  "num_int b =
     (let e = num_exponent b; f = num_fraction b;
          m = (if e = 0 then f else f + 2 ^ 52);
          k = (if e = 0 then 1 else e);
          s = (if unat b < 2 ^ 63 then 1 else - 1)
      in if e = 2047 then None
         else if 1075 \<le> k then Some (s * int (m * 2 ^ (k - 1075)))
         else if m mod 2 ^ (1075 - k) = 0 then Some (s * int (m div 2 ^ (1075 - k)))
         else None)"

definition safe_int :: "64 word \<Rightarrow> int option" where
  "safe_int b = (case num_int b of
     Some z \<Rightarrow> if \<bar>z\<bar> \<le> 9007199254740991 then Some z else None
   | None \<Rightarrow> None)"

text \<open>\<open>Number.isSafeInteger\<close>\<close>

definition is_safe_integer :: "64 word \<Rightarrow> bool" where
  "is_safe_integer b \<longleftrightarrow> safe_int b \<noteq> None"

section \<open>Language operations\<close>

definition truthy :: "jsval \<Rightarrow> bool" where
  "truthy v = (case v of
     JUndef \<Rightarrow> False | JNull \<Rightarrow> False | JBool b \<Rightarrow> b
   | JNum b \<Rightarrow> \<not> is_nan b \<and> num_int b \<noteq> Some 0
   | JBigInt z \<Rightarrow> z \<noteq> 0 | JStr s \<Rightarrow> s \<noteq> [] | _ \<Rightarrow> True)"

definition nullish :: "jsval \<Rightarrow> bool" where
  "nullish v \<longleftrightarrow> v = JUndef \<or> v = JNull"

definition is_array :: "jsval \<Rightarrow> bool" where
  "is_array v = (case v of JArr _ \<Rightarrow> True | _ \<Rightarrow> False)"

text \<open>
  The own properties of a value that is an object and no array; \<open>None\<close> for any other value. This
  is the test \<open>!value || typeof value !== 'object' || Array.isArray(value)\<close> of the clients.
\<close>

definition object_fields :: "jsval \<Rightarrow> (jstr \<times> jsval) list option" where
  "object_fields v = (case v of JObj fs \<Rightarrow> Some fs | JDate _ \<Rightarrow> Some [] | _ \<Rightarrow> None)"

text \<open>\<open>Object.hasOwn(value, key)\<close> and \<open>value[key]\<close> on the own properties of an object.\<close>

definition has_own :: "(jstr \<times> jsval) list \<Rightarrow> string \<Rightarrow> bool" where
  "has_own fs k \<longleftrightarrow> map_of fs (js k) \<noteq> None"

definition get_prop :: "(jstr \<times> jsval) list \<Rightarrow> string \<Rightarrow> jsval" where
  "get_prop fs k = (case map_of fs (js k) of Some v \<Rightarrow> v | None \<Rightarrow> JUndef)"

text \<open>The elements of an array for \<open>value.map(...)\<close>; any other value has no such method.\<close>

definition array_items :: "jsval \<Rightarrow> jsval list res" where
  "array_items v = (case v of JArr xs \<Rightarrow> Inr xs | _ \<Rightarrow> Inl JsTypeError)"

lemma has_own_simps [simp]:
  "has_own [] k = False"
  "has_own ((js k', v) # fs) k = (k' = k \<or> has_own fs k)"
  by (auto simp: has_own_def)

lemma get_prop_simps [simp]:
  "get_prop [] k = JUndef"
  "get_prop ((js k', v) # fs) k = (if k' = k then v else get_prop fs k)"
  by (auto simp: get_prop_def)

lemma num_exponent_of_nat:
  "n < 2 ^ 64 \<Longrightarrow> num_exponent (word_of_nat n) = n div 2 ^ 52 mod 2048"
  by (simp add: num_exponent_def unat_of_nat)

lemma num_fraction_of_nat:
  "n < 2 ^ 64 \<Longrightarrow> num_fraction (word_of_nat n) = n mod 2 ^ 52"
  by (simp add: num_fraction_def unat_of_nat)

section \<open>The number of a count\<close>

text \<open>The double that denotes a natural number below \<open>2 ^ 53\<close>: what \<open>length\<close> and the counters evaluate to.\<close>

fun bit_count :: "nat \<Rightarrow> nat" where
  "bit_count n = (if n = 0 then 0 else Suc (bit_count (n div 2)))"

declare bit_count.simps [simp del]

lemma bit_count_bounds: "n \<noteq> 0 \<Longrightarrow> 2 ^ (bit_count n - 1) \<le> n \<and> n < 2 ^ bit_count n"
proof (induction n rule: bit_count.induct)
  case (1 n)
  note step = bit_count.simps [of n]
  show ?case
  proof (cases "n div 2 = 0")
    case True
    with "1.prems" have "n = 1" by simp
    then show ?thesis using step by (simp add: bit_count.simps [of 0])
  next
    case False
    then have ih: "2 ^ (bit_count (n div 2) - 1) \<le> n div 2" "n div 2 < 2 ^ bit_count (n div 2)"
      using "1.IH" "1.prems" by auto
    have "bit_count (n div 2) \<noteq> 0" using ih(2) False by (cases "bit_count (n div 2)") auto
    then obtain j where j: "bit_count (n div 2) = Suc j" by (cases "bit_count (n div 2)") auto
    then show ?thesis using ih step "1.prems" by auto
  qed
qed

definition num_of_nat :: "nat \<Rightarrow> 64 word" where
  "num_of_nat n =
     (if n = 0 then 0
      else let k = bit_count n in word_of_nat ((1022 + k) * 2 ^ 52 + (n * 2 ^ (53 - k) - 2 ^ 52)))"

lemma num_int_num_of_nat:
  assumes "n < 2 ^ 53"
  shows "num_int (num_of_nat n) = Some (int n)"
proof (cases "n = 0")
  case True
  then show ?thesis
    by (simp add: num_of_nat_def num_int_def num_exponent_def num_fraction_def Let_def)
next
  case False
  define k where "k = bit_count n"
  have b: "2 ^ (k - 1) \<le> n" "n < 2 ^ k" using bit_count_bounds [OF False] by (auto simp: k_def)
  have k1: "1 \<le> k" using b(2) False by (cases k) auto
  have "(2::nat) ^ (k - 1) < 2 ^ 53" using b(1) assms by (rule le_less_trans)
  then have "k - 1 < 53" using power_less_imp_less_exp [of 2 "k - 1" 53] by simp
  then have k2: "k \<le> 53" by simp
  define m where "m = n * 2 ^ (53 - k)"
  have "(2::nat) ^ (k - 1) * 2 ^ (53 - k) = 2 ^ 52"
    using k1 k2 by (simp only: power_add [symmetric]) simp
  then have m1: "2 ^ 52 \<le> m" using mult_le_mono1 [OF b(1), of "2 ^ (53 - k)"] by (simp only: m_def)
  have "(2::nat) ^ k * 2 ^ (53 - k) = 2 ^ 53"
    using k2 by (simp only: power_add [symmetric]) simp
  then have m2: "m < 2 ^ 53"
    using mult_strict_right_mono [OF b(2), of "2 ^ (53 - k)"] by (simp only: m_def) simp
  define u where "u = (1022 + k) * 2 ^ 52 + (m - 2 ^ 52)"
  have small: "m - 2 ^ 52 < 2 ^ 52" using m1 m2 by simp
  have u1: "u div 2 ^ 52 = 1022 + k" and u2: "u mod 2 ^ 52 = m - 2 ^ 52"
    unfolding u_def mod_mult_self3 using small by simp_all
  have "u < (1022 + k + 1) * 2 ^ 52" using small by (simp add: u_def)
  also have "\<dots> \<le> 1076 * 2 ^ 52" using k2 by (intro mult_le_mono1) simp
  finally have u3: "u < 2 ^ 63" by simp
  have u64: "u < 2 ^ 64" using u3 by simp
  have e: "num_exponent (word_of_nat u) = 1022 + k" "num_fraction (word_of_nat u) = m - 2 ^ 52"
    using k2 unfolding num_exponent_of_nat [OF u64] num_fraction_of_nat [OF u64] u1 u2 by simp_all
  have e3: "unat (word_of_nat u :: 64 word) < 2 ^ 63" using u3 u64 by (simp add: unat_of_nat)
  have eq: "num_of_nat n = word_of_nat u" using False by (simp add: num_of_nat_def k_def u_def m_def Let_def)
  show ?thesis
  proof (cases "k = 53")
    case True
    then have "m = n" by (simp add: m_def)
    then show ?thesis using e e3 m1 True by (simp add: eq num_int_def Let_def)
  next
    case False
    then have "1075 - (1022 + k) = 53 - k" "\<not> 1075 \<le> 1022 + k" "k \<noteq> 1025" using k2 by simp_all
    then show ?thesis using e e3 m1 by (simp add: eq num_int_def Let_def) (simp add: m_def)
  qed
qed

lemma safe_int_num_of_nat: "n < 2 ^ 53 \<Longrightarrow> safe_int (num_of_nat n) = Some (int n)"
  by (simp add: safe_int_def num_int_num_of_nat)

end
