(* ===== verification/FramTerm.thy ===== *)
theory FramTerm
  imports JsValue
begin

text \<open>
  Terms as \<^verbatim>\<open>clients/bun/framrpc-core.mjs\<close> represents them: tagged JavaScript arrays, with the
  constructors and \<open>validateTerm\<close>. The abstract datatype \<open>fterm\<close> is the kernel's Term, and the
  lemmas say which arrays \<open>validateTerm\<close> accepts and which Term each one denotes.
\<close>

definition MAX_STRING_BYTES :: nat where "MAX_STRING_BYTES = 1048576"
definition MAX_SPACE_BYTES :: nat where "MAX_SPACE_BYTES = 4096"
definition MAX_TERM_NODES :: nat where "MAX_TERM_NODES = 65536"
definition MAX_TERM_DEPTH :: nat where "MAX_TERM_DEPTH = 256"
definition I64_MIN :: int where "I64_MIN = - (2 ^ 63)"
definition I64_MAX :: int where "I64_MAX = 2 ^ 63 - 1"
definition U32_MAX :: int where "U32_MAX = 2 ^ 32 - 1"

abbreviation fail :: "string \<Rightarrow> 'a res" where
  "fail code \<equiv> Inl (ProtocolError code)"

section \<open>Checks on atoms\<close>

text \<open>\<open>decimal(value, {min, max})\<close>: canonical decimal text of an integer in range.\<close>

definition decimal :: "int \<Rightarrow> int \<Rightarrow> jsval \<Rightarrow> jstr res" where
  "decimal lo hi value =
     rbind (case value of
              JBigInt z \<Rightarrow> Inr (int_text z)
            | JNum b \<Rightarrow> (case safe_int b of Some z \<Rightarrow> Inr (int_text z)
                         | None \<Rightarrow> fail ''client/invalid-integer'')
            | JStr s \<Rightarrow> if I64 s then Inr s else fail ''client/invalid-integer''
            | _ \<Rightarrow> fail ''client/invalid-integer'')
       (\<lambda>text. if \<not> I64 text then fail ''client/invalid-integer''
         else let parsed = text_int text
              in if parsed < lo \<or> hi < parsed then fail ''client/integer-range'' else Inr text)"

definition decimal_i64 :: "jsval \<Rightarrow> jstr res" where
  "decimal_i64 = decimal I64_MIN I64_MAX"

definition integerBigInt :: "int \<Rightarrow> int \<Rightarrow> jsval \<Rightarrow> int res" where
  "integerBigInt lo hi value = rbind (decimal lo hi value) (\<lambda>text. Inr (text_int text))"

text \<open>\<open>strictUtf8(value, maximum)\<close>; \<open>well_formed16\<close> is its loop over the code units.\<close>

definition strictUtf8 :: "nat \<Rightarrow> jsval \<Rightarrow> byte list res" where
  "strictUtf8 maximum value =
     (case value of
        JStr s \<Rightarrow>
          if \<not> well_formed16 s then fail ''client/invalid-utf8''
          else let bytes = utf8_encode s
               in if maximum < length bytes then fail ''client/string-limit'' else Inr bytes
      | _ \<Rightarrow> fail ''client/invalid-text'')"

definition canonical_nan :: jstr where "canonical_nan = js ''7ff8000000000000''"

definition canonicalFloatBits :: "jsval \<Rightarrow> jstr res" where
  "canonicalFloatBits bits =
     (case bits of
        JStr s \<Rightarrow>
          if \<not> FLOAT64 s then fail ''client/invalid-float''
          else let raw = text_nat 16 s;
                   exponent = raw div 2 ^ 52 mod 2048;
                   fraction = raw mod 2 ^ 52
               in if exponent = 2047 \<and> fraction \<noteq> 0 \<and> s \<noteq> canonical_nan
                  then fail ''client/invalid-float'' else Inr s
      | _ \<Rightarrow> fail ''client/invalid-float'')"

text \<open>The eight big-endian bytes of a number, each as two hexadecimal digits.\<close>

definition floatBits :: "jsval \<Rightarrow> jstr res" where
  "floatBits value =
     (case value of
        JNum b \<Rightarrow>
          if is_nan b then Inr canonical_nan
          else Inr (concat (map (\<lambda>byte. pad_start 2 (nat_text 16 (unat byte)))
                                (rev (le_bytes 8 (unat b)))))
      | _ \<Rightarrow> fail ''client/invalid-float'')"

section \<open>Constructors\<close>

definition stringTerm :: "jsval \<Rightarrow> jsval res" where
  "stringTerm value =
     rbind (strictUtf8 MAX_STRING_BYTES value) (\<lambda>_. Inr (JArr [JStr (js ''string''), value]))"

definition integerTerm :: "jsval \<Rightarrow> jsval res" where
  "integerTerm value =
     rbind (decimal_i64 value) (\<lambda>text. Inr (JArr [JStr (js ''integer''), JStr text]))"

definition float64Term :: "jsval \<Rightarrow> jsval res" where
  "float64Term value =
     rbind (floatBits value) (\<lambda>bits. Inr (JArr [JStr (js ''float64''), JStr bits]))"

definition booleanTerm :: "jsval \<Rightarrow> jsval res" where
  "booleanTerm value =
     (case value of
        JBool b \<Rightarrow> Inr (JArr [JStr (js ''boolean''), value])
      | _ \<Rightarrow> fail ''client/invalid-term'')"

definition keywordTerm :: "jsval \<Rightarrow> jsval res" where
  "keywordTerm value =
     rbind (strictUtf8 MAX_STRING_BYTES value)
       (\<lambda>bytes. if length bytes = 0 then fail ''client/invalid-keyword''
         else Inr (JArr [JStr (js ''keyword''), value]))"

definition instantTerm :: "jsval \<Rightarrow> jsval \<Rightarrow> jsval res" where
  "instantTerm seconds nanos =
     rbind (decimal_i64 seconds) (\<lambda>s.
     rbind (decimal 0 999999999 nanos) (\<lambda>n.
       Inr (JArr [JStr (js ''instant''), JStr s, JStr n])))"

section \<open>validateTerm\<close>

text \<open>The budget object: visited nodes and the deepest level seen (absent counts as 0).\<close>

record budget =
  nodes :: nat
  maxDepth :: nat

definition fresh_budget :: budget where
  "fresh_budget = \<lparr>nodes = 0, maxDepth = 0\<rparr>"

function validateTerm :: "nat \<Rightarrow> budget \<Rightarrow> jsval \<Rightarrow> budget res" where
  "validateTerm depth bud value =
     (if MAX_TERM_DEPTH < depth then fail ''client/term-depth''
      else let b1 = bud\<lparr>nodes := nodes bud + 1, maxDepth := max (maxDepth bud) depth\<rparr>
      in if MAX_TERM_NODES < nodes b1 then fail ''client/term-nodes''
      else case value of
        JArr (JStr tag # args) \<Rightarrow>
          if tag = js ''string'' then
            (case args of [x] \<Rightarrow> rbind (strictUtf8 MAX_STRING_BYTES x) (\<lambda>_. Inr b1)
             | _ \<Rightarrow> fail ''client/invalid-term'')
          else if tag = js ''integer'' then
            (case args of [x] \<Rightarrow> rbind (decimal_i64 x) (\<lambda>_. Inr b1)
             | _ \<Rightarrow> fail ''client/invalid-term'')
          else if tag = js ''float64'' then
            (case args of [x] \<Rightarrow> rbind (canonicalFloatBits x) (\<lambda>_. Inr b1)
             | _ \<Rightarrow> fail ''client/invalid-term'')
          else if tag = js ''boolean'' then
            (case args of [JBool _] \<Rightarrow> Inr b1 | _ \<Rightarrow> fail ''client/invalid-term'')
          else if tag = js ''keyword'' then
            (case args of [x] \<Rightarrow> rbind (keywordTerm x) (\<lambda>_. Inr b1)
             | _ \<Rightarrow> fail ''client/invalid-term'')
          else if tag = js ''instant'' then
            (case args of [x, y] \<Rightarrow>
               rbind (decimal_i64 x) (\<lambda>_. rbind (decimal 0 999999999 y) (\<lambda>_. Inr b1))
             | _ \<Rightarrow> fail ''client/invalid-term'')
          else if tag = js ''triple'' then
            (case args of [x, y, z] \<Rightarrow>
               rbind (validateTerm (depth + 1) b1 x) (\<lambda>b2.
               rbind (validateTerm (depth + 1) b2 y) (\<lambda>b3.
                 validateTerm (depth + 1) b3 z))
             | _ \<Rightarrow> fail ''client/invalid-term'')
          else fail ''client/invalid-term''
      | _ \<Rightarrow> fail ''client/invalid-term'')"
  by pat_completeness auto
termination
  by (relation "measure (\<lambda>(depth, _, _). 257 - depth)") (auto simp: MAX_TERM_DEPTH_def)

declare validateTerm.simps [simp del]

text \<open>\<open>term(value)\<close>: coercion of a plain JavaScript value, or validation of a tagged array.\<close>

definition trunc_div :: "int \<Rightarrow> int \<Rightarrow> int" where
  "trunc_div a b = sgn a * sgn b * (\<bar>a\<bar> div \<bar>b\<bar>)"

definition dateTerm :: "int option \<Rightarrow> jsval res" where
  "dateTerm time =
     (case time of
        None \<Rightarrow> Inl JsRangeError
      | Some millis \<Rightarrow>
          let seconds = (if 0 \<le> millis then trunc_div millis 1000
                         else trunc_div (millis - 999) 1000);
              nanos = (millis - seconds * 1000) * 1000000
          in instantTerm (JBigInt seconds) (JBigInt nanos))"

definition toTerm :: "jsval \<Rightarrow> jsval res" where
  "toTerm value =
     (case value of
        JArr _ \<Rightarrow> rbind (validateTerm 0 fresh_budget value) (\<lambda>_. Inr value)
      | JStr _ \<Rightarrow> stringTerm value
      | JBigInt _ \<Rightarrow> integerTerm value
      | JNum b \<Rightarrow> if is_safe_integer b then integerTerm value else float64Term value
      | JBool _ \<Rightarrow> booleanTerm value
      | JDate t \<Rightarrow> dateTerm t
      | _ \<Rightarrow> fail ''client/invalid-term'')"

definition tripleTerm :: "jsval \<Rightarrow> jsval \<Rightarrow> jsval \<Rightarrow> jsval res" where
  "tripleTerm t1 t2 t3 =
     rbind (toTerm t1) (\<lambda>a. rbind (toTerm t2) (\<lambda>b. rbind (toTerm t3) (\<lambda>c.
       Inr (JArr [JStr (js ''triple''), a, b, c]))))"

section \<open>The Term a tagged array denotes\<close>

text \<open>
  The kernel's Term. An Integer and an Instant carry integers whatever JavaScript form the array
  has for them, a Float its 64 bits.
\<close>

datatype fterm =
    FString jstr
  | FInteger int
  | FFloat "64 word"
  | FBoolean bool
  | FKeyword jstr
  | FInstant int int
  | FTriple fterm fterm fterm

fun term_size :: "fterm \<Rightarrow> nat" where
  "term_size (FTriple a b c) = 1 + term_size a + term_size b + term_size c"
| "term_size _ = 1"

fun term_depth :: "fterm \<Rightarrow> nat" where
  "term_depth (FTriple a b c) = 1 + max (term_depth a) (max (term_depth b) (term_depth c))"
| "term_depth _ = 0"

definition text_ok :: "jstr \<Rightarrow> bool" where
  "text_ok s \<longleftrightarrow> well_formed16 s \<and> length (utf8_encode s) \<le> MAX_STRING_BYTES"

definition i64_ok :: "int \<Rightarrow> bool" where
  "i64_ok z \<longleftrightarrow> I64_MIN \<le> z \<and> z \<le> I64_MAX"

definition float_ok :: "64 word \<Rightarrow> bool" where
  "float_ok b \<longleftrightarrow> \<not> is_nan b \<or> b = 0x7ff8000000000000"

fun atom_ok :: "fterm \<Rightarrow> bool" where
  "atom_ok (FString s) = text_ok s"
| "atom_ok (FInteger z) = i64_ok z"
| "atom_ok (FFloat b) = float_ok b"
| "atom_ok (FBoolean b) = True"
| "atom_ok (FKeyword s) = (text_ok s \<and> s \<noteq> [])"
| "atom_ok (FInstant sec ns) = (i64_ok sec \<and> 0 \<le> ns \<and> ns \<le> 999999999)"
| "atom_ok (FTriple a b c) = (atom_ok a \<and> atom_ok b \<and> atom_ok c)"

text \<open>A Term the wire admits: every atom in range, and the node and nesting limits.\<close>

definition term_ok :: "fterm \<Rightarrow> bool" where
  "term_ok t \<longleftrightarrow> atom_ok t \<and> term_size t \<le> MAX_TERM_NODES \<and> term_depth t \<le> MAX_TERM_DEPTH"

text \<open>The canonical tagged array of a Term: what the constructors and the reader build.\<close>

definition float_text :: "64 word \<Rightarrow> jstr" where
  "float_text b = pad_start 16 (nat_text 16 (unat b))"

fun rep_term :: "fterm \<Rightarrow> jsval" where
  "rep_term (FString s) = JArr [JStr (js ''string''), JStr s]"
| "rep_term (FInteger z) = JArr [JStr (js ''integer''), JStr (int_text z)]"
| "rep_term (FFloat b) = JArr [JStr (js ''float64''), JStr (float_text b)]"
| "rep_term (FBoolean b) = JArr [JStr (js ''boolean''), JBool b]"
| "rep_term (FKeyword s) = JArr [JStr (js ''keyword''), JStr s]"
| "rep_term (FInstant sec ns) =
     JArr [JStr (js ''instant''), JStr (int_text sec), JStr (int_text ns)]"
| "rep_term (FTriple a b c) = JArr [JStr (js ''triple''), rep_term a, rep_term b, rep_term c]"

text \<open>
  \<open>denotes v t\<close>: the array \<open>v\<close> is accepted for the Term \<open>t\<close>. Integers may be given as decimal
  text, as a safe number or as a bigint, so several arrays denote the same Term.
\<close>

definition int_denotes :: "jsval \<Rightarrow> int \<Rightarrow> bool" where
  "int_denotes v z \<longleftrightarrow> v = JBigInt z \<or> v = JStr (int_text z) \<or> (\<exists>b. v = JNum b \<and> safe_int b = Some z)"

inductive denotes :: "jsval \<Rightarrow> fterm \<Rightarrow> bool" where
  string: "text_ok s \<Longrightarrow> denotes (JArr [JStr (js ''string''), JStr s]) (FString s)"
| integer: "int_denotes v z \<Longrightarrow> i64_ok z \<Longrightarrow> denotes (JArr [JStr (js ''integer''), v]) (FInteger z)"
| float: "float_ok b \<Longrightarrow> denotes (JArr [JStr (js ''float64''), JStr (float_text b)]) (FFloat b)"
| boolean: "denotes (JArr [JStr (js ''boolean''), JBool b]) (FBoolean b)"
| keyword: "text_ok s \<Longrightarrow> s \<noteq> [] \<Longrightarrow> denotes (JArr [JStr (js ''keyword''), JStr s]) (FKeyword s)"
| instant: "int_denotes v sec \<Longrightarrow> i64_ok sec \<Longrightarrow> int_denotes w ns \<Longrightarrow> 0 \<le> ns \<Longrightarrow> ns \<le> 999999999 \<Longrightarrow>
     denotes (JArr [JStr (js ''instant''), v, w]) (FInstant sec ns)"
| triple: "denotes x a \<Longrightarrow> denotes y b \<Longrightarrow> denotes z c \<Longrightarrow>
     denotes (JArr [JStr (js ''triple''), x, y, z]) (FTriple a b c)"

inductive_simps denotes_string_simps: "denotes v (FString s)"
inductive_simps denotes_keyword_simps: "denotes v (FKeyword s)"
inductive_cases denotes_FTripleE: "denotes v (FTriple a b c)"

section \<open>What the checks accept\<close>

lemma decimal_int_text:
  "(if \<not> I64 (int_text z) then fail ''client/invalid-integer''
    else let parsed = text_int (int_text z)
         in if parsed < lo \<or> hi < parsed then fail ''client/integer-range'' else Inr (int_text z)) = Inr s
   \<longleftrightarrow> lo \<le> z \<and> z \<le> hi \<and> s = int_text z"
  by (auto simp: I64_int_text)

lemma decimal_Inr_iff:
  "decimal lo hi v = Inr s \<longleftrightarrow> (\<exists>z. int_denotes v z \<and> lo \<le> z \<and> z \<le> hi \<and> s = int_text z)"
proof (cases v)
  case (JNum b)
  then show ?thesis
    by (cases "safe_int b") (simp_all add: decimal_def int_denotes_def decimal_int_text)
next
  case (JBigInt z)
  then show ?thesis by (simp add: decimal_def int_denotes_def decimal_int_text)
next
  case (JStr t)
  show ?thesis
  proof (cases "I64 t")
    case True
    then obtain z where "t = int_text z" using I64_iff by blast
    with JStr True show ?thesis by (auto simp: decimal_def int_denotes_def decimal_int_text)
  next
    case False
    then have "t \<noteq> int_text z" for z using I64_int_text by metis
    with JStr False show ?thesis by (simp add: decimal_def int_denotes_def)
  qed
qed (simp_all add: decimal_def int_denotes_def)

lemma integerBigInt_Inr_iff:
  "integerBigInt lo hi v = Inr z \<longleftrightarrow> int_denotes v z \<and> lo \<le> z \<and> z \<le> hi"
  by (auto simp: integerBigInt_def res_simps decimal_Inr_iff)

lemma int_denotes_unique: "int_denotes v y \<Longrightarrow> int_denotes v z \<Longrightarrow> y = z"
  by (auto simp: int_denotes_def)

lemma int_denotes_text [simp]: "int_denotes (JStr (int_text z)) z" "int_denotes (JBigInt z) z"
  by (simp_all add: int_denotes_def)

lemma strictUtf8_Inr_iff:
  "strictUtf8 m v = Inr bs \<longleftrightarrow>
     (\<exists>s. v = JStr s \<and> well_formed16 s \<and> length (utf8_encode s) \<le> m \<and> bs = utf8_encode s)"
  by (cases v) (auto simp: strictUtf8_def Let_def)

lemma utf8_of_nonempty [simp]: "utf8_of c \<noteq> []"
  by (simp add: utf8_of_def)

lemma code_points_Nil_iff: "code_points s = [] \<longleftrightarrow> s = []"
  by (cases s rule: code_points.cases) (simp_all del: js_Nil_iff)

lemma utf8_encode_Nil_iff [simp]: "utf8_encode s = [] \<longleftrightarrow> s = []"
proof -
  have "utf8_encode s = [] \<longleftrightarrow> code_points s = []"
    by (cases "code_points s") (simp_all add: utf8_encode_def)
  then show ?thesis by (simp add: code_points_Nil_iff)
qed

lemma keywordTerm_Inr_iff:
  "keywordTerm v = Inr u \<longleftrightarrow>
     (\<exists>s. v = JStr s \<and> text_ok s \<and> s \<noteq> [] \<and> u = JArr [JStr (js ''keyword''), JStr s])"
proof (cases v)
  case (JStr s)
  then show ?thesis
    by (simp add: keywordTerm_def strictUtf8_def text_ok_def Let_def) (intro impI, rule eq_commute)
qed (simp_all add: keywordTerm_def strictUtf8_def)

text \<open>The canonical hexadecimal text of a float and its bits determine each other.\<close>

lemma text_nat_pad [simp]: "text_nat b (pad_start n s) = text_nat b s"
proof -
  have "of_digits b (replicate k 0 @ ds) = of_digits b ds" for k ds
    by (induction k) (simp_all add: of_digits_def)
  then show ?thesis by (simp add: text_nat_def pad_start_def)
qed

lemma float_text_value [simp]: "text_nat 16 (float_text b) = unat b"
  by (simp add: float_text_def)

lemma to_digits_length: "2 \<le> b \<Longrightarrow> n < b ^ k \<Longrightarrow> 0 < k \<Longrightarrow> length (to_digits b n) \<le> k"
proof (induction k arbitrary: n)
  case (Suc k)
  show ?case
  proof (cases "n < b")
    case True
    then show ?thesis by (subst to_digits.simps) simp
  next
    case False
    with Suc.prems have "0 < k" by (cases k) auto
    moreover have "n div b < b ^ k"
      using Suc.prems by (simp add: less_mult_imp_div_less mult.commute)
    ultimately have "length (to_digits b (n div b)) \<le> k" using Suc by simp
    with False Suc.prems show ?thesis by (subst to_digits.simps) simp
  qed
qed simp

lemma hex_digit_unit: "d < 16 \<Longrightarrow> hex_digit (digit_unit d)"
  by (auto simp: hex_digit_def digit_unit_def simp del: of_nat_add)

lemma nat_text_hex: "list_all hex_digit (nat_text 16 n)"
  using to_digits_less [of 16 _ n] by (auto simp: nat_text_def list_all_iff hex_digit_unit)

lemma FLOAT64_float_text: "FLOAT64 (float_text b)"
proof -
  have "unat b < 16 ^ 16" using unsigned_less [of b, where ?'a = nat] by simp
  then have "length (nat_text 16 (unat b)) \<le> 16"
    using to_digits_length [of 16 "unat b" 16] by (simp add: nat_text_def)
  then show ?thesis
    using nat_text_hex [of "unat b"] hex_digit_unit [of 0]
    by (auto simp: FLOAT64_def float_text_def pad_start_def list_all_iff)
qed

lemma text_nat_inject:
  assumes "list_all hex_digit s" "list_all hex_digit t" "length s = length t"
    "text_nat 16 s = text_nat 16 t"
  shows "s = t"
  using assms
proof (induction s arbitrary: t rule: rev_induct)
  case (snoc u s)
  obtain v t' where t: "t = t' @ [v]" using snoc.prems(3) by (cases t rule: rev_cases) auto
  have uv: "hex_digit u" "hex_digit v" using snoc.prems t by auto
  have less: "hex_digit w \<Longrightarrow> digit_value w < 16" for w
    by (auto simp: hex_digit_def digit_value_def)
  have "text_nat 16 s * 16 + digit_value u = text_nat 16 t' * 16 + digit_value v"
    using snoc.prems(4) t by (simp add: text_nat_def)
  then have "text_nat 16 s = text_nat 16 t'" "digit_value u = digit_value v"
    using less [OF uv(1)] less [OF uv(2)] by presburger+
  moreover from this(2) have "u = v"
    using digit_unit_value [OF uv(1)] digit_unit_value [OF uv(2)] by metis
  ultimately show ?case using snoc t by auto
qed simp

lemma FLOAT64_text_less: "FLOAT64 s \<Longrightarrow> text_nat 16 s < 2 ^ 64"
proof -
  have less: "hex_digit w \<Longrightarrow> digit_value w < 16" for w
    by (auto simp: hex_digit_def digit_value_def)
  have "list_all hex_digit s \<Longrightarrow> text_nat 16 s < 16 ^ length s" for s
  proof (induction s rule: rev_induct)
    case (snoc u s)
    then have "text_nat 16 s < 16 ^ length s" "digit_value u < 16" using less by auto
    then show ?case by (simp add: text_nat_def)
  qed (simp add: text_nat_def)
  then show "FLOAT64 s \<Longrightarrow> text_nat 16 s < 2 ^ 64" by (fastforce simp: FLOAT64_def)
qed

lemma FLOAT64_float_text_iff: "FLOAT64 s \<longleftrightarrow> (\<exists>b. s = float_text b)"
proof
  assume s: "FLOAT64 s"
  let ?b = "word_of_nat (text_nat 16 s) :: 64 word"
  have "text_nat 16 (float_text ?b) = text_nat 16 s"
    using FLOAT64_text_less [OF s] by (simp add: unat_of_nat)
  then have "float_text ?b = s"
    using s FLOAT64_float_text [of ?b] by (intro text_nat_inject) (auto simp: FLOAT64_def)
  then show "\<exists>b. s = float_text b" by metis
qed (auto simp: FLOAT64_float_text)

lemma float_text_inject [simp]: "float_text a = float_text b \<longleftrightarrow> a = b"
  by (metis float_text_value unsigned_word_eqI)

lemma canonical_nan_text: "canonical_nan = float_text 0x7ff8000000000000"
proof (rule text_nat_inject)
  show "list_all hex_digit canonical_nan" "length canonical_nan = length (float_text 0x7ff8000000000000)"
    using FLOAT64_float_text [of "0x7ff8000000000000"]
    by (simp_all add: canonical_nan_def js_def hex_digit_def FLOAT64_def)
  show "list_all hex_digit (float_text 0x7ff8000000000000)"
    using FLOAT64_float_text by (simp add: FLOAT64_def)
  show "text_nat 16 canonical_nan = text_nat 16 (float_text 0x7ff8000000000000)"
    unfolding float_text_value
    by (simp add: canonical_nan_def js_def text_nat_def of_digits_def digit_value_def)
qed

lemma float_ok_iff:
  "float_ok b \<longleftrightarrow> \<not> (unat b div 2 ^ 52 mod 2048 = 2047 \<and> unat b mod 2 ^ 52 \<noteq> 0 \<and>
     float_text b \<noteq> canonical_nan)"
  unfolding float_ok_def is_nan_def num_exponent_def num_fraction_def canonical_nan_text
    float_text_inject by blast

lemma canonicalFloatBits_text:
  "canonicalFloatBits (JStr (float_text b)) =
     (if float_ok b then Inr (float_text b) else fail ''client/invalid-float'')"
  unfolding float_ok_iff by (simp add: canonicalFloatBits_def FLOAT64_float_text Let_def)

lemma canonicalFloatBits_Inr_iff:
  "canonicalFloatBits v = Inr s \<longleftrightarrow> (\<exists>b. v = JStr (float_text b) \<and> float_ok b \<and> s = float_text b)"
proof (cases "\<exists>b. v = JStr (float_text b)")
  case True
  then show ?thesis by (auto simp: canonicalFloatBits_text split: if_splits)
next
  case False
  then have "canonicalFloatBits v = fail ''client/invalid-float''"
    by (auto simp: canonicalFloatBits_def FLOAT64_float_text_iff split: jsval.split)
  with False show ?thesis by auto
qed

lemma denotes_atom_ok: "denotes v t \<Longrightarrow> atom_ok t"
  by (induction rule: denotes.induct) auto

lemma denotes_rep_term: "atom_ok t \<Longrightarrow> denotes (rep_term t) t"
  by (induction t) (auto intro!: denotes.intros)

lemma term_size_pos [simp]: "0 < term_size t"
  by (cases t) auto

definition spend :: "nat \<Rightarrow> fterm \<Rightarrow> budget \<Rightarrow> budget" where
  "spend depth t bud =
     bud\<lparr>nodes := nodes bud + term_size t, maxDepth := max (maxDepth bud) (depth + term_depth t)\<rparr>"

lemma spend_triple:
  "spend (depth + 1) c (spend (depth + 1) b (spend (depth + 1) a
     (bud\<lparr>nodes := nodes bud + 1, maxDepth := max (maxDepth bud) depth\<rparr>))) =
   spend depth (FTriple a b c) bud"
  by (simp add: spend_def max_def)

lemma validateTerm_complete:
  "denotes v t \<Longrightarrow> depth + term_depth t \<le> MAX_TERM_DEPTH \<Longrightarrow>
     nodes bud + term_size t \<le> MAX_TERM_NODES \<Longrightarrow> validateTerm depth bud v = Inr (spend depth t bud)"
proof (induction arbitrary: depth bud rule: denotes.induct)
  case (triple x a y b z c)
  let ?b1 = "bud\<lparr>nodes := nodes bud + 1, maxDepth := max (maxDepth bud) depth\<rparr>"
  have "validateTerm (depth + 1) ?b1 x = Inr (spend (depth + 1) a ?b1)"
    using triple.prems by (intro triple.IH) auto
  moreover have "validateTerm (depth + 1) (spend (depth + 1) a ?b1) y =
      Inr (spend (depth + 1) b (spend (depth + 1) a ?b1))"
    using triple.prems by (intro triple.IH) (auto simp: spend_def)
  moreover have "validateTerm (depth + 1) (spend (depth + 1) b (spend (depth + 1) a ?b1)) z =
      Inr (spend (depth + 1) c (spend (depth + 1) b (spend (depth + 1) a ?b1)))"
    using triple.prems by (intro triple.IH) (auto simp: spend_def)
  ultimately show ?case
    using triple.prems spend_triple [of depth c b a bud] by (subst validateTerm.simps) auto
next
  case (string s)
  then show ?case
    by (subst validateTerm.simps) (simp add: spend_def text_ok_def strictUtf8_def Let_def)
next
  case (integer v z)
  then have "decimal_i64 v = Inr (int_text z)"
    by (auto simp: decimal_i64_def decimal_Inr_iff i64_ok_def)
  with integer show ?case by (subst validateTerm.simps) (simp add: spend_def)
next
  case (float b)
  then show ?case by (subst validateTerm.simps) (simp add: spend_def canonicalFloatBits_text)
next
  case (boolean b)
  then show ?case by (subst validateTerm.simps) (simp add: spend_def)
next
  case (keyword s)
  then have "keywordTerm (JStr s) = Inr (JArr [JStr (js ''keyword''), JStr s])"
    by (simp add: keywordTerm_Inr_iff)
  with keyword show ?case by (subst validateTerm.simps) (simp add: spend_def)
next
  case (instant v sec w ns)
  then have "decimal_i64 v = Inr (int_text sec)" "decimal 0 999999999 w = Inr (int_text ns)"
    by (auto simp: decimal_i64_def decimal_Inr_iff i64_ok_def)
  with instant show ?case by (subst validateTerm.simps) (simp add: spend_def)
qed

lemma validateTerm_sound:
  "validateTerm depth bud v = Inr bud' \<Longrightarrow>
     \<exists>t. denotes v t \<and> depth + term_depth t \<le> MAX_TERM_DEPTH \<and>
         nodes bud + term_size t \<le> MAX_TERM_NODES \<and> bud' = spend depth t bud"
proof (induction depth bud v arbitrary: bud' rule: validateTerm.induct)
  case (1 depth bud v)
  let ?b1 = "bud\<lparr>nodes := nodes bud + 1, maxDepth := max (maxDepth bud) depth\<rparr>"
  note eq = "1.prems" [unfolded validateTerm.simps [of depth bud v]]
  from eq have d: "depth \<le> MAX_TERM_DEPTH" and n: "nodes bud + 1 \<le> MAX_TERM_NODES"
    by (auto simp: Let_def split: if_splits)
  from eq d n obtain tag args where v: "v = JArr (JStr tag # args)"
    by (auto simp: Let_def split: jsval.splits list.splits)
  note eq' = eq [unfolded v]
  have leaf: ?case if "denotes v t" "term_size t = 1" "term_depth t = 0" "bud' = ?b1" for t
    using that d n by (intro exI [of _ t]) (simp add: spend_def)
  consider "tag = js ''string''" | "tag = js ''integer''" | "tag = js ''float64''"
    | "tag = js ''boolean''" | "tag = js ''keyword''" | "tag = js ''instant''" | "tag = js ''triple''"
    using eq' d n by (auto simp: Let_def split: if_splits)
  then show ?case
  proof cases
    case 1
    with eq' d n obtain s where "args = [JStr s]" "text_ok s" "bud' = ?b1"
      by (auto simp: Let_def res_simps strictUtf8_Inr_iff text_ok_def split: list.splits)
    with v 1 show ?thesis by (intro leaf [of "FString s"]) (auto intro: denotes.string)
  next
    case 2
    with eq' d n obtain x z where "args = [x]" "int_denotes x z" "i64_ok z" "bud' = ?b1"
      by (auto simp: Let_def res_simps decimal_i64_def decimal_Inr_iff i64_ok_def split: list.splits)
    with v 2 show ?thesis by (intro leaf [of "FInteger z"]) (auto intro: denotes.integer)
  next
    case 3
    with eq' d n obtain b where "args = [JStr (float_text b)]" "float_ok b" "bud' = ?b1"
      by (auto simp: Let_def res_simps canonicalFloatBits_Inr_iff split: list.splits)
    with v 3 show ?thesis by (intro leaf [of "FFloat b"]) (auto intro: denotes.float)
  next
    case 4
    with eq' d n obtain b where "args = [JBool b]" "bud' = ?b1"
      by (auto simp: Let_def split: list.splits jsval.splits)
    with v 4 show ?thesis by (intro leaf [of "FBoolean b"]) (auto intro: denotes.boolean)
  next
    case 5
    with eq' d n obtain s where "args = [JStr s]" "text_ok s" "s \<noteq> []" "bud' = ?b1"
      by (auto simp: Let_def res_simps keywordTerm_Inr_iff split: list.splits)
    with v 5 show ?thesis by (intro leaf [of "FKeyword s"]) (auto intro: denotes.keyword)
  next
    case 6
    with eq' d n obtain x y a b where "args = [x, y]" "int_denotes x a" "i64_ok a"
      "int_denotes y b" "0 \<le> b" "b \<le> 999999999" "bud' = ?b1"
      by (auto simp: Let_def res_simps decimal_i64_def decimal_Inr_iff i64_ok_def split: list.splits)
    with v 6 show ?thesis by (intro leaf [of "FInstant a b"]) (auto intro: denotes.instant)
  next
    case 7
    with eq' d n obtain x y z b2 b3 where a: "args = [x, y, z]"
      and r: "validateTerm (depth + 1) ?b1 x = Inr b2" "validateTerm (depth + 1) b2 y = Inr b3"
        "validateTerm (depth + 1) b3 z = Inr bud'"
      by (auto simp: Let_def res_simps split: list.splits)
    have guard: "\<not> MAX_TERM_DEPTH < depth" "\<not> MAX_TERM_NODES < nodes ?b1" using d n by auto
    note IH = "1.IH" [OF guard(1) refl guard(2) v refl refl]
    obtain t1 where t1: "denotes x t1"
      "depth + 1 + term_depth t1 \<le> MAX_TERM_DEPTH" "b2 = spend (depth + 1) t1 ?b1"
      using IH(1) [of x "[y, z]" y "[z]" z "[]" b2] 7 a r(1) by auto
    obtain t2 where t2: "denotes y t2"
      "depth + 1 + term_depth t2 \<le> MAX_TERM_DEPTH" "b3 = spend (depth + 1) t2 b2"
      using IH(2) [of x "[y, z]" y "[z]" z "[]" b2 b3] 7 a r(1,2) by auto
    obtain t3 where t3: "denotes z t3"
      "depth + 1 + term_depth t3 \<le> MAX_TERM_DEPTH" "bud' = spend (depth + 1) t3 b3"
      "nodes b3 + term_size t3 \<le> MAX_TERM_NODES"
      using IH(3) [of x "[y, z]" y "[z]" z "[]" b2 b3 bud'] 7 a r by auto
    have "denotes v (FTriple t1 t2 t3)"
      using v 7 a t1 t2 t3 by (simp add: denotes.triple)
    moreover have "bud' = spend depth (FTriple t1 t2 t3) bud"
      using t1(3) t2(3) t3(3) spend_triple by simp
    moreover have "nodes bud + term_size (FTriple t1 t2 t3) \<le> MAX_TERM_NODES"
      using t3(4) t1(3) t2(3) by (simp add: spend_def)
    ultimately show ?thesis using t1(2) t2(2) t3(2)
      by (intro exI [of _ "FTriple t1 t2 t3"]) simp
  qed
qed

lemma validateTerm_iff:
  "validateTerm depth bud v = Inr bud' \<longleftrightarrow>
     (\<exists>t. denotes v t \<and> depth + term_depth t \<le> MAX_TERM_DEPTH \<and>
         nodes bud + term_size t \<le> MAX_TERM_NODES \<and> bud' = spend depth t bud)"
  using validateTerm_sound validateTerm_complete by blast

lemma denotes_unique: "denotes v t \<Longrightarrow> denotes v u \<Longrightarrow> t = u"
proof (induction arbitrary: u rule: denotes.induct)
  case (integer v z)
  from integer(3) show ?case by cases (use integer int_denotes_unique in auto)
next
  case (instant v sec w ns)
  from instant(6) show ?case by cases (use instant int_denotes_unique in auto)
next
  case (triple x a y b z c)
  from triple.prems show ?case by cases (use triple in auto)
qed (auto elim: denotes.cases)

section \<open>Coercion\<close>

lemma text_nat_append: "text_nat b (s @ t) = text_nat b s * b ^ length t + text_nat b t"
proof (induction t rule: rev_induct)
  case (snoc u t)
  then show ?case
    unfolding append_assoc [symmetric] by (simp add: text_nat_def algebra_simps del: append_assoc)
qed (simp add: text_nat_def of_digits_def)

lemma hex_pair:
  assumes "n < 256"
  shows "length (pad_start 2 (nat_text 16 n)) = 2" "list_all hex_digit (pad_start 2 (nat_text 16 n))"
proof -
  have "length (nat_text 16 n) \<le> 2"
    using to_digits_length [of 16 n 2] assms by (simp add: nat_text_def)
  then show "length (pad_start 2 (nat_text 16 n)) = 2" by (simp add: pad_start_def)
  show "list_all hex_digit (pad_start 2 (nat_text 16 n))"
    using nat_text_hex [of n] hex_digit_unit [of 0] by (auto simp: pad_start_def list_all_iff)
qed

lemma hex_bytes:
  fixes bs :: "byte list"
  defines "text \<equiv> concat (map (\<lambda>byte. pad_start 2 (nat_text 16 (unat byte))) (rev bs))"
  shows "length text = 2 * length bs \<and> list_all hex_digit text \<and> text_nat 16 text = le_nat bs"
  unfolding text_def
proof (induction bs)
  case (Cons b bs)
  have "unat b < 256" using unsigned_less [of b, where ?'a = nat] by simp
  with Cons hex_pair [of "unat b"] show ?case by (simp add: text_nat_append)
qed (simp add: text_nat_def)

lemma floatBits_JNum:
  "floatBits (JNum b) = Inr (float_text (if is_nan b then 0x7ff8000000000000 else b))"
proof (cases "is_nan b")
  case True
  then show ?thesis by (simp add: floatBits_def canonical_nan_text)
next
  case False
  let ?t = "concat (map (\<lambda>byte. pad_start 2 (nat_text 16 (unat byte))) (rev (le_bytes 8 (unat b))))"
  have "unat b < 256 ^ 8" using unsigned_less [of b, where ?'a = nat] by simp
  then have "?t = float_text b"
    using hex_bytes [of "le_bytes 8 (unat b)"] FLOAT64_float_text [of b]
    by (intro text_nat_inject) (simp_all add: FLOAT64_def)
  with False show ?thesis by (simp add: floatBits_def)
qed

lemma trunc_div_floor:
  "(if 0 \<le> m then trunc_div m 1000 else trunc_div (m - 999) 1000) = m div 1000"
proof (cases "0 \<le> m")
  case True
  then show ?thesis by (cases "m = 0") (simp_all add: trunc_div_def)
next
  case False
  then have "trunc_div (m - 999) 1000 = - ((999 - m) div 1000)" by (simp add: trunc_div_def)
  also have "999 - m = (999 - m mod 1000) + (- (m div 1000)) * 1000"
    using minus_div_mult_eq_mod [of m 1000] by simp
  also have "- (\<dots> div 1000) = m div 1000"
    by simp
  finally show ?thesis using False by simp
qed

lemma dateTerm_floor:
  "dateTerm (Some m) = instantTerm (JBigInt (m div 1000)) (JBigInt (m mod 1000 * 1000000))"
proof -
  have "m - m div 1000 * 1000 = m mod 1000" by (rule minus_div_mult_eq_mod)
  then show ?thesis by (simp only: dateTerm_def option.case Let_def trunc_div_floor)
qed

lemma instantTerm_Inr_iff:
  "instantTerm v w = Inr u \<longleftrightarrow>
     (\<exists>sec ns. int_denotes v sec \<and> i64_ok sec \<and> int_denotes w ns \<and> 0 \<le> ns \<and> ns \<le> 999999999 \<and>
        u = rep_term (FInstant sec ns))"
  by (auto simp: instantTerm_def res_simps decimal_i64_def decimal_Inr_iff i64_ok_def)

lemma integerTerm_Inr_iff:
  "integerTerm v = Inr u \<longleftrightarrow> (\<exists>z. int_denotes v z \<and> i64_ok z \<and> u = rep_term (FInteger z))"
  by (auto simp: integerTerm_def res_simps decimal_i64_def decimal_Inr_iff i64_ok_def)

lemma float64Term_JNum:
  "float64Term (JNum b) = Inr (rep_term (FFloat (if is_nan b then 0x7ff8000000000000 else b)))"
  by (simp add: float64Term_def floatBits_JNum)

lemma stringTerm_Inr_iff:
  "stringTerm v = Inr u \<longleftrightarrow> (\<exists>s. v = JStr s \<and> text_ok s \<and> u = rep_term (FString s))"
  by (cases v) (auto simp: stringTerm_def strictUtf8_def text_ok_def Let_def)

lemma keywordTerm_rep:
  "text_ok s \<Longrightarrow> s \<noteq> [] \<Longrightarrow> keywordTerm (JStr s) = Inr (rep_term (FKeyword s))"
  by (simp add: keywordTerm_Inr_iff)

lemma term_ok_atom [simp]:
  "term_ok (FString s) = text_ok s" "term_ok (FInteger z) = i64_ok z" "term_ok (FFloat b) = float_ok b"
  "term_ok (FBoolean c)" "term_ok (FKeyword s) = (text_ok s \<and> s \<noteq> [])"
  "term_ok (FInstant sec ns) = (i64_ok sec \<and> 0 \<le> ns \<and> ns \<le> 999999999)"
  by (simp_all add: term_ok_def MAX_TERM_NODES_def MAX_TERM_DEPTH_def)

lemma validateTerm_fresh:
  "validateTerm 0 fresh_budget v = Inr bud \<longleftrightarrow>
     (\<exists>t. denotes v t \<and> term_ok t \<and> bud = \<lparr>nodes = term_size t, maxDepth = term_depth t\<rparr>)"
proof -
  have "spend 0 t fresh_budget = \<lparr>nodes = term_size t, maxDepth = term_depth t\<rparr>" for t
    by (simp add: spend_def fresh_budget_def)
  then show ?thesis
    unfolding validateTerm_iff term_ok_def using denotes_atom_ok by (auto simp: fresh_budget_def)
qed

text \<open>The Terms a JavaScript value is coerced to.\<close>

lemma toTerm_sound:
  assumes "toTerm v = Inr u"
  shows "\<exists>t. denotes u t \<and> term_ok t \<and> (u = v \<or> u = rep_term t)"
proof (cases v)
  case (JArr xs)
  with assms show ?thesis
    by (auto simp: toTerm_def res_simps validateTerm_fresh)
next
  case (JStr s)
  with assms have "text_ok s" "u = rep_term (FString s)"
    by (auto simp: toTerm_def stringTerm_Inr_iff)
  then show ?thesis by (intro exI [of _ "FString s"]) (simp add: denotes.string)
next
  case (JBool b)
  with assms show ?thesis
    by (intro exI [of _ "FBoolean b"]) (auto simp: toTerm_def booleanTerm_def denotes.boolean)
next
  case (JBigInt z)
  with assms obtain y where "i64_ok y" "u = rep_term (FInteger y)"
    by (auto simp: toTerm_def integerTerm_Inr_iff)
  then show ?thesis by (intro exI [of _ "FInteger y"]) (simp add: denotes.integer)
next
  case (JNum b)
  have fl: ?thesis if "u = rep_term (FFloat c)" "float_ok c" for c
    using that by (intro exI [of _ "FFloat c"]) (simp add: denotes.float)
  show ?thesis
  proof (cases "is_safe_integer b")
    case True
    with assms JNum obtain y where "i64_ok y" "u = rep_term (FInteger y)"
      by (auto simp: toTerm_def integerTerm_Inr_iff)
    then show ?thesis by (intro exI [of _ "FInteger y"]) (simp add: denotes.integer)
  next
    case False
    with assms JNum show ?thesis
      by (intro fl [of "if is_nan b then 0x7ff8000000000000 else b"])
        (auto simp: toTerm_def float64Term_JNum float_ok_def)
  qed
next
  case (JDate d)
  with assms obtain sec ns where "i64_ok sec" "0 \<le> ns" "ns \<le> 999999999" "u = rep_term (FInstant sec ns)"
    by (cases d) (auto simp: toTerm_def dateTerm_floor instantTerm_Inr_iff, simp add: dateTerm_def)
  then show ?thesis by (intro exI [of _ "FInstant sec ns"]) (simp add: denotes.instant)
qed (use assms in \<open>simp_all add: toTerm_def\<close>)

lemma toTerm_rep_term: "term_ok t \<Longrightarrow> toTerm (rep_term t) = Inr (rep_term t)"
proof -
  assume "term_ok t"
  moreover from this have "denotes (rep_term t) t" by (simp add: term_ok_def denotes_rep_term)
  ultimately obtain b where "validateTerm 0 fresh_budget (rep_term t) = Inr b"
    by (auto simp: validateTerm_fresh)
  then show ?thesis by (cases t) (simp_all add: toTerm_def)
qed

end
