(* ===== verification/Wire.thy ===== *)
theory Wire
  imports FramTerm
begin

text \<open>
  The FRAMRPC v2 byte codec of \<^verbatim>\<open>clients/bun/framrpc-core.mjs\<close>: the \<open>Writer\<close> and \<open>Reader\<close> classes,
  \<open>writeTerm\<close> and \<open>Reader.term\<close>. \<open>wire\<close> is the byte format of a Term; the writer is shown to
  produce it and the reader to accept it. The locale \<open>wire_codec\<close> states what one reader method
  promises about the bytes a writer method left, and is interpreted for every primitive and for
  Terms.
\<close>

section \<open>Writer\<close>

record writer =
  parts :: "byte list list"
  wlen :: nat

definition new_writer :: writer where
  "new_writer = \<lparr>parts = [], wlen = 0\<rparr>"

definition w_push :: "byte list \<Rightarrow> writer \<Rightarrow> writer" where
  "w_push bytes w = w\<lparr>parts := parts w @ [bytes], wlen := wlen w + length bytes\<rparr>"

definition w_u8 :: "nat \<Rightarrow> writer \<Rightarrow> writer" where
  "w_u8 v = w_push (le_bytes 1 v)"

definition w_u16 :: "nat \<Rightarrow> writer \<Rightarrow> writer" where
  "w_u16 v = w_push (le_bytes 2 v)"

definition w_u32 :: "nat \<Rightarrow> writer \<Rightarrow> writer" where
  "w_u32 v = w_push (le_bytes 4 v)"

definition w_i64 :: "int \<Rightarrow> writer \<Rightarrow> writer" where
  "w_i64 v = w_push (le_bytes 8 (nat (v mod 2 ^ 64)))"

definition w_u64 :: "int \<Rightarrow> writer \<Rightarrow> writer" where
  "w_u64 v = w_push (le_bytes 8 (nat (v mod 2 ^ 64)))"

text \<open>
  \<open>concatBytes(parts, length)\<close>: a zeroed array of the given length, each part copied in turn;
  \<open>set\<close> throws when a part does not fit.
\<close>

definition concatBytes :: "byte list list \<Rightarrow> nat \<Rightarrow> byte list res" where
  "concatBytes ps n =
     (if n < length (concat ps) then Inl JsRangeError
      else Inr (concat ps @ replicate (n - length (concat ps)) 0))"

definition w_finish :: "writer \<Rightarrow> byte list res" where
  "w_finish w = concatBytes (parts w) (wlen w)"

text \<open>The bytes written so far, and the bookkeeping invariant of the class.\<close>

definition w_bytes :: "writer \<Rightarrow> byte list" where
  "w_bytes w = concat (parts w)"

definition w_inv :: "writer \<Rightarrow> bool" where
  "w_inv w \<longleftrightarrow> wlen w = length (w_bytes w)"

text \<open>\<open>BigInt(value)\<close> on the payloads \<open>validateTerm\<close> lets through.\<close>

definition to_bigint :: "jsval \<Rightarrow> int res" where
  "to_bigint v = (case v of
     JBigInt z \<Rightarrow> Inr z
   | JNum b \<Rightarrow> (case num_int b of Some z \<Rightarrow> Inr z | None \<Rightarrow> Inl JsRangeError)
   | JStr s \<Rightarrow> if I64 s then Inr (text_int s) else Inl JsSyntaxError
   | JBool b \<Rightarrow> Inr (if b then 1 else 0)
   | _ \<Rightarrow> Inl JsTypeError)"

definition writeText :: "writer \<Rightarrow> jsval \<Rightarrow> nat \<Rightarrow> writer res" where
  "writeText w value maximum =
     rbind (strictUtf8 maximum value) (\<lambda>bytes. Inr (w_push bytes (w_u32 (length bytes) w)))"

function writeTermUnchecked :: "jsval \<Rightarrow> writer \<Rightarrow> writer res" where
  "writeTermUnchecked value w =
     (case value of
        JArr (JStr tag # args) \<Rightarrow>
          if tag = js ''string'' then
            (case args of x # _ \<Rightarrow> writeText (w_u8 1 w) x MAX_STRING_BYTES | [] \<Rightarrow> Inl JsTypeError)
          else if tag = js ''integer'' then
            (case args of x # _ \<Rightarrow> rbind (to_bigint x) (\<lambda>z. Inr (w_i64 z (w_u8 2 w)))
             | [] \<Rightarrow> Inl JsTypeError)
          else if tag = js ''float64'' then
            (case args of JStr s # _ \<Rightarrow> Inr (w_u64 (int (text_nat 16 s)) (w_u8 3 w))
             | _ \<Rightarrow> Inl JsSyntaxError)
          else if tag = js ''boolean'' then
            (case args of x # _ \<Rightarrow> Inr (w_u8 (if truthy x then 5 else 4) w) | [] \<Rightarrow> Inr (w_u8 4 w))
          else if tag = js ''keyword'' then
            (case args of x # _ \<Rightarrow> writeText (w_u8 6 w) x MAX_STRING_BYTES | [] \<Rightarrow> Inl JsTypeError)
          else if tag = js ''triple'' then
            (case args of x # y # z # _ \<Rightarrow>
               rbind (writeTermUnchecked x (w_u8 7 w)) (\<lambda>w1.
               rbind (writeTermUnchecked y w1) (\<lambda>w2. writeTermUnchecked z w2))
             | _ \<Rightarrow> Inl JsTypeError)
          else if tag = js ''instant'' then
            (case args of x # y # _ \<Rightarrow>
               rbind (to_bigint x) (\<lambda>s. rbind (to_bigint y) (\<lambda>n.
                 Inr (w_u32 (nat (n mod 2 ^ 32)) (w_i64 s (w_u8 8 w)))))
             | _ \<Rightarrow> Inl JsTypeError)
          else fail ''client/invalid-term''
      | _ \<Rightarrow> fail ''client/invalid-term'')"
  by pat_completeness auto
termination
  by (relation "measure (\<lambda>(value, _). size value)") auto

declare writeTermUnchecked.simps [simp del]

definition writeTerm :: "jsval \<Rightarrow> budget \<Rightarrow> writer \<Rightarrow> (budget \<times> writer) res" where
  "writeTerm value bud w =
     rbind (validateTerm 0 bud value) (\<lambda>bud'.
     rbind (writeTermUnchecked value w) (\<lambda>w'. Inr (bud', w')))"

section \<open>The byte format of a Term\<close>

definition text_bytes :: "jstr \<Rightarrow> byte list" where
  "text_bytes s = le_bytes 4 (length (utf8_encode s)) @ utf8_encode s"

definition i64_bytes :: "int \<Rightarrow> byte list" where
  "i64_bytes z = le_bytes 8 (nat (z mod 2 ^ 64))"

fun wire :: "fterm \<Rightarrow> byte list" where
  "wire (FString s) = 1 # text_bytes s"
| "wire (FInteger z) = 2 # i64_bytes z"
| "wire (FFloat b) = 3 # le_bytes 8 (unat b)"
| "wire (FBoolean b) = [if b then 5 else 4]"
| "wire (FKeyword s) = 6 # text_bytes s"
| "wire (FTriple a b c) = 7 # wire a @ wire b @ wire c"
| "wire (FInstant sec ns) = 8 # i64_bytes sec @ le_bytes 4 (nat ns)"

lemma new_writer_inv [simp]: "w_inv new_writer" "w_bytes new_writer = []"
  by (simp_all add: w_inv_def w_bytes_def new_writer_def)

lemma w_push_bytes [simp]: "w_bytes (w_push bs w) = w_bytes w @ bs" "w_inv (w_push bs w) = w_inv w"
  by (auto simp: w_push_def w_bytes_def w_inv_def)

lemma w_prim_bytes [simp]:
  "w_bytes (w_u8 v w) = w_bytes w @ [word_of_nat v]"
  "w_bytes (w_u16 v w) = w_bytes w @ le_bytes 2 v"
  "w_bytes (w_u32 v w) = w_bytes w @ le_bytes 4 v"
  "w_bytes (w_i64 z w) = w_bytes w @ i64_bytes z"
  "w_bytes (w_u64 z w) = w_bytes w @ i64_bytes z"
  by (simp_all add: w_u8_def w_u16_def w_u32_def w_i64_def w_u64_def i64_bytes_def)

lemma w_prim_inv [simp]:
  "w_inv (w_u8 v w) = w_inv w" "w_inv (w_u16 v w) = w_inv w" "w_inv (w_u32 v w) = w_inv w"
  "w_inv (w_i64 z w) = w_inv w" "w_inv (w_u64 z w) = w_inv w"
  by (simp_all add: w_u8_def w_u16_def w_u32_def w_i64_def w_u64_def)

lemma w_finish_inv: "w_inv w \<Longrightarrow> w_finish w = Inr (w_bytes w)"
  by (simp add: w_finish_def concatBytes_def w_inv_def w_bytes_def)

lemma w_inv_wlen: "w_inv w \<Longrightarrow> wlen w = length (w_bytes w)"
  by (simp add: w_inv_def)

lemma to_bigint_denotes: "int_denotes v z \<Longrightarrow> to_bigint v = Inr z"
proof (cases v)
  case (JNum b)
  moreover assume "int_denotes v z"
  ultimately have "safe_int b = Some z" by (simp add: int_denotes_def)
  then have "num_int b = Some z" by (simp add: safe_int_def split: option.splits if_splits)
  with JNum show ?thesis by (simp add: to_bigint_def)
qed (simp_all add: int_denotes_def to_bigint_def I64_int_text)

lemma i64_bytes_uint: "i64_bytes (uint (b :: 64 word)) = le_bytes 8 (unat b)"
proof -
  have "uint b mod 2 ^ 64 = uint b"
    using unsigned_less [of b, where ?'a = int] by (intro mod_pos_pos_trivial) simp_all
  then show ?thesis by (simp add: i64_bytes_def)
qed

lemma writeText_ok:
  "text_ok s \<Longrightarrow> \<exists>w'. writeText w (JStr s) MAX_STRING_BYTES = Inr w' \<and>
     w_bytes w' = w_bytes w @ text_bytes s \<and> w_inv w' = w_inv w"
  by (simp add: writeText_def strictUtf8_def text_ok_def text_bytes_def Let_def)

lemma writeTermUnchecked_wire:
  "denotes v t \<Longrightarrow> \<exists>w'. writeTermUnchecked v w = Inr w' \<and> w_bytes w' = w_bytes w @ wire t \<and> w_inv w' = w_inv w"
proof (induction arbitrary: w rule: denotes.induct)
  case (string s)
  then show ?case using writeText_ok [of s "w_u8 1 w"] by (subst writeTermUnchecked.simps) auto
next
  case (keyword s)
  then show ?case using writeText_ok [of s "w_u8 6 w"] by (subst writeTermUnchecked.simps) auto
next
  case (integer v z)
  then show ?case by (subst writeTermUnchecked.simps) (simp add: to_bigint_denotes)
next
  case (float b)
  then show ?case by (subst writeTermUnchecked.simps) (simp add: i64_bytes_uint)
next
  case (boolean b)
  then show ?case by (subst writeTermUnchecked.simps) (simp add: truthy_def)
next
  case (instant v sec u ns)
  then have "nat (ns mod 2 ^ 32) = nat ns" by (simp add: mod_pos_pos_trivial)
  with instant show ?case by (subst writeTermUnchecked.simps) (simp add: to_bigint_denotes)
next
  case (triple x a y b z c)
  obtain w1 where w1: "writeTermUnchecked x (w_u8 7 w) = Inr w1"
    "w_bytes w1 = w_bytes w @ [7] @ wire a" "w_inv w1 = w_inv w"
    using triple.IH(1) [of "w_u8 7 w"] by auto
  obtain w2 where w2: "writeTermUnchecked y w1 = Inr w2" "w_bytes w2 = w_bytes w1 @ wire b" "w_inv w2 = w_inv w"
    using triple.IH(2) [of w1] w1 by auto
  obtain w3 where "writeTermUnchecked z w2 = Inr w3" "w_bytes w3 = w_bytes w2 @ wire c" "w_inv w3 = w_inv w"
    using triple.IH(3) [of w2] w2 by auto
  with w1 w2 show ?case by (subst writeTermUnchecked.simps) simp
qed

section \<open>Reader\<close>

record reader =
  rbytes :: "byte list"
  offset :: nat
  rnodes :: nat

definition new_reader :: "byte list \<Rightarrow> reader" where
  "new_reader bs = \<lparr>rbytes = bs, offset = 0, rnodes = 0\<rparr>"

definition r_ensure :: "nat \<Rightarrow> reader \<Rightarrow> unit res" where
  "r_ensure n r =
     (if length (rbytes r) < offset r + n then fail ''client/truncated'' else Inr ())"

text \<open>The next \<open>n\<close> bytes, after \<open>ensure\<close>, with the offset moved past them.\<close>

definition r_take :: "nat \<Rightarrow> reader \<Rightarrow> (byte list \<times> reader) res" where
  "r_take n r =
     rbind (r_ensure n r)
       (\<lambda>_. Inr (take n (drop (offset r) (rbytes r)), r\<lparr>offset := offset r + n\<rparr>))"

definition r_u8 :: "reader \<Rightarrow> (nat \<times> reader) res" where
  "r_u8 r = rbind (r_take 1 r) (\<lambda>(bs, r'). Inr (le_nat bs, r'))"

definition r_u32 :: "reader \<Rightarrow> (nat \<times> reader) res" where
  "r_u32 r = rbind (r_take 4 r) (\<lambda>(bs, r'). Inr (le_nat bs, r'))"

definition r_i64 :: "reader \<Rightarrow> (int \<times> reader) res" where
  "r_i64 r = rbind (r_take 8 r) (\<lambda>(bs, r'). Inr (le_int bs, r'))"

definition r_u64 :: "reader \<Rightarrow> (nat \<times> reader) res" where
  "r_u64 r = rbind (r_take 8 r) (\<lambda>(bs, r'). Inr (le_nat bs, r'))"

definition r_presence :: "reader \<Rightarrow> (bool \<times> reader) res" where
  "r_presence r = rbind (r_u8 r) (\<lambda>(v, r').
     if v \<noteq> 0 \<and> v \<noteq> 1 then fail ''client/invalid-presence'' else Inr (v = 1, r'))"

definition r_bool :: "reader \<Rightarrow> (bool \<times> reader) res" where
  "r_bool r = rbind (r_u8 r) (\<lambda>(v, r').
     if v \<noteq> 0 \<and> v \<noteq> 1 then fail ''client/invalid-boolean'' else Inr (v = 1, r'))"

definition r_text :: "nat \<Rightarrow> reader \<Rightarrow> (jstr \<times> reader) res" where
  "r_text maximum r = rbind (r_u32 r) (\<lambda>(len, r1).
     if maximum < len then fail ''client/string-limit''
     else rbind (r_take len r1) (\<lambda>(bs, r2).
       case text_decode bs of None \<Rightarrow> fail ''client/invalid-utf8'' | Some s \<Rightarrow> Inr (s, r2)))"

text \<open>
  \<open>float64Value\<close>: the number of a float Term, from its eight hexadecimal pairs, most significant
  first.
\<close>

definition float64Value :: "jsval \<Rightarrow> 64 word res" where
  "float64Value value = rbind (validateTerm 0 fresh_budget value) (\<lambda>_.
     case value of
       JArr [JStr tag, JStr bits] \<Rightarrow>
         if tag \<noteq> js ''float64'' then fail ''client/invalid-term''
         else let bytes = map (\<lambda>i. word_of_nat (text_nat 16 (take 2 (drop (i * 2) bits))) :: byte) [0..<8]
              in Inr (word_of_nat (le_nat (rev bytes)))
     | _ \<Rightarrow> fail ''client/invalid-term'')"

text \<open>\<open>Reader.term(depth)\<close>\<close>

function readTerm :: "nat \<Rightarrow> reader \<Rightarrow> (jsval \<times> reader) res" where
  "readTerm depth r =
     (if MAX_TERM_DEPTH < depth then fail ''client/term-depth''
      else let r1 = r\<lparr>rnodes := rnodes r + 1\<rparr>
      in if MAX_TERM_NODES < rnodes r1 then fail ''client/term-nodes''
      else rbind (r_u8 r1) (\<lambda>(tag, r2).
        if tag = 1 then
          rbind (r_text MAX_STRING_BYTES r2) (\<lambda>(s, r3). Inr (JArr [JStr (js ''string''), JStr s], r3))
        else if tag = 2 then
          rbind (r_i64 r2) (\<lambda>(z, r3). Inr (JArr [JStr (js ''integer''), JStr (int_text z)], r3))
        else if tag = 3 then
          rbind (r_u64 r2) (\<lambda>(n, r3).
            let bits = pad_start 16 (nat_text 16 n)
            in rbind (float64Value (JArr [JStr (js ''float64''), JStr bits])) (\<lambda>num.
              Inr (JArr [JStr (js ''float64''), JStr (if is_nan num then canonical_nan else bits)], r3)))
        else if tag = 4 then Inr (JArr [JStr (js ''boolean''), JBool False], r2)
        else if tag = 5 then Inr (JArr [JStr (js ''boolean''), JBool True], r2)
        else if tag = 6 then
          rbind (r_text MAX_STRING_BYTES r2) (\<lambda>(s, r3).
            if s = [] then fail ''client/invalid-keyword''
            else Inr (JArr [JStr (js ''keyword''), JStr s], r3))
        else if tag = 7 then
          rbind (readTerm (depth + 1) r2) (\<lambda>(a, r3).
          rbind (readTerm (depth + 1) r3) (\<lambda>(b, r4).
          rbind (readTerm (depth + 1) r4) (\<lambda>(c, r5).
            Inr (JArr [JStr (js ''triple''), a, b, c], r5))))
        else if tag = 8 then
          rbind (r_i64 r2) (\<lambda>(sec, r3). rbind (r_u32 r3) (\<lambda>(ns, r4).
            if 1000000000 \<le> ns then fail ''client/invalid-instant''
            else Inr (JArr [JStr (js ''instant''), JStr (int_text sec), JStr (int_text (int ns))], r4)))
        else fail ''client/bad-term-tag''))"
  by pat_completeness auto
termination
  by (relation "measure (\<lambda>(depth, _). 257 - depth)") (auto simp: MAX_TERM_DEPTH_def)

declare readTerm.simps [simp del]

definition r_done :: "reader \<Rightarrow> bool" where
  "r_done r \<longleftrightarrow> offset r = length (rbytes r)"

section \<open>What a reader method promises about a writer method's bytes\<close>

text \<open>\<open>at_bytes r bs\<close>: the unread bytes of \<open>r\<close> are \<open>bs\<close>.\<close>

definition at_bytes :: "reader \<Rightarrow> byte list \<Rightarrow> bool" where
  "at_bytes r bs \<longleftrightarrow> offset r \<le> length (rbytes r) \<and> drop (offset r) (rbytes r) = bs"

definition advance :: "nat \<Rightarrow> nat \<Rightarrow> reader \<Rightarrow> reader" where
  "advance n k r = r\<lparr>offset := offset r + n, rnodes := rnodes r + k\<rparr>"

lemma at_bytes_new [simp]: "at_bytes (new_reader bs) bs"
  by (simp add: at_bytes_def new_reader_def)

lemma at_bytes_advance [intro]:
  assumes "at_bytes r (bs @ rest)"
  shows "at_bytes (advance (length bs) k r) rest"
proof -
  have le: "offset r \<le> length (rbytes r)" and eq: "drop (offset r) (rbytes r) = bs @ rest"
    using assms by (simp_all add: at_bytes_def)
  from eq have "length (rbytes r) - offset r = length bs + length rest"
    by (metis length_append length_drop)
  with le have "offset r + length bs \<le> length (rbytes r)" by linarith
  moreover have "drop (offset r + length bs) (rbytes r) = rest"
    using eq drop_drop [of "length bs" "offset r" "rbytes r"] by (simp add: add.commute)
  ultimately show ?thesis by (simp add: at_bytes_def advance_def)
qed

lemma new_reader_sel [simp]: "rnodes (new_reader bs) = 0" "offset (new_reader bs) = 0" "rbytes (new_reader bs) = bs"
  by (simp_all add: new_reader_def)

lemma advance_advance [simp]: "advance n k (advance m j r) = advance (m + n) (j + k) r"
  by (simp add: advance_def add.assoc)

lemma advance_sel [simp]:
  "rnodes (advance n k r) = rnodes r + k" "offset (advance n k r) = offset r + n"
  "rbytes (advance n k r) = rbytes r"
  by (simp_all add: advance_def)

locale wire_codec =
  fixes put :: "'a \<Rightarrow> byte list"
    and get :: "reader \<Rightarrow> ('b \<times> reader) res"
    and out :: "'a \<Rightarrow> 'b"
    and cost :: "'a \<Rightarrow> nat"
    and ok :: "nat \<Rightarrow> 'a \<Rightarrow> bool"
  assumes get_put:
    "ok (rnodes r) x \<Longrightarrow> at_bytes r (put x @ rest) \<Longrightarrow>
       get r = Inr (out x, advance (length (put x)) (cost x) r)"
begin

lemma get_put_at:
  assumes "ok (rnodes r) x" "at_bytes r (put x @ rest)"
  obtains r' where "get r = Inr (out x, r')" "r' = advance (length (put x)) (cost x) r" "at_bytes r' rest"
  using get_put [OF assms] at_bytes_advance [OF assms(2)] by blast

lemma get_new:
  "ok 0 x \<Longrightarrow> get (new_reader (put x)) =
     Inr (out x, advance (length (put x)) (cost x) (new_reader (put x)))"
  using get_put [of "new_reader (put x)" x "[]"] by simp

lemma prefix_free:
  assumes "ok 0 x" "ok 0 y" "put x @ rest = put y @ rest'"
  shows "out x = out y \<and> rest = rest'"
proof -
  let ?r = "new_reader (put x @ rest)"
  have "get ?r = Inr (out x, advance (length (put x)) (cost x) ?r)"
    using assms(1) by (intro get_put [of _ _ rest]) simp_all
  moreover have "get ?r = Inr (out y, advance (length (put y)) (cost y) ?r)"
    using assms(2,3) by (intro get_put [of _ _ rest']) simp_all
  ultimately have "out x = out y" "length (put x) = length (put y)"
    by (simp_all add: advance_def new_reader_def)
  with assms(3) show ?thesis by (simp add: append_eq_append_conv)
qed

end

section \<open>The primitives keep their promise\<close>

lemma at_bytes_take:
  "at_bytes r (bs @ rest) \<Longrightarrow> r_take (length bs) r = Inr (bs, advance (length bs) 0 r)"
proof -
  assume a: "at_bytes r (bs @ rest)"
  then have "offset r + length bs \<le> length (rbytes r)"
    using at_bytes_advance [OF a, of 0] by (simp add: at_bytes_def)
  moreover have "take (length bs) (drop (offset r) (rbytes r)) = bs"
    using a by (simp add: at_bytes_def)
  ultimately show ?thesis by (simp add: r_take_def r_ensure_def advance_def)
qed

lemma r_take_bytes:
  "length bs = n \<Longrightarrow> at_bytes r (bs @ rest) \<Longrightarrow> r_take n r = Inr (bs, advance n 0 r)"
  using at_bytes_take by blast

definition flag_bytes :: "bool \<Rightarrow> byte list" where
  "flag_bytes b = [if b then 1 else 0]"

lemma length_i64_bytes [simp]: "length (i64_bytes z) = 8"
  by (simp add: i64_bytes_def)

lemma le_int_i64_bytes: "i64_ok z \<Longrightarrow> le_int (i64_bytes z) = z"
  unfolding i64_bytes_def i64_ok_def I64_MIN_def I64_MAX_def by (rule le_int_bytes) simp_all

interpretation u8c: wire_codec "le_bytes 1" r_u8 "\<lambda>n. n" "\<lambda>_. 0" "\<lambda>_ n. n < 256"
  by unfold_locales (simp add: r_u8_def r_take_bytes [of "le_bytes 1 _"] unat_byte_of_nat)

interpretation u32c: wire_codec "le_bytes 4" r_u32 "\<lambda>n. n" "\<lambda>_. 0" "\<lambda>_ n. n < 2 ^ 32"
  by unfold_locales (simp add: r_u32_def r_take_bytes [of "le_bytes 4 _"])

interpretation i64c: wire_codec i64_bytes r_i64 "\<lambda>z. z" "\<lambda>_. 0" "\<lambda>_. i64_ok"
  by unfold_locales (simp add: r_i64_def r_take_bytes [of "i64_bytes _"] le_int_i64_bytes)

interpretation u64c: wire_codec "le_bytes 8" r_u64 "\<lambda>n. n" "\<lambda>_. 0" "\<lambda>_ n. n < 2 ^ 64"
  by unfold_locales (simp add: r_u64_def r_take_bytes [of "le_bytes 8 _"])

interpretation presencec: wire_codec flag_bytes r_presence "\<lambda>b. b" "\<lambda>_. 0" "\<lambda>_ _. True"
proof unfold_locales
  fix r b rest assume "at_bytes r (flag_bytes b @ rest)"
  then have "r_u8 r = Inr (if b then 1 else 0, advance 1 0 r)"
    using u8c.get_put [where r = r and x = "if b then 1 else 0" and rest = rest] by (simp add: flag_bytes_def split: if_splits)
  then show "r_presence r = Inr (b, advance (length (flag_bytes b)) 0 r)"
    by (simp add: r_presence_def flag_bytes_def)
qed

interpretation boolc: wire_codec flag_bytes r_bool "\<lambda>b. b" "\<lambda>_. 0" "\<lambda>_ _. True"
proof unfold_locales
  fix r b rest assume "at_bytes r (flag_bytes b @ rest)"
  then have "r_u8 r = Inr (if b then 1 else 0, advance 1 0 r)"
    using u8c.get_put [where r = r and x = "if b then 1 else 0" and rest = rest] by (simp add: flag_bytes_def split: if_splits)
  then show "r_bool r = Inr (b, advance (length (flag_bytes b)) 0 r)"
    by (simp add: r_bool_def flag_bytes_def)
qed

definition plain_text :: "jstr \<Rightarrow> bool" where
  "plain_text s \<longleftrightarrow> text_ok s \<and> \<not> starts_with_bom s"

interpretation textc: wire_codec text_bytes "r_text MAX_STRING_BYTES" "\<lambda>s. s" "\<lambda>_. 0" "\<lambda>_. plain_text"
proof unfold_locales
  fix r s rest assume s: "plain_text s" and a: "at_bytes r (text_bytes s @ rest)"
  let ?n = "length (utf8_encode s)"
  have n: "?n \<le> MAX_STRING_BYTES" "?n < 2 ^ 32" and dec: "text_decode (utf8_encode s) = Some s"
    using s by (auto simp: plain_text_def text_ok_def MAX_STRING_BYTES_def text_decode_encode)
  obtain r1 where r1: "r_u32 r = Inr (?n, r1)" "r1 = advance 4 0 r" "at_bytes r1 (utf8_encode s @ rest)"
    using u32c.get_put_at [of ?n r "utf8_encode s @ rest"] n a by (auto simp: text_bytes_def)
  with n dec at_bytes_take [OF r1(3)]
  show "r_text MAX_STRING_BYTES r = Inr (s, advance (length (text_bytes s)) 0 r)"
    by (simp add: r_text_def text_bytes_def)
qed

section \<open>Floats read back\<close>

lemma le_nat_hex_pairs:
  "length s = 2 * k \<Longrightarrow> list_all hex_digit s \<Longrightarrow>
     le_nat (rev (map (\<lambda>i. word_of_nat (text_nat 16 (take 2 (drop (i * 2) s)))) [0..<k])) = text_nat 16 s"
proof (induction k arbitrary: s)
  case 0
  then show ?case by (simp add: text_nat_def)
next
  case (Suc k)
  define s' t where "s' = take (2 * k) s" and "t = drop (2 * k) s"
  then have s: "s = s' @ t" and l: "length s' = 2 * k" "length t = 2"
    using Suc.prems(1) by simp_all
  have h: "list_all hex_digit s'" "list_all hex_digit t" using Suc.prems(2) s by auto
  have d: "hex_digit w \<Longrightarrow> digit_value w < 16" for w by (auto simp: hex_digit_def digit_value_def)
  obtain a b where t: "t = [a, b]" using l(2) by (auto simp: numeral_2_eq_2 length_Suc_conv)
  then have t256: "text_nat 16 t < 256"
    using d [of a] d [of b] h(2) by (simp add: text_nat_def of_digits_def)
  have same: "take 2 (drop (i * 2) s) = take 2 (drop (i * 2) s')" if "i < k" for i
    using that l(1) s by simp
  have last: "take 2 (drop (k * 2) s) = t" using s l by simp
  have eq: "map (\<lambda>i. word_of_nat (text_nat 16 (take 2 (drop (i * 2) s))) :: byte) [0..<Suc k] =
      map (\<lambda>i. word_of_nat (text_nat 16 (take 2 (drop (i * 2) s')))) [0..<k] @ [word_of_nat (text_nat 16 t)]"
    using same last by simp
  show ?case
    unfolding eq using Suc.IH [OF l(1) h(1)] t256 l(2)
    by (simp add: s text_nat_append unat_byte_of_nat)
qed

lemma float64Value_text:
  "float64Value (JArr [JStr (js ''float64''), JStr (float_text b)]) =
     (if float_ok b then Inr b else fail ''client/invalid-float'')"
proof (cases "float_ok b")
  case True
  then have "validateTerm 0 fresh_budget (JArr [JStr (js ''float64''), JStr (float_text b)]) =
      Inr \<lparr>nodes = 1, maxDepth = 0\<rparr>"
    using validateTerm_fresh denotes.float [of b] by fastforce
  moreover have "le_nat (rev (map (\<lambda>i. word_of_nat (text_nat 16 (take 2 (drop (i * 2) (float_text b))))) [0..<8])) = unat b"
    using le_nat_hex_pairs [of "float_text b" 8] FLOAT64_float_text [of b] by (simp add: FLOAT64_def)
  ultimately show ?thesis using True by (simp add: float64Value_def Let_def)
next
  case False
  then have "validateTerm 0 fresh_budget (JArr [JStr (js ''float64''), JStr (float_text b)]) =
      fail ''client/invalid-float''"
    by (subst validateTerm.simps)
      (simp add: canonicalFloatBits_text fresh_budget_def MAX_TERM_DEPTH_def MAX_TERM_NODES_def)
  with False show ?thesis by (simp add: float64Value_def)
qed

section \<open>Terms read back\<close>

fun plain_term :: "fterm \<Rightarrow> bool" where
  "plain_term (FString s) = (\<not> starts_with_bom s)"
| "plain_term (FKeyword s) = (\<not> starts_with_bom s)"
| "plain_term (FTriple a b c) = (plain_term a \<and> plain_term b \<and> plain_term c)"
| "plain_term _ = True"

definition readable :: "nat \<Rightarrow> nat \<Rightarrow> fterm \<Rightarrow> bool" where
  "readable depth n t \<longleftrightarrow> atom_ok t \<and> plain_term t \<and> depth + term_depth t \<le> MAX_TERM_DEPTH \<and>
     n + term_size t \<le> MAX_TERM_NODES"

lemma tag_read:
  assumes "at_bytes r (word_of_nat tag # bs)" "tag < 256"
  obtains r' where "r_u8 (r\<lparr>rnodes := rnodes r + 1\<rparr>) = Inr (tag, r')" "r' = advance 1 1 r" "at_bytes r' bs"
proof -
  have "at_bytes (r\<lparr>rnodes := rnodes r + 1\<rparr>) (le_bytes 1 tag @ bs)"
    using assms(1) by (simp add: at_bytes_def)
  then obtain r' where "r_u8 (r\<lparr>rnodes := rnodes r + 1\<rparr>) = Inr (tag, r')"
    "r' = advance 1 0 (r\<lparr>rnodes := rnodes r + 1\<rparr>)" "at_bytes r' bs"
    by (rule u8c.get_put_at [OF assms(2)]) simp
  then show thesis by (intro that) (simp_all add: advance_def)
qed

lemma readTerm_wire:
  "readable depth (rnodes r) t \<Longrightarrow> at_bytes r (wire t @ rest) \<Longrightarrow>
     readTerm depth r = Inr (rep_term t, advance (length (wire t)) (term_size t) r)"
proof (induction t arbitrary: depth r rest)
  case (FString s)
  then obtain r1 where r1: "r_u8 (r\<lparr>rnodes := rnodes r + 1\<rparr>) = Inr (1, r1)" "r1 = advance 1 1 r"
    "at_bytes r1 (text_bytes s @ rest)"
    using tag_read [of r 1] by auto
  moreover have "plain_text s" using FString by (simp add: readable_def plain_text_def)
  ultimately have "r_text MAX_STRING_BYTES r1 = Inr (s, advance (length (text_bytes s)) 0 r1)"
    by (intro textc.get_put)
  with FString.prems(1) r1 show ?case by (subst readTerm.simps) (simp add: readable_def)
next
  case (FInteger z)
  then obtain r1 where r1: "r_u8 (r\<lparr>rnodes := rnodes r + 1\<rparr>) = Inr (2, r1)" "r1 = advance 1 1 r"
    "at_bytes r1 (i64_bytes z @ rest)"
    using tag_read [of r 2] by auto
  moreover have "i64_ok z" using FInteger by (simp add: readable_def)
  ultimately have "r_i64 r1 = Inr (z, advance 8 0 r1)"
    using i64c.get_put [where x = z and r = r1 and rest = rest] by simp
  with FInteger.prems(1) r1 show ?case by (subst readTerm.simps) (simp add: readable_def)
next
  case (FFloat b)
  then obtain r1 where r1: "r_u8 (r\<lparr>rnodes := rnodes r + 1\<rparr>) = Inr (3, r1)" "r1 = advance 1 1 r"
    "at_bytes r1 (le_bytes 8 (unat b) @ rest)"
    using tag_read [of r 3] by auto
  moreover have b: "float_ok b" "unat b < 2 ^ 64"
    using FFloat unsigned_less [of b, where ?'a = nat] by (simp_all add: readable_def)
  ultimately have "r_u64 r1 = Inr (unat b, advance 8 0 r1)"
    using u64c.get_put [where x = "unat b" and r = r1 and rest = rest] by simp
  moreover have "is_nan b \<longrightarrow> canonical_nan = float_text b"
    using b(1) canonical_nan_text by (auto simp: float_ok_def)
  ultimately show ?case using FFloat.prems(1) r1 b(1) float64Value_text [of b]
    by (subst readTerm.simps) (simp add: readable_def Let_def float_text_def)
next
  case (FBoolean b)
  then obtain r1 where "r_u8 (r\<lparr>rnodes := rnodes r + 1\<rparr>) = Inr (if b then 5 else 4, r1)" "r1 = advance 1 1 r"
    using tag_read [of r "if b then 5 else 4" rest] by (cases b) auto
  with FBoolean.prems(1) show ?case by (subst readTerm.simps) (simp add: readable_def)
next
  case (FKeyword s)
  then obtain r1 where r1: "r_u8 (r\<lparr>rnodes := rnodes r + 1\<rparr>) = Inr (6, r1)" "r1 = advance 1 1 r"
    "at_bytes r1 (text_bytes s @ rest)"
    using tag_read [of r 6] by auto
  moreover have "plain_text s" "s \<noteq> []" using FKeyword by (simp_all add: readable_def plain_text_def)
  ultimately have "r_text MAX_STRING_BYTES r1 = Inr (s, advance (length (text_bytes s)) 0 r1)"
    by (intro textc.get_put)
  with FKeyword.prems(1) r1 \<open>s \<noteq> []\<close> show ?case by (subst readTerm.simps) (simp add: readable_def)
next
  case (FInstant sec ns)
  then obtain r1 where r1: "r_u8 (r\<lparr>rnodes := rnodes r + 1\<rparr>) = Inr (8, r1)" "r1 = advance 1 1 r"
    "at_bytes r1 (i64_bytes sec @ le_bytes 4 (nat ns) @ rest)"
    using tag_read [of r 8] by auto
  have ok: "i64_ok sec" "0 \<le> ns" "ns \<le> 999999999" using FInstant by (simp_all add: readable_def)
  then obtain r2 where r2: "r_i64 r1 = Inr (sec, r2)" "r2 = advance 8 0 r1" "at_bytes r2 (le_bytes 4 (nat ns) @ rest)"
    using i64c.get_put_at [of sec r1 "le_bytes 4 (nat ns) @ rest"] r1 by auto
  then have "r_u32 r2 = Inr (nat ns, advance 4 0 r2)"
    using u32c.get_put [where x = "nat ns" and r = r2 and rest = rest] ok by simp
  with FInstant.prems(1) r1 r2 ok show ?case by (subst readTerm.simps) (simp add: readable_def)
next
  case (FTriple a b c)
  have "at_bytes r (word_of_nat 7 # (wire a @ wire b @ wire c @ rest))" using FTriple.prems(2) by simp
  then obtain r1 where r1: "r_u8 (r\<lparr>rnodes := rnodes r + 1\<rparr>) = Inr (7, r1)" "r1 = advance 1 1 r"
    "at_bytes r1 (wire a @ wire b @ wire c @ rest)"
    by (rule tag_read) simp
  have ok: "readable (depth + 1) (rnodes r + 1) a" "readable (depth + 1) (rnodes r + 1 + term_size a) b"
    "readable (depth + 1) (rnodes r + 1 + term_size a + term_size b) c"
    using FTriple.prems(1) by (auto simp: readable_def)
  define r2 where "r2 = advance (length (wire a)) (term_size a) r1"
  define r3 where "r3 = advance (length (wire b)) (term_size b) r2"
  have a: "readTerm (depth + 1) r1 = Inr (rep_term a, r2)"
    using FTriple.IH(1) [OF _ r1(3)] r1(2) ok(1) by (simp add: r2_def)
  have at2: "at_bytes r2 (wire b @ wire c @ rest)" unfolding r2_def using r1(3) by (rule at_bytes_advance)
  have b: "readTerm (depth + 1) r2 = Inr (rep_term b, r3)"
    using FTriple.IH(2) [OF _ at2] r1(2) ok(2) by (simp add: r2_def r3_def)
  have at3: "at_bytes r3 (wire c @ rest)" unfolding r3_def using at2 by (rule at_bytes_advance)
  have c: "readTerm (depth + 1) r3 = Inr (rep_term c, advance (length (wire c)) (term_size c) r3)"
    using FTriple.IH(3) [OF _ at3] r1(2) ok(3) by (simp add: r2_def r3_def add.assoc)
  from FTriple.prems(1) r1(1,2) a b c show ?case
    by (subst readTerm.simps) (simp add: readable_def r2_def r3_def add_ac)
qed

interpretation termc: wire_codec wire "readTerm 0" rep_term term_size "readable 0"
  by unfold_locales (rule readTerm_wire)

section \<open>Everything the reader accepts is a Term\<close>

text \<open>
  \<open>encodes t bs\<close>: the bytes are \<open>wire t\<close>, except that any text may carry one byte order mark more
  than the string the reader returns.
\<close>

definition text_encodes :: "jstr \<Rightarrow> byte list \<Rightarrow> bool" where
  "text_encodes s bs \<longleftrightarrow>
     (\<exists>raw. bs = le_bytes 4 (length raw) @ raw \<and> length raw \<le> MAX_STRING_BYTES \<and>
        (raw = utf8_encode s \<or> raw = bom_bytes @ utf8_encode s))"

fun encodes :: "fterm \<Rightarrow> byte list \<Rightarrow> bool" where
  "encodes (FString s) bs \<longleftrightarrow> (\<exists>u. bs = 1 # u \<and> text_encodes s u)"
| "encodes (FKeyword s) bs \<longleftrightarrow> (\<exists>u. bs = 6 # u \<and> text_encodes s u)"
| "encodes (FTriple a b c) bs \<longleftrightarrow>
     (\<exists>x y z. bs = 7 # x @ y @ z \<and> encodes a x \<and> encodes b y \<and> encodes c z)"
| "encodes t bs \<longleftrightarrow> bs = wire t"

text \<open>\<open>moved r bs r'\<close>: \<open>r'\<close> is \<open>r\<close> with the bytes \<open>bs\<close> consumed.\<close>

definition moved :: "reader \<Rightarrow> byte list \<Rightarrow> reader \<Rightarrow> bool" where
  "moved r bs r' \<longleftrightarrow> rbytes r' = rbytes r \<and> offset r' = offset r + length bs \<and>
     offset r' \<le> length (rbytes r) \<and> take (length bs) (drop (offset r) (rbytes r)) = bs"

lemma moved_trans: "moved r bs r1 \<Longrightarrow> moved r1 cs r2 \<Longrightarrow> moved r (bs @ cs) r2"
  by (auto simp: moved_def take_add drop_drop add.commute add.left_commute)

lemma r_take_Inr: "r_take n r = Inr (bs, r') \<Longrightarrow> moved r bs r' \<and> length bs = n \<and> rnodes r' = rnodes r"
  by (auto simp: r_take_def r_ensure_def moved_def split: if_splits)

lemma r_u8_Inr:
  assumes "r_u8 r = Inr (v, r')"
  shows "moved r [word_of_nat v] r'" "v < 256" "rnodes r' = rnodes r"
proof -
  obtain bs where bs: "r_take 1 r = Inr (bs, r')" "v = le_nat bs"
    using assms by (auto simp: r_u8_def res_simps)
  from r_take_Inr [OF bs(1)] obtain b where "bs = [b]" by (cases bs) auto
  with bs r_take_Inr [OF bs(1)] show "moved r [word_of_nat v] r'" "v < 256" "rnodes r' = rnodes r"
    using unsigned_less [of b, where ?'a = nat] by simp_all
qed

lemma r_u32_Inr:
  assumes "r_u32 r = Inr (v, r')"
  shows "moved r (le_bytes 4 v) r'" "rnodes r' = rnodes r"
proof -
  obtain bs where bs: "r_take 4 r = Inr (bs, r')" "v = le_nat bs"
    using assms by (auto simp: r_u32_def res_simps)
  with r_take_Inr [OF bs(1)] le_bytes_nat [of bs] show "moved r (le_bytes 4 v) r'" "rnodes r' = rnodes r"
    by auto
qed

lemma r_u64_Inr:
  assumes "r_u64 r = Inr (v, r')"
  shows "moved r (le_bytes 8 v) r'" "v < 2 ^ 64" "rnodes r' = rnodes r"
proof -
  obtain bs where bs: "r_take 8 r = Inr (bs, r')" "v = le_nat bs"
    using assms by (auto simp: r_u64_def res_simps)
  with r_take_Inr [OF bs(1)] le_bytes_nat [of bs] le_nat_less [of bs]
  show "moved r (le_bytes 8 v) r'" "v < 2 ^ 64" "rnodes r' = rnodes r"
    by auto
qed

lemma r_i64_Inr:
  assumes "r_i64 r = Inr (z, r')"
  shows "moved r (i64_bytes z) r'" "i64_ok z" "rnodes r' = rnodes r"
proof -
  obtain bs where bs: "r_take 8 r = Inr (bs, r')" "z = le_int bs"
    using assms by (auto simp: r_i64_def res_simps)
  with r_take_Inr [OF bs(1)] le_int_range [of bs]
  show "moved r (i64_bytes z) r'" "i64_ok z" "rnodes r' = rnodes r"
    by (auto simp: i64_bytes_def i64_ok_def I64_MIN_def I64_MAX_def)
qed

lemma r_text_Inr:
  assumes "r_text MAX_STRING_BYTES r = Inr (s, r')"
  shows "\<exists>bs. moved r bs r' \<and> text_encodes s bs" "text_ok s" "rnodes r' = rnodes r"
proof -
  obtain n r1 bs where n: "r_u32 r = Inr (n, r1)" "n \<le> MAX_STRING_BYTES" "r_take n r1 = Inr (bs, r')"
    "text_decode bs = Some s"
    using assms by (auto simp: r_text_def res_simps split: if_splits option.splits)
  have m: "moved r1 bs r'" "length bs = n" "rnodes r' = rnodes r1" using r_take_Inr [OF n(3)] by auto
  from text_decode_sound [OF n(4)] have wf: "well_formed16 s"
    and enc: "utf8_encode s = bs \<or> bom_bytes @ utf8_encode s = bs" by auto
  from enc have "length (utf8_encode s) \<le> length bs" by auto
  with wf n(2) m show "text_ok s" by (simp add: text_ok_def)
  have "text_encodes s (le_bytes 4 (length bs) @ bs)"
    using enc n(2) m(2) by (auto simp: text_encodes_def)
  moreover have "moved r (le_bytes 4 (length bs) @ bs) r'"
    using moved_trans [OF r_u32_Inr(1) [OF n(1)] m(1)] m(2) by simp
  ultimately show "\<exists>bs. moved r bs r' \<and> text_encodes s bs" by blast
  show "rnodes r' = rnodes r" using m(3) r_u32_Inr(2) [OF n(1)] by simp
qed

text \<open>
  \<open>decoded depth r t bs r'\<close>: between the readers \<open>r\<close> and \<open>r'\<close> lie the bytes \<open>bs\<close>, an encoding of
  the well-formed Term \<open>t\<close> within the limits, and its nodes have been counted.
\<close>

definition decoded :: "nat \<Rightarrow> reader \<Rightarrow> fterm \<Rightarrow> byte list \<Rightarrow> reader \<Rightarrow> bool" where
  "decoded depth r t bs r' \<longleftrightarrow> atom_ok t \<and> depth + term_depth t \<le> MAX_TERM_DEPTH \<and>
     rnodes r' = rnodes r + term_size t \<and> rnodes r' \<le> MAX_TERM_NODES \<and> moved r bs r' \<and> encodes t bs"

lemma moved_rnodes [simp]: "moved (r\<lparr>rnodes := k\<rparr>) bs r' = moved r bs r'"
  by (simp add: moved_def)

lemma decoded_leaf:
  assumes "moved r [tag] r2" "moved r2 bs r'" "rnodes r' = rnodes r + 1" "rnodes r' \<le> MAX_TERM_NODES"
    "depth \<le> MAX_TERM_DEPTH" "atom_ok t" "term_size t = 1" "term_depth t = 0" "encodes t (tag # bs)"
  shows "decoded depth r t (tag # bs) r'"
  using assms moved_trans [OF assms(1,2)] by (simp add: decoded_def)

lemma moved_Nil: "moved r [tag] r' \<Longrightarrow> moved r' [] r'"
  by (auto simp: moved_def)

lemma decoded_triple:
  assumes "moved r [7] r2" "rnodes r2 = rnodes r + 1" "decoded (depth + 1) r2 a x r3"
    "decoded (depth + 1) r3 b y r4" "decoded (depth + 1) r4 c z r5"
  shows "decoded depth r (FTriple a b c) (7 # x @ y @ z) r5"
proof -
  have m: "moved r2 x r3" "moved r3 y r4" "moved r4 z r5"
    using assms by (simp_all add: decoded_def)
  have "moved r ([7] @ x @ y @ z) r5"
    using moved_trans [OF assms(1) moved_trans [OF m(1) moved_trans [OF m(2,3)]]] .
  moreover have "encodes (FTriple a b c) (7 # x @ y @ z)"
    using assms(3-5) by (auto simp: decoded_def)
  moreover have "depth + term_depth (FTriple a b c) \<le> MAX_TERM_DEPTH"
    using assms(3-5) by (auto simp: decoded_def max_def)
  ultimately show ?thesis using assms unfolding decoded_def by simp
qed

lemma readTerm_sound:
  "readTerm depth r = Inr (v, r') \<Longrightarrow> \<exists>t bs. v = rep_term t \<and> decoded depth r t bs r'"
proof (induction depth r arbitrary: v r' rule: readTerm.induct)
  case (1 depth r)
  let ?r1 = "r\<lparr>rnodes := rnodes r + 1\<rparr>"
  note eq = "1.prems" [unfolded readTerm.simps [of depth r]]
  from eq have d: "depth \<le> MAX_TERM_DEPTH" and n: "rnodes r + 1 \<le> MAX_TERM_NODES"
    by (auto simp: Let_def split: if_splits)
  from eq d n obtain tag r2 where u8: "r_u8 ?r1 = Inr (tag, r2)"
    by (auto simp: Let_def res_simps)
  note eq' = eq [unfolded Let_def u8 rbind.simps prod.case]
  from r_u8_Inr [OF u8] have m: "moved r [word_of_nat tag] r2" and k: "rnodes r2 = rnodes r + 1" by auto
  have leaf: ?case if "v = rep_term t" "moved r2 bs r'" "rnodes r' = rnodes r2" "atom_ok t"
    "term_size t = 1" "term_depth t = 0" "encodes t (word_of_nat tag # bs)" for t bs
  proof -
    have "decoded depth r t (word_of_nat tag # bs) r'"
      using that d n k by (intro decoded_leaf [OF m]) simp_all
    with that(1) show ?thesis by blast
  qed
  consider "tag = 1" | "tag = 2" | "tag = 3" | "tag = 4 \<or> tag = 5" | "tag = 6" | "tag = 7" | "tag = 8"
    using eq' d n by (auto split: if_splits)
  then show ?case
  proof cases
    case 1
    with eq' d n obtain s where s: "r_text MAX_STRING_BYTES r2 = Inr (s, r')" "v = rep_term (FString s)"
      by (auto simp: res_simps)
    from r_text_Inr [OF s(1)] obtain bs where "moved r2 bs r'" "text_encodes s bs" "text_ok s" "rnodes r' = rnodes r2"
      by auto
    with s(2) 1 show ?thesis by (intro leaf [of "FString s" bs]) auto
  next
    case 2
    with eq' d n obtain z where z: "r_i64 r2 = Inr (z, r')" "v = rep_term (FInteger z)"
      by (auto simp: res_simps)
    with r_i64_Inr [OF z(1)] 2 show ?thesis by (intro leaf [of "FInteger z" "i64_bytes z"]) auto
  next
    case 3
    with eq' d n obtain w num where w: "r_u64 r2 = Inr (w, r')"
      and f: "float64Value (JArr [JStr (js ''float64''), JStr (pad_start 16 (nat_text 16 w))]) = Inr num"
      and v: "v = JArr [JStr (js ''float64''), JStr (if is_nan num then canonical_nan
                else pad_start 16 (nat_text 16 w))]"
      by (auto simp: res_simps)
    note u = r_u64_Inr [OF w]
    define b where "b = (word_of_nat w :: 64 word)"
    have wb: "unat b = w" using u(2) by (simp add: b_def unat_of_nat)
    then have ft: "pad_start 16 (nat_text 16 w) = float_text b" by (simp add: float_text_def)
    from f have "float_ok b" "num = b" unfolding ft float64Value_text by (auto split: if_splits)
    then have "v = rep_term (FFloat b)"
      using v ft canonical_nan_text by (auto simp: float_ok_def)
    with u 3 wb \<open>float_ok b\<close> show ?thesis by (intro leaf [of "FFloat b" "le_bytes 8 w"]) auto
  next
    case 4
    with eq' d n have "v = rep_term (FBoolean (tag = 5))" "r' = r2" by (auto split: if_splits)
    with moved_Nil [OF m] 4 show ?thesis by (intro leaf [of "FBoolean (tag = 5)" "[]"]) auto
  next
    case 5
    with eq' d n obtain s where s: "r_text MAX_STRING_BYTES r2 = Inr (s, r')" "s \<noteq> []" "v = rep_term (FKeyword s)"
      by (auto simp: res_simps split: if_splits)
    from r_text_Inr [OF s(1)] obtain bs where "moved r2 bs r'" "text_encodes s bs" "text_ok s" "rnodes r' = rnodes r2"
      by auto
    with s(2,3) 5 show ?thesis by (intro leaf [of "FKeyword s" bs]) auto
  next
    case 6
    with eq' d n obtain a b c r3 r4 where r: "readTerm (depth + 1) r2 = Inr (a, r3)"
      "readTerm (depth + 1) r3 = Inr (b, r4)" "readTerm (depth + 1) r4 = Inr (c, r')"
      and v: "v = JArr [JStr (js ''triple''), a, b, c]"
      by (auto simp: res_simps)
    have guard: "\<not> MAX_TERM_DEPTH < depth" "\<not> MAX_TERM_NODES < rnodes ?r1" using d n by auto
    note IH = "1.IH" [OF guard(1) refl guard(2) u8 refl]
    obtain t1 x where 1: "a = rep_term t1" "decoded (depth + 1) r2 t1 x r3"
      using IH(1) [of a r3] 6 r(1) by auto
    obtain t2 y where 2: "b = rep_term t2" "decoded (depth + 1) r3 t2 y r4"
      using IH(2) [of "(a, r3)" a r3 b r4] 6 r by auto
    obtain t3 z where 3: "c = rep_term t3" "decoded (depth + 1) r4 t3 z r'"
      using IH(3) [of "(a, r3)" a r3 "(b, r4)" b r4 c r'] 6 r by auto
    have "decoded depth r (FTriple t1 t2 t3) (7 # x @ y @ z) r'"
      using m k 6 1(2) 2(2) 3(2) by (intro decoded_triple) auto
    moreover have "v = rep_term (FTriple t1 t2 t3)" using v 1 2 3 by simp
    ultimately show ?thesis by blast
  next
    case 7
    with eq' d n obtain sec r3 ns where r: "r_i64 r2 = Inr (sec, r3)" "r_u32 r3 = Inr (ns, r')" "ns < 1000000000"
      and v: "v = rep_term (FInstant sec (int ns))"
      by (auto simp: res_simps split: if_splits)
    have "moved r2 (i64_bytes sec @ le_bytes 4 ns) r'"
      using moved_trans [OF r_i64_Inr(1) [OF r(1)] r_u32_Inr(1) [OF r(2)]] .
    with v r(3) r_i64_Inr [OF r(1)] r_u32_Inr [OF r(2)] 7 show ?thesis
      by (intro leaf [of "FInstant sec (int ns)" "i64_bytes sec @ le_bytes 4 ns"]) auto
  qed
qed

lemma decoded_size: "decoded depth r t bs r' \<Longrightarrow> term_size t \<le> MAX_TERM_NODES \<and> offset r' = offset r + length bs"
  by (simp add: decoded_def moved_def)

end
