(* ===== verification/Rpc.thy ===== *)
theory Rpc
  imports Wire
begin

text \<open>
  RPC records, lists and options as Terms, and the FRAMRPC v2 request and response envelopes of
  \<^verbatim>\<open>clients/bun/framrpc-core.mjs\<close>: \<open>encodeRequest\<close> with its controls and budget, the batch preflight,
  and \<open>decodeResponseFrame\<close>. \<open>request_frame\<close> and \<open>response_frame\<close> are the byte formats.
\<close>

section \<open>Reading records, lists and options\<close>

text \<open>The keyword Term of a literal, as \<open>keywordTerm('...')\<close> builds it.\<close>

definition kw :: "string \<Rightarrow> jsval" where
  "kw s = JArr [JStr (js ''keyword''), JStr (js s)]"

definition isKeyword :: "jsval \<Rightarrow> string \<Rightarrow> bool" where
  "isKeyword v spelling \<longleftrightarrow> v = JArr [JStr (js ''keyword''), JStr (js spelling)]"

fun tagged_payload :: "string \<Rightarrow> jsval \<Rightarrow> jsval res" where
  "tagged_payload name (JArr [JStr tag, x]) =
     (if tag = js name then Inr x else fail ''client/invalid-record'')"
| "tagged_payload name _ = fail ''client/invalid-record''"

definition keywordName :: "jsval \<Rightarrow> jsval res" where
  "keywordName = tagged_payload ''keyword''"

definition stringValue :: "jsval \<Rightarrow> jsval res" where
  "stringValue = tagged_payload ''string''"

definition boolValue :: "jsval \<Rightarrow> jsval res" where
  "boolValue = tagged_payload ''boolean''"

definition intValue :: "jsval \<Rightarrow> int res" where
  "intValue v = rbind (tagged_payload ''integer'' v) to_bigint"

text \<open>The parts of a triple array, when the value is one.\<close>

fun as_triple :: "jsval \<Rightarrow> (jsval \<times> jsval \<times> jsval) option" where
  "as_triple (JArr [JStr tag, a, b, c]) = (if tag = js ''triple'' then Some (a, b, c) else None)"
| "as_triple _ = None"

lemma as_triple_size: "as_triple v = Some (a, b, c) \<Longrightarrow> size c < size v"
  by (cases v rule: as_triple.cases) (auto split: if_splits)

text \<open>\<open>rawListValues\<close>: the \<open>while\<close> loop over the cursor, with the number of values so far.\<close>

function rawList :: "nat \<Rightarrow> jsval \<Rightarrow> jsval list res" where
  "rawList n cursor =
     (if isKeyword cursor ''rpc/list-end'' then Inr []
      else case as_triple cursor of
        None \<Rightarrow> fail ''client/invalid-list''
      | Some (k, x, nxt) \<Rightarrow>
          if \<not> isKeyword k ''rpc/list'' then fail ''client/invalid-list''
          else if MAX_TERM_NODES < n + 1 then fail ''client/invalid-list''
          else rbind (rawList (n + 1) nxt) (\<lambda>xs. Inr (x # xs)))"
  by pat_completeness auto
termination
  by (relation "measure (\<lambda>(_, cursor). size cursor)") (auto dest: as_triple_size)

declare rawList.simps [simp del]

definition rawListValues :: "jsval \<Rightarrow> jsval list res" where
  "rawListValues v = rawList 0 v"

definition listValues :: "jsval \<Rightarrow> jsval list res" where
  "listValues v = rbind (validateTerm 0 fresh_budget v) (\<lambda>_. rawListValues v)"

definition rawRecordFields :: "jsval \<Rightarrow> string \<Rightarrow> nat \<Rightarrow> jsval list res" where
  "rawRecordFields v tag count =
     (case as_triple v of
        None \<Rightarrow> fail ''client/invalid-record''
      | Some (k, fs, e) \<Rightarrow>
          if \<not> isKeyword k tag \<or> \<not> isKeyword e ''rpc/record'' then fail ''client/invalid-record''
          else rbind (rawListValues fs)
            (\<lambda>xs. if length xs \<noteq> count then fail ''client/invalid-record'' else Inr xs))"

definition recordFields :: "jsval \<Rightarrow> string \<Rightarrow> nat \<Rightarrow> jsval list res" where
  "recordFields v tag count =
     rbind (validateTerm 0 fresh_budget v) (\<lambda>_. rawRecordFields v tag count)"

definition optionValue :: "jsval \<Rightarrow> jsval option res" where
  "optionValue v =
     (if isKeyword v ''rpc/none'' then Inr None
      else case as_triple v of
        Some (k, x, e) \<Rightarrow>
          if isKeyword k ''rpc/some'' \<and> isKeyword e ''rpc/option'' then Inr (Some x)
          else fail ''client/invalid-option''
      | None \<Rightarrow> fail ''client/invalid-option'')"

section \<open>Building records, lists and options\<close>

definition keyword_lit :: "string \<Rightarrow> jsval res" where
  "keyword_lit s = keywordTerm (JStr (js s))"

definition rpcList :: "jsval list \<Rightarrow> jsval res" where
  "rpcList values =
     foldr (\<lambda>v acc. rbind acc (\<lambda>tail. rbind (keyword_lit ''rpc/list'') (\<lambda>k. tripleTerm k v tail)))
       values (keyword_lit ''rpc/list-end'')"

definition rpcRecord :: "string \<Rightarrow> jsval list \<Rightarrow> jsval res" where
  "rpcRecord tag xs =
     rbind (keyword_lit tag) (\<lambda>k. rbind (rpcList xs) (\<lambda>fs.
     rbind (keyword_lit ''rpc/record'') (\<lambda>e. tripleTerm k fs e)))"

definition rpcOption :: "jsval \<Rightarrow> jsval res" where
  "rpcOption v =
     (if nullish v then keyword_lit ''rpc/none''
      else rbind (keyword_lit ''rpc/some'') (\<lambda>k. rbind (toTerm v) (\<lambda>x.
        rbind (keyword_lit ''rpc/option'') (\<lambda>e. tripleTerm k x e))))"

section \<open>Records and lists read back\<close>

text \<open>ASCII literals are well-formed text of one byte per character.\<close>

definition ascii :: "string \<Rightarrow> bool" where
  "ascii s \<longleftrightarrow> list_all (\<lambda>c. of_char c < (128 :: nat)) s"

lemma ascii_units:
  "list_all (\<lambda>u. unat u < 128) us \<Longrightarrow> well_formed16 us \<and> code_points us = map unat us"
  by (induction us rule: code_points.induct) (auto simp: surrogate_def high_surrogate_def low_surrogate_def)

lemma ascii_js:
  assumes "ascii s"
  shows "well_formed16 (js s)" "length (utf8_encode (js s)) = length s" "\<not> starts_with_bom (js s)"
proof -
  have u: "unat (word_of_nat (of_char c) :: 16 word) = of_char c" if "of_char c < (128 :: nat)" for c :: char
    using that by simp
  have small: "list_all (\<lambda>u. unat u < 128) (js s)"
    using assms u by (auto simp: ascii_def js_def list_all_iff)
  note a = ascii_units [OF small]
  have one: "list_all (\<lambda>c. utf8_of c = [c]) (code_points (js s))"
    using a small by (auto simp: list_all_iff utf8_of_def)
  have "concat (map utf8_of cs) = cs" if "list_all (\<lambda>c. utf8_of c = [c]) cs" for cs
    using that by (induction cs) auto
  from this [OF one] a show "length (utf8_encode (js s)) = length s"
    by (simp add: utf8_encode_def del: map_map)
  show "well_formed16 (js s)" using a by simp
  show "\<not> starts_with_bom (js s)"
    using small by (auto simp: starts_with_bom_def BOM_def split: list.splits)
qed

definition name_ok :: "string \<Rightarrow> bool" where
  "name_ok s \<longleftrightarrow> ascii s \<and> s \<noteq> [] \<and> length s \<le> 100"

lemma name_ok_text: "name_ok s \<Longrightarrow> text_ok (js s) \<and> js s \<noteq> [] \<and> s \<noteq> []"
  using ascii_js [of s] by (simp add: name_ok_def text_ok_def MAX_STRING_BYTES_def)

lemma kw_rep: "kw s = rep_term (FKeyword (js s))"
  by (simp add: kw_def)

lemma kw_inject [simp]: "kw s = kw t \<longleftrightarrow> s = t"
  by (simp add: kw_def)

lemma isKeyword_iff: "isKeyword v s \<longleftrightarrow> v = kw s"
  by (simp add: isKeyword_def kw_def)

lemma keyword_lit_kw [simp]: "name_ok s \<Longrightarrow> keyword_lit s = Inr (kw s)"
  using name_ok_text [of s] by (simp add: keyword_lit_def keywordTerm_rep kw_rep)

lemma rpc_names [simp]:
  "name_ok ''rpc/list''" "name_ok ''rpc/list-end''" "name_ok ''rpc/record''" "name_ok ''rpc/none''"
  "name_ok ''rpc/some''" "name_ok ''rpc/option''"
  by (simp_all add: name_ok_def ascii_def)

lemma toTerm_kw [simp]: "name_ok s \<Longrightarrow> toTerm (kw s) = Inr (kw s)"
  using name_ok_text [of s] by (simp add: kw_rep toTerm_rep_term del: rep_term.simps)

text \<open>The array of a list of Terms, and of a record.\<close>

fun list_val :: "jsval list \<Rightarrow> jsval" where
  "list_val [] = kw ''rpc/list-end''"
| "list_val (v # vs) = JArr [JStr (js ''triple''), kw ''rpc/list'', v, list_val vs]"

definition record_val :: "string \<Rightarrow> jsval list \<Rightarrow> jsval" where
  "record_val tag vs = JArr [JStr (js ''triple''), kw tag, list_val vs, kw ''rpc/record'']"

lemma as_triple_iff: "as_triple v = Some (a, b, c) \<longleftrightarrow> v = JArr [JStr (js ''triple''), a, b, c]"
  by (cases v rule: as_triple.cases) auto

lemma as_triple_JArr [simp]: "as_triple (JArr [JStr (js ''triple''), a, b, c]) = Some (a, b, c)"
  by (simp add: as_triple_iff)

lemma rawList_iff: "rawList n v = Inr vs \<longleftrightarrow> v = list_val vs \<and> (vs = [] \<or> n + length vs \<le> MAX_TERM_NODES)"
proof (induction n v arbitrary: vs rule: rawList.induct)
  case (1 n v)
  show ?case
  proof (cases "v = kw ''rpc/list-end''")
    case True
    then show ?thesis
      by (subst rawList.simps) (cases vs, simp_all add: isKeyword_iff kw_def)
  next
    case False
    show ?thesis
    proof (cases vs)
      case Nil
      with False show ?thesis
        by (subst rawList.simps) (auto simp: isKeyword_iff res_simps split: option.splits)
    next
      case (Cons x xs)
      show ?thesis
      proof (cases "\<exists>nxt. v = JArr [JStr (js ''triple''), kw ''rpc/list'', x, nxt]")
        case True
        then obtain nxt where v: "v = JArr [JStr (js ''triple''), kw ''rpc/list'', x, nxt]" by blast
        have "rawList n v = (if MAX_TERM_NODES < n + 1 then fail ''client/invalid-list''
            else rbind (rawList (n + 1) nxt) (\<lambda>ys. Inr (x # ys)))"
          using False by (subst rawList.simps) (simp add: isKeyword_iff v)
        moreover have "rawList (n + 1) nxt = Inr xs \<longleftrightarrow>
            nxt = list_val xs \<and> (xs = [] \<or> n + 1 + length xs \<le> MAX_TERM_NODES)"
          if "\<not> MAX_TERM_NODES < n + 1"
          using 1 [of _ "kw ''rpc/list''" _ x nxt] False v that by (simp add: isKeyword_iff)
        ultimately show ?thesis
          using Cons v by (auto simp: res_simps)
      next
        case no: False
        with Cons have "v \<noteq> list_val vs" by auto
        moreover have "rawList n v \<noteq> Inr vs"
          using no False Cons
          by (subst rawList.simps) (auto simp: isKeyword_iff res_simps as_triple_iff split: option.splits if_splits)
        ultimately show ?thesis by simp
      qed
    qed
  qed
qed

lemma rawListValues_iff: "rawListValues v = Inr vs \<longleftrightarrow> v = list_val vs \<and> length vs \<le> MAX_TERM_NODES"
  by (auto simp: rawListValues_def rawList_iff)

lemma rawRecordFields_iff:
  "rawRecordFields v tag n = Inr vs \<longleftrightarrow> v = record_val tag vs \<and> length vs = n \<and> n \<le> MAX_TERM_NODES"
  by (auto simp: rawRecordFields_def isKeyword_iff record_val_def as_triple_iff res_simps
      rawListValues_iff split: option.splits if_splits)

lemma list_val_inject [simp]: "list_val xs = list_val ys \<longleftrightarrow> xs = ys"
proof (induction xs arbitrary: ys)
  case Nil
  then show ?case by (cases ys) (simp_all add: kw_def)
next
  case (Cons x xs)
  then show ?case by (cases ys) (simp_all add: kw_def)
qed

text \<open>What the builders return, and that the readers return the same fields.\<close>

lemma toTerm_JArr: "toTerm (JArr xs) = Inr u \<Longrightarrow> u = JArr xs"
  by (auto simp: toTerm_def res_simps)

lemma list_val_JArr: "\<exists>xs. list_val us = JArr xs"
  by (cases us) (simp_all add: kw_def)

lemma toTerm_denotes: "denotes v t \<Longrightarrow> term_ok t \<Longrightarrow> toTerm v = Inr v"
proof -
  assume d: "denotes v t" and "term_ok t"
  then obtain b where "validateTerm 0 fresh_budget v = Inr b" by (auto simp: validateTerm_fresh)
  with d show ?thesis by (cases rule: denotes.cases) (simp_all add: toTerm_def)
qed

lemma tripleTerm_Inr_iff:
  "tripleTerm a b c = Inr u \<longleftrightarrow>
     (\<exists>x y z. toTerm a = Inr x \<and> toTerm b = Inr y \<and> toTerm c = Inr z \<and>
        u = JArr [JStr (js ''triple''), x, y, z])"
  by (auto simp: tripleTerm_def res_simps)

lemma rpcList_Cons:
  "rpcList (v # vs) = rbind (rpcList vs) (\<lambda>nxt. tripleTerm (kw ''rpc/list'') v nxt)"
  by (simp add: rpcList_def)

lemma rpcList_Nil [simp]: "rpcList [] = Inr (kw ''rpc/list-end'')"
  by (simp add: rpcList_def)

lemma rpcList_Inr: "rpcList vs = Inr u \<Longrightarrow> \<exists>us. rmap toTerm vs = Inr us \<and> u = list_val us"
proof (induction vs arbitrary: u)
  case (Cons v vs)
  then obtain nxt x z where n: "rpcList vs = Inr nxt" "toTerm v = Inr x" "toTerm nxt = Inr z"
    "u = JArr [JStr (js ''triple''), kw ''rpc/list'', x, z]"
    by (auto simp: rpcList_Cons res_simps tripleTerm_Inr_iff)
  from Cons.IH [OF n(1)] obtain us where us: "rmap toTerm vs = Inr us" "nxt = list_val us" by auto
  moreover have "z = nxt" using list_val_JArr [of us] us(2) n(3) toTerm_JArr by auto
  ultimately show ?case using n by (intro exI [of _ "x # us"]) simp
qed simp

inductive_cases denotes_tripleE: "denotes (JArr [JStr (js ''triple''), x, y, z]) t"

lemma denotes_list_val_length: "denotes (list_val us) t \<Longrightarrow> length us < term_size t"
proof (induction us arbitrary: t)
  case (Cons u us)
  from Cons.prems obtain a b c where "t = FTriple a b c" "denotes (list_val us) c"
    by (auto elim: denotes_tripleE)
  with Cons.IH [of c] show ?case by simp
qed simp

lemma toTerm_list_val_length: "toTerm (list_val us) = Inr u \<Longrightarrow> length us < MAX_TERM_NODES"
proof -
  assume a: "toTerm (list_val us) = Inr u"
  then obtain t where "denotes u t" "term_ok t" using toTerm_sound by blast
  moreover have "u = list_val us" using list_val_JArr [of us] a toTerm_JArr by auto
  ultimately show ?thesis using denotes_list_val_length [of us t] by (simp add: term_ok_def)
qed

lemma rpcRecord_Inr:
  assumes "rpcRecord tag vs = Inr u" "name_ok tag"
  shows "\<exists>us. rmap toTerm vs = Inr us \<and> u = record_val tag us \<and> length us \<le> MAX_TERM_NODES"
proof -
  obtain fs z where f: "rpcList vs = Inr fs" "toTerm fs = Inr z"
    "u = JArr [JStr (js ''triple''), kw tag, z, kw ''rpc/record'']"
    using assms by (auto simp: rpcRecord_def res_simps tripleTerm_Inr_iff)
  from rpcList_Inr [OF f(1)] obtain us where us: "rmap toTerm vs = Inr us" "fs = list_val us" by auto
  moreover have "z = fs" using list_val_JArr [of us] us(2) f(2) toTerm_JArr by auto
  ultimately show ?thesis using f toTerm_list_val_length [of us] by (auto simp: record_val_def)
qed

text \<open>The Term of a list and of a record, and the constructors on canonical Terms.\<close>

fun list_term :: "fterm list \<Rightarrow> fterm" where
  "list_term [] = FKeyword (js ''rpc/list-end'')"
| "list_term (t # ts) = FTriple (FKeyword (js ''rpc/list'')) t (list_term ts)"

definition record_term :: "string \<Rightarrow> fterm list \<Rightarrow> fterm" where
  "record_term tag ts = FTriple (FKeyword (js tag)) (list_term ts) (FKeyword (js ''rpc/record''))"

lemma rep_list_term: "rep_term (list_term ts) = list_val (map rep_term ts)"
  by (induction ts) (simp_all add: kw_def)

lemma rep_record_term: "rep_term (record_term tag ts) = record_val tag (map rep_term ts)"
  by (simp add: record_term_def record_val_def rep_list_term kw_def)

lemma term_ok_triple: "term_ok (FTriple a b c) \<Longrightarrow> term_ok a \<and> term_ok b \<and> term_ok c"
  by (auto simp: term_ok_def)

lemma tripleTerm_rep:
  assumes "toTerm a' = Inr (rep_term a)" "toTerm b' = Inr (rep_term b)" "toTerm c' = Inr (rep_term c)"
  shows "tripleTerm a' b' c' = Inr (rep_term (FTriple a b c))"
  unfolding tripleTerm_def assms rbind.simps rep_term.simps(7) ..

lemma name_ok_term: "name_ok s \<Longrightarrow> term_ok (FKeyword (js s))"
  using name_ok_text [of s] by (simp add: term_ok_def MAX_TERM_NODES_def MAX_TERM_DEPTH_def)

lemmas toTerm_name = toTerm_rep_term [OF name_ok_term]

text \<open>Values that \<open>toTerm\<close> takes to given Terms.\<close>

abbreviation terms_of :: "jsval list \<Rightarrow> fterm list \<Rightarrow> bool" where
  "terms_of vs ts \<equiv> list_all2 (\<lambda>v t. toTerm v = Inr (rep_term t)) vs ts"

lemma rpcList_rep: "terms_of vs ts \<Longrightarrow> term_ok (list_term ts) \<Longrightarrow> rpcList vs = Inr (rep_term (list_term ts))"
proof (induction rule: list_all2_induct)
  case (Cons v vs t ts)
  then have ok: "term_ok (list_term ts)"
    using term_ok_triple [of "FKeyword (js ''rpc/list'')" t "list_term ts"] by simp
  have "rpcList (v # vs) = tripleTerm (rep_term (FKeyword (js ''rpc/list''))) v (rep_term (list_term ts))"
    unfolding rpcList_Cons Cons.IH [OF ok] rbind.simps kw_rep ..
  also have "\<dots> = Inr (rep_term (list_term (t # ts)))"
    unfolding list_term.simps
    by (rule tripleTerm_rep [OF toTerm_name [OF rpc_names(1)] Cons.hyps(1) toTerm_rep_term [OF ok]])
  finally show ?case .
qed (simp add: kw_def)

lemma rpcRecord_rep:
  assumes "name_ok tag" "terms_of vs ts" "term_ok (list_term ts)"
  shows "rpcRecord tag vs = Inr (rep_term (record_term tag ts))"
proof -
  have "rpcRecord tag vs =
      tripleTerm (rep_term (FKeyword (js tag))) (rep_term (list_term ts)) (rep_term (FKeyword (js ''rpc/record'')))"
    unfolding rpcRecord_def rpcList_rep [OF assms(2,3)] keyword_lit_kw [OF assms(1)] keyword_lit_kw [OF rpc_names(3)]
      rbind.simps kw_rep ..
  also have "\<dots> = Inr (rep_term (record_term tag ts))"
    unfolding record_term_def
    by (rule tripleTerm_rep [OF toTerm_name [OF assms(1)] toTerm_rep_term [OF assms(3)] toTerm_name [OF rpc_names(3)]])
  finally show ?thesis .
qed

lemma list_term_length: "length ts < term_size (list_term ts)"
  by (induction ts) auto

lemma rawRecordFields_rep:
  assumes "term_ok (list_term ts)"
  shows "rawRecordFields (rep_term (record_term tag ts)) tag (length ts) = Inr (map rep_term ts)"
  using assms list_term_length [of ts] by (simp add: rep_record_term rawRecordFields_iff term_ok_def)

section \<open>Requests\<close>

definition MAGIC :: "byte list" where
  "MAGIC = [0x46, 0x52, 0x41, 0x4d, 0x52, 0x50, 0x43, 0x00]"

definition HEADER_BYTES :: nat where "HEADER_BYTES = 26"
definition MAX_BODY_BYTES :: nat where "MAX_BODY_BYTES = 1048576"
definition MAX_FRAME_BYTES :: nat where "MAX_FRAME_BYTES = HEADER_BYTES + MAX_BODY_BYTES"
definition MAX_PAGE_LIMIT :: int where "MAX_PAGE_LIMIT = 4096"

definition OPERATIONS :: "string list" where
  "OPERATIONS = [''rpc/version'', ''rpc/status'', ''rpc/validate'',
     ''rpc/assert'', ''rpc/retract'', ''rpc/batch'',
     ''rpc/scan'', ''rpc/query'', ''rpc/occurrences'',
     ''rpc/lease-acquire'', ''rpc/lease-renew'', ''rpc/lease-release'', ''rpc/lease-check'']"

definition NATIVE_OPERATOR_OPERATIONS :: "string list" where
  "NATIVE_OPERATOR_OPERATIONS = [''rpc/checkpoint'']"

definition PAGED_OPERATIONS :: "string list" where
  "PAGED_OPERATIONS = [''rpc/scan'', ''rpc/query'', ''rpc/occurrences'']"

definition MUTATION_OPERATIONS :: "string list" where
  "MUTATION_OPERATIONS = [''rpc/assert'', ''rpc/retract'', ''rpc/batch'',
     ''rpc/lease-acquire'', ''rpc/lease-renew'', ''rpc/lease-release'']"

text \<open>\<open>plainObject\<close> and \<open>exactKeys\<close>: the own properties of an options object.\<close>

definition plainObject :: "jsval \<Rightarrow> (jstr \<times> jsval) list res" where
  "plainObject v =
     (case object_fields v of Some fs \<Rightarrow> Inr fs | None \<Rightarrow> fail ''client/invalid-input'')"

definition exactKeys :: "jsval \<Rightarrow> string list \<Rightarrow> (jstr \<times> jsval) list res" where
  "exactKeys v allowed =
     rbind (plainObject v) (\<lambda>fs.
       if list_all (\<lambda>(k, _). k \<in> set (map js allowed)) fs then Inr fs
       else fail ''client/invalid-input'')"

record page_request =
  limit :: nat
  cursor :: "jsval option"

record controls =
  expectedVersion :: "int option"
  page :: "page_request option"
  timeoutMs :: "nat option"

definition pageRequest :: "jsval \<Rightarrow> page_request res" where
  "pageRequest v =
     rbind (plainObject v) (\<lambda>fs.
       if \<not> has_own fs ''limit'' then fail ''client/invalid-page''
       else if \<not> list_all (\<lambda>(k, _). k = js ''limit'' \<or> k = js ''cursor'') fs
       then fail ''client/invalid-page''
       else rbind (integerBigInt 1 MAX_PAGE_LIMIT (get_prop fs ''limit'')) (\<lambda>lim.
         if has_own fs ''cursor''
         then rbind (toTerm (get_prop fs ''cursor'')) (\<lambda>c. Inr \<lparr>limit = nat lim, cursor = Some c\<rparr>)
         else Inr \<lparr>limit = nat lim, cursor = None\<rparr>))"

definition requestControls :: "string \<Rightarrow> jsval \<Rightarrow> controls res" where
  "requestControls operation options =
     (let opts = (if truthy options then options else JObj [])
      in rbind (plainObject opts) (\<lambda>fs.
         rbind (if has_own fs ''expectedVersion''
                then rbind (integerBigInt 0 I64_MAX (get_prop fs ''expectedVersion'')) (\<lambda>z. Inr (Some z))
                else Inr None) (\<lambda>ev.
         rbind (if has_own fs ''page''
                then rbind (pageRequest (get_prop fs ''page'')) (\<lambda>p. Inr (Some p))
                else Inr None) (\<lambda>pg.
         rbind (if has_own fs ''timeoutMs''
                then rbind (integerBigInt 0 U32_MAX (get_prop fs ''timeoutMs'')) (\<lambda>z. Inr (Some (nat z)))
                else Inr None) (\<lambda>tm.
         if pg \<noteq> None \<and> operation \<notin> set PAGED_OPERATIONS then fail ''client/unexpected-page''
         else if tm \<noteq> None \<and> operation \<noteq> ''rpc/query'' then fail ''client/unexpected-timeout''
         else Inr \<lparr>expectedVersion = ev, page = pg, timeoutMs = tm\<rparr>)))))"

definition writePresence :: "bool \<Rightarrow> writer \<Rightarrow> writer" where
  "writePresence present = w_u8 (if present then 1 else 0)"

record encoded =
  frame :: "byte list"
  bodyBytes :: nat
  termCount :: nat
  maxTermDepth :: nat

text \<open>The page and timeout sections of the body.\<close>

definition writePage :: "page_request option \<Rightarrow> budget \<times> writer \<Rightarrow> (budget \<times> writer) res" where
  "writePage pg bw =
     (case bw of (bud, w) \<Rightarrow>
        let w1 = writePresence (pg \<noteq> None) w
        in case pg of
             None \<Rightarrow> Inr (bud, w1)
           | Some p \<Rightarrow>
               let w2 = writePresence (cursor p \<noteq> None) (w_u32 (limit p) w1)
               in case cursor p of None \<Rightarrow> Inr (bud, w2) | Some c \<Rightarrow> writeTerm c bud w2)"

definition writeOptional :: "('a \<Rightarrow> writer \<Rightarrow> writer) \<Rightarrow> 'a option \<Rightarrow> writer \<Rightarrow> writer" where
  "writeOptional put x w =
     (let w1 = writePresence (x \<noteq> None) w in case x of None \<Rightarrow> w1 | Some v \<Rightarrow> put v w1)"

definition writeHeader :: "int \<Rightarrow> nat \<Rightarrow> writer" where
  "writeHeader requestId bodyLength =
     w_i64 requestId (w_u32 bodyLength (w_u8 0 (w_u8 1 (w_u16 0 (w_u16 2 (w_push MAGIC new_writer))))))"

definition encodeRequest ::
  "int \<Rightarrow> jsval \<Rightarrow> string \<Rightarrow> jsval \<Rightarrow> jsval \<Rightarrow> string list \<Rightarrow> encoded res" where
  "encodeRequest requestId space operation payload options operations =
     rbind (case space of JStr s \<Rightarrow> require (s \<noteq> []) (ProtocolError ''client/invalid-space'')
            | _ \<Rightarrow> fail ''client/invalid-space'') (\<lambda>_.
     rbind (strictUtf8 MAX_SPACE_BYTES space) (\<lambda>_.
     rbind (require (operation \<in> set operations) (ProtocolError ''client/unsupported-operation'')) (\<lambda>_.
     rbind (requestControls operation options) (\<lambda>ctl.
     rbind (stringTerm space) (\<lambda>st.
     rbind (writeTerm st fresh_budget new_writer) (\<lambda>(b1, w1).
     rbind (keyword_lit operation) (\<lambda>op.
     rbind (writeTerm op b1 w1) (\<lambda>(b2, w2).
     let w3 = writeOptional w_i64 (expectedVersion ctl) w2 in
     rbind (writePage (page ctl) (b2, w3)) (\<lambda>(b4, w4).
     let w5 = writeOptional w_u32 (timeoutMs ctl) w4 in
     rbind (toTerm payload) (\<lambda>pl.
     rbind (writeTerm pl b4 w5) (\<lambda>(b6, body).
     if MAX_BODY_BYTES < wlen body then fail ''client/frame-too-large''
     else rbind (w_finish body) (\<lambda>bs.
       rbind (w_finish (w_push bs (writeHeader requestId (wlen body)))) (\<lambda>fr.
       Inr \<lparr>frame = fr, bodyBytes = wlen body, termCount = nodes b6, maxTermDepth = maxDepth b6\<rparr>)))))))))))))"

text \<open>\<open>batchPreflight\<close>, \<open>expectedBatchPreflight\<close> and \<open>requireMatchingPreflight\<close>.\<close>

record preflight =
  actionCount :: nat
  pre_requestBytes :: nat
  pre_bodyBytes :: nat
  pre_termCount :: nat
  pre_maxTermDepth :: nat

definition batchPreflight :: "encoded \<Rightarrow> nat \<Rightarrow> preflight" where
  "batchPreflight e n = \<lparr>actionCount = n, pre_requestBytes = length (frame e), pre_bodyBytes = bodyBytes e,
     pre_termCount = termCount e, pre_maxTermDepth = maxTermDepth e\<rparr>"

definition BATCH_PREFLIGHT_FIELDS :: "string list" where
  "BATCH_PREFLIGHT_FIELDS =
     [''actionCount'', ''requestBytes'', ''bodyBytes'', ''termCount'', ''maxTermDepth'']"

text \<open>A property that is a nonnegative safe integer, as \<open>Number.isSafeInteger(v) \<and> v \<ge> 0\<close> asks.\<close>

definition nonneg_safe :: "jsval \<Rightarrow> bool" where
  "nonneg_safe v =
     (case v of JNum b \<Rightarrow> (case safe_int b of Some z \<Rightarrow> 0 \<le> z | None \<Rightarrow> False) | _ \<Rightarrow> False)"

definition expectedBatchPreflight :: "jsval \<Rightarrow> (jstr \<times> jsval) list res" where
  "expectedBatchPreflight v =
     (case object_fields v of
        None \<Rightarrow> fail ''client/preflight-mismatch''
      | Some fs \<Rightarrow>
          if length fs \<noteq> length BATCH_PREFLIGHT_FIELDS
             \<or> list_ex (\<lambda>(k, _). k \<notin> set (map js BATCH_PREFLIGHT_FIELDS)) fs
          then fail ''client/preflight-mismatch''
          else if list_all (\<lambda>k. nonneg_safe (get_prop fs k)) BATCH_PREFLIGHT_FIELDS then Inr fs
          else fail ''client/preflight-mismatch'')"

text \<open>\<open>supplied[field] !== actual[field]\<close> on a number and a count.\<close>

definition equals_count :: "jsval \<Rightarrow> nat \<Rightarrow> bool" where
  "equals_count v n = (case v of JNum b \<Rightarrow> num_int b = Some (int n) | _ \<Rightarrow> False)"

definition requireMatchingPreflight :: "jsval \<Rightarrow> preflight \<Rightarrow> unit res" where
  "requireMatchingPreflight expected actual =
     rbind (expectedBatchPreflight expected) (\<lambda>fs.
       require (equals_count (get_prop fs ''actionCount'') (actionCount actual) \<and>
                equals_count (get_prop fs ''requestBytes'') (pre_requestBytes actual) \<and>
                equals_count (get_prop fs ''bodyBytes'') (pre_bodyBytes actual) \<and>
                equals_count (get_prop fs ''termCount'') (pre_termCount actual) \<and>
                equals_count (get_prop fs ''maxTermDepth'') (pre_maxTermDepth actual))
         (ProtocolError ''client/preflight-mismatch''))"

section \<open>The request format\<close>

definition opt_bytes :: "('a \<Rightarrow> byte list) \<Rightarrow> 'a option \<Rightarrow> byte list" where
  "opt_bytes put x = (case x of None \<Rightarrow> [0] | Some v \<Rightarrow> 1 # put v)"

record request =
  rq_space :: jstr
  rq_operation :: string
  rq_expected :: "int option"
  rq_page :: "(nat \<times> fterm option) option"
  rq_timeout :: "nat option"
  rq_payload :: fterm

definition page_bytes :: "nat \<times> fterm option \<Rightarrow> byte list" where
  "page_bytes p = le_bytes 4 (fst p) @ opt_bytes wire (snd p)"

definition request_body :: "request \<Rightarrow> byte list" where
  "request_body r = wire (FString (rq_space r)) @ wire (FKeyword (js (rq_operation r))) @
     opt_bytes i64_bytes (rq_expected r) @ opt_bytes page_bytes (rq_page r) @
     opt_bytes (le_bytes 4) (rq_timeout r) @ wire (rq_payload r)"

definition frame_header :: "nat \<Rightarrow> nat \<Rightarrow> int \<Rightarrow> byte list" where
  "frame_header kind bodyLength requestId =
     MAGIC @ le_bytes 2 2 @ le_bytes 2 0 @ [word_of_nat kind, 0] @ le_bytes 4 bodyLength @ i64_bytes requestId"

definition request_frame :: "int \<Rightarrow> request \<Rightarrow> byte list" where
  "request_frame requestId r = frame_header 1 (length (request_body r)) requestId @ request_body r"

definition page_terms :: "(nat \<times> fterm option) option \<Rightarrow> fterm list" where
  "page_terms p = (case p of Some (_, Some c) \<Rightarrow> [c] | _ \<Rightarrow> [])"

definition request_terms :: "request \<Rightarrow> fterm list" where
  "request_terms r = [FString (rq_space r), FKeyword (js (rq_operation r))] @ page_terms (rq_page r) @
     [rq_payload r]"

lemma frame_header_length [simp]: "length (frame_header k n i) = 26"
  by (simp add: frame_header_def MAGIC_def)

text \<open>\<open>writes bud w ts bs bud' w'\<close>: the Terms \<open>ts\<close> were budgeted and the bytes \<open>bs\<close> written.\<close>

definition spend_all :: "fterm list \<Rightarrow> budget \<Rightarrow> budget" where
  "spend_all ts bud = fold (spend 0) ts bud"

definition writes :: "budget \<Rightarrow> writer \<Rightarrow> fterm list \<Rightarrow> byte list \<Rightarrow> budget \<Rightarrow> writer \<Rightarrow> bool" where
  "writes bud w ts bs bud' w' \<longleftrightarrow>
     bud' = spend_all ts bud \<and> (nodes bud \<le> MAX_TERM_NODES \<longrightarrow> nodes bud' \<le> MAX_TERM_NODES) \<and>
     (\<forall>t \<in> set ts. term_ok t) \<and> w_bytes w' = w_bytes w @ bs \<and> w_inv w' = w_inv w"

lemma writes_trans:
  "writes b w ts bs b1 w1 \<Longrightarrow> writes b1 w1 us cs b2 w2 \<Longrightarrow> writes b w (ts @ us) (bs @ cs) b2 w2"
  by (auto simp: writes_def spend_all_def)

lemma writes_Nil: "w_bytes w' = w_bytes w @ bs \<Longrightarrow> w_inv w' = w_inv w \<Longrightarrow> writes b w [] bs b w'"
  by (simp add: writes_def spend_all_def)

lemma writeTerm_Inr:
  assumes "writeTerm v bud w = Inr (bud', w')"
  shows "\<exists>t. denotes v t \<and> writes bud w [t] (wire t) bud' w'"
proof -
  obtain w1 where v: "validateTerm 0 bud v = Inr bud'" and w: "writeTermUnchecked v w = Inr w1" "w1 = w'"
    using assms by (auto simp: writeTerm_def res_simps)
  from v obtain t where t: "denotes v t" "term_depth t \<le> MAX_TERM_DEPTH"
    "nodes bud + term_size t \<le> MAX_TERM_NODES" "bud' = spend 0 t bud"
    by (auto simp: validateTerm_iff)
  moreover have "term_ok t" using t denotes_atom_ok by (auto simp: term_ok_def)
  ultimately show ?thesis
    using writeTermUnchecked_wire [OF t(1), of w] w by (auto simp: writes_def spend_all_def spend_def)
qed

lemma writePresence_bytes [simp]:
  "w_bytes (writePresence b w) = w_bytes w @ [if b then 1 else 0]" "w_inv (writePresence b w) = w_inv w"
  by (simp_all add: writePresence_def)

lemma writeOptional_bytes:
  assumes "\<And>x w. w_bytes (put x w) = w_bytes w @ enc x" "\<And>x w. w_inv (put x w) = w_inv w"
  shows "writes bud w [] (opt_bytes enc x) bud (writeOptional put x w)"
  by (cases x) (simp_all add: writes_Nil writeOptional_def opt_bytes_def assms)

definition page_denotes :: "page_request option \<Rightarrow> (nat \<times> fterm option) option \<Rightarrow> bool" where
  "page_denotes p q \<longleftrightarrow>
     rel_option (\<lambda>p q. limit p = fst q \<and> rel_option denotes (cursor p) (snd q)) p q"

lemma writePage_Inr:
  assumes "writePage pg (bud, w) = Inr (bud', w')"
  shows "\<exists>q. page_denotes pg q \<and> writes bud w (page_terms q) (opt_bytes page_bytes q) bud' w'"
proof (cases pg)
  case None
  with assms show ?thesis
    by (intro exI [of _ None])
      (auto simp: writePage_def page_terms_def opt_bytes_def page_denotes_def intro!: writes_Nil)
next
  case (Some p)
  show ?thesis
  proof (cases "cursor p")
    case None
    with assms Some show ?thesis
      by (intro exI [of _ "Some (limit p, None)"])
        (auto simp: writePage_def page_terms_def opt_bytes_def page_denotes_def page_bytes_def Let_def
          intro!: writes_Nil)
  next
    case c: (Some c)
    let ?w = "writePresence True (w_u32 (limit p) (writePresence True w))"
    from assms Some c have "writeTerm c bud ?w = Inr (bud', w')"
      by (simp add: writePage_def Let_def)
    from writeTerm_Inr [OF this] obtain t where t: "denotes c t" "writes bud ?w [t] (wire t) bud' w'" by blast
    have "writes bud w [] (1 # le_bytes 4 (limit p) @ [1]) bud ?w" by (intro writes_Nil) simp_all
    from writes_trans [OF this t(2)] t(1) Some c show ?thesis
      by (intro exI [of _ "Some (limit p, Some t)"])
        (simp add: page_terms_def opt_bytes_def page_denotes_def page_bytes_def)
  qed
qed

text \<open>What \<open>encodeRequest\<close> does before the request id matters.\<close>

definition request_valid :: "string list \<Rightarrow> request \<Rightarrow> bool" where
  "request_valid operations r \<longleftrightarrow>
     rq_space r \<noteq> [] \<and> well_formed16 (rq_space r) \<and> length (utf8_encode (rq_space r)) \<le> MAX_SPACE_BYTES \<and>
     rq_operation r \<in> set operations \<and>
     (\<forall>z. rq_expected r = Some z \<longrightarrow> 0 \<le> z \<and> z \<le> I64_MAX) \<and>
     (\<forall>l c. rq_page r = Some (l, c) \<longrightarrow> 1 \<le> l \<and> l \<le> 4096 \<and> rq_operation r \<in> set PAGED_OPERATIONS) \<and>
     (\<forall>n. rq_timeout r = Some n \<longrightarrow> n < 2 ^ 32 \<and> rq_operation r = ''rpc/query'') \<and>
     (\<forall>t \<in> set (request_terms r). term_ok t) \<and>
     sum_list (map term_size (request_terms r)) \<le> MAX_TERM_NODES \<and>
     length (request_body r) \<le> MAX_BODY_BYTES"

lemma foldr_max: "foldr max ns (max a b) = max a (foldr max ns b)" for a b :: nat
  by (induction ns) simp_all

lemma spend_all_sums:
  "nodes (spend_all ts bud) = nodes bud + sum_list (map term_size ts) \<and>
   maxDepth (spend_all ts bud) = foldr max (map term_depth ts) (maxDepth bud)"
proof (induction ts arbitrary: bud)
  case (Cons t ts)
  from Cons.IH [of "spend 0 t bud"] show ?case
    by (simp add: spend_all_def spend_def foldr_max [symmetric] max.commute)
qed (simp add: spend_all_def)

lemma requestControls_Inr:
  assumes "requestControls op options = Inr ctl"
  shows "\<forall>z. expectedVersion ctl = Some z \<longrightarrow> 0 \<le> z \<and> z \<le> I64_MAX"
    "\<forall>p. page ctl = Some p \<longrightarrow> 1 \<le> limit p \<and> limit p \<le> 4096 \<and> op \<in> set PAGED_OPERATIONS"
    "\<forall>n. timeoutMs ctl = Some n \<longrightarrow> n < 2 ^ 32 \<and> op = ''rpc/query''"
proof -
  obtain fs where fs: "plainObject (if truthy options then options else JObj []) = Inr fs"
    using assms by (auto simp: requestControls_def Let_def res_simps)
  have lim: "1 \<le> limit p \<and> limit p \<le> 4096" if "pageRequest v = Inr p" for v p
    using that by (auto simp: pageRequest_def res_simps integerBigInt_Inr_iff MAX_PAGE_LIMIT_def split: if_splits)
  note eq = assms [unfolded requestControls_def Let_def fs rbind.simps]
  show "\<forall>z. expectedVersion ctl = Some z \<longrightarrow> 0 \<le> z \<and> z \<le> I64_MAX"
    using eq by (auto simp: res_simps integerBigInt_Inr_iff split: if_splits)
  show "\<forall>p. page ctl = Some p \<longrightarrow> 1 \<le> limit p \<and> limit p \<le> 4096 \<and> op \<in> set PAGED_OPERATIONS"
    using eq lim by (auto simp: res_simps split: if_splits)
  show "\<forall>n. timeoutMs ctl = Some n \<longrightarrow> n < 2 ^ 32 \<and> op = ''rpc/query''"
    using eq by (auto simp: res_simps integerBigInt_Inr_iff U32_MAX_def nat_less_iff split: if_splits)
qed

text \<open>
  \<open>asks space op payload options r\<close>: the arguments of a call of \<open>encodeRequest\<close> ask for the request \<open>r\<close>, and
  what it returns for it.
\<close>

definition asks :: "jsval \<Rightarrow> string \<Rightarrow> jsval \<Rightarrow> jsval \<Rightarrow> request \<Rightarrow> bool" where
  "asks space op payload options r \<longleftrightarrow>
     space = JStr (rq_space r) \<and> op = rq_operation r \<and>
     (\<exists>ctl. requestControls op options = Inr ctl \<and> expectedVersion ctl = rq_expected r \<and>
        page_denotes (page ctl) (rq_page r) \<and> timeoutMs ctl = rq_timeout r) \<and>
     (\<exists>p. toTerm payload = Inr p \<and> denotes p (rq_payload r))"

definition encoded_request :: "int \<Rightarrow> request \<Rightarrow> encoded" where
  "encoded_request requestId r =
     \<lparr>frame = request_frame requestId r, bodyBytes = length (request_body r),
      termCount = sum_list (map term_size (request_terms r)),
      maxTermDepth = foldr max (map term_depth (request_terms r)) 0\<rparr>"

lemma encodeRequest_Inr:
  assumes "encodeRequest requestId space op payload options ops = Inr e"
  shows "\<exists>r. request_valid ops r \<and> asks space op payload options r \<and> e = encoded_request requestId r"
proof -
  from assms obtain s where sp: "space = JStr s" "s \<noteq> []"
    by (auto simp: encodeRequest_def res_simps split: jsval.splits)
  from assms sp obtain ctl st b1 w1 k b2 w2 b4 w4 pl b6 body
    where utf: "well_formed16 s" "length (utf8_encode s) \<le> MAX_SPACE_BYTES" and op: "op \<in> set ops"
      and ctl: "requestControls op options = Inr ctl"
      and st: "stringTerm (JStr s) = Inr st" "writeTerm st fresh_budget new_writer = Inr (b1, w1)"
      and k: "keyword_lit op = Inr k" "writeTerm k b1 w1 = Inr (b2, w2)"
      and pg: "writePage (page ctl) (b2, writeOptional w_i64 (expectedVersion ctl) w2) = Inr (b4, w4)"
      and pl: "toTerm payload = Inr pl" "writeTerm pl b4 (writeOptional w_u32 (timeoutMs ctl) w4) = Inr (b6, body)"
      and size: "wlen body \<le> MAX_BODY_BYTES"
      and e: "rbind (w_finish body) (\<lambda>bs. rbind (w_finish (w_push bs (writeHeader requestId (wlen body))))
        (\<lambda>fr. Inr \<lparr>frame = fr, bodyBytes = wlen body, termCount = nodes b6, maxTermDepth = maxDepth b6\<rparr>)) = Inr e"
    by (auto simp: encodeRequest_def res_simps strictUtf8_Inr_iff Let_def split: if_splits)
  have "st = JArr [JStr (js ''string''), JStr s]" using st(1) by (auto simp: stringTerm_Inr_iff)
  then have w1: "writes fresh_budget new_writer [FString s] (wire (FString s)) b1 w1"
    using writeTerm_Inr [OF st(2)] by (auto elim: denotes.cases)
  have "k = JArr [JStr (js ''keyword''), JStr (js op)]"
    using k(1) by (auto simp: keyword_lit_def keywordTerm_Inr_iff)
  then have w2: "writes b1 w1 [FKeyword (js op)] (wire (FKeyword (js op))) b2 w2"
    using writeTerm_Inr [OF k(2)] by (auto elim: denotes.cases)
  have w3: "writes b2 w2 [] (opt_bytes i64_bytes (expectedVersion ctl)) b2
      (writeOptional w_i64 (expectedVersion ctl) w2)"
    by (rule writeOptional_bytes) simp_all
  from writePage_Inr [OF pg] obtain q where q: "page_denotes (page ctl) q"
    and w4: "writes b2 (writeOptional w_i64 (expectedVersion ctl) w2) (page_terms q) (opt_bytes page_bytes q) b4 w4"
    by blast
  have w5: "writes b4 w4 [] (opt_bytes (le_bytes 4) (timeoutMs ctl)) b4 (writeOptional w_u32 (timeoutMs ctl) w4)"
    by (rule writeOptional_bytes) simp_all
  from writeTerm_Inr [OF pl(2)] obtain t where t: "denotes pl t" and
    w6: "writes b4 (writeOptional w_u32 (timeoutMs ctl) w4) [t] (wire t) b6 body" by blast
  let ?r = "\<lparr>rq_space = s, rq_operation = op, rq_expected = expectedVersion ctl, rq_page = q,
    rq_timeout = timeoutMs ctl, rq_payload = t\<rparr>"
  have all: "writes fresh_budget new_writer (request_terms ?r) (request_body ?r) b6 body"
    using writes_trans [OF w1 writes_trans [OF w2 writes_trans [OF w3 writes_trans [OF w4 writes_trans [OF w5 w6]]]]]
    by (simp add: request_terms_def request_body_def)
  then have body: "w_inv body" "w_bytes body = request_body ?r" by (simp_all add: writes_def)
  then have len: "wlen body = length (request_body ?r)" by (simp add: w_inv_wlen)
  have "b6 = spend_all (request_terms ?r) fresh_budget" "nodes b6 \<le> MAX_TERM_NODES"
    "\<forall>t \<in> set (request_terms ?r). term_ok t"
    using all by (auto simp: writes_def fresh_budget_def)
  with spend_all_sums [of "request_terms ?r" fresh_budget] have
    counts: "nodes b6 = sum_list (map term_size (request_terms ?r))"
      "maxDepth b6 = foldr max (map term_depth (request_terms ?r)) 0"
      "\<forall>t \<in> set (request_terms ?r). term_ok t" "nodes b6 \<le> MAX_TERM_NODES"
    by (simp_all add: fresh_budget_def)
  have "request_valid ops ?r"
    using counts size len sp utf op requestControls_Inr [OF ctl] q
    by (auto simp: request_valid_def page_denotes_def option_rel_Some2)
  moreover have "w_finish body = Inr (request_body ?r)"
    using body w_finish_inv by simp
  moreover have "w_finish (w_push (request_body ?r) (writeHeader requestId (wlen body))) =
      Inr (request_frame requestId ?r)"
    by (subst w_finish_inv)
      (simp_all add: writeHeader_def request_frame_def frame_header_def len w_inv_def [symmetric])
  moreover have "asks space op payload options ?r"
    using sp ctl q pl(1) t by (auto simp: asks_def)
  ultimately show ?thesis
    using e len counts by (intro exI [of _ ?r]) (simp add: encoded_request_def)
qed

lemma finish_frame: "w_finish (w_push bs (writeHeader i n)) = Inr (frame_header 1 n i @ bs)"
  by (subst w_finish_inv) (simp_all add: writeHeader_def frame_header_def)

text \<open>Conversely, what \<open>encodeRequest\<close> accepts.\<close>

lemma writeTerm_ok:
  assumes "denotes v t" "term_ok t" "nodes bud + term_size t \<le> MAX_TERM_NODES"
  shows "\<exists>w'. writeTerm v bud w = Inr (spend_all [t] bud, w') \<and> writes bud w [t] (wire t) (spend_all [t] bud) w'"
proof -
  obtain w' where w': "writeTermUnchecked v w = Inr w'" "w_bytes w' = w_bytes w @ wire t" "w_inv w' = w_inv w"
    using writeTermUnchecked_wire [OF assms(1), of w] by auto
  have "validateTerm 0 bud v = Inr (spend 0 t bud)"
    using assms by (auto simp: validateTerm_iff term_ok_def)
  with w' assms show ?thesis by (auto simp: writeTerm_def writes_def spend_all_def spend_def)
qed

lemma writePage_ok:
  assumes "page_denotes pg q" "\<forall>t \<in> set (page_terms q). term_ok t"
    "nodes bud + sum_list (map term_size (page_terms q)) \<le> MAX_TERM_NODES"
  shows "\<exists>w'. writePage pg (bud, w) = Inr (spend_all (page_terms q) bud, w') \<and>
     writes bud w (page_terms q) (opt_bytes page_bytes q) (spend_all (page_terms q) bud) w'"
proof -
  have "\<exists>b' w'. writePage pg (bud, w) = Inr (b', w')"
  proof (cases "pg = None \<or> cursor (the pg) = None")
    case True
    then show ?thesis by (auto simp: writePage_def Let_def split: option.splits)
  next
    case False
    then obtain p c where p: "pg = Some p" "cursor p = Some c" by auto
    with assms(1) obtain l t where "q = Some (l, Some t)" "denotes c t"
      by (auto simp: page_denotes_def option_rel_Some1 split: prod.splits)
    with assms(2,3) p writeTerm_ok [of c t bud] show ?thesis
      by (fastforce simp: writePage_def page_terms_def Let_def)
  qed
  then obtain b' w' q' where w: "writePage pg (bud, w) = Inr (b', w')" "page_denotes pg q'"
    "writes bud w (page_terms q') (opt_bytes page_bytes q') b' w'"
    using writePage_Inr by blast
  moreover have "q' = q"
    using w(2) assms(1) denotes_unique
    by (fastforce simp: page_denotes_def option_rel_Some1 prod_eq_iff elim!: option.rel_cases)
  ultimately show ?thesis by (auto simp: writes_def)
qed

lemma encodeRequest_ok:
  assumes "request_valid ops r" "asks space op payload options r"
  shows "encodeRequest requestId space op payload options ops = Inr (encoded_request requestId r)"
proof -
  obtain ctl p where sp: "space = JStr (rq_space r)" "op = rq_operation r"
    and ctl: "requestControls op options = Inr ctl" "expectedVersion ctl = rq_expected r"
      "page_denotes (page ctl) (rq_page r)" "timeoutMs ctl = rq_timeout r"
    and p: "toTerm payload = Inr p" "denotes p (rq_payload r)"
    using assms(2) by (auto simp: asks_def)
  let ?s = "FString (rq_space r)" and ?k = "FKeyword (js op)"
  have terms: "request_terms r = [?s] @ [?k] @ page_terms (rq_page r) @ [rq_payload r]"
    using sp by (simp add: request_terms_def)
  have ok: "term_ok ?s" "term_ok ?k" "\<forall>t \<in> set (page_terms (rq_page r)). term_ok t" "term_ok (rq_payload r)"
    and size: "term_size ?s + term_size ?k + sum_list (map term_size (page_terms (rq_page r))) +
      term_size (rq_payload r) \<le> MAX_TERM_NODES"
    and valid: "rq_space r \<noteq> []" "well_formed16 (rq_space r)" "length (utf8_encode (rq_space r)) \<le> MAX_SPACE_BYTES"
      "op \<in> set ops" "length (request_body r) \<le> MAX_BODY_BYTES"
    using assms(1) sp by (auto simp: request_valid_def terms simp del: term_ok_atom)
  note nodes = spend_all_sums [THEN conjunct1]
  have st: "stringTerm space = Inr (rep_term ?s)" "keyword_lit op = Inr (rep_term ?k)"
    using ok(1,2) sp by (auto simp: stringTerm_Inr_iff keyword_lit_def keywordTerm_rep)
  let ?b1 = "spend_all [?s] fresh_budget"
  obtain w1 where w1: "writeTerm (rep_term ?s) fresh_budget new_writer = Inr (?b1, w1)"
    "writes fresh_budget new_writer [?s] (wire ?s) ?b1 w1"
    using writeTerm_ok [of "rep_term ?s" ?s fresh_budget] ok(1) size denotes_rep_term
    by (fastforce simp: term_ok_def fresh_budget_def simp del: rep_term.simps)
  let ?b2 = "spend_all [?k] ?b1"
  obtain w2 where w2: "writeTerm (rep_term ?k) ?b1 w1 = Inr (?b2, w2)" "writes ?b1 w1 [?k] (wire ?k) ?b2 w2"
    using writeTerm_ok [of "rep_term ?k" ?k ?b1] ok(2) size denotes_rep_term
    by (fastforce simp: term_ok_def nodes fresh_budget_def simp del: rep_term.simps)
  let ?w3 = "writeOptional w_i64 (expectedVersion ctl) w2"
  have w3: "writes ?b2 w2 [] (opt_bytes i64_bytes (rq_expected r)) ?b2 ?w3"
    unfolding ctl(2) by (rule writeOptional_bytes) simp_all
  let ?b4 = "spend_all (page_terms (rq_page r)) ?b2"
  obtain w4 where w4: "writePage (page ctl) (?b2, ?w3) = Inr (?b4, w4)"
    "writes ?b2 ?w3 (page_terms (rq_page r)) (opt_bytes page_bytes (rq_page r)) ?b4 w4"
    using writePage_ok [OF ctl(3) ok(3), of ?b2 ?w3] size by (auto simp: nodes fresh_budget_def)
  let ?w5 = "writeOptional w_u32 (timeoutMs ctl) w4"
  have w5: "writes ?b4 w4 [] (opt_bytes (le_bytes 4) (rq_timeout r)) ?b4 ?w5"
    unfolding ctl(4) by (rule writeOptional_bytes) simp_all
  let ?b6 = "spend_all [rq_payload r] ?b4"
  obtain body where w6: "writeTerm p ?b4 ?w5 = Inr (?b6, body)"
    "writes ?b4 ?w5 [rq_payload r] (wire (rq_payload r)) ?b6 body"
    using writeTerm_ok [OF p(2) ok(4), of ?b4 ?w5] size by (auto simp: nodes fresh_budget_def)
  have all: "writes fresh_budget new_writer (request_terms r) (request_body r) ?b6 body"
    using writes_trans [OF w1(2) writes_trans [OF w2(2) writes_trans [OF w3 writes_trans [OF w4(2) writes_trans [OF w5 w6(2)]]]]] sp
    by (simp add: terms request_body_def)
  then have b6: "?b6 = spend_all (request_terms r) fresh_budget" and
    body: "w_inv body" "w_bytes body = request_body r" "w_finish body = Inr (request_body r)"
    by (auto simp: writes_def w_finish_inv)
  then have len: "wlen body = length (request_body r)" by (simp add: w_inv_wlen)
  have small: "\<not> MAX_BODY_BYTES < length (request_body r)" using valid(5) by simp
  have utf: "strictUtf8 MAX_SPACE_BYTES space = Inr (utf8_encode (rq_space r))"
    using valid sp by (simp add: strictUtf8_Inr_iff)
  have e: "\<lparr>frame = request_frame requestId r, bodyBytes = length (request_body r), termCount = nodes ?b6,
      maxTermDepth = maxDepth ?b6\<rparr> = encoded_request requestId r"
    unfolding b6 encoded_request_def by (simp add: spend_all_sums fresh_budget_def)
  have "encodeRequest requestId space op payload options ops =
      Inr \<lparr>frame = frame_header 1 (length (request_body r)) requestId @ request_body r,
        bodyBytes = length (request_body r), termCount = nodes ?b6, maxTermDepth = maxDepth ?b6\<rparr>"
    unfolding encodeRequest_def utf ctl(1) st w1(1) w2(1) w4(1) w6(1) p(1) body(3) len finish_frame rbind.simps
      prod.case Let_def if_not_P [OF small]
    using valid sp by simp
  then show ?thesis unfolding e [symmetric] request_frame_def .
qed

lemma encodeRequest_iff:
  "encodeRequest requestId space op payload options ops = Inr e \<longleftrightarrow>
     (\<exists>r. request_valid ops r \<and> asks space op payload options r \<and> e = encoded_request requestId r)"
  using encodeRequest_Inr encodeRequest_ok by blast

text \<open>The request id is written as eight bytes of the header and nothing else depends on it.\<close>

lemma rbind_assoc: "rbind (rbind m f) g = rbind m (\<lambda>x. rbind (f x) g)"
  by (cases m) simp_all

lemma rbind_case_prod: "rbind (case p of (a, b) \<Rightarrow> f a b) g = (case p of (a, b) \<Rightarrow> rbind (f a b) g)"
  by (cases p) simp

lemma rbind_if: "rbind (if b then x else y) g = (if b then rbind x g else rbind y g)"
  by simp

definition with_request_id :: "int \<Rightarrow> encoded \<Rightarrow> encoded" where
  "with_request_id i e = e\<lparr>frame := take 18 (frame e) @ i64_bytes i @ drop 26 (frame e)\<rparr>"

lemma with_request_id_frame:
  "with_request_id i \<lparr>frame = frame_header 1 n j @ bs, bodyBytes = a, termCount = b, maxTermDepth = c\<rparr> =
   \<lparr>frame = frame_header 1 n i @ bs, bodyBytes = a, termCount = b, maxTermDepth = c\<rparr>"
proof -
  have "take 18 (frame_header 1 n j @ bs) @ i64_bytes i @ drop 26 (frame_header 1 n j @ bs) =
      frame_header 1 n i @ bs"
    by (simp add: frame_header_def MAGIC_def)
  then show ?thesis by (simp add: with_request_id_def)
qed

lemma encodeRequest_id:
  "encodeRequest i space op payload options ops =
     rbind (encodeRequest j space op payload options ops) (\<lambda>e. Inr (with_request_id i e))"
  unfolding encodeRequest_def Let_def rbind_assoc rbind_case_prod rbind_if finish_frame rbind.simps
    with_request_id_frame by (rule refl)

text \<open>
  The client's \<open>nextRequestId\<close>: the id of a call, and the counter after it.
\<close>

definition nextRequestId :: "int \<Rightarrow> int" where
  "nextRequestId n = (if n = I64_MAX then 1 else n + 1)"

lemma nextRequestId_range: "1 \<le> n \<and> n \<le> I64_MAX \<Longrightarrow> 1 \<le> nextRequestId n \<and> nextRequestId n \<le> I64_MAX"
  by (auto simp: nextRequestId_def I64_MAX_def)

end
