(* ===== verification/Response.thy ===== *)
theory Response
  imports Rpc
begin

text \<open>
  The response side of \<^verbatim>\<open>clients/bun/framrpc-core.mjs\<close>: \<open>decodeResponseFrame\<close>, the length a frame
  declares, and the decoders of the operations' results. \<open>reply_frame\<close> is the byte format of a
  response; its parts are codecs of the \<open>wire_codec\<close> interface.
\<close>

section \<open>Response frames\<close>

record response_page =
  ordinal :: nat
  nextCursor :: "jsval option"
  page_done :: bool

record response_error =
  code :: jsval
  retryable :: bool
  message :: jsval
  detail :: "jsval option"

record response =
  rs_space :: jsval
  rs_operation :: jsval
  servedVersion :: int
  rs_page :: "response_page option"
  rs_error :: "response_error option"
  rs_payload :: "jsval option"

record expected =
  x_requestId :: int
  x_space :: jstr
  x_operation :: string

text \<open>\<open>reader.presence(...) ? read : null\<close>\<close>

definition r_optional :: "(reader \<Rightarrow> ('a \<times> reader) res) \<Rightarrow> reader \<Rightarrow> ('a option \<times> reader) res" where
  "r_optional get r =
     rbind (r_presence r) (\<lambda>(present, r1).
       if present then rbind (get r1) (\<lambda>(x, r2). Inr (Some x, r2)) else Inr (None, r1))"

definition responsePage :: "reader \<Rightarrow> (response_page \<times> reader) res" where
  "responsePage r =
     rbind (r_u32 r) (\<lambda>(n, r1).
     rbind (r_optional (readTerm 0) r1) (\<lambda>(c, r2).
     rbind (r_bool r2) (\<lambda>(d, r3).
       Inr (\<lparr>ordinal = n, nextCursor = c, page_done = d\<rparr>, r3))))"

definition responseError :: "reader \<Rightarrow> (response_error \<times> reader) res" where
  "responseError r =
     rbind (readTerm 0 r) (\<lambda>(t, r1). rbind (keywordName t) (\<lambda>c.
     rbind (r_bool r1) (\<lambda>(b, r2).
     rbind (readTerm 0 r2) (\<lambda>(u, r3). rbind (stringValue u) (\<lambda>m.
     rbind (r_optional (readTerm 0) r3) (\<lambda>(d, r4).
       Inr (\<lparr>code = c, retryable = b, message = m, detail = d\<rparr>, r4)))))))"

definition bytes_at :: "nat \<Rightarrow> nat \<Rightarrow> byte list \<Rightarrow> byte list" where
  "bytes_at offs n bs = take n (drop offs bs)"

text \<open>The body of a response, read to its last byte.\<close>

definition decodeResponseBody :: "byte list \<Rightarrow> expected \<Rightarrow> response res" where
  "decodeResponseBody body x =
     rbind (readTerm 0 (new_reader body)) (\<lambda>(t1, r1). rbind (stringValue t1) (\<lambda>space.
     rbind (readTerm 0 r1) (\<lambda>(t2, r2). rbind (keywordName t2) (\<lambda>operation.
     rbind (r_i64 r2) (\<lambda>(served, r3).
     rbind (r_optional responsePage r3) (\<lambda>(pg, r4).
     rbind (r_optional responseError r4) (\<lambda>(er, r5).
     rbind (r_optional (readTerm 0) r5) (\<lambda>(pl, r6).
       if \<not> r_done r6 then fail ''client/trailing-bytes''
       else if space \<noteq> JStr (x_space x) \<or> operation \<noteq> JStr (js (x_operation x))
       then fail ''client/identity-mismatch''
       else Inr \<lparr>rs_space = space, rs_operation = operation, servedVersion = served,
                 rs_page = pg, rs_error = er, rs_payload = pl\<rparr>))))))))"

definition decodeResponseFrame :: "byte list option \<Rightarrow> expected \<Rightarrow> response res" where
  "decodeResponseFrame fr x =
     (case fr of
        None \<Rightarrow> fail ''client/invalid-frame''
      | Some bs \<Rightarrow>
          let bodyLength = le_nat (bytes_at 14 4 bs)
          in if length bs < HEADER_BYTES then fail ''client/truncated''
          else if MAX_FRAME_BYTES < length bs then fail ''client/frame-too-large''
          else if take (length MAGIC) bs \<noteq> MAGIC then fail ''client/invalid-magic''
          else if le_nat (bytes_at 8 2 bs) \<noteq> 2 \<or> le_nat (bytes_at 10 2 bs) \<noteq> 0
          then fail ''client/unsupported-version''
          else if bytes_at 12 1 bs \<noteq> [2] then fail ''client/invalid-kind''
          else if bytes_at 13 1 bs \<noteq> [0] then fail ''client/invalid-flags''
          else if MAX_BODY_BYTES < bodyLength then fail ''client/frame-too-large''
          else if length bs \<noteq> HEADER_BYTES + bodyLength then fail ''client/truncated''
          else if le_int (bytes_at 18 8 bs) \<noteq> x_requestId x then fail ''client/identity-mismatch''
          else decodeResponseBody (drop HEADER_BYTES bs) x)"

text \<open>\<open>framRpcDeclaredFrameBytes\<close>: \<open>null\<close> while the header is incomplete.\<close>

definition framRpcDeclaredFrameBytes :: "byte list option \<Rightarrow> nat option res" where
  "framRpcDeclaredFrameBytes fr =
     (case fr of
        None \<Rightarrow> fail ''client/invalid-frame''
      | Some bs \<Rightarrow>
          if length bs < HEADER_BYTES then Inr None
          else if take (length MAGIC) bs \<noteq> MAGIC then fail ''client/invalid-magic''
          else if MAX_BODY_BYTES < le_nat (bytes_at 14 4 bs) then fail ''client/frame-too-large''
          else Inr (Some (HEADER_BYTES + le_nat (bytes_at 14 4 bs))))"

section \<open>The response format\<close>

record reply_error =
  re_code :: jstr
  re_retryable :: bool
  re_message :: jstr
  re_detail :: "fterm option"

record reply =
  rp_space :: jstr
  rp_operation :: jstr
  rp_served :: int
  rp_page :: "(nat \<times> fterm option \<times> bool) option"
  rp_error :: "reply_error option"
  rp_payload :: "fterm option"

fun reply_page_bytes :: "nat \<times> fterm option \<times> bool \<Rightarrow> byte list" where
  "reply_page_bytes (n, c, d) = le_bytes 4 n @ opt_bytes wire c @ flag_bytes d"

definition reply_error_bytes :: "reply_error \<Rightarrow> byte list" where
  "reply_error_bytes e = wire (FKeyword (re_code e)) @ flag_bytes (re_retryable e) @
     wire (FString (re_message e)) @ opt_bytes wire (re_detail e)"

definition reply_body :: "reply \<Rightarrow> byte list" where
  "reply_body r = wire (FString (rp_space r)) @ wire (FKeyword (rp_operation r)) @
     i64_bytes (rp_served r) @ opt_bytes reply_page_bytes (rp_page r) @
     opt_bytes reply_error_bytes (rp_error r) @ opt_bytes wire (rp_payload r)"

definition reply_frame :: "int \<Rightarrow> reply \<Rightarrow> byte list" where
  "reply_frame requestId r = frame_header 2 (length (reply_body r)) requestId @ reply_body r"

text \<open>What the client sees of a reply.\<close>

fun page_seen :: "nat \<times> fterm option \<times> bool \<Rightarrow> response_page" where
  "page_seen (n, c, d) = \<lparr>ordinal = n, nextCursor = map_option rep_term c, page_done = d\<rparr>"

definition error_seen :: "reply_error \<Rightarrow> response_error" where
  "error_seen e = \<lparr>code = JStr (re_code e), retryable = re_retryable e, message = JStr (re_message e),
     detail = map_option rep_term (re_detail e)\<rparr>"

definition reply_seen :: "reply \<Rightarrow> response" where
  "reply_seen r = \<lparr>rs_space = JStr (rp_space r), rs_operation = JStr (rp_operation r),
     servedVersion = rp_served r, rs_page = map_option page_seen (rp_page r),
     rs_error = map_option error_seen (rp_error r), rs_payload = map_option rep_term (rp_payload r)\<rparr>"

text \<open>The Terms of a part are counted against the reader's node limit.\<close>

definition opt_cost :: "('a \<Rightarrow> nat) \<Rightarrow> 'a option \<Rightarrow> nat" where
  "opt_cost cost x = (case x of None \<Rightarrow> 0 | Some v \<Rightarrow> cost v)"

definition opt_ok :: "(nat \<Rightarrow> 'a \<Rightarrow> bool) \<Rightarrow> nat \<Rightarrow> 'a option \<Rightarrow> bool" where
  "opt_ok ok n x = (case x of None \<Rightarrow> True | Some v \<Rightarrow> ok n v)"

fun reply_page_cost :: "nat \<times> fterm option \<times> bool \<Rightarrow> nat" where
  "reply_page_cost (n, c, d) = opt_cost term_size c"

fun reply_page_ok :: "nat \<Rightarrow> nat \<times> fterm option \<times> bool \<Rightarrow> bool" where
  "reply_page_ok k (n, c, d) \<longleftrightarrow> n < 2 ^ 32 \<and> opt_ok (readable 0) k c"

definition reply_error_cost :: "reply_error \<Rightarrow> nat" where
  "reply_error_cost e = 2 + opt_cost term_size (re_detail e)"

definition reply_error_ok :: "nat \<Rightarrow> reply_error \<Rightarrow> bool" where
  "reply_error_ok k e \<longleftrightarrow> readable 0 k (FKeyword (re_code e)) \<and>
     readable 0 (k + 1) (FString (re_message e)) \<and> opt_ok (readable 0) (k + 2) (re_detail e)"

definition reply_ok :: "reply \<Rightarrow> bool" where
  "reply_ok r \<longleftrightarrow>
     readable 0 0 (FString (rp_space r)) \<and> readable 0 1 (FKeyword (rp_operation r)) \<and>
     i64_ok (rp_served r) \<and> opt_ok reply_page_ok 2 (rp_page r) \<and>
     (let k = 2 + opt_cost reply_page_cost (rp_page r) in
        opt_ok reply_error_ok k (rp_error r) \<and>
        opt_ok (readable 0) (k + opt_cost reply_error_cost (rp_error r)) (rp_payload r)) \<and>
     length (reply_body r) \<le> MAX_BODY_BYTES"

section \<open>Optional parts and records are codecs\<close>

context wire_codec
begin

lemma optional:
  "wire_codec (opt_bytes put) (r_optional get) (map_option out) (opt_cost cost) (opt_ok ok)"
proof unfold_locales
  fix r x rest
  assume ok: "opt_ok ok (rnodes r) x" and at: "at_bytes r (opt_bytes put x @ rest)"
  show "r_optional get r =
    Inr (map_option out x, advance (length (opt_bytes put x)) (opt_cost cost x) r)"
  proof (cases x)
    case None
    then have "at_bytes r (flag_bytes False @ rest)" using at by (simp add: opt_bytes_def flag_bytes_def)
    then have "r_presence r = Inr (False, advance 1 0 r)"
      using presencec.get_put [where x = False and r = r and rest = rest] by (simp add: flag_bytes_def)
    with None show ?thesis by (simp add: r_optional_def opt_bytes_def opt_cost_def)
  next
    case (Some v)
    then have "at_bytes r (flag_bytes True @ put v @ rest)"
      using at by (simp add: opt_bytes_def flag_bytes_def)
    then obtain r1 where r1: "r_presence r = Inr (True, r1)" "r1 = advance 1 0 r" "at_bytes r1 (put v @ rest)"
      by (rule presencec.get_put_at [where x = True, rotated]) (simp_all add: flag_bytes_def)
    moreover have "get r1 = Inr (out v, advance (length (put v)) (cost v) r1)"
      using ok r1 Some by (intro get_put) (simp_all add: opt_ok_def)
    ultimately show ?thesis using Some by (simp add: r_optional_def opt_bytes_def opt_cost_def)
  qed
qed

end

interpretation optterm: wire_codec "opt_bytes wire" "r_optional (readTerm 0)" "map_option rep_term"
  "opt_cost term_size" "opt_ok (readable 0)"
  by (rule termc.optional)

lemma responsePage_codec:
  "wire_codec reply_page_bytes responsePage page_seen reply_page_cost reply_page_ok"
proof unfold_locales
  fix r x rest
  assume ok: "reply_page_ok (rnodes r) x" and at: "at_bytes r (reply_page_bytes x @ rest)"
  obtain n c d where x: "x = (n, c, d)" by (cases x)
  obtain r1 where r1: "r_u32 r = Inr (n, r1)" "r1 = advance 4 0 r"
    "at_bytes r1 (opt_bytes wire c @ flag_bytes d @ rest)"
    using u32c.get_put_at [where x = n and r = r] ok at x by auto
  obtain r2 where r2: "r_optional (readTerm 0) r1 = Inr (map_option rep_term c, r2)"
    "r2 = advance (length (opt_bytes wire c)) (opt_cost term_size c) r1" "at_bytes r2 (flag_bytes d @ rest)"
    using optterm.get_put_at [where x = c and r = r1] ok r1 x by auto
  have "r_bool r2 = Inr (d, advance (length (flag_bytes d)) 0 r2)"
    using boolc.get_put [where x = d and r = r2] r2(3) by simp
  with r1 r2 x show "responsePage r =
      Inr (page_seen x, advance (length (reply_page_bytes x)) (reply_page_cost x) r)"
    by (simp add: responsePage_def add.assoc)
qed

interpretation pagec: wire_codec reply_page_bytes responsePage page_seen reply_page_cost reply_page_ok
  by (rule responsePage_codec)

lemma responseError_codec:
  "wire_codec reply_error_bytes responseError error_seen reply_error_cost reply_error_ok"
proof unfold_locales
  fix r x rest
  assume ok: "reply_error_ok (rnodes r) x" and at: "at_bytes r (reply_error_bytes x @ rest)"
  let ?c = "FKeyword (re_code x)" and ?m = "FString (re_message x)"
  obtain r1 where r1: "readTerm 0 r = Inr (rep_term ?c, r1)" "r1 = advance (length (wire ?c)) 1 r"
    "at_bytes r1 (flag_bytes (re_retryable x) @ wire ?m @ opt_bytes wire (re_detail x) @ rest)"
    using termc.get_put_at [where x = ?c and r = r] ok at by (auto simp: reply_error_ok_def reply_error_bytes_def)
  obtain r2 where r2: "r_bool r1 = Inr (re_retryable x, r2)"
    "r2 = advance (length (flag_bytes (re_retryable x))) 0 r1"
    "at_bytes r2 (wire ?m @ opt_bytes wire (re_detail x) @ rest)"
    using boolc.get_put_at [where x = "re_retryable x" and r = r1] r1 by auto
  obtain r3 where r3: "readTerm 0 r2 = Inr (rep_term ?m, r3)" "r3 = advance (length (wire ?m)) 1 r2"
    "at_bytes r3 (opt_bytes wire (re_detail x) @ rest)"
    using termc.get_put_at [where x = ?m and r = r2] ok r1 r2 by (auto simp: reply_error_ok_def)
  have "r_optional (readTerm 0) r3 = Inr (map_option rep_term (re_detail x),
      advance (length (opt_bytes wire (re_detail x))) (opt_cost term_size (re_detail x)) r3)"
    using ok r1 r2 r3 by (intro optterm.get_put) (simp_all add: reply_error_ok_def)
  with r1 r2 r3 show "responseError r =
      Inr (error_seen x, advance (length (reply_error_bytes x)) (reply_error_cost x) r)"
    by (simp add: responseError_def keywordName_def stringValue_def error_seen_def
        reply_error_bytes_def reply_error_cost_def add_ac)
qed

interpretation errorc: wire_codec reply_error_bytes responseError error_seen reply_error_cost reply_error_ok
  by (rule responseError_codec)

interpretation optpage: wire_codec "opt_bytes reply_page_bytes" "r_optional responsePage"
  "map_option page_seen" "opt_cost reply_page_cost" "opt_ok reply_page_ok"
  by (rule pagec.optional)

interpretation opterror: wire_codec "opt_bytes reply_error_bytes" "r_optional responseError"
  "map_option error_seen" "opt_cost reply_error_cost" "opt_ok reply_error_ok"
  by (rule errorc.optional)

section \<open>A response read back\<close>

lemma decodeResponseBody_reply:
  assumes "reply_ok r" "x_space x = rp_space r" "js (x_operation x) = rp_operation r"
  shows "decodeResponseBody (reply_body r) x = Inr (reply_seen r)"
proof -
  let ?s = "FString (rp_space r)" and ?o = "FKeyword (rp_operation r)"
  define r0 where "r0 = new_reader (reply_body r)"
  note ok = assms(1) [unfolded reply_ok_def Let_def]
  have at0: "at_bytes r0 (wire ?s @ wire ?o @ i64_bytes (rp_served r) @ opt_bytes reply_page_bytes (rp_page r) @
     opt_bytes reply_error_bytes (rp_error r) @ opt_bytes wire (rp_payload r))" "rnodes r0 = 0"
    unfolding r0_def using at_bytes_new [of "reply_body r"] by (simp_all add: reply_body_def)
  obtain r1 where r1: "readTerm 0 r0 = Inr (rep_term ?s, r1)" "r1 = advance (length (wire ?s)) 1 r0"
    "at_bytes r1 (wire ?o @ i64_bytes (rp_served r) @ opt_bytes reply_page_bytes (rp_page r) @
     opt_bytes reply_error_bytes (rp_error r) @ opt_bytes wire (rp_payload r))"
    using termc.get_put_at [where x = ?s and r = r0, OF _ at0(1)] ok at0(2) by auto
  obtain r2 where r2: "readTerm 0 r1 = Inr (rep_term ?o, r2)" "r2 = advance (length (wire ?o)) 1 r1"
    "at_bytes r2 (i64_bytes (rp_served r) @ opt_bytes reply_page_bytes (rp_page r) @
     opt_bytes reply_error_bytes (rp_error r) @ opt_bytes wire (rp_payload r))"
    using termc.get_put_at [where x = ?o and r = r1, OF _ r1(3)] ok at0(2) r1(2) by auto
  obtain r3 where r3: "r_i64 r2 = Inr (rp_served r, r3)" "r3 = advance 8 0 r2"
    "at_bytes r3 (opt_bytes reply_page_bytes (rp_page r) @ opt_bytes reply_error_bytes (rp_error r) @
     opt_bytes wire (rp_payload r))"
    using i64c.get_put_at [where x = "rp_served r" and r = r2, OF _ r2(3)] ok by auto
  have n3: "rnodes r3 = 2" using at0(2) r1 r2 r3 by simp
  obtain r4 where r4: "r_optional responsePage r3 = Inr (map_option page_seen (rp_page r), r4)"
    "r4 = advance (length (opt_bytes reply_page_bytes (rp_page r))) (opt_cost reply_page_cost (rp_page r)) r3"
    "at_bytes r4 (opt_bytes reply_error_bytes (rp_error r) @ opt_bytes wire (rp_payload r))"
    using optpage.get_put_at [where x = "rp_page r" and r = r3, OF _ r3(3)] ok n3 by auto
  obtain r5 where r5: "r_optional responseError r4 = Inr (map_option error_seen (rp_error r), r5)"
    "r5 = advance (length (opt_bytes reply_error_bytes (rp_error r))) (opt_cost reply_error_cost (rp_error r)) r4"
    "at_bytes r5 (opt_bytes wire (rp_payload r) @ [])"
    using opterror.get_put_at [where x = "rp_error r" and r = r4, OF _ r4(3)] ok n3 r4(2) by auto
  have r6: "r_optional (readTerm 0) r5 = Inr (map_option rep_term (rp_payload r),
      advance (length (opt_bytes wire (rp_payload r))) (opt_cost term_size (rp_payload r)) r5)"
    using optterm.get_put [where x = "rp_payload r" and r = r5, OF _ r5(3)] ok n3 r4(2) r5(2) by simp
  have "r_done (advance (length (opt_bytes wire (rp_payload r))) (opt_cost term_size (rp_payload r)) r5)"
    using r1(2) r2(2) r3(2) r4(2) r5(2)
    by (simp add: r_done_def r0_def) (simp add: reply_body_def)
  with r1 r2 r3 r4 r5 r6 assms(2,3) show ?thesis
    unfolding decodeResponseBody_def r0_def [symmetric]
    by (simp add: stringValue_def keywordName_def reply_seen_def)
qed

lemma frame_header_fields:
  assumes "n < 2 ^ 32" "i64_ok i" "k < 256"
  shows "take (length MAGIC) (frame_header k n i @ body) = MAGIC"
    "bytes_at 8 2 (frame_header k n i @ body) = le_bytes 2 2"
    "bytes_at 10 2 (frame_header k n i @ body) = le_bytes 2 0"
    "bytes_at 12 1 (frame_header k n i @ body) = [word_of_nat k]"
    "bytes_at 13 1 (frame_header k n i @ body) = [0]"
    "le_nat (bytes_at 14 4 (frame_header k n i @ body)) = n"
    "le_int (bytes_at 18 8 (frame_header k n i @ body)) = i"
    "drop HEADER_BYTES (frame_header k n i @ body) = body"
  using assms by (simp_all add: frame_header_def bytes_at_def MAGIC_def HEADER_BYTES_def le_int_i64_bytes)

lemma decodeResponseFrame_reply:
  assumes "reply_ok r" "i64_ok i" "x = \<lparr>x_requestId = i, x_space = rp_space r, x_operation = op\<rparr>"
    "js op = rp_operation r"
  shows "decodeResponseFrame (Some (reply_frame i r)) x = Inr (reply_seen r)"
proof -
  have len: "length (reply_body r) \<le> MAX_BODY_BYTES" using assms(1) by (simp add: reply_ok_def Let_def)
  then have "length (reply_body r) < 2 ^ 32" by (simp add: MAX_BODY_BYTES_def)
  note h = frame_header_fields [OF this assms(2), of 2, simplified]
  show ?thesis
    using len assms decodeResponseBody_reply [OF assms(1), of x]
    by (simp add: decodeResponseFrame_def reply_frame_def h Let_def HEADER_BYTES_def MAX_FRAME_BYTES_def)
qed

text \<open>Whatever is accepted carries the identity asked for and is as long as its header says.\<close>

lemma decodeResponseFrame_safe:
  assumes "decodeResponseFrame fr x = Inr rsp"
  shows "\<exists>bs. fr = Some bs \<and> take 8 bs = MAGIC \<and> le_int (bytes_at 18 8 bs) = x_requestId x \<and>
    length bs = 26 + le_nat (bytes_at 14 4 bs) \<and> length bs \<le> MAX_FRAME_BYTES \<and>
    rs_space rsp = JStr (x_space x) \<and> rs_operation rsp = JStr (js (x_operation x)) \<and> i64_ok (servedVersion rsp)"
proof -
  obtain bs where bs: "fr = Some bs"
    using assms by (cases fr) (simp_all add: decodeResponseFrame_def)
  with assms have head: "take (length MAGIC) bs = MAGIC" "le_int (bytes_at 18 8 bs) = x_requestId x"
    "length bs = HEADER_BYTES + le_nat (bytes_at 14 4 bs)" "length bs \<le> MAX_FRAME_BYTES"
    and body: "decodeResponseBody (drop HEADER_BYTES bs) x = Inr rsp"
    by (auto simp: decodeResponseFrame_def Let_def split: if_splits)
  have ident: "rs_space rsp = JStr (x_space x)" "rs_operation rsp = JStr (js (x_operation x))"
    using body by (auto simp: decodeResponseBody_def res_simps split: if_splits)
  obtain r2 r3 where "r_i64 r2 = Inr (servedVersion rsp, r3)"
    using body by (auto simp: decodeResponseBody_def res_simps split: if_splits)
  then have "i64_ok (servedVersion rsp)" by (rule r_i64_Inr(2))
  moreover have "length MAGIC = 8" by (simp add: MAGIC_def)
  ultimately show ?thesis using bs head ident by (simp add: HEADER_BYTES_def)
qed

section \<open>Results of the operations\<close>

definition instantValue :: "jsval \<Rightarrow> (int \<times> int) res" where
  "instantValue v =
     (case v of
        JArr [JStr tag, s, n] \<Rightarrow>
          if tag = js ''instant''
          then rbind (to_bigint s) (\<lambda>sec. rbind (to_bigint n) (\<lambda>ns. Inr (sec, ns)))
          else fail ''client/invalid-record''
      | _ \<Rightarrow> fail ''client/invalid-record'')"

definition transactionCoordinate :: "jsval \<Rightarrow> jsval res" where
  "transactionCoordinate v =
     (case as_triple v of
        None \<Rightarrow> fail ''client/invalid-occurrence''
      | Some (a, b, c) \<Rightarrow>
          rbind (stringValue a) (\<lambda>space.
          if \<not> truthy space then fail ''client/invalid-occurrence''
          else if \<not> isKeyword b ''kernel/tx-sequence'' then fail ''client/invalid-occurrence''
          else rbind (intValue c) (\<lambda>sequence.
            if sequence < 0 then fail ''client/invalid-occurrence'' else Inr v)))"

definition occurrenceCoordinate :: "jsval \<Rightarrow> jsval res" where
  "occurrenceCoordinate v =
     (case as_triple v of
        None \<Rightarrow> fail ''client/invalid-occurrence''
      | Some (a, b, c) \<Rightarrow>
          rbind (transactionCoordinate a) (\<lambda>_.
          if \<not> isKeyword b ''kernel/op-ordinal'' then fail ''client/invalid-occurrence''
          else rbind (intValue c) (\<lambda>ord.
            if ord < 0 then fail ''client/invalid-occurrence'' else Inr v)))"

record occurrence =
  coordinate :: jsval
  oc_action :: jsval
  oc_proposition :: jsval

definition occurrenceResult :: "jsval \<Rightarrow> occurrence res" where
  "occurrenceResult v =
     rbind (rawRecordFields v ''rpc/occurrence'' 3) (\<lambda>fs.
     rbind (occurrenceCoordinate (fs ! 0)) (\<lambda>_.
     rbind (keywordName (fs ! 1)) (\<lambda>act.
       if act \<noteq> JStr (js ''assert'') \<and> act \<noteq> JStr (js ''retract'') then fail ''client/invalid-occurrence''
       else if as_triple (fs ! 2) = None then fail ''client/invalid-occurrence''
       else Inr \<lparr>coordinate = fs ! 0, oc_action = act, oc_proposition = fs ! 2\<rparr>)))"

record action_result =
  inputIndex :: int
  stateChanged :: jsval
  ar_occurrence :: jsval

definition actionResult :: "jsval \<Rightarrow> action_result res" where
  "actionResult v =
     rbind (rawRecordFields v ''rpc/action-result'' 3) (\<lambda>fs.
     rbind (intValue (fs ! 0)) (\<lambda>index.
       if index < 0 \<or> 9007199254740991 < index then fail ''client/integer-range''
       else rbind (boolValue (fs ! 1)) (\<lambda>changed.
         rbind (occurrenceCoordinate (fs ! 2)) (\<lambda>occ.
         Inr \<lparr>inputIndex = index, stateChanged = changed, ar_occurrence = occ\<rparr>))))"

definition mutationResult :: "jsval \<Rightarrow> action_result list res" where
  "mutationResult payload =
     rbind (rawRecordFields payload ''rpc/mutation-result'' 1) (\<lambda>fs.
     rbind (rawListValues (fs ! 0)) (rmap actionResult))"

definition queryRow :: "jsval \<Rightarrow> jsval list res" where
  "queryRow row = rbind (rawRecordFields row ''query/row'' 1) (\<lambda>gs. rawListValues (gs ! 0))"

definition queryRows :: "jsval \<Rightarrow> jsval list list res" where
  "queryRows payload =
     rbind (rawRecordFields payload ''query/rows'' 1) (\<lambda>fs.
     rbind (rawListValues (fs ! 0)) (rmap queryRow))"

record status =
  st_state :: jsval
  liveCount :: int
  engine :: jsval
  cache_hits :: int
  cache_misses :: int
  cache_bytes :: int
  cache_evictions :: int

definition statusResult :: "jsval \<Rightarrow> status res" where
  "statusResult payload =
     rbind (rawRecordFields payload ''rpc/status'' 4) (\<lambda>fs.
     rbind (rawRecordFields (fs ! 3) ''rpc/result-cache'' 4) (\<lambda>gs.
     rbind (keywordName (fs ! 0)) (\<lambda>st.
     rbind (intValue (fs ! 1)) (\<lambda>live.
     rbind (keywordName (fs ! 2)) (\<lambda>eng.
     rbind (intValue (gs ! 0)) (\<lambda>hits.
     rbind (intValue (gs ! 1)) (\<lambda>misses.
     rbind (intValue (gs ! 2)) (\<lambda>byt.
     rbind (intValue (gs ! 3)) (\<lambda>ev.
       Inr \<lparr>st_state = st, liveCount = live, engine = eng, cache_hits = hits, cache_misses = misses,
             cache_bytes = byt, cache_evictions = ev\<rparr>)))))))))"

definition validationResult :: "jsval \<Rightarrow> (jsval \<times> (jsval \<times> jsval) list) res" where
  "validationResult payload =
     rbind (rawRecordFields payload ''rpc/validation'' 2) (\<lambda>fs.
     rbind (boolValue (fs ! 0)) (\<lambda>valid.
     rbind (rawListValues (fs ! 1)) (\<lambda>vs.
     rbind (rmap (\<lambda>v.
         rbind (rawRecordFields v ''rpc/violation'' 2) (\<lambda>gs.
         rbind (keywordName (gs ! 0)) (\<lambda>c. Inr (c, gs ! 1)))) vs) (\<lambda>violations.
       Inr (valid, violations)))))"

datatype op_result =
    RNull
  | RStatus status
  | RValidation jsval "(jsval \<times> jsval) list"
  | RMutation "action_result list"
  | RTriples "jsval list"
  | RRows "jsval list list"
  | ROccurrences "occurrence list"
  | RGrant jsval "int \<times> int"
  | RReleased jsval
  | RCheck jsval "(int \<times> int) option"

definition operationResult :: "string \<Rightarrow> jsval option \<Rightarrow> op_result res" where
  "operationResult operation pl =
     (case pl of
        None \<Rightarrow> Inr RNull
      | Some payload \<Rightarrow>
          if operation = ''rpc/version'' then
            (if isKeyword payload ''rpc/unit'' then Inr RNull else fail ''client/invalid-record'')
          else if operation = ''rpc/status'' then
            rbind (statusResult payload) (\<lambda>s. Inr (RStatus s))
          else if operation = ''rpc/validate'' then
            rbind (validationResult payload) (\<lambda>(b, vs). Inr (RValidation b vs))
          else if operation \<in> {''rpc/assert'', ''rpc/retract'', ''rpc/batch''} then
            rbind (mutationResult payload) (\<lambda>rs. Inr (RMutation rs))
          else if operation = ''rpc/scan'' then
            rbind (rawRecordFields payload ''rpc/triples'' 1) (\<lambda>fs.
            rbind (rawListValues (fs ! 0)) (\<lambda>vs. Inr (RTriples vs)))
          else if operation = ''rpc/query'' then
            rbind (queryRows payload) (\<lambda>rows. Inr (RRows rows))
          else if operation = ''rpc/occurrences'' then
            rbind (rawRecordFields payload ''rpc/occurrences'' 1) (\<lambda>fs.
            rbind (rawListValues (fs ! 0)) (\<lambda>vs.
            rbind (rmap occurrenceResult vs) (\<lambda>os. Inr (ROccurrences os))))
          else if operation \<in> {''rpc/lease-acquire'', ''rpc/lease-renew''} then
            rbind (rawRecordFields payload ''lease/grant'' 2) (\<lambda>fs.
            rbind (instantValue (fs ! 1)) (\<lambda>t. Inr (RGrant (fs ! 0) t)))
          else if operation = ''rpc/lease-release'' then
            rbind (rawRecordFields payload ''lease/released'' 1) (\<lambda>fs.
            rbind (boolValue (fs ! 0)) (\<lambda>b. Inr (RReleased b)))
          else if operation = ''rpc/lease-check'' then
            rbind (rawRecordFields payload ''lease/check'' 2) (\<lambda>fs.
            rbind (optionValue (fs ! 1)) (\<lambda>ex.
            rbind (boolValue (fs ! 0)) (\<lambda>b.
              case ex of
                None \<Rightarrow> Inr (RCheck b None)
              | Some t \<Rightarrow> rbind (instantValue t) (\<lambda>i. Inr (RCheck b (Some i))))))
          else fail ''client/unsupported-operation'')"

text \<open>The code of an error response, which the reader delivers as a string.\<close>

definition error_code :: "response_error \<Rightarrow> jstr" where
  "error_code e = (case code e of JStr s \<Rightarrow> s | _ \<Rightarrow> [])"

record public_response =
  pb_response :: response
  pb_result :: op_result

definition publicResponse :: "string \<Rightarrow> response \<Rightarrow> public_response res" where
  "publicResponse operation rsp =
     (case rs_error rsp of
        Some e \<Rightarrow> Inl (RpcError (error_code e) (retryable e))
      | None \<Rightarrow>
          rbind (operationResult operation (rs_payload rsp)) (\<lambda>r.
            Inr \<lparr>pb_response = rsp, pb_result = r\<rparr>))"

record checkpoint =
  cp_servedVersion :: int
  watermarkBytes :: int
  createdAtUnixMs :: int
  snapshotCrc32 :: int
  snapshotBytes :: int

definition checkpointResult :: "response \<Rightarrow> checkpoint res" where
  "checkpointResult rsp =
     (case rs_error rsp of
        Some e \<Rightarrow> Inl (RpcError (error_code e) (retryable e))
      | None \<Rightarrow>
          (case (rs_page rsp, rs_payload rsp) of
             (None, Some payload) \<Rightarrow>
               rbind (rawRecordFields payload ''rpc/checkpoint'' 5) (\<lambda>fs.
               rbind (rmap intValue fs) (\<lambda>vs.
                 if list_ex (\<lambda>z. z < 0) vs then fail ''client/invalid-record''
                 else if vs ! 0 \<noteq> servedVersion rsp then fail ''client/invalid-record''
                 else if U32_MAX < vs ! 3 then fail ''client/invalid-record''
                 else Inr \<lparr>cp_servedVersion = servedVersion rsp, watermarkBytes = vs ! 1,
                           createdAtUnixMs = vs ! 2, snapshotCrc32 = vs ! 3, snapshotBytes = vs ! 4\<rparr>))
           | _ \<Rightarrow> fail ''client/invalid-record''))"

section \<open>What an accepted result is\<close>

definition row_val :: "jsval list \<Rightarrow> jsval" where
  "row_val cells = record_val ''query/row'' [list_val cells]"

definition rows_val :: "jsval list list \<Rightarrow> jsval" where
  "rows_val rows = record_val ''query/rows'' [list_val (map row_val rows)]"

lemma one_le_nodes: "1 \<le> MAX_TERM_NODES" "5 \<le> MAX_TERM_NODES"
  by (simp_all add: MAX_TERM_NODES_def)

lemma length_1_iff: "length xs = Suc 0 \<longleftrightarrow> (\<exists>x. xs = [x])"
  by (cases xs) auto

lemma queryRow_iff: "queryRow row = Inr cells \<longleftrightarrow> row = row_val cells \<and> length cells \<le> MAX_TERM_NODES"
  using one_le_nodes
  by (auto simp: queryRow_def res_simps rawRecordFields_iff rawListValues_iff row_val_def length_1_iff)

lemma queryRows_iff:
  "queryRows payload = Inr rows \<longleftrightarrow>
     payload = rows_val rows \<and> length rows \<le> MAX_TERM_NODES \<and> (\<forall>cells \<in> set rows. length cells \<le> MAX_TERM_NODES)"
proof -
  have "list_all2 (\<lambda>x y. x = row_val y \<and> length y \<le> MAX_TERM_NODES) vs rows \<longleftrightarrow>
      vs = map row_val rows \<and> (\<forall>cells \<in> set rows. length cells \<le> MAX_TERM_NODES)" for vs
    by (induction rows arbitrary: vs) (auto simp: list_all2_Cons2)
  then show ?thesis
    using one_le_nodes
    by (auto simp: queryRows_def res_simps rawRecordFields_iff rawListValues_iff rows_val_def
        rmap_Inr_iff queryRow_iff length_1_iff)
qed

text \<open>A coordinate: the transaction of a nonempty space and a nonnegative sequence, then the ordinal.\<close>

definition triple_val :: "jsval \<Rightarrow> jsval \<Rightarrow> jsval \<Rightarrow> jsval" where
  "triple_val a b c = JArr [JStr (js ''triple''), a, b, c]"

definition coordinate_of :: "jstr \<Rightarrow> int \<Rightarrow> int \<Rightarrow> fterm" where
  "coordinate_of space seqno ord =
     FTriple (FTriple (FString space) (FKeyword (js ''kernel/tx-sequence'')) (FInteger seqno))
       (FKeyword (js ''kernel/op-ordinal'')) (FInteger ord)"

lemma tagged_payload_iff: "tagged_payload s v = Inr x \<longleftrightarrow> v = JArr [JStr (js s), x]"
  by (cases "(s, v)" rule: tagged_payload.cases) auto

lemma to_bigint_JStr: "to_bigint (JStr (int_text z)) = Inr z"
  by (rule to_bigint_denotes) simp

lemma rep_tagged:
  "rep_term t = JArr [JStr (js ''string''), v] \<longleftrightarrow> (\<exists>s. t = FString s \<and> v = JStr s)"
  "rep_term t = JArr [JStr (js ''integer''), v] \<longleftrightarrow> (\<exists>z. t = FInteger z \<and> v = JStr (int_text z))"
  "rep_term t = kw k \<longleftrightarrow> t = FKeyword (js k)"
  "rep_term t = JArr [JStr (js ''triple''), x, y, z] \<longleftrightarrow>
     (\<exists>a b c. t = FTriple a b c \<and> x = rep_term a \<and> y = rep_term b \<and> z = rep_term c)"
  by (cases t; auto simp: kw_def)+

lemma intValue_rep: "intValue (rep_term t) = Inr z \<longleftrightarrow> t = FInteger z"
  by (auto simp: intValue_def res_simps tagged_payload_iff rep_tagged to_bigint_JStr)

lemma occurrenceCoordinate_rep:
  "occurrenceCoordinate (rep_term t) = Inr u \<longleftrightarrow>
     u = rep_term t \<and> (\<exists>space seqno ord. t = coordinate_of space seqno ord \<and> space \<noteq> [] \<and> 0 \<le> seqno \<and> 0 \<le> ord)"
proof -
  have tx: "\<exists>space seqno. t = FTriple (FString space) (FKeyword (js ''kernel/tx-sequence'')) (FInteger seqno)
        \<and> space \<noteq> [] \<and> 0 \<le> seqno" if "transactionCoordinate (rep_term t) = Inr u" for t u
  proof -
    from that obtain a b c space z where parts: "as_triple (rep_term t) = Some (a, b, c)"
      "stringValue a = Inr space" "truthy space" "isKeyword b ''kernel/tx-sequence''" "intValue c = Inr z" "0 \<le> z"
      by (auto simp: transactionCoordinate_def res_simps split: option.splits if_splits)
    from parts(1) obtain ta tb tc where t: "t = FTriple ta tb tc" "a = rep_term ta" "b = rep_term tb" "c = rep_term tc"
      by (auto simp: as_triple_iff rep_tagged)
    have "tb = FKeyword (js ''kernel/tx-sequence'')" using parts(4) t(3) by (simp add: isKeyword_iff rep_tagged)
    moreover have "tc = FInteger z" using parts(5) t(4) by (simp add: intValue_rep)
    moreover obtain s where "ta = FString s" "space = JStr s"
      using parts(2) t(2) by (auto simp: stringValue_def tagged_payload_iff rep_tagged)
    ultimately show ?thesis using t(1) parts(3,6) by (simp add: truthy_def)
  qed
  have "\<exists>space seqno ord. t = coordinate_of space seqno ord \<and> space \<noteq> [] \<and> 0 \<le> seqno \<and> 0 \<le> ord \<and> u = rep_term t"
    if "occurrenceCoordinate (rep_term t) = Inr u"
  proof -
    from that obtain a b c w z where parts: "as_triple (rep_term t) = Some (a, b, c)"
      "transactionCoordinate a = Inr w" "isKeyword b ''kernel/op-ordinal''" "intValue c = Inr z" "0 \<le> z"
      "u = rep_term t"
      by (auto simp: occurrenceCoordinate_def res_simps split: option.splits if_splits)
    from parts(1) obtain ta tb tc where t: "t = FTriple ta tb tc" "a = rep_term ta" "b = rep_term tb" "c = rep_term tc"
      by (auto simp: as_triple_iff rep_tagged)
    have "tb = FKeyword (js ''kernel/op-ordinal'')" using parts(3) t(3) by (simp add: isKeyword_iff rep_tagged)
    moreover have "tc = FInteger z" using parts(4) t(4) by (simp add: intValue_rep)
    moreover obtain space seqno where "ta = FTriple (FString space) (FKeyword (js ''kernel/tx-sequence'')) (FInteger seqno)"
      "space \<noteq> []" "0 \<le> seqno"
      using tx [of ta w] parts(2) t(2) by blast
    ultimately show ?thesis using t(1) parts(5,6) by (auto simp: coordinate_of_def)
  qed
  moreover have "occurrenceCoordinate (rep_term (coordinate_of space seqno ord)) = Inr (rep_term (coordinate_of space seqno ord))"
    if "space \<noteq> []" "0 \<le> seqno" "0 \<le> ord" for space seqno ord
    using that by (simp add: occurrenceCoordinate_def transactionCoordinate_def coordinate_of_def isKeyword_def
        stringValue_def intValue_def truthy_def to_bigint_JStr)
  ultimately show ?thesis by blast
qed

lemma occurrenceCoordinate_same: "occurrenceCoordinate v = Inr u \<Longrightarrow> u = v"
  by (auto simp: occurrenceCoordinate_def res_simps split: if_splits option.splits)

lemma actionResult_safe:
  "actionResult v = Inr r \<Longrightarrow> 0 \<le> inputIndex r \<and> inputIndex r \<le> 9007199254740991 \<and>
     occurrenceCoordinate (ar_occurrence r) = Inr (ar_occurrence r)"
  using occurrenceCoordinate_same by (fastforce simp: actionResult_def res_simps split: if_splits)

lemma checkpointResult_safe:
  assumes "checkpointResult rsp = Inr c"
  shows "rs_error rsp = None \<and> rs_page rsp = None \<and> cp_servedVersion c = servedVersion rsp \<and>
    0 \<le> cp_servedVersion c \<and> 0 \<le> watermarkBytes c \<and> 0 \<le> createdAtUnixMs c \<and>
    0 \<le> snapshotCrc32 c \<and> snapshotCrc32 c < 2 ^ 32 \<and> 0 \<le> snapshotBytes c"
proof -
  obtain payload fs vs where p: "rs_error rsp = None" "rs_page rsp = None" "rs_payload rsp = Some payload"
    "rawRecordFields payload ''rpc/checkpoint'' 5 = Inr fs" "rmap intValue fs = Inr vs"
    "\<not> list_ex (\<lambda>z. z < 0) vs" "vs ! 0 = servedVersion rsp" "vs ! 3 \<le> U32_MAX"
    "c = \<lparr>cp_servedVersion = servedVersion rsp, watermarkBytes = vs ! 1,
          createdAtUnixMs = vs ! 2, snapshotCrc32 = vs ! 3, snapshotBytes = vs ! 4\<rparr>"
    using assms by (auto simp: checkpointResult_def res_simps split: option.splits if_splits)
  have "length vs = 5" using p(4,5) by (simp add: rawRecordFields_iff rmap_length)
  then have "0 \<le> vs ! k" if "k < 5" for k
    using p(6) that \<open>length vs = 5\<close> by (auto simp: list_ex_iff not_less)
  from this [of 0] this [of 1] this [of 2] this [of 3] this [of 4] p show ?thesis
    by (simp add: U32_MAX_def)
qed

text \<open>The arrays of Terms that are lists and records are the lists and records of Terms.\<close>

lemma kw_rep_iff: "kw k = rep_term t \<longleftrightarrow> t = FKeyword (js k)"
  using rep_tagged(3) by metis

lemma rep_term_list_val: "list_val us = rep_term t \<longleftrightarrow> (\<exists>ts. t = list_term ts \<and> us = map rep_term ts)"
proof (induction us arbitrary: t)
  case Nil
  show ?case by (auto simp: kw_rep_iff)
next
  case (Cons u us)
  have ex_cons: "(\<exists>ts. P ts \<and> (\<exists>z zs. ts = z # zs \<and> Q z zs)) \<longleftrightarrow> (\<exists>z zs. P (z # zs) \<and> Q z zs)"
    for P :: "fterm list \<Rightarrow> bool" and Q by blast
  have "list_val (u # us) = rep_term t \<longleftrightarrow> rep_term t = JArr [JStr (js ''triple''), kw ''rpc/list'', u, list_val us]"
    by auto
  also have "\<dots> \<longleftrightarrow> (\<exists>b c. t = FTriple (FKeyword (js ''rpc/list'')) b c \<and> u = rep_term b \<and> list_val us = rep_term c)"
    unfolding rep_tagged(4) kw_rep_iff by blast
  also have "\<dots> \<longleftrightarrow> (\<exists>ts. t = list_term ts \<and> u # us = map rep_term ts)"
    unfolding Cons.IH Cons_eq_map_conv ex_cons list_term.simps by blast
  finally show ?case .
qed

lemma rep_term_record_val:
  "rep_term t = record_val tag us \<longleftrightarrow> (\<exists>ts. t = record_term tag ts \<and> us = map rep_term ts)"
  unfolding record_val_def rep_tagged(4) kw_rep_iff rep_term_list_val record_term_def by blast

lemma rawRecordFields_rep_iff:
  "n \<le> MAX_TERM_NODES \<Longrightarrow> rawRecordFields (rep_term t) tag n = Inr fs \<longleftrightarrow>
     (\<exists>ts. t = record_term tag ts \<and> fs = map rep_term ts \<and> length ts = n)"
  by (auto simp: rawRecordFields_iff rep_term_record_val)

lemma intValues_rep: "rmap intValue (map rep_term ts) = Inr zs \<longleftrightarrow> ts = map FInteger zs"
  by (induction ts arbitrary: zs) (auto simp: res_simps intValue_rep Cons_eq_map_conv)

lemma intFields_rep:
  assumes "n \<le> MAX_TERM_NODES"
  shows "rbind (rawRecordFields (rep_term t) tag n) (\<lambda>fs. rbind (rmap intValue fs) k) = Inr c \<longleftrightarrow>
    (\<exists>zs. t = record_term tag (map FInteger zs) \<and> length zs = n \<and> k zs = Inr c)"
  unfolding rbind_Inr_iff rawRecordFields_rep_iff [OF assms] using intValues_rep by (metis length_map)

definition checkpoint_term :: "checkpoint \<Rightarrow> fterm" where
  "checkpoint_term c = record_term ''rpc/checkpoint''
     (map FInteger [cp_servedVersion c, watermarkBytes c, createdAtUnixMs c, snapshotCrc32 c, snapshotBytes c])"

lemma checkpointResult_rep:
  "checkpointResult (reply_seen rep) = Inr c \<longleftrightarrow>
     rp_error rep = None \<and> rp_page rep = None \<and> rp_payload rep = Some (checkpoint_term c) \<and>
     cp_servedVersion c = rp_served rep \<and> 0 \<le> rp_served rep \<and> 0 \<le> watermarkBytes c \<and> 0 \<le> createdAtUnixMs c \<and>
     0 \<le> snapshotCrc32 c \<and> snapshotCrc32 c < 2 ^ 32 \<and> 0 \<le> snapshotBytes c"
proof (cases "rp_error rep = None \<and> rp_page rep = None \<and> rp_payload rep \<noteq> None")
  case True
  then obtain t where t: "rp_payload rep = Some t" by auto
  have five: "5 \<le> MAX_TERM_NODES" by (rule one_le_nodes)
  have "checkpointResult (reply_seen rep) =
      rbind (rawRecordFields (rep_term t) ''rpc/checkpoint'' 5) (\<lambda>fs. rbind (rmap intValue fs) (\<lambda>vs.
        if list_ex (\<lambda>z. z < 0) vs then fail ''client/invalid-record''
        else if vs ! 0 \<noteq> rp_served rep then fail ''client/invalid-record''
        else if U32_MAX < vs ! 3 then fail ''client/invalid-record''
        else Inr \<lparr>cp_servedVersion = rp_served rep, watermarkBytes = vs ! 1, createdAtUnixMs = vs ! 2,
                  snapshotCrc32 = vs ! 3, snapshotBytes = vs ! 4\<rparr>))"
    using True t by (simp add: checkpointResult_def reply_seen_def cong: if_cong)
  then have "checkpointResult (reply_seen rep) = Inr c \<longleftrightarrow>
      (\<exists>zs. t = record_term ''rpc/checkpoint'' (map FInteger zs) \<and> length zs = 5 \<and> \<not> list_ex (\<lambda>z. z < 0) zs \<and>
        zs ! 0 = rp_served rep \<and> \<not> U32_MAX < zs ! 3 \<and>
        c = \<lparr>cp_servedVersion = rp_served rep, watermarkBytes = zs ! 1, createdAtUnixMs = zs ! 2,
             snapshotCrc32 = zs ! 3, snapshotBytes = zs ! 4\<rparr>)"
    by (simp only: intFields_rep [OF five]) (auto split: if_splits)
  also have "\<dots> \<longleftrightarrow> (t = checkpoint_term c \<and> cp_servedVersion c = rp_served rep \<and> 0 \<le> rp_served rep \<and>
      0 \<le> watermarkBytes c \<and> 0 \<le> createdAtUnixMs c \<and> 0 \<le> snapshotCrc32 c \<and> snapshotCrc32 c < 2 ^ 32 \<and> 0 \<le> snapshotBytes c)"
    (is "?l = ?r")
  proof
    assume ?l
    then obtain zs where z: "t = record_term ''rpc/checkpoint'' (map FInteger zs)" "length zs = 5"
      "\<not> list_ex (\<lambda>z. z < 0) zs" "zs ! 0 = rp_served rep" "\<not> U32_MAX < zs ! 3"
      "c = \<lparr>cp_servedVersion = rp_served rep, watermarkBytes = zs ! 1, createdAtUnixMs = zs ! 2,
             snapshotCrc32 = zs ! 3, snapshotBytes = zs ! 4\<rparr>" by blast
    from z(2) obtain z0 z1 z2 z3 z4 where "zs = [z0, z1, z2, z3, z4]"
      by (auto simp: numeral_eq_Suc length_Suc_conv)
    with z show ?r by (simp add: checkpoint_term_def U32_MAX_def)
  next
    assume ?r
    then show ?l
      by (intro exI [of _ "[cp_servedVersion c, watermarkBytes c, createdAtUnixMs c, snapshotCrc32 c, snapshotBytes c]"])
        (simp add: checkpoint_term_def U32_MAX_def)
  qed
  finally show ?thesis using True t by auto
next
  case False
  then show ?thesis
    by (auto simp: checkpointResult_def reply_seen_def split: option.splits)
qed

end
