(* ===== verification/Query.thy ===== *)
theory Query
  imports Response
begin

text \<open>
  Building request payloads in \<^verbatim>\<open>clients/bun/framrpc-core.mjs\<close>: the query plan a query object is
  lowered to, the snapshot selector, write payloads and batch actions. \<open>plan_wf\<close> is the grammar of
  the plans the lowering produces.
\<close>

section \<open>Member access\<close>

text \<open>\<open>Object.hasOwn(value, key)\<close> and \<open>value.key\<close> on any value; both throw on null and undefined.\<close>

definition own_of :: "jsval \<Rightarrow> string \<Rightarrow> bool res" where
  "own_of v k =
     (if nullish v then Inl JsTypeError
      else Inr (case v of JObj fs \<Rightarrow> has_own fs k | _ \<Rightarrow> False))"

definition member :: "jsval \<Rightarrow> string \<Rightarrow> jsval res" where
  "member v k =
     (if nullish v then Inl JsTypeError
      else Inr (case v of JObj fs \<Rightarrow> get_prop fs k | _ \<Rightarrow> JUndef))"

definition js_lit :: "string \<Rightarrow> jsval" where
  "js_lit s = JStr (js s)"

section \<open>Names and required properties\<close>

definition queryName :: "jsval \<Rightarrow> jsval res" where
  "queryName v =
     (case v of JStr s \<Rightarrow> if s = [] then fail ''client/query-syntax'' else Inr v
      | _ \<Rightarrow> fail ''client/query-syntax'')"

definition queryOperation :: "jsval \<Rightarrow> jsval res" where
  "queryOperation v =
     rbind (queryName v) (\<lambda>name.
       case name of
         JStr (u # us) \<Rightarrow> if [u] = js '':'' then Inr (JStr us) else Inr name
       | _ \<Rightarrow> Inr name)"

definition required :: "jsval \<Rightarrow> string \<Rightarrow> jsval res" where
  "required v key =
     rbind (plainObject v) (\<lambda>fs.
       if has_own fs key then Inr (get_prop fs key) else fail ''client/query-syntax'')"

section \<open>Lowering of a query\<close>

definition queryTerm :: "jsval \<Rightarrow> jsval res" where
  "queryTerm v =
     (case object_fields v of
        Some fs \<Rightarrow>
          if length fs = 1 \<and> has_own fs ''var''
          then rbind (queryName (get_prop fs ''var'')) (\<lambda>n. rbind (stringTerm n) (\<lambda>s.
                 rpcRecord ''query/var'' [s]))
          else rbind (toTerm v) (\<lambda>t. rpcRecord ''query/const'' [t])
      | None \<Rightarrow> rbind (toTerm v) (\<lambda>t. rpcRecord ''query/const'' [t]))"

definition queryArgs :: "jsval \<Rightarrow> jsval res" where
  "queryArgs v =
     rbind (required v ''args'') (\<lambda>a. rbind (array_items a) (\<lambda>xs. rbind (rmap queryTerm xs) rpcList))"

definition queryHead :: "jsval \<Rightarrow> jsval res" where
  "queryHead v =
     rbind (required v ''rel'') (\<lambda>rel. rbind (queryName rel) (\<lambda>n. rbind (stringTerm n) (\<lambda>s.
     rbind (queryArgs v) (\<lambda>args. rpcRecord ''query/head'' [s, args]))))"

text \<open>\<open>Array.isArray(value) \<and> value.length === 2\<close>\<close>

fun two_items :: "jsval \<Rightarrow> (jsval \<times> jsval) option" where
  "two_items (JArr [x, y]) = Some (x, y)"
| "two_items _ = None"

definition queryClause :: "jsval \<Rightarrow> jsval res" where
  "queryClause v =
     rbind (plainObject v) (\<lambda>fs.
     if has_own fs ''rel'' then
       rbind (exactKeys v [''rel'', ''args'', ''neg'']) (\<lambda>_.
       rbind (queryName (get_prop fs ''rel'')) (\<lambda>n. rbind (stringTerm n) (\<lambda>s.
       rbind (queryArgs v) (\<lambda>args.
       rbind (booleanTerm (JBool (truthy (get_prop fs ''neg'')))) (\<lambda>b.
         rpcRecord ''query/relation'' [s, args, b])))))
     else if has_own fs ''pred'' then
       rbind (required v ''args'') (\<lambda>a.
       case two_items a of
         Some (x, y) \<Rightarrow>
           rbind (queryOperation (get_prop fs ''pred'')) (\<lambda>p. rbind (keywordTerm p) (\<lambda>k.
           rbind (queryTerm x) (\<lambda>tx. rbind (queryTerm y) (\<lambda>ty.
             rpcRecord ''query/predicate'' [k, tx, ty]))))
       | None \<Rightarrow> fail ''client/query-syntax'')
     else if has_own fs ''fn'' then
       rbind (queryOperation (get_prop fs ''fn'')) (\<lambda>f. rbind (keywordTerm f) (\<lambda>k.
       rbind (queryArgs v) (\<lambda>args.
       rbind (required v ''bind'') (\<lambda>b. rbind (queryName b) (\<lambda>n. rbind (stringTerm n) (\<lambda>s.
         rpcRecord ''query/function'' [k, args, s]))))))
     else fail ''client/query-syntax'')"

definition queryRule :: "jsval \<Rightarrow> jsval res" where
  "queryRule v =
     rbind (required v ''head'') (\<lambda>h. rbind (queryHead h) (\<lambda>hd'.
     rbind (required v ''body'') (\<lambda>b. rbind (array_items b) (\<lambda>xs.
     rbind (rmap queryClause xs) (\<lambda>cs. rbind (rpcList cs) (\<lambda>body.
       rpcRecord ''query/rule'' [hd', body]))))))"

text \<open>\<open>value || []\<close>\<close>

definition or_empty :: "jsval \<Rightarrow> jsval" where
  "or_empty v = (if truthy v then v else JArr [])"

definition queryAggregate :: "jsval \<Rightarrow> jsval res" where
  "queryAggregate v =
     rbind (plainObject v) (\<lambda>fs.
     rbind (required v ''op'') (\<lambda>o'. rbind (queryOperation o') (\<lambda>n. rbind (keywordTerm n) (\<lambda>k.
     rbind (if has_own fs ''arg'' then integerTerm (get_prop fs ''arg'') else Inr JNull) (\<lambda>a.
     rbind (rpcOption a) (\<lambda>opt. rpcRecord ''query/aggregate'' [k, opt]))))))"

definition queryHaving :: "jsval \<Rightarrow> jsval res" where
  "queryHaving v =
     rbind (plainObject v) (\<lambda>_.
     rbind (required v ''op'') (\<lambda>o'. rbind (queryOperation o') (\<lambda>n. rbind (keywordTerm n) (\<lambda>k.
     rbind (required v ''agg'') (\<lambda>g. rbind (integerTerm g) (\<lambda>i.
     rbind (required v ''val'') (\<lambda>x. rbind (toTerm x) (\<lambda>t.
       rpcRecord ''query/having'' [k, i, t]))))))))"

definition queryFind :: "jsval \<Rightarrow> jsval res" where
  "queryFind v =
     (case v of
        JStr _ \<Rightarrow> rbind (queryName v) (\<lambda>n. rbind (stringTerm n) (\<lambda>s. rpcRecord ''query/find-relation'' [s]))
      | _ \<Rightarrow>
          rbind (plainObject v) (\<lambda>fs.
          rbind (array_items (or_empty (get_prop fs ''group''))) (\<lambda>gs. rbind (rmap integerTerm gs) (\<lambda>grouping.
          rbind (required v ''agg'') (\<lambda>a. rbind (array_items a) (\<lambda>as. rbind (rmap queryAggregate as) (\<lambda>aggregates.
          rbind (array_items (or_empty (get_prop fs ''having''))) (\<lambda>hs. rbind (rmap queryHaving hs) (\<lambda>having.
          rbind (required v ''rel'') (\<lambda>r. rbind (queryName r) (\<lambda>n. rbind (stringTerm n) (\<lambda>s.
          rbind (rpcList grouping) (\<lambda>l1. rbind (rpcList aggregates) (\<lambda>l2. rbind (rpcList having) (\<lambda>l3.
            rpcRecord ''query/find-aggregate'' [s, l1, l2, l3])))))))))))))))"

definition queryOrder :: "jsval \<Rightarrow> jsval res" where
  "queryOrder clause =
     rbind (exactKeys clause [''column'', ''direction'']) (\<lambda>_.
     rbind (required clause ''column'') (\<lambda>c. rbind (integerBigInt 0 I64_MAX c) (\<lambda>column.
     rbind (required clause ''direction'') (\<lambda>d.
       if d \<noteq> js_lit ''asc'' \<and> d \<noteq> js_lit ''desc'' then fail ''client/query-syntax''
       else rbind (integerTerm (JBigInt column)) (\<lambda>i. rbind (keywordTerm d) (\<lambda>k.
         rpcRecord ''query/order'' [i, k]))))))"

definition queryStratum :: "jsval \<Rightarrow> jsval res" where
  "queryStratum rules =
     rbind (array_items rules) (\<lambda>rs. rbind (rmap queryRule rs) (\<lambda>us. rbind (rpcList us) (\<lambda>l.
       rpcRecord ''query/stratum'' [l])))"

text \<open>The strata, the order clauses and the limit of a query object.\<close>

definition plan_strata :: "(jstr \<times> jsval) list \<Rightarrow> jsval" where
  "plan_strata fs =
     (if has_own fs ''rules'' then JArr [get_prop fs ''rules''] else get_prop fs ''strata'')"

definition plan_order :: "(jstr \<times> jsval) list \<Rightarrow> jsval" where
  "plan_order fs = (if has_own fs ''orderBy'' then get_prop fs ''orderBy'' else JArr [])"

definition plan_limit :: "(jstr \<times> jsval) list \<Rightarrow> jsval res" where
  "plan_limit fs =
     (if has_own fs ''limit''
      then rbind (integerBigInt 1 100000 (get_prop fs ''limit'')) (\<lambda>z. Inr (JBigInt z))
      else Inr JNull)"

definition lowerQueryPlan :: "jsval \<Rightarrow> jsval res" where
  "lowerQueryPlan v =
     rbind (plainObject v) (\<lambda>fs.
     if has_own fs ''rules'' = has_own fs ''strata'' then fail ''client/query-syntax''
     else case plan_strata fs of
       JArr strata \<Rightarrow>
         if \<not> list_all is_array strata then fail ''client/query-syntax''
         else (case plan_order fs of
           JArr orderBy \<Rightarrow>
             rbind (rmap queryOrder orderBy) (\<lambda>order.
             rbind (plan_limit fs) (\<lambda>lim.
             rbind (required v ''find'') (\<lambda>f. rbind (queryFind f) (\<lambda>find'.
             rbind (rmap queryStratum strata) (\<lambda>ss. rbind (rpcList ss) (\<lambda>l.
             rbind (rpcList order) (\<lambda>ord. rbind (rpcOption lim) (\<lambda>opt.
               rpcRecord ''query/plan'' [find', l, ord, opt]))))))))
         | _ \<Rightarrow> fail ''client/query-syntax'')
     | _ \<Rightarrow> fail ''client/query-syntax'')"

text \<open>\<open>tripleQuery\<close>: the pattern's absent parts become the variables of the answer.\<close>

definition var_term :: "string \<Rightarrow> jsval res" where
  "var_term n = rbind (stringTerm (js_lit n)) (\<lambda>s. rpcRecord ''query/var'' [s])"

definition pattern_arg :: "string \<Rightarrow> jsval \<Rightarrow> jsval res" where
  "pattern_arg n v =
     (if nullish v then var_term n else rbind (toTerm v) (\<lambda>t. rpcRecord ''query/const'' [t]))"

definition tripleQuery :: "jsval \<Rightarrow> jsval res" where
  "tripleQuery pattern =
     rbind (exactKeys pattern [''t1'', ''t2'', ''t3'']) (\<lambda>fs.
     let names = [''t1'', ''t2'', ''t3''];
         variables = filter (\<lambda>n. nullish (get_prop fs n)) names
     in rbind (rmap (\<lambda>n. pattern_arg n (get_prop fs n)) names) (\<lambda>args.
        rbind (if variables \<noteq> [] then rmap var_term variables else Inr args) (\<lambda>headTerms.
        rbind (stringTerm (js_lit ''out'')) (\<lambda>out. rbind (rpcList headTerms) (\<lambda>hl.
        rbind (rpcRecord ''query/head'' [out, hl]) (\<lambda>head'.
        rbind (stringTerm (js_lit ''triple'')) (\<lambda>rel. rbind (rpcList args) (\<lambda>al.
        rbind (booleanTerm (JBool False)) (\<lambda>neg.
        rbind (rpcRecord ''query/relation'' [rel, al, neg]) (\<lambda>relation.
        rbind (rpcList [relation]) (\<lambda>body. rbind (rpcRecord ''query/rule'' [head', body]) (\<lambda>rule.
        rbind (rpcList [rule]) (\<lambda>rules. rbind (rpcRecord ''query/stratum'' [rules]) (\<lambda>stratum.
        rbind (rpcRecord ''query/find-relation'' [out]) (\<lambda>find'.
        rbind (rpcList [stratum]) (\<lambda>strata. rbind (rpcList []) (\<lambda>order.
        rbind (rpcOption JNull) (\<lambda>lim.
          rpcRecord ''query/plan'' [find', strata, order, lim]))))))))))))))))))"

definition asOfTerm :: "jsval \<Rightarrow> jsval res" where
  "asOfTerm v = rbind (integerTerm v) (\<lambda>i. rpcRecord ''query/as-of'' [i])"

definition querySnapshot :: "jsval \<Rightarrow> jsval res" where
  "querySnapshot options =
     rbind (own_of options ''asOf'') (\<lambda>hasAsOf.
     rbind (own_of options ''since'') (\<lambda>hasSince.
     if hasAsOf \<and> hasSince then fail ''client/query-syntax''
     else if hasAsOf then rbind (member options ''asOf'') asOfTerm
     else if \<not> hasSince then keyword_lit ''query/current''
     else rbind (member options ''since'') (\<lambda>raw.
       let since = (case raw of
                      JObj _ \<Rightarrow> raw | JArr _ \<Rightarrow> raw | JDate _ \<Rightarrow> raw
                    | _ \<Rightarrow> JObj [(js ''lowerExclusive'', raw)])
       in rbind (required since ''lowerExclusive'') (\<lambda>lower.
          rbind (own_of since ''upper'') (\<lambda>hasUpper.
          rbind (member since ''upper'') (\<lambda>up.
          rbind (if \<not> hasUpper \<or> up = js_lit ''current'' then keyword_lit ''query/current''
                 else asOfTerm up) (\<lambda>upper.
          rbind (integerTerm lower) (\<lambda>i. rpcRecord ''query/since'' [i, upper]))))))))"

section \<open>Writes\<close>

definition policy :: "jsval \<Rightarrow> jsval res" where
  "policy existing =
     keyword_lit (if truthy existing then ''rpc/subject-existing'' else ''rpc/subject-any'')"

definition writePayload :: "jsval \<Rightarrow> jsval \<Rightarrow> jsval res" where
  "writePayload prop options =
     rbind (member options ''existing'') (\<lambda>ex. rbind (policy ex) (\<lambda>pol.
     rbind (member options ''fence'') (\<lambda>f. rbind (rpcOption f) (\<lambda>fence.
       rpcRecord ''rpc/write'' [prop, pol, fence]))))"

definition is_triple_array :: "jsval \<Rightarrow> bool" where
  "is_triple_array v = (case v of JArr (t # _) \<Rightarrow> t = js_lit ''triple'' | _ \<Rightarrow> False)"

definition actionPayload :: "jsval \<Rightarrow> jsval res" where
  "actionPayload act =
     rbind (exactKeys act [''op'', ''proposition'', ''t1'', ''t2'', ''t3'', ''existing'']) (\<lambda>fs.
     let operation = (if get_prop fs ''op'' = js_lit ''assert'' then Some ''rpc/assert''
                      else if get_prop fs ''op'' = js_lit ''retract'' then Some ''rpc/retract''
                      else None)
     in case operation of
          None \<Rightarrow> fail ''client/invalid-action''
        | Some op \<Rightarrow>
            rbind (if has_own fs ''proposition'' then toTerm (get_prop fs ''proposition'')
                   else tripleTerm (get_prop fs ''t1'') (get_prop fs ''t2'') (get_prop fs ''t3'')) (\<lambda>p.
            if \<not> is_triple_array p then fail ''client/invalid-action''
            else rbind (keyword_lit op) (\<lambda>k. rbind (policy (get_prop fs ''existing'')) (\<lambda>pol.
              rpcRecord ''rpc/action'' [k, p, pol]))))"

definition FRAMRPC_MAX_BATCH_ACTIONS :: nat where "FRAMRPC_MAX_BATCH_ACTIONS = 247"

record prepared =
  bt_actionCount :: nat
  bt_payload :: jsval
  bt_options :: jsval
  bt_preflight :: jsval

definition prepareBatch :: "jsval \<Rightarrow> jsval \<Rightarrow> bool \<Rightarrow> prepared res" where
  "prepareBatch actions options allowPreflight =
     (case actions of
        JArr (a # as) \<Rightarrow>
          if FRAMRPC_MAX_BATCH_ACTIONS < length (a # as) then fail ''client/action-limit''
          else rbind (exactKeys options
                 (if allowPreflight then [''expectedVersion'', ''signal'', ''fence'', ''preflight'']
                  else [''expectedVersion'', ''signal'', ''fence''])) (\<lambda>fs.
            let requestOptions = JObj
                  ((if has_own fs ''expectedVersion''
                    then [(js ''expectedVersion'', get_prop fs ''expectedVersion'')] else []) @
                   (if has_own fs ''signal'' then [(js ''signal'', get_prop fs ''signal'')] else []))
            in rbind (rmap actionPayload (a # as)) (\<lambda>ps. rbind (rpcList ps) (\<lambda>l.
               rbind (rpcOption (get_prop fs ''fence'')) (\<lambda>fence.
               rbind (rpcRecord ''rpc/batch'' [l, fence]) (\<lambda>payload.
                 Inr \<lparr>bt_actionCount = length (a # as), bt_payload = payload, bt_options = requestOptions,
                       bt_preflight = (if allowPreflight \<and> has_own fs ''preflight''
                                       then get_prop fs ''preflight'' else JNull)\<rparr>)))))
      | _ \<Rightarrow> fail ''client/invalid-action'')"

section \<open>The grammar of the payloads\<close>

definition is_term :: "jsval \<Rightarrow> bool" where
  "is_term v = (case validateTerm 0 fresh_budget v of Inr _ \<Rightarrow> is_array v | Inl _ \<Rightarrow> False)"

definition is_atom :: "string \<Rightarrow> jsval \<Rightarrow> bool" where
  "is_atom tag v \<longleftrightarrow> is_term v \<and> (case v of JArr (t # _) \<Rightarrow> t = js_lit tag | _ \<Rightarrow> False)"

definition is_list :: "(jsval \<Rightarrow> bool) \<Rightarrow> jsval \<Rightarrow> bool" where
  "is_list P v = (case rawListValues v of Inr vs \<Rightarrow> list_all P vs | Inl _ \<Rightarrow> False)"

definition is_record :: "string \<Rightarrow> (jsval \<Rightarrow> bool) list \<Rightarrow> jsval \<Rightarrow> bool" where
  "is_record tag Ps v =
     (case rawRecordFields v tag (length Ps) of
        Inr vs \<Rightarrow> list_all2 (\<lambda>P x. P x) Ps vs
      | Inl _ \<Rightarrow> False)"

definition is_option :: "(jsval \<Rightarrow> bool) \<Rightarrow> jsval \<Rightarrow> bool" where
  "is_option P v =
     (case optionValue v of Inr None \<Rightarrow> True | Inr (Some x) \<Rightarrow> P x | Inl _ \<Rightarrow> False)"

definition query_term_wf :: "jsval \<Rightarrow> bool" where
  "query_term_wf v \<longleftrightarrow> is_record ''query/var'' [is_atom ''string''] v \<or> is_record ''query/const'' [is_term] v"

definition query_head_wf :: "jsval \<Rightarrow> bool" where
  "query_head_wf = is_record ''query/head'' [is_atom ''string'', is_list query_term_wf]"

definition query_clause_wf :: "jsval \<Rightarrow> bool" where
  "query_clause_wf v \<longleftrightarrow>
     is_record ''query/relation'' [is_atom ''string'', is_list query_term_wf, is_atom ''boolean''] v \<or>
     is_record ''query/predicate'' [is_atom ''keyword'', query_term_wf, query_term_wf] v \<or>
     is_record ''query/function'' [is_atom ''keyword'', is_list query_term_wf, is_atom ''string''] v"

definition query_rule_wf :: "jsval \<Rightarrow> bool" where
  "query_rule_wf = is_record ''query/rule'' [query_head_wf, is_list query_clause_wf]"

definition query_find_wf :: "jsval \<Rightarrow> bool" where
  "query_find_wf v \<longleftrightarrow>
     is_record ''query/find-relation'' [is_atom ''string''] v \<or>
     is_record ''query/find-aggregate''
       [is_atom ''string'', is_list (is_atom ''integer''),
        is_list (is_record ''query/aggregate'' [is_atom ''keyword'', is_option (is_atom ''integer'')]),
        is_list (is_record ''query/having'' [is_atom ''keyword'', is_atom ''integer'', is_term])] v"

definition plan_wf :: "jsval \<Rightarrow> bool" where
  "plan_wf = is_record ''query/plan''
     [query_find_wf,
      is_list (is_record ''query/stratum'' [is_list query_rule_wf]),
      is_list (is_record ''query/order'' [is_atom ''integer'', is_atom ''keyword'']),
      is_option (is_atom ''integer'')]"

section \<open>What the builders return\<close>

lemma query_names [simp]:
  "name_ok ''query/var''" "name_ok ''query/const''" "name_ok ''query/head''" "name_ok ''query/relation''"
  "name_ok ''query/predicate''" "name_ok ''query/function''" "name_ok ''query/rule''"
  "name_ok ''query/find-relation''" "name_ok ''query/find-aggregate''" "name_ok ''query/aggregate''"
  "name_ok ''query/having''" "name_ok ''query/stratum''" "name_ok ''query/order''" "name_ok ''query/plan''"
  "name_ok ''query/as-of''" "name_ok ''query/since''" "name_ok ''query/current''"
  by (simp_all add: name_ok_def ascii_def)

lemma write_names [simp]:
  "name_ok ''rpc/subject-existing''" "name_ok ''rpc/subject-any''" "name_ok ''rpc/write''"
  "name_ok ''rpc/assert''" "name_ok ''rpc/retract''" "name_ok ''rpc/action''" "name_ok ''rpc/batch''"
  by (simp_all add: name_ok_def ascii_def)

lemma is_array_simps [simp]:
  "is_array (JArr xs)" "is_array (list_val vs)" "is_array (record_val tag vs)" "is_array (kw s)"
  using list_val_JArr [of vs] by (auto simp: is_array_def record_val_def kw_def)

lemma toTerm_array: "toTerm v = Inr u \<Longrightarrow> is_term u \<and> is_array u \<and> (is_array v \<longrightarrow> u = v)"
proof -
  assume a: "toTerm v = Inr u"
  from toTerm_sound [OF a] obtain t where t: "denotes u t" "term_ok t" by blast
  then obtain b where "validateTerm 0 fresh_budget u = Inr b" by (auto simp: validateTerm_fresh)
  moreover have "is_array u" using t(1) by cases simp_all
  moreover have "is_array v \<longrightarrow> u = v"
    using a by (cases v) (auto simp: is_array_def dest: toTerm_JArr)
  ultimately show ?thesis by (simp add: is_term_def)
qed

lemma rmap_toTerm_arrays:
  "rmap toTerm vs = Inr us \<Longrightarrow> list_all is_array vs \<Longrightarrow> us = vs \<and> list_all is_term vs"
  by (induction vs arbitrary: us) (auto simp: res_simps dest: toTerm_array)

lemma rpcRecord_built:
  "rpcRecord tag vs = Inr u \<Longrightarrow> name_ok tag \<Longrightarrow> list_all is_array vs \<Longrightarrow>
     u = record_val tag vs \<and> length vs \<le> MAX_TERM_NODES \<and> list_all is_term vs"
  using rpcRecord_Inr [of tag vs u] rmap_toTerm_arrays by blast

lemma rpcList_built:
  assumes "rpcList vs = Inr u" "list_all is_array vs"
  shows "u = list_val vs \<and> length vs \<le> MAX_TERM_NODES \<and> list_all is_term vs"
proof -
  from rpcList_Inr [OF assms(1)] assms(2) have u: "u = list_val vs" "list_all is_term vs"
    using rmap_toTerm_arrays by blast+
  show ?thesis
  proof (cases vs)
    case (Cons w ws)
    then obtain nxt z where "rpcList ws = Inr nxt" "toTerm nxt = Inr z"
      using assms(1) by (auto simp: rpcList_Cons res_simps tripleTerm_Inr_iff)
    moreover have "nxt = list_val ws"
      using rpcList_Inr [OF \<open>rpcList ws = Inr nxt\<close>] rmap_toTerm_arrays assms(2) Cons by auto
    ultimately have "length ws < MAX_TERM_NODES" using toTerm_list_val_length by blast
    with u Cons show ?thesis by simp
  qed (use u in simp)
qed

lemma is_record_val [simp]:
  "is_record tag Ps (record_val tag' vs) \<longleftrightarrow>
     tag = tag' \<and> length Ps \<le> MAX_TERM_NODES \<and> list_all2 (\<lambda>P x. P x) Ps vs"
proof (cases "tag = tag' \<and> length Ps = length vs \<and> length Ps \<le> MAX_TERM_NODES")
  case True
  then have "rawRecordFields (record_val tag' vs) tag (length Ps) = Inr vs"
    by (simp add: rawRecordFields_iff)
  with True show ?thesis by (simp add: is_record_def)
next
  case False
  have "rawRecordFields (record_val tag' vs) tag (length Ps) \<noteq> Inr ws" for ws
    using False by (auto simp: rawRecordFields_iff record_val_def)
  then obtain e where "rawRecordFields (record_val tag' vs) tag (length Ps) = Inl e"
    by (metis sum.exhaust)
  with False show ?thesis by (auto simp: is_record_def dest: list_all2_lengthD)
qed

lemma is_list_val [simp]: "is_list P (list_val vs) \<longleftrightarrow> length vs \<le> MAX_TERM_NODES \<and> list_all P vs"
proof (cases "length vs \<le> MAX_TERM_NODES")
  case True
  then have "rawListValues (list_val vs) = Inr vs" by (simp add: rawListValues_iff)
  with True show ?thesis by (simp add: is_list_def)
next
  case False
  then have "rawListValues (list_val vs) \<noteq> Inr ws" for ws by (auto simp: rawListValues_iff)
  then obtain e where "rawListValues (list_val vs) = Inl e" by (metis sum.exhaust)
  with False show ?thesis by (simp add: is_list_def)
qed

lemma rpcOption_built:
  "rpcOption v = Inr u \<Longrightarrow> (\<And>t. \<not> nullish v \<Longrightarrow> toTerm v = Inr t \<Longrightarrow> P t) \<Longrightarrow> is_array u \<and> is_option P u"
  by (auto simp: rpcOption_def res_simps tripleTerm_Inr_iff is_option_def optionValue_def isKeyword_iff
      split: if_splits dest: toTerm_array)

lemma is_term_rep: "term_ok t \<Longrightarrow> is_term (rep_term t) \<and> is_array (rep_term t)"
  using toTerm_array [OF toTerm_rep_term] by blast

lemma atom_built:
  "stringTerm v = Inr u \<Longrightarrow> is_array u \<and> is_atom ''string'' u"
  "integerTerm v = Inr u \<Longrightarrow> is_array u \<and> is_atom ''integer'' u"
  "keywordTerm v = Inr u \<Longrightarrow> is_array u \<and> is_atom ''keyword'' u"
  "booleanTerm v = Inr u \<Longrightarrow> is_array u \<and> is_atom ''boolean'' u"
proof -
  show "is_array u \<and> is_atom ''string'' u" if "stringTerm v = Inr u"
  proof -
    from that obtain s where "text_ok s" "u = rep_term (FString s)" by (auto simp: stringTerm_Inr_iff)
    with is_term_rep [of "FString s"] show ?thesis by (simp add: is_atom_def js_lit_def)
  qed
  show "is_array u \<and> is_atom ''integer'' u" if "integerTerm v = Inr u"
  proof -
    from that obtain z where "i64_ok z" "u = rep_term (FInteger z)" by (auto simp: integerTerm_Inr_iff)
    with is_term_rep [of "FInteger z"] show ?thesis by (simp add: is_atom_def js_lit_def)
  qed
  show "is_array u \<and> is_atom ''keyword'' u" if "keywordTerm v = Inr u"
  proof -
    from that obtain s where "text_ok s" "s \<noteq> []" "u = rep_term (FKeyword s)" by (auto simp: keywordTerm_Inr_iff)
    with is_term_rep [of "FKeyword s"] show ?thesis by (simp add: is_atom_def js_lit_def)
  qed
  show "is_array u \<and> is_atom ''boolean'' u" if "booleanTerm v = Inr u"
  proof -
    from that obtain b where "u = rep_term (FBoolean b)" by (cases v) (auto simp: booleanTerm_def)
    with is_term_rep [of "FBoolean b"] show ?thesis by (simp add: is_atom_def js_lit_def)
  qed
qed

lemma rmap_built:
  assumes "rmap f xs = Inr ys" "\<And>x y. f x = Inr y \<Longrightarrow> is_array y \<and> P y"
  shows "list_all is_array ys \<and> list_all P ys"
  using assms(1) by (induction xs arbitrary: ys) (auto simp: res_simps assms(2))

lemma list_built:
  assumes "rmap f xs = Inr ys" "rpcList ys = Inr l" "\<And>x y. f x = Inr y \<Longrightarrow> is_array y \<and> P y"
  shows "is_array l \<and> is_list P l"
  using rmap_built [OF assms(1,3)] rpcList_built [OF assms(2)] by auto

text \<open>Every list of the query builders is built by \<open>list_built\<close>, every record by \<open>rpcRecord_built\<close>.\<close>

lemma queryTerm_wf: "queryTerm v = Inr u \<Longrightarrow> is_array u \<and> query_term_wf u"
  by (auto simp: queryTerm_def query_term_wf_def res_simps split: option.splits if_splits
      dest!: atom_built toTerm_array rpcRecord_built)

lemma queryArgs_wf: "queryArgs v = Inr u \<Longrightarrow> is_array u \<and> is_list query_term_wf u"
  unfolding queryArgs_def res_simps using list_built [of queryTerm _ _ _ query_term_wf] queryTerm_wf by blast

lemma queryHead_wf: "queryHead v = Inr u \<Longrightarrow> is_array u \<and> query_head_wf u"
  by (auto simp: queryHead_def query_head_wf_def res_simps
      dest!: atom_built queryArgs_wf rpcRecord_built)

lemma queryClause_wf:
  assumes "queryClause v = Inr u"
  shows "is_array u \<and> query_clause_wf u"
proof -
  from assms obtain fs where fs: "plainObject v = Inr fs" by (auto simp: queryClause_def res_simps)
  note eq = assms [unfolded queryClause_def fs rbind.simps]
  consider "has_own fs ''rel''" | "\<not> has_own fs ''rel''" "has_own fs ''pred''"
    | "\<not> has_own fs ''rel''" "\<not> has_own fs ''pred''" "has_own fs ''fn''"
    using eq by (auto split: if_splits)
  then show ?thesis
  proof cases
    case 1
    with eq show ?thesis
      by (auto simp: query_clause_wf_def res_simps MAX_TERM_NODES_def dest!: atom_built queryArgs_wf rpcRecord_built)
  next
    case 2
    with eq show ?thesis
      by (auto simp: query_clause_wf_def res_simps MAX_TERM_NODES_def split: option.splits
          dest!: atom_built queryTerm_wf rpcRecord_built)
  next
    case 3
    with eq show ?thesis
      by (auto simp: query_clause_wf_def res_simps MAX_TERM_NODES_def dest!: atom_built queryArgs_wf rpcRecord_built)
  qed
qed

lemma queryRule_wf: "queryRule v = Inr u \<Longrightarrow> is_array u \<and> query_rule_wf u"
proof -
  assume "queryRule v = Inr u"
  then obtain h x xs cs body where q: "queryHead h = Inr x" "rmap queryClause xs = Inr cs" "rpcList cs = Inr body"
    "rpcRecord ''query/rule'' [x, body] = Inr u"
    by (auto simp: queryRule_def res_simps)
  have "is_array body \<and> is_list query_clause_wf body"
    using q(2,3) queryClause_wf by (rule list_built)
  then show ?thesis
    using rpcRecord_built [OF q(4)] queryHead_wf [OF q(1)] by (auto simp: query_rule_wf_def)
qed

lemma queryAggregate_wf:
  "queryAggregate v = Inr u \<Longrightarrow>
     is_array u \<and> is_record ''query/aggregate'' [is_atom ''keyword'', is_option (is_atom ''integer'')] u"
proof -
  assume "queryAggregate v = Inr u"
  then obtain fs n k a opt where q: "keywordTerm n = Inr k"
    "(if has_own fs ''arg'' then integerTerm (get_prop fs ''arg'') else Inr JNull) = Inr a"
    "rpcOption a = Inr opt" "rpcRecord ''query/aggregate'' [k, opt] = Inr u"
    by (auto simp: queryAggregate_def res_simps simp del: if_split)
  have "is_array opt \<and> is_option (is_atom ''integer'') opt"
  proof (rule rpcOption_built [OF q(3)])
    fix t assume t: "\<not> nullish a" "toTerm a = Inr t"
    with q(2) have "integerTerm (get_prop fs ''arg'') = Inr a" by (auto simp: nullish_def split: if_splits)
    with toTerm_array [OF t(2)] atom_built(2) show "is_atom ''integer'' t" by blast
  qed
  then show ?thesis using rpcRecord_built [OF q(4)] atom_built(3) [OF q(1)] by auto
qed

lemma queryHaving_wf:
  "queryHaving v = Inr u \<Longrightarrow> is_array u \<and> is_record ''query/having'' [is_atom ''keyword'', is_atom ''integer'', is_term] u"
  by (auto simp: queryHaving_def res_simps one_le_nodes MAX_TERM_NODES_def
      dest!: atom_built toTerm_array rpcRecord_built)

lemma integers_built: "rmap integerTerm xs = Inr ys \<Longrightarrow> rpcList ys = Inr l \<Longrightarrow>
    is_array l \<and> is_list (is_atom ''integer'') l"
  by (rule list_built) (auto dest: atom_built)

lemma queryFind_wf:
  assumes "queryFind v = Inr u"
  shows "is_array u \<and> query_find_wf u"
proof (cases "\<exists>s. v = JStr s")
  case True
  with assms show ?thesis
    by (auto simp: queryFind_def query_find_wf_def res_simps MAX_TERM_NODES_def dest!: atom_built rpcRecord_built)
next
  case False
  have "queryFind v = rbind (plainObject v) (\<lambda>fs.
      rbind (array_items (or_empty (get_prop fs ''group''))) (\<lambda>gs. rbind (rmap integerTerm gs) (\<lambda>grouping.
      rbind (required v ''agg'') (\<lambda>a. rbind (array_items a) (\<lambda>as. rbind (rmap queryAggregate as) (\<lambda>aggregates.
      rbind (array_items (or_empty (get_prop fs ''having''))) (\<lambda>hs. rbind (rmap queryHaving hs) (\<lambda>having.
      rbind (required v ''rel'') (\<lambda>r. rbind (queryName r) (\<lambda>n. rbind (stringTerm n) (\<lambda>s.
      rbind (rpcList grouping) (\<lambda>l1. rbind (rpcList aggregates) (\<lambda>l2. rbind (rpcList having) (\<lambda>l3.
        rpcRecord ''query/find-aggregate'' [s, l1, l2, l3]))))))))))))))"
    using False by (cases v) (simp_all add: queryFind_def)
  with assms obtain gs grouping as' aggregates hs having n s l1 l2 l3 where q:
    "rmap integerTerm gs = Inr grouping" "rmap queryAggregate as' = Inr aggregates"
    "rmap queryHaving hs = Inr having" "stringTerm n = Inr s"
    "rpcList grouping = Inr l1" "rpcList aggregates = Inr l2" "rpcList having = Inr l3"
    "rpcRecord ''query/find-aggregate'' [s, l1, l2, l3] = Inr u"
    by (auto simp: res_simps)
  have "is_array l1 \<and> is_list (is_atom ''integer'') l1" using q(1,5) by (rule integers_built)
  moreover note list_built [OF q(2,6), OF queryAggregate_wf] list_built [OF q(3,7), OF queryHaving_wf]
  ultimately show ?thesis
    using rpcRecord_built [OF q(8)] atom_built(1) [OF q(4)] by (auto simp: query_find_wf_def MAX_TERM_NODES_def)
qed

lemma queryOrder_wf:
  "queryOrder v = Inr u \<Longrightarrow> is_array u \<and> is_record ''query/order'' [is_atom ''integer'', is_atom ''keyword''] u"
  by (auto simp: queryOrder_def res_simps split: if_splits dest!: atom_built rpcRecord_built)

lemma queryStratum_wf:
  assumes "queryStratum v = Inr u"
  shows "is_array u \<and> is_record ''query/stratum'' [is_list query_rule_wf] u"
proof -
  from assms obtain rs us l where q: "rmap queryRule rs = Inr us" "rpcList us = Inr l"
    "rpcRecord ''query/stratum'' [l] = Inr u"
    by (auto simp: queryStratum_def res_simps)
  have "is_array l \<and> is_list query_rule_wf l" using q(1,2) queryRule_wf by (rule list_built)
  then show ?thesis using rpcRecord_built [OF q(3)] by auto
qed

lemma limit_built:
  assumes "plan_limit fs = Inr lim" "rpcOption lim = Inr opt"
  shows "is_array opt \<and> is_option (is_atom ''integer'') opt"
proof (rule rpcOption_built [OF assms(2)])
  fix t assume t: "\<not> nullish lim" "toTerm lim = Inr t"
  with assms(1) obtain z where "lim = JBigInt z" by (auto simp: plan_limit_def res_simps nullish_def split: if_splits)
  with t(2) have "integerTerm lim = Inr t" by (simp add: toTerm_def)
  then show "is_atom ''integer'' t" using atom_built(2) by blast
qed

lemma lowerQueryPlan_wf:
  assumes "lowerQueryPlan v = Inr u"
  shows "is_array u \<and> plan_wf u"
proof -
  from assms obtain fs where fs: "plainObject v = Inr fs" by (auto simp: lowerQueryPlan_def res_simps)
  note eq = assms [unfolded lowerQueryPlan_def fs rbind.simps]
  from eq have ne: "(has_own fs ''rules'' = has_own fs ''strata'') = False" by (auto split: if_splits)
  from eq [unfolded ne if_False] obtain strata orderBy order lim f find' ss l ord opt where q:
    "rmap queryOrder orderBy = Inr order"
    "plan_limit fs = Inr lim"
    "queryFind f = Inr find'" "rmap queryStratum strata = Inr ss" "rpcList ss = Inr l"
    "rpcList order = Inr ord" "rpcOption lim = Inr opt" "rpcRecord ''query/plan'' [find', l, ord, opt] = Inr u"
    by (auto simp: res_simps split: jsval.splits if_splits)
  have "is_array l \<and> is_list (is_record ''query/stratum'' [is_list query_rule_wf]) l"
    using q(4,5) queryStratum_wf by (rule list_built)
  moreover have "is_array ord \<and> is_list (is_record ''query/order'' [is_atom ''integer'', is_atom ''keyword'']) ord"
    using q(1,6) queryOrder_wf by (rule list_built)
  moreover have "is_array opt \<and> is_option (is_atom ''integer'') opt" using q(2,7) by (rule limit_built)
  moreover have "is_array find' \<and> query_find_wf find'" using q(3) by (rule queryFind_wf)
  ultimately show ?thesis
    using rpcRecord_built [OF q(8)] by (auto simp: plan_wf_def MAX_TERM_NODES_def)
qed

section \<open>A triple query is a query\<close>

text \<open>The query object a pattern abbreviates.\<close>

definition pattern_value :: "(jstr \<times> jsval) list \<Rightarrow> string \<Rightarrow> jsval" where
  "pattern_value fs n =
     (if nullish (get_prop fs n) then JObj [(js ''var'', js_lit n)] else get_prop fs n)"

definition pattern_names :: "string list" where
  "pattern_names = [''t1'', ''t2'', ''t3'']"

definition pattern_vars :: "(jstr \<times> jsval) list \<Rightarrow> string list" where
  "pattern_vars fs = filter (\<lambda>n. nullish (get_prop fs n)) pattern_names"

definition pattern_query :: "(jstr \<times> jsval) list \<Rightarrow> jsval" where
  "pattern_query fs =
     JObj [(js ''find'', js_lit ''out''),
       (js ''rules'', JArr [JObj
          [(js ''head'', JObj [(js ''rel'', js_lit ''out''),
              (js ''args'', JArr (map (pattern_value fs)
                 (if pattern_vars fs \<noteq> [] then pattern_vars fs else pattern_names)))]),
           (js ''body'', JArr [JObj [(js ''rel'', js_lit ''triple''),
              (js ''args'', JArr (map (pattern_value fs) pattern_names))]])]])]"

lemma lit_names [simp]: "name_ok ''t1''" "name_ok ''t2''" "name_ok ''t3''" "name_ok ''out''" "name_ok ''triple''"
  by (simp_all add: name_ok_def ascii_def)

lemma stringTerm_lit [simp]: "name_ok n \<Longrightarrow> stringTerm (js_lit n) = Inr (JArr [JStr (js ''string''), js_lit n])"
  using name_ok_text [of n] by (simp add: stringTerm_Inr_iff js_lit_def)

lemma queryName_lit [simp]: "name_ok n \<Longrightarrow> queryName (js_lit n) = Inr (js_lit n)"
  by (simp add: queryName_def js_lit_def name_ok_def)

lemma queryTerm_pattern:
  assumes "n \<in> set pattern_names" "nullish (get_prop fs n) \<or> object_fields (get_prop fs n) = None"
  shows "queryTerm (pattern_value fs n) = pattern_arg n (get_prop fs n)"
proof (cases "nullish (get_prop fs n)")
  case True
  have "name_ok n" using assms(1) by (auto simp: pattern_names_def)
  with True show ?thesis
    by (simp add: queryTerm_def pattern_value_def pattern_arg_def object_fields_def var_term_def)
next
  case False
  with assms(2) show ?thesis
    by (simp add: queryTerm_def pattern_value_def pattern_arg_def)
qed

lemma rmap_map_cong: "(\<And>x. x \<in> set xs \<Longrightarrow> f (g x) = h x) \<Longrightarrow> rmap f (map g xs) = rmap h xs"
  by (induction xs) auto

text \<open>What both build from the arguments.\<close>

definition triple_plan :: "jsval list \<Rightarrow> jsval list \<Rightarrow> jsval res" where
  "triple_plan headTerms args =
     rbind (rpcList headTerms) (\<lambda>hl.
     rbind (rpcRecord ''query/head'' [JArr [JStr (js ''string''), js_lit ''out''], hl]) (\<lambda>head'.
     rbind (rpcList args) (\<lambda>al.
     rbind (rpcRecord ''query/relation''
       [JArr [JStr (js ''string''), js_lit ''triple''], al, JArr [JStr (js ''boolean''), JBool False]]) (\<lambda>relation.
     rbind (rpcList [relation]) (\<lambda>body. rbind (rpcRecord ''query/rule'' [head', body]) (\<lambda>rule.
     rbind (rpcList [rule]) (\<lambda>rules. rbind (rpcRecord ''query/stratum'' [rules]) (\<lambda>stratum.
     rbind (rpcRecord ''query/find-relation'' [JArr [JStr (js ''string''), js_lit ''out'']]) (\<lambda>find'.
     rbind (rpcList [stratum]) (\<lambda>strata. rbind (rpcList []) (\<lambda>order.
     rbind (rpcOption JNull) (\<lambda>lim.
       rpcRecord ''query/plan'' [find', strata, order, lim]))))))))))))"

lemma tripleQuery_plan:
  "exactKeys pattern [''t1'', ''t2'', ''t3''] = Inr fs \<Longrightarrow>
   tripleQuery pattern =
     rbind (rmap (\<lambda>n. pattern_arg n (get_prop fs n)) pattern_names) (\<lambda>args.
     rbind (if pattern_vars fs \<noteq> [] then rmap var_term (pattern_vars fs) else Inr args) (\<lambda>headTerms.
       triple_plan headTerms args))"
proof -
  have b: "booleanTerm (JBool False) = Inr (JArr [JStr (js ''boolean''), JBool False])"
    by (simp add: booleanTerm_def)
  show "exactKeys pattern [''t1'', ''t2'', ''t3''] = Inr fs \<Longrightarrow> ?thesis"
    by (simp only: tripleQuery_def rbind.simps Let_def pattern_names_def [symmetric]
        pattern_vars_def [symmetric] triple_plan_def b stringTerm_lit lit_names)
qed

lemma lowerQueryPlan_pattern:
  "lowerQueryPlan (pattern_query fs) = Inr u \<longleftrightarrow>
     (\<exists>args hs. rmap queryTerm (map (pattern_value fs) pattern_names) = Inr args \<and>
        rmap queryTerm (map (pattern_value fs) (if pattern_vars fs \<noteq> [] then pattern_vars fs else pattern_names)) = Inr hs \<and>
        triple_plan hs args = Inr u)"
proof -
  have rule: "queryRule (JObj [(js ''head'', JObj [(js ''rel'', js_lit ''out''), (js ''args'', JArr xs)]),
      (js ''body'', JArr [JObj [(js ''rel'', js_lit ''triple''), (js ''args'', JArr ys)]])]) =
    rbind (rmap queryTerm xs) (\<lambda>hs. rbind (rpcList hs) (\<lambda>hl.
    rbind (rpcRecord ''query/head'' [JArr [JStr (js ''string''), js_lit ''out''], hl]) (\<lambda>head'.
    rbind (rmap queryTerm ys) (\<lambda>args. rbind (rpcList args) (\<lambda>al.
    rbind (rpcRecord ''query/relation''
       [JArr [JStr (js ''string''), js_lit ''triple''], al, JArr [JStr (js ''boolean''), JBool False]]) (\<lambda>relation.
    rbind (rpcList [relation]) (\<lambda>body. rpcRecord ''query/rule'' [head', body])))))))" for xs ys
    by (simp add: queryRule_def queryHead_def queryClause_def queryArgs_def required_def plainObject_def
        object_fields_def exactKeys_def array_items_def booleanTerm_def truthy_def rbind_assoc
        del: rpcList_Nil)
  have find': "queryFind (js_lit ''out'') = rpcRecord ''query/find-relation'' [JArr [JStr (js ''string''), js_lit ''out'']]"
    using queryName_lit [of "''out''"] stringTerm_lit [of "''out''"]
    by (simp add: queryFind_def js_lit_def)
  define xs where "xs = (if pattern_vars fs \<noteq> [] then pattern_vars fs else pattern_names)"
  show ?thesis
    unfolding pattern_query_def lowerQueryPlan_def triple_plan_def xs_def [symmetric]
    by (simp add: plainObject_def object_fields_def plan_strata_def plan_order_def plan_limit_def required_def
        find' queryStratum_def array_items_def rule rbind_assoc del: rpcList_Nil)
      (unfold res_simps, blast)
qed

lemma tripleQuery_lower:
  assumes "exactKeys pattern [''t1'', ''t2'', ''t3''] = Inr fs"
    "\<And>n. n \<in> set pattern_names \<Longrightarrow> nullish (get_prop fs n) \<or> object_fields (get_prop fs n) = None"
  shows "tripleQuery pattern = Inr u \<longleftrightarrow> lowerQueryPlan (pattern_query fs) = Inr u"
proof -
  have args: "rmap queryTerm (map (pattern_value fs) pattern_names) =
      rmap (\<lambda>n. pattern_arg n (get_prop fs n)) pattern_names"
    by (rule rmap_map_cong) (simp add: queryTerm_pattern assms(2))
  have vars: "rmap queryTerm (map (pattern_value fs) (pattern_vars fs)) = rmap var_term (pattern_vars fs)"
    by (rule rmap_map_cong) (auto simp: queryTerm_pattern assms(2) pattern_vars_def pattern_arg_def)
  show ?thesis
    unfolding tripleQuery_plan [OF assms(1)] lowerQueryPlan_pattern
    by (cases "pattern_vars fs = []") (auto simp: args vars res_simps)
qed

section \<open>Batches\<close>

definition is_kw :: "string list \<Rightarrow> jsval \<Rightarrow> bool" where
  "is_kw names v \<longleftrightarrow> v \<in> set (map kw names)"

definition action_wf :: "jsval \<Rightarrow> bool" where
  "action_wf = is_record ''rpc/action''
     [is_kw [''rpc/assert'', ''rpc/retract''], is_atom ''triple'', is_kw [''rpc/subject-existing'', ''rpc/subject-any'']]"

definition batch_wf :: "jsval \<Rightarrow> bool" where
  "batch_wf = is_record ''rpc/batch'' [is_list action_wf, is_option is_term]"

lemma policy_wf: "policy v = Inr u \<Longrightarrow> is_array u \<and> is_kw [''rpc/subject-existing'', ''rpc/subject-any''] u"
  by (auto simp: policy_def is_kw_def split: if_splits)

lemma actionPayload_wf:
  assumes "actionPayload v = Inr u"
  shows "is_array u \<and> action_wf u"
proof -
  from assms obtain fs where fs: "exactKeys v [''op'', ''proposition'', ''t1'', ''t2'', ''t3'', ''existing''] = Inr fs"
    by (auto simp: actionPayload_def res_simps)
  note eq = assms [unfolded actionPayload_def fs rbind.simps Let_def]
  have op: "get_prop fs ''op'' = js_lit ''assert'' \<or> get_prop fs ''op'' = js_lit ''retract''"
    using eq by (auto split: option.splits if_splits)
  define op where "op = (if get_prop fs ''op'' = js_lit ''assert'' then ''rpc/assert'' else ''rpc/retract'')"
  have "name_ok op" by (simp add: op_def)
  then obtain p pol where q: "is_triple_array p" "policy (get_prop fs ''existing'') = Inr pol"
    "rpcRecord ''rpc/action'' [kw op, p, pol] = Inr u"
    using eq op by (auto simp: res_simps op_def simp del: if_split_asm split: if_split_asm)
  have "is_array p" using q(1) by (auto simp: is_triple_array_def is_array_def split: jsval.splits)
  moreover from this have "is_term p" "u = record_val ''rpc/action'' [kw op, p, pol]"
    using rpcRecord_built [OF q(3)] policy_wf [OF q(2)] by simp_all
  moreover from this have "is_atom ''triple'' p"
    using q(1) by (simp add: is_atom_def is_triple_array_def)
  ultimately show ?thesis
    using policy_wf [OF q(2)] by (auto simp: action_wf_def is_kw_def op_def MAX_TERM_NODES_def)
qed

lemma prepareBatch_wf:
  assumes "prepareBatch actions options allow = Inr p"
  shows "batch_wf (bt_payload p) \<and> 1 \<le> bt_actionCount p \<and> bt_actionCount p \<le> 247 \<and>
    (\<exists>as l fence. actions = JArr as \<and> bt_actionCount p = length as \<and> length l = length as \<and>
       bt_payload p = record_val ''rpc/batch'' [list_val l, fence])"
proof -
  from assms obtain as where as: "actions = JArr as" "as \<noteq> []" "length as \<le> 247"
    by (auto simp: prepareBatch_def FRAMRPC_MAX_BATCH_ACTIONS_def split: jsval.splits list.splits if_splits)
  from assms as obtain v vs where cons: "as = v # vs" by (cases as) auto
  from assms as cons obtain fs ps l fence where q:
    "rmap actionPayload as = Inr ps" "rpcList ps = Inr l" "rpcOption (get_prop fs ''fence'') = Inr fence"
    "rpcRecord ''rpc/batch'' [l, fence] = Inr (bt_payload p)" "bt_actionCount p = length as"
    by (auto simp: prepareBatch_def Let_def res_simps FRAMRPC_MAX_BATCH_ACTIONS_def simp del: rmap.simps)
  have ps: "list_all is_array ps \<and> list_all action_wf ps" using q(1) actionPayload_wf by (rule rmap_built)
  then have l: "l = list_val ps \<and> length ps \<le> MAX_TERM_NODES" using rpcList_built [OF q(2)] by blast
  have "is_array fence \<and> is_option is_term fence"
    using q(3) toTerm_array by (intro rpcOption_built) blast+
  moreover from this have "bt_payload p = record_val ''rpc/batch'' [l, fence]"
    using rpcRecord_built [OF q(4)] l by simp
  ultimately show ?thesis
    using ps l as q(5) rmap_length [OF q(1)] cons
    by (auto simp: batch_wf_def MAX_TERM_NODES_def)
qed

end
