(* ===== verification/Client.thy ===== *)
theory Client
  imports Query
begin

text \<open>
  The client of \<^verbatim>\<open>clients/bun/framrpc-core.mjs\<close>: \<open>framClient\<close> with its request counter and methods,
  \<open>exchangeWithTransport\<close>, and the operator's \<open>framTransportCheckpoint\<close>. The transport is outside
  the repository: what it does is an \<open>outcome\<close> of the race the code awaits.
\<close>

section \<open>Entries\<close>

definition operationEntry :: "string \<Rightarrow> jsval \<Rightarrow> string res" where
  "operationEntry operation options =
     (if operation = ''rpc/checkpoint'' \<or> operation \<in> set MUTATION_OPERATIONS then Inr ''transact''
      else if operation = ''rpc/occurrences'' then Inr ''snapshot''
      else if operation = ''rpc/query'' then
        rbind (own_of options ''asOf'') (\<lambda>a.
        if a then Inr ''snapshot''
        else rbind (own_of options ''since'') (\<lambda>s. Inr (if s then ''snapshot'' else ''query'')))
      else Inr ''query'')"

section \<open>One exchange\<close>

text \<open>The \<open>signal\<close> option: absent, no \<open>AbortSignal\<close>, or a signal with its \<open>aborted\<close> flag.\<close>

datatype signal = NoSignal | BadSignal | Signal bool

text \<open>
  How the race between the transport, the caller's abort and the timer ends. A transport may return
  any value (\<open>None\<close>: not a \<open>Uint8Array\<close>) or throw.
\<close>

datatype outcome =
    Returned "byte list option"
  | Threw js_error
  | CallerAborted
  | TimedOut

fun client_error :: "js_error \<Rightarrow> bool" where
  "client_error TransportError = True"
| "client_error (ProtocolError c) = True"
| "client_error _ = False"

text \<open>The \<open>catch\<close> block: any other exception is wrapped.\<close>

definition wrap_error :: "'a res \<Rightarrow> 'a res" where
  "wrap_error m = (case m of Inl e \<Rightarrow> Inl (if client_error e then e else TransportError) | Inr x \<Rightarrow> Inr x)"

definition exchangeWithTransport :: "signal \<Rightarrow> expected \<Rightarrow> outcome \<Rightarrow> response res" where
  "exchangeWithTransport sig x outc =
     (case sig of
        BadSignal \<Rightarrow> fail ''client/invalid-signal''
      | Signal True \<Rightarrow> Inl TransportError
      | _ \<Rightarrow> wrap_error (case outc of
          Returned fr \<Rightarrow> decodeResponseFrame fr x
        | Threw e \<Rightarrow> Inl e
        | CallerAborted \<Rightarrow> Inl TransportError
        | TimedOut \<Rightarrow> Inl TransportError))"

section \<open>The methods\<close>

datatype method_call =
    MVersion jsval
  | MStatus jsval
  | MValidate jsval
  | MOccurrences jsval
  | MScan jsval jsval
  | MQuery jsval jsval
  | MAssert jsval jsval jsval jsval
  | MRetract jsval jsval jsval jsval
  | MBatch jsval jsval
  | MLeaseAcquire jsval jsval jsval jsval
  | MLeaseRenew jsval jsval jsval
  | MLeaseRelease jsval jsval
  | MLeaseCheck jsval jsval

record call_args =
  ca_operation :: string
  ca_payload :: jsval
  ca_options :: jsval
  ca_preflight :: jsval
  ca_actionCount :: nat

definition plain_call :: "string \<Rightarrow> jsval \<Rightarrow> jsval res \<Rightarrow> call_args res" where
  "plain_call op options m =
     rbind m (\<lambda>payload.
       Inr \<lparr>ca_operation = op, ca_payload = payload, ca_options = options, ca_preflight = JNull, ca_actionCount = 0\<rparr>)"

text \<open>A missing \<open>options\<close> argument becomes an empty object.\<close>

definition default_options :: "jsval \<Rightarrow> jsval" where
  "default_options v = (if v = JUndef then JObj [] else v)"

definition scanPayload :: "jsval \<Rightarrow> jsval res" where
  "scanPayload pattern =
     rbind (exactKeys (default_options pattern) [''t1'', ''t2'', ''t3'']) (\<lambda>fs.
     rbind (rpcOption (get_prop fs ''t1'')) (\<lambda>a. rbind (rpcOption (get_prop fs ''t2'')) (\<lambda>b.
     rbind (rpcOption (get_prop fs ''t3'')) (\<lambda>c. rpcRecord ''rpc/triple-pattern'' [a, b, c]))))"

definition queryPayload :: "jsval \<Rightarrow> jsval \<Rightarrow> jsval res" where
  "queryPayload query options =
     rbind (if is_array query then toTerm query else lowerQueryPlan query) (\<lambda>plan.
     rbind (rawRecordFields plan ''query/plan'' 4) (\<lambda>_.
     rbind (querySnapshot options) (\<lambda>snap. rpcRecord ''query/request'' [plan, snap])))"

fun method_args :: "method_call \<Rightarrow> call_args res" where
  "method_args (MVersion opts) = plain_call ''rpc/version'' (default_options opts) (Inr (kw ''rpc/unit''))"
| "method_args (MStatus opts) = plain_call ''rpc/status'' (default_options opts) (Inr (kw ''rpc/unit''))"
| "method_args (MValidate opts) = plain_call ''rpc/validate'' (default_options opts) (Inr (kw ''rpc/unit''))"
| "method_args (MOccurrences opts) = plain_call ''rpc/occurrences'' (default_options opts) (Inr (kw ''rpc/unit''))"
| "method_args (MScan pattern opts) = plain_call ''rpc/scan'' (default_options opts) (scanPayload pattern)"
| "method_args (MQuery q opts) =
     plain_call ''rpc/query'' (default_options opts) (queryPayload q (default_options opts))"
| "method_args (MAssert a b c opts) =
     plain_call ''rpc/assert'' (default_options opts)
       (rbind (tripleTerm a b c) (\<lambda>t. writePayload t (default_options opts)))"
| "method_args (MRetract a b c opts) =
     plain_call ''rpc/retract'' (default_options opts)
       (rbind (tripleTerm a b c) (\<lambda>t. writePayload t (default_options opts)))"
| "method_args (MBatch actions opts) =
     rbind (prepareBatch actions (default_options opts) True) (\<lambda>p.
       Inr \<lparr>ca_operation = ''rpc/batch'', ca_payload = bt_payload p, ca_options = bt_options p,
             ca_preflight = bt_preflight p, ca_actionCount = bt_actionCount p\<rparr>)"
| "method_args (MLeaseAcquire resource holder ttl opts) =
     plain_call ''rpc/lease-acquire'' (default_options opts)
       (rbind (toTerm resource) (\<lambda>r. rbind (toTerm holder) (\<lambda>h. rbind (integerTerm ttl) (\<lambda>t.
          rpcRecord ''lease/acquire'' [r, h, t]))))"
| "method_args (MLeaseRenew fence ttl opts) =
     plain_call ''rpc/lease-renew'' (default_options opts)
       (rbind (toTerm fence) (\<lambda>f. rbind (integerTerm ttl) (\<lambda>t. rpcRecord ''lease/renew'' [f, t])))"
| "method_args (MLeaseRelease fence opts) =
     plain_call ''rpc/lease-release'' (default_options opts) (toTerm fence)"
| "method_args (MLeaseCheck fence opts) =
     plain_call ''rpc/lease-check'' (default_options opts) (toTerm fence)"

section \<open>A call\<close>

record sent =
  sent_frame :: "byte list"
  sent_expected :: expected
  sent_entry :: string
  sent_timeout :: int

record client =
  cl_space :: jstr
  requestTimeoutMs :: int
  requestCounter :: int

text \<open>\<open>framClient\<close>: the argument checks and the fresh counter.\<close>

definition framClient :: "bool \<Rightarrow> jsval \<Rightarrow> jsval \<Rightarrow> client res" where
  "framClient transportIsFunction space timeout =
     (if \<not> transportIsFunction then fail ''client/invalid-transport''
      else case space of
        JStr s \<Rightarrow>
          if s = [] then fail ''client/invalid-space''
          else rbind (strictUtf8 MAX_SPACE_BYTES space) (\<lambda>_.
            case timeout of
              JNum b \<Rightarrow>
                (case safe_int b of
                   Some z \<Rightarrow> if z < 1 then fail ''client/invalid-timeout''
                             else Inr \<lparr>cl_space = s, requestTimeoutMs = z, requestCounter = 1\<rparr>
                 | None \<Rightarrow> fail ''client/invalid-timeout'')
            | _ \<Rightarrow> fail ''client/invalid-timeout'')
      | _ \<Rightarrow> fail ''client/invalid-space'')"

text \<open>
  What \<open>call\<close> does up to the exchange. The counter moves before anything can throw.
\<close>

definition prepareCall :: "client \<Rightarrow> call_args \<Rightarrow> sent res" where
  "prepareCall c a =
     rbind (encodeRequest (requestCounter c) (JStr (cl_space c)) (ca_operation a) (ca_payload a)
             (ca_options a) OPERATIONS) (\<lambda>e.
     rbind (if ca_preflight a \<noteq> JNull
            then requireMatchingPreflight (ca_preflight a) (batchPreflight e (ca_actionCount a))
            else Inr ()) (\<lambda>_.
     rbind (own_of (ca_options a) ''timeoutMs'') (\<lambda>hasTimeout.
     rbind (if hasTimeout then rbind (member (ca_options a) ''timeoutMs'') to_bigint else Inr (- 1000)) (\<lambda>t.
     rbind (operationEntry (ca_operation a) (ca_options a)) (\<lambda>entry.
       Inr \<lparr>sent_frame = frame e,
             sent_expected = \<lparr>x_requestId = requestCounter c, x_space = cl_space c, x_operation = ca_operation a\<rparr>,
             sent_entry = entry,
             sent_timeout = max (requestTimeoutMs c) (t + 1000)\<rparr>)))))"

definition call :: "client \<Rightarrow> method_call \<Rightarrow> signal \<Rightarrow> outcome \<Rightarrow> client \<times> public_response res" where
  "call c m sig outc =
     (case method_args m of
        Inl e \<Rightarrow> (c, Inl e)
      | Inr a \<Rightarrow>
          (c\<lparr>requestCounter := nextRequestId (requestCounter c)\<rparr>,
           rbind (prepareCall c a) (\<lambda>s.
           rbind (exchangeWithTransport sig (sent_expected s) outc) (\<lambda>rsp.
             publicResponse (ca_operation a) rsp))))"

text \<open>\<open>preflightBatch\<close>: the size of a batch with request id 0, without sending it.\<close>

definition preflightBatch :: "client \<Rightarrow> jsval \<Rightarrow> jsval \<Rightarrow> preflight res" where
  "preflightBatch c actions options =
     rbind (prepareBatch actions (default_options options) False) (\<lambda>p.
     rbind (encodeRequest 0 (JStr (cl_space c)) ''rpc/batch'' (bt_payload p) (bt_options p) OPERATIONS) (\<lambda>e.
       Inr (batchPreflight e (bt_actionCount p))))"

text \<open>The operator's checkpoint: one fixed operation, request id 1.\<close>

definition framTransportCheckpoint :: "client \<Rightarrow> outcome \<Rightarrow> checkpoint res" where
  "framTransportCheckpoint c outc =
     rbind (encodeRequest 1 (JStr (cl_space c)) ''rpc/checkpoint'' (kw ''rpc/unit'') (JObj []) NATIVE_OPERATOR_OPERATIONS) (\<lambda>e.
     rbind (exchangeWithTransport NoSignal
              \<lparr>x_requestId = 1, x_space = cl_space c, x_operation = ''rpc/checkpoint''\<rparr> outc)
       checkpointResult)"

section \<open>Request ids\<close>

lemma nextRequestId_mod: "1 \<le> n \<Longrightarrow> n \<le> I64_MAX \<Longrightarrow> nextRequestId n = n mod I64_MAX + 1"
  by (auto simp: nextRequestId_def I64_MAX_def)

lemma nextRequestId_iterate:
  "1 \<le> n \<Longrightarrow> n \<le> I64_MAX \<Longrightarrow> (nextRequestId ^^ k) n = (n - 1 + int k) mod I64_MAX + 1"
proof (induction k)
  case 0
  then show ?case by (simp add: I64_MAX_def)
next
  case (Suc k)
  let ?m = "(n - 1 + int k) mod I64_MAX"
  have "0 \<le> ?m" "?m < I64_MAX" by (simp_all add: I64_MAX_def)
  then have "nextRequestId (?m + 1) = (?m + 1) mod I64_MAX + 1" by (intro nextRequestId_mod) simp_all
  also have "(?m + 1) mod I64_MAX = (n - 1 + int k + 1) mod I64_MAX" by (simp add: mod_add_left_eq)
  finally show ?case using Suc by (simp add: algebra_simps)
qed

lemma nextRequestId_distinct:
  assumes "1 \<le> n" "n \<le> I64_MAX" "i < j" "int j - int i < I64_MAX"
  shows "(nextRequestId ^^ i) n \<noteq> (nextRequestId ^^ j) n"
proof
  assume "(nextRequestId ^^ i) n = (nextRequestId ^^ j) n"
  then have "(n - 1 + int j) mod I64_MAX = (n - 1 + int i) mod I64_MAX"
    using assms(1,2) by (simp add: nextRequestId_iterate)
  then have "I64_MAX dvd (n - 1 + int j) - (n - 1 + int i)" by (simp only: mod_eq_dvd_iff)
  then have "I64_MAX dvd int j - int i" by simp
  then have "I64_MAX \<le> int j - int i" using assms(3) by (intro zdvd_imp_le) simp_all
  with assms(4) show False by simp
qed

section \<open>What a call sends and accepts\<close>

lemma prepareCall_Inr:
  assumes "prepareCall c a = Inr s"
  shows "\<exists>r. request_valid OPERATIONS r \<and> rq_space r = cl_space c \<and> rq_operation r = ca_operation a \<and>
    sent_frame s = request_frame (requestCounter c) r \<and>
    sent_expected s = \<lparr>x_requestId = requestCounter c, x_space = cl_space c, x_operation = ca_operation a\<rparr> \<and>
    operationEntry (ca_operation a) (ca_options a) = Inr (sent_entry s) \<and> requestTimeoutMs c \<le> sent_timeout s"
proof -
  from assms obtain e where e: "encodeRequest (requestCounter c) (JStr (cl_space c)) (ca_operation a) (ca_payload a)
      (ca_options a) OPERATIONS = Inr e" "sent_frame s = frame e"
    and s: "sent_expected s = \<lparr>x_requestId = requestCounter c, x_space = cl_space c, x_operation = ca_operation a\<rparr>"
    "operationEntry (ca_operation a) (ca_options a) = Inr (sent_entry s)" "requestTimeoutMs c \<le> sent_timeout s"
    by (auto simp: prepareCall_def res_simps)
  from encodeRequest_Inr [OF e(1)] obtain r where r: "request_valid OPERATIONS r"
    "asks (JStr (cl_space c)) (ca_operation a) (ca_payload a) (ca_options a) r"
    "e = encoded_request (requestCounter c) r" by auto
  with s e(2) show ?thesis by (intro exI [of _ r]) (simp add: asks_def encoded_request_def)
qed

lemma exchange_accepts:
  "exchangeWithTransport sig x outc = Inr rsp \<Longrightarrow>
     \<exists>bs. outc = Returned (Some bs) \<and> sig \<noteq> BadSignal \<and> sig \<noteq> Signal True \<and> decodeResponseFrame (Some bs) x = Inr rsp"
proof -
  assume a: "exchangeWithTransport sig x outc = Inr rsp"
  then have s: "sig \<noteq> BadSignal" "sig \<noteq> Signal True" by (auto simp: exchangeWithTransport_def)
  with a have "wrap_error (case outc of Returned fr \<Rightarrow> decodeResponseFrame fr x | Threw e \<Rightarrow> Inl e
      | CallerAborted \<Rightarrow> Inl TransportError | TimedOut \<Rightarrow> Inl TransportError) = Inr rsp"
    by (auto simp: exchangeWithTransport_def split: signal.splits bool.splits)
  then obtain fr where "outc = Returned fr" "decodeResponseFrame fr x = Inr rsp"
    by (auto simp: wrap_error_def split: sum.splits outcome.splits)
  with s decodeResponseFrame_safe show ?thesis by (cases fr) fastforce+
qed

lemma call_accepts:
  assumes "call c m sig outc = (c', Inr pb)"
  shows "\<exists>bs a. outc = Returned (Some bs) \<and> method_args m = Inr a \<and>
    le_int (bytes_at 18 8 bs) = requestCounter c \<and> length bs = 26 + le_nat (bytes_at 14 4 bs) \<and>
    rs_space (pb_response pb) = JStr (cl_space c) \<and> rs_operation (pb_response pb) = JStr (js (ca_operation a)) \<and>
    rs_error (pb_response pb) = None \<and> requestCounter c' = nextRequestId (requestCounter c)"
proof -
  from assms obtain a where a: "method_args m = Inr a" by (auto simp: call_def split: sum.splits)
  with assms obtain s rsp where s: "prepareCall c a = Inr s" "exchangeWithTransport sig (sent_expected s) outc = Inr rsp"
    "publicResponse (ca_operation a) rsp = Inr pb" "c' = c\<lparr>requestCounter := nextRequestId (requestCounter c)\<rparr>"
    by (auto simp: call_def res_simps)
  from prepareCall_Inr [OF s(1)] have x: "sent_expected s =
    \<lparr>x_requestId = requestCounter c, x_space = cl_space c, x_operation = ca_operation a\<rparr>" by auto
  from exchange_accepts [OF s(2)] obtain bs where bs: "outc = Returned (Some bs)"
    "decodeResponseFrame (Some bs) (sent_expected s) = Inr rsp" by blast
  have "rs_error rsp = None" "pb_response pb = rsp"
    using s(3) by (auto simp: publicResponse_def res_simps split: option.splits)
  with decodeResponseFrame_safe [OF bs(2)] x bs(1) a s(4) show ?thesis by auto
qed

lemma call_reply:
  assumes "method_args m = Inr a" "prepareCall c a = Inr s" "sig = NoSignal \<or> sig = Signal False"
    "reply_ok rep" "rp_space rep = cl_space c" "rp_operation rep = js (ca_operation a)"
    "1 \<le> requestCounter c" "requestCounter c \<le> I64_MAX"
  shows "call c m sig (Returned (Some (reply_frame (requestCounter c) rep))) =
    (c\<lparr>requestCounter := nextRequestId (requestCounter c)\<rparr>, publicResponse (ca_operation a) (reply_seen rep))"
proof -
  have "i64_ok (requestCounter c)" using assms(7,8) by (simp add: i64_ok_def I64_MIN_def)
  moreover have "sent_expected s = \<lparr>x_requestId = requestCounter c, x_space = rp_space rep, x_operation = ca_operation a\<rparr>"
    using prepareCall_Inr [OF assms(2)] assms(5) by auto
  ultimately have "decodeResponseFrame (Some (reply_frame (requestCounter c) rep)) (sent_expected s) = Inr (reply_seen rep)"
    using assms(4,6) by (intro decodeResponseFrame_reply) simp_all
  with assms(1-3) show ?thesis
    by (auto simp: call_def exchangeWithTransport_def wrap_error_def)
qed

section \<open>A preflighted batch\<close>

definition describes :: "jsval \<Rightarrow> preflight \<Rightarrow> bool" where
  "describes v p \<longleftrightarrow>
     (\<exists>a b c d e. v = JObj [(js ''actionCount'', JNum a), (js ''requestBytes'', JNum b), (js ''bodyBytes'', JNum c),
          (js ''termCount'', JNum d), (js ''maxTermDepth'', JNum e)] \<and>
        safe_int a = Some (int (actionCount p)) \<and> safe_int b = Some (int (pre_requestBytes p)) \<and>
        safe_int c = Some (int (pre_bodyBytes p)) \<and> safe_int d = Some (int (pre_termCount p)) \<and>
        safe_int e = Some (int (pre_maxTermDepth p)))"

lemma safe_int_num_int: "safe_int b = Some z \<Longrightarrow> num_int b = Some z"
  by (auto simp: safe_int_def split: option.splits if_splits)

lemma requireMatchingPreflight_describes: "describes v p \<Longrightarrow> requireMatchingPreflight v p = Inr ()"
  by (auto simp: describes_def requireMatchingPreflight_def expectedBatchPreflight_def object_fields_def
      BATCH_PREFLIGHT_FIELDS_def nonneg_safe_def equals_count_def safe_int_num_int)

lemma requireMatchingPreflight_exact:
  assumes "describes v p" "requireMatchingPreflight v q = Inr ()"
  shows "q = p"
proof -
  from assms have "actionCount q = actionCount p \<and> pre_requestBytes q = pre_requestBytes p \<and>
      pre_bodyBytes q = pre_bodyBytes p \<and> pre_termCount q = pre_termCount p \<and> pre_maxTermDepth q = pre_maxTermDepth p"
    by (auto simp: describes_def requireMatchingPreflight_def expectedBatchPreflight_def object_fields_def
        BATCH_PREFLIGHT_FIELDS_def nonneg_safe_def equals_count_def safe_int_num_int res_simps)
  then show ?thesis by simp
qed

lemma batchPreflight_id: "batchPreflight (with_request_id i e) n = batchPreflight e n"
  if "26 \<le> length (frame e)"
  using that by (simp add: batchPreflight_def with_request_id_def)

lemma encodeRequest_frame_length: "encodeRequest i sp op pl opts ops = Inr e \<Longrightarrow> 26 \<le> length (frame e)"
  using encodeRequest_Inr [of i sp op pl opts ops e] by (auto simp: request_frame_def encoded_request_def)

text \<open>
  A batch whose \<open>preflight\<close> option describes the result of \<open>preflightBatch\<close> passes the check at every
  request id, and the frame it sends has the size that was announced.
\<close>

lemma preflight_then_batch:
  assumes "prepareBatch actions options False = Inr p"
    "encodeRequest 0 (JStr (cl_space c)) ''rpc/batch'' (bt_payload p) (bt_options p) OPERATIONS = Inr e"
    "describes v (batchPreflight e (bt_actionCount p))"
  shows "\<exists>s. prepareCall c \<lparr>ca_operation = ''rpc/batch'', ca_payload = bt_payload p, ca_options = bt_options p,
      ca_preflight = v, ca_actionCount = bt_actionCount p\<rparr> = Inr s \<and>
    length (sent_frame s) = pre_requestBytes (batchPreflight e (bt_actionCount p)) \<and>
    sent_entry s = ''transact'' \<and> sent_timeout s = max (requestTimeoutMs c) 0"
proof -
  let ?e = "with_request_id (requestCounter c) e"
  have "encodeRequest (requestCounter c) (JStr (cl_space c)) ''rpc/batch'' (bt_payload p) (bt_options p) OPERATIONS = Inr ?e"
    using encodeRequest_id [of "requestCounter c" _ _ _ _ _ 0] assms(2) by simp
  moreover have len: "26 \<le> length (frame e)" using assms(2) by (rule encodeRequest_frame_length)
  moreover have "requireMatchingPreflight v (batchPreflight ?e (bt_actionCount p)) = Inr ()"
    using assms(3) len by (simp add: batchPreflight_id requireMatchingPreflight_describes)
  moreover have "own_of (bt_options p) ''timeoutMs'' = Inr False"
    using assms(1) by (auto simp: prepareBatch_def Let_def res_simps own_of_def nullish_def
        split: jsval.splits list.splits if_splits)
  moreover have "length (frame ?e) = pre_requestBytes (batchPreflight e (bt_actionCount p))"
    using len by (simp add: with_request_id_def batchPreflight_def)
  ultimately show ?thesis
    by (simp add: prepareCall_def operationEntry_def MUTATION_OPERATIONS_def)
qed

text \<open>The object \<open>preflightBatch\<close> returns, and what a later \<open>batch\<close> does with it as its \<open>preflight\<close> option.\<close>

definition preflight_object :: "preflight \<Rightarrow> jsval" where
  "preflight_object p = JObj
     [(js ''actionCount'', JNum (num_of_nat (actionCount p))),
      (js ''requestBytes'', JNum (num_of_nat (pre_requestBytes p))),
      (js ''bodyBytes'', JNum (num_of_nat (pre_bodyBytes p))),
      (js ''termCount'', JNum (num_of_nat (pre_termCount p))),
      (js ''maxTermDepth'', JNum (num_of_nat (pre_maxTermDepth p)))]"

definition small_counts :: "preflight \<Rightarrow> bool" where
  "small_counts p \<longleftrightarrow> actionCount p < 2 ^ 53 \<and> pre_requestBytes p < 2 ^ 53 \<and> pre_bodyBytes p < 2 ^ 53 \<and>
     pre_termCount p < 2 ^ 53 \<and> pre_maxTermDepth p < 2 ^ 53"

lemma describes_object: "small_counts p \<Longrightarrow> describes (preflight_object p) p"
  by (simp add: describes_def preflight_object_def small_counts_def safe_int_num_of_nat)

lemma preflightBatch_small:
  assumes "preflightBatch c actions options = Inr p"
  shows "small_counts p \<and> 1 \<le> actionCount p \<and> actionCount p \<le> 247 \<and>
    pre_requestBytes p = 26 + pre_bodyBytes p \<and> pre_bodyBytes p \<le> MAX_BODY_BYTES"
proof -
  from assms obtain b e where b: "prepareBatch actions (default_options options) False = Inr b"
    "encodeRequest 0 (JStr (cl_space c)) ''rpc/batch'' (bt_payload b) (bt_options b) OPERATIONS = Inr e"
    "p = batchPreflight e (bt_actionCount b)"
    by (auto simp: preflightBatch_def res_simps)
  obtain r where r: "request_valid OPERATIONS r" "e = encoded_request 0 r"
    using b(2) by (auto simp: encodeRequest_iff)
  have "foldr max (map term_depth ts) 0 \<le> 256" if "\<forall>t \<in> set ts. term_ok t" for ts
    using that by (induction ts) (auto simp: term_ok_def MAX_TERM_DEPTH_def)
  from this [of "request_terms r"] r have "maxTermDepth e \<le> 256"
    by (simp add: request_valid_def encoded_request_def)
  moreover have "length (frame e) = 26 + bodyBytes e" "bodyBytes e \<le> MAX_BODY_BYTES" "termCount e \<le> 65536"
    using r by (auto simp: request_valid_def encoded_request_def request_frame_def MAX_TERM_NODES_def)
  moreover have "1 \<le> bt_actionCount b" "bt_actionCount b \<le> 247" using prepareBatch_wf [OF b(1)] by auto
  ultimately show ?thesis
    by (simp add: b(3) batchPreflight_def small_counts_def MAX_BODY_BYTES_def)
qed

lemma prepareBatch_preflight:
  assumes "prepareBatch actions (JObj fs) False = Inr p" "js ''preflight'' \<notin> fst ` set fs"
  shows "prepareBatch actions (JObj (fs @ [(js ''preflight'', v)])) True = Inr (p\<lparr>bt_preflight := v\<rparr>)"
proof -
  have own: "has_own (fs @ [(js ''preflight'', v)]) k = has_own fs k" "get_prop (fs @ [(js ''preflight'', v)]) k = get_prop fs k"
    if "k \<noteq> ''preflight''" for k
    using that by (auto simp: has_own_def get_prop_def map_add_def split: option.splits)
  have pre: "has_own (fs @ [(js ''preflight'', v)]) ''preflight''" "get_prop (fs @ [(js ''preflight'', v)]) ''preflight'' = v"
    using assms(2) map_of_eq_None_iff [of fs "js ''preflight''"] by (simp_all add: has_own_def get_prop_def map_add_def)
  obtain a as where as: "actions = JArr (a # as)" "\<not> FRAMRPC_MAX_BATCH_ACTIONS < length (a # as)"
    using assms(1) by (auto simp: prepareBatch_def split: jsval.splits list.splits if_splits)
  have keys: "list_all (\<lambda>(k, _). k \<in> set (map js [''expectedVersion'', ''signal'', ''fence''])) fs"
    using assms(1) as by (auto simp: prepareBatch_def exactKeys_def plainObject_def object_fields_def res_simps split: if_splits)
  have all: "list_all (\<lambda>(k, _). k \<in> set (map js [''expectedVersion'', ''signal'', ''fence'', ''preflight'']))
      (fs @ [(js ''preflight'', v)])"
    using keys by (auto simp: list_all_iff)
  have k: "exactKeys (JObj fs) [''expectedVersion'', ''signal'', ''fence''] = Inr fs"
    "exactKeys (JObj (fs @ [(js ''preflight'', v)])) [''expectedVersion'', ''signal'', ''fence'', ''preflight''] =
       Inr (fs @ [(js ''preflight'', v)])"
    unfolding exactKeys_def plainObject_def object_fields_def by (simp_all only: keys all jsval.case option.case rbind.simps if_True)
  show ?thesis
    using assms(1) as
    by (auto simp: prepareBatch_def k own pre res_simps Let_def simp del: rmap.simps)
qed

lemma preflight_object_accepted:
  assumes "preflightBatch c actions (JObj fs) = Inr p" "js ''preflight'' \<notin> fst ` set fs"
  shows "\<exists>a s. method_args (MBatch actions (JObj (fs @ [(js ''preflight'', preflight_object p)]))) = Inr a \<and>
    prepareCall c a = Inr s \<and> length (sent_frame s) = pre_requestBytes p \<and> sent_entry s = ''transact''"
proof -
  from assms(1) obtain b e where b: "prepareBatch actions (JObj fs) False = Inr b"
    "encodeRequest 0 (JStr (cl_space c)) ''rpc/batch'' (bt_payload b) (bt_options b) OPERATIONS = Inr e"
    "p = batchPreflight e (bt_actionCount b)"
    by (auto simp: preflightBatch_def default_options_def res_simps)
  have "small_counts p" using preflightBatch_small [OF assms(1)] by blast
  then have "describes (preflight_object p) (batchPreflight e (bt_actionCount b))"
    using describes_object b(3) by blast
  from preflight_then_batch [OF b(1,2) this] prepareBatch_preflight [OF b(1) assms(2), of "preflight_object p"]
  show ?thesis by (auto simp: default_options_def b(3))
qed

lemma preflight_object_rejected:
  assumes "preflightBatch c actions (JObj fs) = Inr p" "js ''preflight'' \<notin> fst ` set fs" "small_counts q" "q \<noteq> p"
  shows "\<exists>a. method_args (MBatch actions (JObj (fs @ [(js ''preflight'', preflight_object q)]))) = Inr a \<and>
    prepareCall c a = fail ''client/preflight-mismatch''"
proof -
  from assms(1) obtain b e where b: "prepareBatch actions (JObj fs) False = Inr b"
    "encodeRequest 0 (JStr (cl_space c)) ''rpc/batch'' (bt_payload b) (bt_options b) OPERATIONS = Inr e"
    "p = batchPreflight e (bt_actionCount b)"
    by (auto simp: preflightBatch_def default_options_def res_simps)
  let ?e = "with_request_id (requestCounter c) e"
  have e: "encodeRequest (requestCounter c) (JStr (cl_space c)) ''rpc/batch'' (bt_payload b) (bt_options b) OPERATIONS = Inr ?e"
    using encodeRequest_id [of "requestCounter c" _ _ _ _ _ 0] b(2) by simp
  have p: "batchPreflight ?e (bt_actionCount b) = p"
    using encodeRequest_frame_length [OF b(2)] by (simp add: batchPreflight_id b(3))
  have "requireMatchingPreflight (preflight_object q) p \<noteq> Inr ()"
    using requireMatchingPreflight_exact [OF describes_object [OF assms(3)]] assms(4) by blast
  moreover have "requireMatchingPreflight (preflight_object q) q = Inr ()"
    by (rule requireMatchingPreflight_describes [OF describes_object [OF assms(3)]])
  then obtain gs where "expectedBatchPreflight (preflight_object q) = Inr gs"
    by (auto simp: requireMatchingPreflight_def res_simps)
  ultimately have "requireMatchingPreflight (preflight_object q) p = fail ''client/preflight-mismatch''"
    by (auto simp: requireMatchingPreflight_def require_def)
  moreover have "preflight_object q \<noteq> JNull" by (simp add: preflight_object_def)
  ultimately show ?thesis
    using prepareBatch_preflight [OF b(1) assms(2), of "preflight_object q"]
    by (auto simp: default_options_def prepareCall_def e p)
qed

end
