(* ===== verification/Transport.thy ===== *)
theory Transport
  imports Client
begin

text \<open>
  Bun's TCP binding, \<^verbatim>\<open>clients/bun/framrpc.mjs\<close>: the handlers of one connection as a state machine
  over the socket's events. The frame is assembled from chunks of any size.
\<close>

section \<open>The connection\<close>

record tcp =
  settled :: "byte list res option"
  chunks :: "byte list list"
  received :: nat
  declared :: "nat option"

datatype tcp_event =
    Data "byte list"
  | SocketTimeout
  | SocketEnd
  | SocketError
  | SignalAbort

definition concatChunks :: "byte list list \<Rightarrow> nat \<Rightarrow> byte list res" where
  "concatChunks ps len = concatBytes ps len"

definition tcp_finish :: "byte list res \<Rightarrow> tcp \<Rightarrow> tcp" where
  "tcp_finish r s = (case settled s of Some _ \<Rightarrow> s | None \<Rightarrow> s\<lparr>settled := Some r\<rparr>)"

text \<open>The \<open>data\<close> handler.\<close>

definition tcp_data :: "byte list \<Rightarrow> tcp \<Rightarrow> tcp" where
  "tcp_data chunk s =
     (if settled s \<noteq> None then s
      else let s1 = s\<lparr>chunks := chunks s @ [chunk], received := received s + length chunk\<rparr>
      in if MAX_FRAME_BYTES < received s1 then tcp_finish (fail ''client/frame-too-large'') s1
      else case concatChunks (chunks s1) (received s1) of
        Inl e \<Rightarrow> tcp_finish (Inl e) s1
      | Inr joined \<Rightarrow>
          (case (if declared s1 = None \<and> 26 \<le> received s1
                 then framRpcDeclaredFrameBytes (Some joined) else Inr (declared s1)) of
             Inl e \<Rightarrow> tcp_finish (Inl e) s1
           | Inr d \<Rightarrow>
               let s2 = s1\<lparr>declared := d\<rparr>
               in case d of
                    None \<Rightarrow> s2
                  | Some n \<Rightarrow>
                      if n < received s2 then tcp_finish (fail ''client/trailing-bytes'') s2
                      else if received s2 = n then tcp_finish (Inr joined) s2
                      else s2))"

fun tcp_step :: "tcp_event \<Rightarrow> tcp \<Rightarrow> tcp" where
  "tcp_step (Data chunk) s = tcp_data chunk s"
| "tcp_step SocketTimeout s = tcp_finish (Inl TransportError) s"
| "tcp_step SocketEnd s = tcp_finish (Inl TransportError) s"
| "tcp_step SocketError s = tcp_finish (Inl TransportError) s"
| "tcp_step SignalAbort s = tcp_finish (Inl TransportError) s"

text \<open>
  A connection starts unsettled, unless the signal was aborted before it was opened. The arguments
  of \<open>framTcpTransport\<close> are checked first.
\<close>

definition tcp_init :: "bool \<Rightarrow> tcp" where
  "tcp_init aborted =
     \<lparr>settled = (if aborted then Some (Inl TransportError) else None), chunks = [], received = 0, declared = None\<rparr>"

definition framTcpTransport :: "jsval \<Rightarrow> jsval \<Rightarrow> unit res" where
  "framTcpTransport host port =
     (case host of
        JStr (u # us) \<Rightarrow>
          (case port of
             JNum b \<Rightarrow>
               (case num_int b of
                  Some z \<Rightarrow> if z < 1 \<or> 65535 < z then fail ''client/invalid-port'' else Inr ()
                | None \<Rightarrow> fail ''client/invalid-port'')
           | _ \<Rightarrow> fail ''client/invalid-port'')
      | _ \<Rightarrow> fail ''client/invalid-host'')"

definition tcp_run :: "tcp_event list \<Rightarrow> tcp \<Rightarrow> tcp" where
  "tcp_run evs s = fold tcp_step evs s"

section \<open>The declared length\<close>

lemma declared_prefix:
  "26 \<le> length bs \<Longrightarrow> framRpcDeclaredFrameBytes (Some (bs @ cs)) = framRpcDeclaredFrameBytes (Some bs)"
  by (simp add: framRpcDeclaredFrameBytes_def bytes_at_def HEADER_BYTES_def MAGIC_def)

lemma declared_Inr:
  "framRpcDeclaredFrameBytes (Some bs) = Inr (Some n) \<Longrightarrow> 26 \<le> length bs \<and> 26 \<le> n \<and> n \<le> MAX_FRAME_BYTES"
  by (auto simp: framRpcDeclaredFrameBytes_def HEADER_BYTES_def MAX_FRAME_BYTES_def split: if_splits)

lemma declared_reply:
  assumes "reply_ok r" "i64_ok i"
  shows "framRpcDeclaredFrameBytes (Some (reply_frame i r)) = Inr (Some (length (reply_frame i r)))"
proof -
  have len: "length (reply_body r) \<le> MAX_BODY_BYTES" using assms(1) by (simp add: reply_ok_def Let_def)
  then have "length (reply_body r) < 2 ^ 32" by (simp add: MAX_BODY_BYTES_def)
  note h = frame_header_fields [OF this assms(2), of 2, simplified]
  show ?thesis using len by (simp add: framRpcDeclaredFrameBytes_def reply_frame_def h HEADER_BYTES_def)
qed

section \<open>Assembly\<close>

text \<open>What is known of an unsettled connection and of a settled one.\<close>

definition tcp_inv :: "byte list \<Rightarrow> tcp \<Rightarrow> bool" where
  "tcp_inv bs s \<longleftrightarrow>
     (case settled s of
        None \<Rightarrow>
          concat (chunks s) = bs \<and> received s = length bs \<and> length bs \<le> MAX_FRAME_BYTES \<and>
          (case declared s of
             None \<Rightarrow> length bs < 26
           | Some n \<Rightarrow> framRpcDeclaredFrameBytes (Some bs) = Inr (Some n) \<and> length bs < n)
      | Some (Inr fr) \<Rightarrow> (\<exists>rest. bs = fr @ rest) \<and> framRpcDeclaredFrameBytes (Some fr) = Inr (Some (length fr))
      | Some (Inl _) \<Rightarrow> True)"

lemma tcp_finish_None: "settled s = None \<Longrightarrow> tcp_finish r s = s\<lparr>settled := Some r\<rparr>"
  by (simp add: tcp_finish_def)

lemma tcp_init_inv: "tcp_inv [] (tcp_init aborted)"
  by (simp add: tcp_inv_def tcp_init_def)

lemma concatChunks_all: "n = sum_list (map length cs) \<Longrightarrow> concatChunks cs n = Inr (concat cs)"
  by (simp add: concatChunks_def concatBytes_def length_concat)

lemma declared_None: "framRpcDeclaredFrameBytes (Some bs) = Inr None \<Longrightarrow> length bs < 26"
  by (auto simp: framRpcDeclaredFrameBytes_def HEADER_BYTES_def split: if_splits)

text \<open>The \<open>data\<close> handler on an unsettled connection, in terms of all the bytes so far.\<close>

lemma tcp_data_unsettled:
  assumes "tcp_inv bs s" "settled s = None" "length (bs @ c) \<le> MAX_FRAME_BYTES"
  shows "tcp_data c s =
    (let s1 = s\<lparr>chunks := chunks s @ [c], received := length (bs @ c)\<rparr>
     in case framRpcDeclaredFrameBytes (Some (bs @ c)) of
          Inl e \<Rightarrow> s1\<lparr>settled := Some (Inl e)\<rparr>
        | Inr d \<Rightarrow> s1\<lparr>declared := d, settled :=
            (case d of
               None \<Rightarrow> None
             | Some n \<Rightarrow>
                 if n < length (bs @ c) then Some (fail ''client/trailing-bytes'')
                 else if length (bs @ c) = n then Some (Inr (bs @ c)) else None)\<rparr>)"
proof -
  have st: "concat (chunks s) = bs" "received s = length bs" using assms(1,2) by (simp_all add: tcp_inv_def)
  then have joined: "concatChunks (chunks s @ [c]) (length bs + length c) = Inr (bs @ c)"
    by (subst concatChunks_all) (simp_all add: length_concat [symmetric])
  have decl: "(if declared s = None \<and> 26 \<le> length bs + length c
        then framRpcDeclaredFrameBytes (Some (bs @ c)) else Inr (declared s)) =
      framRpcDeclaredFrameBytes (Some (bs @ c))"
  proof (cases "declared s")
    case None
    show ?thesis
      using None by (simp add: framRpcDeclaredFrameBytes_def HEADER_BYTES_def)
  next
    case (Some n)
    then have "framRpcDeclaredFrameBytes (Some bs) = Inr (Some n)"
      using assms(1,2) by (simp add: tcp_inv_def)
    moreover from this have "26 \<le> length bs" using declared_Inr by blast
    ultimately show ?thesis using Some declared_prefix by simp
  qed
  define s1 where "s1 = s\<lparr>chunks := chunks s @ [c], received := length bs + length c\<rparr>"
  have sel: "settled s1 = None" "chunks s1 = chunks s @ [c]" "received s1 = length bs + length c"
    "declared s1 = declared s"
    using assms(2) by (simp_all add: s1_def)
  have "tcp_data c s = (case framRpcDeclaredFrameBytes (Some (bs @ c)) of
      Inl e \<Rightarrow> tcp_finish (Inl e) s1
    | Inr d \<Rightarrow>
        let s2 = s1\<lparr>declared := d\<rparr>
        in case d of None \<Rightarrow> s2
           | Some n \<Rightarrow> if n < received s2 then tcp_finish (fail ''client/trailing-bytes'') s2
                       else if received s2 = n then tcp_finish (Inr (bs @ c)) s2 else s2)"
    unfolding tcp_data_def st(2) s1_def [symmetric] Let_def
    using assms(2,3) by (simp only: sel joined decl sum.case) simp
  then show ?thesis
    using assms(2) sel
    by (cases "framRpcDeclaredFrameBytes (Some (bs @ c))") (auto simp: Let_def tcp_finish_None s1_def split: option.splits)
qed

lemma tcp_data_inv:
  assumes "tcp_inv bs s"
  shows "tcp_inv (bs @ c) (tcp_data c s)"
proof (cases "settled s")
  case (Some r)
  then have "tcp_data c s = s" by (simp add: tcp_data_def)
  with assms Some show ?thesis
    by (cases r) (auto simp: tcp_inv_def)
next
  case None
  have st: "concat (chunks s) = bs" "received s = length bs" using assms None by (simp_all add: tcp_inv_def)
  show ?thesis
  proof (cases "length (bs @ c) \<le> MAX_FRAME_BYTES")
    case False
    with None st have "settled (tcp_data c s) = Some (fail ''client/frame-too-large'')"
      by (simp add: tcp_data_def Let_def tcp_finish_None)
    then show ?thesis by (simp add: tcp_inv_def)
  next
    case True
    show ?thesis
      unfolding tcp_data_unsettled [OF assms None True] Let_def
      using st True declared_None [of "bs @ c"]
      by (auto simp: tcp_inv_def split: sum.splits option.splits if_splits)
  qed
qed

lemma tcp_run_inv:
  "tcp_inv bs s \<Longrightarrow> tcp_inv (bs @ concat cs) (tcp_run (map Data cs) s)"
proof (induction cs arbitrary: bs s)
  case (Cons c cs)
  from Cons.IH [OF tcp_data_inv [OF Cons.prems, of c]] show ?case by (simp add: tcp_run_def)
qed (simp add: tcp_run_def)

text \<open>The promise is settled at most once.\<close>

lemma tcp_step_settled: "settled s = Some r \<Longrightarrow> tcp_step ev s = s"
  by (cases ev) (simp_all add: tcp_data_def tcp_finish_def)

lemma tcp_run_settled: "settled s = Some r \<Longrightarrow> tcp_run evs s = s"
  by (induction evs) (simp_all add: tcp_run_def tcp_step_settled)

text \<open>A frame arrives whatever the chunks.\<close>

lemma tcp_no_error:
  assumes "tcp_inv bs s" "settled s = None" "concat cs = rest"
    "framRpcDeclaredFrameBytes (Some (bs @ rest)) = Inr (Some (length (bs @ rest)))" "rest \<noteq> []"
  shows "settled (tcp_run (map Data cs) s) = Some (Inr (bs @ rest))"
  using assms
proof (induction cs arbitrary: bs s rest)
  case (Cons c cs)
  let ?all = "bs @ rest"
  have all: "?all = (bs @ c) @ concat cs" using Cons.prems(3) by simp
  have max: "length ?all \<le> MAX_FRAME_BYTES" using declared_Inr [OF Cons.prems(4)] by simp
  then have len: "length (bs @ c) \<le> MAX_FRAME_BYTES" using all by simp
  note step = tcp_data_unsettled [OF Cons.prems(1,2) len, unfolded Let_def]
  show ?case
  proof (cases "concat cs = []")
    case True
    then have "?all = bs @ c" using all by simp
    then have "settled (tcp_data c s) = Some (Inr ?all)"
      using Cons.prems(4) by (simp add: step)
    then show ?thesis using tcp_run_settled by (simp add: tcp_run_def)
  next
    case False
    have "settled (tcp_data c s) = None"
    proof (cases "length (bs @ c) < 26")
      case True
      then show ?thesis
        by (simp add: step framRpcDeclaredFrameBytes_def HEADER_BYTES_def)
    next
      case long: False
      then have "framRpcDeclaredFrameBytes (Some (bs @ c)) = Inr (Some (length ?all))"
        using Cons.prems(4) declared_prefix [of "bs @ c" "concat cs"] all by simp
      moreover have "length (bs @ c) < length ?all" using False all by (metis length_append length_greater_0_conv less_add_same_cancel1)
      ultimately show ?thesis by (simp add: step)
    qed
    with Cons.IH [OF tcp_data_inv [OF Cons.prems(1), of c], of "concat cs"] Cons.prems(4) False all
    show ?thesis by (simp add: tcp_run_def)
  qed
qed simp

lemma tcp_result:
  assumes "settled (tcp_run (map Data cs) (tcp_init False)) = Some (Inr fr)"
  shows "(\<exists>rest. concat cs = fr @ rest) \<and> framRpcDeclaredFrameBytes (Some fr) = Inr (Some (length fr))"
  using tcp_run_inv [OF tcp_init_inv [of False], of cs] assms by (simp add: tcp_inv_def)

text \<open>A connection that ends early is an error.\<close>

lemma tcp_incomplete:
  assumes "settled s = None" "\<forall>c. ev \<noteq> Data c"
  shows "settled (tcp_step ev s) = Some (Inl TransportError)"
  using assms by (cases ev) (simp_all add: tcp_finish_def)

end
