(* ===== verification/Request.thy ===== *)
theory Request
  imports Transport
begin

text \<open>
  The request side of \<^verbatim>\<open>clients/cloudflare-do/src/adapter.mjs\<close>: \<open>RequestReader\<close> and
  \<open>inspectFramRpcRequest\<close>, which operations an entry accepts, the checks of \<open>exchange\<close>, and the status
  exchange and FRAMLOG header the backup code reads. Proved against the formats of the client.
\<close>

section \<open>RequestReader\<close>

text \<open>The cursor is the \<open>reader\<close> record; this class counts no nodes.\<close>

abbreviation requestFail :: "string \<Rightarrow> 'a res" where
  "requestFail c \<equiv> Inl (RequestError c)"

definition FRAMRPC_OPERATIONS :: "string list" where
  "FRAMRPC_OPERATIONS = [''rpc/version'', ''rpc/status'', ''rpc/validate'',
     ''rpc/assert'', ''rpc/retract'', ''rpc/batch'',
     ''rpc/scan'', ''rpc/query'', ''rpc/occurrences'',
     ''rpc/lease-acquire'', ''rpc/lease-renew'', ''rpc/lease-release'',
     ''rpc/lease-check'', ''rpc/checkpoint'']"

definition FRAMRPC_MUTATIONS :: "string list" where
  "FRAMRPC_MUTATIONS = [''rpc/assert'', ''rpc/retract'', ''rpc/batch'',
     ''rpc/lease-acquire'', ''rpc/lease-renew'', ''rpc/lease-release'']"

definition q_take :: "nat \<Rightarrow> reader \<Rightarrow> (byte list \<times> reader) res" where
  "q_take n r =
     (if length (rbytes r) < offset r + n then requestFail ''request/truncated''
      else Inr (take n (drop (offset r) (rbytes r)), r\<lparr>offset := offset r + n\<rparr>))"

definition q_u8 :: "reader \<Rightarrow> (nat \<times> reader) res" where
  "q_u8 r = rbind (q_take 1 r) (\<lambda>(bs, r'). Inr (le_nat bs, r'))"

definition q_u32 :: "reader \<Rightarrow> (nat \<times> reader) res" where
  "q_u32 r = rbind (q_take 4 r) (\<lambda>(bs, r'). Inr (le_nat bs, r'))"

definition q_text :: "nat \<Rightarrow> reader \<Rightarrow> (jstr \<times> reader) res" where
  "q_text maximum r =
     rbind (q_u32 r) (\<lambda>(n, r1).
       if maximum < n then requestFail ''request/string-limit''
       else rbind (q_take n r1) (\<lambda>(bs, r2).
         case text_decode bs of
           None \<Rightarrow> requestFail ''request/invalid-utf8''
         | Some s \<Rightarrow> Inr (s, r2)))"

definition q_stringTerm :: "reader \<Rightarrow> (jstr \<times> reader) res" where
  "q_stringTerm r =
     rbind (q_u8 r) (\<lambda>(tag, r1).
       if tag \<noteq> 1 then requestFail ''request/invalid-record'' else q_text MAX_SPACE_BYTES r1)"

definition q_keywordTerm :: "reader \<Rightarrow> (jstr \<times> reader) res" where
  "q_keywordTerm r =
     rbind (q_u8 r) (\<lambda>(tag, r1).
       if tag \<noteq> 6 then requestFail ''request/invalid-record''
       else rbind (q_text MAX_BODY_BYTES r1) (\<lambda>(s, r2).
         if s = [] then requestFail ''request/invalid-record'' else Inr (s, r2)))"

section \<open>inspectFramRpcRequest\<close>

record inspected =
  in_space :: jstr
  in_operation :: jstr
  in_requestId :: int
  in_frameBytes :: nat
  in_bodyBytes :: nat

definition inspectFramRpcRequest :: "byte list option \<Rightarrow> inspected res" where
  "inspectFramRpcRequest fr =
     (case fr of
        None \<Rightarrow> requestFail ''request/invalid-type''
      | Some bs \<Rightarrow>
          let bodyLength = le_nat (bytes_at 14 4 bs)
          in if length bs < HEADER_BYTES then requestFail ''request/truncated''
          else if MAX_FRAME_BYTES < length bs then requestFail ''request/frame-too-large''
          else if take (length MAGIC) bs \<noteq> MAGIC then requestFail ''request/invalid-magic''
          else if le_nat (bytes_at 8 2 bs) \<noteq> 2 \<or> le_nat (bytes_at 10 2 bs) \<noteq> 0
          then requestFail ''request/unsupported-version''
          else if bytes_at 12 1 bs \<noteq> [1] then requestFail ''request/invalid-kind''
          else if bytes_at 13 1 bs \<noteq> [0] then requestFail ''request/invalid-flags''
          else if MAX_BODY_BYTES < bodyLength then requestFail ''request/frame-too-large''
          else if length bs \<noteq> HEADER_BYTES + bodyLength then requestFail ''request/truncated''
          else rbind (q_stringTerm (new_reader (drop HEADER_BYTES bs))) (\<lambda>(space, r1).
               rbind (q_keywordTerm r1) (\<lambda>(operation, r2).
               if space = [] \<or> MAX_SPACE_BYTES < length (utf8_encode space)
               then requestFail ''request/invalid-space''
               else if operation \<notin> set (map js FRAMRPC_OPERATIONS)
               then requestFail ''request/unsupported-operation''
               else Inr \<lparr>in_space = space, in_operation = operation,
                         in_requestId = le_int (bytes_at 18 8 bs),
                         in_frameBytes = length bs, in_bodyBytes = bodyLength\<rparr>)))"

section \<open>Entries and exchange\<close>

definition framRpcEntry :: "jstr \<Rightarrow> string" where
  "framRpcEntry operation =
     (if operation = js ''rpc/checkpoint'' then ''operator''
      else if operation \<in> set (map js FRAMRPC_MUTATIONS) then ''transact''
      else if operation = js ''rpc/occurrences'' then ''snapshot''
      else ''query'')"

definition entryAccepts :: "jstr \<Rightarrow> string \<Rightarrow> bool" where
  "entryAccepts operation entry =
     (if operation = js ''rpc/query'' then entry = ''query'' \<or> entry = ''snapshot''
      else framRpcEntry operation = entry)"

text \<open>
  The checks of \<open>FramDurableObjectBase.exchange\<close> before the guest is entered: the entry to use.
\<close>

definition exchange_admits :: "jstr \<Rightarrow> byte list option \<Rightarrow> jsval \<Rightarrow> string res" where
  "exchange_admits spaceId fr options =
     (case object_fields options of
        None \<Rightarrow> requestFail ''request/invalid-options''
      | Some fs \<Rightarrow>
          if \<not> list_all (\<lambda>(k, _). k = js ''entry'' \<or> k = js ''space'') fs
          then requestFail ''request/invalid-options''
          else
            (case filter (\<lambda>e. get_prop fs ''entry'' = js_lit e) [''query'', ''transact'', ''snapshot''] of
               [] \<Rightarrow> requestFail ''request/invalid-entry''
             | entry # _ \<Rightarrow>
                 (case get_prop fs ''space'' of
                    JStr (u # us) \<Rightarrow>
                      rbind (inspectFramRpcRequest fr) (\<lambda>i.
                      if in_operation i = js ''rpc/checkpoint'' then requestFail ''request/operator-capability''
                      else if u # us \<noteq> spaceId \<or> in_space i \<noteq> spaceId then requestFail ''request/space-mismatch''
                      else if \<not> entryAccepts (in_operation i) entry then requestFail ''request/entry-mismatch''
                      else Inr entry)
                  | _ \<Rightarrow> requestFail ''request/invalid-space'')))"

text \<open>The checks on what the guest returned. A response is \<open>None\<close> when it is not a \<open>Uint8Array\<close>.\<close>

record guest_result =
  gr_status :: int
  gr_response :: "byte list option"
  gr_released :: bool

definition exchange_result :: "guest_result \<Rightarrow> byte list res" where
  "exchange_result g =
     (if gr_status g \<noteq> 0 then Inl (ExchangeError (gr_status g))
      else case gr_response g of
        None \<Rightarrow> Inl (ExchangeError (gr_status g))
      | Some bs \<Rightarrow>
          if MAX_FRAME_BYTES < length bs then Inl (ExchangeError (gr_status g))
          else if \<not> gr_released g then Inl (ExchangeError (gr_status g))
          else Inr bs)"

section \<open>The status exchange of the backup\<close>

abbreviation backupFailure :: "string \<Rightarrow> 'a res" where
  "backupFailure c \<equiv> Inl (BackupError c)"

definition textBytes :: "jstr \<Rightarrow> byte list res" where
  "textBytes s =
     (if s = [] then backupFailure ''engine''
      else case text_decode (utf8_encode s) of
        None \<Rightarrow> backupFailure ''engine''
      | Some d \<Rightarrow> if d \<noteq> s then backupFailure ''engine'' else Inr (utf8_encode s))"

definition status_term :: "nat \<Rightarrow> byte list \<Rightarrow> byte list" where
  "status_term tag bs = word_of_nat tag # le_bytes 4 (length bs) @ bs"

definition statusFrame :: "jstr \<Rightarrow> byte list res" where
  "statusFrame spaceId =
     rbind (textBytes spaceId) (\<lambda>space.
     rbind (textBytes (js ''rpc/status'')) (\<lambda>operation.
     rbind (textBytes (js ''rpc/unit'')) (\<lambda>un.
       let bodyLength = 1 + 4 + length space + 1 + 4 + length operation + 3 + 1 + 4 + length un
       in Inr (MAGIC @ le_bytes 2 2 @ le_bytes 2 0 @ [1, 0] @ le_bytes 4 bodyLength @ i64_bytes 0 @
               status_term 1 space @ status_term 6 operation @ [0, 0, 0] @ status_term 6 un))))"

text \<open>The closure \<open>textTerm\<close> of \<open>decodeStatusServedVersion\<close>, at an offset of the frame.\<close>

definition status_text :: "nat \<Rightarrow> byte list \<Rightarrow> nat \<Rightarrow> (jstr \<times> nat) res" where
  "status_text tag fr off =
     (if length fr < off + 5 \<or> bytes_at off 1 fr \<noteq> [word_of_nat tag] then backupFailure ''engine''
      else let n = le_nat (bytes_at (off + 1) 4 fr)
      in if length fr < off + 5 + n then backupFailure ''engine''
      else case text_decode (bytes_at (off + 5) n fr) of
             None \<Rightarrow> backupFailure ''engine''
           | Some s \<Rightarrow> Inr (s, off + 5 + n))"

definition decodeStatusServedVersion :: "byte list option \<Rightarrow> jstr \<Rightarrow> jstr res" where
  "decodeStatusServedVersion response expectedSpaceId =
     (case response of
        None \<Rightarrow> backupFailure ''engine''
      | Some fr \<Rightarrow>
          if length fr < HEADER_BYTES then backupFailure ''engine''
          else if take (length MAGIC) fr \<noteq> MAGIC then backupFailure ''engine''
          else if le_nat (bytes_at 8 2 fr) \<noteq> 2 \<or> le_nat (bytes_at 10 2 fr) \<noteq> 0 \<or>
                  bytes_at 12 1 fr \<noteq> [2] \<or> bytes_at 13 1 fr \<noteq> [0] \<or> le_int (bytes_at 18 8 fr) \<noteq> 0
          then backupFailure ''engine''
          else if length fr \<noteq> HEADER_BYTES + le_nat (bytes_at 14 4 fr) then backupFailure ''engine''
          else rbind (status_text 1 fr HEADER_BYTES) (\<lambda>(spaceId, o1).
               rbind (status_text 6 fr o1) (\<lambda>(operation, o2).
               if spaceId \<noteq> expectedSpaceId \<or> operation \<noteq> js ''rpc/status'' then backupFailure ''engine''
               else if length fr < o2 + 11 then backupFailure ''engine''
               else let served = le_int (bytes_at o2 8 fr)
               in if served < 0 \<or> bytes_at (o2 + 8) 1 fr \<noteq> [0] \<or> bytes_at (o2 + 9) 1 fr \<noteq> [0] \<or>
                     bytes_at (o2 + 10) 1 fr \<noteq> [1] \<or> length fr \<le> o2 + 11
               then backupFailure ''engine''
               else Inr (int_text served))))"

section \<open>The FRAMLOG header\<close>

definition FRAMLOG_MAGIC :: "byte list" where
  "FRAMLOG_MAGIC = [0x46, 0x52, 0x41, 0x4d, 0x4c, 0x4f, 0x47, 0x00]"

definition parseFramlogHeader :: "byte list option \<Rightarrow> jstr res" where
  "parseFramlogHeader input =
     (case input of
        None \<Rightarrow> backupFailure ''invalid-backup''
      | Some bs \<Rightarrow>
          if length bs < 16 then backupFailure ''invalid-framlog''
          else if take 8 bs \<noteq> FRAMLOG_MAGIC then backupFailure ''invalid-framlog''
          else if le_nat (bytes_at 8 2 bs) \<noteq> 1 \<or> le_nat (bytes_at 10 2 bs) \<noteq> 0
          then backupFailure ''invalid-framlog''
          else let spaceBytes = le_nat (bytes_at 12 4 bs)
          in if spaceBytes = 0 \<or> MAX_SPACE_BYTES < spaceBytes then backupFailure ''invalid-framlog''
          else if length bs < 16 + spaceBytes then backupFailure ''invalid-framlog''
          else case text_decode (bytes_at 16 spaceBytes bs) of
                 None \<Rightarrow> backupFailure ''invalid-framlog''
               | Some s \<Rightarrow> if s = [] then backupFailure ''invalid-framlog'' else Inr s)"

section \<open>The request reader is a decoder of the client's format\<close>

text \<open>The text a decoder without \<open>ignoreBOM\<close> returns for a string.\<close>

definition drop_bom :: "jstr \<Rightarrow> jstr" where
  "drop_bom s = (if starts_with_bom s then tl s else s)"

lemma text_decode_drop_bom: "well_formed16 s \<Longrightarrow> text_decode (utf8_encode s) = Some (drop_bom s)"
proof (cases "starts_with_bom s")
  case True
  moreover assume "well_formed16 s"
  ultimately show ?thesis
    by (cases s) (simp_all add: starts_with_bom_def drop_bom_def text_decode_encode_bom)
next
  case False
  moreover assume "well_formed16 s"
  ultimately show ?thesis by (simp add: text_decode_encode drop_bom_def)
qed

lemma q_take_bytes: "at_bytes r (bs @ rest) \<Longrightarrow> q_take (length bs) r = Inr (bs, advance (length bs) 0 r)"
  using at_bytes_take [of r bs rest] by (auto simp: q_take_def r_take_def r_ensure_def split: if_splits)

interpretation qu8: wire_codec "le_bytes 1" q_u8 "\<lambda>n. n" "\<lambda>_. 0" "\<lambda>_ n. n < 256"
  by unfold_locales (use q_take_bytes [of _ "le_bytes 1 _"] in \<open>simp add: q_u8_def unat_of_nat\<close>)

interpretation qu32: wire_codec "le_bytes 4" q_u32 "\<lambda>n. n" "\<lambda>_. 0" "\<lambda>_ n. n < 2 ^ 32"
  by unfold_locales (use q_take_bytes [of _ "le_bytes 4 _"] in \<open>simp add: q_u32_def\<close>)

definition sized_text :: "nat \<Rightarrow> jstr \<Rightarrow> bool" where
  "sized_text m s \<longleftrightarrow> well_formed16 s \<and> length (utf8_encode s) \<le> m \<and> m < 2 ^ 32"

lemma q_text_codec: "wire_codec text_bytes (q_text m) drop_bom (\<lambda>_. 0) (\<lambda>_. sized_text m)"
proof unfold_locales
  fix r s rest assume s: "sized_text m s" and a: "at_bytes r (text_bytes s @ rest)"
  let ?n = "length (utf8_encode s)"
  obtain r1 where r1: "q_u32 r = Inr (?n, r1)" "r1 = advance 4 0 r" "at_bytes r1 (utf8_encode s @ rest)"
    using qu32.get_put_at [where x = ?n and r = r] s a by (auto simp: text_bytes_def sized_text_def)
  with s text_decode_drop_bom [of s] q_take_bytes [OF r1(3)]
  show "q_text m r = Inr (drop_bom s, advance (length (text_bytes s)) 0 r)"
    by (simp add: q_text_def text_bytes_def sized_text_def)
qed

interpretation qtext: wire_codec text_bytes "q_text m" drop_bom "\<lambda>_. 0" "\<lambda>_. sized_text m" for m
  by (rule q_text_codec)

lemma q_tagged:
  assumes "at_bytes r (word_of_nat tag # text_bytes s @ rest)" "tag < 256" "sized_text m s"
  shows "\<exists>r1. q_u8 r = Inr (tag, r1) \<and> q_text m r1 = Inr (drop_bom s, advance (1 + length (text_bytes s)) 0 r)"
proof -
  have "at_bytes r (le_bytes 1 tag @ text_bytes s @ rest)" using assms(1) by simp
  then obtain r1 where r1: "q_u8 r = Inr (tag, r1)" "r1 = advance 1 0 r" "at_bytes r1 (text_bytes s @ rest)"
    by (rule qu8.get_put_at [OF assms(2)]) simp
  with assms(3) have "q_text m r1 = Inr (drop_bom s, advance (length (text_bytes s)) 0 r1)"
    by (intro qtext.get_put)
  with r1 show ?thesis by auto
qed

interpretation qstring: wire_codec "\<lambda>s. wire (FString s)" q_stringTerm drop_bom "\<lambda>_. 0" "\<lambda>_. sized_text MAX_SPACE_BYTES"
proof unfold_locales
  fix r s rest assume ok: "sized_text MAX_SPACE_BYTES s" and "at_bytes r (wire (FString s) @ rest)"
  then have "at_bytes r (word_of_nat 1 # text_bytes s @ rest)" by simp
  from q_tagged [OF this _ ok]
  show "q_stringTerm r = Inr (drop_bom s, advance (length (wire (FString s))) 0 r)"
    by (auto simp: q_stringTerm_def)
qed

interpretation qkeyword: wire_codec "\<lambda>s. wire (FKeyword s)" q_keywordTerm drop_bom "\<lambda>_. 0"
  "\<lambda>_ s. sized_text MAX_BODY_BYTES s \<and> drop_bom s \<noteq> []"
proof unfold_locales
  fix r s rest assume ok: "sized_text MAX_BODY_BYTES s \<and> drop_bom s \<noteq> []" and "at_bytes r (wire (FKeyword s) @ rest)"
  then have "at_bytes r (word_of_nat 6 # text_bytes s @ rest)" by simp
  from q_tagged [OF this _ conjunct1 [OF ok]] ok
  show "q_keywordTerm r = Inr (drop_bom s, advance (length (wire (FKeyword s))) 0 r)"
    by (auto simp: q_keywordTerm_def)
qed

lemma operation_names:
  "\<forall>op \<in> set FRAMRPC_OPERATIONS. name_ok op"
  by (simp add: FRAMRPC_OPERATIONS_def name_ok_def ascii_def)

lemma name_ok_sized: "name_ok s \<Longrightarrow> sized_text MAX_BODY_BYTES (js s) \<and> drop_bom (js s) = js s"
  using ascii_js [of s] by (simp add: name_ok_def sized_text_def MAX_BODY_BYTES_def drop_bom_def)

lemma drop_bom_length: "well_formed16 s \<Longrightarrow> length (utf8_encode (drop_bom s)) \<le> length (utf8_encode s)"
proof -
  assume "well_formed16 s"
  then have "utf8_encode (drop_bom s) = utf8_encode s \<or> bom_bytes @ utf8_encode (drop_bom s) = utf8_encode s"
    using text_decode_sound(2) [OF text_decode_drop_bom] by blast
  then show ?thesis by (metis eq_iff le_add2 length_append)
qed

text \<open>What the adapter reads from the frame of a valid request: the space without its byte order mark.\<close>

lemma inspect_request:
  assumes "request_valid ops r" "set ops \<subseteq> set FRAMRPC_OPERATIONS" "i64_ok i" "drop_bom (rq_space r) \<noteq> []"
  shows "inspectFramRpcRequest (Some (request_frame i r)) = Inr
    \<lparr>in_space = drop_bom (rq_space r), in_operation = js (rq_operation r), in_requestId = i,
     in_frameBytes = length (request_frame i r), in_bodyBytes = length (request_body r)\<rparr>"
proof -
  note v = assms(1) [unfolded request_valid_def]
  have len: "length (request_body r) \<le> MAX_BODY_BYTES" using v by blast
  then have "length (request_body r) < 2 ^ 32" by (simp add: MAX_BODY_BYTES_def)
  note h = frame_header_fields [OF this assms(3), of 1, simplified]
  have sp: "sized_text MAX_SPACE_BYTES (rq_space r)" using v by (simp add: sized_text_def MAX_SPACE_BYTES_def)
  have mem: "rq_operation r \<in> set FRAMRPC_OPERATIONS" using v assms(2) by blast
  then have op: "sized_text MAX_BODY_BYTES (js (rq_operation r))" "drop_bom (js (rq_operation r)) = js (rq_operation r)"
    "rq_operation r \<noteq> []"
    using operation_names name_ok_sized by (auto simp: name_ok_def)
  define tail where "tail = opt_bytes i64_bytes (rq_expected r) @ opt_bytes page_bytes (rq_page r) @
     opt_bytes (le_bytes 4) (rq_timeout r) @ wire (rq_payload r)"
  have at: "at_bytes (new_reader (request_body r)) (wire (FString (rq_space r)) @ wire (FKeyword (js (rq_operation r))) @ tail)"
    using at_bytes_new [of "request_body r"] by (simp add: request_body_def tail_def)
  obtain r1 where r1: "q_stringTerm (new_reader (request_body r)) = Inr (drop_bom (rq_space r), r1)"
    "at_bytes r1 (wire (FKeyword (js (rq_operation r))) @ tail)"
    by (rule qstring.get_put_at [OF sp at]) blast
  have "\<exists>r2. q_keywordTerm r1 = Inr (js (rq_operation r), r2)"
    using qkeyword.get_put [OF _ r1(2)] op by auto
  moreover have "length (utf8_encode (drop_bom (rq_space r))) \<le> MAX_SPACE_BYTES"
    using drop_bom_length [of "rq_space r"] sp by (simp add: sized_text_def)
  ultimately show ?thesis
    using len r1(1) assms(4) mem
    by (auto simp: inspectFramRpcRequest_def request_frame_def h Let_def HEADER_BYTES_def MAX_FRAME_BYTES_def)
qed

text \<open>A space that is nothing but a byte order mark reads as the empty text and is refused.\<close>

lemma inspect_bom_only:
  assumes "request_valid ops r" "drop_bom (rq_space r) = []"
  shows "inspectFramRpcRequest (Some (request_frame i r)) \<noteq> Inr x"
proof
  assume a: "inspectFramRpcRequest (Some (request_frame i r)) = Inr x"
  note v = assms(1) [unfolded request_valid_def]
  have sp: "sized_text MAX_SPACE_BYTES (rq_space r)" using v by (simp add: sized_text_def MAX_SPACE_BYTES_def)
  have d: "drop HEADER_BYTES (request_frame i r) = request_body r"
    by (simp add: request_frame_def HEADER_BYTES_def)
  have "at_bytes (new_reader (request_body r)) (wire (FString (rq_space r)) @ drop (length (wire (FString (rq_space r)))) (request_body r))"
    using at_bytes_new [of "request_body r"] by (simp add: request_body_def)
  then obtain r1 where "q_stringTerm (new_reader (request_body r)) = Inr ([], r1)"
    using qstring.get_put_at [OF sp] assms(2) by metis
  with a d show False
    by (auto simp: inspectFramRpcRequest_def Let_def res_simps split: if_splits)
qed

section \<open>The client's entry is the adapter's entry\<close>

lemma operationEntry_accepted:
  assumes "operationEntry op options = Inr entry" "op \<in> set OPERATIONS"
  shows "entryAccepts (js op) entry \<and> entry \<in> {''query'', ''transact'', ''snapshot''}"
  using assms
  by (auto simp: OPERATIONS_def operationEntry_def MUTATION_OPERATIONS_def entryAccepts_def framRpcEntry_def
      FRAMRPC_MUTATIONS_def res_simps split: if_splits)

definition exchange_options :: "string \<Rightarrow> jstr \<Rightarrow> jsval" where
  "exchange_options entry space = JObj [(js ''entry'', js_lit entry), (js ''space'', JStr space)]"

lemma exchange_admits_call:
  assumes "prepareCall c a = Inr s" "1 \<le> requestCounter c" "requestCounter c \<le> I64_MAX"
    "\<not> starts_with_bom (cl_space c)"
  shows "exchange_admits (cl_space c) (Some (sent_frame s)) (exchange_options (sent_entry s) (cl_space c)) =
    Inr (sent_entry s)"
proof -
  from prepareCall_Inr [OF assms(1)] obtain r where r: "request_valid OPERATIONS r" "rq_space r = cl_space c"
    "rq_operation r = ca_operation a" "sent_frame s = request_frame (requestCounter c) r"
    "operationEntry (ca_operation a) (ca_options a) = Inr (sent_entry s)" by blast
  have op: "rq_operation r \<in> set OPERATIONS" and ne: "cl_space c \<noteq> []"
    using r(1,2) by (auto simp: request_valid_def)
  have plain: "drop_bom (cl_space c) = cl_space c" using assms(4) by (simp add: drop_bom_def)
  have "set OPERATIONS \<subseteq> set FRAMRPC_OPERATIONS" by (auto simp: OPERATIONS_def FRAMRPC_OPERATIONS_def)
  moreover have "i64_ok (requestCounter c)" using assms(2,3) by (simp add: i64_ok_def I64_MIN_def)
  ultimately obtain i where i: "inspectFramRpcRequest (Some (sent_frame s)) = Inr i" "in_space i = cl_space c"
    "in_operation i = js (rq_operation r)"
    using inspect_request [OF r(1), of "requestCounter c"] r(2,4) ne plain by simp
  have ent: "entryAccepts (js (rq_operation r)) (sent_entry s)" "sent_entry s \<in> {''query'', ''transact'', ''snapshot''}"
    using operationEntry_accepted [OF r(5)] op r(3) by auto
  have "rq_operation r \<noteq> ''rpc/checkpoint''" using op by (auto simp: OPERATIONS_def)
  moreover obtain u us where "cl_space c = u # us" using ne by (cases "cl_space c") auto
  ultimately show ?thesis
    using i ent by (auto simp: exchange_admits_def exchange_options_def object_fields_def js_lit_def)
qed

text \<open>An admitted exchange is for this object and for an operation of the data plane.\<close>

lemma exchange_admits_safe:
  assumes "exchange_admits spaceId fr options = Inr entry"
  shows "\<exists>i. inspectFramRpcRequest fr = Inr i \<and> in_space i = spaceId \<and> in_operation i \<noteq> js ''rpc/checkpoint'' \<and>
    entryAccepts (in_operation i) entry \<and> in_operation i \<in> set (map js FRAMRPC_OPERATIONS) \<and>
    (in_operation i \<in> set (map js FRAMRPC_MUTATIONS) \<longleftrightarrow> entry = ''transact'')"
proof -
  from assms obtain fs u us i where fs: "object_fields options = Some fs" "get_prop fs ''space'' = JStr (u # us)"
    and i: "inspectFramRpcRequest fr = Inr i" "in_operation i \<noteq> js ''rpc/checkpoint''" "in_space i = spaceId"
    "entryAccepts (in_operation i) entry"
    by (auto simp: exchange_admits_def res_simps split: option.splits if_splits list.splits jsval.splits)
  have "in_operation i \<in> set (map js FRAMRPC_OPERATIONS)"
    using i(1) by (auto simp: inspectFramRpcRequest_def Let_def res_simps split: option.splits if_splits)
  with i show ?thesis
    by (auto simp: entryAccepts_def framRpcEntry_def FRAMRPC_MUTATIONS_def split: if_splits)
qed

section \<open>The status exchange\<close>

lemma textBytes_Inr_iff:
  "textBytes s = Inr bs \<longleftrightarrow> s \<noteq> [] \<and> well_formed16 s \<and> \<not> starts_with_bom s \<and> bs = utf8_encode s"
proof -
  have "text_decode (utf8_encode s) = Some s \<longleftrightarrow> well_formed16 s \<and> \<not> starts_with_bom s"
  proof
    assume d: "text_decode (utf8_encode s) = Some s"
    then have "well_formed16 s" by (rule text_decode_sound)
    moreover have "\<not> starts_with_bom s"
    proof
      assume b: "starts_with_bom s"
      then have "tl s = s" using d text_decode_drop_bom [OF \<open>well_formed16 s\<close>] by (simp add: drop_bom_def)
      with b show False by (cases s) (simp_all add: starts_with_bom_def)
    qed
    ultimately show "well_formed16 s \<and> \<not> starts_with_bom s" ..
  qed (simp add: text_decode_encode)
  then show ?thesis by (auto simp: textBytes_def split: option.splits if_splits)
qed

definition status_request :: "jstr \<Rightarrow> request" where
  "status_request s = \<lparr>rq_space = s, rq_operation = ''rpc/status'', rq_expected = None, rq_page = None,
     rq_timeout = None, rq_payload = FKeyword (js ''rpc/unit'')\<rparr>"

lemma textBytes_name: "name_ok s \<Longrightarrow> textBytes (js s) = Inr (utf8_encode (js s))"
  using ascii_js [of s] by (simp add: textBytes_Inr_iff name_ok_def)

lemma status_term_wire:
  "status_term 1 (utf8_encode s) = wire (FString s)" "status_term 6 (utf8_encode s) = wire (FKeyword s)"
  by (simp_all add: status_term_def text_bytes_def)

lemma status_names: "name_ok ''rpc/status''" "name_ok ''rpc/unit''"
  by (simp_all add: name_ok_def ascii_def)

lemma statusFrame_request:
  assumes "textBytes s = Inr bs"
  shows "statusFrame s = Inr (request_frame 0 (status_request s))"
proof -
  have "bs = utf8_encode s" using assms by (simp add: textBytes_Inr_iff)
  with assms show ?thesis
    by (simp add: statusFrame_def textBytes_name status_names Let_def request_frame_def
        frame_header_def request_body_def status_request_def opt_bytes_def status_term_def text_bytes_def ac_simps)
qed

lemma bytes_at_shift: "bytes_at (off + k) n fr = take n (drop k (drop off fr))"
  by (simp add: bytes_at_def add.commute)

lemma status_text_at:
  assumes "drop off fr = word_of_nat tag # text_bytes s @ rest" "sized_text m s"
  shows "status_text tag fr off = Inr (drop_bom s, off + (1 + length (text_bytes s)))"
proof -
  let ?n = "length (utf8_encode s)"
  have "length fr - off = length (word_of_nat tag # text_bytes s @ rest)"
    using assms(1) by (metis length_drop)
  then have len: "off + 5 + ?n \<le> length fr" by (simp add: text_bytes_def)
  have n: "?n < 2 ^ 32" using assms(2) by (simp add: sized_text_def)
  have "bytes_at off 1 fr = [word_of_nat tag]" using assms(1) by (simp add: bytes_at_def)
  moreover have "le_nat (bytes_at (off + 1) 4 fr) = ?n"
    unfolding bytes_at_shift assms(1) using n by (simp add: text_bytes_def)
  moreover have "bytes_at (off + 5) ?n fr = utf8_encode s"
    unfolding bytes_at_shift assms(1) by (simp add: text_bytes_def)
  ultimately show ?thesis
    using len text_decode_drop_bom [of s] assms(2)
    by (simp add: status_text_def Let_def sized_text_def text_bytes_def)
qed

lemma decodeStatus_reply:
  assumes "reply_ok rep" "rp_operation rep = js ''rpc/status''" "rp_page rep = None" "rp_error rep = None"
    "rp_payload rep = Some t" "0 \<le> rp_served rep"
  shows "decodeStatusServedVersion (Some (reply_frame 0 rep)) (rp_space rep) = Inr (int_text (rp_served rep))"
proof -
  let ?fr = "reply_frame 0 rep" and ?s = "rp_space rep"
  have len: "length (reply_body rep) \<le> MAX_BODY_BYTES" and served: "i64_ok (rp_served rep)"
    and sp: "atom_ok (FString ?s)" "plain_term (FString ?s)"
    using assms(1) by (simp_all add: reply_ok_def Let_def readable_def)
  from len have "length (reply_body rep) < 2 ^ 32" by (simp add: MAX_BODY_BYTES_def)
  note h = frame_header_fields [OF this, of 0 2, simplified]
  have sized: "sized_text MAX_STRING_BYTES ?s" "drop_bom ?s = ?s"
    using sp by (auto simp: sized_text_def text_ok_def drop_bom_def MAX_STRING_BYTES_def)
  have op: "sized_text MAX_BODY_BYTES (js ''rpc/status'')" "drop_bom (js ''rpc/status'') = js ''rpc/status''"
    using name_ok_sized [OF status_names(1)] by blast+
  let ?tail = "i64_bytes (rp_served rep) @ [0, 0, 1] @ wire t"
  have body: "reply_body rep = word_of_nat 1 # text_bytes ?s @ (word_of_nat 6 # text_bytes (js ''rpc/status'') @ ?tail)"
    using assms by (simp add: reply_body_def opt_bytes_def)
  have d0: "drop 26 ?fr = word_of_nat 1 # text_bytes ?s @ (word_of_nat 6 # text_bytes (js ''rpc/status'') @ ?tail)"
    by (simp add: reply_frame_def body)
  define o1 where "o1 = 26 + (1 + length (text_bytes ?s))"
  define o2 where "o2 = o1 + (1 + length (text_bytes (js ''rpc/status'')))"
  have d1: "drop o1 ?fr = word_of_nat 6 # text_bytes (js ''rpc/status'') @ ?tail"
    using arg_cong [OF d0, of "drop (1 + length (text_bytes ?s))"] by (simp add: o1_def add.commute)
  have d2: "drop o2 ?fr = ?tail"
    using arg_cong [OF d1, of "drop (1 + length (text_bytes (js ''rpc/status'')))"] by (simp add: o2_def add.commute)
  have "length ?fr - o2 = length ?tail" using d2 by (metis length_drop)
  moreover have "wire t \<noteq> []" by (cases t) simp_all
  ultimately have long: "o2 + 11 < length ?fr" by (cases "wire t") simp_all
  have f1: "status_text 1 ?fr 26 = Inr (?s, o1)"
    using status_text_at [OF d0 sized(1)] sized(2) by (simp add: o1_def)
  have f2: "status_text 6 ?fr o1 = Inr (js ''rpc/status'', o2)"
    using status_text_at [OF d1 op(1)] op(2) by (simp add: o2_def)
  have c: "bytes_at o2 8 ?fr = i64_bytes (rp_served rep)" "bytes_at (o2 + 8) 1 ?fr = [0]"
    "bytes_at (o2 + 9) 1 ?fr = [0]" "bytes_at (o2 + 10) 1 ?fr = [1]"
    unfolding bytes_at_shift d2 by (simp_all add: bytes_at_def d2)
  have "length ?fr = 26 + length (reply_body rep)" by (simp add: reply_frame_def)
  then show ?thesis
    using f1 f2 c long assms(6) served h
    by (simp add: decodeStatusServedVersion_def HEADER_BYTES_def reply_frame_def [symmetric] Let_def
        le_int_i64_bytes i64_ok_def I64_MIN_def I64_MAX_def) (simp add: reply_frame_def h)
qed

section \<open>The FRAMLOG header\<close>

definition framlog_header :: "jstr \<Rightarrow> byte list" where
  "framlog_header s = FRAMLOG_MAGIC @ le_bytes 2 1 @ le_bytes 2 0 @ le_bytes 4 (length (utf8_encode s)) @ utf8_encode s"

lemma parseFramlogHeader_header:
  assumes "sized_text MAX_SPACE_BYTES s" "drop_bom s \<noteq> []"
  shows "parseFramlogHeader (Some (framlog_header s @ rest)) = Inr (drop_bom s)"
proof -
  have "s \<noteq> []" using assms(2) by (auto simp: drop_bom_def starts_with_bom_def)
  with assms show ?thesis
    by (simp add: parseFramlogHeader_def framlog_header_def FRAMLOG_MAGIC_def bytes_at_def Let_def
        sized_text_def text_decode_drop_bom)
qed

end
