(* ===== verification/Storage.thy ===== *)
theory Storage
  imports FramTerm "HOL-Library.AList" "HOL-Library.List_Lexorder"
begin

text \<open>
  Durable storage of \<^verbatim>\<open>clients/cloudflare-do/src/adapter.mjs\<close>: \<open>ChunkedRange\<close>, \<open>DurableFramStore\<close> and
  \<open>MemoryStorage\<close>. The Durable Object storage itself is outside the repository: its operations are the
  record \<open>kv\<close>, its documented behaviour the locale \<open>kv_storage\<close>, and \<open>MemoryStorage\<close> is the instance
  the repository contains.
\<close>

section \<open>Key-value storage\<close>

text \<open>What the adapter stores: a chunk, the meta object of a range, and the restore marker.\<close>

record restore_marker =
  mk_format :: jstr
  mk_spaceId :: jstr
  mk_servedVersion :: jstr
  mk_byteLength :: nat
  mk_sha256 :: jstr

datatype kv_value =
    VBytes "byte list"
  | VMeta nat nat
  | VMarker restore_marker

record 's kv =
  kv_get :: "'s \<Rightarrow> jstr \<Rightarrow> kv_value option"
  kv_get_many :: "'s \<Rightarrow> jstr list \<Rightarrow> (jstr \<times> kv_value) list"
  kv_put :: "'s \<Rightarrow> jstr \<Rightarrow> kv_value \<Rightarrow> 's"
  kv_put_many :: "'s \<Rightarrow> (jstr \<times> kv_value) list \<Rightarrow> 's"
  kv_delete_many :: "'s \<Rightarrow> jstr list \<Rightarrow> 's"
  kv_list :: "'s \<Rightarrow> jstr \<Rightarrow> jstr option \<Rightarrow> nat \<Rightarrow> (jstr \<times> kv_value) list"
  kv_transaction :: "'s \<Rightarrow> ('s \<Rightarrow> 's res) \<Rightarrow> 's \<times> unit res"

definition starts_with :: "jstr \<Rightarrow> jstr \<Rightarrow> bool" where
  "starts_with p k \<longleftrightarrow> take (length p) k = p"

section \<open>MemoryStorage\<close>

text \<open>The \<open>Map\<close> is an association list in insertion order.\<close>

type_synonym memory = "(jstr \<times> kv_value) list"

definition mem_get :: "memory \<Rightarrow> jstr \<Rightarrow> kv_value option" where
  "mem_get m k = map_of m k"

definition mem_get_many :: "memory \<Rightarrow> jstr list \<Rightarrow> (jstr \<times> kv_value) list" where
  "mem_get_many m ks =
     fold (\<lambda>k out. case map_of m k of None \<Rightarrow> out | Some v \<Rightarrow> AList.update k v out) ks []"

definition mem_put :: "memory \<Rightarrow> jstr \<Rightarrow> kv_value \<Rightarrow> memory" where
  "mem_put m k v = AList.update k v m"

definition mem_put_many :: "memory \<Rightarrow> (jstr \<times> kv_value) list \<Rightarrow> memory" where
  "mem_put_many m es = fold (\<lambda>(k, v) m. AList.update k v m) es m"

definition mem_delete_many :: "memory \<Rightarrow> jstr list \<Rightarrow> memory" where
  "mem_delete_many m ks = fold AList.delete ks m"

definition mem_list :: "memory \<Rightarrow> jstr \<Rightarrow> jstr option \<Rightarrow> nat \<Rightarrow> (jstr \<times> kv_value) list" where
  "mem_list m p startAfter lim =
     (let keys = take lim (sort (filter
        (\<lambda>k. starts_with p k \<and> (case startAfter of None \<Rightarrow> True | Some a \<Rightarrow> a < k)) (map fst m)))
      in map (\<lambda>k. (k, the (map_of m k))) keys)"

text \<open>The body works on a copy; a throwing body publishes nothing.\<close>

definition mem_transaction :: "memory \<Rightarrow> (memory \<Rightarrow> memory res) \<Rightarrow> memory \<times> unit res" where
  "mem_transaction m body = (case body m of Inl e \<Rightarrow> (m, Inl e) | Inr m' \<Rightarrow> (m', Inr ()))"

definition memory_kv :: "memory kv" where
  "memory_kv = \<lparr>kv_get = mem_get, kv_get_many = mem_get_many, kv_put = mem_put, kv_put_many = mem_put_many,
     kv_delete_many = mem_delete_many, kv_list = mem_list, kv_transaction = mem_transaction\<rparr>"

section \<open>ChunkedRange\<close>

record range =
  prefix :: jstr
  chunkBytes :: nat
  batchKeys :: nat
  chunkCount :: "nat option"
  puts :: nat
  gets :: nat
  deletes :: nat
  bytesWritten :: nat
  bytesRead :: nat

definition new_range :: "jstr \<Rightarrow> nat \<Rightarrow> nat \<Rightarrow> range" where
  "new_range p cb bk = \<lparr>prefix = p, chunkBytes = cb, batchKeys = min bk 128, chunkCount = None,
     puts = 0, gets = 0, deletes = 0, bytesWritten = 0, bytesRead = 0\<rparr>"

definition metaKey :: "range \<Rightarrow> jstr" where
  "metaKey r = prefix r @ js ''meta''"

definition chunkKey :: "range \<Rightarrow> nat \<Rightarrow> jstr" where
  "chunkKey r i = prefix r @ pad_start 8 (nat_text 10 i)"

definition ceil_div :: "nat \<Rightarrow> nat \<Rightarrow> nat" where
  "ceil_div a b = (a + b - 1) div b"

text \<open>The consecutive batches of a list, \<open>n\<close> elements each.\<close>

fun batches :: "nat \<Rightarrow> 'a list \<Rightarrow> 'a list list" where
  "batches n [] = []"
| "batches n (x # xs) = (x # take (n - 1) xs) # batches n (drop (n - 1) xs)"

text \<open>\<open>Uint8Array.set\<close> within the array.\<close>

definition set_bytes :: "byte list \<Rightarrow> nat \<Rightarrow> byte list \<Rightarrow> byte list" where
  "set_bytes img at bs = take at img @ bs @ drop (at + length bs) img"

text \<open>
  One chunk of a \<open>load\<close>. A value that is no chunk is not stored under a chunk key by this code; reading
  one is a type error of the model.
\<close>

definition load_chunk ::
  "(jstr \<times> kv_value) list \<Rightarrow> nat \<Rightarrow> nat \<Rightarrow> byte list \<times> range \<Rightarrow> (byte list \<times> range) res" where
  "load_chunk got len i st =
     (case st of (img, r) \<Rightarrow>
        (case map_of got (chunkKey r i) of
           None \<Rightarrow> Inl PlainError
         | Some (VBytes bs) \<Rightarrow>
             let at = i * chunkBytes r
             in Inr (set_bytes img at (take (min (length bs) (len - at)) bs),
                     r\<lparr>bytesRead := bytesRead r + length bs\<rparr>)
         | Some _ \<Rightarrow> Inl JsTypeError))"

fun load_all :: "('a \<Rightarrow> 'b \<Rightarrow> 'b res) \<Rightarrow> 'a list \<Rightarrow> 'b \<Rightarrow> 'b res" where
  "load_all f [] st = Inr st"
| "load_all f (x # xs) st = rbind (f x st) (load_all f xs)"

definition load_batch ::
  "'s kv \<Rightarrow> 's \<Rightarrow> nat \<Rightarrow> nat list \<Rightarrow> byte list \<times> range \<Rightarrow> (byte list \<times> range) res" where
  "load_batch ops s len idx st =
     (case st of (img, r) \<Rightarrow>
        let got = kv_get_many ops s (map (chunkKey r) idx)
        in load_all (load_chunk got len) idx (img, r\<lparr>gets := gets r + 1\<rparr>))"

definition range_load :: "'s kv \<Rightarrow> 's \<Rightarrow> range \<Rightarrow> (byte list \<times> range) res" where
  "range_load ops s r =
     (let r1 = r\<lparr>gets := gets r + 1\<rparr>
      in case kv_get ops s (metaKey r) of
        None \<Rightarrow> Inr ([], r1\<lparr>chunkCount := Some 0\<rparr>)
      | Some (VMeta len cb) \<Rightarrow>
          let r2 = (if cb \<noteq> 0 then r1\<lparr>chunkBytes := cb\<rparr> else r1);
              chunks = ceil_div len (chunkBytes r2)
          in load_all (load_batch ops s len) (batches (batchKeys r2) [0..<chunks])
               (replicate len 0, r2\<lparr>chunkCount := Some chunks\<rparr>)
      | Some _ \<Rightarrow> Inl JsTypeError)"

record plan =
  writes :: "(jstr \<times> kv_value) list"
  stale :: "jstr list"
  plan_chunks :: nat
  plan_length :: nat
  publishMeta :: bool

definition slice :: "nat \<Rightarrow> nat \<Rightarrow> byte list \<Rightarrow> byte list" where
  "slice from to bs = take (to - from) (drop from bs)"

definition range_plan :: "range \<Rightarrow> byte list \<Rightarrow> nat \<Rightarrow> nat \<Rightarrow> plan res" where
  "range_plan r bs len lowWater =
     (case chunkCount r of
        None \<Rightarrow> Inl PlainError
      | Some count \<Rightarrow>
          let first = lowWater div chunkBytes r;
              chunks = ceil_div len (chunkBytes r)
          in Inr \<lparr>writes = map (\<lambda>i. let at = i * chunkBytes r in
                      (chunkKey r i, VBytes (slice at (min (at + chunkBytes r) len) bs))) [first..<chunks],
                   stale = map (chunkKey r) [chunks..<count],
                   plan_chunks = chunks, plan_length = len, publishMeta = True\<rparr>)"

text \<open>
  \<open>clearPlan\<close>: the pages of the key inventory, with fuel for the number of pages; \<open>None\<close> when it runs
  out.
\<close>

definition known_suffix :: "jstr \<Rightarrow> bool" where
  "known_suffix s \<longleftrightarrow> s = js ''meta'' \<or> length s = 8 \<and> list_all decimal_digit s"

definition known_key :: "jstr \<Rightarrow> jstr \<Rightarrow> bool" where
  "known_key p k \<longleftrightarrow> known_suffix (if starts_with p k then drop (length p) k else [])"

definition clear_page :: "range \<Rightarrow> jstr option \<Rightarrow> jstr list \<Rightarrow> unit res" where
  "clear_page r startAfter keys =
     (if list_all (\<lambda>k. known_key (prefix r) k \<and> (case startAfter of None \<Rightarrow> True | Some a \<Rightarrow> a < k)) keys
      then Inr () else Inl PlainError)"

fun clear_keys :: "nat \<Rightarrow> 's kv \<Rightarrow> 's \<Rightarrow> range \<Rightarrow> jstr option \<Rightarrow> jstr list res option" where
  "clear_keys 0 ops s r startAfter = None"
| "clear_keys (Suc fuel) ops s r startAfter =
     (let keys = sort (map fst (kv_list ops s (prefix r) startAfter (batchKeys r)))
      in case clear_page r startAfter keys of
           Inl e \<Rightarrow> Some (Inl e)
         | Inr _ \<Rightarrow>
             if length keys < batchKeys r then Some (Inr keys)
             else map_option (\<lambda>m. rbind m (\<lambda>more. Inr (keys @ more)))
                    (clear_keys fuel ops s r (Some (last keys))))"

definition clearPlan :: "nat \<Rightarrow> 's kv \<Rightarrow> 's \<Rightarrow> range \<Rightarrow> plan res option" where
  "clearPlan fuel ops s r =
     map_option (\<lambda>m. rbind m (\<lambda>keys. Inr \<lparr>writes = [], stale = keys, plan_chunks = 0, plan_length = 0,
                                         publishMeta = False\<rparr>))
       (clear_keys fuel ops s r None)"

definition value_size :: "kv_value \<Rightarrow> nat" where
  "value_size v = (case v of VBytes bs \<Rightarrow> length bs | _ \<Rightarrow> 0)"

definition apply_write :: "'s kv \<Rightarrow> (jstr \<times> kv_value) list \<Rightarrow> 's \<times> range \<Rightarrow> 's \<times> range" where
  "apply_write ops batch st =
     (case st of (s, r) \<Rightarrow>
        (kv_put_many ops s batch,
         r\<lparr>puts := puts r + 1, bytesWritten := bytesWritten r + sum_list (map (value_size \<circ> snd) batch)\<rparr>))"

definition apply_delete :: "'s kv \<Rightarrow> jstr list \<Rightarrow> 's \<times> range \<Rightarrow> 's \<times> range" where
  "apply_delete ops batch st =
     (case st of (s, r) \<Rightarrow> (kv_delete_many ops s batch, r\<lparr>deletes := deletes r + 1\<rparr>))"

definition applyTo :: "'s kv \<Rightarrow> plan \<Rightarrow> 's \<times> range \<Rightarrow> 's \<times> range" where
  "applyTo ops p st =
     (let st1 = fold (apply_write ops) (batches (batchKeys (snd st)) (writes p)) st;
          st2 = fold (apply_delete ops) (batches (batchKeys (snd st)) (stale p)) st1
      in if publishMeta p
         then (case st2 of (s, r) \<Rightarrow>
                 (kv_put ops s (metaKey r) (VMeta (plan_length p) (chunkBytes r)), r\<lparr>puts := puts r + 1\<rparr>))
         else st2)"

definition settle :: "plan \<Rightarrow> range \<Rightarrow> range" where
  "settle p r = r\<lparr>chunkCount := Some (plan_chunks p)\<rparr>"

section \<open>DurableFramStore\<close>

datatype which = Log | Image

record store =
  logRange :: range
  imageRange :: range
  st_commits :: nat

definition get_range :: "which \<Rightarrow> store \<Rightarrow> range" where
  "get_range w st = (case w of Log \<Rightarrow> logRange st | Image \<Rightarrow> imageRange st)"

definition set_range :: "which \<Rightarrow> range \<Rightarrow> store \<Rightarrow> store" where
  "set_range w r st = (case w of Log \<Rightarrow> st\<lparr>logRange := r\<rparr> | Image \<Rightarrow> st\<lparr>imageRange := r\<rparr>)"

definition new_store :: "nat \<Rightarrow> nat \<Rightarrow> store" where
  "new_store cb bk = \<lparr>logRange = new_range (js ''framlog/'') cb bk,
     imageRange = new_range (js ''framimage/'') cb bk, st_commits = 0\<rparr>"

definition store_load :: "'s kv \<Rightarrow> 's \<Rightarrow> which \<Rightarrow> store \<Rightarrow> (byte list \<times> store) res" where
  "store_load ops s w st =
     rbind (range_load ops s (get_range w st)) (\<lambda>(bs, r). Inr (bs, set_range w r st))"

record part =
  pt_which :: which
  pt_bytes :: "byte list"
  pt_length :: nat
  pt_lowWater :: nat

text \<open>The plans are made when \<open>commit\<close> is called.\<close>

definition stage :: "store \<Rightarrow> part list \<Rightarrow> (which \<times> plan) list res" where
  "stage st parts =
     rmap (\<lambda>p. rbind (range_plan (get_range (pt_which p) st) (pt_bytes p) (pt_length p) (pt_lowWater p))
                 (\<lambda>pl. Inr (pt_which p, pl))) parts"

definition apply_part :: "'s kv \<Rightarrow> which \<times> plan \<Rightarrow> 's \<times> store \<Rightarrow> 's \<times> store" where
  "apply_part ops wp st =
     (case wp of (w, pl) \<Rightarrow>
        (case applyTo ops pl (fst st, get_range w (snd st)) of (s, r) \<Rightarrow> (s, set_range w r (snd st))))"

definition settle_part :: "which \<times> plan \<Rightarrow> store \<Rightarrow> store" where
  "settle_part wp st = (case wp of (w, pl) \<Rightarrow> set_range w (settle pl (get_range w st)) st)"

text \<open>
  The transaction of \<open>commit\<close> and \<open>replace\<close>. The statistics of a rejected transaction are not modelled.
\<close>

definition run_transaction ::
  "'s kv \<Rightarrow> (which \<times> plan) list \<Rightarrow> ('s \<Rightarrow> 's) \<Rightarrow> 's \<times> store \<Rightarrow> ('s \<times> store) \<times> unit res" where
  "run_transaction ops staged extra st =
     (case kv_transaction ops (fst st) (\<lambda>txn. Inr (extra (fst (fold (apply_part ops) staged (txn, snd st))))) of
        (s', Inl e) \<Rightarrow> ((s', snd st), Inl e)
      | (s', Inr _) \<Rightarrow>
          ((s', (fold settle_part staged (snd (fold (apply_part ops) staged (fst st, snd st))))
             \<lparr>st_commits := st_commits (snd st) + 1\<rparr>), Inr ()))"

definition store_commit :: "'s kv \<Rightarrow> part list \<Rightarrow> 's \<times> store \<Rightarrow> ('s \<times> store) \<times> unit res" where
  "store_commit ops parts st =
     (case stage (snd st) parts of
        Inl e \<Rightarrow> (st, Inl e)
      | Inr staged \<Rightarrow> run_transaction ops staged (\<lambda>s. s) st)"

definition FRAMLOG_RESTORE_KEY :: jstr where
  "FRAMLOG_RESTORE_KEY = js ''framrestore/pending''"

text \<open>\<open>replace\<close> as the restore calls it: new log bytes, a planned clear of the image, and the marker.\<close>

definition store_replace ::
  "'s kv \<Rightarrow> byte list \<Rightarrow> plan \<Rightarrow> restore_marker \<Rightarrow> 's \<times> store \<Rightarrow> ('s \<times> store) \<times> unit res" where
  "store_replace ops bs clear marker st =
     (case range_plan (logRange (snd st)) bs (length bs) 0 of
        Inl e \<Rightarrow> (st, Inl e)
      | Inr pl \<Rightarrow>
          run_transaction ops [(Log, pl), (Image, clear)]
            (\<lambda>s. kv_put ops s FRAMLOG_RESTORE_KEY (VMarker marker)) st)"

section \<open>What the adapter relies on\<close>

locale kv_storage =
  fixes ops :: "'s kv" and valid :: "'s \<Rightarrow> bool"
  assumes get_put: "kv_get ops (kv_put ops s k v) k' = (if k' = k then Some v else kv_get ops s k')"
    and get_put_many: "distinct (map fst es) \<Longrightarrow>
      kv_get ops (kv_put_many ops s es) k = (case map_of es k of Some v \<Rightarrow> Some v | None \<Rightarrow> kv_get ops s k)"
    and get_delete_many: "kv_get ops (kv_delete_many ops s ks) k = (if k \<in> set ks then None else kv_get ops s k)"
    and get_many: "map_of (kv_get_many ops s ks) k = (if k \<in> set ks then kv_get ops s k else None)"
    and list_keys: "valid s \<Longrightarrow> \<exists>ks. sorted ks \<and> distinct ks \<and>
      set ks = {k. kv_get ops s k \<noteq> None \<and> starts_with p k \<and> (case a of None \<Rightarrow> True | Some b \<Rightarrow> b < k)} \<and>
      map fst (kv_list ops s p a lim) = take lim ks"
    and commit_body: "kv_transaction ops s body = (s', Inr u) \<Longrightarrow> body s = Inr s'"
    and reject: "kv_transaction ops s body = (s', Inl e) \<Longrightarrow> s' = s"
    and valid_put: "valid s \<Longrightarrow> valid (kv_put ops s k v)"
    and valid_put_many: "valid s \<Longrightarrow> valid (kv_put_many ops s es)"
    and valid_delete_many: "valid s \<Longrightarrow> valid (kv_delete_many ops s ks)"

subsection \<open>MemoryStorage is such a storage\<close>

lemma mem_put_many_get:
  "map_of (mem_put_many m es) k = (case map_of (rev es) k of Some v \<Rightarrow> Some v | None \<Rightarrow> map_of m k)"
  by (induction es arbitrary: m) (auto simp: mem_put_many_def update_conv' map_add_def split: option.splits)

lemma mem_delete_many_get: "map_of (mem_delete_many m ks) k = (if k \<in> set ks then None else map_of m k)"
  by (induction ks arbitrary: m) (auto simp: mem_delete_many_def delete_conv')

lemma mem_get_many_get: "map_of (mem_get_many m ks) k = (if k \<in> set ks then map_of m k else None)"
proof -
  have "map_of (fold (\<lambda>k out. case map_of m k of None \<Rightarrow> out | Some v \<Rightarrow> AList.update k v out) ks out) k =
      (if k \<in> set ks \<and> map_of m k \<noteq> None then map_of m k else map_of out k)" for out
    by (induction ks arbitrary: out) (auto simp: update_conv' split: option.splits)
  then show ?thesis by (auto simp: mem_get_many_def)
qed

lemma mem_put_many_distinct: "distinct (map fst m) \<Longrightarrow> distinct (map fst (mem_put_many m es))"
  by (induction es arbitrary: m) (auto simp: mem_put_many_def distinct_update)

lemma mem_delete_many_distinct: "distinct (map fst m) \<Longrightarrow> distinct (map fst (mem_delete_many m ks))"
  by (induction ks arbitrary: m) (auto simp: mem_delete_many_def distinct_delete)

lemma mem_list_keys:
  "distinct (map fst m) \<Longrightarrow>
     \<exists>ks. sorted ks \<and> distinct ks \<and>
      set ks = {k. map_of m k \<noteq> None \<and> starts_with p k \<and> (case a of None \<Rightarrow> True | Some b \<Rightarrow> b < k)} \<and>
      map fst (mem_list m p a lim) = take lim ks"
  by (intro exI [of _ "sort (filter (\<lambda>k. starts_with p k \<and> (case a of None \<Rightarrow> True | Some b \<Rightarrow> b < k)) (map fst m))"])
    (auto simp: mem_list_def Let_def map_of_eq_None_iff comp_def simp del: map_of_eq_None_iff filter_map
      dest: weak_map_of_SomeI map_of_SomeD intro: rev_image_eqI)

lemma map_of_rev_distinct: "distinct (map fst es) \<Longrightarrow> map_of (rev es) = map_of es"
proof (induction es)
  case (Cons e es)
  then have "fst e \<notin> dom (map_of es)" by (simp add: dom_map_of_conv_image_fst)
  with Cons show ?case by (cases e) (auto simp: map_add_def fun_eq_iff split: option.splits)
qed simp

interpretation mem: kv_storage memory_kv "\<lambda>m. distinct (map fst m)"
proof unfold_locales
  fix s :: memory and es :: "(jstr \<times> kv_value) list" and k
  assume "distinct (map fst es)"
  then show "kv_get memory_kv (kv_put_many memory_kv s es) k =
      (case map_of es k of Some v \<Rightarrow> Some v | None \<Rightarrow> kv_get memory_kv s k)"
    by (simp add: memory_kv_def mem_get_def mem_put_many_get map_of_rev_distinct split: option.splits)
next
  fix s :: memory and p a lim
  assume "distinct (map fst s)"
  from mem_list_keys [OF this, of p a lim]
  show "\<exists>ks. sorted ks \<and> distinct ks \<and>
      set ks = {k. kv_get memory_kv s k \<noteq> None \<and> starts_with p k \<and> (case a of None \<Rightarrow> True | Some b \<Rightarrow> b < k)} \<and>
      map fst (kv_list memory_kv s p a lim) = take lim ks"
    by (simp add: memory_kv_def mem_get_def)
qed (auto simp: memory_kv_def mem_get_def mem_put_def update_conv' mem_delete_many_get mem_get_many_get
    mem_transaction_def distinct_update mem_put_many_distinct mem_delete_many_distinct split: sum.splits)

section \<open>Keys\<close>

lemma chunkKey_inject [simp]: "chunkKey r i = chunkKey r j \<longleftrightarrow> i = j"
proof
  assume "chunkKey r i = chunkKey r j"
  then have "text_nat 10 (pad_start 8 (nat_text 10 i)) = text_nat 10 (pad_start 8 (nat_text 10 j))"
    by (simp add: chunkKey_def)
  then show "i = j" by simp
qed simp

lemma decimal_pad: "list_all decimal_digit (pad_start n (nat_text 10 i))"
  by (auto simp: pad_start_def nat_text_decimal list_all_iff [of _ "replicate _ _"] decimal_digit_def digit_unit_def)

lemma chunkKey_metaKey [simp]: "chunkKey r i \<noteq> metaKey r" "metaKey r \<noteq> chunkKey r i"
proof -
  have "\<not> list_all decimal_digit (js ''meta'')" by (simp add: js_def decimal_digit_def)
  then have "pad_start 8 (nat_text 10 i) \<noteq> js ''meta''" using decimal_pad by metis
  then show "chunkKey r i \<noteq> metaKey r" "metaKey r \<noteq> chunkKey r i"
    by (auto simp: chunkKey_def metaKey_def)
qed

lemma range_keys_cong:
  "prefix r = prefix r' \<Longrightarrow> chunkKey r = chunkKey r'" "prefix r = prefix r' \<Longrightarrow> metaKey r = metaKey r'"
  by (simp_all add: chunkKey_def metaKey_def fun_eq_iff)

lemma starts_with_keys [simp]: "starts_with (prefix r) (chunkKey r i)" "starts_with (prefix r) (metaKey r)"
  by (simp_all add: starts_with_def chunkKey_def metaKey_def)

section \<open>A range holds a byte string\<close>

definition chunk :: "nat \<Rightarrow> nat \<Rightarrow> byte list \<Rightarrow> byte list" where
  "chunk cb i d = take cb (drop (i * cb) d)"

text \<open>
  \<open>stored ops s r d\<close>: the storage holds the bytes \<open>d\<close> in the chunks of the range \<open>r\<close>, whose meta object
  may be absent while there are none, and no other chunk key is present.
\<close>

definition stored :: "'s kv \<Rightarrow> 's \<Rightarrow> range \<Rightarrow> byte list \<Rightarrow> bool" where
  "stored ops s r d \<longleftrightarrow>
     0 < chunkBytes r \<and>
     (d = [] \<and> kv_get ops s (metaKey r) = None \<or>
      kv_get ops s (metaKey r) = Some (VMeta (length d) (chunkBytes r))) \<and>
     (\<forall>i. kv_get ops s (chunkKey r i) =
        (if i < ceil_div (length d) (chunkBytes r) then Some (VBytes (chunk (chunkBytes r) i d)) else None))"

lemma ceil_div_le: "0 < c \<Longrightarrow> i < ceil_div n c \<longleftrightarrow> i * c < n"
  by (auto simp: ceil_div_def less_eq_div_iff_mult_less_eq Suc_le_eq [symmetric] algebra_simps)

lemma ceil_div_0 [simp]: "0 < c \<Longrightarrow> ceil_div 0 c = 0"
  by (simp add: ceil_div_def)

lemma length_chunk: "length (chunk cb i d) = min cb (length d - i * cb)"
  by (simp add: chunk_def)

subsection \<open>Loading\<close>

definition partial_image :: "nat \<Rightarrow> nat \<Rightarrow> byte list \<Rightarrow> byte list" where
  "partial_image cb i d = take (i * cb) d @ replicate (length d - i * cb) 0"

lemma set_chunk:
  assumes "0 < cb" "i * cb < length d"
  shows "set_bytes (partial_image cb i d) (i * cb)
      (take (min (length (chunk cb i d)) (length d - i * cb)) (chunk cb i d)) = partial_image cb (Suc i) d"
proof -
  have "take (length d - i * cb) (chunk cb i d) = chunk cb i d" by (rule take_all) (simp add: length_chunk)
  moreover have "take (Suc i * cb) d = take (i * cb) d @ chunk cb i d"
    by (simp add: chunk_def take_add [symmetric] add.commute)
  moreover have "length d - (i * cb + min cb (length d - i * cb)) = length d - Suc i * cb"
    using assms by simp
  ultimately show ?thesis
    using assms by (simp add: set_bytes_def partial_image_def min_def length_chunk)
qed

lemma load_chunks_range:
  assumes "0 < chunkBytes r" "a \<le> b" "b \<le> ceil_div (length d) (chunkBytes r)"
    "\<And>i. a \<le> i \<Longrightarrow> i < b \<Longrightarrow> map_of got (chunkKey r i) = Some (VBytes (chunk (chunkBytes r) i d))"
  shows "\<exists>n. load_all (load_chunk got (length d)) [a..<b] (partial_image (chunkBytes r) a d, r) =
    Inr (partial_image (chunkBytes r) b d, r\<lparr>bytesRead := n\<rparr>)"
  using assms
proof (induction "b - a" arbitrary: a r)
  case 0
  then show ?case by (auto intro: exI [of _ "bytesRead r"])
next
  case (Suc m)
  then have lt: "a < b" by simp
  let ?cb = "chunkBytes r" and ?r = "r\<lparr>bytesRead := bytesRead r + length (chunk (chunkBytes r) a d)\<rparr>"
  have "a * ?cb < length d" using Suc.prems lt ceil_div_le by (metis less_le_trans)
  then have step: "load_chunk got (length d) a (partial_image ?cb a d, r) = Inr (partial_image ?cb (Suc a) d, ?r)"
    using Suc.prems(4) [of a] lt set_chunk [OF Suc.prems(1)] by (simp add: load_chunk_def Let_def)
  have "\<exists>n. load_all (load_chunk got (length d)) [Suc a..<b] (partial_image (chunkBytes ?r) (Suc a) d, ?r) =
      Inr (partial_image (chunkBytes ?r) b d, ?r\<lparr>bytesRead := n\<rparr>)"
  proof (rule Suc.hyps(1))
    show "m = b - Suc a" using Suc.hyps(2) by simp
    show "map_of got (chunkKey ?r i) = Some (VBytes (chunk (chunkBytes ?r) i d))" if "Suc a \<le> i" "i < b" for i
      using Suc.prems(4) [of i] that by (simp add: chunkKey_def)
  qed (use Suc.prems lt in simp_all)
  then show ?case using step lt by (simp add: upt_conv_Cons)
qed

lemma take_upt_min: "take n [a..<b] = [a..<min (a + n) b]"
  by (cases "a + n \<le> b") (simp_all add: min_def)

lemma batches_upt: "a < b \<Longrightarrow> batches n [a..<b] = [a..<min (a + max 1 n) b] # batches n [min (a + max 1 n) b..<b]"
proof -
  assume lt: "a < b"
  then have "batches n [a..<b] = (a # take (n - 1) [Suc a..<b]) # batches n (drop (n - 1) [Suc a..<b])"
    by (simp add: upt_conv_Cons)
  also have "take (n - 1) [Suc a..<b] = [Suc a..<min (Suc a + (n - 1)) b]" by (rule take_upt_min)
  also have "drop (n - 1) [Suc a..<b] = [Suc a + (n - 1)..<b]" by simp
  also have "Suc a + (n - 1) = a + max 1 n" by (cases n) simp_all
  also have "a # [Suc a..<min (a + max 1 n) b] = [a..<min (a + max 1 n) b]"
    using lt by (simp add: upt_conv_Cons)
  also have "[a + max 1 n..<b] = [min (a + max 1 n) b..<b]" by (simp add: min_def)
  finally show ?thesis .
qed

context kv_storage
begin

lemma load_batches:
  assumes "0 < chunkBytes r" "a \<le> ceil_div (length d) (chunkBytes r)"
    "\<And>i. i < ceil_div (length d) (chunkBytes r) \<Longrightarrow>
       kv_get ops s (chunkKey r i) = Some (VBytes (chunk (chunkBytes r) i d))"
  shows "\<exists>m n. load_all (load_batch ops s (length d)) (batches bk [a..<ceil_div (length d) (chunkBytes r)])
      (partial_image (chunkBytes r) a d, r) =
    Inr (partial_image (chunkBytes r) (ceil_div (length d) (chunkBytes r)) d, r\<lparr>gets := m, bytesRead := n\<rparr>)"
  using assms
proof (induction "ceil_div (length d) (chunkBytes r) - a" arbitrary: a r rule: less_induct)
  case less
  let ?cb = "chunkBytes r" and ?n = "ceil_div (length d) (chunkBytes r)"
  show ?case
  proof (cases "a < ?n")
    case False
    then have "a = ?n" using less.prems(2) by simp
    then show ?thesis by (intro exI [of _ "gets r"] exI [of _ "bytesRead r"]) simp
  next
    case True
    define k where "k = min (a + max 1 bk) ?n"
    have k: "a < k" "k \<le> ?n" using True by (auto simp: k_def)
    let ?r = "r\<lparr>gets := gets r + 1\<rparr>"
    have keys: "map_of (kv_get_many ops s (map (chunkKey r) [a..<k])) (chunkKey ?r i) =
        Some (VBytes (chunk (chunkBytes ?r) i d))" if "a \<le> i" "i < k" for i
      using that k less.prems(3) [of i] by (simp add: get_many chunkKey_def)
    obtain n where first: "load_batch ops s (length d) [a..<k] (partial_image ?cb a d, r) =
        Inr (partial_image ?cb k d, ?r\<lparr>bytesRead := n\<rparr>)"
      using load_chunks_range [of ?r a k d "kv_get_many ops s (map (chunkKey r) [a..<k])"] keys k less.prems(1)
      by (auto simp: load_batch_def)
    let ?r' = "?r\<lparr>bytesRead := n\<rparr>"
    have "\<exists>m n. load_all (load_batch ops s (length d)) (batches bk [k..<ceil_div (length d) (chunkBytes ?r')])
        (partial_image (chunkBytes ?r') k d, ?r') =
      Inr (partial_image (chunkBytes ?r') (ceil_div (length d) (chunkBytes ?r')) d, ?r'\<lparr>gets := m, bytesRead := n\<rparr>)"
    proof (rule less.hyps)
      show "kv_get ops s (chunkKey ?r' i) = Some (VBytes (chunk (chunkBytes ?r') i d))"
        if "i < ceil_div (length d) (chunkBytes ?r')" for i
        using less.prems(3) [of i] that by (simp add: chunkKey_def)
    qed (use k less.prems(1) in auto)
    then show ?thesis
      unfolding batches_upt [OF True] k_def [symmetric] load_all.simps first rbind.simps by simp
  qed
qed

lemma load_stored:
  assumes "stored ops s r d" "prefix r0 = prefix r" "0 < chunkBytes r0"
  shows "\<exists>r'. range_load ops s r0 = Inr (d, r') \<and> prefix r' = prefix r \<and> batchKeys r' = batchKeys r0 \<and>
    chunkCount r' = Some (ceil_div (length d) (chunkBytes r')) \<and> stored ops s r' d"
proof (cases "kv_get ops s (metaKey r)")
  case None
  with assms(1) have d: "d = []" by (simp add: stored_def)
  let ?r' = "r0\<lparr>gets := gets r0 + 1, chunkCount := Some 0\<rparr>"
  have keys: "chunkKey ?r' = chunkKey r" "metaKey ?r' = metaKey r" "metaKey r0 = metaKey r"
    using assms(2) range_keys_cong [of ?r' r] range_keys_cong [of r0 r] by simp_all
  have "range_load ops s r0 = Inr (d, ?r')" using None d keys by (simp add: range_load_def)
  moreover have "stored ops s ?r' d"
    using assms(1,3) None d unfolding stored_def keys by simp
  ultimately show ?thesis using assms(2,3) d by (intro exI [of _ ?r']) simp
next
  case (Some v)
  then have v: "kv_get ops s (metaKey r) = Some (VMeta (length d) (chunkBytes r))" and cb: "0 < chunkBytes r"
    using assms(1) by (auto simp: stored_def)
  let ?n = "ceil_div (length d) (chunkBytes r)"
  define r2 where "r2 = r0\<lparr>gets := Suc (gets r0), chunkBytes := chunkBytes r, chunkCount := Some ?n\<rparr>"
  have same: "chunkKey r2 = chunkKey r" "metaKey r2 = metaKey r" "chunkBytes r2 = chunkBytes r" "metaKey r0 = metaKey r"
    using assms(2) range_keys_cong [of r2 r] range_keys_cong [of r0 r] by (simp_all add: r2_def)
  have chunks: "kv_get ops s (chunkKey r2 i) = Some (VBytes (chunk (chunkBytes r2) i d))"
    if "i < ceil_div (length d) (chunkBytes r2)" for i
    using assms(1) that same by (simp add: stored_def)
  have p0: "partial_image (chunkBytes r2) 0 d = replicate (length d) 0" by (simp add: partial_image_def)
  have "length d \<le> ?n * chunkBytes r" using ceil_div_le [OF cb, of ?n "length d"] by simp
  then have pn: "partial_image (chunkBytes r2) (ceil_div (length d) (chunkBytes r2)) d = d"
    by (simp add: partial_image_def same)
  from load_batches [of r2 0 d s "batchKeys r0"] chunks cb obtain m n where
    "load_all (load_batch ops s (length d)) (batches (batchKeys r0) [0..<?n]) (replicate (length d) 0, r2) =
      Inr (d, r2\<lparr>gets := m, bytesRead := n\<rparr>)"
    unfolding p0 pn using same by auto
  then have "range_load ops s r0 = Inr (d, r2\<lparr>gets := m, bytesRead := n\<rparr>)"
    using v cb same by (simp add: range_load_def Let_def r2_def)
  moreover have "stored ops s (r2\<lparr>gets := m, bytesRead := n\<rparr>) d"
  proof -
    have "chunkKey (r2\<lparr>gets := m, bytesRead := n\<rparr>) = chunkKey r" "metaKey (r2\<lparr>gets := m, bytesRead := n\<rparr>) = metaKey r"
      using assms(2) by (intro range_keys_cong; simp add: r2_def)+
    with assms(1) same(3) show ?thesis by (simp add: stored_def)
  qed
  ultimately show ?thesis
    using assms(2) by (intro exI [of _ "r2\<lparr>gets := m, bytesRead := n\<rparr>"]) (simp add: r2_def)
qed

subsection \<open>Applying a plan\<close>

lemma apply_writes:
  "distinct (map fst es) \<Longrightarrow>
     kv_get ops (fst (fold (apply_write ops) (batches n es) (s, r))) k =
       (case map_of es k of Some v \<Rightarrow> Some v | None \<Rightarrow> kv_get ops s k)"
proof (induction n es arbitrary: s r rule: batches.induct)
  case (2 n x xs)
  let ?b = "x # take (n - 1) xs" and ?rest = "drop (n - 1) xs"
  have split: "x # xs = ?b @ ?rest" by simp
  with 2(2) have d: "distinct (map fst (?b @ ?rest))" by metis
  have "fold (apply_write ops) (batches n (x # xs)) (s, r) =
      fold (apply_write ops) (batches n ?rest) (apply_write ops ?b (s, r))" by simp
  moreover obtain s1 r1 where s1: "apply_write ops ?b (s, r) = (s1, r1)" "s1 = kv_put_many ops s ?b"
    by (simp add: apply_write_def)
  moreover have dr: "distinct (map fst ?rest)" using d by (simp only: map_append distinct_append)
  ultimately have "kv_get ops (fst (fold (apply_write ops) (batches n (x # xs)) (s, r))) k =
      (case map_of ?rest k of Some v \<Rightarrow> Some v | None \<Rightarrow> kv_get ops s1 k)"
    using 2(1) [OF dr, of s1 r1] by simp
  then have "kv_get ops (fst (fold (apply_write ops) (batches n (x # xs)) (s, r))) k =
      (case map_of ?rest k of Some v \<Rightarrow> Some v | None \<Rightarrow> kv_get ops (kv_put_many ops s ?b) k)"
    unfolding s1(2) .
  also have "\<dots> = (case map_of (?b @ ?rest) k of Some v \<Rightarrow> Some v | None \<Rightarrow> kv_get ops s k)"
  proof -
    have "distinct (map fst ?b)" using d by (simp only: map_append distinct_append)
    note gp = get_put_many [OF this, of s k]
    have app: "map_of (?b @ ?rest) k = (case map_of ?b k of None \<Rightarrow> map_of ?rest k | Some v \<Rightarrow> Some v)"
      by (simp only: map_of_append map_add_def)
    have none: "map_of ?b k = None" if "map_of ?rest k = Some v" for v
    proof -
      have "k \<in> fst ` set ?rest" using that by (metis map_of_SomeD rev_image_eqI fst_conv)
      moreover have "fst ` set ?b \<inter> fst ` set ?rest = {}" using d by (simp only: map_append distinct_append set_map)
      ultimately have "k \<notin> fst ` set ?b" by blast
      then show ?thesis by (simp only: map_of_eq_None_iff simp_thms)
    qed
    show ?thesis
    proof (cases "map_of ?rest k")
      case None
      then show ?thesis unfolding gp app by (cases "map_of ?b k") (simp_all only: option.case)
    next
      case (Some v)
      then show ?thesis unfolding gp app none [OF Some] by (simp only: option.case)
    qed
  qed
  finally show ?case unfolding split [symmetric] .
qed simp

lemma apply_deletes:
  "kv_get ops (fst (fold (apply_delete ops) (batches n ks) (s, r))) k = (if k \<in> set ks then None else kv_get ops s k)"
proof (induction n ks arbitrary: s r rule: batches.induct)
  case (2 n x xs)
  have "set (x # xs) = set (x # take (n - 1) xs) \<union> set (drop (n - 1) xs)"
    by (metis append_take_drop_id set_append append_Cons)
  with 2 show ?case by (simp add: apply_delete_def get_delete_many)
qed simp

end

text \<open>What a plan leaves alone.\<close>

definition same_geometry :: "range \<Rightarrow> range \<Rightarrow> bool" where
  "same_geometry r r' \<longleftrightarrow> prefix r' = prefix r \<and> chunkBytes r' = chunkBytes r \<and> batchKeys r' = batchKeys r \<and>
     chunkCount r' = chunkCount r"

lemma apply_writes_geometry: "same_geometry r (snd (fold (apply_write ops) bs (s, r)))"
proof (induction bs arbitrary: s r)
  case (Cons b bs)
  obtain s1 r1 where s1: "apply_write ops b (s, r) = (s1, r1)" "same_geometry r r1"
    by (simp add: apply_write_def same_geometry_def)
  with Cons [of r1 s1] show ?case by (simp add: same_geometry_def)
qed (simp add: same_geometry_def)

lemma apply_deletes_geometry: "same_geometry r (snd (fold (apply_delete ops) bs (s, r)))"
proof (induction bs arbitrary: s r)
  case (Cons b bs)
  obtain s1 r1 where s1: "apply_delete ops b (s, r) = (s1, r1)" "same_geometry r r1"
    by (simp add: apply_delete_def same_geometry_def)
  with Cons [of r1 s1] show ?case by (simp add: same_geometry_def)
qed (simp add: same_geometry_def)

lemma applyTo_split:
  "\<exists>s1 r1 s2 r2. fold (apply_write ops) (batches (batchKeys r) (writes p)) (s, r) = (s1, r1) \<and>
     fold (apply_delete ops) (batches (batchKeys r) (stale p)) (s1, r1) = (s2, r2) \<and> same_geometry r r2 \<and>
     applyTo ops p (s, r) = (if publishMeta p
       then (kv_put ops s2 (metaKey r) (VMeta (plan_length p) (chunkBytes r)), r2\<lparr>puts := puts r2 + 1\<rparr>)
       else (s2, r2))"
proof -
  obtain s1 r1 where 1: "fold (apply_write ops) (batches (batchKeys r) (writes p)) (s, r) = (s1, r1)" by force
  obtain s2 r2 where 2: "fold (apply_delete ops) (batches (batchKeys r) (stale p)) (s1, r1) = (s2, r2)" by force
  have "same_geometry r r1" using apply_writes_geometry [of r ops _ s] 1 by (metis snd_conv)
  moreover have "same_geometry r1 r2" using apply_deletes_geometry [of r1 ops _ s1] 2 by (metis snd_conv)
  ultimately have g: "same_geometry r r2" by (simp add: same_geometry_def)
  then have "metaKey r2 = metaKey r" "chunkBytes r2 = chunkBytes r"
    by (simp_all add: same_geometry_def metaKey_def)
  with 1 2 g show ?thesis by (simp add: applyTo_def)
qed

lemma applyTo_geometry: "applyTo ops p (s, r) = (s', r') \<Longrightarrow> same_geometry r r'"
  using applyTo_split [of ops r p s] by (auto simp: same_geometry_def split: if_splits)

lemma map_of_map_inj: "(\<And>i j. f i = f j \<Longrightarrow> i = j) \<Longrightarrow> map_of (map (\<lambda>i. (f i, g i)) xs) (f i) = (if i \<in> set xs then Some (g i) else None)"
  by (induction xs) auto

lemma chunk_take: "(i + 1) * cb \<le> l \<Longrightarrow> chunk cb i (take l d) = chunk cb i d"
  by (simp add: chunk_def drop_take min_def)

lemma slice_chunk:
  "slice (i * cb) (min (i * cb + cb) n) bs = chunk cb i (take n bs)"
  by (auto simp: slice_def chunk_def drop_take min_def)

context kv_storage
begin

lemma applyTo_get:
  assumes "applyTo ops p (s, r) = (s', r')" "distinct (map fst (writes p))"
  shows "kv_get ops s' k =
    (if publishMeta p \<and> k = metaKey r then Some (VMeta (plan_length p) (chunkBytes r))
     else if k \<in> set (stale p) then None
     else case map_of (writes p) k of Some v \<Rightarrow> Some v | None \<Rightarrow> kv_get ops s k)"
proof -
  obtain s1 r1 s2 r2 where e: "fold (apply_write ops) (batches (batchKeys r) (writes p)) (s, r) = (s1, r1)"
    "fold (apply_delete ops) (batches (batchKeys r) (stale p)) (s1, r1) = (s2, r2)"
    "applyTo ops p (s, r) = (if publishMeta p
       then (kv_put ops s2 (metaKey r) (VMeta (plan_length p) (chunkBytes r)), r2\<lparr>puts := puts r2 + 1\<rparr>)
       else (s2, r2))"
    using applyTo_split [of ops r p s] by auto
  have 1: "kv_get ops s1 k = (case map_of (writes p) k of Some v \<Rightarrow> Some v | None \<Rightarrow> kv_get ops s k)"
    using apply_writes [OF assms(2), of "batchKeys r" s r k] e(1) by simp
  have "kv_get ops s2 k = (if k \<in> set (stale p) then None else kv_get ops s1 k)"
    using apply_deletes [of "batchKeys r" "stale p" s1 r1 k] e(2) by simp
  with 1 e(3) assms(1) show ?thesis by (auto simp: get_put split: if_splits)
qed

lemma plan_stored:
  assumes st: "stored ops s r d" and cc: "chunkCount r = Some (ceil_div (length d) (chunkBytes r))"
    and l: "take l d = take l c" "l \<le> length d" "l \<le> length c"
    and buf: "take (length c) bs = c" and pl: "range_plan r bs (length c) l = Inr p"
    and ap: "applyTo ops p (s, r) = (s', r')"
  shows "stored ops s' (settle p r') c \<and>
    chunkCount (settle p r') = Some (ceil_div (length c) (chunkBytes r)) \<and> same_geometry (r\<lparr>chunkCount := Some (ceil_div (length c) (chunkBytes r))\<rparr>) (settle p r') \<and>
    (\<forall>k. k \<noteq> metaKey r \<longrightarrow> (\<forall>i. k \<noteq> chunkKey r i) \<longrightarrow> kv_get ops s' k = kv_get ops s k)"
proof -
  let ?cb = "chunkBytes r"
  have cb: "0 < ?cb" using st by (simp add: stored_def)
  define first where "first = l div ?cb"
  define n where "n = ceil_div (length c) ?cb"
  have p: "writes p = map (\<lambda>i. (chunkKey r i, VBytes (chunk ?cb i c))) [first..<n]"
    "stale p = map (chunkKey r) [n..<ceil_div (length d) ?cb]" "plan_length p = length c" "plan_chunks p = n"
    "publishMeta p"
    using pl cc buf by (auto simp: range_plan_def Let_def first_def n_def slice_chunk)
  have g: "same_geometry r r'" using ap by (rule applyTo_geometry)
  have dist: "distinct (map fst (writes p))"
    by (simp add: p comp_def distinct_map inj_on_def)
  note get = applyTo_get [OF ap dist]
  have meta: "kv_get ops s' (metaKey r) = Some (VMeta (length c) ?cb)" by (simp add: get p)
  have ch: "kv_get ops s' (chunkKey r i) = (if i < n then Some (VBytes (chunk ?cb i c)) else None)" for i
  proof -
    have old: "kv_get ops s (chunkKey r i) = (if i < ceil_div (length d) ?cb then Some (VBytes (chunk ?cb i d)) else None)"
      using st by (simp add: stored_def)
    have w: "map_of (writes p) (chunkKey r i) = (if first \<le> i \<and> i < n then Some (VBytes (chunk ?cb i c)) else None)"
      unfolding p by (subst map_of_map_inj) auto
    have low: "chunk ?cb i d = chunk ?cb i c \<and> i < ceil_div (length d) ?cb \<and> i < n" if "i < first"
    proof -
      have "(i + 1) * ?cb \<le> first * ?cb" using that by (intro mult_le_mono1) simp
      also have "\<dots> \<le> l" by (simp add: first_def)
      finally have le: "(i + 1) * ?cb \<le> l" .
      then have "i * ?cb < l" using cb by simp
      with l(2,3) have "i * ?cb < length d" "i * ?cb < length c" by simp_all
      moreover have "chunk ?cb i d = chunk ?cb i c"
        using chunk_take [OF le, of d] chunk_take [OF le, of c] l(1) by simp
      ultimately show ?thesis using cb by (simp add: ceil_div_le n_def)
    qed
    show ?thesis
      using low old w by (auto simp: get p)
  qed
  have keys: "chunkKey (settle p r') = chunkKey r" "metaKey (settle p r') = metaKey r"
    using g by (intro range_keys_cong; simp add: settle_def same_geometry_def)+
  have size: "chunkBytes (settle p r') = ?cb" using g by (simp add: settle_def same_geometry_def)
  have "stored ops s' (settle p r') c"
    using cb meta ch unfolding stored_def keys size by (simp add: n_def)
  moreover have "kv_get ops s' k = kv_get ops s k" if "k \<noteq> metaKey r" "\<forall>i. k \<noteq> chunkKey r i" for k
  proof -
    have "k \<notin> set (stale p)" "map_of (writes p) k = None"
      using that by (auto simp: p map_of_eq_None_iff)
    with that show ?thesis by (simp add: get)
  qed
  ultimately show ?thesis using g p(4) by (simp add: settle_def same_geometry_def n_def)
qed

end

section \<open>Clearing a range\<close>

lemma sorted_after:
  assumes "sorted ks" "distinct ks" "0 < n" "n \<le> length ks"
  shows "set (drop n ks) = {k \<in> set ks. last (take n ks) < k}"
proof -
  have ne: "take n ks \<noteq> []" using assms(3,4) by (cases ks) auto
  have s: "sorted (take n ks @ drop n ks)" "distinct (take n ks @ drop n ks)"
    using assms(1,2) by simp_all
  have low: "x \<le> last (take n ks)" if "x \<in> set (take n ks)" for x
  proof -
    have "sorted (butlast (take n ks) @ [last (take n ks)])" 
      by (subst append_butlast_last_id [OF ne]) (use s(1) in \<open>simp only: sorted_append\<close>)
    moreover have "x \<in> set (butlast (take n ks) @ [last (take n ks)])" 
      by (subst append_butlast_last_id [OF ne]) (rule that)
    ultimately show ?thesis by (auto simp: sorted_append)
  qed
  have high: "last (take n ks) < y" if "y \<in> set (drop n ks)" for y
  proof -
    have "last (take n ks) \<le> y" using s(1) that last_in_set [OF ne] unfolding sorted_append by blast
    moreover have "last (take n ks) \<noteq> y"
      using s(2) that last_in_set [OF ne] by (auto simp only: distinct_append)
    ultimately show ?thesis by simp
  qed
  have "set ks = set (take n ks) \<union> set (drop n ks)" by (metis append_take_drop_id set_append)
  with low high show ?thesis by (auto simp: not_less [symmetric])
qed

definition inventory :: "'s kv \<Rightarrow> 's \<Rightarrow> jstr \<Rightarrow> jstr option \<Rightarrow> jstr set" where
  "inventory ops s p a =
     {k. kv_get ops s k \<noteq> None \<and> starts_with p k \<and> (case a of None \<Rightarrow> True | Some b \<Rightarrow> b < k)}"

context kv_storage
begin

lemma clear_keys_all:
  assumes "valid s" "0 < batchKeys r" "sorted ks" "distinct ks" "set ks = inventory ops s (prefix r) a" "length ks < fuel"
  shows "clear_keys fuel ops s r a = Some (if list_all (known_key (prefix r)) ks then Inr ks else Inl PlainError)"
  using assms
proof (induction fuel arbitrary: ks a)
  case (Suc fuel)
  let ?n = "batchKeys r"
  have page: "map fst (kv_list ops s (prefix r) a ?n) = take ?n ks"
  proof -
    obtain us where us: "sorted us" "distinct us" "set us = inventory ops s (prefix r) a"
      "map fst (kv_list ops s (prefix r) a ?n) = take ?n us"
      using list_keys [OF assms(1), of "prefix r" a ?n] unfolding inventory_def by blast
    then have "us = ks" using Suc.prems by (metis sorted_distinct_set_unique)
    with us show ?thesis by simp
  qed
  then have keys: "sort (map fst (kv_list ops s (prefix r) a ?n)) = take ?n ks"
    using Suc.prems(3) by (simp add: sorted_sort_id sorted_wrt_take)
  have "list_all (\<lambda>k. case a of None \<Rightarrow> True | Some b \<Rightarrow> b < k) (take ?n ks)"
    using Suc.prems(5) by (auto simp: list_all_iff inventory_def dest!: in_set_takeD)
  then have ok: "clear_page r a (take ?n ks) =
      (if list_all (known_key (prefix r)) (take ?n ks) then Inr () else Inl PlainError)"
    by (auto simp: clear_page_def list_all_iff)
  have parts: "list_all (known_key (prefix r)) ks \<longleftrightarrow>
      list_all (known_key (prefix r)) (take ?n ks) \<and> list_all (known_key (prefix r)) (drop ?n ks)"
    by (metis append_take_drop_id list_all_append)
  show ?case
  proof (cases "length ks < ?n")
    case True
    then show ?thesis using keys ok by (simp add: Let_def)
  next
    case False
    let ?b = "last (take ?n ks)"
    have ne: "take ?n ks \<noteq> []" using False Suc.prems(2) by (cases ks) auto
    then have b: "?b \<in> inventory ops s (prefix r) a"
      using Suc.prems(5) by (metis in_set_takeD last_in_set)
    have "set (drop ?n ks) = inventory ops s (prefix r) (Some ?b)"
      using sorted_after [OF Suc.prems(3,4,2)] False Suc.prems(5) b
      by (auto simp: inventory_def split: option.splits)
    then have "clear_keys fuel ops s r (Some ?b) =
        Some (if list_all (known_key (prefix r)) (drop ?n ks) then Inr (drop ?n ks) else Inl PlainError)"
      using Suc.prems False by (intro Suc.IH) (auto simp: sorted_wrt_drop)
    moreover have "length (take ?n ks) = ?n" using False by simp
    ultimately show ?thesis using keys ok parts by (simp add: Let_def)
  qed
qed simp

text \<open>The inventory is finite, and more fuel than it has keys is enough.\<close>

lemma inventory_list:
  assumes "valid s"
  shows "\<exists>ks. sorted ks \<and> distinct ks \<and> set ks = inventory ops s p a"
  using list_keys [OF assms, of p a] unfolding inventory_def by blast

lemma clearPlan_total:
  assumes "valid s" "0 < batchKeys r" "card (inventory ops s (prefix r) None) < fuel"
  shows "\<exists>ks. sorted ks \<and> distinct ks \<and> set ks = inventory ops s (prefix r) None \<and>
    clearPlan fuel ops s r = Some (if list_all (known_key (prefix r)) ks
      then Inr \<lparr>writes = [], stale = ks, plan_chunks = 0, plan_length = 0, publishMeta = False\<rparr>
      else Inl PlainError)"
proof -
  obtain ks where ks: "sorted ks" "distinct ks" "set ks = inventory ops s (prefix r) None"
    using inventory_list [OF assms(1)] by blast
  then have "length ks < fuel" using assms(3) distinct_card by force
  from clear_keys_all [OF assms(1,2) ks this] ks show ?thesis
    by (intro exI [of _ ks]) (simp add: clearPlan_def)
qed

lemma clearPlan_clears:
  assumes "valid s" "0 < batchKeys r" "0 < chunkBytes r" "card (inventory ops s (prefix r) None) < fuel"
    "clearPlan fuel ops s r = Some (Inr p)" "applyTo ops p (s, r) = (s', r')"
  shows "stored ops s' (settle p r') [] \<and> inventory ops s' (prefix r) None = {} \<and>
    (\<forall>k. \<not> starts_with (prefix r) k \<longrightarrow> kv_get ops s' k = kv_get ops s k)"
proof -
  obtain ks where ks: "set ks = inventory ops s (prefix r) None"
    and "clearPlan fuel ops s r = Some (if list_all (known_key (prefix r)) ks
      then Inr \<lparr>writes = [], stale = ks, plan_chunks = 0, plan_length = 0, publishMeta = False\<rparr>
      else Inl PlainError)"
    using clearPlan_total [OF assms(1,2,4)] by blast
  with assms(5) have p: "writes p = []" "stale p = ks" "\<not> publishMeta p" "plan_chunks p = 0"
    by (auto split: if_splits)
  have get: "kv_get ops s' k = (if k \<in> inventory ops s (prefix r) None then None else kv_get ops s k)" for k
    using applyTo_get [OF assms(6), of k] p ks by simp
  then have none: "kv_get ops s' k = None" if "starts_with (prefix r) k" for k
    using that by (auto simp: inventory_def)
  have g: "same_geometry r r'" using assms(6) by (rule applyTo_geometry)
  have keys: "chunkKey (settle p r') = chunkKey r" "metaKey (settle p r') = metaKey r"
    using g by (intro range_keys_cong; simp add: settle_def same_geometry_def)+
  have "chunkBytes (settle p r') = chunkBytes r" using g by (simp add: settle_def same_geometry_def)
  then have "stored ops s' (settle p r') []"
    using assms(3) none unfolding stored_def keys by simp
  moreover have "inventory ops s' (prefix r) None = {}" using none by (auto simp: inventory_def)
  moreover have "kv_get ops s' k = kv_get ops s k" if "\<not> starts_with (prefix r) k" for k
    using get [of k] that by (simp add: inventory_def)
  ultimately show ?thesis by blast
qed

end

end
