(* ===== verification/HostImage.thy ===== *)
theory HostImage
  imports Storage
begin

text \<open>
  The synchronous side of \<^verbatim>\<open>clients/cloudflare-do/src/adapter.mjs\<close>: \<open>HostImage\<close>, the byte string a
  storage hook sees, and how its commit publishes exactly that string through \<open>DurableFramStore\<close>.
\<close>

section \<open>HostImage\<close>

record host_image =
  hi_bytes :: "byte list"
  capacity :: nat
  hi_length :: nat
  lowWater :: "nat option"
  dirty :: bool
  syncs :: nat

definition new_image :: "byte list \<Rightarrow> host_image" where
  "new_image bs = \<lparr>hi_bytes = bs, capacity = length bs, hi_length = length bs, lowWater = None,
     dirty = False, syncs = 0\<rparr>"

text \<open>The doubling of \<open>reserve\<close>; a capacity of zero does not occur there.\<close>

function double_until :: "nat \<Rightarrow> nat \<Rightarrow> nat" where
  "double_until c need = (if c < need \<and> 0 < c then double_until (c * 2) need else c)"
  by pat_completeness auto
termination by (relation "measure (\<lambda>(c, need). need - c)") auto

declare double_until.simps [simp del]

definition hi_reserve :: "nat \<Rightarrow> host_image \<Rightarrow> host_image" where
  "hi_reserve extra im =
     (if hi_length im + extra \<le> capacity im then im
      else let cap = double_until (max (capacity im * 2) 65536) (hi_length im + extra)
      in im\<lparr>hi_bytes := set_bytes (replicate cap 0) 0 (take (hi_length im) (hi_bytes im)), capacity := cap\<rparr>)"

definition lower :: "nat option \<Rightarrow> nat \<Rightarrow> nat" where
  "lower w n = (case w of None \<Rightarrow> n | Some l \<Rightarrow> min l n)"

definition hi_append :: "byte list \<Rightarrow> host_image \<Rightarrow> host_image" where
  "hi_append added im =
     (let im1 = hi_reserve (length added) im
      in im1\<lparr>hi_bytes := set_bytes (hi_bytes im1) (hi_length im1) added,
             lowWater := Some (lower (lowWater im1) (hi_length im1)),
             hi_length := hi_length im1 + length added, dirty := True\<rparr>)"

definition hi_truncate :: "nat \<Rightarrow> host_image \<Rightarrow> bool \<times> host_image" where
  "hi_truncate n im =
     (if hi_length im < n then (False, im)
      else (True, im\<lparr>lowWater := Some (lower (lowWater im) n), hi_length := n, dirty := True\<rparr>))"

definition hi_read :: "nat \<Rightarrow> nat \<Rightarrow> host_image \<Rightarrow> byte list option" where
  "hi_read off n im =
     (if hi_length im < off + n then None else Some (take n (drop off (hi_bytes im))))"

definition takeCommit :: "host_image \<Rightarrow> nat \<times> host_image" where
  "takeCommit im =
     ((case lowWater im of None \<Rightarrow> 0 | Some l \<Rightarrow> l), im\<lparr>lowWater := None, dirty := False\<rparr>)"

definition restoreCommit :: "nat \<Rightarrow> host_image \<Rightarrow> host_image" where
  "restoreCommit low im = im\<lparr>lowWater := Some (lower (lowWater im) low), dirty := True\<rparr>"

section \<open>The byte string of an image\<close>

definition content :: "host_image \<Rightarrow> byte list" where
  "content im = take (hi_length im) (hi_bytes im)"

definition hi_inv :: "host_image \<Rightarrow> bool" where
  "hi_inv im \<longleftrightarrow> length (hi_bytes im) = capacity im \<and> hi_length im \<le> capacity im"

lemma content_length: "hi_inv im \<Longrightarrow> length (content im) = hi_length im"
  by (simp add: content_def hi_inv_def)

lemma new_image_inv [simp]: "hi_inv (new_image bs)" "content (new_image bs) = bs"
  by (simp_all add: hi_inv_def new_image_def content_def)

lemma double_until_ge: "0 < c \<Longrightarrow> need \<le> double_until c need \<and> c \<le> double_until c need"
proof (induction c need rule: double_until.induct)
  case (1 c need)
  then show ?case by (subst double_until.simps) (fastforce simp: double_until.simps [of c need])
qed

lemma hi_reserve_ok:
  assumes "hi_inv im"
  shows "hi_inv (hi_reserve extra im) \<and> content (hi_reserve extra im) = content im \<and>
    hi_length (hi_reserve extra im) = hi_length im \<and> lowWater (hi_reserve extra im) = lowWater im \<and>
    hi_length im + extra \<le> capacity (hi_reserve extra im)"
proof (cases "hi_length im + extra \<le> capacity im")
  case False
  define cap where "cap = double_until (max (capacity im * 2) 65536) (hi_length im + extra)"
  have "hi_length im + extra \<le> cap"
    using double_until_ge [of "max (capacity im * 2) 65536" "hi_length im + extra"] by (simp add: cap_def)
  with assms False show ?thesis
    by (auto simp: hi_reserve_def Let_def cap_def [symmetric] hi_inv_def content_def set_bytes_def min_def)
qed (use assms in \<open>simp add: hi_reserve_def\<close>)

lemma hi_append_ok:
  assumes "hi_inv im"
  shows "hi_inv (hi_append bs im) \<and> content (hi_append bs im) = content im @ bs \<and>
    lowWater (hi_append bs im) = Some (lower (lowWater im) (hi_length im)) \<and> dirty (hi_append bs im)"
proof -
  note r = hi_reserve_ok [OF assms, of "length bs"]
  let ?r = "hi_reserve (length bs) im"
  have len: "length (hi_bytes ?r) = capacity ?r" "hi_length ?r \<le> capacity ?r" using r by (simp_all add: hi_inv_def)
  have "content (hi_append bs im) = take (hi_length ?r) (hi_bytes ?r) @ bs"
    using len r by (cases bs) (simp_all add: content_def hi_append_def Let_def set_bytes_def min_def)
  moreover have "take (hi_length ?r) (hi_bytes ?r) = content im" using r by (metis content_def)
  moreover have "hi_inv (hi_append bs im)"
    using len r by (cases bs) (simp_all add: hi_inv_def hi_append_def Let_def set_bytes_def min_def)
  ultimately show ?thesis using r by (simp add: hi_append_def Let_def)
qed

lemma hi_truncate_ok:
  assumes "hi_inv im" "hi_truncate n im = (b, im')"
  shows "hi_inv im' \<and> (b \<longleftrightarrow> n \<le> hi_length im) \<and>
    (if b then content im' = take n (content im) \<and> lowWater im' = Some (lower (lowWater im) n) \<and> dirty im'
     else im' = im)"
  using assms by (auto simp: hi_truncate_def hi_inv_def content_def min_def split: if_splits)

lemma hi_read_ok:
  assumes "hi_inv im"
  shows "hi_read off n im =
    (if off + n \<le> length (content im) then Some (take n (drop off (content im))) else None)"
proof -
  have "take n (drop off (take (hi_length im) (hi_bytes im))) = take n (drop off (hi_bytes im))"
    if "off + n \<le> hi_length im"
    using that by (simp add: drop_take min_def)
  then show ?thesis
    using assms content_length [OF assms] by (auto simp: hi_read_def content_def)
qed

section \<open>The low-water mark\<close>

text \<open>
  \<open>tracks d im\<close>: below its low-water mark the image still is the durable byte string \<open>d\<close>; without a mark
  it is \<open>d\<close>.
\<close>

definition tracks :: "byte list \<Rightarrow> host_image \<Rightarrow> bool" where
  "tracks d im \<longleftrightarrow> hi_inv im \<and>
     (case lowWater im of
        None \<Rightarrow> content im = d \<and> \<not> dirty im
      | Some l \<Rightarrow> dirty im \<and> l \<le> length d \<and> l \<le> length (content im) \<and> take l (content im) = take l d)"

lemma tracks_new: "tracks d (new_image d)"
  by (simp add: tracks_def new_image_def hi_inv_def content_def)

lemma tracks_append: "tracks d im \<Longrightarrow> tracks d (hi_append bs im)"
  using hi_append_ok [of im bs] content_length [of im]
  by (auto simp: tracks_def lower_def min_def take_all split: option.splits)

lemma tracks_truncate:
  assumes "tracks d im" "hi_truncate n im = (b, im')"
  shows "tracks d im'"
proof (cases b)
  case True
  have inv: "hi_inv im" using assms(1) by (simp add: tracks_def)
  from hi_truncate_ok [OF inv assms(2)] True have t: "hi_inv im'" "n \<le> length (content im)"
    "content im' = take n (content im)" "lowWater im' = Some (lower (lowWater im) n)" "dirty im'"
    using content_length [OF inv] by auto
  show ?thesis
  proof (cases "lowWater im")
    case None
    with assms(1) t show ?thesis by (simp add: tracks_def lower_def)
  next
    case (Some l)
    then have l: "l \<le> length d" "l \<le> length (content im)" "take l (content im) = take l d"
      using assms(1) by (simp_all add: tracks_def)
    have "take (min l n) (content im) = take (min l n) d"
      using l(3) by (metis min.commute take_take)
    with l t Some show ?thesis by (simp add: tracks_def lower_def min_def split: if_splits)
  qed
next
  case False
  with assms hi_truncate_ok [of im n b im'] show ?thesis by (auto simp: tracks_def)
qed

section \<open>A commit publishes the images\<close>

text \<open>
  The key of no range lies in the other one, nor does the restore marker's. \<open>holds ops s st f\<close>: each
  range of the store holds the byte string \<open>f\<close> gives for it.
\<close>

definition apart :: "jstr \<Rightarrow> jstr \<Rightarrow> bool" where
  "apart p q \<longleftrightarrow> \<not> starts_with p q \<and> \<not> starts_with q p"

definition prefixes_ok :: "store \<Rightarrow> bool" where
  "prefixes_ok st \<longleftrightarrow> apart (prefix (logRange st)) (prefix (imageRange st)) \<and>
     apart (prefix (logRange st)) FRAMLOG_RESTORE_KEY \<and> apart (prefix (imageRange st)) FRAMLOG_RESTORE_KEY"

lemma starts_with_comparable:
  "starts_with p k \<Longrightarrow> starts_with q k \<Longrightarrow> starts_with p q \<or> starts_with q p"
proof -
  assume pq: "starts_with p k" "starts_with q k"
  have short: "take (length u) v = u" if "starts_with u k" "starts_with v k" "length u \<le> length v" for u v
  proof -
    have "take (length u) (take (length v) k) = take (length u) k" using that(3) by simp
    with that(1,2) show ?thesis by (simp add: starts_with_def)
  qed
  from pq short [of p q] short [of q p] show ?thesis
    by (cases "length p \<le> length q") (simp_all add: starts_with_def)
qed

lemma new_store_prefixes: "prefixes_ok (new_store cb bk)"
proof -
  have js_take: "take n (js u) = js (take n u)" for n u by (simp add: js_def take_map)
  have "apart (js s) (js t)" if "take (length s) t \<noteq> s" "take (length t) s \<noteq> t" for s t
    using that by (simp add: apart_def starts_with_def js_take)
  then have "apart (js ''framlog/'') (js ''framimage/'')" "apart (js ''framlog/'') (js ''framrestore/pending'')"
    "apart (js ''framimage/'') (js ''framrestore/pending'')" by simp_all
  then show ?thesis by (simp add: prefixes_ok_def new_store_def new_range_def FRAMLOG_RESTORE_KEY_def)
qed

definition range_holds :: "'s kv \<Rightarrow> 's \<Rightarrow> range \<Rightarrow> byte list \<Rightarrow> bool" where
  "range_holds ops s r d \<longleftrightarrow> stored ops s r d \<and> chunkCount r = Some (ceil_div (length d) (chunkBytes r))"

definition holds :: "'s kv \<Rightarrow> 's \<Rightarrow> store \<Rightarrow> (which \<Rightarrow> byte list) \<Rightarrow> bool" where
  "holds ops s st f \<longleftrightarrow> prefixes_ok st \<and> (\<forall>w. range_holds ops s (get_range w st) (f w))"

lemma get_set_range [simp]: "get_range w (set_range v r st) = (if w = v then r else get_range w st)"
  by (cases w; cases v) (simp_all add: get_range_def set_range_def)

lemma set_range_prefixes:
  "prefix r = prefix (get_range w st) \<Longrightarrow> prefixes_ok (set_range w r st) = prefixes_ok st"
  by (cases w) (simp_all add: prefixes_ok_def get_range_def set_range_def)

lemma other_range_key:
  assumes "prefixes_ok st" "v \<noteq> w"
  shows "chunkKey (get_range v st) i \<noteq> chunkKey (get_range w st) j" "chunkKey (get_range v st) i \<noteq> metaKey (get_range w st)"
    "metaKey (get_range v st) \<noteq> metaKey (get_range w st)" "metaKey (get_range v st) \<noteq> chunkKey (get_range w st) j"
proof -
  have "\<not> starts_with (prefix (get_range w st)) k" if "starts_with (prefix (get_range v st)) k" for k
    using starts_with_comparable [OF that] assms
    by (cases v; cases w) (auto simp: prefixes_ok_def apart_def get_range_def)
  then show "chunkKey (get_range v st) i \<noteq> chunkKey (get_range w st) j" "chunkKey (get_range v st) i \<noteq> metaKey (get_range w st)"
    "metaKey (get_range v st) \<noteq> metaKey (get_range w st)" "metaKey (get_range v st) \<noteq> chunkKey (get_range w st) j"
    by (metis starts_with_keys)+
qed

text \<open>A part is publishable when its low-water mark is right for the bytes the range holds.\<close>

definition part_ok :: "(which \<Rightarrow> byte list) \<Rightarrow> part \<Rightarrow> bool" where
  "part_ok f p \<longleftrightarrow> pt_length p \<le> length (pt_bytes p) \<and> pt_lowWater p \<le> length (f (pt_which p)) \<and>
     pt_lowWater p \<le> pt_length p \<and> take (pt_lowWater p) (pt_bytes p) = take (pt_lowWater p) (f (pt_which p))"

definition part_content :: "part \<Rightarrow> byte list" where
  "part_content p = take (pt_length p) (pt_bytes p)"

definition publish :: "part list \<Rightarrow> (which \<Rightarrow> byte list) \<Rightarrow> which \<Rightarrow> byte list" where
  "publish parts f = fold (\<lambda>p g. g(pt_which p := part_content p)) parts f"

lemma stage_which: "stage st parts = Inr staged \<Longrightarrow> map fst staged = map pt_which parts"
  by (induction parts arbitrary: staged) (auto simp: stage_def res_simps)

text \<open>During the transaction: the ranges of \<open>pend\<close> are written, their plans not yet settled.\<close>

definition midway :: "'s kv \<Rightarrow> 's \<Rightarrow> store \<Rightarrow> (which \<Rightarrow> byte list) \<Rightarrow> (which \<rightharpoonup> plan) \<Rightarrow> bool" where
  "midway ops s st f pend \<longleftrightarrow> prefixes_ok st \<and>
     (\<forall>w. range_holds ops s (case pend w of None \<Rightarrow> get_range w st | Some p \<Rightarrow> settle p (get_range w st)) (f w))"

context kv_storage
begin

lemma apply_part_midway:
  assumes "midway ops s st f pend" "pend w = None" "w = pt_which p" "part_ok f p"
    "range_plan (get_range w st) (pt_bytes p) (pt_length p) (pt_lowWater p) = Inr pl"
    "apply_part ops (w, pl) (s, st) = (s', st')"
  shows "midway ops s' st' (f(w := part_content p)) (pend(w \<mapsto> pl)) \<and> (\<forall>v. v \<noteq> w \<longrightarrow> get_range v st' = get_range v st)"
proof -
  let ?r = "get_range w st" and ?d = "f w" and ?c = "part_content p"
  have st: "stored ops s ?r ?d" "chunkCount ?r = Some (ceil_div (length ?d) (chunkBytes ?r))"
    using assms(1,2) by (auto simp: midway_def range_holds_def dest: spec [of _ w])
  have len: "length ?c = pt_length p" using assms(4) by (simp add: part_content_def part_ok_def)
  obtain r' where r': "applyTo ops pl (s, ?r) = (s', r')" "st' = set_range w r' st"
    using assms(6) by (auto simp: apply_part_def split: prod.splits)
  have low: "take (pt_lowWater p) ?d = take (pt_lowWater p) ?c"
    using assms(3,4) by (simp add: part_ok_def part_content_def min_def)
  note pub = plan_stored [OF st low _ _ _ _ r'(1), of "pt_bytes p"]
  have res: "stored ops s' (settle pl r') ?c" "chunkCount (settle pl r') = Some (ceil_div (length ?c) (chunkBytes ?r))"
    "same_geometry (?r\<lparr>chunkCount := Some (ceil_div (length ?c) (chunkBytes ?r))\<rparr>) (settle pl r')"
    "\<forall>k. k \<noteq> metaKey ?r \<longrightarrow> (\<forall>i. k \<noteq> chunkKey ?r i) \<longrightarrow> kv_get ops s' k = kv_get ops s k"
    using pub assms(3-5) len by (simp_all add: part_ok_def part_content_def)
  have geo: "prefix r' = prefix ?r" "chunkBytes (settle pl r') = chunkBytes ?r"
    using res(3) by (simp_all add: same_geometry_def settle_def)
  have pf: "prefixes_ok st" using assms(1) by (simp add: midway_def)
  then have pf': "prefixes_ok st'" using geo(1) by (simp add: r' set_range_prefixes)
  have "range_holds ops s' (case (pend(w \<mapsto> pl)) v of None \<Rightarrow> get_range v st' | Some q \<Rightarrow> settle q (get_range v st'))
      ((f(w := ?c)) v)" for v
  proof (cases "v = w")
    case True
    then show ?thesis using res(1,2) geo(2) by (simp add: r' range_holds_def)
  next
    case False
    let ?q = "case pend v of None \<Rightarrow> get_range v st | Some q \<Rightarrow> settle q (get_range v st)"
    have old: "range_holds ops s ?q (f v)" using assms(1) by (simp add: midway_def)
    have "prefix ?q = prefix (get_range v st)" by (simp add: settle_def split: option.splits)
    then have keys: "chunkKey ?q = chunkKey (get_range v st)" "metaKey ?q = metaKey (get_range v st)"
      by (intro range_keys_cong; simp)+
    have same: "kv_get ops s' (chunkKey ?q i) = kv_get ops s (chunkKey ?q i)"
      "kv_get ops s' (metaKey ?q) = kv_get ops s (metaKey ?q)" for i
      unfolding keys using res(4) other_range_key [OF pf False] by blast+
    have "range_holds ops s' ?q (f v)"
      using old unfolding range_holds_def stored_def same by simp
    moreover have gv: "get_range v st' = get_range v st" using False by (simp add: r')
    ultimately show ?thesis using False unfolding gv by simp
  qed
  with pf' show ?thesis unfolding midway_def by (simp add: r'(2))
qed

lemma apply_parts_midway:
  "midway ops s st f pend \<Longrightarrow> distinct (map pt_which parts) \<Longrightarrow>
     (\<And>p. p \<in> set parts \<Longrightarrow> pend (pt_which p) = None \<and> part_ok f p) \<Longrightarrow> stage st parts = Inr staged \<Longrightarrow>
     fold (apply_part ops) staged (s, st) = (s', st') \<Longrightarrow>
     midway ops s' st' (publish parts f) (pend ++ map_of staged)"
proof (induction parts arbitrary: s st f pend staged)
  case Nil
  then show ?case by (simp add: stage_def publish_def)
next
  case (Cons p ps)
  let ?w = "pt_which p"
  obtain pl staged' where pl: "range_plan (get_range ?w st) (pt_bytes p) (pt_length p) (pt_lowWater p) = Inr pl"
    "stage st ps = Inr staged'" "staged = (?w, pl) # staged'"
    using Cons.prems(4) by (auto simp: stage_def res_simps)
  obtain s1 st1 where s1: "apply_part ops (?w, pl) (s, st) = (s1, st1)" by force
  have new: "midway ops s1 st1 (f(?w := part_content p)) (pend(?w \<mapsto> pl))"
    "\<forall>v. v \<noteq> ?w \<longrightarrow> get_range v st1 = get_range v st"
    using apply_part_midway [OF Cons.prems(1) _ refl _ pl(1) s1] Cons.prems(3) [of p] by auto
  have fresh: "pt_which q \<noteq> ?w" if "q \<in> set ps" for q using Cons.prems(2) that by (auto simp: image_iff)
  have "stage st1 ps = stage st ps"
    unfolding stage_def by (rule rmap_cong [OF refl]) (use new(2) fresh in simp)
  with pl(2) have a: "stage st1 ps = Inr staged'" by simp
  have b: "fold (apply_part ops) staged' (s1, st1) = (s', st')" using Cons.prems(5) pl(3) s1 by simp
  have c: "(pend(?w \<mapsto> pl)) (pt_which q) = None \<and> part_ok (f(?w := part_content p)) q" if "q \<in> set ps" for q
    using Cons.prems(3) [of q] fresh [OF that] that by (simp add: part_ok_def)
  have "distinct (map pt_which ps)" using Cons.prems(2) by simp
  from Cons.IH [OF new(1) this c a b]
  have mid: "midway ops s' st' (publish ps (f(?w := part_content p))) (pend(?w \<mapsto> pl) ++ map_of staged')" .
  have "fst ` set staged' = pt_which ` set ps"
    using stage_which [OF pl(2)] by (metis set_map)
  then have "?w \<notin> dom (map_of staged')" using fresh by (metis dom_map_of_conv_image_fst imageE)
  then have "pend(?w \<mapsto> pl) ++ map_of staged' = pend ++ map_of staged"
    by (auto simp: pl(3) map_add_def fun_eq_iff domIff split: option.splits)
  with mid show ?case by (simp add: publish_def)
qed

lemma settle_parts:
  "distinct (map fst staged) \<Longrightarrow>
     get_range w (fold settle_part staged st) =
       (case map_of staged w of Some p \<Rightarrow> settle p (get_range w st) | None \<Rightarrow> get_range w st) \<and>
     prefixes_ok (fold settle_part staged st) = prefixes_ok st"
proof (induction staged arbitrary: st)
  case (Cons vp staged)
  obtain v p where vp: "vp = (v, p)" by force
  let ?st = "settle_part (v, p) st"
  have "prefixes_ok ?st = prefixes_ok st"
    by (simp add: settle_part_def set_range_prefixes settle_def)
  moreover have "map_of staged v = None" using Cons.prems vp by (simp add: map_of_eq_None_iff)
  moreover note Cons.IH [of ?st]
  ultimately show ?case using Cons.prems vp by (auto simp: settle_part_def split: option.splits)
qed simp

lemma store_commit_ok:
  assumes "holds ops s st f" "distinct (map pt_which parts)" "\<And>p. p \<in> set parts \<Longrightarrow> part_ok f p"
    "store_commit ops parts (s, st) = ((s', st'), Inr u)"
  shows "holds ops s' st' (publish parts f)"
proof -
  obtain staged where staged: "stage st parts = Inr staged"
    using assms(4) by (cases "stage st parts") (simp_all add: store_commit_def)
  obtain s1 st1 where f: "fold (apply_part ops) staged (s, st) = (s1, st1)" by force
  from assms(4) staged have run: "run_transaction ops staged (\<lambda>s. s) (s, st) = ((s', st'), Inr u)"
    by (simp add: store_commit_def)
  then obtain v where tx: "kv_transaction ops s (\<lambda>txn. Inr (fst (fold (apply_part ops) staged (txn, st)))) = (s', Inr v)"
    and st': "st' = (fold settle_part staged st1)\<lparr>st_commits := st_commits st + 1\<rparr>"
    using f by (auto simp: run_transaction_def split: prod.splits sum.splits)
  from commit_body [OF tx] f have "s' = s1" by simp
  have "midway ops s st f Map.empty" using assms(1) by (simp add: midway_def holds_def)
  from apply_parts_midway [OF this assms(2) _ staged f] assms(3)
  have mid: "midway ops s1 st1 (publish parts f) (map_of staged)" by simp
  from stage_which [OF staged] assms(2) have "distinct (map fst staged)" by simp
  note settled = settle_parts [OF this]
  have "get_range w st' = (case map_of staged w of Some p \<Rightarrow> settle p (get_range w st1) | None \<Rightarrow> get_range w st1)" for w
    using settled [of w st1] by (cases w) (simp_all add: st' get_range_def)
  moreover have "prefixes_ok st' = prefixes_ok st1"
    using settled [of Log st1] by (simp add: st' prefixes_ok_def)
  ultimately show ?thesis using mid \<open>s' = s1\<close> by (simp add: holds_def midway_def)
qed

lemma store_commit_reject:
  "store_commit ops parts (s, st) = ((s', st'), Inl e) \<Longrightarrow> s' = s \<and> st' = st"
  by (auto simp: store_commit_def run_transaction_def split: sum.splits prod.splits dest: reject)

text \<open>What the store loads is what it holds.\<close>

lemma store_load_ok:
  assumes "stored ops s r (f w)" "prefix (get_range w st) = prefix r" "0 < chunkBytes (get_range w st)" "prefixes_ok st"
  shows "\<exists>st'. store_load ops s w st = Inr (f w, st') \<and> range_holds ops s (get_range w st') (f w) \<and> prefixes_ok st' \<and>
    (\<forall>v. v \<noteq> w \<longrightarrow> get_range v st' = get_range v st)"
proof -
  from load_stored [OF assms(1-3)] obtain r' where r': "range_load ops s (get_range w st) = Inr (f w, r')"
    "prefix r' = prefix r" "chunkCount r' = Some (ceil_div (length (f w)) (chunkBytes r'))" "stored ops s r' (f w)"
    by blast
  with assms(2,4) show ?thesis
    by (intro exI [of _ "set_range w r' st"]) (simp add: store_load_def range_holds_def set_range_prefixes)
qed

text \<open>A restore publishes the log, an empty image and the marker together.\<close>

lemma store_replace_ok:
  assumes "valid s" "prefixes_ok st" "range_holds ops s (logRange st) d"
    "0 < batchKeys (imageRange st)" "0 < chunkBytes (imageRange st)"
    "card (inventory ops s (prefix (imageRange st)) None) < fuel"
    "clearPlan fuel ops s (imageRange st) = Some (Inr clear)"
    "store_replace ops bs clear marker (s, st) = ((s', st'), Inr u)"
  shows "range_holds ops s' (logRange st') bs \<and> range_holds ops s' (imageRange st') [] \<and>
    inventory ops s' (prefix (imageRange st)) None = {} \<and>
    kv_get ops s' FRAMLOG_RESTORE_KEY = Some (VMarker marker) \<and> prefixes_ok st'"
proof -
  let ?l = "logRange st" and ?i = "imageRange st"
  obtain ks where ks: "set ks = inventory ops s (prefix ?i) None"
    and "clearPlan fuel ops s ?i = Some (if list_all (known_key (prefix ?i)) ks
      then Inr \<lparr>writes = [], stale = ks, plan_chunks = 0, plan_length = 0, publishMeta = False\<rparr>
      else Inl PlainError)"
    using clearPlan_total [OF assms(1,4,6)] by blast
  with assms(7) have clear: "writes clear = []" "stale clear = ks" "\<not> publishMeta clear" "plan_chunks clear = 0"
    by (auto split: if_splits)
  obtain pl where pl: "range_plan ?l bs (length bs) 0 = Inr pl"
    using assms(8) by (cases "range_plan ?l bs (length bs) 0") (simp_all add: store_replace_def)
  obtain s1 r1 where s1: "applyTo ops pl (s, ?l) = (s1, r1)" by force
  obtain s2 r2 where s2: "applyTo ops clear (s1, ?i) = (s2, r2)" by force
  have tx: "kv_transaction ops s (\<lambda>txn. Inr (kv_put ops (fst (fold (apply_part ops) [(Log, pl), (Image, clear)] (txn, st)))
      FRAMLOG_RESTORE_KEY (VMarker marker))) = (s', Inr ())"
    and st': "st' = (fold settle_part [(Log, pl), (Image, clear)] (st\<lparr>logRange := r1, imageRange := r2\<rparr>))
      \<lparr>st_commits := st_commits st + 1\<rparr>"
    using assms(8) pl s1 s2
    by (auto simp: store_replace_def run_transaction_def apply_part_def get_range_def set_range_def
        split: prod.splits sum.splits)
  have s': "s' = kv_put ops s2 FRAMLOG_RESTORE_KEY (VMarker marker)"
    using commit_body [OF tx] s1 s2 by (simp add: apply_part_def get_range_def set_range_def)
  note pf = assms(2)
  have log: "stored ops s1 (settle pl r1) bs" "chunkCount (settle pl r1) = Some (ceil_div (length bs) (chunkBytes ?l))"
    "same_geometry (?l\<lparr>chunkCount := Some (ceil_div (length bs) (chunkBytes ?l))\<rparr>) (settle pl r1)"
    "\<forall>k. k \<noteq> metaKey ?l \<longrightarrow> (\<forall>i. k \<noteq> chunkKey ?l i) \<longrightarrow> kv_get ops s1 k = kv_get ops s k"
    using plan_stored [of s ?l d 0 bs bs pl s1 r1] assms(3) pl s1 by (simp_all add: range_holds_def)
  have get2: "kv_get ops s2 k = (if k \<in> inventory ops s (prefix ?i) None then None else kv_get ops s1 k)" for k
    using applyTo_get [OF s2, of k] clear ks by simp
  have not_image: "\<not> starts_with (prefix ?i) k" if "starts_with (prefix ?l) k" for k
    using starts_with_comparable [OF that] pf by (auto simp: prefixes_ok_def apart_def)
  have image_gone: "kv_get ops s2 k = None" if "starts_with (prefix ?i) k" for k
  proof -
    have "k \<noteq> metaKey ?l" "\<forall>i. k \<noteq> chunkKey ?l i" using not_image that by (metis starts_with_keys)+
    then have "kv_get ops s1 k = kv_get ops s k" using log(4) by blast
    then show ?thesis using get2 [of k] that by (auto simp: inventory_def)
  qed
  have log_kept: "kv_get ops s2 k = kv_get ops s1 k" if "starts_with (prefix ?l) k" for k
    using get2 [of k] not_image [OF that] by (simp add: inventory_def)
  have marker: "\<not> starts_with (prefix ?l) FRAMLOG_RESTORE_KEY" "\<not> starts_with (prefix ?i) FRAMLOG_RESTORE_KEY"
    using pf by (auto simp: prefixes_ok_def apart_def)
  have geo: "prefix r1 = prefix ?l" "chunkBytes (settle pl r1) = chunkBytes ?l"
    using log(3) by (simp_all add: same_geometry_def settle_def)
  have geo2: "prefix r2 = prefix ?i" "chunkBytes r2 = chunkBytes ?i"
    using applyTo_geometry [OF s2] by (simp_all add: same_geometry_def)
  have ranges: "logRange st' = settle pl r1" "imageRange st' = settle clear r2"
    by (simp_all add: st' settle_part_def get_range_def set_range_def)
  have kl: "chunkKey (settle pl r1) = chunkKey ?l" "metaKey (settle pl r1) = metaKey ?l"
    using geo(1) by (intro range_keys_cong; simp add: settle_def)+
  have ki: "chunkKey (settle clear r2) = chunkKey ?i" "metaKey (settle clear r2) = metaKey ?i"
    using geo2(1) by (intro range_keys_cong; simp add: settle_def)+
  have getl: "kv_get ops s' k = kv_get ops s1 k" if "starts_with (prefix ?l) k" for k
    using log_kept [OF that] marker(1) that by (auto simp: s' get_put)
  have geti: "kv_get ops s' k = None" if "starts_with (prefix ?i) k" for k
    using image_gone [OF that] marker(2) that by (auto simp: s' get_put)
  have "range_holds ops s' (logRange st') bs"
    using log(1,2) unfolding range_holds_def stored_def ranges kl geo(2) by (simp add: getl)
  moreover have "range_holds ops s' (imageRange st') []"
    using assms(5) geo2(2) clear(4)
    unfolding range_holds_def stored_def ranges ki by (simp add: geti settle_def)
  moreover have "inventory ops s' (prefix ?i) None = {}" using geti by (auto simp: inventory_def)
  moreover have "kv_get ops s' FRAMLOG_RESTORE_KEY = Some (VMarker marker)" by (simp add: s' get_put)
  moreover have "prefixes_ok st'" using pf geo(1) geo2(1) ranges by (simp add: prefixes_ok_def settle_def)
  ultimately show ?thesis by blast
qed

end

end
