(* ===== verification/Instance.thy ===== *)
theory Instance
  imports Request HostImage
begin

text \<open>
  \<open>FramInstance\<close> of \<^verbatim>\<open>clients/cloudflare-do/src/adapter.mjs\<close>: the storage hooks, \<open>open\<close>, \<open>call\<close>, \<open>close\<close>,
  \<open>fence\<close>, and \<open>#commit\<close>, which publishes what the hooks did after the guest call unwinds. The guest is
  outside the repository: it is the record \<open>engine\<close>, functions from its state and the two byte
  strings to the hooks it calls and its result, which is an exception when the guest traps. Calls are atomic steps because \<open>#serialise\<close> runs them one at a time.
\<close>

section \<open>The hooks\<close>

datatype host_op =
    StorageAppend which "byte list"
  | StorageTruncate which nat
  | StorageSync which
  | StorageClose

record ('g) engine =
  e_open :: "byte list \<Rightarrow> byte list \<Rightarrow> 'g \<times> host_op list \<times> int res"
  e_call :: "string \<Rightarrow> byte list \<Rightarrow> 'g \<Rightarrow> byte list \<Rightarrow> byte list \<Rightarrow> 'g \<times> host_op list \<times> guest_result res"
  e_close :: "'g \<Rightarrow> byte list \<Rightarrow> byte list \<Rightarrow> 'g \<times> host_op list \<times> int res"

text \<open>
  Where an instance loads from and commits to: the durable store, the read-only store a restore
  reopens through, or the bytes of a backup under preflight, whose commits go nowhere.
\<close>

datatype store_mode = Durable | ReadOnly | Preflight "byte list"

record 'g inst =
  in_mode :: store_mode
  in_store :: store
  in_log :: host_image
  in_image :: host_image
  in_guest :: "'g option"
  in_spaceId :: jstr
  syncPending :: bool
  in_commits :: nat
  opened :: bool
  closed :: bool
  poisoned :: "js_error option"

definition new_inst :: "store_mode \<Rightarrow> store \<Rightarrow> 'g inst" where
  "new_inst mode st = \<lparr>in_mode = mode, in_store = st, in_log = new_image [], in_image = new_image [],
     in_guest = None, in_spaceId = [], syncPending = False, in_commits = 0, opened = False, closed = False,
     poisoned = None\<rparr>"

definition get_image :: "which \<Rightarrow> 'g inst \<Rightarrow> host_image" where
  "get_image w i = (case w of Log \<Rightarrow> in_log i | Image \<Rightarrow> in_image i)"

definition set_image :: "which \<Rightarrow> host_image \<Rightarrow> 'g inst \<Rightarrow> 'g inst" where
  "set_image w im i = (case w of Log \<Rightarrow> i\<lparr>in_log := im\<rparr> | Image \<Rightarrow> i\<lparr>in_image := im\<rparr>)"

fun host_step :: "host_op \<Rightarrow> 'g inst \<Rightarrow> 'g inst" where
  "host_step (StorageAppend w bs) i = set_image w (hi_append bs (get_image w i)) i"
| "host_step (StorageTruncate w n) i = set_image w (snd (hi_truncate n (get_image w i))) i"
| "host_step (StorageSync w) i =
     (set_image w ((get_image w i)\<lparr>syncs := syncs (get_image w i) + 1\<rparr>) i)\<lparr>syncPending := True\<rparr>"
| "host_step StorageClose i = i\<lparr>syncPending := True\<rparr>"

section \<open>The commit\<close>

definition commit_part :: "which \<Rightarrow> host_image \<Rightarrow> part" where
  "commit_part w im = \<lparr>pt_which = w, pt_bytes = hi_bytes im, pt_length = hi_length im,
     pt_lowWater = fst (takeCommit im)\<rparr>"

definition dirty_parts :: "'g inst \<Rightarrow> part list" where
  "dirty_parts i =
     map (\<lambda>w. commit_part w (get_image w i)) (filter (\<lambda>w. dirty (get_image w i)) [Log, Image])"

definition take_commits :: "'g inst \<Rightarrow> 'g inst" where
  "take_commits i =
     fold (\<lambda>w j. if dirty (get_image w j) then set_image w (snd (takeCommit (get_image w j))) j else j) [Log, Image] i"

definition restore_commits :: "part list \<Rightarrow> 'g inst \<Rightarrow> 'g inst" where
  "restore_commits ps i =
     fold (\<lambda>p j. set_image (pt_which p) (restoreCommit (pt_lowWater p) (get_image (pt_which p) j)) j) ps i"

text \<open>\<open>store.commit(parts)\<close> in each of the modes.\<close>

definition mode_commit :: "'s kv \<Rightarrow> store_mode \<Rightarrow> part list \<Rightarrow> 's \<times> store \<Rightarrow> ('s \<times> store) \<times> unit res" where
  "mode_commit ops mode ps st =
     (case mode of
        Durable \<Rightarrow> store_commit ops ps st
      | ReadOnly \<Rightarrow> (st, if ps \<noteq> [] then backupFailure ''verification'' else Inr ())
      | Preflight _ \<Rightarrow> (st, Inr ()))"

definition inst_commit :: "'s kv \<Rightarrow> 's \<times> 'g inst \<Rightarrow> ('s \<times> 'g inst) \<times> unit res" where
  "inst_commit ops si =
     (case si of (s, i) \<Rightarrow>
        if \<not> syncPending i \<and> \<not> dirty (in_log i) \<and> \<not> dirty (in_image i) then ((s, i), Inr ())
        else
          let ps = dirty_parts i; i1 = take_commits (i\<lparr>syncPending := False\<rparr>)
          in if ps = [] then ((s, i1), Inr ())
          else case mode_commit ops (in_mode i) ps (s, in_store i1) of
            ((s', st'), Inr _) \<Rightarrow> ((s', i1\<lparr>in_store := st', in_commits := in_commits i1 + 1\<rparr>), Inr ())
          | ((s', st'), Inl e) \<Rightarrow>
              ((s', (restore_commits ps i1)\<lparr>in_store := st', poisoned := Some StorageError\<rparr>), Inl StorageError))"

section \<open>The operations\<close>

definition assertUsable :: "'g inst \<Rightarrow> unit res" where
  "assertUsable i =
     (case poisoned i of
        Some e \<Rightarrow> Inl e
      | None \<Rightarrow> if closed i then Inl PlainError else Inr ())"

definition mode_load :: "'s kv \<Rightarrow> 's \<Rightarrow> store_mode \<Rightarrow> which \<Rightarrow> store \<Rightarrow> (byte list \<times> store) res" where
  "mode_load ops s mode w st =
     (case mode of
        Preflight bs \<Rightarrow> Inr (if w = Log then bs else [], st)
      | _ \<Rightarrow> store_load ops s w st)"

text \<open>\<open>open\<close>: the status of the guest's open, after its own writes are committed.\<close>

definition inst_open :: "'s kv \<Rightarrow> 'g engine \<Rightarrow> jstr \<Rightarrow> 's \<times> 'g inst \<Rightarrow> ('s \<times> 'g inst) \<times> int res" where
  "inst_open ops eng spaceId si =
     (case si of (s, i) \<Rightarrow>
        (case assertUsable i of
           Inl e \<Rightarrow> ((s, i), Inl e)
         | Inr _ \<Rightarrow>
             if opened i then ((s, i), Inl PlainError)
             else case mode_load ops s (in_mode i) Log (in_store i) of
               Inl e \<Rightarrow> ((s, i), Inl e)
             | Inr (logBytes, st1) \<Rightarrow>
                 let i1 = i\<lparr>in_log := new_image logBytes, in_store := st1\<rparr>
                 in case mode_load ops s (in_mode i) Image st1 of
                      Inl e \<Rightarrow> ((s, i1), Inl e)
                    | Inr (imageBytes, st2) \<Rightarrow>
                        (case e_open eng logBytes imageBytes of (g, hops, status) \<Rightarrow>
                          let i2 = fold host_step hops (i1\<lparr>in_image := new_image imageBytes, in_store := st2,
                                     syncPending := False, in_guest := Some g\<rparr>)
                          in case status of
                               Inl e \<Rightarrow> ((s, i2), Inl e)
                             | Inr st \<Rightarrow>
                                 (case inst_commit ops (s, i2) of
                                    ((s', i3), Inl e) \<Rightarrow> ((s', i3), Inl e)
                                  | ((s', i3), Inr _) \<Rightarrow>
                                      ((s', if st = 0 then i3\<lparr>in_spaceId := spaceId, opened := True\<rparr> else i3),
                                       Inr st)))))"

text \<open>\<open>#callNow\<close>. On an instance that has loaded nothing the code dereferences \<open>null\<close>.\<close>

definition callNow ::
  "'s kv \<Rightarrow> 'g engine \<Rightarrow> string \<Rightarrow> byte list \<Rightarrow> 's \<times> 'g inst \<Rightarrow> ('s \<times> 'g inst) \<times> guest_result res" where
  "callNow ops eng entry fr si =
     (case si of (s, i) \<Rightarrow>
        (case in_guest i of
           None \<Rightarrow> ((s, i), Inl JsTypeError)
         | Some g \<Rightarrow>
             (case e_call eng entry fr g (content (in_log i)) (content (in_image i)) of (g', hops, r) \<Rightarrow>
                let i1 = fold host_step hops (i\<lparr>in_guest := Some g'\<rparr>)
                in case r of
                     Inl e \<Rightarrow> ((s, i1), Inl e)
                   | Inr out \<Rightarrow>
                       (case inst_commit ops (s, i1) of
                          (si', Inl e) \<Rightarrow> (si', Inl e)
                        | (si', Inr _) \<Rightarrow> (si', Inr out)))))"

definition inst_call ::
  "'s kv \<Rightarrow> 'g engine \<Rightarrow> string \<Rightarrow> byte list \<Rightarrow> 's \<times> 'g inst \<Rightarrow> ('s \<times> 'g inst) \<times> guest_result res" where
  "inst_call ops eng entry fr si =
     (case assertUsable (snd si) of Inl e \<Rightarrow> (si, Inl e) | Inr _ \<Rightarrow> callNow ops eng entry fr si)"

definition inst_close :: "'s kv \<Rightarrow> 'g engine \<Rightarrow> 's \<times> 'g inst \<Rightarrow> ('s \<times> 'g inst) \<times> int res" where
  "inst_close ops eng si =
     (case si of (s, i) \<Rightarrow>
        (case assertUsable i of
           Inl e \<Rightarrow> ((s, i), Inl e)
         | Inr _ \<Rightarrow>
             (case in_guest i of
                None \<Rightarrow> ((s, i), Inl JsTypeError)
              | Some g \<Rightarrow>
                  (case e_close eng g (content (in_log i)) (content (in_image i)) of (g', hops, status) \<Rightarrow>
                     let i1 = fold host_step hops (i\<lparr>in_guest := Some g'\<rparr>)
                     in case status of
                          Inl e \<Rightarrow> ((s, i1), Inl e)
                        | Inr st \<Rightarrow>
                            (case inst_commit ops (s, i1) of
                               (si', Inl e) \<Rightarrow> (si', Inl e)
                             | ((s', i'), Inr _) \<Rightarrow>
                                 ((s', i'\<lparr>closed := True, opened := False\<rparr>), Inr st))))))"

definition inst_fence :: "js_error \<Rightarrow> 'g inst \<Rightarrow> 'g inst" where
  "inst_fence e i = (case poisoned i of None \<Rightarrow> i\<lparr>poisoned := Some e\<rparr> | Some _ \<Rightarrow> i)"

text \<open>\<open>portableFramlog\<close>: the log and the version the guest serves it at.\<close>

definition portableFramlog ::
  "'s kv \<Rightarrow> 'g engine \<Rightarrow> 's \<times> 'g inst \<Rightarrow> ('s \<times> 'g inst) \<times> (byte list \<times> jstr) res" where
  "portableFramlog ops eng si =
     (case assertUsable (snd si) of
        Inl e \<Rightarrow> (si, Inl e)
      | Inr _ \<Rightarrow>
          (case statusFrame (in_spaceId (snd si)) of
             Inl e \<Rightarrow> (si, Inl e)
           | Inr fr \<Rightarrow>
               (case callNow ops eng ''q'' fr si of
                  (si', Inl e) \<Rightarrow> (si', Inl e)
                | (si', Inr r) \<Rightarrow>
                    if gr_status r \<noteq> 0 then (si', backupFailure ''engine'')
                    else (si', rbind (decodeStatusServedVersion (gr_response r) (in_spaceId (snd si')))
                                 (\<lambda>v. Inr (content (in_log (snd si')), v))))))"

section \<open>What a guest call means for the two byte strings\<close>

fun spec_op :: "host_op \<Rightarrow> (which \<Rightarrow> byte list) \<Rightarrow> which \<Rightarrow> byte list" where
  "spec_op (StorageAppend w bs) f = f(w := f w @ bs)"
| "spec_op (StorageTruncate w n) f = (if n \<le> length (f w) then f(w := take n (f w)) else f)"
| "spec_op (StorageSync w) f = f"
| "spec_op StorageClose f = f"

definition contents :: "'g inst \<Rightarrow> which \<Rightarrow> byte list" where
  "contents i w = content (get_image w i)"

lemma get_set_image [simp]: "get_image w (set_image v im i) = (if w = v then im else get_image w i)"
  by (cases w; cases v) (simp_all add: get_image_def set_image_def)

lemma image_fields [simp]:
  "get_image w (i\<lparr>syncPending := b\<rparr>) = get_image w i" "get_image w (i\<lparr>in_guest := g\<rparr>) = get_image w i"
  "get_image w (i\<lparr>in_store := st\<rparr>) = get_image w i" "get_image w (i\<lparr>in_commits := n\<rparr>) = get_image w i"
  "get_image w (i\<lparr>poisoned := e\<rparr>) = get_image w i" "get_image w (i\<lparr>opened := b\<rparr>) = get_image w i"
  "get_image w (i\<lparr>closed := b\<rparr>) = get_image w i" "get_image w (i\<lparr>in_spaceId := sp\<rparr>) = get_image w i"
  by (cases w; simp add: get_image_def)+

text \<open>The rest of an instance, which the hooks and the images do not touch.\<close>

definition same_rest :: "'g inst \<Rightarrow> 'g inst \<Rightarrow> bool" where
  "same_rest i j \<longleftrightarrow> in_mode j = in_mode i \<and> in_store j = in_store i \<and> in_guest j = in_guest i \<and>
     in_spaceId j = in_spaceId i \<and> in_commits j = in_commits i \<and> opened j = opened i \<and>
     closed j = closed i \<and> poisoned j = poisoned i"

lemma set_image_rest [simp]: "same_rest i (set_image w im j) = same_rest i j"
  by (cases w) (simp_all add: same_rest_def set_image_def)

lemma same_rest_refl [simp]: "same_rest i i"
  by (simp add: same_rest_def)

lemma host_step_rest: "same_rest i j \<Longrightarrow> same_rest i (host_step hop j)"
  by (cases hop) (auto simp: same_rest_def set_image_def split: which.splits)

lemma host_steps_rest: "same_rest i j \<Longrightarrow> same_rest i (fold host_step hops j)"
  by (induction hops arbitrary: j) (simp_all add: host_step_rest)

lemma count_sync [simp]: "content (im\<lparr>syncs := n\<rparr>) = content im" "tracks d (im\<lparr>syncs := n\<rparr>) = tracks d im"
  by (simp_all add: content_def tracks_def hi_inv_def split: option.splits)

lemma host_step_tracks:
  assumes "\<And>w. tracks (d w) (get_image w i)"
  shows "tracks (d w) (get_image w (host_step hop i)) \<and> contents (host_step hop i) = spec_op hop (contents i)"
proof (cases hop)
  case (StorageAppend v bs)
  have "hi_inv (get_image v i)" using assms [of v] by (simp add: tracks_def)
  with hi_append_ok [of "get_image v i" bs] assms tracks_append [of "d v" "get_image v i" bs] StorageAppend
  show ?thesis by (auto simp: contents_def fun_eq_iff)
next
  case (StorageTruncate v n)
  obtain b im where t: "hi_truncate n (get_image v i) = (b, im)" by force
  have inv: "hi_inv (get_image v i)" using assms [of v] by (simp add: tracks_def)
  from hi_truncate_ok [OF inv t] content_length [OF inv] tracks_truncate [OF assms t] t assms StorageTruncate
  show ?thesis by (auto simp: contents_def fun_eq_iff split: if_splits)
next
  case (StorageSync v)
  with assms show ?thesis by (simp add: contents_def fun_eq_iff)
next
  case StorageClose
  with assms show ?thesis by (simp add: contents_def fun_eq_iff)
qed

lemma host_steps_tracks:
  "(\<And>w. tracks (d w) (get_image w i)) \<Longrightarrow>
     (\<forall>w. tracks (d w) (get_image w (fold host_step hops i))) \<and>
     contents (fold host_step hops i) = fold spec_op hops (contents i)"
proof (induction hops arbitrary: i)
  case (Cons hop hops)
  have "tracks (d w) (get_image w (host_step hop i))" for w using host_step_tracks [OF Cons.prems] by blast
  with Cons.IH [of "host_step hop i"] host_step_tracks [OF Cons.prems] show ?case by simp
qed simp


section \<open>The commit publishes what the hooks did\<close>

text \<open>
  \<open>agrees ops s i f\<close>: the storage holds the byte strings \<open>f\<close>, and the images differ from them only above
  their low water marks. \<open>synced\<close> says so of an instance on the durable store; every call maintains it.
\<close>

definition agrees :: "'s kv \<Rightarrow> 's \<Rightarrow> 'g inst \<Rightarrow> (which \<Rightarrow> byte list) \<Rightarrow> bool" where
  "agrees ops s i f \<longleftrightarrow> holds ops s (in_store i) f \<and> (\<forall>w. tracks (f w) (get_image w i))"

definition synced :: "'s kv \<Rightarrow> 's \<Rightarrow> 'g inst \<Rightarrow> (which \<Rightarrow> byte list) \<Rightarrow> bool" where
  "synced ops s i f \<longleftrightarrow> in_mode i = Durable \<and> holds ops s (in_store i) f \<and> (\<forall>w. tracks (f w) (get_image w i))"

lemma synced_iff: "synced ops s i f \<longleftrightarrow> in_mode i = Durable \<and> agrees ops s i f"
  by (auto simp: synced_def agrees_def)

lemma take_commit_image:
  "tracks d im \<Longrightarrow> tracks (content im) (snd (takeCommit im)) \<and> content (snd (takeCommit im)) = content im"
  by (auto simp: tracks_def takeCommit_def content_def hi_inv_def split: option.splits)

lemma take_commits_image:
  "get_image w (take_commits i) =
     (if dirty (get_image w i) then snd (takeCommit (get_image w i)) else get_image w i)"
  by (cases w) (simp_all add: take_commits_def)

lemma take_commits_rest: "same_rest i (take_commits i)"
  by (simp add: take_commits_def)

lemma restore_commits_rest: "same_rest i j \<Longrightarrow> same_rest i (restore_commits ps j)"
  by (induction ps arbitrary: j) (simp_all add: restore_commits_def)

lemma dirty_parts_which: "distinct (map pt_which (dirty_parts i))"
  by (simp add: dirty_parts_def commit_part_def)

lemma clean_content: "tracks d im \<Longrightarrow> \<not> dirty im \<Longrightarrow> content im = d"
  by (auto simp: tracks_def split: option.splits)

lemma dirty_part_ok:
  assumes "tracks (f w) (get_image w i)"
  shows "part_ok f (commit_part w (get_image w i))"
proof -
  let ?im = "get_image w i"
  have len: "hi_length ?im \<le> length (hi_bytes ?im)" using assms by (simp add: tracks_def hi_inv_def)
  show ?thesis
  proof (cases "lowWater ?im")
    case None
    with len show ?thesis by (simp add: part_ok_def commit_part_def takeCommit_def)
  next
    case (Some l)
    with assms have l: "l \<le> length (f w)" "l \<le> hi_length ?im" "take l (content ?im) = take l (f w)"
      using content_length [of ?im] by (simp_all add: tracks_def)
    with len Some show ?thesis by (simp add: part_ok_def commit_part_def takeCommit_def content_def min_def)
  qed
qed

lemma publish_dirty:
  assumes "\<And>w. tracks (f w) (get_image w i)"
  shows "publish (dirty_parts i) f = contents i"
proof
  fix w
  have part: "part_content (commit_part v (get_image v i)) = contents i v" for v
    by (simp add: part_content_def commit_part_def contents_def content_def)
  have which: "pt_which (commit_part v im) = v" for v im by (simp add: commit_part_def)
  show "publish (dirty_parts i) f w = contents i w"
    using clean_content [OF assms, of w]
    by (cases w) (auto simp: publish_def dirty_parts_def which part contents_def)
qed

text \<open>No operation moves the ranges, so a later store over the same storage finds them.\<close>

definition same_prefixes :: "store \<Rightarrow> store \<Rightarrow> bool" where
  "same_prefixes st st' \<longleftrightarrow> (\<forall>w. prefix (get_range w st') = prefix (get_range w st))"

lemma same_prefixes_trans: "same_prefixes st st' \<Longrightarrow> same_prefixes st' st'' \<Longrightarrow> same_prefixes st st''"
  by (simp add: same_prefixes_def)

lemma load_all_inv:
  "(\<And>x u u'. f x u = Inr u' \<Longrightarrow> P u \<Longrightarrow> P u') \<Longrightarrow> load_all f xs u = Inr u' \<Longrightarrow> P u \<Longrightarrow> P u'"
  by (induction xs arbitrary: u) (auto simp: res_simps)

lemma load_chunk_prefix: "load_chunk got len i u = Inr u' \<Longrightarrow> prefix (snd u) = p \<Longrightarrow> prefix (snd u') = p"
  by (auto simp: load_chunk_def Let_def split: prod.splits option.splits kv_value.splits)

lemma load_batch_prefix: "load_batch ops s len idx u = Inr u' \<Longrightarrow> prefix (snd u) = p \<Longrightarrow> prefix (snd u') = p"
  by (auto simp: load_batch_def Let_def split: prod.splits dest!: load_all_inv [where P = "\<lambda>u. prefix (snd u) = p", rotated]
      intro: load_chunk_prefix)

lemma range_load_prefix: "range_load ops s r = Inr (bs, r') \<Longrightarrow> prefix r' = prefix r"
  by (auto simp: range_load_def Let_def res_simps split: option.splits kv_value.splits if_splits
      dest!: load_all_inv [where P = "\<lambda>u. prefix (snd u) = prefix r", rotated] intro: load_batch_prefix)

lemma store_load_prefixes:
  assumes "store_load ops s w st = Inr (bs, st')"
  shows "same_prefixes st st'"
proof -
  obtain r where r: "range_load ops s (get_range w st) = Inr (bs, r)" "st' = set_range w r st"
    using assms by (auto simp: store_load_def res_simps)
  from range_load_prefix [OF r(1)] r(2) show ?thesis by (simp add: same_prefixes_def)
qed

text \<open>A commit writes nothing unless the instance is on the durable store.\<close>

lemma inst_commit_mode:
  "in_mode i \<noteq> Durable \<Longrightarrow> inst_commit ops (s, i) = ((s', i'), r) \<Longrightarrow> s' = s"
  using take_commits_rest [of "i\<lparr>syncPending := False\<rparr>"]
  by (auto simp: inst_commit_def mode_commit_def Let_def same_rest_def split: prod.splits sum.splits if_splits store_mode.splits)

lemma inst_commit_keeps:
  assumes "inst_commit ops (s, i) = ((s', i'), r)"
  shows "in_guest i' = in_guest i \<and> in_mode i' = in_mode i"
proof -
  let ?i1 = "take_commits (i\<lparr>syncPending := False\<rparr>)"
  have rest: "same_rest i ?i1" using take_commits_rest [of "i\<lparr>syncPending := False\<rparr>"] by (simp add: same_rest_def)
  then have restored: "same_rest i (restore_commits (dirty_parts i) ?i1)" by (rule restore_commits_rest)
  with rest assms show ?thesis
    unfolding inst_commit_def by (auto simp: Let_def same_rest_def split: prod.splits sum.splits if_splits)
qed

lemma usable_iff: "assertUsable i = Inr u \<longleftrightarrow> poisoned i = None \<and> \<not> closed i"
  by (simp add: assertUsable_def split: option.splits)

lemma inst_call_eq:
  assumes "assertUsable i = Inr ()" "in_guest i = Some g"
    "e_call eng entry fr g (contents i Log) (contents i Image) = (g', hops, out)"
  shows "inst_call ops eng entry fr (s, i) =
    (let i1 = fold host_step hops (i\<lparr>in_guest := Some g'\<rparr>)
     in case out of Inl e \<Rightarrow> ((s, i1), Inl e)
        | Inr r \<Rightarrow> (case inst_commit ops (s, i1) of (si, Inl e) \<Rightarrow> (si, Inl e) | (si, Inr _) \<Rightarrow> (si, Inr r)))"
  using assms by (simp add: inst_call_def callNow_def contents_def get_image_def)

lemma inst_open_eq:
  assumes "assertUsable i = Inr ()" "\<not> opened i" "mode_load ops s (in_mode i) Log (in_store i) = Inr (l, st1)"
    "mode_load ops s (in_mode i) Image st1 = Inr (m, st2)" "e_open eng l m = (g, hops, out)"
  shows "inst_open ops eng sp (s, i) =
    (let i2 = fold host_step hops (i\<lparr>in_log := new_image l, in_image := new_image m, in_store := st2,
               syncPending := False, in_guest := Some g\<rparr>)
     in case out of Inl e \<Rightarrow> ((s, i2), Inl e)
        | Inr r \<Rightarrow> (case inst_commit ops (s, i2) of ((s', i3), Inl e) \<Rightarrow> ((s', i3), Inl e)
            | ((s', i3), Inr _) \<Rightarrow> ((s', if r = 0 then i3\<lparr>in_spaceId := sp, opened := True\<rparr> else i3), Inr r)))"
  using assms by (simp add: inst_open_def Let_def)

context kv_storage
begin

lemma inst_commit_ok:
  assumes "synced ops s i f" "inst_commit ops (s, i) = ((s', i'), Inr u)"
  shows "synced ops s' i' (contents i) \<and> contents i' = contents i \<and> \<not> dirty (get_image w i') \<and>
    in_guest i' = in_guest i \<and> poisoned i' = poisoned i \<and> closed i' = closed i \<and> opened i' = opened i \<and>
    in_spaceId i' = in_spaceId i"
proof (cases "\<not> syncPending i \<and> \<not> dirty (in_log i) \<and> \<not> dirty (in_image i)")
  case True
  then have clean: "\<not> dirty (get_image v i)" for v by (cases v) (simp_all add: get_image_def)
  have "contents i = f"
    using assms(1) clean by (auto simp: contents_def synced_def fun_eq_iff intro: clean_content)
  moreover have "s' = s" "i' = i" using True assms(2) by (simp_all add: inst_commit_def)
  ultimately show ?thesis using assms(1) clean by simp
next
  case False
  let ?i1 = "take_commits (i\<lparr>syncPending := False\<rparr>)" and ?ps = "dirty_parts i"
  have tracks: "tracks (f v) (get_image v i)" for v using assms(1) by (simp add: synced_def)
  have images: "tracks (contents i v) (get_image v ?i1) \<and> content (get_image v ?i1) = contents i v \<and>
      \<not> dirty (get_image v ?i1)" for v
    using take_commit_image [OF tracks [of v]] clean_content [OF tracks [of v]] tracks [of v]
    by (auto simp: take_commits_image contents_def takeCommit_def)
  have rest: "same_rest i ?i1" using take_commits_rest [of "i\<lparr>syncPending := False\<rparr>"] by (simp add: same_rest_def)
  have same: "contents ?i1 = contents i" using images by (simp add: contents_def fun_eq_iff)
  show ?thesis
  proof (cases "?ps = []")
    case True
    have "publish ?ps f = f" using True by (simp add: publish_def)
    then have "contents i = f" using publish_dirty [of f i] tracks by simp
    moreover have "s' = s" "i' = ?i1" using True False assms(2) by (auto simp: inst_commit_def Let_def)
    ultimately show ?thesis using assms(1) images rest same by (auto simp: synced_def same_rest_def)
  next
    case parts: False
    obtain st' where c: "mode_commit ops (in_mode i) ?ps (s, in_store i) = ((s', st'), Inr ())"
      "i' = ?i1\<lparr>in_store := st', in_commits := in_commits ?i1 + 1\<rparr>"
      using assms(2) False parts rest unfolding inst_commit_def
      by (auto simp: Let_def same_rest_def split: prod.splits sum.splits)
    have ok: "part_ok f p" if "p \<in> set ?ps" for p
      using that by (auto simp: dirty_parts_def intro!: dirty_part_ok tracks split: if_splits)
    have "store_commit ops ?ps (s, in_store i) = ((s', st'), Inr ())" "holds ops s (in_store i) f"
      using c(1) assms(1) by (simp_all add: mode_commit_def synced_def)
    with store_commit_ok [OF _ dirty_parts_which ok] publish_dirty [of f i, OF tracks]
    have "holds ops s' st' (contents i)" by fastforce
    with c(2) images rest same assms(1) show ?thesis by (auto simp: synced_def same_rest_def contents_def)
  qed
qed


text \<open>A commit that fails is a storage error, and nothing landed.\<close>

lemma inst_commit_reject:
  assumes "in_mode i = Durable" "inst_commit ops (s, i) = ((s', i'), Inl e)"
  shows "s' = s \<and> e = StorageError \<and> poisoned i' = Some StorageError \<and> in_store i' = in_store i \<and> in_mode i' = Durable"
proof -
  let ?i1 = "take_commits (i\<lparr>syncPending := False\<rparr>)" and ?ps = "dirty_parts i"
  have rest: "same_rest i ?i1" using take_commits_rest [of "i\<lparr>syncPending := False\<rparr>"] by (simp add: same_rest_def)
  then have restored: "same_rest i (restore_commits ?ps ?i1)" by (rule restore_commits_rest)
  obtain st' e' where c: "mode_commit ops (in_mode i) ?ps (s, in_store i) = ((s', st'), Inl e')" "e = StorageError"
    "i' = (restore_commits ?ps ?i1)\<lparr>in_store := st', poisoned := Some StorageError\<rparr>"
    using assms(2) rest unfolding inst_commit_def
    by (auto simp: Let_def same_rest_def split: prod.splits sum.splits if_splits)
  have "s' = s \<and> st' = in_store i" using c(1) assms(1) store_commit_reject by (simp add: mode_commit_def)
  with c restored assms(1) show ?thesis by (simp add: same_rest_def)
qed

lemma host_steps_synced:
  assumes "synced ops s i f"
  shows "synced ops s (fold host_step hops (i\<lparr>in_guest := g\<rparr>)) f \<and>
    contents (fold host_step hops (i\<lparr>in_guest := g\<rparr>)) = fold spec_op hops (contents i) \<and>
    same_rest (i\<lparr>in_guest := g\<rparr>) (fold host_step hops (i\<lparr>in_guest := g\<rparr>))"
proof -
  let ?j = "i\<lparr>in_guest := g\<rparr>"
  have t: "tracks (f w) (get_image w ?j)" for w using assms by (simp add: synced_def)
  have rest: "same_rest ?j (fold host_step hops ?j)" by (simp add: host_steps_rest)
  have "contents ?j = contents i" by (simp add: contents_def fun_eq_iff)
  with host_steps_tracks [of f ?j hops, OF t] rest assms show ?thesis by (auto simp: synced_def same_rest_def)
qed

section \<open>A call is one transition of the two byte strings\<close>

text \<open>
  A call that returns has published exactly what its hooks made of the byte strings, and the guest saw the
  bytes the storage and the earlier calls left.
\<close>

lemma inst_call_ok:
  assumes "synced ops s i f" "in_guest i = Some g" "inst_call ops eng entry fr (s, i) = ((s', i'), Inr r)"
  shows "\<exists>g' hops. e_call eng entry fr g (contents i Log) (contents i Image) = (g', hops, Inr r) \<and>
    synced ops s' i' (fold spec_op hops (contents i)) \<and> contents i' = fold spec_op hops (contents i) \<and>
    in_guest i' = Some g' \<and> assertUsable i' = Inr ()"
proof -
  have use: "assertUsable i = Inr ()" using assms(3) by (auto simp: inst_call_def split: sum.splits)
  obtain g' hops out where e: "e_call eng entry fr g (contents i Log) (contents i Image) = (g', hops, out)"
    by (metis prod_cases3)
  let ?i1 = "fold host_step hops (i\<lparr>in_guest := Some g'\<rparr>)"
  have step: "synced ops s ?i1 f" "contents ?i1 = fold spec_op hops (contents i)" "same_rest (i\<lparr>in_guest := Some g'\<rparr>) ?i1"
    using host_steps_synced [OF assms(1)] by blast+
  note call = inst_call_eq [OF use assms(2) e, of ops s, unfolded Let_def]
  obtain s2 i2 c where c2: "inst_commit ops (s, ?i1) = ((s2, i2), c)" by (metis prod.exhaust)
  have c: "out = Inr r" "inst_commit ops (s, ?i1) = ((s', i'), Inr ())"
    using assms(3) call c2 by (cases out; cases c; simp)+
  from inst_commit_ok [OF step(1) c(2)] step e c(1) use show ?thesis
    by (auto simp: same_rest_def assertUsable_def split: option.splits if_splits)
qed

text \<open>
  A call that fails leaves the storage as it was: a refusal, a trap of the guest, or a rejected commit, after
  which the instance answers nothing but its storage error.
\<close>

lemma inst_call_fails:
  assumes "synced ops s i f" "in_guest i = Some g" "inst_call ops eng entry fr (s, i) = ((s', i'), Inl e)"
  shows "s' = s \<and> in_store i' = in_store i \<and> (synced ops s' i' f \<or> poisoned i' = Some StorageError)"
proof (cases "assertUsable i")
  case (Inl e0)
  with assms show ?thesis by (auto simp: inst_call_def)
next
  case (Inr u0)
  obtain g' hops out where e: "e_call eng entry fr g (contents i Log) (contents i Image) = (g', hops, out)"
    by (metis prod_cases3)
  let ?i1 = "fold host_step hops (i\<lparr>in_guest := Some g'\<rparr>)"
  have step: "synced ops s ?i1 f" "same_rest (i\<lparr>in_guest := Some g'\<rparr>) ?i1"
    using host_steps_synced [OF assms(1)] by blast+
  then have st: "in_store ?i1 = in_store i" "in_mode ?i1 = Durable" by (simp_all add: same_rest_def synced_def)
  have use: "assertUsable i = Inr ()" using Inr by (cases u0) simp
  note call = inst_call_eq [OF use assms(2) e, of ops s, unfolded Let_def]
  show ?thesis
  proof (cases out)
    case (Inl e1)
    with assms(3) call have "s' = s" "i' = ?i1" by simp_all
    with step st show ?thesis by simp
  next
    case (Inr r)
    obtain s2 i2 c where c: "inst_commit ops (s, ?i1) = ((s2, i2), c)" by (metis prod.exhaust)
    have failed: "inst_commit ops (s, ?i1) = ((s', i'), Inl e)"
      using assms(3) call Inr c by (cases c) simp_all
    from inst_commit_reject [OF st(2) failed] st show ?thesis by simp
  qed
qed

text \<open>Up to its commit, an open loads what the storage holds and runs the guest over it.\<close>

lemma inst_open_start:
  fixes eng :: "'g engine"
  assumes "holds ops s st0 f" "prefix (logRange st) = prefix (logRange st0)" "prefix (imageRange st) = prefix (imageRange st0)"
    "0 < chunkBytes (logRange st)" "0 < chunkBytes (imageRange st)" "mode = Durable \<or> mode = ReadOnly"
  shows "\<exists>g hops out i2. e_open eng (f Log) (f Image) = (g, hops, out) \<and> agrees ops s i2 f \<and>
    contents i2 = fold spec_op hops f \<and> in_mode i2 = mode \<and> in_guest i2 = Some g \<and> assertUsable i2 = Inr () \<and>
    \<not> opened i2 \<and> same_prefixes st (in_store i2) \<and>
    inst_open ops eng sp (s, new_inst mode st) = (case out of Inl e \<Rightarrow> ((s, i2), Inl e)
      | Inr r \<Rightarrow> (case inst_commit ops (s, i2) of ((s', i3), Inl e) \<Rightarrow> ((s', i3), Inl e)
        | ((s', i3), Inr _) \<Rightarrow> ((s', if r = 0 then i3\<lparr>in_spaceId := sp, opened := True\<rparr> else i3), Inr r)))"
proof -
  let ?i = "new_inst mode st :: 'g inst"
  have pre: "prefixes_ok st" using assms(1-3) by (simp add: holds_def prefixes_ok_def)
  have held: "stored ops s (get_range w st0) (f w)" "prefix (get_range w st) = prefix (get_range w st0)"
    "0 < chunkBytes (get_range w st)" for w
    using assms(1) by (simp add: holds_def range_holds_def)
      (use assms(2-5) in \<open>cases w; simp add: get_range_def\<close>)+
  obtain st1 where st1: "store_load ops s Log st = Inr (f Log, st1)" "range_holds ops s (get_range Log st1) (f Log)"
    "prefixes_ok st1" "get_range Image st1 = get_range Image st"
    using store_load_ok [where f = f, OF held [of Log] pre] by auto
  obtain st2 where st2: "store_load ops s Image st1 = Inr (f Image, st2)" "range_holds ops s (get_range Image st2) (f Image)"
    "prefixes_ok st2" "get_range Log st2 = get_range Log st1"
    using store_load_ok [where f = f, OF held(1) [of Image] _ _ st1(3)] held(2,3) [of Image] st1(4) by auto
  have moved: "same_prefixes st st2"
    using store_load_prefixes [OF st1(1)] store_load_prefixes [OF st2(1)] by (rule same_prefixes_trans)
  obtain g hops out where e: "e_open eng (f Log) (f Image) = (g, hops, out)" by (metis prod_cases3)
  let ?j = "?i\<lparr>in_log := new_image (f Log), in_image := new_image (f Image), in_store := st2, syncPending := False\<rparr>"
  let ?i2 = "fold host_step hops (?j\<lparr>in_guest := Some g\<rparr>)"
  have at: "range_holds ops s (get_range w st2) (f w) \<and> tracks (f w) (get_image w ?j) \<and> contents ?j w = f w" for w
    using st1 st2 by (cases w) (simp_all add: get_image_def contents_def tracks_new)
  have rest: "same_rest (?j\<lparr>in_guest := Some g\<rparr>) ?i2" by (simp add: host_steps_rest)
  have "tracks (f w) (get_image w (?j\<lparr>in_guest := Some g\<rparr>))" for w using at [of w] by simp
  moreover have "contents (?j\<lparr>in_guest := Some g\<rparr>) = f" using at by (auto simp: contents_def fun_eq_iff)
  ultimately have step: "\<forall>w. tracks (f w) (get_image w ?i2)" "contents ?i2 = fold spec_op hops f"
    using host_steps_tracks [of f "?j\<lparr>in_guest := Some g\<rparr>" hops] by simp_all
  have "holds ops s st2 f" using at st2(3) by (simp add: holds_def)
  moreover have keep: "in_store ?i2 = st2" "in_mode ?i2 = mode" "in_guest ?i2 = Some g" "assertUsable ?i2 = Inr ()" "\<not> opened ?i2"
    using rest by (simp_all add: same_rest_def new_inst_def assertUsable_def)
  ultimately have "agrees ops s ?i2 f" using step(1) by (simp add: agrees_def)
  moreover have "assertUsable ?i = Inr ()" by (simp add: assertUsable_def new_inst_def)
  moreover have "\<not> opened ?i" "mode_load ops s (in_mode ?i) Log (in_store ?i) = Inr (f Log, st1)"
    "mode_load ops s (in_mode ?i) Image st1 = Inr (f Image, st2)"
    using st1(1) st2(1) assms(6) by (auto simp: new_inst_def mode_load_def)
  ultimately show ?thesis using e step(2) keep moved inst_open_eq [OF _ _ _ _ e, of ?i ops s st1 st2 sp]
    by (intro exI [of _ g] exI [of _ hops] exI [of _ out] exI [of _ ?i2]) (simp add: Let_def)
qed

lemma inst_open_ok:
  assumes "holds ops s st0 f" "prefix (logRange st) = prefix (logRange st0)" "prefix (imageRange st) = prefix (imageRange st0)"
    "0 < chunkBytes (logRange st)" "0 < chunkBytes (imageRange st)"
    "inst_open ops eng sp (s, new_inst Durable st) = ((s', i'), Inr r)"
  shows "\<exists>g hops. e_open eng (f Log) (f Image) = (g, hops, Inr r) \<and> synced ops s' i' (fold spec_op hops f) \<and>
    contents i' = fold spec_op hops f \<and> in_guest i' = Some g \<and> assertUsable i' = Inr () \<and>
    (opened i' \<longleftrightarrow> r = 0) \<and> (opened i' \<longrightarrow> in_spaceId i' = sp)"
proof -
  obtain g hops out i2 where o: "e_open eng (f Log) (f Image) = (g, hops, out)" "agrees ops s i2 f"
    "contents i2 = fold spec_op hops f" "in_mode i2 = Durable" "in_guest i2 = Some g" "assertUsable i2 = Inr ()"
    "\<not> opened i2"
    and opens: "inst_open ops eng sp (s, new_inst Durable st) = (case out of Inl e \<Rightarrow> ((s, i2), Inl e)
      | Inr r \<Rightarrow> (case inst_commit ops (s, i2) of ((s', i3), Inl e) \<Rightarrow> ((s', i3), Inl e)
        | ((s', i3), Inr _) \<Rightarrow> ((s', if r = 0 then i3\<lparr>in_spaceId := sp, opened := True\<rparr> else i3), Inr r)))"
    using inst_open_start [OF assms(1-5), of Durable eng sp] by blast
  obtain s2 i3 c0 where c2: "inst_commit ops (s, i2) = ((s2, i3), c0)" by (metis prod.exhaust)
  have c: "out = Inr r" "inst_commit ops (s, i2) = ((s', i3), Inr ())"
    "i' = (if r = 0 then i3\<lparr>in_spaceId := sp, opened := True\<rparr> else i3)"
    using trans [OF opens [symmetric] assms(6)] unfolding c2 by (cases out; cases c0; simp)+
  have "synced ops s i2 f" using o by (simp add: synced_iff)
  from inst_commit_ok [OF this c(2)] o
  have i3: "synced ops s' i3 (fold spec_op hops f)" "contents i3 = fold spec_op hops f" "in_guest i3 = Some g"
    "assertUsable i3 = Inr ()" "\<not> opened i3"
    by (auto simp: usable_iff)
  then have "synced ops s' i' (fold spec_op hops f) \<and> contents i' = fold spec_op hops f \<and> in_guest i' = Some g \<and>
      assertUsable i' = Inr ()"
    using c(3) by (auto simp: synced_def contents_def usable_iff fun_eq_iff)
  with o(1) c i3(5) show ?thesis by auto
qed

text \<open>On the read-only store a commit succeeds only when it has nothing to write.\<close>

lemma dirty_parts_none: "dirty_parts i = [] \<longleftrightarrow> \<not> dirty (get_image Log i) \<and> \<not> dirty (get_image Image i)"
  by (simp add: dirty_parts_def)

lemma inst_commit_readonly:
  assumes "in_mode i = ReadOnly" "agrees ops s i f" "inst_commit ops (s, i) = ((s', i'), Inr u)"
  shows "s' = s \<and> agrees ops s i' f \<and> contents i' = f \<and> contents i = f \<and> in_mode i' = ReadOnly \<and>
    in_store i' = in_store i \<and> in_guest i' = in_guest i \<and> assertUsable i' = assertUsable i"
proof -
  let ?i1 = "take_commits (i\<lparr>syncPending := False\<rparr>)" and ?ps = "dirty_parts i"
  have tracks: "tracks (f v) (get_image v i)" for v using assms(2) by (simp add: agrees_def)
  have none: "?ps = []" if "\<not> (\<not> syncPending i \<and> \<not> dirty (in_log i) \<and> \<not> dirty (in_image i))"
    using assms(1,3) that take_commits_rest [of "i\<lparr>syncPending := False\<rparr>"]
    by (auto simp: inst_commit_def mode_commit_def Let_def same_rest_def split: if_splits)
  then have ps: "?ps = []" by (cases "?ps = []") (auto simp: dirty_parts_none get_image_def)
  then have clean: "\<not> dirty (get_image v i)" for v by (cases v) (simp_all add: dirty_parts_none)
  then have ci: "contents i = f" using clean_content [OF tracks] by (auto simp: contents_def fun_eq_iff)
  have "s' = s \<and> (i' = i \<or> i' = ?i1)"
    using assms(3) ps by (auto simp: inst_commit_def Let_def split: if_splits)
  moreover have same: "get_image v ?i1 = get_image v i" for v using clean by (simp add: take_commits_image)
  moreover have "same_rest i ?i1"
    using take_commits_rest [of "i\<lparr>syncPending := False\<rparr>"] by (simp add: same_rest_def)
  moreover have "contents ?i1 = f" using ci same by (simp add: contents_def fun_eq_iff)
  ultimately show ?thesis using assms(1,2) ci by (auto simp: same_rest_def agrees_def assertUsable_def)
qed

lemma inst_open_readonly:
  assumes "holds ops s st0 f" "prefix (logRange st) = prefix (logRange st0)" "prefix (imageRange st) = prefix (imageRange st0)"
    "0 < chunkBytes (logRange st)" "0 < chunkBytes (imageRange st)"
    "inst_open ops eng sp (s, new_inst ReadOnly st) = ((s', i'), r)"
  shows "s' = s \<and> (\<forall>n. r = Inr n \<longrightarrow> agrees ops s i' f \<and> contents i' = f \<and> in_guest i' \<noteq> None \<and>
    assertUsable i' = Inr () \<and> same_prefixes st (in_store i') \<and> (n = 0 \<longrightarrow> opened i' \<and> in_spaceId i' = sp))"
proof -
  obtain g hops out i2 where o: "agrees ops s i2 f" "in_mode i2 = ReadOnly" "in_guest i2 = Some g" "assertUsable i2 = Inr ()"
    "same_prefixes st (in_store i2)"
    and opens: "inst_open ops eng sp (s, new_inst ReadOnly st) = (case out of Inl e \<Rightarrow> ((s, i2), Inl e)
      | Inr r \<Rightarrow> (case inst_commit ops (s, i2) of ((s', i3), Inl e) \<Rightarrow> ((s', i3), Inl e)
        | ((s', i3), Inr _) \<Rightarrow> ((s', if r = 0 then i3\<lparr>in_spaceId := sp, opened := True\<rparr> else i3), Inr r)))"
    using inst_open_start [OF assms(1-5), of ReadOnly eng sp] by blast
  obtain s2 i3 c0 where c2: "inst_commit ops (s, i2) = ((s2, i3), c0)" by (metis prod.exhaust)
  have s2: "s2 = s" using inst_commit_mode [OF _ c2] o(2) by simp
  show ?thesis
  proof (cases "\<exists>n u. out = Inr n \<and> c0 = Inr u")
    case False
    with trans [OF opens [symmetric] assms(6)] s2 show ?thesis unfolding c2 by (cases out; cases c0) auto
  next
    case True
    then obtain n u where nu: "out = Inr n" "c0 = Inr u" by blast
    with trans [OF opens [symmetric] assms(6)] s2
    have r: "s' = s" "r = Inr n" "i' = (if n = 0 then i3\<lparr>in_spaceId := sp, opened := True\<rparr> else i3)"
      unfolding c2 by auto
    from inst_commit_readonly [OF o(2,1) c2 [unfolded nu(2)]] o r show ?thesis
      by (auto simp: agrees_def contents_def usable_iff fun_eq_iff)
  qed
qed

end

section \<open>A history of calls\<close>

fun run_calls ::
  "'s kv \<Rightarrow> 'g engine \<Rightarrow> (string \<times> byte list) list \<Rightarrow> 's \<times> 'g inst \<Rightarrow> ('s \<times> 'g inst) \<times> guest_result res list" where
  "run_calls ops eng [] si = (si, [])"
| "run_calls ops eng (c # cs) si =
     (case inst_call ops eng (fst c) (snd c) si of (si1, r) \<Rightarrow>
        (case run_calls ops eng cs si1 of (si2, rs) \<Rightarrow> (si2, r # rs)))"

text \<open>The reference machine: the guest over two plain byte strings, each call one atomic transition.\<close>

fun spec_calls ::
  "'g engine \<Rightarrow> (string \<times> byte list) list \<Rightarrow> 'g \<times> (which \<Rightarrow> byte list) \<Rightarrow> ('g \<times> (which \<Rightarrow> byte list)) \<times> guest_result res list" where
  "spec_calls eng [] gf = (gf, [])"
| "spec_calls eng (c # cs) (g, f) =
     (case e_call eng (fst c) (snd c) g (f Log) (f Image) of (g', hops, out) \<Rightarrow>
        (case spec_calls eng cs (g', fold spec_op hops f) of (gf, outs) \<Rightarrow> (gf, out # outs)))"

context kv_storage
begin

lemma run_calls_refine:
  "synced ops s i f \<Longrightarrow> in_guest i = Some g \<Longrightarrow> contents i = f \<Longrightarrow>
     run_calls ops eng cs (s, i) = ((s', i'), rs) \<Longrightarrow> list_all (Not \<circ> isl) rs \<Longrightarrow>
     \<exists>g' f'. spec_calls eng cs (g, f) = ((g', f'), rs) \<and> synced ops s' i' f' \<and> in_guest i' = Some g' \<and> contents i' = f'"
proof (induction cs arbitrary: s i f g rs)
  case Nil
  then show ?case by auto
next
  case (Cons c cs)
  obtain s1 i1 r where r: "inst_call ops eng (fst c) (snd c) (s, i) = ((s1, i1), r)" by (metis prod.exhaust)
  obtain rs1 where rs1: "run_calls ops eng cs (s1, i1) = ((s', i'), rs1)" "rs = r # rs1"
    using Cons.prems(4) r by (auto split: prod.splits)
  then obtain out where out: "r = Inr out" using Cons.prems(5) by (cases r) simp_all
  from inst_call_ok [OF Cons.prems(1,2) r [unfolded out]] Cons.prems(3)
  obtain g1 hops where e: "e_call eng (fst c) (snd c) g (f Log) (f Image) = (g1, hops, Inr out)"
    "synced ops s1 i1 (fold spec_op hops f)" "contents i1 = fold spec_op hops f" "in_guest i1 = Some g1" by auto
  from Cons.IH [OF e(2,4,3) rs1(1)] Cons.prems(5) rs1(2)
  obtain g' f' where "spec_calls eng cs (g1, fold spec_op hops f) = ((g', f'), rs1)" "synced ops s' i' f'"
    "in_guest i' = Some g'" "contents i' = f'" by auto
  with e(1) rs1(2) out show ?case by simp
qed

text \<open>Whatever the calls do, the storage holds a published state and the instance agrees with it or is fenced.\<close>

definition consistent :: "'s \<Rightarrow> 'g inst \<Rightarrow> bool" where
  "consistent s i \<longleftrightarrow> in_guest i \<noteq> None \<and> (\<exists>f. holds ops s (in_store i) f \<and> (synced ops s i f \<or> poisoned i \<noteq> None))"

lemma inst_call_guest:
  assumes "in_guest i \<noteq> None" "inst_call ops eng entry fr (s, i) = ((s', i'), r)"
  shows "in_guest i' \<noteq> None"
proof (cases "assertUsable i")
  case (Inl e)
  with assms show ?thesis by (simp add: inst_call_def)
next
  case (Inr u)
  then have use: "assertUsable i = Inr ()" by (cases u) simp
  obtain g where g: "in_guest i = Some g" using assms(1) by blast
  obtain g' hops out where e: "e_call eng entry fr g (contents i Log) (contents i Image) = (g', hops, out)"
    by (metis prod_cases3)
  let ?i1 = "fold host_step hops (i\<lparr>in_guest := Some g'\<rparr>)"
  have "same_rest (i\<lparr>in_guest := Some g'\<rparr>) ?i1" by (simp add: host_steps_rest)
  then have i1: "in_guest ?i1 = Some g'" by (simp add: same_rest_def)
  obtain s2 i2 c where c: "inst_commit ops (s, ?i1) = ((s2, i2), c)" by (metis prod.exhaust)
  have "in_guest i2 = Some g'" using inst_commit_keeps [OF c] i1 by simp
  with assms(2) inst_call_eq [OF use g e, of ops s] c i1 show ?thesis
    by (cases out; cases c) (auto simp: Let_def)
qed

lemma inst_call_consistent:
  assumes "consistent s i" "inst_call ops eng entry fr (s, i) = ((s', i'), r)"
  shows "consistent s' i'"
proof -
  obtain g f where g: "in_guest i = Some g" and f: "holds ops s (in_store i) f" "synced ops s i f \<or> poisoned i \<noteq> None"
    using assms(1) by (auto simp: consistent_def)
  have guest: "in_guest i' \<noteq> None" using inst_call_guest [OF _ assms(2)] g by simp
  show ?thesis
  proof (cases "poisoned i")
    case (Some e)
    with assms(2) have "s' = s" "i' = i" by (simp_all add: inst_call_def assertUsable_def)
    with assms(1) show ?thesis by simp
  next
    case None
    then have sync: "synced ops s i f" using f(2) by simp
    show ?thesis
    proof (cases r)
      case (Inl e)
      from inst_call_fails [OF sync g assms(2) [unfolded Inl]] f(1) guest show ?thesis by (auto simp: consistent_def)
    next
      case (Inr out)
      from inst_call_ok [OF sync g assms(2) [unfolded Inr]] guest show ?thesis
        by (auto simp: consistent_def synced_def)
    qed
  qed
qed

lemma run_calls_consistent: "consistent s i \<Longrightarrow> run_calls ops eng cs (s, i) = ((s', i'), rs) \<Longrightarrow> consistent s' i'"
proof (induction cs arbitrary: s i rs)
  case (Cons c cs)
  obtain s1 i1 r where r: "inst_call ops eng (fst c) (snd c) (s, i) = ((s1, i1), r)" by (metis prod.exhaust)
  from Cons.prems r obtain rs1 where "run_calls ops eng cs (s1, i1) = ((s', i'), rs1)" by (auto split: prod.splits)
  with Cons.IH inst_call_consistent [OF Cons.prems(1) r] show ?case by blast
qed simp

end

section \<open>Restart\<close>

lemma apply_parts_prefixes: "same_prefixes st (snd (fold (apply_part ops) staged (s, st)))"
proof (induction staged arbitrary: s st)
  case (Cons wp staged)
  obtain w pl where wp: "wp = (w, pl)" by force
  obtain s1 r1 where r1: "applyTo ops pl (s, get_range w st) = (s1, r1)" by force
  have "same_prefixes st (set_range w r1 st)"
    using applyTo_geometry [OF r1] by (simp add: same_prefixes_def same_geometry_def)
  with Cons [of "set_range w r1 st" s1] show ?case
    by (simp add: wp apply_part_def r1) (blast intro: same_prefixes_trans)
qed (simp add: same_prefixes_def)

lemma settle_parts_prefixes: "same_prefixes st (fold settle_part staged st)"
proof (induction staged arbitrary: st)
  case (Cons wp staged)
  have "same_prefixes st (settle_part wp st)"
    by (cases wp) (simp add: settle_part_def same_prefixes_def settle_def)
  with Cons [of "settle_part wp st"] show ?case by (simp, blast intro: same_prefixes_trans)
qed (simp add: same_prefixes_def)

lemma run_transaction_prefixes:
  assumes "run_transaction ops staged extra (s, st) = ((s', st'), r)"
  shows "same_prefixes st st'"
proof -
  let ?a = "snd (fold (apply_part ops) staged (s, st))"
  have "same_prefixes st (fold settle_part staged ?a)"
    using apply_parts_prefixes settle_parts_prefixes by (rule same_prefixes_trans)
  moreover have "same_prefixes u (u'\<lparr>st_commits := n\<rparr>) = same_prefixes u u'" for u u' n
    by (simp add: same_prefixes_def get_range_def split: which.split)
  moreover have "same_prefixes st st" by (simp add: same_prefixes_def)
  ultimately show ?thesis using assms by (auto simp: run_transaction_def split: prod.splits sum.splits)
qed

lemma store_commit_prefixes: "store_commit ops ps (s, st) = ((s', st'), r) \<Longrightarrow> same_prefixes st st'"
  by (auto simp: store_commit_def same_prefixes_def dest: run_transaction_prefixes split: sum.splits)

lemma inst_commit_prefixes:
  assumes "in_mode i = Durable" "inst_commit ops (s, i) = ((s', i'), r)"
  shows "same_prefixes (in_store i) (in_store i')"
proof -
  let ?i1 = "take_commits (i\<lparr>syncPending := False\<rparr>)" and ?ps = "dirty_parts i"
  have rest: "same_rest i ?i1" using take_commits_rest [of "i\<lparr>syncPending := False\<rparr>"] by (simp add: same_rest_def)
  obtain s2 st2 c where c: "store_commit ops ?ps (s, in_store i) = ((s2, st2), c)" by (metis prod.exhaust)
  have "in_store i' = in_store i \<or> in_store i' = st2"
    using assms rest c unfolding inst_commit_def mode_commit_def
    by (auto simp: Let_def same_rest_def split: sum.splits if_splits)
  with store_commit_prefixes [OF c] show ?thesis by (auto simp: same_prefixes_def)
qed

lemma inst_call_prefixes:
  assumes "in_mode i = Durable" "inst_call ops eng entry fr (s, i) = ((s', i'), r)"
  shows "same_prefixes (in_store i) (in_store i') \<and> in_mode i' = Durable"
proof (cases "assertUsable i = Inr () \<and> in_guest i \<noteq> None")
  case False
  then have "i' = i"
    using assms(2) by (auto simp: inst_call_def callNow_def split: sum.splits option.splits prod.splits)
  with assms(1) show ?thesis by (simp add: same_prefixes_def)
next
  case True
  then obtain g where g: "in_guest i = Some g" by blast
  obtain g' hops out where e: "e_call eng entry fr g (contents i Log) (contents i Image) = (g', hops, out)"
    by (metis prod_cases3)
  let ?i1 = "fold host_step hops (i\<lparr>in_guest := Some g'\<rparr>)"
  have "same_rest (i\<lparr>in_guest := Some g'\<rparr>) ?i1" by (simp add: host_steps_rest)
  then have i1: "in_store ?i1 = in_store i" "in_mode ?i1 = Durable" using assms(1) by (simp_all add: same_rest_def)
  obtain s2 i2 c where c: "inst_commit ops (s, ?i1) = ((s2, i2), c)" by (metis prod.exhaust)
  have "i' = ?i1 \<or> i' = i2"
    using assms(2) inst_call_eq [OF _ g e, of ops s] True c by (cases out; cases c) (simp_all add: Let_def)
  with inst_commit_prefixes [OF i1(2) c] inst_commit_keeps [OF c] i1 show ?thesis by (auto simp: same_prefixes_def)
qed

lemma run_calls_prefixes:
  "in_mode i = Durable \<Longrightarrow> run_calls ops eng cs (s, i) = ((s', i'), rs) \<Longrightarrow>
     same_prefixes (in_store i) (in_store i') \<and> in_mode i' = Durable"
proof (induction cs arbitrary: s i rs)
  case (Cons c cs)
  obtain s1 i1 r where r: "inst_call ops eng (fst c) (snd c) (s, i) = ((s1, i1), r)" by (metis prod.exhaust)
  from Cons.prems r obtain rs1 where rs1: "run_calls ops eng cs (s1, i1) = ((s', i'), rs1)" by (auto split: prod.splits)
  note one = inst_call_prefixes [OF Cons.prems(1) r]
  from Cons.IH [OF conjunct2 [OF one] rs1] one show ?case by (blast intro: same_prefixes_trans)
qed (simp add: same_prefixes_def)

end
