(* ===== verification/Restore.thy ===== *)
theory Restore
  imports Instance
begin

text \<open>
  \<open>FramDurableObjectBase\<close> of \<^verbatim>\<open>clients/cloudflare-do/src/adapter.mjs\<close>: the lazily booted instance behind an
  administrative fence, the data plane, export, recycle, and \<open>restoreFramlog\<close> with its verification,
  fencing, publication, replay and marker. \<open>#serialiseOperation\<close> runs operations one at a time, so each is
  a step from the storage and the object's state to the next. SHA-256 is the parameter \<open>digest\<close>, \<open>None\<close>
  where Web Crypto is unavailable.
\<close>

section \<open>Verifying a backup\<close>

datatype backup_field = Plain jsval | Bytes "byte list"

type_synonym backup_object = "(jstr \<times> backup_field) list option"

text \<open>\<open>exactObject\<close>: an object whose sorted keys are exactly the expected ones.\<close>

definition exactObject :: "(jstr \<times> 'v) list option \<Rightarrow> string list \<Rightarrow> (jstr \<times> 'v) list res" where
  "exactObject value keys =
     (case value of
        None \<Rightarrow> backupFailure ''invalid-backup''
      | Some fs \<Rightarrow>
          if sort (map fst fs) = sort (map js keys) then Inr fs else backupFailure ''invalid-backup'')"

definition field_plain :: "(jstr \<times> backup_field) list \<Rightarrow> string \<Rightarrow> jsval" where
  "field_plain fs k = (case map_of fs (js k) of Some (Plain v) \<Rightarrow> v | Some (Bytes _) \<Rightarrow> JObj [] | None \<Rightarrow> JUndef)"

record backup =
  bk_byteLength :: jsval
  bk_bytes :: "byte list option"
  bk_format :: jsval
  bk_servedVersion :: jsval
  bk_sha256 :: jsval
  bk_spaceId :: jsval

definition captureBackup :: "backup_object \<Rightarrow> backup res" where
  "captureBackup value =
     rbind (exactObject value [''byteLength'', ''bytes'', ''format'', ''servedVersion'', ''sha256'', ''spaceId'']) (\<lambda>fs.
       Inr \<lparr>bk_byteLength = field_plain fs ''byteLength'',
            bk_bytes = (case map_of fs (js ''bytes'') of Some (Bytes bs) \<Rightarrow> Some bs | _ \<Rightarrow> None),
            bk_format = field_plain fs ''format'', bk_servedVersion = field_plain fs ''servedVersion'',
            bk_sha256 = field_plain fs ''sha256'', bk_spaceId = field_plain fs ''spaceId''\<rparr>)"

definition FRAMLOG_BACKUP_FORMAT :: jstr where
  "FRAMLOG_BACKUP_FORMAT = js ''fram-cloudflare-backup/v1''"

definition FRAMLOG_RESTORE_FORMAT :: jstr where
  "FRAMLOG_RESTORE_FORMAT = js ''fram-cloudflare-restore/v1''"

text \<open>The regular expressions \<open>^[0-9a-f]{64}$\<close> and \<open>^(?:0|[1-9][0-9]*)$\<close>.\<close>

definition SHA256 :: "jstr \<Rightarrow> bool" where
  "SHA256 s \<longleftrightarrow> length s = 64 \<and> list_all hex_digit s"

definition served_text :: "jsval \<Rightarrow> bool" where
  "served_text v = (case v of JStr s \<Rightarrow> (s = [48] \<or> positive_text s) \<and> text_int s \<le> 2 ^ 63 - 1 | _ \<Rightarrow> False)"

definition sha_text :: "jsval \<Rightarrow> bool" where
  "sha_text v = (case v of JStr s \<Rightarrow> SHA256 s | _ \<Rightarrow> False)"

definition sha256Hex :: "(byte list \<Rightarrow> byte list) option \<Rightarrow> byte list \<Rightarrow> jstr res" where
  "sha256Hex digest bs =
     (case digest of
        None \<Rightarrow> backupFailure ''crypto-unavailable''
      | Some d \<Rightarrow> Inr (concat (map (\<lambda>b. pad_start 2 (nat_text 16 (unat b))) (d bs))))"

record verified =
  vf_bytes :: "byte list"
  vf_digest :: jstr
  vf_served :: jstr

definition js_text :: "jsval \<Rightarrow> jstr" where
  "js_text v = (case v of JStr s \<Rightarrow> s | _ \<Rightarrow> [])"

definition verifiedBackup :: "(byte list \<Rightarrow> byte list) option \<Rightarrow> backup \<Rightarrow> jstr \<Rightarrow> verified res" where
  "verifiedBackup digest b configured =
     (if bk_format b \<noteq> JStr FRAMLOG_BACKUP_FORMAT then backupFailure ''invalid-backup''
      else if js_text (bk_spaceId b) = [] then backupFailure ''invalid-backup''
      else if bk_spaceId b \<noteq> JStr configured then backupFailure ''space-mismatch''
      else if \<not> nonneg_safe (bk_byteLength b) then backupFailure ''invalid-backup''
      else if \<not> served_text (bk_servedVersion b) then backupFailure ''invalid-backup''
      else if \<not> sha_text (bk_sha256 b) then backupFailure ''invalid-backup''
      else case bk_bytes b of
        None \<Rightarrow> backupFailure ''invalid-backup''
      | Some bs \<Rightarrow>
          if \<not> equals_count (bk_byteLength b) (length bs) then backupFailure ''verification''
          else rbind (parseFramlogHeader (Some bs)) (\<lambda>headerSpaceId.
            if headerSpaceId \<noteq> configured then backupFailure ''space-mismatch''
            else rbind (sha256Hex digest bs) (\<lambda>sha.
              if JStr sha \<noteq> bk_sha256 b then backupFailure ''verification''
              else Inr \<lparr>vf_bytes = bs, vf_digest = sha, vf_served = js_text (bk_servedVersion b)\<rparr>)))"

record restore_options =
  ro_replace :: bool
  ro_byteLength :: jsval
  ro_sha256 :: jstr

definition validateExpectedCurrent :: "jsval \<Rightarrow> (jsval \<times> jstr) res" where
  "validateExpectedCurrent expected =
     rbind (exactObject (object_fields expected) [''byteLength'', ''sha256'']) (\<lambda>fs.
       if \<not> nonneg_safe (get_prop fs ''byteLength'') then backupFailure ''invalid-backup''
       else if \<not> sha_text (get_prop fs ''sha256'') then backupFailure ''invalid-backup''
       else Inr (get_prop fs ''byteLength'', js_text (get_prop fs ''sha256'')))"

definition restoreOptions :: "jsval \<Rightarrow> restore_options res" where
  "restoreOptions options =
     (case object_fields options of
        None \<Rightarrow> backupFailure ''invalid-backup''
      | Some fs \<Rightarrow>
          let given = get_prop fs ''replace''; replace = (if nullish given then JBool False else given)
          in if replace = JBool False then
               rbind (exactObject (Some fs) (if has_own fs ''replace'' then [''replace''] else []))
                 (\<lambda>_. Inr \<lparr>ro_replace = False, ro_byteLength = JNull, ro_sha256 = []\<rparr>)
             else if replace = JBool True then
               rbind (exactObject (Some fs) [''expectedCurrent'', ''replace'']) (\<lambda>_.
               rbind (validateExpectedCurrent (get_prop fs ''expectedCurrent'')) (\<lambda>e.
                 Inr \<lparr>ro_replace = True, ro_byteLength = fst e, ro_sha256 = snd e\<rparr>))
             else backupFailure ''invalid-backup'')"

section \<open>The object\<close>

text \<open>An administrative fence: the code of its error and the recovery identity the error carries.\<close>

record fence =
  fe_code :: string
  fe_expectedCurrent :: "(nat \<times> jstr) option"

abbreviation fenceError :: "fence \<Rightarrow> js_error" where
  "fenceError f \<equiv> BackupError (fe_code f)"

definition restoreFence :: "kv_value \<Rightarrow> fence" where
  "restoreFence marker =
     \<lparr>fe_code = ''restore-fenced'',
      fe_expectedCurrent = (case marker of
         VMarker m \<Rightarrow> if int (mk_byteLength m) \<le> 9007199254740991 \<and> SHA256 (mk_sha256 m)
                      then Some (mk_byteLength m, mk_sha256 m) else None
       | _ \<Rightarrow> None)\<rparr>"

record 'g dobj =
  do_spaceId :: jstr
  do_chunkBytes :: nat
  do_batchKeys :: nat
  do_instance :: "'g inst option"
  do_fence :: "fence option"

definition object_store :: "'g dobj \<Rightarrow> store" where
  "object_store d = new_store (do_chunkBytes d) (do_batchKeys d)"

definition drop_instance :: "'g dobj \<Rightarrow> 'g dobj" where
  "drop_instance d = d\<lparr>do_instance := None\<rparr>"

text \<open>\<open>#boot\<close>, and \<open>#bootData\<close> with its check for a pending restore.\<close>

definition boot :: "'s kv \<Rightarrow> 'g engine \<Rightarrow> 's \<times> 'g dobj \<Rightarrow> 's \<times> 'g inst res" where
  "boot ops eng sd =
     (case inst_open ops eng (do_spaceId (snd sd)) (fst sd, new_inst Durable (object_store (snd sd))) of
        ((s', i), Inl e) \<Rightarrow> (s', Inl e)
      | ((s', i), Inr status) \<Rightarrow> (s', if status \<noteq> 0 then Inl PlainError else Inr i))"

definition fram :: "'s kv \<Rightarrow> 'g engine \<Rightarrow> 's \<times> 'g dobj \<Rightarrow> ('s \<times> 'g dobj) \<times> 'g inst res" where
  "fram ops eng sd =
     (case sd of (s, d) \<Rightarrow>
        (case do_fence d of
           Some f \<Rightarrow> ((s, d), Inl (fenceError f))
         | None \<Rightarrow>
             (case do_instance d of
                Some i \<Rightarrow> ((s, d), Inr i)
              | None \<Rightarrow>
                  (case kv_get ops s FRAMLOG_RESTORE_KEY of
                     Some pending \<Rightarrow>
                       let f = restoreFence pending in ((s, d\<lparr>do_fence := Some f\<rparr>), Inl (fenceError f))
                   | None \<Rightarrow>
                       (case boot ops eng (s, d) of
                          (s', Inl e) \<Rightarrow> ((s', d), Inl e)
                        | (s', Inr i) \<Rightarrow> ((s', d\<lparr>do_instance := Some i\<rparr>), Inr i))))))"

text \<open>\<open>#use\<close>: a body on the instance; a poisoned instance is dropped.\<close>

definition use_instance ::
  "'s kv \<Rightarrow> 'g engine \<Rightarrow> ('s \<times> 'g inst \<Rightarrow> ('s \<times> 'g inst) \<times> 'r res) \<Rightarrow> 's \<times> 'g dobj \<Rightarrow> ('s \<times> 'g dobj) \<times> 'r res" where
  "use_instance ops eng body sd =
     (case fram ops eng sd of
        (sd1, Inl e) \<Rightarrow> (sd1, Inl e)
      | ((s1, d1), Inr i) \<Rightarrow>
          (case body (s1, i) of
             ((s2, i2), Inr r) \<Rightarrow> ((s2, d1\<lparr>do_instance := Some i2\<rparr>), Inr r)
           | ((s2, i2), Inl e) \<Rightarrow>
               ((s2, if poisoned i2 \<noteq> None then drop_instance d1 else d1\<lparr>do_instance := Some i2\<rparr>), Inl e)))"

definition entry_point :: "string \<Rightarrow> string" where
  "entry_point entry = (if entry = ''transact'' then ''t'' else if entry = ''snapshot'' then ''s'' else ''q'')"

definition exchange ::
  "'s kv \<Rightarrow> 'g engine \<Rightarrow> byte list option \<Rightarrow> jsval \<Rightarrow> 's \<times> 'g dobj \<Rightarrow> ('s \<times> 'g dobj) \<times> byte list res" where
  "exchange ops eng fr options sd =
     (case exchange_admits (do_spaceId (snd sd)) fr options of
        Inl e \<Rightarrow> (sd, Inl e)
      | Inr entry \<Rightarrow>
          (case use_instance ops eng (inst_call ops eng (entry_point entry) (the fr)) sd of
             (sd', Inl e) \<Rightarrow> (sd', Inl e)
           | (sd', Inr r) \<Rightarrow> (sd', exchange_result r)))"

text \<open>\<open>checkpoint\<close>, an operator call: the result and the length of the image.\<close>

definition inst_checkpoint ::
  "'s kv \<Rightarrow> 'g engine \<Rightarrow> byte list \<Rightarrow> 's \<times> 'g inst \<Rightarrow> ('s \<times> 'g inst) \<times> (guest_result \<times> nat) res" where
  "inst_checkpoint ops eng fr si =
     (case inst_call ops eng ''t'' fr si of
        (si', Inl e) \<Rightarrow> (si', Inl e)
      | (si', Inr r) \<Rightarrow> (si', Inr (r, hi_length (in_image (snd si')))))"

definition checkpoint_object ::
  "'s kv \<Rightarrow> 'g engine \<Rightarrow> byte list \<Rightarrow> 's \<times> 'g dobj \<Rightarrow> ('s \<times> 'g dobj) \<times> (guest_result \<times> nat) res" where
  "checkpoint_object ops eng fr = use_instance ops eng (inst_checkpoint ops eng fr)"

record exported =
  ex_spaceId :: jstr
  ex_served :: jstr
  ex_byteLength :: nat
  ex_sha256 :: jstr
  ex_bytes :: "byte list"

definition exportFramlog ::
  "(byte list \<Rightarrow> byte list) option \<Rightarrow> 's kv \<Rightarrow> 'g engine \<Rightarrow> 's \<times> 'g dobj \<Rightarrow> ('s \<times> 'g dobj) \<times> exported res" where
  "exportFramlog digest ops eng sd =
     (case fram ops eng sd of
        (sd1, Inl e) \<Rightarrow> (sd1, Inl e)
      | ((s1, d1), Inr i) \<Rightarrow>
          (case portableFramlog ops eng (s1, i) of
             ((s2, i2), Inl e) \<Rightarrow> ((s2, d1\<lparr>do_instance := Some i2\<rparr>), Inl e)
           | ((s2, i2), Inr (bs, served)) \<Rightarrow>
               ((s2, d1\<lparr>do_instance := Some i2\<rparr>),
                rbind (parseFramlogHeader (Some bs)) (\<lambda>spaceId.
                  if spaceId \<noteq> do_spaceId d1 then backupFailure ''space-mismatch''
                  else rbind (sha256Hex digest bs) (\<lambda>sha.
                    Inr \<lparr>ex_spaceId = spaceId, ex_served = served, ex_byteLength = length bs,
                         ex_sha256 = sha, ex_bytes = bs\<rparr>)))))"

definition recycle :: "'s kv \<Rightarrow> 'g engine \<Rightarrow> 's \<times> 'g dobj \<Rightarrow> ('s \<times> 'g dobj) \<times> int option res" where
  "recycle ops eng sd =
     (case sd of (s, d) \<Rightarrow>
        (case do_instance d of
           None \<Rightarrow> ((s, drop_instance d), Inr None)
         | Some i \<Rightarrow>
             if closed i \<or> poisoned i \<noteq> None then ((s, drop_instance d), Inr None)
             else case inst_close ops eng (s, i) of
               ((s', _), Inl e) \<Rightarrow> ((s', drop_instance d), Inl e)
             | ((s', _), Inr status) \<Rightarrow> ((s', drop_instance d), Inr (Some status))))"

section \<open>restoreFramlog\<close>

text \<open>\<open>#preflightFramlog\<close>: the backup replays, byte for byte and at its version, on a store of its own.\<close>

definition preflight_replay ::
  "'s kv \<Rightarrow> 'g engine \<Rightarrow> 's \<times> 'g dobj \<Rightarrow> byte list \<Rightarrow> jstr \<Rightarrow> unit res" where
  "preflight_replay ops eng sd bs served =
     (case inst_open ops eng (do_spaceId (snd sd)) (fst sd, new_inst (Preflight bs) (object_store (snd sd))) of
        (_, Inl e) \<Rightarrow> Inl e
      | (si, Inr status) \<Rightarrow>
          if status \<noteq> 0 then backupFailure ''invalid-framlog''
          else (case portableFramlog ops eng si of
             (_, Inl e) \<Rightarrow> Inl e
           | (_, Inr (bytes, version)) \<Rightarrow>
               if bytes \<noteq> bs then backupFailure ''invalid-framlog''
               else if version \<noteq> served then backupFailure ''verification''
               else Inr ()))"

definition preflightFramlog ::
  "'s kv \<Rightarrow> 'g engine \<Rightarrow> 's \<times> 'g dobj \<Rightarrow> byte list \<Rightarrow> jstr \<Rightarrow> unit res" where
  "preflightFramlog ops eng sd bs served =
     (case preflight_replay ops eng sd bs served of
        Inl (BackupError c) \<Rightarrow> backupFailure c
      | Inl _ \<Rightarrow> backupFailure ''engine''
      | Inr _ \<Rightarrow> Inr ())"

text \<open>\<open>#loadTarget\<close>, with the fuel of \<open>clearPlan\<close>.\<close>

record target =
  tg_store :: store
  tg_log :: "byte list"
  tg_clear :: plan
  tg_pending :: "kv_value option"

definition loadTarget :: "nat \<Rightarrow> 's kv \<Rightarrow> 's \<times> 'g dobj \<Rightarrow> target res option" where
  "loadTarget fuel ops sd =
     (case store_load ops (fst sd) Log (object_store (snd sd)) of
        Inl _ \<Rightarrow> Some (backupFailure ''storage'')
      | Inr (lg, st) \<Rightarrow>
          (case clearPlan fuel ops (fst sd) (imageRange st) of
             None \<Rightarrow> None
           | Some (Inl _) \<Rightarrow> Some (backupFailure ''storage'')
           | Some (Inr clear) \<Rightarrow>
               Some (Inr \<lparr>tg_store = st, tg_log = lg, tg_clear = clear,
                          tg_pending = kv_get ops (fst sd) FRAMLOG_RESTORE_KEY\<rparr>)))"

definition occupied :: "target \<Rightarrow> bool" where
  "occupied tg \<longleftrightarrow> tg_log tg \<noteq> [] \<or> stale (tg_clear tg) \<noteq> [] \<or> tg_pending tg \<noteq> None"

text \<open>
  \<open>#fenceLiveForRestore\<close>. The second result is the live instance as a caller that retained it finds it.
\<close>

definition fenceLiveForRestore :: "'g dobj \<Rightarrow> 'g dobj \<times> 'g inst option" where
  "fenceLiveForRestore d =
     (let f = (case do_fence d of Some f \<Rightarrow> f | None \<Rightarrow> \<lparr>fe_code = ''administrative-fence'', fe_expectedCurrent = None\<rparr>)
      in (drop_instance (d\<lparr>do_fence := Some f\<rparr>), map_option (inst_fence (fenceError f)) (do_instance d)))"

text \<open>The state a failure before the publication leaves.\<close>

definition unfence :: "'g dobj \<Rightarrow> 'g dobj" where
  "unfence d = drop_instance (d\<lparr>do_fence := (case do_fence d of
     Some f \<Rightarrow> if fe_code f = ''restore-fenced'' then Some f else None | None \<Rightarrow> None)\<rparr>)"

text \<open>The checks on the target after the fence.\<close>

definition check_target ::
  "(byte list \<Rightarrow> byte list) option \<Rightarrow> restore_options \<Rightarrow> target \<Rightarrow> unit res" where
  "check_target digest ro tg =
     (if occupied tg \<and> \<not> ro_replace ro then backupFailure ''target-not-empty''
      else if ro_replace ro then
        rbind (sha256Hex digest (tg_log tg)) (\<lambda>sha.
          if \<not> equals_count (ro_byteLength ro) (length (tg_log tg)) \<or> sha \<noteq> ro_sha256 ro
          then backupFailure ''conflict'' else Inr ())
      else Inr ())"

definition restoreMarker :: "'g dobj \<Rightarrow> verified \<Rightarrow> restore_marker" where
  "restoreMarker d v = \<lparr>mk_format = FRAMLOG_RESTORE_FORMAT, mk_spaceId = do_spaceId d, mk_servedVersion = vf_served v,
     mk_byteLength = length (vf_bytes v), mk_sha256 = vf_digest v\<rparr>"

text \<open>\<open>#bootForRestore\<close>: open over a read-only store, then attach the durable one.\<close>

definition bootForRestore :: "'s kv \<Rightarrow> 'g engine \<Rightarrow> 's \<times> 'g dobj \<Rightarrow> 's \<times> 'g inst res" where
  "bootForRestore ops eng sd =
     (case inst_open ops eng (do_spaceId (snd sd)) (fst sd, new_inst ReadOnly (object_store (snd sd))) of
        ((s', i), Inl e) \<Rightarrow> (s', Inl e)
      | ((s', i), Inr status) \<Rightarrow> (s', if status \<noteq> 0 then Inl PlainError else Inr (i\<lparr>in_mode := Durable\<rparr>)))"

text \<open>The transaction that clears the marker of this restore, and only that one.\<close>

definition clear_marker :: "'s kv \<Rightarrow> restore_marker \<Rightarrow> 's \<Rightarrow> 's \<times> unit res" where
  "clear_marker ops m s =
     kv_transaction ops s (\<lambda>txn.
       case kv_get ops txn FRAMLOG_RESTORE_KEY of
         None \<Rightarrow> Inr txn
       | Some pending \<Rightarrow>
           if pending = VMarker m then Inr (kv_delete_many ops txn [FRAMLOG_RESTORE_KEY])
           else backupFailure ''verification'')"

text \<open>The replay after the publication: the reopened instance, or any failure.\<close>

definition replay_published ::
  "'s kv \<Rightarrow> 'g engine \<Rightarrow> verified \<Rightarrow> restore_marker \<Rightarrow> 's \<times> 'g dobj \<Rightarrow> 's \<times> 'g inst res" where
  "replay_published ops eng v m sd =
     (case bootForRestore ops eng sd of
        (s1, Inl e) \<Rightarrow> (s1, Inl e)
      | (s1, Inr i) \<Rightarrow>
          (case portableFramlog ops eng (s1, i) of
             ((s2, _), Inl e) \<Rightarrow> (s2, Inl e)
           | ((s2, i2), Inr (bs, served)) \<Rightarrow>
               if bs \<noteq> vf_bytes v then (s2, backupFailure ''verification'')
               else if served \<noteq> vf_served v then (s2, backupFailure ''verification'')
               else (case clear_marker ops m s2 of
                  (s3, Inl e) \<Rightarrow> (s3, Inl e)
                | (s3, Inr _) \<Rightarrow> (s3, Inr i2))))"

record restored =
  re_served :: jstr
  re_byteLength :: nat
  re_sha256 :: jstr
  re_replaced :: bool

text \<open>From the fence on: \<open>d\<close> is the fenced object.\<close>

definition restore_fenced ::
  "(byte list \<Rightarrow> byte list) option \<Rightarrow> nat \<Rightarrow> 's kv \<Rightarrow> 'g engine \<Rightarrow> restore_options \<Rightarrow> verified \<Rightarrow>
     's \<times> 'g dobj \<Rightarrow> (('s \<times> 'g dobj) \<times> restored res) option" where
  "restore_fenced digest fuel ops eng ro v sd =
     (case sd of (s, d) \<Rightarrow>
        (case loadTarget fuel ops (s, d) of
           None \<Rightarrow> None
         | Some (Inl e) \<Rightarrow> Some ((s, unfence d), Inl e)
         | Some (Inr tg) \<Rightarrow>
             (case check_target digest ro tg of
                Inl e \<Rightarrow> Some ((s, unfence d), Inl e)
              | Inr _ \<Rightarrow>
                  let m = restoreMarker d v
                  in case store_replace ops (vf_bytes v) (tg_clear tg) m (s, tg_store tg) of
                       ((s1, _), Inl _) \<Rightarrow> Some ((s1, unfence d), backupFailure ''storage'')
                     | ((s1, _), Inr _) \<Rightarrow>
                         (case replay_published ops eng v m (s1, d) of
                            (s2, Inl _) \<Rightarrow>
                              let f = restoreFence (VMarker m)
                              in Some ((s2, drop_instance (d\<lparr>do_fence := Some f\<rparr>)), Inl (fenceError f))
                          | (s2, Inr i) \<Rightarrow>
                              Some ((s2, d\<lparr>do_instance := Some i, do_fence := None\<rparr>),
                                Inr \<lparr>re_served = vf_served v, re_byteLength = length (vf_bytes v),
                                     re_sha256 = vf_digest v, re_replaced = occupied tg\<rparr>)))))"

definition peek_target :: "nat \<Rightarrow> 's kv \<Rightarrow> restore_options \<Rightarrow> 's \<times> 'g dobj \<Rightarrow> unit res option" where
  "peek_target fuel ops ro sd =
     (if ro_replace ro then Some (Inr ())
      else map_option (\<lambda>r. rbind r (\<lambda>tg. require (\<not> occupied tg) (BackupError ''target-not-empty'')))
             (loadTarget fuel ops sd))"

definition restoreFramlog ::
  "(byte list \<Rightarrow> byte list) option \<Rightarrow> nat \<Rightarrow> 's kv \<Rightarrow> 'g engine \<Rightarrow> backup_object \<Rightarrow> jsval \<Rightarrow>
     's \<times> 'g dobj \<Rightarrow> (('s \<times> 'g dobj) \<times> restored res) option" where
  "restoreFramlog digest fuel ops eng supplied options sd =
     (case rbind (captureBackup supplied) (\<lambda>b. rbind (restoreOptions options) (\<lambda>ro.
             rbind (verifiedBackup digest b (do_spaceId (snd sd))) (\<lambda>v.
             rbind (preflightFramlog ops eng sd (vf_bytes v) (vf_served v)) (\<lambda>_. Inr (ro, v))))) of
        Inl e \<Rightarrow> Some (sd, Inl e)
      | Inr (ro, v) \<Rightarrow>
          (case peek_target fuel ops ro sd of
             None \<Rightarrow> None
           | Some (Inl e) \<Rightarrow> Some (sd, Inl e)
           | Some (Inr _) \<Rightarrow>
               restore_fenced digest fuel ops eng ro v (fst sd, fst (fenceLiveForRestore (snd sd)))))"

section \<open>Keys outside the two ranges\<close>

definition outside :: "store \<Rightarrow> jstr \<Rightarrow> bool" where
  "outside st k \<longleftrightarrow> (\<forall>w. \<not> starts_with (prefix (get_range w st)) k)"

lemma outside_moved: "same_prefixes st st' \<Longrightarrow> outside st' k = outside st k"
  by (simp add: outside_def same_prefixes_def)

lemma marker_outside: "prefixes_ok st \<Longrightarrow> outside st FRAMLOG_RESTORE_KEY"
  by (auto simp: outside_def prefixes_ok_def apart_def get_range_def split: which.splits)

text \<open>The keys a plan of a part names are those of its range.\<close>

definition plan_in :: "store \<Rightarrow> which \<times> plan \<Rightarrow> bool" where
  "plan_in st wp \<longleftrightarrow> distinct (map fst (writes (snd wp))) \<and>
     (\<forall>k \<in> fst ` set (writes (snd wp)) \<union> set (stale (snd wp)). starts_with (prefix (get_range (fst wp) st)) k)"

lemma range_plan_in:
  assumes "range_plan (get_range w st) bs len low = Inr pl"
  shows "plan_in st (w, pl)"
proof -
  let ?r = "get_range w st"
  obtain count where c: "chunkCount ?r = Some count"
    using assms by (cases "chunkCount ?r") (simp_all add: range_plan_def)
  have "map fst (writes pl) = map (chunkKey ?r) [low div chunkBytes ?r..<ceil_div len (chunkBytes ?r)]"
    "stale pl = map (chunkKey ?r) [ceil_div len (chunkBytes ?r)..<count]"
    using assms c by (auto simp: range_plan_def Let_def comp_def)
  moreover have "distinct (map (chunkKey ?r) xs)" if "distinct xs" for xs
    using that by (simp add: distinct_map inj_on_def)
  ultimately show ?thesis by (simp add: plan_in_def flip: set_map) auto
qed

lemma stage_in: "stage st ps = Inr staged \<Longrightarrow> list_all (plan_in st) staged"
proof (induction ps arbitrary: staged)
  case (Cons p ps)
  then show ?case by (auto simp: stage_def res_simps dest: range_plan_in)
qed (simp add: stage_def)

lemma all_which: "(\<forall>w. P w) \<longleftrightarrow> P Log \<and> P Image"
  by (metis which.exhaust)

context kv_storage
begin

lemma apply_part_outside:
  assumes "plan_in st wp" "outside st k" "apply_part ops wp (s, st) = (s', st')"
  shows "kv_get ops s' k = kv_get ops s k \<and> same_prefixes st st'"
proof -
  obtain w pl where wp: "wp = (w, pl)" by force
  obtain r1 where r1: "applyTo ops pl (s, get_range w st) = (s', r1)" "st' = set_range w r1 st"
    using assms(3) wp by (auto simp: apply_part_def split: prod.splits)
  have k: "\<not> starts_with (prefix (get_range w st)) k" using assms(2) by (simp add: outside_def)
  then have "k \<noteq> metaKey (get_range w st)" "k \<notin> set (stale pl)" "map_of (writes pl) k = None"
    using assms(1) wp by (auto simp: plan_in_def map_of_eq_None_iff)
  with applyTo_get [OF r1(1), of k] assms(1) wp applyTo_geometry [OF r1(1)] r1(2) show ?thesis
    by (simp add: plan_in_def same_prefixes_def same_geometry_def)
qed

lemma apply_parts_outside:
  "list_all (plan_in st) staged \<Longrightarrow> outside st k \<Longrightarrow>
     kv_get ops (fst (fold (apply_part ops) staged (s, st))) k = kv_get ops s k"
proof (induction staged arbitrary: s st)
  case (Cons wp staged)
  obtain s1 st1 where one: "apply_part ops wp (s, st) = (s1, st1)" by force
  with Cons.prems apply_part_outside [OF _ Cons.prems(2) one]
  have s1: "kv_get ops s1 k = kv_get ops s k" "same_prefixes st st1" by simp_all
  have "plan_in st1 = plan_in st" using s1(2) by (simp add: plan_in_def fun_eq_iff same_prefixes_def)
  with Cons.IH [of st1 s1] Cons.prems one s1 show ?case by (simp add: outside_moved [OF s1(2)])
qed simp

lemma store_commit_outside:
  assumes "store_commit ops ps (s, st) = ((s', st'), r)" "outside st k"
  shows "kv_get ops s' k = kv_get ops s k"
proof (cases r)
  case (Inl e)
  with store_commit_reject assms(1) show ?thesis by blast
next
  case (Inr u)
  then obtain staged where staged: "stage st ps = Inr staged"
    using assms(1) by (auto simp: store_commit_def split: sum.splits)
  then obtain v where "kv_transaction ops s (\<lambda>txn. Inr (fst (fold (apply_part ops) staged (txn, st)))) = (s', Inr v)"
    using assms(1) Inr by (auto simp: store_commit_def run_transaction_def split: prod.splits sum.splits)
  from commit_body [OF this] have "s' = fst (fold (apply_part ops) staged (s, st))" by simp
  with apply_parts_outside [OF stage_in [OF staged] assms(2)] show ?thesis by simp
qed

lemma inst_commit_outside:
  assumes "in_mode i = Durable" "outside (in_store i) k" "inst_commit ops (s, i) = ((s', i'), r)"
  shows "kv_get ops s' k = kv_get ops s k"
proof -
  have rest: "same_rest i (take_commits (i\<lparr>syncPending := False\<rparr>))"
    using take_commits_rest [of "i\<lparr>syncPending := False\<rparr>"] by (simp add: same_rest_def)
  obtain s2 st2 c where c: "store_commit ops (dirty_parts i) (s, in_store i) = ((s2, st2), c)" by (metis prod.exhaust)
  have "s' = s \<or> s' = s2"
    using assms(1,3) rest c unfolding inst_commit_def mode_commit_def
    by (auto simp: Let_def same_rest_def split: sum.splits if_splits)
  with store_commit_outside [OF c assms(2)] show ?thesis by auto
qed

lemma inst_call_outside:
  assumes "in_mode i = Durable" "outside (in_store i) k" "inst_call ops eng entry fr (s, i) = ((s', i'), r)"
  shows "kv_get ops s' k = kv_get ops s k"
proof (cases "assertUsable i = Inr () \<and> in_guest i \<noteq> None")
  case False
  then have "s' = s"
    using assms(3) by (auto simp: inst_call_def callNow_def split: sum.splits option.splits prod.splits)
  then show ?thesis by simp
next
  case True
  then obtain g where g: "in_guest i = Some g" by blast
  obtain g' hops out where e: "e_call eng entry fr g (contents i Log) (contents i Image) = (g', hops, out)"
    by (metis prod_cases3)
  let ?i1 = "fold host_step hops (i\<lparr>in_guest := Some g'\<rparr>)"
  have "same_rest (i\<lparr>in_guest := Some g'\<rparr>) ?i1" by (simp add: host_steps_rest)
  then have i1: "in_store ?i1 = in_store i" "in_mode ?i1 = Durable" using assms(1) by (simp_all add: same_rest_def)
  obtain s2 i2 c where c: "inst_commit ops (s, ?i1) = ((s2, i2), c)" by (metis prod.exhaust)
  have "s' = s \<or> s' = s2"
    using assms(3) inst_call_eq [OF _ g e, of ops s] True c by (cases out; cases c) (simp_all add: Let_def)
  with inst_commit_outside [OF i1(2) _ c] i1(1) assms(2) show ?thesis by auto
qed

lemma portable_call:
  assumes "portableFramlog ops eng (s, i) = ((s', i'), r)"
  shows "(s' = s \<and> i' = i \<and> (\<exists>e. r = Inl e)) \<or>
    (\<exists>fr c. inst_call ops eng ''q'' fr (s, i) = ((s', i'), c) \<and> statusFrame (in_spaceId i) = Inr fr \<and>
       (\<forall>bs v. r = Inr (bs, v) \<longrightarrow> (\<exists>out. c = Inr out \<and> gr_status out = 0 \<and> bs = contents i' Log \<and>
          decodeStatusServedVersion (gr_response out) (in_spaceId i') = Inr v)))"
proof (cases "assertUsable i")
  case (Inl e)
  with assms show ?thesis by (auto simp: portableFramlog_def)
next
  case use: (Inr u)
  show ?thesis
  proof (cases "statusFrame (in_spaceId i)")
    case (Inl e)
    with assms use show ?thesis by (auto simp: portableFramlog_def)
  next
    case fr: (Inr fr)
    obtain s1 i1 c where c: "callNow ops eng ''q'' fr (s, i) = ((s1, i1), c)" by (metis prod.exhaust)
    then have call: "inst_call ops eng ''q'' fr (s, i) = ((s1, i1), c)" using use by (simp add: inst_call_def)
    show ?thesis
    proof (cases c)
      case (Inl e)
      with assms use fr c call show ?thesis by (auto simp: portableFramlog_def)
    next
      case (Inr out)
      with assms use fr c have "s' = s1 \<and> i' = i1 \<and> r = (if gr_status out \<noteq> 0 then backupFailure ''engine''
          else rbind (decodeStatusServedVersion (gr_response out) (in_spaceId i1)) (\<lambda>v. Inr (contents i1 Log, v)))"
        by (auto simp: portableFramlog_def contents_def get_image_def)
      with call fr Inr show ?thesis
        by (intro disjI2 exI [of _ fr] exI [of _ c]) (auto simp: res_simps split: if_splits)
    qed
  qed
qed

lemma portable_ok:
  assumes "synced ops s i f" "in_guest i \<noteq> None" "portableFramlog ops eng (s, i) = ((s', i'), Inr (bs, v))"
  shows "synced ops s' i' (contents i') \<and> bs = contents i' Log \<and> in_guest i' \<noteq> None \<and> assertUsable i' = Inr ()"
proof -
  from portable_call [OF assms(3)] obtain fr out where
    c: "inst_call ops eng ''q'' fr (s, i) = ((s', i'), Inr out)" and r: "bs = contents i' Log" by blast
  obtain g where g: "in_guest i = Some g" using assms(2) by blast
  from inst_call_ok [OF assms(1) g c] r show ?thesis by auto
qed

lemma portable_holds:
  assumes "synced ops s i f" "in_guest i \<noteq> None" "portableFramlog ops eng (s, i) = ((s', i'), r)"
  shows "in_guest i' \<noteq> None \<and> (\<exists>f'. holds ops s' (in_store i') f' \<and> (synced ops s' i' f' \<or> poisoned i' \<noteq> None))"
proof -
  from portable_call [OF assms(3)]
  consider "s' = s" "i' = i" | fr c where "inst_call ops eng ''q'' fr (s, i) = ((s', i'), c)" by blast
  then show ?thesis
  proof cases
    case 1
    with assms(1,2) show ?thesis by (auto simp: synced_def)
  next
    case 2
    have "consistent s i" using assms(1,2) by (auto simp: consistent_def synced_def)
    from inst_call_consistent [OF this 2] show ?thesis by (auto simp: consistent_def)
  qed
qed

lemma portable_outside:
  assumes "in_mode i = Durable" "portableFramlog ops eng (s, i) = ((s', i'), r)"
  shows "same_prefixes (in_store i) (in_store i') \<and> in_mode i' = Durable \<and>
    (outside (in_store i) k \<longrightarrow> kv_get ops s' k = kv_get ops s k)"
proof -
  from portable_call [OF assms(2)]
  consider "s' = s" "i' = i" | fr c where "inst_call ops eng ''q'' fr (s, i) = ((s', i'), c)" by blast
  then show ?thesis
  proof cases
    case 1
    with assms(1) show ?thesis by (simp add: same_prefixes_def)
  next
    case 2
    from inst_call_prefixes [OF assms(1) 2] inst_call_outside [OF assms(1) _ 2] show ?thesis by blast
  qed
qed

text \<open>What a storage holds in the two ranges does not depend on the other keys.\<close>

lemma holds_elsewhere:
  assumes "holds ops s st f" "\<And>k. \<not> outside st k \<Longrightarrow> kv_get ops s' k = kv_get ops s k"
  shows "holds ops s' st f"
proof -
  have "kv_get ops s' k = kv_get ops s k" if "starts_with (prefix (get_range w st)) k" for w k
    using assms(2) that by (auto simp: outside_def)
  then have "kv_get ops s' (metaKey (get_range w st)) = kv_get ops s (metaKey (get_range w st))"
    "kv_get ops s' (chunkKey (get_range w st) i) = kv_get ops s (chunkKey (get_range w st) i)" for w i
    by (blast intro: starts_with_keys)+
  with assms(1) show ?thesis unfolding holds_def range_holds_def stored_def by simp
qed

section \<open>The marker transaction\<close>

lemma clear_marker_ok:
  assumes "clear_marker ops m s = (s', Inr u)"
  shows "kv_get ops s' k = (if k = FRAMLOG_RESTORE_KEY then None else kv_get ops s k)"
proof -
  let ?body = "\<lambda>txn. case kv_get ops txn FRAMLOG_RESTORE_KEY of None \<Rightarrow> Inr txn
    | Some pending \<Rightarrow> if pending = VMarker m then Inr (kv_delete_many ops txn [FRAMLOG_RESTORE_KEY])
        else backupFailure ''verification''"
  from commit_body [of s ?body s' u] assms have "?body s = Inr s'" by (simp add: clear_marker_def)
  then show ?thesis by (auto simp: get_delete_many split: option.splits if_splits)
qed

lemma clear_marker_fails: "clear_marker ops m s = (s', Inl e) \<Longrightarrow> s' = s"
  by (auto simp: clear_marker_def dest: reject)

section \<open>The target of a restore\<close>

lemma loadTarget_ok:
  assumes "valid s" "stored ops s rg lg" "prefix rg = js ''framlog/''" "0 < do_chunkBytes d" "0 < do_batchKeys d"
    "card (inventory ops s (prefix (imageRange (object_store d))) None) < fuel"
  shows "loadTarget fuel ops (s, d) \<noteq> None \<and>
    (\<forall>tg. loadTarget fuel ops (s, d) = Some (Inr tg) \<longrightarrow>
       tg_log tg = lg \<and> range_holds ops s (logRange (tg_store tg)) lg \<and> prefixes_ok (tg_store tg) \<and>
       imageRange (tg_store tg) = imageRange (object_store d) \<and> same_prefixes (object_store d) (tg_store tg) \<and>
       clearPlan fuel ops s (imageRange (object_store d)) = Some (Inr (tg_clear tg)) \<and>
       set (stale (tg_clear tg)) = inventory ops s (prefix (imageRange (object_store d))) None \<and>
       tg_pending tg = kv_get ops s FRAMLOG_RESTORE_KEY)"
proof -
  let ?st = "object_store d"
  have pos: "0 < chunkBytes (get_range Log ?st)" "0 < batchKeys (imageRange ?st)"
    and pre: "prefix (get_range Log ?st) = prefix rg"
    using assms(3-5) by (simp_all add: object_store_def new_store_def new_range_def get_range_def)
  have ok: "prefixes_ok ?st" by (simp add: object_store_def new_store_prefixes)
  obtain st1 where st1: "store_load ops s Log ?st = Inr (lg, st1)" "range_holds ops s (get_range Log st1) lg"
    "prefixes_ok st1" "get_range Image st1 = get_range Image ?st"
    using store_load_ok [where f = "\<lambda>_. lg", OF assms(2) pre pos(1) ok] by auto
  note moved = store_load_prefixes [OF st1(1)]
  obtain ks where "set ks = inventory ops s (prefix (imageRange ?st)) None"
    "clearPlan fuel ops s (imageRange ?st) = Some (if list_all (known_key (prefix (imageRange ?st))) ks
      then Inr \<lparr>writes = [], stale = ks, plan_chunks = 0, plan_length = 0, publishMeta = False\<rparr> else Inl PlainError)"
    using clearPlan_total [OF assms(1) pos(2) assms(6)] by blast
  with st1 moved show ?thesis by (auto simp: loadTarget_def get_range_def split: if_splits)
qed

section \<open>After the publication\<close>

lemma set_mode [simp]:
  "get_image w (i\<lparr>in_mode := m\<rparr>) = get_image w i" "assertUsable (i\<lparr>in_mode := m\<rparr>) = assertUsable i"
  "agrees ops s (i\<lparr>in_mode := m\<rparr>) f = agrees ops s i f" "contents (i\<lparr>in_mode := m\<rparr>) = contents i"
proof -
  show image: "get_image w (i\<lparr>in_mode := m\<rparr>) = get_image w i" for w by (cases w) (simp_all add: get_image_def)
  show "assertUsable (i\<lparr>in_mode := m\<rparr>) = assertUsable i" by (simp add: assertUsable_def)
  show "agrees ops s (i\<lparr>in_mode := m\<rparr>) f = agrees ops s i f" by (simp add: agrees_def image)
  show "contents (i\<lparr>in_mode := m\<rparr>) = contents i" by (simp add: contents_def image fun_eq_iff)
qed

lemma object_store_geometry:
  "prefix (get_range w (object_store d)) = js (case w of Log \<Rightarrow> ''framlog/'' | Image \<Rightarrow> ''framimage/'')"
  "chunkBytes (get_range w (object_store d)) = do_chunkBytes d"
  "batchKeys (get_range w (object_store d)) = min (do_batchKeys d) 128"
  by (cases w; simp add: object_store_def new_store_def new_range_def get_range_def)+

lemma boot_restore:
  assumes "holds ops s st f" "same_prefixes st (object_store d)" "0 < do_chunkBytes d"
    "bootForRestore ops eng (s, d) = (s', r)"
  shows "s' = s \<and> (\<forall>i. r = Inr i \<longrightarrow> synced ops s i f \<and> contents i = f \<and> in_guest i \<noteq> None \<and>
    assertUsable i = Inr () \<and> same_prefixes (in_store i) (object_store d))"
proof -
  obtain s1 i1 r1 where o: "inst_open ops eng (do_spaceId d) (s, new_inst ReadOnly (object_store d)) = ((s1, i1), r1)"
    by (metis prod.exhaust)
  have geo: "prefix (logRange (object_store d)) = prefix (logRange st)" "prefix (imageRange (object_store d)) = prefix (imageRange st)"
    "0 < chunkBytes (logRange (object_store d))" "0 < chunkBytes (imageRange (object_store d))"
    using assms(2,3) object_store_geometry [of Log d] object_store_geometry [of Image d]
    by (simp_all add: same_prefixes_def get_range_def all_which)
  note q = inst_open_readonly [OF assms(1) geo o]
  show ?thesis
  proof (cases r1)
    case (Inl e)
    with assms(4) o q show ?thesis by (auto simp: bootForRestore_def)
  next
    case (Inr n)
    with assms(4) o q show ?thesis
      by (auto simp: bootForRestore_def synced_iff same_prefixes_def split: if_splits)
  qed
qed

lemma replay_published_ok:
  assumes "holds ops s st f" "same_prefixes st (object_store d)" "0 < do_chunkBytes d"
    "replay_published ops eng v m (s, d) = (s', r)"
  shows "(\<exists>st' f'. holds ops s' st' f' \<and> same_prefixes st' (object_store d)) \<and> (\<forall>e. r = Inl e \<longrightarrow> kv_get ops s' FRAMLOG_RESTORE_KEY = kv_get ops s FRAMLOG_RESTORE_KEY) \<and>
    (\<forall>i. r = Inr i \<longrightarrow> synced ops s' i (contents i) \<and> contents i Log = vf_bytes v \<and> in_guest i \<noteq> None \<and>
       assertUsable i = Inr () \<and> same_prefixes (in_store i) (object_store d) \<and>
       kv_get ops s' FRAMLOG_RESTORE_KEY = None)"
proof -
  obtain s1 b where b: "bootForRestore ops eng (s, d) = (s1, b)" by force
  note boot = boot_restore [OF assms(1-3) b]
  show ?thesis
  proof (cases b)
    case (Inl e)
    with assms(1,2,4) b boot show ?thesis by (auto simp: replay_published_def)
  next
    case (Inr i)
    then have i: "s1 = s" "synced ops s i f" "in_guest i \<noteq> None" "same_prefixes (in_store i) (object_store d)"
      using boot by simp_all
    obtain s2 i2 p where p: "portableFramlog ops eng (s, i) = ((s2, i2), p)" by (metis prod.exhaust)
    have out: "outside (in_store i) FRAMLOG_RESTORE_KEY" "in_mode i = Durable"
      using i(2) by (simp_all add: synced_def holds_def marker_outside)
    from portable_outside [OF out(2) p] out(1)
    have kept: "kv_get ops s2 FRAMLOG_RESTORE_KEY = kv_get ops s FRAMLOG_RESTORE_KEY"
      and moved: "same_prefixes (in_store i) (in_store i2)" by blast+
    obtain f2 where f2: "holds ops s2 (in_store i2) f2" using portable_holds [OF i(2,3) p] by blast
    have pre: "same_prefixes (in_store i2) (object_store d)" using i(4) moved by (simp add: same_prefixes_def)
    show ?thesis
    proof (cases p)
      case (Inl e)
      with assms(4) b Inr i p kept f2 pre show ?thesis by (auto simp: replay_published_def)
    next
      case pr: (Inr bv)
      obtain bs served where bv: "bv = (bs, served)" by force
      from portable_ok [OF i(2,3) p [unfolded pr bv]]
      have good: "synced ops s2 i2 (contents i2)" "bs = contents i2 Log" "in_guest i2 \<noteq> None" "assertUsable i2 = Inr ()"
        by blast+
      obtain s3 c where c: "clear_marker ops m s2 = (s3, c)" by force
      have eq: "(s', r) = (if bs \<noteq> vf_bytes v then (s2, backupFailure ''verification'')
          else if served \<noteq> vf_served v then (s2, backupFailure ''verification'')
          else (case c of Inl e \<Rightarrow> (s3, Inl e) | Inr _ \<Rightarrow> (s3, Inr i2)))"
        using assms(4) b Inr i(1) p pr bv c by (auto simp: replay_published_def split: if_splits)
      show ?thesis
      proof (cases c)
        case (Inl e)
        with eq clear_marker_fails [OF c [unfolded Inl]] kept f2 pre show ?thesis by (auto split: if_splits)
      next
        case cleared: (Inr u)
        note gone = clear_marker_ok [OF c [unfolded cleared]]
        have "prefixes_ok (in_store i2)" using good(1) by (simp add: synced_def holds_def)
        then have "kv_get ops s3 k = kv_get ops s2 k" if "\<not> outside (in_store i2) k" for k
          using that gone [of k] marker_outside by auto
        then have "synced ops s3 i2 (contents i2)"
          using good(1) holds_elsewhere [of s2 "in_store i2" "contents i2" s3] by (simp add: synced_def)
        with eq cleared kept good gone f2 pre show ?thesis by (auto simp: synced_def split: if_splits)
      qed
    qed
  qed
qed

section \<open>The outcomes of a restore\<close>

lemma store_replace_fails: "store_replace ops bs clear m (s, st) = ((s', st'), Inl e) \<Longrightarrow> s' = s"
  by (auto simp: store_replace_def run_transaction_def split: sum.splits prod.splits dest: reject)

lemma store_replace_prefixes: "store_replace ops bs clear m (s, st) = ((s', st'), r) \<Longrightarrow> same_prefixes st st'"
  by (auto simp: store_replace_def same_prefixes_def dest: run_transaction_prefixes split: sum.splits)

lemma publish_target:
  assumes "valid s" "range_holds ops s (logRange st) lg" "prefixes_ok st" "imageRange st = imageRange (object_store d)"
    "same_prefixes (object_store d) st" "0 < do_chunkBytes d" "0 < do_batchKeys d"
    "card (inventory ops s (prefix (imageRange (object_store d))) None) < fuel"
    "clearPlan fuel ops s (imageRange (object_store d)) = Some (Inr clear)"
    "store_replace ops bs clear m (s, st) = ((s', st'), Inr u)"
  shows "holds ops s' st' ((\<lambda>_. [])(Log := bs)) \<and> same_prefixes st' (object_store d) \<and>
    kv_get ops s' FRAMLOG_RESTORE_KEY = Some (VMarker m)"
proof -
  have geo: "0 < batchKeys (imageRange st)" "0 < chunkBytes (imageRange st)"
    using assms(4,6,7) object_store_geometry [of Image d] by (simp_all add: get_range_def)
  from store_replace_ok [OF assms(1,3,2) geo, of fuel clear bs m s' st' u] assms(4,8-10)
  have "range_holds ops s' (logRange st') bs" "range_holds ops s' (imageRange st') []" "prefixes_ok st'"
    "kv_get ops s' FRAMLOG_RESTORE_KEY = Some (VMarker m)" by simp_all
  moreover have "same_prefixes st' (object_store d)"
    using store_replace_prefixes [OF assms(10)] assms(5) by (simp add: same_prefixes_def)
  ultimately show ?thesis by (simp add: holds_def all_which get_range_def)
qed

lemma restore_fenced_outcome:
  assumes "valid s" "stored ops s rg lg" "prefix rg = js ''framlog/''" "0 < do_chunkBytes d" "0 < do_batchKeys d"
    "card (inventory ops s (prefix (imageRange (object_store d))) None) < fuel"
  shows "\<exists>s' d' r. restore_fenced digest fuel ops eng ro v (s, d) = Some ((s', d'), r) \<and>
    (\<forall>e. r = Inl e \<longrightarrow> s' = s \<and> d' = unfence d \<or>
       e = BackupError ''restore-fenced'' \<and> d' = d\<lparr>do_instance := None,
         do_fence := Some (restoreFence (VMarker (restoreMarker d v)))\<rparr> \<and>
       (\<exists>st f. holds ops s' st f \<and> same_prefixes st (object_store d)) \<and>
       kv_get ops s' FRAMLOG_RESTORE_KEY = Some (VMarker (restoreMarker d v))) \<and>
    (\<forall>out. r = Inr out \<longrightarrow> (\<exists>i. d' = d\<lparr>do_instance := Some i, do_fence := None\<rparr> \<and> synced ops s' i (contents i) \<and>
       contents i Log = vf_bytes v \<and> in_guest i \<noteq> None \<and> assertUsable i = Inr () \<and>
       same_prefixes (in_store i) (object_store d)) \<and>
       kv_get ops s' FRAMLOG_RESTORE_KEY = None \<and>
       out = \<lparr>re_served = vf_served v, re_byteLength = length (vf_bytes v), re_sha256 = vf_digest v,
         re_replaced = (lg \<noteq> [] \<or> inventory ops s (prefix (imageRange (object_store d))) None \<noteq> {} \<or>
           kv_get ops s FRAMLOG_RESTORE_KEY \<noteq> None)\<rparr> \<and>
       (if ro_replace ro
        then sha256Hex digest lg = Inr (ro_sha256 ro) \<and> equals_count (ro_byteLength ro) (length lg)
        else \<not> re_replaced out))"
proof -
  note target = loadTarget_ok [OF assms]
  obtain t where t: "loadTarget fuel ops (s, d) = Some t" using target by blast
  show ?thesis
  proof (cases t)
    case (Inl e)
    with t show ?thesis by (simp add: restore_fenced_def)
  next
    case (Inr tg)
    with t target have tg: "tg_log tg = lg" "range_holds ops s (logRange (tg_store tg)) lg" "prefixes_ok (tg_store tg)"
      "imageRange (tg_store tg) = imageRange (object_store d)" "same_prefixes (object_store d) (tg_store tg)"
      "clearPlan fuel ops s (imageRange (object_store d)) = Some (Inr (tg_clear tg))"
      "set (stale (tg_clear tg)) = inventory ops s (prefix (imageRange (object_store d))) None"
      "tg_pending tg = kv_get ops s FRAMLOG_RESTORE_KEY" by auto
    have occ: "occupied tg \<longleftrightarrow> lg \<noteq> [] \<or> inventory ops s (prefix (imageRange (object_store d))) None \<noteq> {} \<or>
        kv_get ops s FRAMLOG_RESTORE_KEY \<noteq> None"
      by (simp add: occupied_def tg(1,8) flip: tg(7))
    show ?thesis
    proof (cases "check_target digest ro tg")
      case (Inl e)
      with t Inr show ?thesis by (simp add: restore_fenced_def)
    next
      case checked: (Inr c0)
      have check: "if ro_replace ro then sha256Hex digest lg = Inr (ro_sha256 ro) \<and> equals_count (ro_byteLength ro) (length lg)
          else \<not> occupied tg"
        using checked tg(1) by (auto simp: check_target_def res_simps split: if_splits)
      let ?m = "restoreMarker d v"
      obtain s1 st1 p where p: "store_replace ops (vf_bytes v) (tg_clear tg) ?m (s, tg_store tg) = ((s1, st1), p)"
        by (metis prod.exhaust)
      show ?thesis
      proof (cases p)
        case (Inl e)
        with t Inr checked p store_replace_fails [OF p [unfolded Inl]] show ?thesis by (simp add: restore_fenced_def Let_def)
      next
        case pub: (Inr u)
        from publish_target [OF assms(1) tg(2-5) assms(4-6) tg(6) p [unfolded pub]]
        have h: "holds ops s1 st1 ((\<lambda>_. [])(Log := vf_bytes v))" "same_prefixes st1 (object_store d)"
          "kv_get ops s1 FRAMLOG_RESTORE_KEY = Some (VMarker ?m)" by blast+
        obtain s2 q where q: "replay_published ops eng v ?m (s1, d) = (s2, q)" by force
        note replay = replay_published_ok [OF h(1,2) assms(4) q]
        show ?thesis
        proof (cases q)
          case (Inl e)
          with t Inr checked p pub q replay h(3) show ?thesis
            by (simp add: restore_fenced_def Let_def drop_instance_def restoreFence_def)
        next
          case (Inr i)
          with t \<open>t = Inr tg\<close> checked p pub q
          have "restore_fenced digest fuel ops eng ro v (s, d) = Some ((s2, d\<lparr>do_instance := Some i, do_fence := None\<rparr>),
              Inr \<lparr>re_served = vf_served v, re_byteLength = length (vf_bytes v), re_sha256 = vf_digest v,
                re_replaced = occupied tg\<rparr>)"
            by (simp add: restore_fenced_def Let_def)
          with replay Inr check occ show ?thesis by (intro exI conjI) (assumption, simp, force)
        qed
      qed
    qed
  qed
qed

end

section \<open>Refusals\<close>

lemma fram_fenced: "do_fence d = Some f \<Longrightarrow> fram ops eng (s, d) = ((s, d), Inl (fenceError f))"
  by (simp add: fram_def)

lemma fram_pending:
  assumes "do_fence d = None" "do_instance d = None" "kv_get ops s FRAMLOG_RESTORE_KEY = Some p"
  shows "fram ops eng (s, d) = ((s, d\<lparr>do_fence := Some (restoreFence p)\<rparr>), Inl (BackupError ''restore-fenced''))"
  using assms by (simp add: fram_def Let_def restoreFence_def)

lemma use_fenced:
  "do_fence d = Some f \<Longrightarrow> use_instance ops eng body (s, d) = ((s, d), Inl (fenceError f))"
  by (simp add: use_instance_def fram_fenced)

lemma exchange_fenced:
  "do_fence d = Some f \<Longrightarrow> \<exists>e. exchange ops eng fr options (s, d) = ((s, d), Inl e)"
  by (auto simp: exchange_def use_fenced split: sum.splits)

text \<open>A retained instance answers with the fence, or with the error it had before, and writes nothing.\<close>

lemma fenced_instance:
  "\<exists>e'. assertUsable (inst_fence e i) = Inl e' \<and> inst_call ops eng entry fr (s, inst_fence e i) = ((s, inst_fence e i), Inl e')"
  by (auto simp: inst_fence_def assertUsable_def inst_call_def split: option.splits)

section \<open>What a successful verification establishes\<close>

lemma verifiedBackup_sound:
  assumes "verifiedBackup digest b space = Inr v"
  shows "bk_bytes b = Some (vf_bytes v) \<and> bk_spaceId b = JStr space \<and> bk_format b = JStr FRAMLOG_BACKUP_FORMAT \<and>
    parseFramlogHeader (Some (vf_bytes v)) = Inr space \<and> sha256Hex digest (vf_bytes v) = Inr (vf_digest v) \<and>
    bk_sha256 b = JStr (vf_digest v) \<and> equals_count (bk_byteLength b) (length (vf_bytes v)) \<and>
    SHA256 (vf_digest v) \<and> bk_servedVersion b = JStr (vf_served v) \<and> served_text (JStr (vf_served v))"
  using assms
  by (auto simp: verifiedBackup_def res_simps sha_text_def served_text_def js_text_def
      split: if_splits option.splits jsval.splits)

lemma restoreFramlog_cases:
  assumes "restoreFramlog digest fuel ops eng supplied options (s, d) = Some ((s', d'), r)"
  shows "s' = s \<and> d' = d \<and> (\<exists>e. r = Inl e) \<or>
    (\<exists>b ro v. captureBackup supplied = Inr b \<and> restoreOptions options = Inr ro \<and>
       verifiedBackup digest b (do_spaceId d) = Inr v \<and>
       preflightFramlog ops eng (s, d) (vf_bytes v) (vf_served v) = Inr () \<and>
       restore_fenced digest fuel ops eng ro v (s, fst (fenceLiveForRestore d)) = Some ((s', d'), r))"
  using assms
  by (auto simp: restoreFramlog_def res_simps split: sum.splits option.splits prod.splits)

lemma fenceLive_object:
  "do_spaceId (fst (fenceLiveForRestore d)) = do_spaceId d" "object_store (fst (fenceLiveForRestore d)) = object_store d"
  "do_chunkBytes (fst (fenceLiveForRestore d)) = do_chunkBytes d" "do_batchKeys (fst (fenceLiveForRestore d)) = do_batchKeys d"
  "do_instance (fst (fenceLiveForRestore d)) = None" "do_fence (fst (fenceLiveForRestore d)) \<noteq> None"
  by (simp_all add: fenceLiveForRestore_def drop_instance_def object_store_def Let_def)

text \<open>After a refusal before the publication the object is as a restart would find it, unless it was restore-fenced.\<close>

lemma unfence_fenceLive:
  "unfence (fst (fenceLiveForRestore d)) = d\<lparr>do_instance := None, do_fence := (case do_fence d of
     Some f \<Rightarrow> if fe_code f = ''restore-fenced'' then Some f else None | None \<Rightarrow> None)\<rparr>"
  by (simp add: unfence_def fenceLiveForRestore_def drop_instance_def Let_def split: option.splits)

end
