(* ===== verification/DurableObject.thy ===== *)
theory DurableObject
  imports Restore
begin

text \<open>
  The object as a state machine: the operations of \<open>FramDurableObjectBase\<close> as steps, and the invariant that
  the storage holds a whole pair of byte strings with which the live instance, if any, agrees or is fenced.
\<close>

section \<open>A new object\<close>

definition FRAM_DO_MAX_NAMED_SPACE_BYTES :: nat where
  "FRAM_DO_MAX_NAMED_SPACE_BYTES = 1024"

text \<open>The constructor: the \<open>spaceId\<close> option, the name of the object, and the store options.\<close>

definition FramDurableObject :: "jsval \<Rightarrow> jsval \<Rightarrow> nat \<Rightarrow> nat \<Rightarrow> 'g dobj res" where
  "FramDurableObject spaceId name cb bk =
     (if js_text spaceId = [] then Inl JsTypeError
      else if FRAM_DO_MAX_NAMED_SPACE_BYTES < length (utf8_encode (js_text spaceId)) then Inl JsTypeError
      else if name \<noteq> spaceId then requestFail ''request/object-identity-mismatch''
      else Inr \<lparr>do_spaceId = js_text spaceId, do_chunkBytes = cb, do_batchKeys = bk, do_instance = None, do_fence = None\<rparr>)"

section \<open>The invariant\<close>

definition live_ok :: "'s kv \<Rightarrow> 's \<Rightarrow> 'g dobj \<Rightarrow> (which \<Rightarrow> byte list) \<Rightarrow> 'g inst \<Rightarrow> bool" where
  "live_ok ops s d f i \<longleftrightarrow> in_guest i \<noteq> None \<and> in_mode i = Durable \<and>
     same_prefixes (in_store i) (object_store d) \<and> (poisoned i \<noteq> None \<or> synced ops s i f)"

definition object_ok :: "'s kv \<Rightarrow> 's \<Rightarrow> 'g dobj \<Rightarrow> bool" where
  "object_ok ops s d \<longleftrightarrow> 0 < do_chunkBytes d \<and> 0 < do_batchKeys d \<and>
     (\<exists>st f. same_prefixes st (object_store d) \<and> holds ops s st f \<and>
        (\<forall>i. do_instance d = Some i \<longrightarrow> live_ok ops s d f i))"

lemma object_okI:
  assumes "0 < do_chunkBytes d" "0 < do_batchKeys d" "same_prefixes st (object_store d)" "holds ops s st f"
    "\<And>i. do_instance d = Some i \<Longrightarrow> live_ok ops s d f i"
  shows "object_ok ops s d"
  using assms by (auto simp: object_ok_def)

lemma object_okE:
  assumes "object_ok ops s d"
  obtains st f where "0 < do_chunkBytes d" "0 < do_batchKeys d" "same_prefixes st (object_store d)" "holds ops s st f"
    "\<And>i. do_instance d = Some i \<Longrightarrow> live_ok ops s d f i"
  using assms by (auto simp: object_ok_def)

lemma object_store_cong:
  "do_chunkBytes d' = do_chunkBytes d \<Longrightarrow> do_batchKeys d' = do_batchKeys d \<Longrightarrow> object_store d' = object_store d"
  by (simp add: object_store_def)

lemma object_store_update [simp]:
  "object_store (d\<lparr>do_instance := x\<rparr>) = object_store d" "object_store (d\<lparr>do_fence := y\<rparr>) = object_store d"
  "object_store (drop_instance d) = object_store d"
  by (simp_all add: object_store_def drop_instance_def)

lemma live_ok_update [simp]:
  "live_ok ops s (d\<lparr>do_instance := x\<rparr>) = live_ok ops s d" "live_ok ops s (d\<lparr>do_fence := y\<rparr>) = live_ok ops s d"
  by (simp_all add: live_ok_def fun_eq_iff)

lemma object_ok_fence [simp]: "object_ok ops s (d\<lparr>do_fence := y\<rparr>) = object_ok ops s d"
  by (simp add: object_ok_def)

lemma object_ok_drop: "object_ok ops s d \<Longrightarrow> object_ok ops s (d\<lparr>do_instance := None\<rparr>)"
  by (auto simp: object_ok_def)

section \<open>Opening and closing keep the storage whole\<close>

context kv_storage
begin

lemma inst_commit_holds:
  assumes "synced ops s i f" "inst_commit ops (s, i) = ((s', i'), r)"
  shows "(\<exists>f'. holds ops s' (in_store i') f' \<and> (synced ops s' i' f' \<or> poisoned i' \<noteq> None)) \<and>
    same_prefixes (in_store i) (in_store i') \<and> in_mode i' = Durable \<and> in_guest i' = in_guest i"
proof -
  have mode: "in_mode i = Durable" using assms(1) by (simp add: synced_def)
  have "\<exists>f'. holds ops s' (in_store i') f' \<and> (synced ops s' i' f' \<or> poisoned i' \<noteq> None)"
  proof (cases r)
    case (Inl e)
    from inst_commit_reject [OF mode assms(2) [unfolded Inl]] assms(1) show ?thesis by (auto simp: synced_def)
  next
    case (Inr u)
    from inst_commit_ok [OF assms(1) assms(2) [unfolded Inr]] show ?thesis by (auto simp: synced_def)
  qed
  with inst_commit_prefixes [OF mode assms(2)] inst_commit_keeps [OF assms(2)] mode show ?thesis by simp
qed

lemma inst_open_holds:
  assumes "holds ops s st0 f" "same_prefixes st0 st" "0 < chunkBytes (logRange st)" "0 < chunkBytes (imageRange st)"
    "inst_open ops eng sp (s, new_inst Durable st) = ((s', i'), r)"
  shows "(\<exists>f'. holds ops s' (in_store i') f' \<and> (synced ops s' i' f' \<or> poisoned i' \<noteq> None)) \<and>
    same_prefixes st (in_store i') \<and> in_mode i' = Durable \<and> in_guest i' \<noteq> None"
proof -
  have pre: "prefix (logRange st) = prefix (logRange st0)" "prefix (imageRange st) = prefix (imageRange st0)"
    using assms(2) by (simp_all add: same_prefixes_def all_which get_range_def)
  obtain g hops out i2 where o: "agrees ops s i2 f" "in_mode i2 = Durable" "in_guest i2 = Some g"
    "same_prefixes st (in_store i2)"
    and opens: "inst_open ops eng sp (s, new_inst Durable st) = (case out of Inl e \<Rightarrow> ((s, i2), Inl e)
      | Inr r \<Rightarrow> (case inst_commit ops (s, i2) of ((s', i3), Inl e) \<Rightarrow> ((s', i3), Inl e)
        | ((s', i3), Inr _) \<Rightarrow> ((s', if r = 0 then i3\<lparr>in_spaceId := sp, opened := True\<rparr> else i3), Inr r)))"
    using inst_open_start [OF assms(1) pre assms(3,4), of Durable eng sp] by blast
  have sync: "synced ops s i2 f" using o by (simp add: synced_iff)
  obtain s3 i3 c where c: "inst_commit ops (s, i2) = ((s3, i3), c)" by (metis prod.exhaust)
  note kept = inst_commit_holds [OF sync c]
  have marks: "get_image w (i\<lparr>in_spaceId := x, opened := b\<rparr>) = get_image w i" for w b x and i :: "'g inst" by simp
  have "s' = s \<and> i' = i2 \<or> s' = s3 \<and> (i' = i3 \<or> i' = i3\<lparr>in_spaceId := sp, opened := True\<rparr>)"
    using trans [OF opens [symmetric] assms(5)] unfolding c by (cases out; cases c) (auto split: if_splits)
  then show ?thesis
  proof (elim disjE conjE)
    assume "s' = s" "i' = i2"
    with sync o show ?thesis by (auto simp: synced_def)
  next
    assume "s' = s3" "i' = i3"
    with kept o show ?thesis by (auto simp: same_prefixes_def)
  next
    assume "s' = s3" "i' = i3\<lparr>in_spaceId := sp, opened := True\<rparr>"
    with kept o show ?thesis by (auto simp: same_prefixes_def synced_def)
  qed
qed

lemma inst_close_holds:
  assumes "synced ops s i f" "inst_close ops eng (s, i) = ((s', i'), r)"
  shows "\<exists>f'. holds ops s' (in_store i') f' \<and> same_prefixes (in_store i) (in_store i')"
proof (cases "assertUsable i = Inr () \<and> in_guest i \<noteq> None")
  case False
  then have "s' = s" "i' = i"
    using assms(2) by (auto simp: inst_close_def split: sum.splits option.splits prod.splits)
  with assms(1) show ?thesis by (auto simp: synced_def same_prefixes_def)
next
  case True
  then obtain g where g: "in_guest i = Some g" by blast
  obtain g' hops out where e: "e_close eng g (content (in_log i)) (content (in_image i)) = (g', hops, out)"
    by (metis prod_cases3)
  let ?i1 = "fold host_step hops (i\<lparr>in_guest := Some g'\<rparr>)"
  have step: "synced ops s ?i1 f" "same_rest (i\<lparr>in_guest := Some g'\<rparr>) ?i1" using host_steps_synced [OF assms(1)] by blast+
  obtain s2 i2 c where c: "inst_commit ops (s, ?i1) = ((s2, i2), c)" by (metis prod.exhaust)
  note kept = inst_commit_holds [OF step(1) c]
  have eq: "inst_close ops eng (s, i) = (case out of Inl e \<Rightarrow> ((s, ?i1), Inl e)
      | Inr st \<Rightarrow> (case c of Inl e \<Rightarrow> ((s2, i2), Inl e) | Inr _ \<Rightarrow> ((s2, i2\<lparr>closed := True, opened := False\<rparr>), Inr st)))"
    using True g e c by (simp add: inst_close_def Let_def split: sum.split)
  consider "s' = s" "i' = ?i1" | "s' = s2" "in_store i' = in_store i2"
    using trans [OF eq [symmetric] assms(2)] by (cases out; cases c) auto
  then show ?thesis
  proof cases
    case 1
    with step show ?thesis by (auto simp: synced_def same_rest_def same_prefixes_def)
  next
    case 2
    have "same_prefixes (in_store i) (in_store ?i1)" using step(2) by (simp add: same_rest_def same_prefixes_def)
    with kept 2 show ?thesis by (auto intro: same_prefixes_trans)
  qed
qed

section \<open>Every operation keeps the invariant\<close>

text \<open>\<open>fram\<close> either answers with a live instance or leaves a whole storage behind.\<close>

lemma fram_ok:
  assumes "object_ok ops s d" "fram ops eng (s, d) = ((s', d'), r)"
  shows "object_ok ops s' d' \<and> (\<forall>i. r = Inr i \<longrightarrow> do_instance d' = Some i)"
proof (cases "do_fence d = None \<and> do_instance d = None \<and> kv_get ops s FRAMLOG_RESTORE_KEY = None")
  case False
  with assms show ?thesis by (auto simp: fram_def Let_def split: option.splits)
next
  case True
  from assms(1) obtain st f where h: "0 < do_chunkBytes d" "0 < do_batchKeys d" "same_prefixes st (object_store d)"
    "holds ops s st f" by (rule object_okE)
  let ?st = "object_store d"
  have pos: "0 < chunkBytes (logRange ?st)" "0 < chunkBytes (imageRange ?st)"
    using h(1) object_store_geometry(2) [of Log d] object_store_geometry(2) [of Image d] by (simp_all add: get_range_def)
  obtain s1 i1 c where o: "inst_open ops eng (do_spaceId d) (s, new_inst Durable ?st) = ((s1, i1), c)"
    by (metis prod.exhaust)
  from inst_open_holds [OF h(4,3) pos o] obtain f1 where f1: "holds ops s1 (in_store i1) f1"
    "synced ops s1 i1 f1 \<or> poisoned i1 \<noteq> None" "same_prefixes ?st (in_store i1)" "in_mode i1 = Durable"
    "in_guest i1 \<noteq> None" by blast
  have same: "same_prefixes (in_store i1) ?st" using f1(3) by (simp add: same_prefixes_def)
  with f1 have live: "live_ok ops s1 d f1 i1" by (auto simp: live_ok_def)
  have "s' = s1 \<and> (d' = d \<and> (\<exists>e. r = Inl e) \<or> d' = d\<lparr>do_instance := Some i1\<rparr> \<and> r = Inr i1)"
    using assms(2) True o by (cases c) (auto simp: fram_def boot_def split: if_splits)
  with live same f1(1) h(1,2) True show ?thesis by (auto intro: object_okI)
qed

text \<open>A body that keeps a live instance and its storage in step keeps the object's invariant.\<close>

definition body_ok :: "'g dobj \<Rightarrow> ('s \<times> 'g inst \<Rightarrow> ('s \<times> 'g inst) \<times> 'r res) \<Rightarrow> bool" where
  "body_ok d body \<longleftrightarrow> (\<forall>s st f i s' i' r. live_ok ops s d f i \<longrightarrow> holds ops s st f \<longrightarrow>
     same_prefixes st (object_store d) \<longrightarrow> body (s, i) = ((s', i'), r) \<longrightarrow>
     (\<exists>st' f'. live_ok ops s' d f' i' \<and> holds ops s' st' f' \<and> same_prefixes st' (object_store d)))"

lemma body_step:
  assumes "body_ok d0 body" "object_ok ops s d" "do_instance d = Some i" "body (s, i) = ((s', i'), r)"
    "do_chunkBytes d = do_chunkBytes d0" "do_batchKeys d = do_batchKeys d0"
  shows "object_ok ops s' (d\<lparr>do_instance := Some i'\<rparr>) \<and> object_ok ops s' (drop_instance d)"
proof -
  have st: "object_store d = object_store d0" using assms(5,6) by (rule object_store_cong)
  then have live: "live_ok ops u d = live_ok ops u d0" for u by (simp add: live_ok_def fun_eq_iff)
  from assms(2) obtain st f where h: "0 < do_chunkBytes d" "0 < do_batchKeys d" "same_prefixes st (object_store d)"
    "holds ops s st f" "live_ok ops s d f i" using assms(3) by (auto elim: object_okE)
  with assms(1,4) st live obtain st' f' where "live_ok ops s' d f' i'" "holds ops s' st' f'"
    "same_prefixes st' (object_store d)" unfolding body_ok_def by metis
  with h(1,2) show ?thesis by (auto simp: drop_instance_def intro!: object_okI [of _ st' ops s' f'])
qed

lemma fram_geometry:
  "fram ops eng (s, d) = ((s', d'), r) \<Longrightarrow> do_chunkBytes d' = do_chunkBytes d \<and> do_batchKeys d' = do_batchKeys d"
  by (auto simp: fram_def Let_def split: option.splits prod.splits sum.splits)

lemma use_instance_ok:
  assumes "object_ok ops s d" "use_instance ops eng body (s, d) = ((s', d'), r)" "body_ok d body"
  shows "object_ok ops s' d'"
proof -
  obtain s1 d1 c where c: "fram ops eng (s, d) = ((s1, d1), c)" by (metis prod.exhaust)
  note one = fram_ok [OF assms(1) c]
  show ?thesis
  proof (cases c)
    case (Inl e)
    with assms(2) c one show ?thesis by (simp add: use_instance_def)
  next
    case (Inr i)
    obtain s2 i2 q where q: "body (s1, i) = ((s2, i2), q)" by (metis prod.exhaust)
    have "s' = s2 \<and> (d' = d1\<lparr>do_instance := Some i2\<rparr> \<or> d' = drop_instance d1)"
      using assms(2) c Inr q by (cases q) (auto simp: use_instance_def split: if_splits)
    with body_step [OF assms(3) _ _ q] one Inr fram_geometry [OF c] show ?thesis by auto
  qed
qed

lemma inst_call_body: "body_ok d (inst_call ops eng entry fr)"
  unfolding body_ok_def
proof (intro allI impI)
  fix s st f i s' i' r
  assume live: "live_ok ops s d f i" and h: "holds ops s st f" and st: "same_prefixes st (object_store d)"
    and call: "inst_call ops eng entry fr (s, i) = ((s', i'), r)"
  show "\<exists>st' f'. live_ok ops s' d f' i' \<and> holds ops s' st' f' \<and> same_prefixes st' (object_store d)"
  proof (cases "poisoned i = None")
    case False
    then have "s' = s" "i' = i" using call by (auto simp: inst_call_def assertUsable_def)
    with live h st show ?thesis by blast
  next
    case True
    with live have sync: "synced ops s i f" "in_mode i = Durable" "in_guest i \<noteq> None" by (simp_all add: live_ok_def)
    then have "consistent s i" by (auto simp: consistent_def synced_def)
    from inst_call_consistent [OF this call] obtain f' where f': "in_guest i' \<noteq> None" "holds ops s' (in_store i') f'"
      "synced ops s' i' f' \<or> poisoned i' \<noteq> None" by (auto simp: consistent_def)
    from inst_call_prefixes [OF sync(2) call] live
    have "same_prefixes (in_store i') (object_store d)" "in_mode i' = Durable"
      by (auto simp: live_ok_def same_prefixes_def)
    with f' show ?thesis by (auto simp: live_ok_def)
  qed
qed

lemma body_ok_via:
  assumes "\<And>s i s' i' r. body (s, i) = ((s', i'), r) \<Longrightarrow>
    s' = s \<and> i' = i \<or> (\<exists>fr q entry. inst_call ops eng entry fr (s, i) = ((s', i'), q))"
  shows "body_ok d body"
  unfolding body_ok_def
proof (intro allI impI)
  fix s st f i s' i' r
  assume live: "live_ok ops s d f i" and h: "holds ops s st f" and st: "same_prefixes st (object_store d)"
    and call: "body (s, i) = ((s', i'), r)"
  from assms [OF call] consider "s' = s" "i' = i" | fr q entry where "inst_call ops eng entry fr (s, i) = ((s', i'), q)"
    by blast
  then show "\<exists>st' f'. live_ok ops s' d f' i' \<and> holds ops s' st' f' \<and> same_prefixes st' (object_store d)"
  proof cases
    case 1
    with live h st show ?thesis by blast
  next
    case 2
    with live h st inst_call_body [of d eng entry fr] show ?thesis unfolding body_ok_def by metis
  qed
qed

lemma checkpoint_body: "body_ok d (inst_checkpoint ops eng fr)"
  by (rule body_ok_via [of _ eng]) (auto simp: inst_checkpoint_def split: prod.splits sum.splits)

lemma portable_body: "body_ok d (portableFramlog ops eng)"
  by (rule body_ok_via [of _ eng]) (blast dest: portable_call)

lemma exchange_ok:
  assumes "object_ok ops s d" "exchange ops eng fr options (s, d) = ((s', d'), r)"
  shows "object_ok ops s' d'"
proof (cases "exchange_admits (do_spaceId d) fr options")
  case (Inl e)
  with assms show ?thesis by (simp add: exchange_def)
next
  case (Inr entry)
  obtain s1 d1 q where q: "use_instance ops eng (inst_call ops eng (entry_point entry) (the fr)) (s, d) = ((s1, d1), q)"
    by (metis prod.exhaust)
  with assms(2) Inr have "s' = s1" "d' = d1" by (cases q; simp add: exchange_def)+
  with use_instance_ok [OF assms(1) q inst_call_body] show ?thesis by simp
qed

lemma checkpoint_object_ok:
  "object_ok ops s d \<Longrightarrow> checkpoint_object ops eng fr (s, d) = ((s', d'), r) \<Longrightarrow> object_ok ops s' d'"
  unfolding checkpoint_object_def by (rule use_instance_ok [OF _ _ checkpoint_body])

lemma exportFramlog_ok:
  assumes "object_ok ops s d" "exportFramlog digest ops eng (s, d) = ((s', d'), r)"
  shows "object_ok ops s' d'"
proof -
  obtain s1 d1 c where c: "fram ops eng (s, d) = ((s1, d1), c)" by (metis prod.exhaust)
  note one = fram_ok [OF assms(1) c]
  show ?thesis
  proof (cases c)
    case (Inl e)
    with assms(2) c one show ?thesis by (simp add: exportFramlog_def)
  next
    case (Inr i)
    obtain s2 i2 q where q: "portableFramlog ops eng (s1, i) = ((s2, i2), q)" by (metis prod.exhaust)
    have "s' = s2 \<and> d' = d1\<lparr>do_instance := Some i2\<rparr>"
      using assms(2) c Inr q by (cases q) (auto simp: exportFramlog_def)
    with body_step [OF portable_body _ _ q] one Inr fram_geometry [OF c] show ?thesis by auto
  qed
qed

lemma recycle_ok:
  assumes "object_ok ops s d" "recycle ops eng (s, d) = ((s', d'), r)"
  shows "object_ok ops s' d'"
proof (cases "\<exists>i. do_instance d = Some i \<and> \<not> closed i \<and> poisoned i = None")
  case False
  then have "s' = s \<and> d' = drop_instance d" using assms(2) by (auto simp: recycle_def split: option.splits if_splits)
  with assms(1) show ?thesis by (simp add: drop_instance_def object_ok_drop)
next
  case True
  then obtain i where i: "do_instance d = Some i" "\<not> closed i" "poisoned i = None" by blast
  from assms(1) obtain st f where h: "0 < do_chunkBytes d" "0 < do_batchKeys d" "live_ok ops s d f i"
    using i(1) by (auto elim: object_okE)
  then have sync: "synced ops s i f" "same_prefixes (in_store i) (object_store d)" using i(3) by (simp_all add: live_ok_def)
  obtain s1 i1 c where c: "inst_close ops eng (s, i) = ((s1, i1), c)" by (metis prod.exhaust)
  have "s' = s1 \<and> d' = drop_instance d" using assms(2) i c by (cases c) (auto simp: recycle_def)
  moreover from inst_close_holds [OF sync(1) c] obtain f1 where "holds ops s1 (in_store i1) f1"
    "same_prefixes (in_store i) (in_store i1)" by blast
  ultimately show ?thesis using h(1,2) sync(2)
    by (auto simp: drop_instance_def same_prefixes_def intro!: object_okI [of _ "in_store i1" ops s1 f1])
qed

lemma restoreFramlog_ok:
  assumes "object_ok ops s d" "valid s" "card (inventory ops s (js ''framimage/'') None) < fuel"
    "restoreFramlog digest fuel ops eng supplied options (s, d) = Some ((s', d'), r)"
  shows "object_ok ops s' d'"
proof -
  from assms(1) obtain st f where h: "0 < do_chunkBytes d" "0 < do_batchKeys d" "same_prefixes st (object_store d)"
    "holds ops s st f" by (rule object_okE)
  from restoreFramlog_cases [OF assms(4)] show ?thesis
  proof
    assume "s' = s \<and> d' = d \<and> (\<exists>e. r = Inl e)"
    with assms(1) show ?thesis by simp
  next
    let ?d = "fst (fenceLiveForRestore d)"
    assume "\<exists>b ro v. captureBackup supplied = Inr b \<and> restoreOptions options = Inr ro \<and>
       verifiedBackup digest b (do_spaceId d) = Inr v \<and>
       preflightFramlog ops eng (s, d) (vf_bytes v) (vf_served v) = Inr () \<and>
       restore_fenced digest fuel ops eng ro v (s, fst (fenceLiveForRestore d)) = Some ((s', d'), r)"
    then obtain ro v where r: "restore_fenced digest fuel ops eng ro v (s, ?d) = Some ((s', d'), r)" by blast
    have lg: "stored ops s (logRange st) (f Log)" using h(4) by (simp add: holds_def range_holds_def all_which get_range_def)
    have pre: "prefix (logRange st) = js ''framlog/''"
      using h(3) object_store_geometry(1) [of Log d] by (simp add: same_prefixes_def all_which get_range_def)
    have geo: "0 < do_chunkBytes ?d" "0 < do_batchKeys ?d" using h(1,2) by (simp_all add: fenceLive_object)
    have im: "prefix (imageRange (object_store ?d)) = js ''framimage/''"
      using object_store_geometry(1) [of Image ?d] by (simp add: get_range_def)
    note out = restore_fenced_outcome [OF assms(2) lg pre geo, of fuel digest eng ro v, unfolded im, OF assms(3)]
    show ?thesis
    proof (cases r)
      case (Inl e)
      with out r have "s' = s \<and> d' = unfence ?d \<or> (\<exists>fe. d' = ?d\<lparr>do_instance := None, do_fence := Some fe\<rparr>) \<and>
          (\<exists>st f. holds ops s' st f \<and> same_prefixes st (object_store ?d))" by auto
      then show ?thesis
      proof
        assume "s' = s \<and> d' = unfence ?d"
        with object_ok_drop [OF assms(1)] show ?thesis by (simp add: unfence_fenceLive)
      next
        assume "(\<exists>fe. d' = ?d\<lparr>do_instance := None, do_fence := Some fe\<rparr>) \<and>
          (\<exists>st f. holds ops s' st f \<and> same_prefixes st (object_store ?d))"
        then obtain fe st f where "d' = ?d\<lparr>do_instance := None, do_fence := Some fe\<rparr>" "holds ops s' st f"
          "same_prefixes st (object_store ?d)" by blast
        with geo show ?thesis by (intro object_okI [of _ st ops s' f]) simp_all
      qed
    next
      case (Inr q)
      with out r obtain i where i: "d' = ?d\<lparr>do_instance := Some i, do_fence := None\<rparr>" "synced ops s' i (contents i)"
        "in_guest i \<noteq> None" "same_prefixes (in_store i) (object_store ?d)" by auto
      then have "live_ok ops s' d' (contents i) i" by (simp add: live_ok_def synced_def)
      with i geo show ?thesis
        by (intro object_okI [of _ "in_store i" ops s' "contents i"]) (auto simp: synced_def)
    qed
  qed
qed

section \<open>The storage stays well formed\<close>

text \<open>The storage changes through commits only: what every commit keeps, every operation of an instance keeps.\<close>

definition commit_closed :: "('s \<Rightarrow> bool) \<Rightarrow> bool" where
  "commit_closed P \<longleftrightarrow> (\<forall>ps s st s' st' r. store_commit ops ps (s, st) = ((s', st'), r) \<longrightarrow> P s \<longrightarrow> P s')"

lemma inst_commit_closed:
  assumes "commit_closed P" "P s" "inst_commit ops (s, i) = ((s', i'), r)"
  shows "P s'"
proof (cases "in_mode i = Durable")
  case False
  from inst_commit_mode [OF this assms(3)] assms(2) show ?thesis by simp
next
  case True
  obtain s2 st2 c where c: "store_commit ops (dirty_parts i) (s, in_store i) = ((s2, st2), c)" by (metis prod.exhaust)
  have rest: "same_rest i (take_commits (i\<lparr>syncPending := False\<rparr>))"
    using take_commits_rest [of "i\<lparr>syncPending := False\<rparr>"] by (simp add: same_rest_def)
  have "s' = s \<or> s' = s2"
    using assms(3) True rest c unfolding inst_commit_def mode_commit_def
    by (auto simp: Let_def same_rest_def split: sum.splits if_splits)
  moreover have "P s2" using assms(1,2) c unfolding commit_closed_def by blast
  ultimately show ?thesis using assms(2) by auto
qed

lemma inst_call_closed:
  fixes eng :: "'g engine"
  assumes "commit_closed P" "P s" "inst_call ops eng entry fr (s, i) = ((s', i'), r)"
  shows "P s'"
proof -
  have "s' = s \<or> (\<exists>(j :: 'g inst) i2 c. inst_commit ops (s, j) = ((s', i2), c))"
    using assms(3) by (auto simp: inst_call_def callNow_def Let_def split: sum.splits option.splits prod.splits)
  with inst_commit_closed [OF assms(1,2)] assms(2) show ?thesis by blast
qed

lemma inst_open_closed:
  fixes eng :: "'g engine"
  assumes "commit_closed P" "P s" "inst_open ops eng sp (s, i) = ((s', i'), r)"
  shows "P s'"
proof -
  have "s' = s \<or> (\<exists>(j :: 'g inst) i2 c. inst_commit ops (s, j) = ((s', i2), c))"
    using assms(3) by (auto simp: inst_open_def Let_def split: sum.splits if_splits prod.splits)
  with inst_commit_closed [OF assms(1,2)] assms(2) show ?thesis by blast
qed

lemma inst_close_closed:
  fixes eng :: "'g engine"
  assumes "commit_closed P" "P s" "inst_close ops eng (s, i) = ((s', i'), r)"
  shows "P s'"
proof -
  have "s' = s \<or> (\<exists>(j :: 'g inst) i2 c. inst_commit ops (s, j) = ((s', i2), c))"
    using assms(3) by (auto simp: inst_close_def Let_def split: sum.splits option.splits prod.splits)
  with inst_commit_closed [OF assms(1,2)] assms(2) show ?thesis by blast
qed

lemma apply_parts_valid: "valid s \<Longrightarrow> valid (fst (fold (apply_part ops) staged (s, st)))"
proof (induction staged arbitrary: s st)
  case (Cons wp staged)
  obtain w pl where wp: "wp = (w, pl)" by force
  obtain s1 r1 where r1: "applyTo ops pl (s, get_range w st) = (s1, r1)" by force
  have put: "valid s \<Longrightarrow> valid (fst (fold (apply_write ops) bs (s, r)))" for bs s r
    by (induction bs arbitrary: s r) (simp_all add: apply_write_def valid_put_many)
  have del: "valid s \<Longrightarrow> valid (fst (fold (apply_delete ops) bs (s, r)))" for bs s r
    by (induction bs arbitrary: s r) (simp_all add: apply_delete_def valid_delete_many)
  have "valid s1"
    using r1 Cons.prems put del valid_put
    by (auto simp: applyTo_def Let_def split: if_splits prod.splits) (metis fst_conv prod.collapse)+
  with Cons.IH [of s1] show ?case by (simp add: wp apply_part_def r1)
qed simp

lemma run_transaction_valid:
  assumes "run_transaction ops staged extra (s, st) = ((s', st'), r)" "valid s" "\<And>s. valid s \<Longrightarrow> valid (extra s)"
  shows "valid s'"
proof -
  obtain s1 c where c: "kv_transaction ops s (\<lambda>txn. Inr (extra (fst (fold (apply_part ops) staged (txn, st))))) = (s1, c)"
    by force
  have "s' = s1" using assms(1) c by (cases c) (simp_all add: run_transaction_def)
  moreover have "valid s1"
  proof (cases c)
    case (Inl e)
    with reject [OF c [unfolded Inl]] assms(2) show ?thesis by simp
  next
    case (Inr u)
    from commit_body [OF c [unfolded Inr]] apply_parts_valid [OF assms(2)] assms(3) show ?thesis by auto
  qed
  ultimately show ?thesis by simp
qed

lemma valid_closed: "commit_closed valid"
  by (auto simp: commit_closed_def store_commit_def intro: run_transaction_valid split: sum.splits)

lemma store_replace_valid: "store_replace ops bs clear m (s, st) = ((s', st'), r) \<Longrightarrow> valid s \<Longrightarrow> valid s'"
  by (auto simp: store_replace_def intro: run_transaction_valid valid_put split: sum.splits)

lemma clear_marker_valid:
  assumes "clear_marker ops m s = (s', r)" "valid s"
  shows "valid s'"
proof (cases r)
  case (Inl e)
  with clear_marker_fails assms show ?thesis by blast
next
  case (Inr u)
  let ?body = "\<lambda>txn. case kv_get ops txn FRAMLOG_RESTORE_KEY of None \<Rightarrow> Inr txn
    | Some pending \<Rightarrow> if pending = VMarker m then Inr (kv_delete_many ops txn [FRAMLOG_RESTORE_KEY])
        else backupFailure ''verification''"
  from commit_body [of s ?body s' u] assms(1) Inr have "?body s = Inr s'" by (simp add: clear_marker_def)
  with assms(2) show ?thesis by (auto intro: valid_delete_many split: option.splits if_splits)
qed

lemma portable_closed:
  fixes eng :: "'g engine"
  assumes "commit_closed P" "P s" "portableFramlog ops eng (s, i) = ((s', i'), r)"
  shows "P s'"
  using portable_call [OF assms(3)] inst_call_closed [OF assms(1,2)] assms(2) by blast

lemma fram_closed:
  fixes eng :: "'g engine"
  assumes "commit_closed P" "P s" "fram ops eng (s, d) = ((s', d'), r)"
  shows "P s'"
proof -
  have "s' = s \<or> (\<exists>sp (j :: 'g inst) i2 c. inst_open ops eng sp (s, j) = ((s', i2), c))"
    using assms(3) by (auto simp: fram_def boot_def Let_def split: option.splits sum.splits prod.splits if_splits)
  with inst_open_closed [OF assms(1,2)] assms(2) show ?thesis by blast
qed

lemma use_instance_closed:
  assumes "commit_closed P" "P s" "use_instance ops eng body (s, d) = ((s', d'), r)"
    "\<And>s i s' i' q. P s \<Longrightarrow> body (s, i) = ((s', i'), q) \<Longrightarrow> P s'"
  shows "P s'"
proof -
  obtain s1 d1 c where c: "fram ops eng (s, d) = ((s1, d1), c)" by (metis prod.exhaust)
  note one = fram_closed [OF assms(1,2) c]
  show ?thesis
  proof (cases c)
    case (Inl e)
    with assms(3) c one show ?thesis by (simp add: use_instance_def)
  next
    case (Inr i)
    obtain s2 i2 q where q: "body (s1, i) = ((s2, i2), q)" by (metis prod.exhaust)
    have "s' = s2" using assms(3) c Inr q by (cases q) (auto simp: use_instance_def)
    with assms(4) [OF one q] show ?thesis by simp
  qed
qed

lemma replay_published_valid:
  assumes "replay_published ops eng v m (s, d) = (s', r)" "valid s"
  shows "valid s'"
proof -
  obtain s1 b where b: "bootForRestore ops eng (s, d) = (s1, b)" by force
  have "valid s1"
    using b assms(2) inst_open_closed [OF valid_closed assms(2)]
    by (auto simp: bootForRestore_def split: prod.splits sum.splits)
  show ?thesis
  proof (cases b)
    case (Inl e)
    with assms(1) b \<open>valid s1\<close> show ?thesis by (simp add: replay_published_def)
  next
    case (Inr i)
    obtain s2 i2 p where p: "portableFramlog ops eng (s1, i) = ((s2, i2), p)" by (metis prod.exhaust)
    have "valid s2" using portable_closed [OF valid_closed \<open>valid s1\<close> p] .
    obtain s3 c where c: "clear_marker ops m s2 = (s3, c)" by force
    have "valid s3" using clear_marker_valid [OF c \<open>valid s2\<close>] .
    have "s' = s2 \<or> s' = s3"
      using assms(1) b Inr p c by (auto simp: replay_published_def split: sum.splits if_splits)
    with \<open>valid s2\<close> \<open>valid s3\<close> show ?thesis by auto
  qed
qed

lemma restore_fenced_valid:
  assumes "restore_fenced digest fuel ops eng ro v (s, d) = Some ((s', d'), r)" "valid s"
  shows "valid s'"
proof -
  obtain t where t: "loadTarget fuel ops (s, d) = Some t"
    using assms(1) by (cases "loadTarget fuel ops (s, d)") (simp_all add: restore_fenced_def)
  show ?thesis
  proof (cases t)
    case (Inl e)
    with t assms show ?thesis by (simp add: restore_fenced_def)
  next
    case (Inr tg)
    obtain s1 st1 p where p: "store_replace ops (vf_bytes v) (tg_clear tg) (restoreMarker d v) (s, tg_store tg) = ((s1, st1), p)"
      by (metis prod.exhaust)
    have "valid s1" using store_replace_valid [OF p assms(2)] .
    obtain s2 q where q: "replay_published ops eng v (restoreMarker d v) (s1, d) = (s2, q)" by force
    have "valid s2" using replay_published_valid [OF q \<open>valid s1\<close>] .
    have "s' = s \<or> s' = s1 \<or> s' = s2"
      using assms(1) t Inr p q by (auto simp: restore_fenced_def Let_def split: sum.splits)
    with assms(2) \<open>valid s1\<close> \<open>valid s2\<close> show ?thesis by auto
  qed
qed

end

section \<open>The object as a step relation\<close>

text \<open>
  One step is one operation as \<open>#serialiseOperation\<close> runs it, or the restart of the isolate, which forgets the
  instance and the fence but not the storage. The fuel of a restore exceeds the number of keys it clears.
\<close>

inductive object_step ::
  "(byte list \<Rightarrow> byte list) option \<Rightarrow> 's kv \<Rightarrow> 'g engine \<Rightarrow> 's \<times> 'g dobj \<Rightarrow> 's \<times> 'g dobj \<Rightarrow> bool"
  for digest ops eng where
  Exchange: "exchange ops eng fr options sd = (sd', r) \<Longrightarrow> object_step digest ops eng sd sd'"
| Checkpoint: "checkpoint_object ops eng fr sd = (sd', r) \<Longrightarrow> object_step digest ops eng sd sd'"
| Export: "exportFramlog digest ops eng sd = (sd', r) \<Longrightarrow> object_step digest ops eng sd sd'"
| Recycle: "recycle ops eng sd = (sd', r) \<Longrightarrow> object_step digest ops eng sd sd'"
| Restore: "card (inventory ops (fst sd) (js ''framimage/'') None) < fuel \<Longrightarrow>
     restoreFramlog digest fuel ops eng supplied options sd = Some (sd', r) \<Longrightarrow> object_step digest ops eng sd sd'"
| Restart: "object_step digest ops eng (s, d) (s, d\<lparr>do_instance := None, do_fence := None\<rparr>)"

definition object_inv :: "'s kv \<Rightarrow> ('s \<Rightarrow> bool) \<Rightarrow> 's \<times> 'g dobj \<Rightarrow> bool" where
  "object_inv ops valid sd \<longleftrightarrow> valid (fst sd) \<and> object_ok ops (fst sd) (snd sd)"

context kv_storage
begin

lemma exchange_valid:
  assumes "exchange ops eng fr options (s, d) = ((s', d'), r)" "valid s"
  shows "valid s'"
proof (cases "exchange_admits (do_spaceId d) fr options")
  case (Inl e)
  with assms show ?thesis by (simp add: exchange_def)
next
  case (Inr entry)
  obtain s1 d1 q where q: "use_instance ops eng (inst_call ops eng (entry_point entry) (the fr)) (s, d) = ((s1, d1), q)"
    by (metis prod.exhaust)
  with assms(1) Inr have "s' = s1" by (cases q; simp add: exchange_def)
  moreover have "valid s1"
    using inst_call_closed [OF valid_closed] by (rule use_instance_closed [OF valid_closed assms(2) q])
  ultimately show ?thesis by simp
qed

lemma checkpoint_valid:
  assumes "checkpoint_object ops eng fr (s, d) = ((s', d'), r)" "valid s"
  shows "valid s'"
proof (rule use_instance_closed [OF valid_closed assms(2) assms(1) [unfolded checkpoint_object_def]])
  fix s i s' i' q assume v: "valid s" and c: "inst_checkpoint ops eng fr (s, i) = ((s', i'), q)"
  obtain c2 where "inst_call ops eng ''t'' fr (s, i) = ((s', i'), c2)"
    using c by (auto simp: inst_checkpoint_def split: prod.splits sum.splits)
  from inst_call_closed [OF valid_closed v this] show "valid s'" .
qed

lemma exportFramlog_valid:
  assumes "exportFramlog digest ops eng (s, d) = ((s', d'), r)" "valid s"
  shows "valid s'"
proof -
  obtain s1 d1 c where c: "fram ops eng (s, d) = ((s1, d1), c)" by (metis prod.exhaust)
  note one = fram_closed [OF valid_closed assms(2) c]
  show ?thesis
  proof (cases c)
    case (Inl e)
    with assms(1) c one show ?thesis by (simp add: exportFramlog_def)
  next
    case (Inr i)
    obtain s2 i2 q where q: "portableFramlog ops eng (s1, i) = ((s2, i2), q)" by (metis prod.exhaust)
    have "s' = s2" using assms(1) c Inr q by (cases q) (auto simp: exportFramlog_def)
    with portable_closed [OF valid_closed one q] show ?thesis by simp
  qed
qed

lemma recycle_valid:
  assumes "recycle ops eng (s, d) = ((s', d'), r)" "valid s"
  shows "valid s'"
proof (cases "\<exists>i. do_instance d = Some i \<and> \<not> closed i \<and> poisoned i = None")
  case False
  with assms show ?thesis by (auto simp: recycle_def split: option.splits if_splits)
next
  case True
  then obtain i where i: "do_instance d = Some i" "\<not> closed i" "poisoned i = None" by blast
  obtain s1 i1 c where c: "inst_close ops eng (s, i) = ((s1, i1), c)" by (metis prod.exhaust)
  have "s' = s1" using assms(1) i c by (cases c) (auto simp: recycle_def)
  with inst_close_closed [OF valid_closed assms(2) c] show ?thesis by simp
qed

lemma restoreFramlog_valid:
  assumes "restoreFramlog digest fuel ops eng supplied options (s, d) = Some ((s', d'), r)" "valid s"
  shows "valid s'"
  using restoreFramlog_cases [OF assms(1)] assms(2) restore_fenced_valid by blast

lemma object_step_inv:
  assumes "object_step digest ops eng sd sd'" "object_inv ops valid sd"
  shows "object_inv ops valid sd'"
proof -
  obtain s d s' d' where sd: "sd = (s, d)" "sd' = (s', d')" by (metis prod.exhaust)
  have inv: "valid s" "object_ok ops s d" using assms(2) sd by (simp_all add: object_inv_def)
  from assms(1) have "valid s' \<and> object_ok ops s' d'"
  proof (cases rule: object_step.cases)
    case (Exchange fr options r)
    then have "exchange ops eng fr options (s, d) = ((s', d'), r)" using sd by simp
    with inv exchange_valid exchange_ok show ?thesis by metis
  next
    case (Checkpoint fr r)
    then have "checkpoint_object ops eng fr (s, d) = ((s', d'), r)" using sd by simp
    with inv checkpoint_valid checkpoint_object_ok show ?thesis by metis
  next
    case (Export r)
    then have "exportFramlog digest ops eng (s, d) = ((s', d'), r)" using sd by simp
    with inv exportFramlog_valid exportFramlog_ok show ?thesis by metis
  next
    case (Recycle r)
    then have "recycle ops eng (s, d) = ((s', d'), r)" using sd by simp
    with inv recycle_valid recycle_ok show ?thesis by metis
  next
    case (Restore fuel supplied options r)
    then have "restoreFramlog digest fuel ops eng supplied options (s, d) = Some ((s', d'), r)"
      "card (inventory ops s (js ''framimage/'') None) < fuel" using sd by simp_all
    with inv restoreFramlog_valid restoreFramlog_ok show ?thesis by metis
  next
    case (Restart s1 d1)
    with inv sd object_ok_drop show ?thesis by auto
  qed
  with sd show ?thesis by (simp add: object_inv_def)
qed

lemma object_steps_inv:
  "(object_step digest ops eng)\<^sup>*\<^sup>* sd sd' \<Longrightarrow> object_inv ops valid sd \<Longrightarrow> object_inv ops valid sd'"
  by (induction rule: rtranclp_induct) (auto intro: object_step_inv)

text \<open>A new object over an empty storage satisfies the invariant.\<close>

lemma object_inv_new:
  assumes "FramDurableObject sp name cb bk = Inr d" "0 < cb" "0 < bk" "valid s" "\<And>k. kv_get ops s k = None"
  shows "object_inv ops valid (s, d)"
proof -
  let ?st = "object_store d"
  let ?st' = "?st\<lparr>logRange := (logRange ?st)\<lparr>chunkCount := Some 0\<rparr>, imageRange := (imageRange ?st)\<lparr>chunkCount := Some 0\<rparr>\<rparr>"
  have d: "do_chunkBytes d = cb" "do_batchKeys d = bk" "do_instance d = None"
    using assms(1) by (auto simp: FramDurableObject_def split: if_splits)
  have geo: "0 < chunkBytes (logRange ?st)" "0 < chunkBytes (imageRange ?st)"
    using d assms(2) by (simp_all add: object_store_def new_store_def new_range_def)
  have "prefixes_ok ?st" by (simp add: object_store_def new_store_prefixes)
  then have "prefixes_ok ?st'" by (simp add: prefixes_ok_def)
  with geo assms(5) have "holds ops s ?st' (\<lambda>_. [])"
    by (simp add: holds_def all_which get_range_def range_holds_def stored_def)
  moreover have "same_prefixes ?st' ?st" by (simp add: same_prefixes_def all_which get_range_def)
  ultimately show ?thesis using d assms(2-4) by (auto simp: object_inv_def intro: object_okI)
qed

section \<open>What a restore leaves\<close>

lemma restoreFramlog_None:
  "restoreFramlog digest fuel ops eng supplied options (s, d) = None \<Longrightarrow>
     (\<exists>ro. peek_target fuel ops ro (s, d) = None) \<or>
     (\<exists>ro v. restore_fenced digest fuel ops eng ro v (s, fst (fenceLiveForRestore d)) = None)"
  by (auto simp: restoreFramlog_def split: sum.splits option.splits prod.splits)

lemma restoreFramlog_outcome:
  assumes "object_inv ops valid (s, d)" "card (inventory ops s (js ''framimage/'') None) < fuel"
  shows "\<exists>s' d' r. restoreFramlog digest fuel ops eng supplied options (s, d) = Some ((s', d'), r) \<and>
    (\<forall>e. r = Inl e \<longrightarrow> s' = s \<and> (d' = d \<or> d' = unfence (fst (fenceLiveForRestore d))) \<or>
       e = BackupError ''restore-fenced'' \<and> do_instance d' = None \<and>
       (\<exists>m. kv_get ops s' FRAMLOG_RESTORE_KEY = Some (VMarker m) \<and> do_fence d' = Some (restoreFence (VMarker m)))) \<and>
    (\<forall>out. r = Inr out \<longrightarrow> (\<exists>b v i. captureBackup supplied = Inr b \<and> verifiedBackup digest b (do_spaceId d) = Inr v \<and>
       do_instance d' = Some i \<and> do_fence d' = None \<and> synced ops s' i (contents i) \<and> contents i Log = vf_bytes v \<and>
       kv_get ops s' FRAMLOG_RESTORE_KEY = None \<and> re_sha256 out = vf_digest v \<and> re_byteLength out = length (vf_bytes v)))"
proof -
  let ?fd = "fst (fenceLiveForRestore d)"
  obtain st f where o: "0 < do_chunkBytes d" "0 < do_batchKeys d" "same_prefixes st (object_store d)" "holds ops s st f"
    using assms(1) by (auto simp: object_inv_def elim: object_okE)
  have v: "valid s" using assms(1) by (simp add: object_inv_def)
  have lg: "stored ops s (logRange st) (f Log)" "prefix (logRange st) = js ''framlog/''"
    using o(3,4) object_store_geometry(1) [of Log d]
    by (auto simp: holds_def range_holds_def all_which get_range_def same_prefixes_def)
  have img: "prefix (imageRange (object_store d)) = js ''framimage/''"
    using object_store_geometry(1) [of Image d] by (simp add: get_range_def)
  have card: "card (inventory ops s (prefix (imageRange (object_store d))) None) < fuel" using assms(2) img by simp
  have card': "card (inventory ops s (prefix (imageRange (object_store ?fd))) None) < fuel"
    using card by (simp add: fenceLive_object)
  have load: "loadTarget fuel ops (s, d) \<noteq> None" using loadTarget_ok [OF v lg o(1,2) card] by blast
  have pos: "0 < do_chunkBytes ?fd" "0 < do_batchKeys ?fd" using o(1,2) by (simp_all add: fenceLive_object)
  have total: "\<exists>sdr. restoreFramlog digest fuel ops eng supplied options (s, d) = Some sdr"
  proof -
    have peek: "peek_target fuel ops ro (s, d) \<noteq> None" for ro using load by (simp add: peek_target_def)
    have fenced: "\<exists>sdr. restore_fenced digest fuel ops eng ro w (s, ?fd) = Some sdr" for ro w
      using restore_fenced_outcome [OF v lg pos card', of digest eng ro w] by blast
    have "restoreFramlog digest fuel ops eng supplied options (s, d) \<noteq> None"
      using restoreFramlog_None [of digest fuel eng supplied options s d] peek fenced by (metis option.distinct(1))
    then show ?thesis by auto
  qed
  then obtain s' d' r where R: "restoreFramlog digest fuel ops eng supplied options (s, d) = Some ((s', d'), r)" by auto
  from restoreFramlog_cases [OF R] show ?thesis
  proof (elim disjE conjE exE)
    fix e assume "s' = s" "d' = d" "r = Inl e"
    with R show ?thesis by auto
  next
    fix b ro w assume b: "captureBackup supplied = Inr b" "verifiedBackup digest b (do_spaceId d) = Inr w"
      "restore_fenced digest fuel ops eng ro w (s, ?fd) = Some ((s', d'), r)"
    from restore_fenced_outcome [OF v lg pos card', of digest eng ro w] b(3)
    have out: "\<forall>e. r = Inl e \<longrightarrow> s' = s \<and> d' = unfence ?fd \<or>
       e = BackupError ''restore-fenced'' \<and> d' = ?fd\<lparr>do_instance := None,
         do_fence := Some (restoreFence (VMarker (restoreMarker ?fd w)))\<rparr> \<and>
       kv_get ops s' FRAMLOG_RESTORE_KEY = Some (VMarker (restoreMarker ?fd w))"
      "\<forall>out. r = Inr out \<longrightarrow> (\<exists>i. d' = ?fd\<lparr>do_instance := Some i, do_fence := None\<rparr> \<and> synced ops s' i (contents i) \<and>
         contents i Log = vf_bytes w) \<and> kv_get ops s' FRAMLOG_RESTORE_KEY = None \<and>
         re_sha256 out = vf_digest w \<and> re_byteLength out = length (vf_bytes w)"
      by auto
    have "\<forall>e. r = Inl e \<longrightarrow> s' = s \<and> (d' = d \<or> d' = unfence ?fd) \<or>
       e = BackupError ''restore-fenced'' \<and> do_instance d' = None \<and>
       (\<exists>m. kv_get ops s' FRAMLOG_RESTORE_KEY = Some (VMarker m) \<and> do_fence d' = Some (restoreFence (VMarker m)))"
    proof (intro allI impI)
      fix e assume "r = Inl e"
      with out(1) consider "s' = s" "d' = unfence ?fd"
        | "e = BackupError ''restore-fenced''" "d' = ?fd\<lparr>do_instance := None,
             do_fence := Some (restoreFence (VMarker (restoreMarker ?fd w)))\<rparr>"
          "kv_get ops s' FRAMLOG_RESTORE_KEY = Some (VMarker (restoreMarker ?fd w))"
        by blast
      then show "s' = s \<and> (d' = d \<or> d' = unfence ?fd) \<or> e = BackupError ''restore-fenced'' \<and> do_instance d' = None \<and>
          (\<exists>m. kv_get ops s' FRAMLOG_RESTORE_KEY = Some (VMarker m) \<and> do_fence d' = Some (restoreFence (VMarker m)))"
        by cases simp_all
    qed
    moreover have "\<forall>out. r = Inr out \<longrightarrow> (\<exists>b v i. captureBackup supplied = Inr b \<and>
       verifiedBackup digest b (do_spaceId d) = Inr v \<and> do_instance d' = Some i \<and> do_fence d' = None \<and>
       synced ops s' i (contents i) \<and> contents i Log = vf_bytes v \<and> kv_get ops s' FRAMLOG_RESTORE_KEY = None \<and>
       re_sha256 out = vf_digest v \<and> re_byteLength out = length (vf_bytes v))"
      using out(2) b(1,2) by fastforce
    ultimately show ?thesis using R by blast
  qed
qed

section \<open>An exchange is one durable transition\<close>

lemma exchange_durable:
  assumes "do_fence d = None" "do_instance d = Some i" "synced ops s i f" "in_guest i = Some g"
    "exchange ops eng fr options (s, d) = ((s', d'), Inr bs)"
  shows "\<exists>entry g' hops out i'. exchange_admits (do_spaceId d) fr options = Inr entry \<and>
    e_call eng (entry_point entry) (the fr) g (contents i Log) (contents i Image) = (g', hops, Inr out) \<and>
    exchange_result out = Inr bs \<and> do_instance d' = Some i' \<and> in_guest i' = Some g' \<and>
    synced ops s' i' (fold spec_op hops (contents i)) \<and> contents i' = fold spec_op hops (contents i)"
proof -
  obtain entry where adm: "exchange_admits (do_spaceId d) fr options = Inr entry"
    using assms(5) by (cases "exchange_admits (do_spaceId d) fr options") (simp_all add: exchange_def)
  obtain s2 i2 c where c: "inst_call ops eng (entry_point entry) (the fr) (s, i) = ((s2, i2), c)" by (metis prod.exhaust)
  have "fram ops eng (s, d) = ((s, d), Inr i)" using assms(1,2) by (simp add: fram_def)
  with assms(5) adm c obtain out where out: "c = Inr out" "exchange_result out = Inr bs" "s' = s2"
    "d' = d\<lparr>do_instance := Some i2\<rparr>"
    by (cases c) (auto simp: exchange_def use_instance_def)
  from inst_call_ok [OF assms(3,4) c [unfolded out(1)]] adm out show ?thesis by auto
qed

end

section \<open>A pending restore keeps the object shut\<close>

lemma fram_shut:
  assumes "do_fence d \<noteq> None \<or> do_instance d = None \<and> kv_get ops s FRAMLOG_RESTORE_KEY \<noteq> None"
  shows "\<exists>d' e. fram ops eng (s, d) = ((s, d'), Inl (BackupError e)) \<and> do_fence d' \<noteq> None \<and> do_instance d' = do_instance d"
proof (cases "do_fence d")
  case None
  with assms obtain p where "do_instance d = None" "kv_get ops s FRAMLOG_RESTORE_KEY = Some p" by auto
  with fram_pending [OF None this] show ?thesis by auto
qed (auto simp: fram_fenced)

lemma shut_operations:
  assumes "do_fence d \<noteq> None \<or> do_instance d = None \<and> kv_get ops s FRAMLOG_RESTORE_KEY \<noteq> None"
  shows "\<exists>d' e. exchange ops eng fr options (s, d) = ((s, d'), Inl e)"
    "\<exists>d' e. checkpoint_object ops eng bs (s, d) = ((s, d'), Inl e)"
    "\<exists>d' e. exportFramlog digest ops eng (s, d) = ((s, d'), Inl e)"
proof -
  obtain d' e where f: "fram ops eng (s, d) = ((s, d'), Inl (BackupError e))" using fram_shut [OF assms] by blast
  show "\<exists>d' e. exchange ops eng fr options (s, d) = ((s, d'), Inl e)"
    using f by (auto simp: exchange_def use_instance_def split: sum.splits)
  show "\<exists>d' e. checkpoint_object ops eng bs (s, d) = ((s, d'), Inl e)"
    using f by (simp add: checkpoint_object_def use_instance_def)
  show "\<exists>d' e. exportFramlog digest ops eng (s, d) = ((s, d'), Inl e)"
    using f by (simp add: exportFramlog_def)
qed

section \<open>What an export returns is a backup\<close>

text \<open>
  The object an export returns, as \<open>restoreFramlog\<close> receives it. The keys are listed sorted, the order in which
  \<open>exactObject\<close> compares them.
\<close>

definition backup_of :: "exported \<Rightarrow> backup_object" where
  "backup_of ex = Some
     [(js ''byteLength'', Plain (JNum (num_of_nat (ex_byteLength ex)))), (js ''bytes'', Bytes (ex_bytes ex)),
      (js ''format'', Plain (JStr FRAMLOG_BACKUP_FORMAT)), (js ''servedVersion'', Plain (JStr (ex_served ex))),
      (js ''sha256'', Plain (JStr (ex_sha256 ex))), (js ''spaceId'', Plain (JStr (ex_spaceId ex)))]"

lemma served_text_int:
  assumes "0 \<le> z" "z \<le> I64_MAX"
  shows "served_text (JStr (int_text z))"
proof -
  have "int_text z = [48] \<or> positive_text (int_text z)"
    using assms(1) positive_nat_text [of "nat z"] int_text_0 by (cases "z = 0") (simp_all add: int_text_def)
  with assms(2) show ?thesis by (simp add: served_text_def I64_MAX_def)
qed

lemma decodeStatus_served:
  assumes "decodeStatusServedVersion response sp = Inr v"
  shows "\<exists>z. v = int_text z \<and> 0 \<le> z \<and> z \<le> I64_MAX"
proof -
  obtain fr k where v: "v = int_text (le_int (bytes_at k 8 fr))" "0 \<le> le_int (bytes_at k 8 fr)" "k + 11 < length fr"
    using assms by (auto simp: decodeStatusServedVersion_def Let_def res_simps split: option.splits if_splits)
  have "length (bytes_at k 8 fr) = 8" using v(3) by (simp add: bytes_at_def)
  with le_int_range [of "bytes_at k 8 fr"] have "le_int (bytes_at k 8 fr) \<le> I64_MAX" by (simp add: I64_MAX_def)
  with v show ?thesis by blast
qed

lemma fram_spaceId: "fram ops eng (s, d) = ((s', d'), r) \<Longrightarrow> do_spaceId d' = do_spaceId d"
  by (auto simp: fram_def Let_def split: option.splits prod.splits sum.splits)

lemma exportFramlog_Inr:
  assumes "exportFramlog digest ops eng (s, d) = ((s', d'), Inr ex)"
  shows "parseFramlogHeader (Some (ex_bytes ex)) = Inr (do_spaceId d) \<and> ex_spaceId ex = do_spaceId d \<and>
    sha256Hex digest (ex_bytes ex) = Inr (ex_sha256 ex) \<and> ex_byteLength ex = length (ex_bytes ex) \<and>
    (\<exists>z. ex_served ex = int_text z \<and> 0 \<le> z \<and> z \<le> I64_MAX)"
proof -
  obtain s1 d1 i s2 i2 bs served where f: "fram ops eng (s, d) = ((s1, d1), Inr i)"
    and p: "portableFramlog ops eng (s1, i) = ((s2, i2), Inr (bs, served))"
    and e: "parseFramlogHeader (Some bs) = Inr (do_spaceId d1)" "ex_spaceId ex = do_spaceId d1"
      "sha256Hex digest bs = Inr (ex_sha256 ex)" "ex_byteLength ex = length bs" "ex_bytes ex = bs" "ex_served ex = served"
    using assms by (auto simp: exportFramlog_def res_simps split: prod.splits sum.splits if_splits)
  obtain resp sp where "decodeStatusServedVersion resp sp = Inr served"
    using p by (auto simp: portableFramlog_def res_simps split: sum.splits prod.splits if_splits)
  with e fram_spaceId [OF f] decodeStatus_served show ?thesis by auto
qed

lemma parseFramlogHeader_nonempty: "parseFramlogHeader fr = Inr sp \<Longrightarrow> sp \<noteq> []"
  by (auto simp: parseFramlogHeader_def Let_def split: option.splits if_splits)

lemma sha256Hex_text:
  assumes "sha256Hex (Some dg) bs = Inr sha" "length (dg bs) = 32"
  shows "SHA256 sha"
proof -
  have "sha = concat (map (\<lambda>byte. pad_start 2 (nat_text 16 (unat byte))) (rev (rev (dg bs))))"
    using assms(1) by (simp add: sha256Hex_def)
  with hex_bytes [of "rev (dg bs)"] assms(2) show ?thesis by (simp add: SHA256_def)
qed

lemma export_verifies:
  assumes "exportFramlog (Some dg) ops eng (s, d) = ((s', d'), Inr ex)" "length (dg (ex_bytes ex)) = 32"
    "length (ex_bytes ex) < 2 ^ 53"
  shows "\<exists>b. captureBackup (backup_of ex) = Inr b \<and>
    verifiedBackup (Some dg) b (do_spaceId d) = Inr \<lparr>vf_bytes = ex_bytes ex, vf_digest = ex_sha256 ex, vf_served = ex_served ex\<rparr>"
proof -
  note e = exportFramlog_Inr [OF assms(1)]
  obtain z where z: "ex_served ex = int_text z" "0 \<le> z" "z \<le> I64_MAX" using e by blast
  have sha: "SHA256 (ex_sha256 ex)" using sha256Hex_text [of dg "ex_bytes ex"] e assms(2) by blast
  have num: "nonneg_safe (JNum (num_of_nat (length (ex_bytes ex))))"
    "equals_count (JNum (num_of_nat (length (ex_bytes ex)))) (length (ex_bytes ex))"
    using assms(3) by (simp_all add: nonneg_safe_def equals_count_def safe_int_num_of_nat num_int_num_of_nat)
  let ?b = "\<lparr>bk_byteLength = JNum (num_of_nat (length (ex_bytes ex))), bk_bytes = Some (ex_bytes ex),
    bk_format = JStr FRAMLOG_BACKUP_FORMAT, bk_servedVersion = JStr (ex_served ex), bk_sha256 = JStr (ex_sha256 ex),
    bk_spaceId = JStr (do_spaceId d)\<rparr>"
  have "captureBackup (backup_of ex) = Inr ?b"
    using e by (simp add: captureBackup_def exactObject_def backup_of_def field_plain_def)
  moreover have "verifiedBackup (Some dg) ?b (do_spaceId d) =
      Inr \<lparr>vf_bytes = ex_bytes ex, vf_digest = ex_sha256 ex, vf_served = ex_served ex\<rparr>"
    using e num sha served_text_int [OF z(2,3)] parseFramlogHeader_nonempty [of "Some (ex_bytes ex)"]
    by (simp add: verifiedBackup_def js_text_def sha_text_def z(1))
  ultimately show ?thesis by blast
qed

end
