(* ===== verification/Samples.thy ===== *)
theory Samples
  imports DurableObject
begin

text \<open>
  Concrete inputs: a Term, a client, a request it sends and a reply to it. The witnesses of the
  properties evaluate the definitions on them.
\<close>

lemma ascii_plain: "ascii s \<Longrightarrow> length s \<le> 100 \<Longrightarrow> text_ok (js s) \<and> \<not> starts_with_bom (js s)"
  using ascii_js [of s] by (simp add: text_ok_def MAX_STRING_BYTES_def)

lemmas limit_defs = MAX_TERM_NODES_def MAX_TERM_DEPTH_def i64_ok_def I64_MIN_def I64_MAX_def

lemma wire_text_length:
  "ascii s \<Longrightarrow> length (wire (FString (js s))) = 5 + length s"
  "ascii s \<Longrightarrow> length (wire (FKeyword (js s))) = 5 + length s"
  by (simp_all add: text_bytes_def ascii_js)

definition sample_term :: fterm where
  "sample_term = FTriple (FString (js ''a'')) (FInteger (- 5)) (FTriple (FBoolean True) (FInstant 7 8) (FKeyword (js ''k'')))"

lemma sample_term_ok: "term_ok sample_term" "plain_term sample_term"
  by (simp_all add: sample_term_def term_ok_def limit_defs ascii_plain ascii_def)

section \<open>A version request\<close>

definition sample_client :: client where
  "sample_client = \<lparr>cl_space = js ''demo'', requestTimeoutMs = 5000, requestCounter = 1\<rparr>"

definition sample_request :: request where
  "sample_request = \<lparr>rq_space = js ''demo'', rq_operation = ''rpc/version'', rq_expected = None, rq_page = None,
     rq_timeout = None, rq_payload = FKeyword (js ''rpc/unit'')\<rparr>"

definition sample_args :: call_args where
  "sample_args = \<lparr>ca_operation = ''rpc/version'', ca_payload = kw ''rpc/unit'', ca_options = JObj [],
     ca_preflight = JNull, ca_actionCount = 0\<rparr>"

definition sample_sent :: sent where
  "sample_sent = \<lparr>sent_frame = request_frame 1 sample_request,
     sent_expected = \<lparr>x_requestId = 1, x_space = js ''demo'', x_operation = ''rpc/version''\<rparr>,
     sent_entry = ''query'', sent_timeout = 5000\<rparr>"

lemma sample_names [simp]: "ascii ''demo''" "ascii ''rpc/version''" "ascii ''rpc/unit''"
  by (simp_all add: ascii_def)

lemma sample_valid: "request_valid OPERATIONS sample_request"
proof -
  have "length (request_body sample_request) \<le> MAX_BODY_BYTES"
    by (simp add: request_body_def sample_request_def opt_bytes_def wire_text_length MAX_BODY_BYTES_def del: wire.simps)
  moreover have "term_ok (FString (js ''demo''))" "term_ok (FKeyword (js ''rpc/version''))"
    "term_ok (FKeyword (js ''rpc/unit''))"
    by (simp_all add: ascii_plain)
  ultimately show ?thesis
    by (simp add: request_valid_def sample_request_def request_terms_def page_terms_def OPERATIONS_def ascii_js
        MAX_SPACE_BYTES_def MAX_TERM_NODES_def del: term_ok_atom)
qed

lemma sample_asks: "asks (JStr (js ''demo'')) ''rpc/version'' (kw ''rpc/unit'') (JObj []) sample_request"
proof -
  have n: "name_ok ''rpc/unit''" by (simp add: name_ok_def)
  then have "denotes (kw ''rpc/unit'') (FKeyword (js ''rpc/unit''))"
    by (simp only: kw_rep) (rule denotes_rep_term, simp add: ascii_plain)
  with n show ?thesis
    by (auto simp: asks_def sample_request_def requestControls_def truthy_def plainObject_def object_fields_def
        page_denotes_def)
qed

lemma sample_prepared: "prepareCall sample_client sample_args = Inr sample_sent"
  using encodeRequest_ok [OF sample_valid sample_asks, of 1]
  by (simp add: prepareCall_def sample_client_def sample_args_def sample_sent_def encoded_request_def own_of_def
      nullish_def operationEntry_def MUTATION_OPERATIONS_def)

lemma sample_method: "method_args (MVersion JUndef) = Inr sample_args"
  by (simp add: plain_call_def default_options_def sample_args_def)

section \<open>A reply\<close>

definition sample_reply :: reply where
  "sample_reply = \<lparr>rp_space = js ''demo'', rp_operation = js ''rpc/version'', rp_served = 3, rp_page = None,
     rp_error = None, rp_payload = Some (FKeyword (js ''rpc/unit''))\<rparr>"

lemma sample_reply_ok: "reply_ok sample_reply"
proof -
  have "length (reply_body sample_reply) \<le> MAX_BODY_BYTES"
    by (simp add: reply_body_def sample_reply_def opt_bytes_def wire_text_length MAX_BODY_BYTES_def del: wire.simps)
  then show ?thesis
    by (simp add: reply_ok_def sample_reply_def opt_ok_def opt_cost_def readable_def limit_defs ascii_plain)
qed

lemma sample_public:
  "publicResponse ''rpc/version'' (reply_seen sample_reply) =
     Inr \<lparr>pb_response = reply_seen sample_reply, pb_result = RNull\<rparr>"
  by (simp add: publicResponse_def reply_seen_def sample_reply_def operationResult_def isKeyword_def)

section \<open>A batch of one action\<close>

definition sample_triple :: fterm where
  "sample_triple = FTriple (FBoolean True) (FBoolean True) (FBoolean False)"

definition sample_action :: jsval where
  "sample_action = JObj [(js ''op'', js_lit ''assert''), (js ''proposition'', rep_term sample_triple)]"

definition action_term :: fterm where
  "action_term = record_term ''rpc/action'' [FKeyword (js ''rpc/assert''), sample_triple, FKeyword (js ''rpc/subject-any'')]"

definition batch_term :: fterm where
  "batch_term = record_term ''rpc/batch'' [list_term [action_term], FKeyword (js ''rpc/none'')]"

lemma batch_names [simp]: "ascii ''rpc/action''" "ascii ''rpc/assert''" "ascii ''rpc/subject-any''" "ascii ''rpc/batch''"
  "ascii ''rpc/none''" "ascii ''rpc/list''" "ascii ''rpc/list-end''" "ascii ''rpc/record''"
  by (simp_all add: ascii_def)

lemmas batch_defs = sample_triple_def action_term_def batch_term_def record_term_def

lemma batch_terms_ok: "term_ok sample_triple" "term_ok (list_term [FKeyword (js ''rpc/assert''), sample_triple, FKeyword (js ''rpc/subject-any'')])"
  "term_ok action_term" "term_ok (list_term [action_term])"
  "term_ok (list_term [list_term [action_term], FKeyword (js ''rpc/none'')])" "term_ok batch_term"
  by (simp_all add: batch_defs term_ok_def limit_defs ascii_plain)

lemma toTerm_kw_rep: "name_ok s \<Longrightarrow> toTerm (kw s) = Inr (rep_term (FKeyword (js s)))"
  using toTerm_kw [of s] by (simp only: kw_rep)

lemma sample_actionPayload: "actionPayload sample_action = Inr (rep_term action_term)"
proof -
  have t: "rep_term sample_triple = JArr [js_lit ''triple'', rep_term (FBoolean True), rep_term (FBoolean True), rep_term (FBoolean False)]"
    by (simp add: sample_triple_def js_lit_def)
  have n: "name_ok ''rpc/assert''" "name_ok ''rpc/subject-any''" by (simp_all add: name_ok_def)
  have "terms_of [kw ''rpc/assert'', rep_term sample_triple, kw ''rpc/subject-any'']
      [FKeyword (js ''rpc/assert''), sample_triple, FKeyword (js ''rpc/subject-any'')]"
    using toTerm_rep_term [OF batch_terms_ok(1)] n by (simp add: toTerm_kw_rep del: toTerm_kw rep_term.simps)
  from rpcRecord_rep [OF _ this batch_terms_ok(2), of "''rpc/action''"]
  have r: "rpcRecord ''rpc/action'' [kw ''rpc/assert'', rep_term sample_triple, kw ''rpc/subject-any''] = Inr (rep_term action_term)"
    by (simp add: name_ok_def action_term_def)
  have k: "keyword_lit ''rpc/assert'' = Inr (kw ''rpc/assert'')" "policy JUndef = Inr (kw ''rpc/subject-any'')"
    using n by (simp_all add: policy_def truthy_def)
  have "is_triple_array (rep_term sample_triple)" by (simp add: t is_triple_array_def)
  then show ?thesis
    using r k toTerm_rep_term [OF batch_terms_ok(1)]
    by (simp add: actionPayload_def sample_action_def exactKeys_def plainObject_def object_fields_def Let_def js_lit_def
        del: rep_term.simps)
qed

lemma sample_batch:
  "prepareBatch (JArr [sample_action]) (JObj []) False =
     Inr \<lparr>bt_actionCount = 1, bt_payload = rep_term batch_term, bt_options = JObj [], bt_preflight = JNull\<rparr>"
proof -
  have n: "name_ok ''rpc/none''" by simp
  have a: "terms_of [rep_term action_term] [action_term]"
    using toTerm_rep_term [OF batch_terms_ok(3)] by simp
  have l: "rpcList [rep_term action_term] = Inr (rep_term (list_term [action_term]))"
    by (rule rpcList_rep [OF a batch_terms_ok(4)])
  have "terms_of [rep_term (list_term [action_term]), kw ''rpc/none''] [list_term [action_term], FKeyword (js ''rpc/none'')]"
    using toTerm_rep_term [OF batch_terms_ok(4)] n by (simp add: toTerm_kw_rep del: toTerm_kw rep_term.simps)
  from rpcRecord_rep [OF _ this batch_terms_ok(5), of "''rpc/batch''"]
  have b: "rpcRecord ''rpc/batch'' [rep_term (list_term [action_term]), kw ''rpc/none''] = Inr (rep_term batch_term)"
    by (simp add: name_ok_def batch_term_def)
  have f: "rpcOption JUndef = Inr (kw ''rpc/none'')" by (simp add: rpcOption_def nullish_def)
  show ?thesis
    by (simp add: prepareBatch_def FRAMRPC_MAX_BATCH_ACTIONS_def exactKeys_def plainObject_def object_fields_def
        sample_actionPayload l b f Let_def del: rep_term.simps list_term.simps)
qed

definition sample_batch_request :: request where
  "sample_batch_request = \<lparr>rq_space = js ''demo'', rq_operation = ''rpc/batch'', rq_expected = None, rq_page = None,
     rq_timeout = None, rq_payload = batch_term\<rparr>"

lemma sample_preflight:
  "preflightBatch sample_client (JArr [sample_action]) (JObj []) =
     Inr (batchPreflight (encoded_request 0 sample_batch_request) 1)"
proof -
  have "length (request_body sample_batch_request) \<le> MAX_BODY_BYTES"
    by (simp add: request_body_def sample_batch_request_def opt_bytes_def batch_defs text_bytes_def ascii_js MAX_BODY_BYTES_def)
  moreover have "term_size batch_term \<le> 100" by (simp add: batch_defs)
  moreover have "term_ok (FString (js ''demo''))" "term_ok (FKeyword (js ''rpc/batch''))"
    by (simp_all add: ascii_plain)
  ultimately have "request_valid OPERATIONS sample_batch_request"
    using batch_terms_ok(6)
    by (simp add: request_valid_def sample_batch_request_def request_terms_def page_terms_def OPERATIONS_def ascii_js
        MAX_SPACE_BYTES_def MAX_TERM_NODES_def del: term_ok_atom)
  moreover have "denotes (rep_term batch_term) batch_term"
    using batch_terms_ok(6) by (simp add: term_ok_def denotes_rep_term)
  then have "asks (JStr (js ''demo'')) ''rpc/batch'' (rep_term batch_term) (JObj []) sample_batch_request"
    using toTerm_rep_term [OF batch_terms_ok(6)]
    by (auto simp: asks_def sample_batch_request_def requestControls_def truthy_def plainObject_def object_fields_def
        page_denotes_def)
  ultimately have "encodeRequest 0 (JStr (js ''demo'')) ''rpc/batch'' (rep_term batch_term) (JObj []) OPERATIONS =
      Inr (encoded_request 0 sample_batch_request)"
    by (rule encodeRequest_ok)
  then show ?thesis
    by (simp add: preflightBatch_def default_options_def sample_batch sample_client_def del: rep_term.simps)
qed

section \<open>The query of an empty pattern\<close>

text \<open>The constructors on explicit lists of canonical Terms.\<close>

lemma terms_of_map: "list_all term_ok ts \<Longrightarrow> terms_of (map rep_term ts) ts"
  by (simp add: list_all2_conv_all_nth list_all_length toTerm_rep_term)

lemma rpcList_reps:
  "term_ok (list_term ts) \<Longrightarrow> list_all term_ok ts \<Longrightarrow> vs = map rep_term ts \<Longrightarrow>
     rpcList vs = Inr (rep_term (list_term ts))"
  using rpcList_rep [OF terms_of_map] by simp

lemma rpcRecord_reps:
  "name_ok tag \<Longrightarrow> term_ok (list_term ts) \<Longrightarrow> list_all term_ok ts \<Longrightarrow> vs = map rep_term ts \<Longrightarrow>
     rpcRecord tag vs = Inr (rep_term (record_term tag ts))"
  using rpcRecord_rep [OF _ terms_of_map] by simp

definition var_record :: "string \<Rightarrow> fterm" where
  "var_record n = record_term ''query/var'' [FString (js n)]"

definition vars_list :: fterm where
  "vars_list = list_term [var_record ''t1'', var_record ''t2'', var_record ''t3'']"

definition head_record :: fterm where
  "head_record = record_term ''query/head'' [FString (js ''out''), vars_list]"

definition relation_record :: fterm where
  "relation_record = record_term ''query/relation'' [FString (js ''triple''), vars_list, FBoolean False]"

definition rule_record :: fterm where
  "rule_record = record_term ''query/rule'' [head_record, list_term [relation_record]]"

definition stratum_record :: fterm where
  "stratum_record = record_term ''query/stratum'' [list_term [rule_record]]"

definition find_record :: fterm where
  "find_record = record_term ''query/find-relation'' [FString (js ''out'')]"

definition sample_plan :: fterm where
  "sample_plan = record_term ''query/plan''
     [find_record, list_term [stratum_record], list_term [], FKeyword (js ''rpc/none'')]"

lemmas plan_defs = var_record_def vars_list_def head_record_def relation_record_def rule_record_def
  stratum_record_def find_record_def sample_plan_def record_term_def

lemma plan_names [simp]: "ascii ''query/var''" "ascii ''query/head''" "ascii ''query/relation''" "ascii ''query/rule''"
  "ascii ''query/stratum''" "ascii ''query/find-relation''" "ascii ''query/plan''" "ascii ''out''" "ascii ''triple''"
  "ascii ''t1''" "ascii ''t2''" "ascii ''t3''"
  by (simp_all add: ascii_def)

lemma rep_constants:
  "rep_term (FString (js s)) = JArr [JStr (js ''string''), js_lit s]"
  "rep_term (FBoolean b) = JArr [JStr (js ''boolean''), JBool b]"
  "rep_term (FKeyword (js s)) = kw s" "rep_term (list_term []) = kw ''rpc/list-end''"
  by (simp_all add: js_lit_def kw_def)

lemma plan_ok:
  "term_ok (var_record ''t1'')" "term_ok (var_record ''t2'')" "term_ok (var_record ''t3'')" "term_ok vars_list"
  "term_ok head_record" "term_ok relation_record" "term_ok rule_record" "term_ok stratum_record" "term_ok find_record"
  "term_ok (list_term [FString (js ''out''), vars_list])"
  "term_ok (list_term [FString (js ''triple''), vars_list, FBoolean False])"
  "term_ok (list_term [relation_record])" "term_ok (list_term [head_record, list_term [relation_record]])"
  "term_ok (list_term [rule_record])" "term_ok (list_term [list_term [rule_record]])"
  "term_ok (list_term [stratum_record])" "term_ok (list_term [FString (js ''out'')])"
  "term_ok (list_term [find_record, list_term [stratum_record], list_term [], FKeyword (js ''rpc/none'')])"
  "term_ok (list_term [])"
  by (simp_all add: plan_defs term_ok_def limit_defs ascii_plain)

lemma sample_var:
  assumes "n \<in> set pattern_names"
  shows "rpcRecord ''query/var'' [JArr [JStr (js ''string''), js_lit n]] = Inr (rep_term (var_record n))"
  unfolding var_record_def
proof (rule rpcRecord_reps)
  have "ascii n" "length n \<le> 100" using assms by (auto simp: pattern_names_def)
  then have "text_ok (js n)" by (simp add: ascii_plain)
  then show "term_ok (list_term [FString (js n)])" "list_all term_ok [FString (js n)]"
    by (simp_all add: term_ok_def limit_defs ascii_plain)
  show "[JArr [JStr (js ''string''), js_lit n]] = map rep_term [FString (js n)]" by (simp add: js_lit_def)
qed (simp add: name_ok_def)

lemma sample_plan_built:
  "triple_plan (map rep_term [var_record ''t1'', var_record ''t2'', var_record ''t3''])
     (map rep_term [var_record ''t1'', var_record ''t2'', var_record ''t3'']) = Inr (rep_term sample_plan)"
proof -
  have vars: "rpcList (map rep_term [var_record ''t1'', var_record ''t2'', var_record ''t3'']) = Inr (rep_term vars_list)"
    unfolding vars_list_def by (rule rpcList_reps [OF plan_ok(4) [unfolded vars_list_def]]) (simp_all only: plan_ok list.pred_inject)
  have one: "rpcList [rep_term t] = Inr (rep_term (list_term [t]))" if "term_ok t" "term_ok (list_term [t])" for t
    by (rule rpcList_reps [OF that(2)]) (simp_all only: that list.pred_inject list.map)
  note lists = one [OF plan_ok(6) plan_ok(12)] one [OF plan_ok(7) plan_ok(14)] one [OF plan_ok(8) plan_ok(16)]
  have atoms: "term_ok (FString (js ''out''))" "term_ok (FString (js ''triple''))" "term_ok (FBoolean False)"
    "term_ok (FKeyword (js ''rpc/none''))"
    by (simp_all add: ascii_plain)
  have names: "name_ok ''query/head''" "name_ok ''query/relation''" "name_ok ''query/rule''" "name_ok ''query/stratum''"
    "name_ok ''query/find-relation''" "name_ok ''query/plan''"
    by (simp_all add: name_ok_def)
  note all = plan_ok atoms list.pred_inject list.map rep_constants
  have h: "rpcRecord ''query/head'' [JArr [JStr (js ''string''), js_lit ''out''], rep_term vars_list] = Inr (rep_term head_record)"
    unfolding head_record_def by (rule rpcRecord_reps [OF names(1) plan_ok(10)]) (simp_all only: all)
  have r: "rpcRecord ''query/relation'' [JArr [JStr (js ''string''), js_lit ''triple''], rep_term vars_list,
        JArr [JStr (js ''boolean''), JBool False]] = Inr (rep_term relation_record)"
    unfolding relation_record_def by (rule rpcRecord_reps [OF names(2) plan_ok(11)]) (simp_all only: all)
  have u: "rpcRecord ''query/rule'' [rep_term head_record, rep_term (list_term [relation_record])] = Inr (rep_term rule_record)"
    unfolding rule_record_def by (rule rpcRecord_reps [OF names(3) plan_ok(13)]) (simp_all only: all)
  have st: "rpcRecord ''query/stratum'' [rep_term (list_term [rule_record])] = Inr (rep_term stratum_record)"
    unfolding stratum_record_def by (rule rpcRecord_reps [OF names(4) plan_ok(15)]) (simp_all only: all)
  have f: "rpcRecord ''query/find-relation'' [JArr [JStr (js ''string''), js_lit ''out'']] = Inr (rep_term find_record)"
    unfolding find_record_def by (rule rpcRecord_reps [OF names(5) plan_ok(17)]) (simp_all only: all)
  have p: "rpcRecord ''query/plan'' [rep_term find_record, rep_term (list_term [stratum_record]), kw ''rpc/list-end'',
        kw ''rpc/none''] = Inr (rep_term sample_plan)"
    unfolding sample_plan_def by (rule rpcRecord_reps [OF names(6) plan_ok(18)]) (simp_all only: all)
  have n: "rpcOption JNull = Inr (kw ''rpc/none'')" by (simp add: rpcOption_def nullish_def)
  show ?thesis
    by (simp only: triple_plan_def vars rbind.simps h r lists u st f rpcList_Nil n p)
qed

lemma sample_lowered: "lowerQueryPlan (pattern_query []) = Inr (rep_term sample_plan)"
proof -
  have q: "queryTerm (pattern_value [] n) = Inr (rep_term (var_record n))" if "n \<in> set pattern_names" for n
  proof -
    have "name_ok n" using that by (auto simp: pattern_names_def)
    then have "pattern_arg n (get_prop [] n) = rpcRecord ''query/var'' [JArr [JStr (js ''string''), js_lit n]]"
      by (simp add: pattern_arg_def var_term_def nullish_def)
    then show ?thesis
      using queryTerm_pattern [OF that, of "[]"] sample_var [OF that] by (simp add: nullish_def)
  qed
  have v: "pattern_vars [] = pattern_names" by (simp add: pattern_vars_def nullish_def)
  have "rmap queryTerm (map (pattern_value []) pattern_names) =
      Inr (map rep_term [var_record ''t1'', var_record ''t2'', var_record ''t3''])"
    using q by (simp add: pattern_names_def)
  then show ?thesis
    using sample_plan_built lowerQueryPlan_pattern [of "[]" "rep_term sample_plan"] v by auto
qed

section \<open>A storage in memory and an engine that appends what it is sent\<close>

definition toy_engine :: "nat engine" where
  "toy_engine = \<lparr>e_open = (\<lambda>l m. (0, [], Inr 0)),
     e_call = (\<lambda>entry fr g l m. (g + 1, [StorageAppend Log fr, StorageSync Log],
       Inr \<lparr>gr_status = 0, gr_response = Some fr, gr_released = True\<rparr>)),
     e_close = (\<lambda>g l m. (g, [], Inr 0))\<rparr>"

definition empty_store :: store where
  "empty_store = (let st = new_store 4 2 in st\<lparr>logRange := (logRange st)\<lparr>chunkCount := Some 0\<rparr>,
     imageRange := (imageRange st)\<lparr>chunkCount := Some 0\<rparr>\<rparr>)"

definition open_inst :: "nat inst" where
  "open_inst = (new_inst Durable empty_store)\<lparr>in_guest := Some 0, opened := True, in_spaceId := js ''demo''\<rparr>"

lemma empty_holds: "holds memory_kv [] empty_store (\<lambda>_. [])"
  using new_store_prefixes [of 4 2]
  by (simp add: holds_def all_which get_range_def range_holds_def stored_def empty_store_def Let_def prefixes_ok_def
      memory_kv_def mem_get_def new_store_def new_range_def)

lemma open_contents: "contents open_inst = (\<lambda>_. [])"
  by (auto simp: contents_def open_inst_def new_inst_def get_image_def split: which.splits)

lemma open_synced: "synced memory_kv [] open_inst (\<lambda>_. [])"
  using empty_holds tracks_new [of "[]"]
  by (simp add: synced_def open_inst_def new_inst_def get_image_def all_which)

lemma open_guest: "in_guest open_inst = Some 0" "assertUsable open_inst = Inr ()" "in_store open_inst = empty_store"
  by (simp_all add: open_inst_def new_inst_def assertUsable_def)

text \<open>The storage in memory never fails a transaction.\<close>

lemma stage_total: "holds ops s st f \<Longrightarrow> \<exists>staged. stage st ps = Inr staged"
proof (induction ps)
  case (Cons p ps)
  then show ?case
    by (auto simp: stage_def holds_def range_holds_def range_plan_def Let_def split: option.splits)
qed (simp add: stage_def)

lemma memory_commit:
  assumes "holds memory_kv s st f"
  shows "\<exists>s' st'. store_commit memory_kv ps (s, st) = ((s', st'), Inr ())"
  using stage_total [OF assms, of ps]
  by (auto simp: store_commit_def run_transaction_def memory_kv_def mem_transaction_def)

lemma memory_inst_commit:
  assumes "synced memory_kv s i f"
  shows "\<exists>s' i'. inst_commit memory_kv (s, i) = ((s', i'), Inr ())"
proof -
  have same: "in_store (take_commits (i\<lparr>syncPending := False\<rparr>)) = in_store i"
    using take_commits_rest [of "i\<lparr>syncPending := False\<rparr>"] by (simp add: same_rest_def)
  have "holds memory_kv s (in_store i) f" "in_mode i = Durable" using assms by (simp_all add: synced_def)
  with memory_commit [OF this(1), of "dirty_parts i"] same show ?thesis
    by (auto simp: inst_commit_def Let_def mode_commit_def)
qed

lemma toy_call:
  assumes "synced memory_kv s i f" "in_guest i = Some g" "assertUsable i = Inr ()"
  shows "\<exists>s' i'. inst_call memory_kv toy_engine entry fr (s, i) =
    ((s', i'), Inr \<lparr>gr_status = 0, gr_response = Some fr, gr_released = True\<rparr>)"
proof -
  let ?i = "fold host_step [StorageAppend Log fr, StorageSync Log] (i\<lparr>in_guest := Some (g + 1)\<rparr>)"
  have "synced memory_kv s ?i f" using mem.host_steps_synced [OF assms(1)] by blast
  from memory_inst_commit [OF this] obtain s' i' where "inst_commit memory_kv (s, ?i) = ((s', i'), Inr ())" by blast
  moreover have e: "e_call toy_engine entry fr g (contents i Log) (contents i Image) =
      (g + 1, [StorageAppend Log fr, StorageSync Log], Inr \<lparr>gr_status = 0, gr_response = Some fr, gr_released = True\<rparr>)"
    by (simp add: toy_engine_def)
  ultimately show ?thesis using inst_call_eq [OF assms(3,2) e, of memory_kv s] by (simp add: Let_def del: fold_simps)
qed

lemma toy_open:
  assumes "holds memory_kv s st0 f" "prefix (logRange st) = prefix (logRange st0)" "prefix (imageRange st) = prefix (imageRange st0)"
    "0 < chunkBytes (logRange st)" "0 < chunkBytes (imageRange st)"
  shows "\<exists>s' i'. inst_open memory_kv toy_engine sp (s, new_inst Durable st) = ((s', i'), Inr 0)"
proof -
  obtain g hops out i2 where o: "e_open toy_engine (f Log) (f Image) = (g, hops, out)" "agrees memory_kv s i2 f"
    "in_mode i2 = Durable" "inst_open memory_kv toy_engine sp (s, new_inst Durable st) = (case out of Inl e \<Rightarrow> ((s, i2), Inl e)
      | Inr r \<Rightarrow> (case inst_commit memory_kv (s, i2) of ((s', i3), Inl e) \<Rightarrow> ((s', i3), Inl e)
        | ((s', i3), Inr _) \<Rightarrow> ((s', if r = 0 then i3\<lparr>in_spaceId := sp, opened := True\<rparr> else i3), Inr r)))"
    using mem.inst_open_start [OF assms, of Durable toy_engine sp] by blast
  have "synced memory_kv s i2 f" using o(2,3) by (simp add: synced_iff)
  from memory_inst_commit [OF this] o(1,4) show ?thesis by (auto simp: toy_engine_def)
qed

text \<open>A storage with a byte string of five bytes in chunks of four.\<close>

definition sample_range :: range where
  "sample_range = (new_range (js ''framlog/'') 4 2)\<lparr>chunkCount := Some 2\<rparr>"

definition sample_memory :: memory where
  "sample_memory = [(metaKey sample_range, VMeta 5 4), (chunkKey sample_range 0, VBytes [1, 2, 3, 4]),
     (chunkKey sample_range 1, VBytes [5])]"

lemma sample_stored: "stored memory_kv sample_memory sample_range [1, 2, 3, 4, 5]"
proof -
  have c: "chunkBytes sample_range = 4" by (simp add: sample_range_def new_range_def)
  have "kv_get memory_kv sample_memory (chunkKey sample_range i) =
      (if i < ceil_div 5 4 then Some (VBytes (chunk 4 i [1, 2, 3, 4, 5])) else None)" for i
  proof -
    have "i < ceil_div 5 4 \<longleftrightarrow> i = 0 \<or> i = 1" by (simp add: ceil_div_def) linarith
    then show ?thesis
      by (auto simp: memory_kv_def mem_get_def sample_memory_def chunk_def)
  qed
  then have "\<forall>i. kv_get memory_kv sample_memory (chunkKey sample_range i) =
      (if i < ceil_div (length [1, 2, 3, 4, 5 :: byte]) 4 then Some (VBytes (chunk 4 i [1, 2, 3, 4, 5])) else None)"
    by (simp add: eval_nat_numeral)
  moreover have "kv_get memory_kv sample_memory (metaKey sample_range) = Some (VMeta (length [1, 2, 3, 4, 5 :: byte]) 4)"
    by (simp add: memory_kv_def mem_get_def sample_memory_def)
  ultimately show ?thesis unfolding stored_def c by simp
qed

section \<open>An object\<close>

definition sample_object :: "nat dobj" where
  "sample_object = \<lparr>do_spaceId = js ''demo'', do_chunkBytes = 4, do_batchKeys = 2, do_instance = None, do_fence = None\<rparr>"

lemma sample_object_new: "FramDurableObject (JStr (js ''demo'')) (JStr (js ''demo'')) 4 2 = Inr sample_object"
  by (simp add: FramDurableObject_def js_text_def sample_object_def ascii_js FRAM_DO_MAX_NAMED_SPACE_BYTES_def)

lemma sample_object_inv: "object_inv memory_kv (\<lambda>m. distinct (map fst m)) ([], sample_object)"
  by (rule mem.object_inv_new [OF sample_object_new]) (simp_all add: memory_kv_def mem_get_def)

text \<open>An engine that answers the status request, and an object whose log is the header of its space.\<close>

definition status_reply :: reply where
  "status_reply = sample_reply\<lparr>rp_operation := js ''rpc/status''\<rparr>"

lemma status_reply_ok: "reply_ok status_reply"
proof -
  have "length (reply_body status_reply) \<le> MAX_BODY_BYTES"
    by (simp add: reply_body_def status_reply_def sample_reply_def opt_bytes_def text_bytes_def ascii_js MAX_BODY_BYTES_def ascii_def)
  then show ?thesis
    by (simp add: reply_ok_def status_reply_def sample_reply_def opt_ok_def opt_cost_def readable_def limit_defs ascii_plain ascii_def)
qed

definition status_engine :: "nat engine" where
  "status_engine = toy_engine\<lparr>e_call := (\<lambda>entry fr g l m.
     (g, [], Inr \<lparr>gr_status = 0, gr_response = Some (reply_frame 0 status_reply), gr_released = True\<rparr>))\<rparr>"

definition export_inst :: "nat inst" where
  "export_inst = open_inst\<lparr>in_log := new_image (framlog_header (js ''demo''))\<rparr>"

definition export_object :: "nat dobj" where
  "export_object = sample_object\<lparr>do_instance := Some export_inst\<rparr>"

definition sample_digest :: "byte list \<Rightarrow> byte list" where
  "sample_digest bs = replicate 32 0"

lemma sample_header: "parseFramlogHeader (Some (framlog_header (js ''demo''))) = Inr (js ''demo'')"
proof -
  have "drop_bom (js ''demo'') = js ''demo''" by (simp add: drop_bom_def ascii_js)
  moreover have "sized_text MAX_SPACE_BYTES (js ''demo'')" by (simp add: sized_text_def ascii_js MAX_SPACE_BYTES_def)
  ultimately show ?thesis using parseFramlogHeader_header [of "js ''demo''" "[]"] by simp
qed

lemma sample_export:
  "\<exists>sd ex. exportFramlog (Some sample_digest) memory_kv status_engine ([], export_object) = (sd, Inr ex) \<and>
     ex_bytes ex = framlog_header (js ''demo'')"
proof -
  have st: "statusFrame (js ''demo'') = Inr (request_frame 0 (status_request (js ''demo'')))"
    by (rule statusFrame_request [OF textBytes_name]) (simp add: name_ok_def)
  have dec: "decodeStatusServedVersion (Some (reply_frame 0 status_reply)) (js ''demo'') = Inr (int_text 3)"
    using decodeStatus_reply [OF status_reply_ok, of "FKeyword (js ''rpc/unit'')"]
    by (simp add: status_reply_def sample_reply_def)
  have clean: "inst_commit memory_kv ([], export_inst\<lparr>in_guest := Some 0\<rparr>) = (([], export_inst\<lparr>in_guest := Some 0\<rparr>), Inr ())"
    by (simp add: inst_commit_def export_inst_def open_inst_def new_inst_def new_image_def)
  have p: "portableFramlog memory_kv status_engine ([], export_inst) =
      (([], export_inst\<lparr>in_guest := Some 0\<rparr>), Inr (framlog_header (js ''demo''), int_text 3))"
    using st dec clean
    by (simp add: portableFramlog_def callNow_def status_engine_def assertUsable_def export_inst_def open_inst_def new_inst_def)
  show ?thesis
    by (simp add: exportFramlog_def fram_def export_object_def sample_object_def p sample_header sha256Hex_def)
qed

end
