(* ===== verification/Arena.thy ===== *)
theory Arena
  imports JsNum
begin

text \<open>
  \<open>GuestArena\<close> of \<^verbatim>\<open>clients/cloudflare-do/src/adapter.mjs\<close>: the allocator the host runs inside guest memory.
  Memory is what \<open>WebAssembly.Memory\<close> and \<open>DataView\<close> give: a page count that can only grow up to a maximum,
  and bytes; growing past the maximum and an access out of bounds throw. Addresses are integers, as JavaScript
  numbers are, because \<open>& ~15\<close> is a 32-bit operation and can yield a negative one.
\<close>

section \<open>Guest memory\<close>

definition PAGE_BYTES :: nat where "PAGE_BYTES = 65536"

record wasm_memory =
  mem_pages :: nat
  mem_maximum :: nat
  mem_bytes :: "int \<Rightarrow> byte"

definition mem_size :: "wasm_memory \<Rightarrow> int" where
  "mem_size m = int (mem_pages m * PAGE_BYTES)"

text \<open>\<open>memory.grow(pages)\<close> returns the previous page count.\<close>

definition mem_grow :: "nat \<Rightarrow> wasm_memory \<Rightarrow> (nat \<times> wasm_memory) res" where
  "mem_grow n m =
     (if mem_pages m + n \<le> mem_maximum m then Inr (mem_pages m, m\<lparr>mem_pages := mem_pages m + n\<rparr>)
      else Inl JsRangeError)"

definition word_at :: "(int \<Rightarrow> byte) \<Rightarrow> int \<Rightarrow> nat" where
  "word_at f i = le_nat (map (\<lambda>k. f (i + int k)) [0..<4])"

definition put_word :: "int \<Rightarrow> nat \<Rightarrow> (int \<Rightarrow> byte) \<Rightarrow> int \<Rightarrow> byte" where
  "put_word i n f = (\<lambda>j. if i \<le> j \<and> j < i + 4 then le_bytes 4 n ! nat (j - i) else f j)"

text \<open>\<open>DataView.getUint32(i, true)\<close> and \<open>setUint32(i, n, true)\<close>\<close>

definition mem_u32 :: "int \<Rightarrow> wasm_memory \<Rightarrow> nat res" where
  "mem_u32 i m = (if i < 0 \<or> mem_size m < i + 4 then Inl JsRangeError else Inr (word_at (mem_bytes m) i))"

definition mem_set_u32 :: "int \<Rightarrow> nat \<Rightarrow> wasm_memory \<Rightarrow> wasm_memory res" where
  "mem_set_u32 i n m =
     (if i < 0 \<or> mem_size m < i + 4 then Inl JsRangeError
      else Inr (m\<lparr>mem_bytes := put_word i n (mem_bytes m)\<rparr>))"

section \<open>The allocator\<close>

definition ARENA_HEADER :: int where "ARENA_HEADER = 16"
definition ARENA_MAGIC :: nat where "ARENA_MAGIC = 0x4652414d"

record arena =
  initialPages :: nat
  growPages :: nat
  ar_base :: int
  ar_next :: int
  ar_end :: int
  ar_free :: "nat \<Rightarrow> int list"
  allocations :: nat
  deallocations :: nat
  reuses :: nat
  grows :: nat
  liveBytes :: int
  peakLiveBytes :: int

text \<open>The constructor. The absent and the empty bucket are both \<open>[]\<close>; a bucket's last element is its head.\<close>

definition new_arena :: "nat \<Rightarrow> nat \<Rightarrow> arena" where
  "new_arena initial growing =
     \<lparr>initialPages = initial, growPages = growing, ar_base = 0, ar_next = 0, ar_end = 0, ar_free = (\<lambda>_. []),
      allocations = 0, deallocations = 0, reuses = 0, grows = 0, liveBytes = 0, peakLiveBytes = 0\<rparr>"

definition arena_reserve :: "arena \<times> wasm_memory \<Rightarrow> (arena \<times> wasm_memory) res" where
  "arena_reserve am =
     (case am of (a, m) \<Rightarrow>
        rbind (mem_grow (initialPages a) m) (\<lambda>(before, m1).
          let at = int (before * PAGE_BYTES)
          in Inr (a\<lparr>ar_base := at, ar_next := at, ar_end := at + int (initialPages a * PAGE_BYTES)\<rparr>, m1)))"

text \<open>\<open>#classOf\<close>: the doubling starts at 32.\<close>

function class_from :: "int \<Rightarrow> nat \<Rightarrow> nat" where
  "class_from sz c = (if 0 < c \<and> int c < sz then class_from sz (2 * c) else c)"
  by pat_completeness auto

termination by (relation "measure (\<lambda>(sz, c). nat (sz - int c))") auto

declare class_from.simps [simp del]

definition classOf :: "int \<Rightarrow> nat" where
  "classOf sz = class_from sz 32"

text \<open>\<open>(n + 15) & ~15\<close>\<close>

definition align16 :: "int \<Rightarrow> int" where
  "align16 n = and (signed_take_bit 31 (n + 15)) (not 15)"

definition note_live :: "nat \<Rightarrow> arena \<Rightarrow> arena" where
  "note_live c a = a\<lparr>liveBytes := liveBytes a + int c,
     peakLiveBytes := max (peakLiveBytes a) (liveBytes a + int c)\<rparr>"

text \<open>The branch that grows the arena, up to the second bounds check.\<close>

definition arena_grow :: "int \<Rightarrow> arena \<times> wasm_memory \<Rightarrow> (arena \<times> wasm_memory) \<times> unit res" where
  "arena_grow need am =
     (case am of (a, m) \<Rightarrow>
        let pages = max (growPages a) (nat ((need + int PAGE_BYTES - 1) div int PAGE_BYTES))
        in case mem_grow pages m of
             Inl e \<Rightarrow> ((a, m), Inl e)
           | Inr (before, m1) \<Rightarrow>
               let fresh = int (before * PAGE_BYTES)
               in ((a\<lparr>grows := grows a + 1, ar_next := (if fresh \<noteq> ar_end a then fresh else ar_next a),
                     ar_end := fresh + int (pages * PAGE_BYTES)\<rparr>, m1), Inr ()))"

text \<open>The end of \<open>allocate\<close>: the bump pointer moves before the header is written.\<close>

definition arena_carve :: "nat \<Rightarrow> int \<Rightarrow> arena \<times> wasm_memory \<Rightarrow> (arena \<times> wasm_memory) \<times> int res" where
  "arena_carve c header am =
     (case am of (a, m) \<Rightarrow>
        let a1 = a\<lparr>ar_next := header + (ARENA_HEADER + int c)\<rparr>
        in case mem_set_u32 header c m of
             Inl e \<Rightarrow> ((a1, m), Inl e)
           | Inr m1 \<Rightarrow>
               (case mem_set_u32 (header + 4) ARENA_MAGIC m1 of
                  Inl e \<Rightarrow> ((a1, m1), Inl e)
                | Inr m2 \<Rightarrow> ((note_live c a1, m2), Inr (header + ARENA_HEADER))))"

definition arena_allocate :: "int \<Rightarrow> arena \<times> wasm_memory \<Rightarrow> (arena \<times> wasm_memory) \<times> int res" where
  "arena_allocate sz am =
     (case am of (a0, m) \<Rightarrow>
        let a = a0\<lparr>allocations := allocations a0 + 1\<rparr>; c = classOf sz
        in case ar_free a c of
             p # ps \<Rightarrow>
               ((note_live c (a\<lparr>reuses := reuses a + 1, ar_free := (ar_free a)(c := ps)\<rparr>), m), Inr p)
           | [] \<Rightarrow>
               let need = ARENA_HEADER + int c; header = align16 (ar_next a)
               in if header + need \<le> ar_end a then arena_carve c header (a, m)
                  else case arena_grow need (a, m) of
                         (am1, Inl e) \<Rightarrow> (am1, Inl e)
                       | ((a1, m1), Inr _) \<Rightarrow>
                           let header' = align16 (ar_next a1)
                           in if ar_end a1 < header' + need then ((a1, m1), Inr 0)
                              else arena_carve c header' (a1, m1))"

definition arena_deallocate :: "int \<Rightarrow> arena \<times> wasm_memory \<Rightarrow> (arena \<times> wasm_memory) \<times> unit res" where
  "arena_deallocate p am =
     (case am of (a0, m) \<Rightarrow>
        let a = a0\<lparr>deallocations := deallocations a0 + 1\<rparr>; header = p - ARENA_HEADER
        in if p = 0 then ((a, m), Inr ())
           else case mem_u32 (header + 4) m of
             Inl e \<Rightarrow> ((a, m), Inl e)
           | Inr mark \<Rightarrow>
               if mark \<noteq> ARENA_MAGIC then ((a, m), Inl PlainError)
               else case mem_u32 header m of
                 Inl e \<Rightarrow> ((a, m), Inl e)
               | Inr c \<Rightarrow>
                   ((a\<lparr>ar_free := (ar_free a)(c := p # ar_free a c), liveBytes := liveBytes a - int c\<rparr>, m), Inr ()))"

section \<open>Size classes, alignment and words\<close>

lemma class_from_bounds:
  "0 < c \<Longrightarrow> c \<le> class_from sz c \<and> sz \<le> int (class_from sz c) \<and>
    (class_from sz c = c \<or> int (class_from sz c) < 2 * sz)"
proof (induction sz c rule: class_from.induct)
  case (1 sz c)
  note step = class_from.simps [of sz c]
  show ?case
  proof (cases "int c < sz")
    case True
    with 1 have "2 * c \<le> class_from sz (2 * c) \<and> sz \<le> int (class_from sz (2 * c)) \<and>
      (class_from sz (2 * c) = 2 * c \<or> int (class_from sz (2 * c)) < 2 * sz)" by simp
    with True "1.prems" step show ?thesis by auto
  next
    case False
    with step show ?thesis by simp
  qed
qed

lemma class_from_dvd: "0 < c \<Longrightarrow> c dvd class_from sz c"
proof (induction sz c rule: class_from.induct)
  case (1 sz c)
  then show ?case
    by (subst class_from.simps) (auto intro: dvd_trans [of c "2 * c"])
qed

lemma classOf_bounds: "32 \<le> classOf sz" "sz \<le> int (classOf sz)" "32 dvd classOf sz"
  "classOf sz = 32 \<or> int (classOf sz) < 2 * sz"
  using class_from_bounds [of 32 sz] class_from_dvd [of 32 sz] by (simp_all add: classOf_def)

lemma classOf_negative: "sz \<le> 32 \<Longrightarrow> classOf sz = 32"
  by (simp add: classOf_def class_from.simps [of sz 32])

lemma and_not_15: "and x (not 15) = x div 16 * (16 :: int)"
proof -
  have "push_bit 4 (drop_bit 4 x) = and x (not (mask 4))"
    by (rule bit_eqI) (auto simp: bit_simps)
  then show ?thesis by (simp add: push_bit_eq_mult drop_bit_eq_div mask_eq_exp_minus_1)
qed

text \<open>Below two gigabytes \<open>align16\<close> rounds up to a multiple of 16; in the last 15 bytes before it, it turns negative.\<close>

lemma align16_below: "0 \<le> n \<Longrightarrow> n + 15 < 2 ^ 31 \<Longrightarrow> align16 n = (n + 15) div 16 * 16"
  using and_not_15 [of "n + 15"] by (simp add: align16_def signed_take_bit_int_eq_self)

lemma align16_bounds:
  assumes "0 \<le> n" "n + 15 < 2 ^ 31"
  shows "n \<le> align16 n" "align16 n < n + 16" "16 dvd align16 n"
  unfolding align16_below [OF assms] by presburger+

lemma word_at_put: "word_at (put_word i n f) i = n mod 2 ^ 32"
proof -
  have "map (\<lambda>k. put_word i n f (i + int k)) [0..<4] = map (\<lambda>k. le_bytes 4 n ! k) [0..<length (le_bytes 4 n)]"
    by (auto simp: put_word_def)
  then show ?thesis by (simp only: word_at_def map_nth le_nat_bytes) simp
qed

lemma word_at_put_other: "j + 4 \<le> i \<or> i + 4 \<le> j \<Longrightarrow> word_at (put_word i n f) j = word_at f j"
  by (auto simp: word_at_def put_word_def intro!: arg_cong [of _ _ le_nat])

lemma word_at_same: "(\<And>k. i \<le> k \<Longrightarrow> k < i + 4 \<Longrightarrow> f k = g k) \<Longrightarrow> word_at f i = word_at g i"
  by (auto simp: word_at_def intro!: arg_cong [of _ _ le_nat])

section \<open>The blocks\<close>

text \<open>
  A block is its pointer and its class. The blocks of a heap are placed: aligned, inside memory, outside the
  region still to be carved, their headers intact; and two of them never overlap, headers included.
\<close>

definition far :: "int \<times> nat \<Rightarrow> int \<times> nat \<Rightarrow> bool" where
  "far x y \<longleftrightarrow> fst x + int (snd x) \<le> fst y - 16 \<or> fst y + int (snd y) \<le> fst x - 16"

definition placed :: "arena \<Rightarrow> wasm_memory \<Rightarrow> int \<times> nat \<Rightarrow> bool" where
  "placed a m x \<longleftrightarrow> 16 dvd fst x \<and> 16 \<le> fst x \<and> 32 \<le> snd x \<and> fst x + int (snd x) \<le> mem_size m \<and>
     (fst x + int (snd x) \<le> ar_next a \<or> ar_end a \<le> fst x - 16) \<and>
     word_at (mem_bytes m) (fst x - 16) = snd x \<and> word_at (mem_bytes m) (fst x - 12) = ARENA_MAGIC"

definition heap_ok :: "arena \<Rightarrow> wasm_memory \<Rightarrow> (int \<times> nat) set \<Rightarrow> bool" where
  "heap_ok a m B \<longleftrightarrow> (\<forall>x \<in> B. placed a m x) \<and> (\<forall>x \<in> B. \<forall>y \<in> B. x \<noteq> y \<longrightarrow> far x y) \<and>
     0 \<le> ar_next a \<and> ar_next a \<le> ar_end a \<and> ar_end a \<le> mem_size m \<and> 16 dvd ar_end a \<and>
     mem_pages m \<le> mem_maximum m \<and> mem_maximum m \<le> 32767"

definition freed :: "arena \<Rightarrow> (int \<times> nat) set" where
  "freed a = {x. fst x \<in> set (ar_free a (snd x))}"

text \<open>The invariant, over the list of blocks the guest holds.\<close>

definition arena_inv :: "arena \<times> wasm_memory \<Rightarrow> (int \<times> nat) list \<Rightarrow> bool" where
  "arena_inv am live \<longleftrightarrow> heap_ok (fst am) (snd am) (set live \<union> freed (fst am)) \<and> distinct live \<and>
     (\<forall>c. distinct (ar_free (fst am) c)) \<and> set live \<inter> freed (fst am) = {} \<and>
     liveBytes (fst am) = sum_list (map (int \<circ> snd) live)"

lemma far_sym: "far x y \<longleftrightarrow> far y x"
  by (auto simp: far_def)

lemma mem_grow_Inr: "mem_grow n m = Inr (b, m') \<longleftrightarrow>
    b = mem_pages m \<and> mem_pages m + n \<le> mem_maximum m \<and> m' = m\<lparr>mem_pages := mem_pages m + n\<rparr>"
  by (auto simp: mem_grow_def)

lemma heap_grown:
  assumes "heap_ok a m B" "mem_pages m + n \<le> mem_maximum m"
  shows "heap_ok a (m\<lparr>mem_pages := mem_pages m + n\<rparr>) B"
  using assms by (force simp: heap_ok_def placed_def mem_size_def PAGE_BYTES_def)

lemma heap_nonnull: "heap_ok a m B \<Longrightarrow> (p, c) \<in> B \<Longrightarrow> p \<noteq> 0"
  by (force simp: heap_ok_def placed_def)

lemma heap_below: "heap_ok a m B \<Longrightarrow> ar_end a + 65536 \<le> 2 ^ 31"
  by (simp add: heap_ok_def mem_size_def PAGE_BYTES_def)

lemma arena_carve_ok:
  assumes "heap_ok a m B" "32 \<le> c" "align16 (ar_next a) + (16 + int c) \<le> ar_end a"
  defines "p \<equiv> align16 (ar_next a) + 16"
  shows "\<exists>a' m'. arena_carve c (align16 (ar_next a)) (a, m) = ((a', m'), Inr p) \<and> heap_ok a' m' (insert (p, c) B) \<and>
    (p, c) \<notin> B \<and> a' = note_live c (a\<lparr>ar_next := p + int c\<rparr>)"
proof -
  let ?h = "align16 (ar_next a)"
  have n: "0 \<le> ar_next a" "ar_next a + 15 < 2 ^ 31" using assms(1) heap_below [OF assms(1)] by (simp_all add: heap_ok_def)
  note h = align16_bounds [OF n]
  have s: "ar_end a \<le> mem_size m" "c < 2 ^ 32"
    using assms(1,3) heap_below [OF assms(1)] h(1) n(1) by (simp_all add: heap_ok_def)
  define f where "f = put_word (?h + 4) ARENA_MAGIC (put_word ?h c (mem_bytes m))"
  have c: "arena_carve c ?h (a, m) = ((note_live c (a\<lparr>ar_next := p + int c\<rparr>), m\<lparr>mem_bytes := f\<rparr>), Inr p)"
    using h(1) n(1) s assms(3)
    by (simp add: arena_carve_def mem_set_u32_def p_def f_def mem_size_def ARENA_HEADER_def Let_def add.commute add.left_commute)
  have apart: "far (p, c) x" "ar_next a \<le> fst x - 16 \<longrightarrow> p + int c \<le> fst x - 16" if "x \<in> B" for x
    using that assms(1,3) h(1) by (auto simp: heap_ok_def placed_def far_def p_def)
  have keep: "word_at f (fst x - 16) = snd x" "word_at f (fst x - 12) = ARENA_MAGIC" if "x \<in> B" for x
  proof -
    have "placed a m x" using that assms(1) by (simp add: heap_ok_def)
    moreover have "far (p, c) x" using apart(1) [OF that] .
    ultimately show "word_at f (fst x - 16) = snd x" "word_at f (fst x - 12) = ARENA_MAGIC"
      using assms(2) by (auto simp: f_def word_at_put_other placed_def far_def p_def)
  qed
  have "word_at f (p - 16) = c" "word_at f (p - 12) = ARENA_MAGIC"
  proof -
    have "p - 16 = ?h" "p - 12 = ?h + 4" by (simp_all add: p_def)
    then show "word_at f (p - 16) = c" "word_at f (p - 12) = ARENA_MAGIC"
      using s(2) by (simp_all only: f_def word_at_put) (simp_all add: word_at_put word_at_put_other ARENA_MAGIC_def)
  qed
  then have new: "placed (a\<lparr>ar_next := p + int c\<rparr>) (m\<lparr>mem_bytes := f\<rparr>) (p, c)"
    using h n(1) assms(2,3) s by (auto simp: placed_def p_def mem_size_def)
  have old: "placed (a\<lparr>ar_next := p + int c\<rparr>) (m\<lparr>mem_bytes := f\<rparr>) x" if "x \<in> B" for x
  proof -
    have "placed a m x" using that assms(1) by (simp add: heap_ok_def)
    then show ?thesis using keep [OF that] h(1) by (auto simp: placed_def p_def mem_size_def)
  qed
  have "(p, c) \<notin> B"
  proof
    assume b: "(p, c) \<in> B"
    have "far (p, c) (p, c)" using apart(1) [OF b] .
    then show False using assms(2) by (simp add: far_def)
  qed
  moreover have "heap_ok (note_live c (a\<lparr>ar_next := p + int c\<rparr>)) (m\<lparr>mem_bytes := f\<rparr>) (insert (p, c) B)"
  proof -
    have "\<forall>x \<in> insert (p, c) B. placed (note_live c (a\<lparr>ar_next := p + int c\<rparr>)) (m\<lparr>mem_bytes := f\<rparr>) x"
      using new old by (simp add: placed_def note_live_def)
    moreover have "\<forall>x \<in> B. \<forall>y \<in> B. x \<noteq> y \<longrightarrow> far x y" using assms(1) by (simp add: heap_ok_def)
    then have "\<forall>x \<in> insert (p, c) B. \<forall>y \<in> insert (p, c) B. x \<noteq> y \<longrightarrow> far x y"
      using apart(1) far_sym by blast
    moreover have "0 \<le> p + int c" "p + int c \<le> ar_end a" using assms(3) h(1) n(1) by (simp_all add: p_def)
    ultimately show ?thesis using assms(1) by (simp add: heap_ok_def note_live_def mem_size_def)
  qed
  ultimately show ?thesis using c by blast
qed

lemma arena_grow_ok:
  assumes "heap_ok a m B" "0 \<le> need"
  shows "(\<exists>e. arena_grow need (a, m) = ((a, m), Inl e)) \<or>
    (\<exists>a' m'. arena_grow need (a, m) = ((a', m'), Inr ()) \<and> heap_ok a' m' B \<and>
      align16 (ar_next a') + need \<le> ar_end a' \<and> a' = a\<lparr>grows := grows a + 1, ar_next := ar_next a', ar_end := ar_end a'\<rparr>)"
proof -
  define pages where "pages = max (growPages a) (nat ((need + int PAGE_BYTES - 1) div int PAGE_BYTES))"
  have need: "need \<le> int (pages * PAGE_BYTES)"
  proof -
    have "(need + int PAGE_BYTES - 1) div int PAGE_BYTES \<le> int pages" by (simp add: pages_def)
    then show ?thesis by (simp add: PAGE_BYTES_def) 
  qed
  show ?thesis
  proof (cases "mem_pages m + pages \<le> mem_maximum m")
    case False
    then show ?thesis by (simp add: arena_grow_def mem_grow_def pages_def)
  next
    case True
    let ?m = "m\<lparr>mem_pages := mem_pages m + pages\<rparr>"
    define nx where "nx = (if mem_size m \<noteq> ar_end a then mem_size m else ar_next a)"
    define a' where "a' = a\<lparr>grows := grows a + 1, ar_next := nx, ar_end := mem_size m + int (pages * PAGE_BYTES)\<rparr>"
    have g: "arena_grow need (a, m) = ((a', ?m), Inr ())"
      using True by (simp add: arena_grow_def mem_grow_def pages_def a'_def nx_def mem_size_def Let_def)
    have sz: "mem_size ?m = mem_size m + int (pages * PAGE_BYTES)" by (simp add: mem_size_def PAGE_BYTES_def)
    have grown: "mem_size m \<le> mem_size ?m" by (simp add: sz PAGE_BYTES_def)
    have nx: "0 \<le> nx" "nx \<le> mem_size m" "nx = mem_size m \<or> mem_size m = ar_end a \<and> nx = ar_next a"
      using assms(1) by (auto simp: heap_ok_def nx_def mem_size_def)
    have p: "placed a' ?m x" if "x \<in> B" for x
    proof -
      have "placed a m x" using that assms(1) by (simp add: heap_ok_def)
      then have "fst x + int (snd x) \<le> nx" using nx(3) by (auto simp: placed_def)
      with \<open>placed a m x\<close> show ?thesis
        using grown by (simp add: placed_def a'_def)
    qed
    have d: "16 dvd mem_size m" "16 dvd int (pages * PAGE_BYTES)" by (simp_all add: mem_size_def PAGE_BYTES_def)
    then have ok: "heap_ok a' ?m B"
      using p assms(1) True nx sz order_trans [OF nx(2) grown] by (simp add: heap_ok_def a'_def)
    have "align16 nx \<le> mem_size m"
    proof -
      have "nx + 15 < 2 ^ 31" using nx(2) assms(1) by (simp add: heap_ok_def mem_size_def PAGE_BYTES_def)
      from align16_bounds(2,3) [OF nx(1) this] show ?thesis using nx(2) d(1) by presburger
    qed
    then have "align16 (ar_next a') + need \<le> ar_end a'" using need by (simp add: a'_def)
    moreover have "a' = a\<lparr>grows := grows a + 1, ar_next := ar_next a', ar_end := ar_end a'\<rparr>" by (simp add: a'_def)
    ultimately show ?thesis using g ok by blast
  qed
qed

lemma arena_allocate_ok:
  assumes "arena_inv (a, m) live"
  shows "(\<exists>am' e. arena_allocate sz (a, m) = (am', Inl e) \<and> arena_inv am' live) \<or>
    (\<exists>am' p. arena_allocate sz (a, m) = (am', Inr p) \<and> arena_inv am' ((p, classOf sz) # live) \<and> p \<noteq> 0)"
proof -
  let ?c = "classOf sz" and ?a = "a\<lparr>allocations := allocations a + 1\<rparr>"
  let ?B = "set live \<union> freed a"
  have inv: "heap_ok ?a m ?B" "distinct live" "\<forall>c. distinct (ar_free a c)" "set live \<inter> freed a = {}"
    "liveBytes a = sum_list (map (int \<circ> snd) live)"
    using assms by (auto simp: arena_inv_def heap_ok_def placed_def)
  show ?thesis
  proof (cases "ar_free a ?c")
    case (Cons p ps)
    let ?a' = "note_live ?c (?a\<lparr>reuses := reuses a + 1, ar_free := (ar_free a)(?c := ps)\<rparr>)"
    have "arena_allocate sz (a, m) = ((?a', m), Inr p)" using Cons by (simp add: arena_allocate_def Let_def)
    moreover have free: "(p, ?c) \<in> freed a" using Cons by (simp add: freed_def)
    moreover have "distinct (p # ps)" using inv(3) Cons by metis
    then have "freed ?a' = freed a - {(p, ?c)}" using Cons by (auto simp: freed_def note_live_def split: if_splits)
    moreover have "heap_ok ?a' m ?B" using inv(1) by (simp add: heap_ok_def placed_def note_live_def)
    moreover have "\<forall>c. distinct (ar_free ?a' c)" using inv(3) \<open>distinct (p # ps)\<close> by (simp add: note_live_def)
    moreover have "p \<noteq> 0" using heap_nonnull [OF inv(1), of p ?c] free by simp
    moreover have "set ((p, ?c) # live) \<union> (freed a - {(p, ?c)}) = ?B" using free by auto
    moreover have "liveBytes ?a' = liveBytes a + int ?c" by (simp add: note_live_def)
    ultimately show ?thesis using inv by (intro disjI2 exI [of _ "(?a', m)"] exI [of _ p]) (auto simp: arena_inv_def)
  next
    case Nil
    have carved: "\<exists>am' p. arena_carve ?c (align16 (ar_next b)) (b, m') = (am', Inr p) \<and> arena_inv am' ((p, ?c) # live) \<and> p \<noteq> 0"
      if h: "heap_ok b m' ?B" "align16 (ar_next b) + (16 + int ?c) \<le> ar_end b" "ar_free b = ar_free a" "liveBytes b = liveBytes a"
      for b m'
    proof -
      let ?p = "align16 (ar_next b) + 16"
      obtain b' m2 where c: "arena_carve ?c (align16 (ar_next b)) (b, m') = ((b', m2), Inr ?p)"
        "heap_ok b' m2 (insert (?p, ?c) ?B)" "(?p, ?c) \<notin> ?B" "b' = note_live ?c (b\<lparr>ar_next := ?p + int ?c\<rparr>)"
        using arena_carve_ok [OF h(1) classOf_bounds(1) h(2)] by blast
      have "freed b' = freed a" "ar_free b' = ar_free a" "liveBytes b' = liveBytes a + int ?c"
        using c(4) h(3,4) by (simp_all add: freed_def note_live_def)
      moreover have "?p \<noteq> 0" using heap_nonnull [OF c(2), of ?p ?c] by simp
      ultimately show ?thesis using c inv(2-5) by (auto simp: arena_inv_def)
    qed
    show ?thesis
    proof (cases "align16 (ar_next a) + (16 + int ?c) \<le> ar_end a")
      case True
      with Nil carved [OF inv(1)] show ?thesis by (simp add: arena_allocate_def Let_def ARENA_HEADER_def)
    next
      case False
      consider e where "arena_grow (16 + int ?c) (?a, m) = ((?a, m), Inl e)"
        | b m' where "arena_grow (16 + int ?c) (?a, m) = ((b, m'), Inr ())" "heap_ok b m' ?B"
          "align16 (ar_next b) + (16 + int ?c) \<le> ar_end b" "b = ?a\<lparr>grows := grows ?a + 1, ar_next := ar_next b, ar_end := ar_end b\<rparr>"
        using arena_grow_ok [OF inv(1), of "16 + int ?c"] by (auto simp del: arena.select_convs)
      then show ?thesis
      proof cases
        case 1
        then have "arena_allocate sz (a, m) = ((?a, m), Inl e)"
          using Nil False by (simp add: arena_allocate_def Let_def ARENA_HEADER_def)
        moreover have "arena_inv (?a, m) live" using inv by (simp add: arena_inv_def freed_def)
        ultimately show ?thesis by blast
      next
        case 2
        have "ar_free b = ar_free a" "liveBytes b = liveBytes a" by (subst 2(4), simp)+
        from carved [OF 2(2,3) this] 2(1,3) Nil False show ?thesis
          by (simp add: arena_allocate_def Let_def ARENA_HEADER_def)
      qed
    qed
  qed
qed

lemma arena_deallocate_ok:
  assumes "arena_inv (a, m) live" "(p, c) \<in> set live"
  shows "\<exists>am'. arena_deallocate p (a, m) = (am', Inr ()) \<and> arena_inv am' (remove1 (p, c) live)"
proof -
  have x: "placed a m (p, c)" using assms by (auto simp: arena_inv_def heap_ok_def)
  let ?a = "a\<lparr>deallocations := deallocations a + 1, ar_free := (ar_free a)(c := p # ar_free a c), liveBytes := liveBytes a - int c\<rparr>"
  have "arena_deallocate p (a, m) = ((?a, m), Inr ())"
    using x by (auto simp: arena_deallocate_def placed_def mem_u32_def ARENA_HEADER_def Let_def)
  moreover have "freed ?a = insert (p, c) (freed a)" by (auto simp: freed_def split: if_splits)
  moreover have s: "set live = insert (p, c) (set (remove1 (p, c) live))" "(p, c) \<notin> set (remove1 (p, c) live)"
    using assms by (auto simp: arena_inv_def)
  moreover have "sum_list (map (int \<circ> snd) (remove1 (p, c) live)) = sum_list (map (int \<circ> snd) live) - int c"
    using sum_list_map_remove1 [OF assms(2), of "int \<circ> snd"] by simp
  moreover have "distinct (ar_free ?a e)" for e
  proof -
    have "distinct (ar_free a e)" "(p, c) \<notin> freed a"
      using assms(1) s(1) unfolding arena_inv_def by auto
    then show ?thesis by (cases "e = c") (simp_all add: freed_def)
  qed
  moreover have "heap_ok ?a m B \<longleftrightarrow> heap_ok a m B" for B by (simp add: heap_ok_def placed_def)
  moreover have "set (remove1 (p, c) live) \<union> insert (p, c) (freed a) = set live \<union> freed a" using s(1) by blast
  moreover have "set (remove1 (p, c) live) \<inter> insert (p, c) (freed a) = {}"
  proof -
    have "set live \<inter> freed a = {}" using assms(1) by (simp add: arena_inv_def)
    with s show ?thesis by blast
  qed
  moreover have "liveBytes ?a = liveBytes a - int c" by simp
  moreover have "arena_inv (?a, m) (remove1 (p, c) live)"
    unfolding arena_inv_def fst_conv snd_conv calculation(2,5,7,8,10) using assms(1) calculation(6,9)
    by (simp add: arena_inv_def)
  ultimately show ?thesis by blast
qed

section \<open>Runs\<close>

text \<open>
  What can happen to the arena: calls of the guest's hooks, where the guest frees only blocks it holds, and the guest's
  own growth of memory and writes, which stay off the headers.
\<close>

inductive arena_step ::
  "(arena \<times> wasm_memory) \<times> (int \<times> nat) list \<Rightarrow> (arena \<times> wasm_memory) \<times> (int \<times> nat) list \<Rightarrow> bool" where
  Allocated: "arena_allocate sz am = (am', Inr p) \<Longrightarrow> arena_step (am, live) (am', (p, classOf sz) # live)"
| Refused: "arena_allocate sz am = (am', Inl e) \<Longrightarrow> arena_step (am, live) (am', live)"
| Freed: "(p, c) \<in> set live \<Longrightarrow> arena_deallocate p am = (am', r) \<Longrightarrow> arena_step (am, live) (am', remove1 (p, c) live)"
| Grown: "mem_grow n m = Inr (b, m') \<Longrightarrow> arena_step ((a, m), live) ((a, m'), live)"
| Written: "(\<forall>x \<in> set live \<union> freed a. i < fst x - 16 \<or> fst x \<le> i) \<Longrightarrow>
    arena_step ((a, m), live) ((a, m\<lparr>mem_bytes := (mem_bytes m)(i := v)\<rparr>), live)"

lemma arena_reserved:
  assumes "arena_reserve (new_arena i n, m) = Inr (a, m')" "mem_pages m \<le> mem_maximum m" "mem_maximum m \<le> 32767"
  shows "arena_inv (a, m') []"
  using assms
  by (auto simp: arena_reserve_def new_arena_def mem_grow_Inr res_simps Let_def arena_inv_def heap_ok_def freed_def mem_size_def
      PAGE_BYTES_def)

lemma arena_step_inv: "arena_step s t \<Longrightarrow> arena_inv (fst s) (snd s) \<Longrightarrow> arena_inv (fst t) (snd t)"
proof (induction rule: arena_step.induct)
  case (Allocated sz am am' p live)
  then show ?case using arena_allocate_ok [of "fst am" "snd am" live sz] by auto
next
  case (Refused sz am am' e live)
  then show ?case using arena_allocate_ok [of "fst am" "snd am" live sz] by auto
next
  case (Freed p c live am am' r)
  then show ?case using arena_deallocate_ok [of "fst am" "snd am" live p c] by auto
next
  case (Grown n m b m' a live)
  then show ?case using heap_grown [of a m _ n] by (auto simp: arena_inv_def mem_grow_Inr)
next
  case (Written live a i m v)
  let ?m = "m\<lparr>mem_bytes := (mem_bytes m)(i := v)\<rparr>"
  have "placed a ?m x" if "x \<in> set live \<union> freed a" "placed a m x" for x
  proof -
    have "i < fst x - 16 \<or> fst x \<le> i" using Written.hyps that(1) by blast
    then have "word_at ((mem_bytes m)(i := v)) (fst x - 16) = word_at (mem_bytes m) (fst x - 16)"
      "word_at ((mem_bytes m)(i := v)) (fst x - 12) = word_at (mem_bytes m) (fst x - 12)"
      by (auto intro!: word_at_same)
    with that(2) show ?thesis by (simp add: placed_def mem_size_def)
  qed
  with Written.prems show ?case by (simp add: arena_inv_def heap_ok_def mem_size_def)
qed

lemma arena_steps_inv: "arena_step\<^sup>*\<^sup>* s t \<Longrightarrow> arena_inv (fst s) (snd s) \<Longrightarrow> arena_inv (fst t) (snd t)"
  by (induction rule: rtranclp_induct) (auto dest: arena_step_inv)

section \<open>What the guest can rely on\<close>

text \<open>
  C16 (safety). After \<open>reserve\<close> on a memory below two gigabytes, and any run of hook calls, growth and writes of the
  guest, a pointer \<open>allocate\<close> returns is not null and 16-aligned, has the requested size inside memory, keeps clear of every
  block the guest holds (headers included), can be freed, and \<open>liveBytes\<close> is the sum of the blocks held.
\<close>

theorem arena_blocks_apart:
  assumes "arena_reserve (new_arena i n, m) = Inr am0" "mem_pages m \<le> mem_maximum m" "mem_maximum m \<le> 32767"
    "arena_step\<^sup>*\<^sup>* (am0, []) (am, live)" "arena_allocate sz am = (am', Inr p)"
  shows "16 dvd p \<and> 16 \<le> p \<and> sz \<le> int (classOf sz) \<and> p + int (classOf sz) \<le> mem_size (snd am') \<and>
    (\<forall>(q, c) \<in> set live. p + int (classOf sz) \<le> q - 16 \<or> q + int c \<le> p - 16) \<and>
    liveBytes (fst am') = int (classOf sz) + sum_list (map (int \<circ> snd) live) \<and>
    (\<exists>am''. arena_deallocate p am' = (am'', Inr ()))"
proof -
  obtain a' m' where am': "am' = (a', m')" by (cases am')
  have "arena_inv am0 []" using arena_reserved [of i n m "fst am0" "snd am0"] assms(1-3) by simp
  from arena_steps_inv [OF assms(4)] this have "arena_inv am live" by simp
  from arena_step_inv [OF Allocated [OF assms(5), of live]] this
  have inv: "arena_inv (a', m') ((p, classOf sz) # live)" by (simp add: am')
  then have B: "placed a' m' (p, classOf sz)" "(p, classOf sz) \<notin> set live"
    "\<forall>x \<in> set live. x \<noteq> (p, classOf sz) \<longrightarrow> far (p, classOf sz) x"
    by (auto simp: arena_inv_def heap_ok_def)
  have "far (p, classOf sz) x" if "x \<in> set live" for x using B that by metis
  then have "\<forall>(q, c) \<in> set live. p + int (classOf sz) \<le> q - 16 \<or> q + int c \<le> p - 16" by (force simp: far_def)
  with B(1) inv classOf_bounds(2) [of sz] arena_deallocate_ok [OF inv, of p "classOf sz"] show ?thesis
    by (auto simp: am' placed_def arena_inv_def)
qed

definition sample_arena :: "arena \<times> wasm_memory" where
  "sample_arena = ((new_arena 1 1)\<lparr>ar_base := 65536, ar_next := 65536, ar_end := 131072\<rparr>,
     \<lparr>mem_pages = 2, mem_maximum = 10, mem_bytes = (\<lambda>_. 0)\<rparr>)"

lemma sample_classes: "classOf 40 = 64" "classOf 70000 = 131072"
  by (simp_all add: classOf_def class_from.simps)

lemmas sample_eval = sample_arena_def new_arena_def arena_allocate_def arena_carve_def arena_grow_def mem_grow_def mem_set_u32_def
  mem_size_def note_live_def sample_classes align16_below ARENA_HEADER_def PAGE_BYTES_def Let_def

theorem arena_blocks_apart_witness:
  "\<exists>am'. arena_allocate 70000 (fst (arena_allocate 40 sample_arena)) = (am', Inr 65632) \<and> liveBytes (fst am') = 131136"
proof -
  let ?one = "arena_allocate 40 sample_arena" and ?m = "\<lparr>mem_pages = 1, mem_maximum = 10, mem_bytes = (\<lambda>_. 0)\<rparr>"
  have reserved: "arena_reserve (new_arena 1 1, ?m) = Inr sample_arena"
    by (simp add: sample_arena_def arena_reserve_def mem_grow_def new_arena_def PAGE_BYTES_def)
  have "?one = (fst ?one, Inr 65552)" by (simp add: sample_eval)
  then have step: "arena_step\<^sup>*\<^sup>* (sample_arena, []) (fst ?one, [(65552, classOf 40)])"
    by (intro r_into_rtranclp Allocated)
  have two: "arena_allocate 70000 (fst ?one) = (fst (arena_allocate 70000 (fst ?one)), Inr 65632)" by (simp add: sample_eval)
  from arena_blocks_apart [OF reserved _ _ step two] have "liveBytes (fst (fst (arena_allocate 70000 (fst ?one)))) = 131136"
    by (simp add: sample_classes)
  with two show ?thesis by blast
qed

end
