(* ===== verification/Json.thy ===== *)
theory Json
  imports FramTerm
begin

text \<open>
  \<open>JSON.stringify\<close> on Terms, and the comparisons of \<^verbatim>\<open>clients/bun/schema.mjs\<close> that rest on it: \<open>termKey\<close>,
  \<open>sameTerm\<close>, \<open>identityKey\<close>, \<open>distinctTerms\<close>. The lemmas say that on canonical arrays the text determines the
  Term, so these comparisons are comparisons of Terms, and what they do on the other arrays \<open>term\<close> lets through.
\<close>

section \<open>Strings\<close>

text \<open>
  The escapes of \<open>JSON.stringify\<close>: a short one for the quote, the backslash and five control characters, \<open>\\uXXXX\<close>
  for the other control characters and for unpaired surrogates, nothing for the rest.
\<close>

definition json_escape :: "16 word \<Rightarrow> jstr" where
  "json_escape u =
     (case map_of [(34, 34), (92, 92), (8, 98), (9, 116), (10, 110), (12, 102), (13, 114)] (unat u) of
        Some c \<Rightarrow> [92, word_of_nat c]
      | None \<Rightarrow> 92 # 117 # pad_start 4 (nat_text 16 (unat u)))"

definition json_unit :: "16 word \<Rightarrow> jstr" where
  "json_unit u = (if unat u < 32 \<or> u = 34 \<or> u = 92 \<or> surrogate (unat u) then json_escape u else [u])"

fun json_units :: "jstr \<Rightarrow> jstr" where
  "json_units [] = []"
| "json_units [u] = json_unit u"
| "json_units (u # v # us) =
     (if high_surrogate (unat u) \<and> low_surrogate (unat v) then u # v # json_units us
      else json_unit u @ json_units (v # us))"

definition json_quote :: "jstr \<Rightarrow> jstr" where
  "json_quote s = 34 # json_units s @ [34]"

section \<open>Values\<close>

fun join_with :: "'a \<Rightarrow> 'a list list \<Rightarrow> 'a list" where
  "join_with c [] = []"
| "join_with c [x] = x"
| "join_with c (x # y # xs) = x @ c # join_with c (y # xs)"

text \<open>
  The values a Term array can contain. A bigint has no JSON form and throws; other values never get here,
  because \<open>term\<close> has let the array through (lemma \<open>json_text_denotes\<close>).
\<close>

fun json_text :: "jsval \<Rightarrow> jstr res" where
  "json_text (JStr s) = Inr (json_quote s)"
| "json_text (JBool b) = Inr (js (if b then ''true'' else ''false''))"
| "json_text (JNum b) = (case safe_int b of Some z \<Rightarrow> Inr (int_text z) | None \<Rightarrow> Inl PlainError)"
| "json_text (JBigInt z) = Inl JsTypeError"
| "json_text (JArr vs) = rbind (rmap json_text vs) (\<lambda>ts. Inr (91 # join_with 44 ts @ [93]))"
| "json_text JNull = Inr (js ''null'')"
| "json_text v = Inl PlainError"

definition termKey :: "jsval \<Rightarrow> jstr res" where
  "termKey v = json_text v"

text \<open>\<open>JSON.stringify([left, right])\<close>: the key of an identity and of a cell.\<close>

definition pairKey :: "jsval \<Rightarrow> jsval \<Rightarrow> jstr res" where
  "pairKey a b = json_text (JArr [a, b])"

definition sameTerm :: "jsval \<Rightarrow> jsval \<Rightarrow> bool res" where
  "sameTerm a b = rbind (termKey a) (\<lambda>x. rbind (termKey b) (\<lambda>y. Inr (x = y)))"

fun distinct_from :: "jstr list \<Rightarrow> jsval list \<Rightarrow> jsval list res" where
  "distinct_from seen [] = Inr []"
| "distinct_from seen (v # vs) =
     rbind (termKey v) (\<lambda>k.
       if k \<in> set seen then distinct_from seen vs
       else rbind (distinct_from (k # seen) vs) (\<lambda>ds. Inr (v # ds)))"

definition distinctTerms :: "jsval list \<Rightarrow> jsval list res" where
  "distinctTerms = distinct_from []"

text \<open>\<open>values.some(v => sameTerm(v, x))\<close>\<close>

fun someSame :: "jsval list \<Rightarrow> jsval \<Rightarrow> bool res" where
  "someSame [] x = Inr False"
| "someSame (v # vs) x = rbind (sameTerm v x) (\<lambda>b. if b then Inr True else someSame vs x)"

section \<open>Quoted strings can be told apart\<close>

lemma pad_hex_length: "n < 65536 \<Longrightarrow> length (pad_start 4 (nat_text 16 n)) = 4"
  using to_digits_length [of 16 n 4] by (simp add: pad_start_def nat_text_def)

lemma pad_hex_inject: "pad_start 4 (nat_text 16 m) = pad_start 4 (nat_text 16 n) \<Longrightarrow> m = n"
  by (drule arg_cong [of _ _ "text_nat 16"]) simp

text \<open>A code unit is written as itself or escaped; either way the text ahead tells which unit it was.\<close>

definition piece :: "jstr \<Rightarrow> 16 word \<Rightarrow> bool" where
  "piece p u \<longleftrightarrow> p = [u] \<and> u \<noteq> 34 \<and> u \<noteq> 92 \<and> 32 \<le> unat u \<or> p = json_escape u"

lemma piece_unit: "piece (json_unit u) u"
  by (auto simp: piece_def json_unit_def)

lemma json_units_pieces: "\<exists>ps. json_units s = concat ps \<and> list_all2 piece ps s"
proof (induction s rule: json_units.induct)
  case (2 u)
  then show ?case using piece_unit [of u] by (intro exI [of _ "[json_unit u]"]) simp
next
  case (3 u v us)
  show ?case
  proof (cases "high_surrogate (unat u) \<and> low_surrogate (unat v)")
    case True
    then obtain ps where ps: "json_units us = concat ps" "list_all2 piece ps us" using 3 by blast
    have "piece [u] u" "piece [v] v" using True by (auto simp: piece_def high_surrogate_def low_surrogate_def)
    with ps True show ?thesis by (intro exI [of _ "[u] # [v] # ps"]) simp
  next
    case False
    then obtain ps where "json_units (v # us) = concat ps" "list_all2 piece ps (v # us)" using 3 by blast
    with False piece_unit [of u] show ?thesis by (intro exI [of _ "json_unit u # ps"]) auto
  qed
qed simp

lemma short_escape_not_hex:
  "map_of [(34, 34), (92, 92), (8, 98), (9, 116), (10, 110), (12, 102), (13, 114)] (n :: nat) = Some c \<Longrightarrow>
    c \<noteq> (117 :: nat) \<and> c < 256 \<and> n = (if c = 98 then 8 else if c = 116 then 9 else if c = 110 then 10 else if c = 102 then 12
      else if c = 114 then 13 else c)"
  by (auto split: if_splits)

lemma escape_inject: "json_escape u @ x = json_escape v @ y \<Longrightarrow> u = v \<and> x = y"
proof -
  let ?m = "map_of [(34, 34), (92, 92), (8, 98), (9, 116), (10, 110), (12, 102), (13, 114)] :: nat \<Rightarrow> nat option"
  assume e: "json_escape u @ x = json_escape v @ y"
  have unit: "a = b" if "unat (a :: 16 word) = unat b" for a b using that word_unat_eq_iff by blast
  have len: "length (pad_start 4 (nat_text 16 (unat w))) = 4" for w :: "16 word"
    using pad_hex_length [of "unat w"] unat_16_less [of w] by blast
  consider (short) c d where "?m (unat u) = Some c" "?m (unat v) = Some d"
    | (first) c where "?m (unat u) = Some c" "?m (unat v) = None"
    | (second) d where "?m (unat u) = None" "?m (unat v) = Some d"
    | (long) "?m (unat u) = None" "?m (unat v) = None" by fastforce
  then show ?thesis
  proof cases
    case short
    note c = short_escape_not_hex [OF short(1)] and d = short_escape_not_hex [OF short(2)]
    have w: "(word_of_nat c :: 16 word) = word_of_nat d" "x = y"
      using e unfolding json_escape_def short by simp_all
    have "unat (word_of_nat c :: 16 word) = c" "unat (word_of_nat d :: 16 word) = d" using c d by simp_all
    with w have "c = d" by metis
    with c d have "unat u = unat v" by metis
    with w unit show ?thesis by blast
  next
    case first
    have "(word_of_nat c :: 16 word) = 117" using e unfolding json_escape_def first by simp
    then have "unat (word_of_nat c :: 16 word) = 117" by simp
    with short_escape_not_hex [OF first(1)] show ?thesis by simp
  next
    case second
    have "(word_of_nat d :: 16 word) = 117" using e unfolding json_escape_def second by simp
    then have "unat (word_of_nat d :: 16 word) = 117" by simp
    with short_escape_not_hex [OF second(2)] show ?thesis by simp
  next
    case long
    have "pad_start 4 (nat_text 16 (unat u)) = pad_start 4 (nat_text 16 (unat v)) \<and> x = y"
      using e len [of u] len [of v] unfolding json_escape_def long by simp
    with pad_hex_inject unit show ?thesis by blast
  qed
qed

lemma escape_head: "\<exists>p. json_escape u = 92 # p"
  by (simp add: json_escape_def split: option.splits)

lemma piece_inject:
  assumes "piece p u" "piece q v" "p @ x = q @ y"
  shows "u = v \<and> x = y"
proof -
  obtain a b where "json_escape u = 92 # a" "json_escape v = 92 # b" using escape_head by blast
  with assms escape_inject [of u x v y] show ?thesis by (auto simp: piece_def)
qed

lemma piece_head: "piece p u \<Longrightarrow> \<exists>h q. p = h # q \<and> h \<noteq> 34"
  using escape_head [of u] by (auto simp: piece_def)

lemma pieces_inject:
  assumes "list_all2 piece ps s" "list_all2 piece qs t" "concat ps @ 34 # x = concat qs @ 34 # y"
  shows "s = t \<and> x = y"
  using assms
proof (induction ps s arbitrary: qs t rule: list_all2_induct)
  case Nil
  show ?case
  proof (cases qs)
    case (Cons q qs')
    with Nil obtain v where "piece q v" by (auto simp: list_all2_Cons1)
    from piece_head [OF this] Nil Cons show ?thesis by auto
  qed (use Nil in auto)
next
  case (Cons p ps u s)
  show ?case
  proof (cases qs)
    case Nil
    with piece_head [OF Cons.hyps(1)] Cons.prems show ?thesis by auto
  next
    case (Cons q qs')
    with Cons.prems obtain v t' where v: "t = v # t'" "piece q v" "list_all2 piece qs' t'" by (auto simp: list_all2_Cons1)
    with piece_inject [OF Cons.hyps(1) v(2)] Cons.prems Cons
    have "u = v" "concat ps @ 34 # x = concat qs' @ 34 # y" by force+
    with Cons.IH [OF v(3)] v(1) show ?thesis by simp
  qed
qed

lemma json_quote_inject [simp]: "json_quote s @ x = json_quote t @ y \<longleftrightarrow> s = t \<and> x = y"
proof
  assume e: "json_quote s @ x = json_quote t @ y"
  obtain ps qs where "json_units s = concat ps" "list_all2 piece ps s" "json_units t = concat qs" "list_all2 piece qs t"
    using json_units_pieces by blast
  with e pieces_inject [of ps s qs t x y] show "s = t \<and> x = y" by (simp add: json_quote_def)
qed simp

section \<open>The key of a Term\<close>

fun key_text :: "fterm \<Rightarrow> jstr" where
  "key_text (FString s) = 91 # json_quote (js ''string'') @ 44 # json_quote s @ [93]"
| "key_text (FInteger z) = 91 # json_quote (js ''integer'') @ 44 # json_quote (int_text z) @ [93]"
| "key_text (FFloat b) = 91 # json_quote (js ''float64'') @ 44 # json_quote (float_text b) @ [93]"
| "key_text (FBoolean b) = 91 # json_quote (js ''boolean'') @ 44 # js (if b then ''true'' else ''false'') @ [93]"
| "key_text (FKeyword s) = 91 # json_quote (js ''keyword'') @ 44 # json_quote s @ [93]"
| "key_text (FInstant sec ns) =
     91 # json_quote (js ''instant'') @ 44 # json_quote (int_text sec) @ 44 # json_quote (int_text ns) @ [93]"
| "key_text (FTriple a b c) =
     91 # json_quote (js ''triple'') @ 44 # key_text a @ 44 # key_text b @ 44 # key_text c @ [93]"

lemma termKey_rep [simp]: "termKey (rep_term t) = Inr (key_text t)"
  unfolding termKey_def by (induction t) simp_all

lemma truth_text: "js ''true'' = [116, 114, 117, 101]" "js ''false'' = [102, 97, 108, 115, 101]"
  by (simp_all add: js_def)

lemma key_text_inject_append: "key_text t @ x = key_text u @ y \<Longrightarrow> t = u \<and> x = y"
proof (induction t arbitrary: u x y)
  case (FBoolean b)
  then show ?case by (cases u) (auto simp: truth_text split: if_splits)
next
  case (FTriple a b c)
  from FTriple.prems obtain a' b' c' where u: "u = FTriple a' b' c'" by (cases u) auto
  with FTriple.prems have e: "key_text a @ (44 # key_text b @ 44 # key_text c @ 93 # x) =
      key_text a' @ (44 # key_text b' @ 44 # key_text c' @ 93 # y)" by simp
  from FTriple.IH(1) [OF e] have a: "a = a'" and e: "key_text b @ (44 # key_text c @ 93 # x) =
      key_text b' @ (44 # key_text c' @ 93 # y)" by simp_all
  from FTriple.IH(2) [OF e] have b: "b = b'" and e: "key_text c @ (93 # x) = key_text c' @ (93 # y)" by simp_all
  from FTriple.IH(3) [OF e] a b u show ?case by simp
next
  case (FString s)
  then show ?case by (cases u) simp_all
next
  case (FInteger s)
  then show ?case by (cases u) simp_all
next
  case (FFloat s)
  then show ?case by (cases u) simp_all
next
  case (FKeyword s)
  then show ?case by (cases u) simp_all
next
  case (FInstant s n)
  then show ?case by (cases u) simp_all
qed

lemma key_text_inject [simp]: "key_text t = key_text u \<longleftrightarrow> t = u"
  using key_text_inject_append [of t "[]" u "[]"] by auto

lemma sameTerm_rep [simp]: "sameTerm (rep_term t) (rep_term u) = Inr (t = u)"
  by (simp add: sameTerm_def)

definition pair_text :: "fterm \<Rightarrow> fterm \<Rightarrow> jstr" where
  "pair_text t u = 91 # key_text t @ 44 # key_text u @ [93]"

lemma pairKey_rep [simp]: "pairKey (rep_term t) (rep_term u) = Inr (pair_text t u)"
  using termKey_rep [of t] termKey_rep [of u] by (simp add: pairKey_def pair_text_def termKey_def)

lemma pair_text_inject [simp]: "pair_text t u = pair_text t' u' \<longleftrightarrow> t = t' \<and> u = u'"
proof
  assume "pair_text t u = pair_text t' u'"
  then have e: "key_text t @ (44 # key_text u @ [93]) = key_text t' @ (44 # key_text u' @ [93])" by (simp add: pair_text_def)
  from key_text_inject_append [OF this] key_text_inject_append [of u "[93]" u' "[93]"] show "t = t' \<and> u = u'" by simp
qed simp

text \<open>The distinct Terms of a list, each at its first place.\<close>

fun firsts :: "'a list \<Rightarrow> 'a list \<Rightarrow> 'a list" where
  "firsts seen [] = []"
| "firsts seen (t # ts) = (if t \<in> set seen then firsts seen ts else t # firsts (t # seen) ts)"

lemma set_firsts: "set (firsts seen ts) = set ts - set seen"
  by (induction seen ts rule: firsts.induct) auto

lemma distinct_firsts: "distinct (firsts seen ts)"
  by (induction seen ts rule: firsts.induct) (auto simp: set_firsts)

lemma length_firsts: "length (firsts seen ts) \<le> length ts"
  by (induction seen ts rule: firsts.induct) auto

lemma remdups_snoc: "remdups (xs @ [x]) = [y \<leftarrow> remdups xs. y \<noteq> x] @ [x]"
  by (induction xs) auto

lemma firsts_filter: "firsts seen ts = [t \<leftarrow> rev (remdups (rev ts)). t \<notin> set seen]"
  by (induction seen ts rule: firsts.induct)
    (auto simp: remdups_snoc rev_filter [symmetric] intro!: filter_cong)

lemma firsts_remdups: "firsts [] ts = rev (remdups (rev ts))"
  by (simp add: firsts_filter)

lemma distinct_from_rep:
  "distinct_from (map key_text seen) (map rep_term ts) = Inr (map rep_term (firsts seen ts))"
proof (induction seen ts rule: firsts.induct)
  case (2 seen t ts)
  have "key_text t \<in> set (map key_text seen) \<longleftrightarrow> t \<in> set seen" by auto
  with 2 show ?case by auto
qed simp

lemma distinctTerms_rep: "distinctTerms (map rep_term ts) = Inr (map rep_term (firsts [] ts))"
  using distinct_from_rep [of "[]" ts] by (simp add: distinctTerms_def)

lemma someSame_rep: "someSame (map rep_term ts) (rep_term t) = Inr (t \<in> set ts)"
  by (induction ts) auto

section \<open>Other arrays\<close>

text \<open>
  On any array \<open>term\<close> lets through, the key is defined unless a payload is a bigint, and then \<open>JSON.stringify\<close> throws.
\<close>

lemma length_json_units: "length s \<le> length (json_units s)"
proof (induction s rule: json_units.induct)
  case (3 u v us)
  have "1 \<le> length (json_unit u)" using escape_head [of u] by (auto simp: json_unit_def)
  with 3 show ?case by auto
next
  case (2 u)
  then show ?case using escape_head [of u] by (auto simp: json_unit_def)
qed simp

lemma json_quote_other: "json_quote s \<noteq> s" "s \<noteq> json_quote s"
  using length_json_units [of s] by (auto simp: json_quote_def dest: arg_cong [of _ _ length])

lemma json_text_int: "int_denotes v z \<Longrightarrow> (\<exists>k. json_text v = Inr k) \<or> json_text v = Inl JsTypeError"
  by (auto simp: int_denotes_def)

lemma json_text_denotes: "denotes v t \<Longrightarrow> (\<exists>k. termKey v = Inr k) \<or> termKey v = Inl JsTypeError"
  unfolding termKey_def
proof (induction rule: denotes.induct)
  case (integer v z)
  then show ?case using json_text_int [of v z] by auto
next
  case (instant v sec w ns)
  then show ?case using json_text_int [of v sec] json_text_int [of w ns] by auto
qed auto

text \<open>One Term in two arrays: \<open>sameTerm\<close> tells them apart, and throws on a third.\<close>

lemma sameTerm_alias:
  assumes "i64_ok z" "safe_int b = Some z"
  shows "denotes (JArr [JStr (js ''integer''), JNum b]) (FInteger z)"
    "sameTerm (JArr [JStr (js ''integer''), JNum b]) (rep_term (FInteger z)) = Inr False"
    "denotes (JArr [JStr (js ''integer''), JBigInt z]) (FInteger z)"
    "sameTerm (JArr [JStr (js ''integer''), JBigInt z]) (rep_term (FInteger z)) = Inl JsTypeError"
  using assms by (auto intro!: denotes.integer simp: int_denotes_def sameTerm_def termKey_def json_quote_other)

end
