(* ===== verification/SchemaInput.thy ===== *)
theory SchemaInput
  imports Client Json
begin

text \<open>
  The inputs of \<^verbatim>\<open>clients/bun/schema.mjs\<close>: the checks and the normal forms of identities, requirements, fields,
  records to create and updates, in the order the code makes them. Labels only appear in messages and are left out.
\<close>

section \<open>Limits and errors\<close>

definition SCHEMA_MAX_BATCH_ACTIONS :: nat where "SCHEMA_MAX_BATCH_ACTIONS = FRAMRPC_MAX_BATCH_ACTIONS"
definition SCHEMA_MAX_CONFLICT_RETRIES :: nat where "SCHEMA_MAX_CONFLICT_RETRIES = 32"
definition SCHEMA_MAX_REQUIRE_UNIQUE :: nat where "SCHEMA_MAX_REQUIRE_UNIQUE = 247"
definition SCHEMA_MAX_GUARD_CONCURRENCY :: nat where "SCHEMA_MAX_GUARD_CONCURRENCY = 8"
definition SCHEMA_MAX_READ_PAGES :: nat where "SCHEMA_MAX_READ_PAGES = 2"
definition QUERY_PAGE_LIMIT :: nat where "QUERY_PAGE_LIMIT = 128"

definition schemaError :: "string \<Rightarrow> 'a res" where
  "schemaError c = Inl (SchemaError c)"

abbreviation invalidInput :: "'a res" where
  "invalidInput \<equiv> schemaError ''schema/invalid-input''"

abbreviation invalidResponse :: "'a res" where
  "invalidResponse \<equiv> schemaError ''schema/invalid-response''"

section \<open>Objects\<close>

definition inputObject :: "jsval \<Rightarrow> (jstr \<times> jsval) list res" where
  "inputObject v = (case object_fields v of Some fs \<Rightarrow> Inr fs | None \<Rightarrow> invalidInput)"

definition onlyKeys :: "jsval \<Rightarrow> string list \<Rightarrow> (jstr \<times> jsval) list res" where
  "onlyKeys v allowed =
     rbind (inputObject v) (\<lambda>fs.
       if list_all (\<lambda>(k, _). k \<in> set (map js allowed)) fs then Inr fs else invalidInput)"

definition requiredKey :: "(jstr \<times> jsval) list \<Rightarrow> string \<Rightarrow> jsval res" where
  "requiredKey fs k = (if has_own fs k then Inr (get_prop fs k) else invalidInput)"

definition requiredTerm :: "(jstr \<times> jsval) list \<Rightarrow> string \<Rightarrow> jsval res" where
  "requiredTerm fs k = rbind (requiredKey fs k) toTerm"

definition inputArray :: "jsval \<Rightarrow> jsval list res" where
  "inputArray v = (case v of JArr vs \<Rightarrow> Inr vs | _ \<Rightarrow> invalidInput)"

definition boundedInteger :: "int \<Rightarrow> int \<Rightarrow> jsval \<Rightarrow> int res" where
  "boundedInteger lo hi v =
     (case v of
        JNum b \<Rightarrow> (case safe_int b of
            Some z \<Rightarrow> if z < lo \<or> hi < z then invalidInput else Inr z
          | None \<Rightarrow> invalidInput)
      | _ \<Rightarrow> invalidInput)"

definition enforceActionCount :: "nat \<Rightarrow> unit res" where
  "enforceActionCount n = require (n \<le> SCHEMA_MAX_BATCH_ACTIONS) (SchemaError ''schema/action-limit'')"

text \<open>A \<open>for\<close> loop over a list whose body only throws.\<close>

definition checkAll :: "('a \<Rightarrow> unit res) \<Rightarrow> 'a list \<Rightarrow> unit res" where
  "checkAll f xs = rbind (rmap f xs) (\<lambda>_. Inr ())"

lemma checkAll_Inr_iff [res_simps]: "checkAll f xs = Inr u \<longleftrightarrow> (\<forall>x \<in> set xs. f x = Inr ())"
proof -
  have "(\<exists>ys. list_all2 (\<lambda>x y. f x = Inr y) xs ys) \<longleftrightarrow> (\<forall>x \<in> set xs. f x = Inr ())"
    by (induction xs) (auto simp: list_all2_Cons1)
  then show ?thesis by (simp add: checkAll_def res_simps rmap_Inr_iff)
qed

section \<open>Identities and requirements\<close>

record identity =
  id_predicate :: jsval
  id_value :: jsval

record requirement = identity +
  rq_subject :: jsval

definition identityKey :: "'a identity_scheme \<Rightarrow> jstr res" where
  "identityKey i = pairKey (id_predicate i) (id_value i)"

definition normalizeIdentity :: "jsval \<Rightarrow> identity res" where
  "normalizeIdentity v =
     rbind (onlyKeys v [''predicate'', ''value'']) (\<lambda>fs.
     rbind (requiredTerm fs ''predicate'') (\<lambda>p.
     rbind (requiredTerm fs ''value'') (\<lambda>x. Inr \<lparr>id_predicate = p, id_value = x\<rparr>)))"

definition normalizeRequirement :: "jsval \<Rightarrow> requirement res" where
  "normalizeRequirement v =
     rbind (onlyKeys v [''subject'', ''predicate'', ''value'']) (\<lambda>fs.
     rbind (requiredTerm fs ''subject'') (\<lambda>s.
     rbind (requiredTerm fs ''predicate'') (\<lambda>p.
     rbind (requiredTerm fs ''value'') (\<lambda>x. Inr \<lparr>id_predicate = p, id_value = x, rq_subject = s\<rparr>))))"

definition normalizeRequireUnique :: "jsval \<Rightarrow> requirement list res" where
  "normalizeRequireUnique v =
     (if v = JUndef then Inr []
      else rbind (inputArray v) (\<lambda>vs.
        if SCHEMA_MAX_REQUIRE_UNIQUE < length vs then invalidInput else rmap normalizeRequirement vs))"

section \<open>Records to create\<close>

datatype cardinality = Single | Multi

record field =
  fl_predicate :: jsval
  fl_value :: jsval
  fl_cardinality :: cardinality

record create =
  cr_subject :: jsval
  cr_identity :: identity
  cr_fields :: "field list"

definition cardinalityOf :: "jsval \<Rightarrow> cardinality res" where
  "cardinalityOf v =
     (if v = js_lit ''single'' then Inr Single else if v = js_lit ''multi'' then Inr Multi else invalidInput)"

definition normalizeField :: "jsval \<Rightarrow> field res" where
  "normalizeField v =
     rbind (onlyKeys v [''predicate'', ''value'', ''cardinality'']) (\<lambda>fs.
     rbind (if has_own fs ''cardinality'' then cardinalityOf (get_prop fs ''cardinality'') else Inr Single) (\<lambda>c.
     rbind (requiredTerm fs ''predicate'') (\<lambda>p.
     rbind (requiredTerm fs ''value'') (\<lambda>x.
       Inr \<lparr>fl_predicate = p, fl_value = x, fl_cardinality = c\<rparr>))))"

text \<open>What the loop over the fields remembers of a predicate.\<close>

record prior =
  pr_cardinality :: cardinality
  pr_keys :: "jstr list"
  pr_values :: "jsval list"

definition addField ::
  "identity \<Rightarrow> jsval \<Rightarrow> field list \<times> (jstr \<Rightarrow> prior option) \<Rightarrow> (field list \<times> (jstr \<Rightarrow> prior option)) res" where
  "addField i v st =
     (case st of (fls, predicates) \<Rightarrow>
        rbind (normalizeField v) (\<lambda>f.
        rbind (sameTerm (fl_predicate f) (id_predicate i)) (\<lambda>same.
        if same then invalidInput
        else rbind (termKey (fl_predicate f)) (\<lambda>pk.
          case predicates pk of
            None \<Rightarrow> rbind (termKey (fl_value f)) (\<lambda>vk.
              Inr (fls @ [f], predicates(pk \<mapsto>
                \<lparr>pr_cardinality = fl_cardinality f, pr_keys = [vk], pr_values = [fl_value f]\<rparr>)))
          | Some p \<Rightarrow>
              if pr_cardinality p \<noteq> fl_cardinality f then invalidInput
              else rbind (if fl_cardinality f = Single then sameTerm (hd (pr_values p)) (fl_value f) else Inr True) (\<lambda>one.
                if \<not> one then invalidInput
                else rbind (termKey (fl_value f)) (\<lambda>vk.
                  if vk \<in> set (pr_keys p) then Inr st
                  else Inr (fls @ [f], predicates(pk \<mapsto>
                    p\<lparr>pr_keys := vk # pr_keys p, pr_values := pr_values p @ [fl_value f]\<rparr>))))))))"

fun addFields ::
  "identity \<Rightarrow> jsval list \<Rightarrow> field list \<times> (jstr \<Rightarrow> prior option) \<Rightarrow> (field list \<times> (jstr \<Rightarrow> prior option)) res" where
  "addFields i [] st = Inr st"
| "addFields i (v # vs) st = rbind (addField i v st) (addFields i vs)"

definition normalizeCreateRecord :: "bool \<Rightarrow> jsval \<Rightarrow> (create \<times> (jstr \<times> jsval) list) res" where
  "normalizeCreateRecord allowRequireUnique v =
     rbind (onlyKeys v ([''subject'', ''identity'', ''fields''] @ (if allowRequireUnique then [''requireUnique''] else []))) (\<lambda>fs.
     rbind (requiredTerm fs ''subject'') (\<lambda>s.
     rbind (rbind (requiredKey fs ''identity'') normalizeIdentity) (\<lambda>i.
     rbind (inputArray (if has_own fs ''fields'' then get_prop fs ''fields'' else JArr [])) (\<lambda>inputs.
     rbind (enforceActionCount (length inputs + 1)) (\<lambda>_.
     rbind (addFields i inputs ([], \<lambda>_. None)) (\<lambda>(fls, _).
       Inr (\<lparr>cr_subject = s, cr_identity = i, cr_fields = fls\<rparr>, fs)))))))"

record unique_input =
  ui_create :: create
  ui_requireUnique :: "requirement list"

definition normalizeUniqueInput :: "jsval \<Rightarrow> unique_input res" where
  "normalizeUniqueInput v =
     rbind (normalizeCreateRecord True v) (\<lambda>(c, fs).
     rbind (normalizeRequireUnique (get_prop fs ''requireUnique'')) (\<lambda>rs.
       Inr \<lparr>ui_create = c, ui_requireUnique = rs\<rparr>))"

section \<open>Updates\<close>

record update_field =
  uf_predicate :: jsval
  uf_values :: "jsval list"
  uf_cardinality :: cardinality
  uf_allowedCurrent :: "jsval list option"

record update =
  up_identity :: identity
  up_fields :: "update_field list"

record update_many =
  um_updates :: "update list"
  um_requireUnique :: "requirement list"

definition allowedInput :: "jsval \<Rightarrow> jsval list option res" where
  "allowedInput v =
     (if v = JUndef then Inr None
      else rbind (inputArray v) (\<lambda>vs.
        if SCHEMA_MAX_BATCH_ACTIONS < length vs then invalidInput else Inr (Some vs)))"

definition normalizeUpdateField :: "identity \<Rightarrow> jsval \<Rightarrow> update_field res" where
  "normalizeUpdateField i v =
     rbind (onlyKeys v [''predicate'', ''values'', ''cardinality'', ''allowedCurrent'']) (\<lambda>fs.
     rbind (rbind (requiredKey fs ''cardinality'') cardinalityOf) (\<lambda>c.
     rbind (rbind (requiredKey fs ''values'') inputArray) (\<lambda>vs.
     rbind (enforceActionCount (length vs)) (\<lambda>_.
     if c = Single \<and> 1 < length vs then invalidInput
     else rbind (requiredTerm fs ''predicate'') (\<lambda>p.
     rbind (sameTerm p (id_predicate i)) (\<lambda>same.
     if same then invalidInput
     else rbind (allowedInput (get_prop fs ''allowedCurrent'')) (\<lambda>allowed.
     rbind (rbind (rmap toTerm vs) distinctTerms) (\<lambda>values.
     rbind (case allowed of
              None \<Rightarrow> Inr None
            | Some as \<Rightarrow> rbind (rbind (rmap toTerm as) distinctTerms) (\<lambda>ds. Inr (Some ds))) (\<lambda>ac.
       Inr \<lparr>uf_predicate = p, uf_values = values, uf_cardinality = c, uf_allowedCurrent = ac\<rparr>)))))))))"

definition normalizeUpdateInput :: "jsval \<Rightarrow> update_many res" where
  "normalizeUpdateInput v =
     rbind (onlyKeys v [''identity'', ''field'', ''requireUnique'']) (\<lambda>fs.
     rbind (rbind (requiredKey fs ''identity'') normalizeIdentity) (\<lambda>i.
     rbind (normalizeRequireUnique (get_prop fs ''requireUnique'')) (\<lambda>rs.
     rbind (rbind (requiredKey fs ''field'') (normalizeUpdateField i)) (\<lambda>f.
       Inr \<lparr>um_updates = [\<lparr>up_identity = i, up_fields = [f]\<rparr>], um_requireUnique = rs\<rparr>))))"

text \<open>The fields of one update: the predicates seen so far and the desired values of all updates are threaded.\<close>

fun updateFields :: "identity \<Rightarrow> jstr list \<Rightarrow> nat \<Rightarrow> jsval list \<Rightarrow> (update_field list \<times> nat) res" where
  "updateFields i seen desired [] = Inr ([], desired)"
| "updateFields i seen desired (v # vs) =
     rbind (normalizeUpdateField i v) (\<lambda>f.
     rbind (termKey (uf_predicate f)) (\<lambda>k.
     if k \<in> set seen then schemaError ''schema/duplicate-update-target''
     else let desired' = desired + length (uf_values f)
       in rbind (enforceActionCount desired') (\<lambda>_.
          rbind (updateFields i (k # seen) desired' vs) (\<lambda>(ufs, n). Inr (f # ufs, n)))))"

definition normalizeUpdate :: "nat \<times> nat \<Rightarrow> jsval \<Rightarrow> (update \<times> nat \<times> nat) res" where
  "normalizeUpdate counts v =
     (case counts of (fieldCount, desired) \<Rightarrow>
        rbind (onlyKeys v [''identity'', ''fields'']) (\<lambda>fs.
        rbind (rbind (requiredKey fs ''identity'') normalizeIdentity) (\<lambda>i.
        rbind (rbind (requiredKey fs ''fields'') inputArray) (\<lambda>vs.
        if vs = [] \<or> SCHEMA_MAX_BATCH_ACTIONS < fieldCount + length vs then invalidInput
        else rbind (updateFields i [] desired vs) (\<lambda>(ufs, n).
          Inr (\<lparr>up_identity = i, up_fields = ufs\<rparr>, fieldCount + length vs, n))))))"

fun normalizeUpdates :: "nat \<times> nat \<Rightarrow> jsval list \<Rightarrow> update list res" where
  "normalizeUpdates counts [] = Inr []"
| "normalizeUpdates counts (v # vs) =
     rbind (normalizeUpdate counts v) (\<lambda>(u, counts').
     rbind (normalizeUpdates counts' vs) (\<lambda>us. Inr (u # us)))"

definition updatesInput :: "jsval \<Rightarrow> update list res" where
  "updatesInput v =
     rbind (inputArray v) (\<lambda>vs.
       if vs = [] \<or> SCHEMA_MAX_BATCH_ACTIONS < length vs then invalidInput else normalizeUpdates (0, 0) vs)"

definition normalizeUpdateManyInput :: "jsval \<Rightarrow> update_many res" where
  "normalizeUpdateManyInput v =
     rbind (onlyKeys v [''updates'', ''requireUnique'']) (\<lambda>fs.
     rbind (rbind (requiredKey fs ''updates'') updatesInput) (\<lambda>us.
     rbind (normalizeRequireUnique (get_prop fs ''requireUnique'')) (\<lambda>rs.
       Inr \<lparr>um_updates = us, um_requireUnique = rs\<rparr>)))"

section \<open>Transactions\<close>

record unique_transaction =
  ut_creates :: "create list"
  ut_updates :: "update list"
  ut_requireUnique :: "requirement list"

text \<open>The creates by the key of their identity; the subjects have to be distinct, too.\<close>

fun planCreates :: "create list \<Rightarrow> jstr list \<Rightarrow> (jstr \<Rightarrow> create option) \<Rightarrow> (jstr \<Rightarrow> create option) res" where
  "planCreates [] subjects planned = Inr planned"
| "planCreates (c # cs) subjects planned =
     rbind (identityKey (cr_identity c)) (\<lambda>ik.
     if planned ik \<noteq> None then schemaError ''schema/duplicate-identity''
     else rbind (termKey (cr_subject c)) (\<lambda>sk.
     if sk \<in> set subjects then schemaError ''schema/duplicate-create-subject''
     else planCreates cs (sk # subjects) (planned(ik \<mapsto> c))))"

definition notPlanned :: "(jstr \<Rightarrow> create option) \<Rightarrow> jsval \<Rightarrow> jsval \<Rightarrow> unit res" where
  "notPlanned planned p x =
     rbind (pairKey p x) (\<lambda>k. if planned k \<noteq> None then schemaError ''schema/duplicate-identity'' else Inr ())"

definition requirementPlanned :: "(jstr \<Rightarrow> create option) \<Rightarrow> requirement \<Rightarrow> unit res" where
  "requirementPlanned planned r =
     rbind (identityKey r) (\<lambda>k.
     case planned k of
       None \<Rightarrow> Inr ()
     | Some c \<Rightarrow> rbind (sameTerm (cr_subject c) (rq_subject r)) (\<lambda>same.
         if same then Inr () else schemaError ''schema/required-identity-missing''))"

definition desiredActions :: "create list \<Rightarrow> update list \<Rightarrow> nat" where
  "desiredActions cs us =
     sum_list (map (\<lambda>c. length (cr_fields c) + 1) cs) +
     sum_list (map (\<lambda>u. sum_list (map (\<lambda>f. length (uf_values f)) (up_fields u))) us)"

definition normalizeUniqueTransaction :: "jsval \<Rightarrow> unique_transaction res" where
  "normalizeUniqueTransaction v =
     rbind (onlyKeys v [''creates'', ''updates'', ''requireUnique'']) (\<lambda>fs.
     rbind (inputArray (if has_own fs ''creates'' then get_prop fs ''creates'' else JArr [])) (\<lambda>createsInput.
     rbind (inputArray (if has_own fs ''updates'' then get_prop fs ''updates'' else JArr [])) (\<lambda>ups.
     if createsInput = [] \<and> ups = [] then invalidInput
     else if SCHEMA_MAX_BATCH_ACTIONS < length createsInput then invalidInput
     else rbind (rmap (\<lambda>c. rbind (normalizeCreateRecord False c) (\<lambda>(r, _). Inr r)) createsInput) (\<lambda>creates.
     rbind (planCreates creates [] (\<lambda>_. None)) (\<lambda>planned.
     rbind (if ups = [] then Inr [] else updatesInput (JArr ups)) (\<lambda>updates.
     rbind (checkAll (\<lambda>c. checkAll (\<lambda>f. notPlanned planned (fl_predicate f) (fl_value f)) (cr_fields c)) creates) (\<lambda>_.
     rbind (checkAll (\<lambda>u. checkAll (\<lambda>f. checkAll (notPlanned planned (uf_predicate f)) (uf_values f)) (up_fields u)) updates) (\<lambda>_.
     rbind (normalizeRequireUnique (get_prop fs ''requireUnique'')) (\<lambda>rs.
     rbind (checkAll (requirementPlanned planned) rs) (\<lambda>_.
     rbind (enforceActionCount (desiredActions creates updates)) (\<lambda>_.
       Inr \<lparr>ut_creates = creates, ut_updates = updates, ut_requireUnique = rs\<rparr>))))))))))) "

end
