(* ===== verification/SchemaClient.thy ===== *)
theory SchemaClient
  imports SchemaInput
begin

text \<open>
  The operations of \<open>schemaClient\<close> in \<^verbatim>\<open>clients/bun/schema.mjs\<close>. They are asynchronous: a program is a tree whose
  inner nodes are the calls it awaits on the FRAM client, one subtree per answer, so that everything the code does
  between two answers is explicit and what the service does in between is left open. \<open>mapWithConcurrency\<close> is
  a node of its own, and its workers run in every order the answers allow.
\<close>

section \<open>Programs\<close>

text \<open>A call of the FRAM client; \<open>preflightBatch\<close> answers without sending anything.\<close>

datatype fram_request = Call method_call | Preflight jsval jsval

text \<open>\<open>task\<close> is a chain of awaited calls, \<open>io\<close> may also run tasks concurrently.\<close>

datatype 'a task = Done "'a res" | Ask fram_request "jsval res \<Rightarrow> 'a task"

type_synonym found = "jsval list option"

datatype 'a io =
    Ret "'a res"
  | Await fram_request "jsval res \<Rightarrow> 'a io"
  | Together "found task list" "found list res \<Rightarrow> 'a io"

primrec task_then :: "'a task \<Rightarrow> ('a res \<Rightarrow> 'b task) \<Rightarrow> 'b task" where
  "task_then (Done r) h = h r"
| "task_then (Ask q k) h = Ask q (\<lambda>a. task_then (k a) h)"

primrec io_then :: "'a io \<Rightarrow> ('a res \<Rightarrow> 'b io) \<Rightarrow> 'b io" where
  "io_then (Ret r) h = h r"
| "io_then (Await q k) h = Await q (\<lambda>a. io_then (k a) h)"
| "io_then (Together ts k) h = Together ts (\<lambda>a. io_then (k a) h)"

primrec io_task :: "'a task \<Rightarrow> ('a res \<Rightarrow> 'b io) \<Rightarrow> 'b io" where
  "io_task (Done r) h = h r"
| "io_task (Ask q k) h = Await q (\<lambda>a. io_task (k a) h)"

text \<open>\<open>await\<close> in sequence: an exception ends the program.\<close>

fun on_ok :: "('a \<Rightarrow> 'b io) \<Rightarrow> 'a res \<Rightarrow> 'b io" where
  "on_ok f (Inl e) = Ret (Inl e)"
| "on_ok f (Inr x) = f x"

fun on_ok_task :: "('a \<Rightarrow> 'b task) \<Rightarrow> 'a res \<Rightarrow> 'b task" where
  "on_ok_task f (Inl e) = Done (Inl e)"
| "on_ok_task f (Inr x) = f x"

lemma on_ok_task_cong [fundef_cong]:
  "r = r' \<Longrightarrow> (\<And>x. r' = Inr x \<Longrightarrow> f x = g x) \<Longrightarrow> on_ok_task f r = on_ok_task g r'"
  by (cases r') auto

section \<open>Responses\<close>

text \<open>A property of a response; a value that is no object has none of those the code reads.\<close>

definition propOf :: "jsval \<Rightarrow> string \<Rightarrow> jsval" where
  "propOf v k = (case object_fields v of Some fs \<Rightarrow> get_prop fs k | None \<Rightarrow> JUndef)"

definition responseVersion :: "jsval \<Rightarrow> int res" where
  "responseVersion r = (case propOf r ''servedVersion'' of JBigInt z \<Rightarrow> Inr z | _ \<Rightarrow> invalidResponse)"

definition responseArray :: "jsval \<Rightarrow> jsval list res" where
  "responseArray r = (case propOf r ''result'' of JArr vs \<Rightarrow> Inr vs | _ \<Rightarrow> invalidResponse)"

definition rowTerm :: "jsval \<Rightarrow> jsval res" where
  "rowTerm row = (case row of JArr [v] \<Rightarrow> toTerm v | _ \<Rightarrow> invalidResponse)"

definition finished :: "jsval \<Rightarrow> bool" where
  "finished r \<longleftrightarrow> \<not> truthy (propOf r ''page'') \<or> truthy (propOf (propOf r ''page'') ''done'')"

definition continuationCursor :: "jsval \<Rightarrow> nat \<Rightarrow> jstr list \<Rightarrow> (jsval \<times> jstr list) res" where
  "continuationCursor r pagesRead seen =
     (if finished r then Inr (JNull, seen)
      else if nullish (propOf (propOf r ''page'') ''nextCursor'') then invalidResponse
      else rbind (toTerm (propOf (propOf r ''page'') ''nextCursor'')) (\<lambda>c.
        rbind (termKey c) (\<lambda>k.
        if k \<in> set seen then invalidResponse
        else if SCHEMA_MAX_READ_PAGES \<le> pagesRead then invalidResponse
        else Inr (c, k # seen))))"

definition count_val :: "nat \<Rightarrow> jsval" where
  "count_val n = JNum (num_of_nat n)"

definition page_val :: "jsval option \<Rightarrow> jsval" where
  "page_val c = JObj ((js ''limit'', count_val QUERY_PAGE_LIMIT) # (case c of None \<Rightarrow> [] | Some x \<Rightarrow> [(js ''cursor'', x)]))"

section \<open>Reads\<close>

text \<open>\<open>singleColumnQuery\<close> and \<open>identityQuery\<close>\<close>

definition singleColumnQuery :: "string \<Rightarrow> string \<Rightarrow> jsval list \<Rightarrow> jsval" where
  "singleColumnQuery relation variable tripleArgs =
     JObj [(js ''find'', js_lit relation),
       (js ''rules'', JArr [JObj [
          (js ''head'', JObj [(js ''rel'', js_lit relation), (js ''args'', JArr [JObj [(js ''var'', js_lit variable)]])]),
          (js ''body'', JArr [JObj [(js ''rel'', js_lit ''triple''), (js ''args'', JArr tripleArgs)]])]])]"

definition identityQuery :: "'a identity_scheme \<Rightarrow> jsval" where
  "identityQuery i =
     singleColumnQuery ''schemaIdentitySubjects'' ''schemaSubject''
       [JObj [(js ''var'', js_lit ''schemaSubject'')], id_predicate i, id_value i]"

text \<open>The rows of one page: new Terms are appended until there are enough.\<close>

fun collectRows :: "nat \<Rightarrow> jsval list \<Rightarrow> jsval list \<times> jstr list \<Rightarrow> (jsval list \<times> jstr list) res" where
  "collectRows most [] st = Inr st"
| "collectRows most (row # rows) (values, keys) =
     rbind (rowTerm row) (\<lambda>v. rbind (termKey v) (\<lambda>k.
       if k \<in> set keys then collectRows most rows (values, keys)
       else if length values + 1 = most then Inr (values @ [v], k # keys)
       else collectRows most rows (values @ [v], k # keys)))"

definition query_options :: "int \<Rightarrow> int \<Rightarrow> jsval option \<Rightarrow> jsval" where
  "query_options timeout asOf c =
     JObj [(js ''asOf'', JBigInt asOf), (js ''timeoutMs'', count_val (nat timeout)), (js ''page'', page_val c)]"

lemma continuationCursor_pages:
  "continuationCursor r n seen = Inr (c, seen') \<Longrightarrow> \<not> finished r \<Longrightarrow> n < SCHEMA_MAX_READ_PAGES"
  by (auto simp: continuationCursor_def schemaError_def res_simps split: if_splits)

text \<open>The loop of \<open>readColumn\<close>: it ends because \<open>continuationCursor\<close> refuses to go past the page ceiling.\<close>

function readPages ::
  "int \<Rightarrow> jsval \<Rightarrow> int \<Rightarrow> nat \<Rightarrow> jsval list \<times> jstr list \<Rightarrow> jstr list \<Rightarrow> nat \<Rightarrow> jsval option \<Rightarrow> jsval list task" where
  "readPages timeout query asOf most st seen pagesRead c =
     (if most \<le> length (fst st) then Done (Inr (fst st))
      else Ask (Call (MQuery query (query_options timeout asOf c))) (\<lambda>a.
        on_ok_task (\<lambda>r.
        on_ok_task (\<lambda>served.
        if served \<noteq> asOf then Done invalidResponse
        else on_ok_task (\<lambda>rows.
        on_ok_task (\<lambda>st'.
        if length (fst st') = most \<or> finished r then Done (Inr (fst st'))
        else on_ok_task (\<lambda>(c', seen').
          readPages timeout query asOf most st' seen' (pagesRead + 1) (Some c'))
        (continuationCursor r (pagesRead + 1) seen))
        (collectRows most rows st)) (responseArray r)) (responseVersion r)) a))"
  by pat_completeness auto

termination
  by (relation "measure (\<lambda>(_, _, _, _, _, _, pagesRead, _). SCHEMA_MAX_READ_PAGES - pagesRead)")
     (auto dest!: continuationCursor_pages)

declare readPages.simps [simp del]

definition readColumn :: "int \<Rightarrow> jsval \<Rightarrow> int \<Rightarrow> nat \<Rightarrow> jsval list task" where
  "readColumn timeout query asOf most = readPages timeout query asOf most ([], []) [] 0 None"

definition ownersAt :: "int \<Rightarrow> 'a identity_scheme \<Rightarrow> int \<Rightarrow> jsval list task" where
  "ownersAt timeout i asOf = readColumn timeout (identityQuery i) asOf 2"

text \<open>\<open>scanValues\<close>: a scan serves the current version, which has to be the one of the attempt.\<close>

fun collectValues :: "jsval \<Rightarrow> jsval \<Rightarrow> jsval list \<Rightarrow> jsval list \<Rightarrow> jsval list res" where
  "collectValues subject predicate [] values = Inr values"
| "collectValues subject predicate (row # rows) values =
     rbind (toTerm row) (\<lambda>p.
       case p of
         JArr [tag, a, b, c] \<Rightarrow>
           if tag \<noteq> js_lit ''triple'' then invalidResponse
           else rbind (sameTerm a subject) (\<lambda>same. if \<not> same then invalidResponse
           else rbind (sameTerm b predicate) (\<lambda>same. if \<not> same then invalidResponse
           else if length values + 1 = SCHEMA_MAX_BATCH_ACTIONS + 1 then Inr (values @ [c])
           else collectValues subject predicate rows (values @ [c])))
       | _ \<Rightarrow> invalidResponse)"

definition scan_pattern :: "jsval \<Rightarrow> jsval \<Rightarrow> jsval" where
  "scan_pattern subject predicate = JObj [(js ''t1'', subject), (js ''t2'', predicate)]"

definition scan_options :: "jsval option \<Rightarrow> jsval" where
  "scan_options c = JObj [(js ''page'', page_val c)]"

function scanPages :: "jsval \<Rightarrow> jsval \<Rightarrow> int \<Rightarrow> jsval list \<Rightarrow> jstr list \<Rightarrow> nat \<Rightarrow> jsval option \<Rightarrow> jsval list task" where
  "scanPages subject predicate asOf values seen pagesRead c =
     (if SCHEMA_MAX_BATCH_ACTIONS + 1 \<le> length values then Done (Inr values)
      else Ask (Call (MScan (scan_pattern subject predicate) (scan_options c))) (\<lambda>a.
        on_ok_task (\<lambda>r.
        on_ok_task (\<lambda>served.
        if served \<noteq> asOf then Done (if c = None then Inl (SnapshotSkew asOf served) else invalidResponse)
        else on_ok_task (\<lambda>rows.
        on_ok_task (\<lambda>values'.
        if length values' = SCHEMA_MAX_BATCH_ACTIONS + 1 \<or> finished r then Done (Inr values')
        else on_ok_task (\<lambda>(c', seen').
          scanPages subject predicate asOf values' seen' (pagesRead + 1) (Some c'))
        (continuationCursor r (pagesRead + 1) seen))
        (collectValues subject predicate rows values)) (responseArray r)) (responseVersion r)) a))"
  by pat_completeness auto

termination
  by (relation "measure (\<lambda>(_, _, _, _, _, pagesRead, _). SCHEMA_MAX_READ_PAGES - pagesRead)")
     (auto dest!: continuationCursor_pages)

declare scanPages.simps [simp del]

definition valuesAt :: "jsval \<Rightarrow> jsval \<Rightarrow> int \<Rightarrow> jsval list task" where
  "valuesAt subject predicate asOf = scanPages subject predicate asOf [] [] 0 None"

section \<open>Actions and summaries\<close>

definition action_val :: "string \<Rightarrow> jsval \<Rightarrow> jsval \<Rightarrow> jsval \<Rightarrow> jsval" where
  "action_val op subject predicate v =
     JObj [(js ''op'', js_lit op), (js ''t1'', subject), (js ''t2'', predicate), (js ''t3'', v)]"

definition assertAction :: "jsval \<Rightarrow> jsval \<Rightarrow> jsval \<Rightarrow> jsval" where
  "assertAction = action_val ''assert''"

definition retractAction :: "jsval \<Rightarrow> jsval \<Rightarrow> jsval \<Rightarrow> jsval" where
  "retractAction = action_val ''retract''"

definition createActions :: "create \<Rightarrow> jsval list" where
  "createActions c =
     assertAction (cr_subject c) (id_predicate (cr_identity c)) (id_value (cr_identity c)) #
     map (\<lambda>f. assertAction (cr_subject c) (fl_predicate f) (fl_value f)) (cr_fields c)"

record written =
  wr_changed :: bool
  wr_served :: int
  wr_result :: "jsval list"
  wr_preflight :: jsval

record summary =
  su_subject :: jsval
  su_created :: bool
  su_written :: written

record many_summary =
  ms_subjects :: "jsval list"
  ms_written :: written

record transaction_summary =
  ts_createdSubjects :: "jsval list"
  ts_updatedSubjects :: "jsval list"
  ts_written :: written

text \<open>\<open>result.some(action => action.stateChanged === true)\<close>\<close>

fun someChanged :: "jsval list \<Rightarrow> bool res" where
  "someChanged [] = Inr False"
| "someChanged (v # vs) =
     (if nullish v then Inl JsTypeError
      else if propOf v ''stateChanged'' = JBool True then Inr True else someChanged vs)"

text \<open>The part \<open>summarize\<close>, \<open>summarizeMany\<close> and \<open>summarizeTransaction\<close> share.\<close>

definition summarizeWrite :: "int \<Rightarrow> (jsval \<times> jsval) option \<Rightarrow> written res" where
  "summarizeWrite asOf outc =
     (case outc of
        None \<Rightarrow> Inr \<lparr>wr_changed = False, wr_served = asOf, wr_result = [], wr_preflight = JNull\<rparr>
      | Some (r, p) \<Rightarrow>
          rbind (responseVersion r) (\<lambda>served. rbind (responseArray r) (\<lambda>res. rbind (someChanged res) (\<lambda>changed.
            Inr \<lparr>wr_changed = changed, wr_served = served, wr_result = res, wr_preflight = p\<rparr>))))"

definition enforceActionLimit :: "jsval list \<Rightarrow> unit res" where
  "enforceActionLimit actions = enforceActionCount (length actions)"

section \<open>The transaction loop\<close>

text \<open>\<open>commit\<close>: nothing is sent for no actions; otherwise the batch carries the version of the attempt.\<close>

definition schema_commit :: "int \<Rightarrow> jsval list \<Rightarrow> (jsval \<times> jsval) option io" where
  "schema_commit asOf actions =
     on_ok (\<lambda>_.
       if actions = [] then Ret (Inr None)
       else Await (Preflight (JArr actions) (JObj [(js ''expectedVersion'', JBigInt asOf)])) (on_ok (\<lambda>p.
         Await (Call (MBatch (JArr actions) (JObj [(js ''expectedVersion'', JBigInt asOf), (js ''preflight'', p)])))
           (on_ok (\<lambda>r. Ret (Inr (Some (r, p))))))))
     (enforceActionLimit actions)"

definition write_actions :: "int \<Rightarrow> jsval list \<Rightarrow> (written \<Rightarrow> 'a) \<Rightarrow> 'a io" where
  "write_actions asOf actions summary =
     io_then (schema_commit asOf actions) (on_ok (\<lambda>outc. Ret (map_sum id summary (summarizeWrite asOf outc))))"

definition typedConflict :: "js_error \<Rightarrow> bool" where
  "typedConflict e \<longleftrightarrow> e = RpcError (js ''rpc/conflict'') True"

definition skewed :: "js_error \<Rightarrow> bool" where
  "skewed e \<longleftrightarrow> (case e of SnapshotSkew _ _ \<Rightarrow> True | _ \<Rightarrow> False)"

definition attempt :: "(int \<Rightarrow> 'a io) \<Rightarrow> 'a io \<Rightarrow> 'a io" where
  "attempt body again =
     Await (Call (MVersion JUndef)) (on_ok (\<lambda>r.
       on_ok (\<lambda>asOf. io_then (body asOf) (\<lambda>outc.
         case outc of
           Inl e \<Rightarrow> if skewed e \<or> typedConflict e then again else Ret (Inl e)
         | Inr x \<Rightarrow> Ret (Inr x)))
       (responseVersion r)))"

text \<open>\<open>retrying\<close>; the number is of the retries that are left.\<close>

primrec retrying :: "nat \<Rightarrow> (int \<Rightarrow> 'a io) \<Rightarrow> 'a io" where
  "retrying 0 body = attempt body (Ret (schemaError ''schema/conflict-exhausted''))"
| "retrying (Suc n) body = attempt body (retrying n body)"

section \<open>Guards\<close>

record schema_client =
  maxConflictRetries :: nat
  queryTimeoutMs :: int

text \<open>\<open>schemaClient\<close>: which methods of the given client are functions is an argument.\<close>

definition schemaClient :: "bool \<Rightarrow> (string \<Rightarrow> bool) \<Rightarrow> jsval \<Rightarrow> jsval \<Rightarrow> schema_client res" where
  "schemaClient isObject isFunction retries timeout =
     (if \<not> isObject \<or> \<not> list_all isFunction [''version'', ''query'', ''scan'', ''preflightBatch'', ''batch''] then invalidInput
      else rbind (boundedInteger 0 (int SCHEMA_MAX_CONFLICT_RETRIES) retries) (\<lambda>n.
           rbind (boundedInteger 0 0xffffffff timeout) (\<lambda>t.
             Inr \<lparr>maxConflictRetries = nat n, queryTimeoutMs = t\<rparr>)))"

definition foundBy :: "jsval list task \<Rightarrow> found task" where
  "foundBy t = task_then t (\<lambda>r. Done (map_sum id Some r))"

definition listOf :: "found \<Rightarrow> jsval list res" where
  "listOf f = (case f of Some vs \<Rightarrow> Inr vs | None \<Rightarrow> Inl JsTypeError)"

definition rejectOwners :: "bool \<Rightarrow> jsval list \<Rightarrow> unit res" where
  "rejectOwners creating owners =
     (if 1 < length owners then schemaError ''schema/duplicate-identity''
      else if creating \<and> length owners = 1 then schemaError ''schema/identity-exists''
      else Inr ())"

definition requireSource :: "jsval list \<Rightarrow> jsval res" where
  "requireSource owners =
     (case owners of
        [] \<Rightarrow> schemaError ''schema/identity-missing''
      | [s] \<Rightarrow> Inr s
      | _ \<Rightarrow> schemaError ''schema/duplicate-identity'')"

definition requirementHolds :: "requirement \<times> found \<Rightarrow> unit res" where
  "requirementHolds rf =
     (case rf of (r, f) \<Rightarrow>
        rbind (listOf f) (\<lambda>owners.
          case owners of
            [s] \<Rightarrow> rbind (sameTerm s (rq_subject r)) (\<lambda>same.
              if same then Inr () else schemaError ''schema/required-identity-missing'')
          | [] \<Rightarrow> schemaError ''schema/required-identity-missing''
          | _ \<Rightarrow> schemaError ''schema/duplicate-identity''))"

definition requireUniqueAt :: "schema_client \<Rightarrow> requirement list \<Rightarrow> int \<Rightarrow> (unit res \<Rightarrow> 'a io) \<Rightarrow> 'a io" where
  "requireUniqueAt sc rs asOf h =
     Together (map (\<lambda>r. foundBy (ownersAt (queryTimeoutMs sc) r asOf)) rs)
       (\<lambda>outc. h (rbind outc (\<lambda>fs. checkAll requirementHolds (zip rs fs))))"

section \<open>Single records\<close>

definition replaceSingle :: "schema_client \<Rightarrow> jsval \<Rightarrow> jsval \<Rightarrow> jsval \<Rightarrow> summary io" where
  "replaceSingle sc subjectInput predicateInput valueInput =
     on_ok (\<lambda>subject. on_ok (\<lambda>predicate. on_ok (\<lambda>v.
       retrying (maxConflictRetries sc) (\<lambda>asOf.
         io_task (valuesAt subject predicate asOf) (on_ok (\<lambda>current.
           write_actions asOf (map (retractAction subject predicate) current @ [assertAction subject predicate v])
             (\<lambda>w. \<lparr>su_subject = subject, su_created = False, su_written = w\<rparr>)))))
     (toTerm valueInput)) (toTerm predicateInput)) (toTerm subjectInput)"

definition createUnique :: "schema_client \<Rightarrow> jsval \<Rightarrow> summary io" where
  "createUnique sc v =
     on_ok (\<lambda>input.
       let c = ui_create input; actions = createActions c
       in on_ok (\<lambda>_.
            retrying (maxConflictRetries sc) (\<lambda>asOf.
              io_task (ownersAt (queryTimeoutMs sc) (cr_identity c) asOf) (on_ok (\<lambda>owners.
              on_ok (\<lambda>_.
              requireUniqueAt sc (ui_requireUnique input) asOf (on_ok (\<lambda>_.
              write_actions asOf actions (\<lambda>w. \<lparr>su_subject = cr_subject c, su_created = True, su_written = w\<rparr>))))
              (rejectOwners True owners)))))
          (enforceActionLimit actions))
     (normalizeUniqueInput v)"

text \<open>The actions of \<open>upsertUnique\<close> on a record that exists: single values are replaced, multiple ones are added.\<close>

definition upsertField :: "jsval \<Rightarrow> field \<times> found \<Rightarrow> jsval list" where
  "upsertField subject ff =
     (case ff of (f, found) \<Rightarrow>
        (case found of Some current \<Rightarrow> map (retractAction subject (fl_predicate f)) current | None \<Rightarrow> []) @
        [assertAction subject (fl_predicate f) (fl_value f)])"

definition upsertUnique :: "schema_client \<Rightarrow> jsval \<Rightarrow> summary io" where
  "upsertUnique sc v =
     on_ok (\<lambda>input.
       let c = ui_create input
       in retrying (maxConflictRetries sc) (\<lambda>asOf.
            io_task (ownersAt (queryTimeoutMs sc) (cr_identity c) asOf) (on_ok (\<lambda>owners.
            on_ok (\<lambda>_.
            requireUniqueAt sc (ui_requireUnique input) asOf (on_ok (\<lambda>_.
            case owners of
              [] \<Rightarrow> write_actions asOf (createActions c)
                      (\<lambda>w. \<lparr>su_subject = cr_subject c, su_created = True, su_written = w\<rparr>)
            | subject # _ \<Rightarrow>
                Together (map (\<lambda>f. if fl_cardinality f = Single
                    then foundBy (valuesAt subject (fl_predicate f) asOf) else Done (Inr None)) (cr_fields c))
                  (on_ok (\<lambda>fs.
                    write_actions asOf (concat (map (upsertField subject) (zip (cr_fields c) fs)))
                      (\<lambda>w. \<lparr>su_subject = subject, su_created = False, su_written = w\<rparr>))))))
            (rejectOwners False owners)))))
     (normalizeUniqueInput v)"

section \<open>Updates\<close>

record cell =
  ce_subject :: jsval
  ce_field :: update_field

fun lookupPredicates :: "(jsval \<times> update) list \<Rightarrow> (jstr \<Rightarrow> jsval list) \<Rightarrow> (jstr \<Rightarrow> jsval list) res" where
  "lookupPredicates [] m = Inr m"
| "lookupPredicates ((s, u) # us) m =
     rbind (termKey s) (\<lambda>k. rbind (someSame (m k) (id_predicate (up_identity u))) (\<lambda>known.
       lookupPredicates us (m(k := (if known then m k else m k @ [id_predicate (up_identity u)])))))"

fun fieldCells :: "jsval \<Rightarrow> jsval list \<Rightarrow> update_field list \<Rightarrow> cell list \<times> jstr list \<Rightarrow> (cell list \<times> jstr list) res" where
  "fieldCells s protected [] st = Inr st"
| "fieldCells s protected (f # fs) (cells, keys) =
     rbind (someSame protected (uf_predicate f)) (\<lambda>hit.
     if hit then invalidInput
     else rbind (pairKey s (uf_predicate f)) (\<lambda>k.
     if k \<in> set keys then schemaError ''schema/duplicate-update-target''
     else fieldCells s protected fs (cells @ [\<lparr>ce_subject = s, ce_field = f\<rparr>], k # keys)))"

fun updateCells ::
  "(jstr \<Rightarrow> jsval list) \<Rightarrow> (jsval \<times> update) list \<Rightarrow> cell list \<times> jstr list \<Rightarrow> (cell list \<times> jstr list) res" where
  "updateCells m [] st = Inr st"
| "updateCells m ((s, u) # us) st =
     rbind (termKey s) (\<lambda>k. rbind (fieldCells s (m k) (up_fields u) st) (updateCells m us))"

text \<open>What \<open>resolveUpdates\<close> makes of the owners it has found: the subjects of the updates, and the cells.\<close>

definition resolveOwners :: "update list \<Rightarrow> found list \<Rightarrow> (jsval list \<times> cell list) res" where
  "resolveOwners updates fs =
     rbind (rmap (\<lambda>f. rbind (listOf f) requireSource) fs) (\<lambda>subjects.
     rbind (lookupPredicates (zip subjects updates) (\<lambda>_. [])) (\<lambda>m.
     rbind (updateCells m (zip subjects updates) ([], [])) (\<lambda>(cells, _). Inr (subjects, cells))))"

definition resolveUpdates ::
  "schema_client \<Rightarrow> update list \<Rightarrow> int \<Rightarrow> ((jsval list \<times> cell list) res \<Rightarrow> 'a io) \<Rightarrow> 'a io" where
  "resolveUpdates sc updates asOf h =
     Together (map (\<lambda>u. foundBy (ownersAt (queryTimeoutMs sc) (up_identity u) asOf)) updates)
       (\<lambda>outc. h (rbind outc (resolveOwners updates)))"

text \<open>The test of \<open>allowedCurrent\<close>: a compare before the set.\<close>

fun everySame :: "jsval list \<Rightarrow> jsval list \<Rightarrow> bool res" where
  "everySame allowed [] = Inr True"
| "everySame allowed (v # vs) = rbind (someSame allowed v) (\<lambda>b. if b then everySame allowed vs else Inr False)"

definition acceptsCurrent :: "cardinality \<Rightarrow> jsval list \<Rightarrow> jsval list \<Rightarrow> bool res" where
  "acceptsCurrent c allowed current =
     (if c = Multi then
        (if length current = length allowed then everySame allowed current else Inr False)
      else if allowed = [] then Inr (current = [])
      else (case current of [v] \<Rightarrow> someSame allowed v | _ \<Rightarrow> Inr False))"

definition singleNoop :: "update_field \<Rightarrow> jsval list \<Rightarrow> bool res" where
  "singleNoop f current =
     (if uf_cardinality f = Single \<and> length current = length (uf_values f)
      then (case current of [] \<Rightarrow> Inr True | v # _ \<Rightarrow> sameTerm v (hd (uf_values f)))
      else Inr False)"

definition appendCell :: "cell \<Rightarrow> jsval list \<Rightarrow> jsval list \<Rightarrow> jsval list res" where
  "appendCell ce current actions =
     (let f = ce_field ce in
      rbind (case uf_allowedCurrent f of
               None \<Rightarrow> Inr True
             | Some allowed \<Rightarrow> rbind (distinctTerms current) (acceptsCurrent (uf_cardinality f) allowed)) (\<lambda>accepted.
      if \<not> accepted then schemaError ''schema/current-value-rejected''
      else rbind (singleNoop f current) (\<lambda>noop.
      if noop then Inr actions
      else let actions' = actions @ map (retractAction (ce_subject ce) (uf_predicate f)) current @
                 map (assertAction (ce_subject ce) (uf_predicate f)) (uf_values f)
        in rbind (enforceActionLimit actions') (\<lambda>_. Inr actions'))))"

fun appendCells :: "(cell \<times> found) list \<Rightarrow> jsval list \<Rightarrow> jsval list res" where
  "appendCells [] actions = Inr actions"
| "appendCells ((ce, f) # cfs) actions =
     rbind (listOf f) (\<lambda>current. rbind (appendCell ce current actions) (appendCells cfs))"

definition appendUpdateActions ::
  "jsval list \<Rightarrow> cell list \<Rightarrow> int \<Rightarrow> (jsval list res \<Rightarrow> 'a io) \<Rightarrow> 'a io" where
  "appendUpdateActions actions cells asOf h =
     Together (map (\<lambda>ce. foundBy (valuesAt (ce_subject ce) (uf_predicate (ce_field ce)) asOf)) cells)
       (\<lambda>outc. h (rbind outc (\<lambda>fs. appendCells (zip cells fs) actions)))"

definition executeUpdateUniqueMany :: "schema_client \<Rightarrow> update_many \<Rightarrow> many_summary io" where
  "executeUpdateUniqueMany sc input =
     retrying (maxConflictRetries sc) (\<lambda>asOf.
       resolveUpdates sc (um_updates input) asOf (on_ok (\<lambda>(subjects, cells).
       requireUniqueAt sc (um_requireUnique input) asOf (on_ok (\<lambda>_.
       appendUpdateActions [] cells asOf (on_ok (\<lambda>actions.
       write_actions asOf actions (\<lambda>w. \<lparr>ms_subjects = subjects, ms_written = w\<rparr>))))))))"

definition updateUniqueMany :: "schema_client \<Rightarrow> jsval \<Rightarrow> many_summary io" where
  "updateUniqueMany sc v = on_ok (executeUpdateUniqueMany sc) (normalizeUpdateManyInput v)"

definition updateUnique :: "schema_client \<Rightarrow> jsval \<Rightarrow> summary io" where
  "updateUnique sc v =
     on_ok (\<lambda>input. io_then (executeUpdateUniqueMany sc input) (on_ok (\<lambda>m.
       Ret (Inr \<lparr>su_subject = hd (ms_subjects m), su_created = False, su_written = ms_written m\<rparr>))))
     (normalizeUpdateInput v)"

section \<open>Transactions\<close>

definition createCellKeys :: "create list \<Rightarrow> jstr list res" where
  "createCellKeys creates =
     rbind (rmap (\<lambda>c. rmap (pairKey (cr_subject c)) (id_predicate (cr_identity c) # map fl_predicate (cr_fields c))) creates)
       (\<lambda>ks. Inr (concat ks))"

definition rejectCollisions :: "create list \<Rightarrow> cell list \<Rightarrow> unit res" where
  "rejectCollisions creates cells =
     rbind (createCellKeys creates) (\<lambda>keys.
       checkAll (\<lambda>ce. rbind (pairKey (ce_subject ce) (uf_predicate (ce_field ce))) (\<lambda>k.
         if k \<in> set keys then schemaError ''schema/duplicate-update-target'' else Inr ())) cells)"

fun plannedBy :: "create list \<Rightarrow> (jstr \<Rightarrow> create option) \<Rightarrow> (jstr \<Rightarrow> create option) res" where
  "plannedBy [] m = Inr m"
| "plannedBy (c # cs) m = rbind (identityKey (cr_identity c)) (\<lambda>k. plannedBy cs (m(k \<mapsto> c)))"

fun requirementsOutside :: "(jstr \<Rightarrow> create option) \<Rightarrow> requirement list \<Rightarrow> requirement list res" where
  "requirementsOutside planned [] = Inr []"
| "requirementsOutside planned (r # rs) =
     rbind (identityKey r) (\<lambda>k.
       case planned k of
         None \<Rightarrow> rbind (requirementsOutside planned rs) (\<lambda>live. Inr (r # live))
       | Some c \<Rightarrow> rbind (sameTerm (cr_subject c) (rq_subject r)) (\<lambda>same.
           if same then requirementsOutside planned rs else schemaError ''schema/required-identity-missing''))"

definition requirementsOutsideCreateSet :: "requirement list \<Rightarrow> create list \<Rightarrow> requirement list res" where
  "requirementsOutsideCreateSet rs creates =
     rbind (plannedBy creates (\<lambda>_. None)) (\<lambda>planned. requirementsOutside planned rs)"

definition executeUniqueTransaction :: "schema_client \<Rightarrow> unique_transaction \<Rightarrow> transaction_summary io" where
  "executeUniqueTransaction sc input =
     retrying (maxConflictRetries sc) (\<lambda>asOf.
       Together (map (\<lambda>c. foundBy (ownersAt (queryTimeoutMs sc) (cr_identity c) asOf)) (ut_creates input)) (on_ok (\<lambda>fs.
       on_ok (\<lambda>_.
       resolveUpdates sc (ut_updates input) asOf (on_ok (\<lambda>(subjects, cells).
       on_ok (\<lambda>_. on_ok (\<lambda>live.
       requireUniqueAt sc live asOf (on_ok (\<lambda>_.
       let actions = concat (map createActions (ut_creates input))
       in on_ok (\<lambda>_.
          appendUpdateActions actions cells asOf (on_ok (\<lambda>actions'.
          write_actions asOf actions' (\<lambda>w. \<lparr>ts_createdSubjects = map cr_subject (ut_creates input),
            ts_updatedSubjects = subjects, ts_written = w\<rparr>))))
          (enforceActionLimit actions))))
       (requirementsOutsideCreateSet (ut_requireUnique input) (ut_creates input)))
       (rejectCollisions (ut_creates input) cells))))
       (checkAll (\<lambda>f. rbind (listOf f) (rejectOwners True)) fs))))"

definition transactUnique :: "schema_client \<Rightarrow> jsval \<Rightarrow> transaction_summary io" where
  "transactUnique sc v = on_ok (executeUniqueTransaction sc) (normalizeUniqueTransaction v)"

end
