(* ===== verification/SchemaRun.thy ===== *)
theory SchemaRun
  imports SchemaClient
begin

text \<open>
  How the programs of the schema client run against a FRAM client. A service is a relation \<open>srv s q s' a\<close>: in state
  \<open>s\<close> the call \<open>q\<close> is answered by \<open>a\<close> and leaves \<open>s'\<close>, which may include anything other clients did in between.
  \<open>exec\<close> runs a program and collects its calls; the pool of \<open>mapWithConcurrency\<close> is a machine of its own whose
  workers take their steps in any order.
\<close>

type_synonym 's service = "'s \<Rightarrow> fram_request \<Rightarrow> 's \<Rightarrow> jsval res \<Rightarrow> bool"

section \<open>The pool of workers\<close>

text \<open>
  The workers with the index and the rest of what they are running, the entries not yet taken, the results so far and
  the first error. A worker whose task has returned stores the result and takes the next entry, if there is one
  and nothing has failed.
\<close>

record pool =
  pl_running :: "(nat \<times> found task) list"
  pl_queue :: "(nat \<times> found task) list"
  pl_results :: "nat \<Rightarrow> found option"
  pl_failed :: "js_error option"

definition start_pool :: "nat \<Rightarrow> found task list \<Rightarrow> pool" where
  "start_pool concurrency ts =
     (let jobs = zip [0..<length ts] ts
      in \<lparr>pl_running = take concurrency jobs, pl_queue = drop concurrency jobs, pl_results = (\<lambda>_. None), pl_failed = None\<rparr>)"

definition next_entry :: "pool \<Rightarrow> (nat \<times> found task) list" where
  "next_entry p = (if pl_failed p = None then take 1 (pl_queue p) else [])"

inductive pool_step :: "'s service \<Rightarrow> pool \<Rightarrow> 's \<Rightarrow> fram_request list \<Rightarrow> pool \<Rightarrow> 's \<Rightarrow> bool" for srv where
  Answered: "pl_running p = xs @ (i, Ask q k) # ys \<Longrightarrow> srv s q s' a \<Longrightarrow>
    pool_step srv p s [q] (p\<lparr>pl_running := xs @ (i, k a) # ys\<rparr>) s'"
| Stored: "pl_running p = xs @ (i, Done (Inr x)) # ys \<Longrightarrow>
    pool_step srv p s [] (p\<lparr>pl_running := xs @ next_entry p @ ys, pl_queue := drop (length (next_entry p)) (pl_queue p),
      pl_results := (pl_results p)(i \<mapsto> x)\<rparr>) s"
| Threw: "pl_running p = xs @ (i, Done (Inl e)) # ys \<Longrightarrow>
    pool_step srv p s [] (p\<lparr>pl_running := xs @ ys,
      pl_failed := (case pl_failed p of None \<Rightarrow> Some e | Some e' \<Rightarrow> Some e')\<rparr>) s"

inductive pool_run :: "'s service \<Rightarrow> pool \<Rightarrow> 's \<Rightarrow> fram_request list \<Rightarrow> pool \<Rightarrow> 's \<Rightarrow> bool" for srv where
  Stop: "pl_running p = [] \<Longrightarrow> pool_run srv p s [] p s"
| Step: "pool_step srv p s tr1 p1 s1 \<Longrightarrow> pool_run srv p1 s1 tr2 p2 s2 \<Longrightarrow> pool_run srv p s (tr1 @ tr2) p2 s2"

definition pool_outcome :: "nat \<Rightarrow> pool \<Rightarrow> found list res" where
  "pool_outcome n p =
     (case pl_failed p of Some e \<Rightarrow> Inl e | None \<Rightarrow> Inr (map (\<lambda>i. the (pl_results p i)) [0..<n]))"

section \<open>Running a program\<close>

inductive exec :: "'s service \<Rightarrow> 'a io \<Rightarrow> 's \<Rightarrow> fram_request list \<Rightarrow> 'a res \<Rightarrow> 's \<Rightarrow> bool" for srv where
  Ret: "exec srv (Ret r) s [] r s"
| Await: "srv s q s1 a \<Longrightarrow> exec srv (k a) s1 tr r s2 \<Longrightarrow> exec srv (Await q k) s (q # tr) r s2"
| Together: "pool_run srv (start_pool SCHEMA_MAX_GUARD_CONCURRENCY ts) s tr1 p s1 \<Longrightarrow>
    exec srv (k (pool_outcome (length ts) p)) s1 tr2 r s2 \<Longrightarrow> exec srv (Together ts k) s (tr1 @ tr2) r s2"

inductive_cases exec_RetE [elim!]: "exec srv (Ret r) s tr r' s'"
inductive_cases exec_AwaitE: "exec srv (Await q k) s tr r s'"
inductive_cases exec_TogetherE: "exec srv (Together ts k) s tr r s'"

lemma exec_thenE:
  assumes "exec srv (io_then m h) s tr r s2"
  obtains tr1 r1 s1 tr2 where "exec srv m s tr1 r1 s1" "exec srv (h r1) s1 tr2 r s2" "tr = tr1 @ tr2"
  using assms
proof (induction m arbitrary: s tr thesis)
  case (Ret x)
  show ?case using Ret.prems(2) by (intro Ret.prems(1) [OF exec.Ret]) simp_all
next
  case (Await q k)
  from Await.prems(2) obtain s1 a tr1 where "srv s q s1 a" "exec srv (io_then (k a) h) s1 tr1 r s2" "tr = q # tr1"
    by (auto elim: exec_AwaitE)
  moreover from Await.IH [OF rangeI _ this(2)] obtain tr2 r1 s3 tr3 where
    "exec srv (k a) s1 tr2 r1 s3" "exec srv (h r1) s3 tr3 r s2" "tr1 = tr2 @ tr3" by blast
  ultimately show ?case using Await.prems(1) [of "q # tr2" r1 s3 tr3] exec.Await by fastforce
next
  case (Together ts k)
  from Together.prems(2) obtain p s1 tr1 tr2 where
    t: "pool_run srv (start_pool SCHEMA_MAX_GUARD_CONCURRENCY ts) s tr1 p s1"
      "exec srv (io_then (k (pool_outcome (length ts) p)) h) s1 tr2 r s2" "tr = tr1 @ tr2"
    by (auto elim: exec_TogetherE)
  from Together.IH [OF rangeI _ t(2)] obtain tr3 r1 s3 tr4 where
    u: "exec srv (k (pool_outcome (length ts) p)) s1 tr3 r1 s3" "exec srv (h r1) s3 tr4 r s2" "tr2 = tr3 @ tr4" by blast
  from exec.Together [where k = k, OF t(1) u(1)] u t(3) Together.prems(1) [of "tr1 @ tr3" r1 s3 tr4] show ?case by simp
qed

lemma exec_then: "exec srv m s tr1 r1 s1 \<Longrightarrow> exec srv (h r1) s1 tr2 r s2 \<Longrightarrow> exec srv (io_then m h) s (tr1 @ tr2) r s2"
proof (induction rule: exec.induct)
  case (Await s q s1 a k tr r1 s2')
  then show ?case by (auto intro: exec.Await)
next
  case (Together ts s tr1 p s1 k tr2' r1 s2')
  then show ?case by (auto intro!: exec.Together)
qed simp

section \<open>What a task establishes\<close>

text \<open>\<open>after srv t Q s\<close>: however the calls are answered, the task started in \<open>s\<close> returns in a state and with a result in \<open>Q\<close>.\<close>

primrec after :: "'s service \<Rightarrow> 'a task \<Rightarrow> ('s \<Rightarrow> 'a res \<Rightarrow> bool) \<Rightarrow> 's \<Rightarrow> bool" where
  "after srv (Done r) Q s = Q s r"
| "after srv (Ask q k) Q s = (\<forall>s' a. srv s q s' a \<longrightarrow> after srv (k a) Q s')"

lemma after_mono: "after srv t Q s \<Longrightarrow> (\<And>s r. Q s r \<Longrightarrow> R s r) \<Longrightarrow> after srv t R s"
  by (induction t arbitrary: s) auto

lemma after_then: "after srv (task_then t h) Q s \<longleftrightarrow> after srv t (\<lambda>s r. after srv (h r) Q s) s"
  by (induction t arbitrary: s) auto

lemma after_on_ok_task:
  "(\<And>e. r = Inl e \<Longrightarrow> Q s (Inl e)) \<Longrightarrow> (\<And>x. r = Inr x \<Longrightarrow> after srv (f x) Q s) \<Longrightarrow> after srv (on_ok_task f r) Q s"
  by (cases r) auto

lemma after_foundBy: "after srv (foundBy t) Q s \<longleftrightarrow> after srv t (\<lambda>s r. Q s (map_sum id Some r)) s"
  by (simp add: foundBy_def after_then)

lemma exec_io_taskE:
  assumes "exec srv (io_task t h) s tr r s2" "after srv t Q s"
  obtains s1 r1 tr2 where "Q s1 r1" "exec srv (h r1) s1 tr2 r s2"
  using assms
proof (induction t arbitrary: s tr thesis)
  case (Done x)
  then show ?case by simp
next
  case (Ask q k)
  from Ask.prems(2) obtain s1 a tr1 where "srv s q s1 a" "exec srv (io_task (k a) h) s1 tr1 r s2"
    by (auto elim: exec_AwaitE)
  with Ask.IH [OF rangeI Ask.prems(1)] Ask.prems(3) show ?case by auto
qed

section \<open>What a pool establishes\<close>

text \<open>No entry is forgotten: unless the pool has failed, each one has its result or is still to come.\<close>

definition covers :: "nat \<Rightarrow> pool \<Rightarrow> bool" where
  "covers n p \<longleftrightarrow> (pl_failed p = None \<longrightarrow>
     (\<forall>i < n. pl_results p i \<noteq> None \<or> i \<in> set (map fst (pl_running p @ pl_queue p))) \<and>
     (pl_running p = [] \<longrightarrow> pl_queue p = []))"

lemma next_entry_split:
  "\<exists>rest. pl_queue p = next_entry p @ rest \<and> (pl_failed p = None \<longrightarrow> next_entry p = [] \<longrightarrow> rest = [])"
  by (cases "pl_queue p") (auto simp: next_entry_def)

lemma pool_step_covers: "pool_step srv p s tr p' s' \<Longrightarrow> covers n p \<Longrightarrow> covers n p'"
proof (induction rule: pool_step.induct)
  case (Stored p xs i x ys s)
  obtain rest where "pl_queue p = next_entry p @ rest" "pl_failed p = None \<longrightarrow> next_entry p = [] \<longrightarrow> rest = []"
      using next_entry_split by blast
  with Stored show ?case by (auto simp: covers_def)
qed (auto simp: covers_def split: option.splits)

lemma start_pool_covers: "0 < c \<Longrightarrow> covers (length ts) (start_pool c ts)"
proof -
  let ?jobs = "zip [0..<length ts] ts"
  assume "0 < c"
  moreover have "map fst (take c ?jobs @ drop c ?jobs) = [0..<length ts]" by simp
  ultimately show ?thesis by (auto simp: covers_def start_pool_def Let_def simp del: map_append)
qed

text \<open>
  The interface of the reasoning about concurrent reads: calls of other workers may come first without a task
  noticing, and what a task has established stays true. Then every schedule of the pool leaves results of which
  each satisfies its own condition, in the order of the entries.
\<close>

locale interleaving =
  fixes srv :: "'s service"
  assumes absorbs: "srv s q s1 a \<Longrightarrow> srv s1 q' s2 a' \<Longrightarrow> srv s q' s2 a'"
begin

definition stable :: "('s \<Rightarrow> 'a \<Rightarrow> bool) \<Rightarrow> bool" where
  "stable Q \<longleftrightarrow> (\<forall>s q s' a r. srv s q s' a \<longrightarrow> Q s r \<longrightarrow> Q s' r)"

lemma after_stable:
  assumes "stable Q" "srv s q s' a" "after srv t Q s"
  shows "after srv t Q s'"
proof (cases t)
  case (Done r)
  with assms show ?thesis by (auto simp: stable_def)
next
  case (Ask q' k)
  with assms(3) absorbs [OF assms(2)] show ?thesis by auto
qed

definition jobs_ok :: "(nat \<Rightarrow> 's \<Rightarrow> found res \<Rightarrow> bool) \<Rightarrow> 's \<Rightarrow> (nat \<times> found task) list \<Rightarrow> bool" where
  "jobs_ok Q s = list_all (\<lambda>(i, t). after srv t (Q i) s)"

definition pool_ok :: "(nat \<Rightarrow> 's \<Rightarrow> found res \<Rightarrow> bool) \<Rightarrow> nat \<Rightarrow> pool \<Rightarrow> 's \<Rightarrow> bool" where
  "pool_ok Q n p s \<longleftrightarrow> jobs_ok Q s (pl_running p) \<and> jobs_ok Q s (pl_queue p) \<and>
     (\<forall>i x. pl_results p i = Some x \<longrightarrow> Q i s (Inr x)) \<and> covers n p"

lemma jobs_ok_append [simp]: "jobs_ok Q s (xs @ ys) \<longleftrightarrow> jobs_ok Q s xs \<and> jobs_ok Q s ys"
  "jobs_ok Q s ((i, t) # xs) \<longleftrightarrow> after srv t (Q i) s \<and> jobs_ok Q s xs" "jobs_ok Q s []"
  by (simp_all add: jobs_ok_def)

lemma jobs_ok_stable:
  assumes "\<And>i. stable (Q i)" "srv s q s' a"
  shows "jobs_ok Q s xs \<Longrightarrow> jobs_ok Q s' xs"
  by (induction xs) (auto dest: after_stable [OF assms])

lemma pool_step_ok:
  assumes "pool_step srv p s tr p' s'" "\<And>i. stable (Q i)" "pool_ok Q n p s"
  shows "pool_ok Q n p' s'"
proof -
  have "covers n p'" using pool_step_covers [OF assms(1)] assms(3) by (simp add: pool_ok_def)
  with assms show ?thesis
  proof (induction rule: pool_step.induct)
    case (Answered p xs i q k ys s s' a)
    note moved = jobs_ok_stable [OF Answered.prems(1) Answered.hyps(2)]
    have "Q j s' (Inr x)" if "pl_results p j = Some x" for j x
    proof -
      have "Q j s (Inr x)" using that Answered.prems(2) by (simp add: pool_ok_def)
      then show ?thesis using Answered.prems(1) [of j] Answered.hyps(2) unfolding stable_def by blast
    qed
    with Answered.prems(2,3) Answered.hyps show ?case by (simp add: pool_ok_def moved)
  next
    case (Stored p xs i x ys s)
    obtain rest where e: "pl_queue p = next_entry p @ rest" "pl_failed p = None \<longrightarrow> next_entry p = [] \<longrightarrow> rest = []"
      using next_entry_split by blast
    have "Q i s (Inr x)" using Stored.prems(2) Stored.hyps by (simp add: pool_ok_def)
    with Stored.prems(2,3) Stored.hyps e show ?case by (auto simp: pool_ok_def)
  next
    case (Threw p xs i e ys s)
    then show ?case by (simp add: pool_ok_def)
  qed
qed

lemma pool_run_ok:
  assumes "pool_run srv p s tr p' s'" "\<And>i. stable (Q i)" "pool_ok Q n p s"
  shows "pool_ok Q n p' s' \<and> pl_running p' = []"
  using assms by (induction rule: pool_run.induct) (auto dest: pool_step_ok)

lemma start_pool_ok:
  assumes "\<And>i. i < length ts \<Longrightarrow> after srv (ts ! i) (Q i) s" "0 < c"
  shows "pool_ok Q (length ts) (start_pool c ts) s"
proof -
  let ?jobs = "zip [0..<length ts] ts"
  have jobs: "jobs_ok Q s ?jobs" using assms(1) by (auto simp: jobs_ok_def list_all_iff set_zip)
  have "take c ?jobs @ drop c ?jobs = ?jobs" by simp
  then have "jobs_ok Q s (take c ?jobs)" "jobs_ok Q s (drop c ?jobs)" using jobs jobs_ok_append(1) by metis+
  with start_pool_covers [OF assms(2)] show ?thesis by (simp add: pool_ok_def) (simp add: start_pool_def Let_def)
qed

theorem together_results:
  assumes "pool_run srv (start_pool c ts) s tr p s'" "pool_outcome (length ts) p = Inr fs" "0 < c"
    "\<And>i. stable (Q i)" "\<And>i. i < length ts \<Longrightarrow> after srv (ts ! i) (Q i) s"
  shows "length fs = length ts \<and> (\<forall>i < length ts. Q i s' (Inr (fs ! i)))"
proof -
  have p: "pool_ok Q (length ts) p s'" "pl_running p = []"
    using pool_run_ok [OF assms(1,4) start_pool_ok [OF assms(5,3)]] by simp_all
  have f: "pl_failed p = None" "fs = map (\<lambda>i. the (pl_results p i)) [0..<length ts]"
    using assms(2) by (auto simp: pool_outcome_def split: option.splits)
  have "Q i s' (Inr (fs ! i))" if "i < length ts" for i
  proof -
    have "pl_results p i \<noteq> None" using p f(1) that by (auto simp: pool_ok_def covers_def)
    with p(1) f(2) that show ?thesis by (auto simp: pool_ok_def)
  qed
  with f(2) show ?thesis by simp
qed

end

end
