(* ===== verification/SchemaService.thy ===== *)
theory SchemaService
  imports SchemaRun
begin

text \<open>
  What the schema client relies on of a FRAM service, and what its operations then guarantee. A space is a growing
  sequence of versions with a set of Triples each. The contract \<open>occ_service\<close> says that reads at a version page
  through that version, that a scan serves the version it names, and that a batch expecting a version applies to
  that version or fails; other clients may act between any two calls.
\<close>

section \<open>Triples and actions\<close>

type_synonym triples = "(fterm \<times> fterm \<times> fterm) set"

definition owners_in :: "fterm \<Rightarrow> fterm \<Rightarrow> triples \<Rightarrow> fterm set" where
  "owners_in p x T = {a. (a, p, x) \<in> T}"

definition values_in :: "fterm \<Rightarrow> fterm \<Rightarrow> triples \<Rightarrow> fterm set" where
  "values_in a p T = {x. (a, p, x) \<in> T}"

datatype act = Assert fterm fterm fterm | Retract fterm fterm fterm

fun act_val :: "act \<Rightarrow> jsval" where
  "act_val (Assert a p x) = assertAction (rep_term a) (rep_term p) (rep_term x)"
| "act_val (Retract a p x) = retractAction (rep_term a) (rep_term p) (rep_term x)"

fun apply_act :: "act \<Rightarrow> triples \<Rightarrow> triples" where
  "apply_act (Assert a p x) T = insert (a, p, x) T"
| "apply_act (Retract a p x) T = T - {(a, p, x)}"

definition apply_all :: "act list \<Rightarrow> triples \<Rightarrow> triples" where
  "apply_all acts T = fold apply_act acts T"

lemma apply_all_append: "apply_all (xs @ ys) T = apply_all ys (apply_all xs T)"
  by (simp add: apply_all_def)

lemma apply_asserts: "apply_all (map (\<lambda>(a, p, x). Assert a p x) ts) T = T \<union> set ts"
  by (induction ts arbitrary: T) (auto simp: apply_all_def)

lemma apply_retracts: "apply_all (map (Retract a p) xs) T = T - {(a, p, x) | x. x \<in> set xs}"
  by (induction xs arbitrary: T) (auto simp: apply_all_def)

lemma rep_term_array: "\<exists>vs. rep_term t = JArr vs"
  by (cases t) simp_all

lemma toTerm_rep_Inr: "toTerm (rep_term t) = Inr u \<Longrightarrow> u = rep_term t"
  using rep_term_array [of t] by (auto simp: toTerm_def rbind_Inr_iff)

section \<open>What the checks on inputs leave\<close>

text \<open>Normal forms over Terms, for inputs given as canonical arrays or as plain values.\<close>

definition identity_of :: "fterm \<Rightarrow> fterm \<Rightarrow> identity" where
  "identity_of p x = \<lparr>id_predicate = rep_term p, id_value = rep_term x\<rparr>"

fun rep_field :: "fterm \<times> fterm \<times> cardinality \<Rightarrow> field" where
  "rep_field (q, y, c) = \<lparr>fl_predicate = rep_term q, fl_value = rep_term y, fl_cardinality = c\<rparr>"

definition rep_create :: "fterm \<Rightarrow> fterm \<Rightarrow> fterm \<Rightarrow> (fterm \<times> fterm \<times> cardinality) list \<Rightarrow> create" where
  "rep_create a p x fs = \<lparr>cr_subject = rep_term a, cr_identity = identity_of p x, cr_fields = map rep_field fs\<rparr>"

fun rep_requirement :: "fterm \<times> fterm \<times> fterm \<Rightarrow> requirement" where
  "rep_requirement (a, p, x) = \<lparr>id_predicate = rep_term p, id_value = rep_term x, rq_subject = rep_term a\<rparr>"

definition create_acts :: "fterm \<Rightarrow> fterm \<Rightarrow> fterm \<Rightarrow> (fterm \<times> fterm \<times> cardinality) list \<Rightarrow> act list" where
  "create_acts a p x fs = map (\<lambda>(b, q, y). Assert b q y) ((a, p, x) # map (\<lambda>(q, y, c). (a, q, y)) fs)"

lemma createActions_rep: "createActions (rep_create a p x fs) = map act_val (create_acts a p x fs)"
  by (auto simp: createActions_def rep_create_def identity_of_def create_acts_def)

lemma identityQuery_requirement: "identityQuery (rep_requirement (a, p, x)) = identityQuery (identity_of p x)"
  by (simp add: identityQuery_def identity_of_def)

lemma addField_fields:
  "addField i v (fls, m) = Inr st \<Longrightarrow>
    fst st = fls \<or> (\<exists>f. fst st = fls @ [f] \<and> sameTerm (fl_predicate f) (id_predicate i) = Inr False)"
  by (auto simp: addField_def schemaError_def res_simps split: if_splits option.splits)

lemma addFields_fields:
  "addFields i vs (fls, m) = Inr (fls', m') \<Longrightarrow> \<forall>f \<in> set fls. sameTerm (fl_predicate f) (id_predicate i) = Inr False \<Longrightarrow>
    \<forall>f \<in> set fls'. sameTerm (fl_predicate f) (id_predicate i) = Inr False"
proof (induction vs arbitrary: fls m)
  case (Cons v vs)
  then obtain st where st: "addField i v (fls, m) = Inr st" "addFields i vs st = Inr (fls', m')" by (auto simp: res_simps)
  then have "\<forall>f \<in> set (fst st). sameTerm (fl_predicate f) (id_predicate i) = Inr False"
    using addField_fields [OF st(1)] Cons.prems(2) by auto
  with Cons.IH [of "fst st" "snd st"] st(2) show ?case by simp
qed simp

lemma normalizeCreateRecord_fields:
  "normalizeCreateRecord b v = Inr (c, fs) \<Longrightarrow>
    \<forall>f \<in> set (cr_fields c). sameTerm (fl_predicate f) (id_predicate (cr_identity c)) = Inr False"
  by (auto simp: normalizeCreateRecord_def res_simps dest!: addFields_fields)

lemma create_fields_other:
  "\<forall>f \<in> set (cr_fields (rep_create a p x fs)). sameTerm (fl_predicate f) (id_predicate (cr_identity (rep_create a p x fs))) = Inr False \<Longrightarrow>
    (q, y, c) \<in> set fs \<Longrightarrow> q \<noteq> p"
  by (force simp: rep_create_def identity_of_def)

section \<open>Runs that succeed\<close>

lemma exec_on_okE:
  assumes "exec srv (on_ok f r) s tr (Inr x) s'"
  obtains y where "r = Inr y" "exec srv (f y) s tr (Inr x) s'"
  using assms by (cases r) auto

lemma exec_await_okE:
  assumes "exec srv (Await q (on_ok f)) s tr (Inr x) s'"
  obtains s1 a tr' where "srv s q s1 (Inr a)" "exec srv (f a) s1 tr' (Inr x) s'"
  using assms by (elim exec_AwaitE exec_on_okE) simp_all

lemma exec_RetD: "exec srv (Ret r) s tr r' s' \<Longrightarrow> r' = r \<and> s' = s"
  by auto

section \<open>The contract\<close>

text \<open>
  One page: its Terms and the ones the continuation cursor stands for are together those of the request.
\<close>

definition pages_to :: "(jsval \<Rightarrow> fterm set) \<Rightarrow> jsval \<Rightarrow> fterm list \<Rightarrow> fterm set \<Rightarrow> bool" where
  "pages_to rest r ts all \<longleftrightarrow> set ts \<subseteq> all \<and> (finished r \<longrightarrow> set ts = all) \<and>
     (\<forall>c. \<not> finished r \<longrightarrow> toTerm (propOf (propOf r ''page'') ''nextCursor'') = Inr c \<longrightarrow> set ts \<union> rest c = all)"

text \<open>Version \<open>w\<close> has the Triples \<open>T\<close>, and nothing changed from \<open>v\<close> until then.\<close>

definition follows :: "('s \<Rightarrow> int) \<Rightarrow> ('s \<Rightarrow> int \<Rightarrow> triples) \<Rightarrow> 's \<Rightarrow> int \<Rightarrow> int \<Rightarrow> triples \<Rightarrow> bool" where
  "follows now snap s v w T \<longleftrightarrow>
     v \<le> w \<and> w \<le> now s \<and> snap s w = T \<and> (\<forall>y. v \<le> y \<longrightarrow> y < w \<longrightarrow> snap s y = snap s v)"

locale occ_service = interleaving srv for srv :: "'s service" +
  fixes now :: "'s \<Rightarrow> int"
    and snap :: "'s \<Rightarrow> int \<Rightarrow> triples"
    and more :: "'s \<Rightarrow> jsval \<Rightarrow> int \<Rightarrow> jsval \<Rightarrow> fterm set"
  assumes now_grows: "srv s q s' ans \<Longrightarrow> now s \<le> now s'"
    and snap_fixed: "srv s q s' ans \<Longrightarrow> v \<le> now s \<Longrightarrow> snap s' v = snap s v"
    and more_fixed: "srv s q s' ans \<Longrightarrow> v \<le> now s \<Longrightarrow> more s' what v k = more s what v k"
    and version_served: "srv s (Call (MVersion JUndef)) s' (Inr r) \<Longrightarrow> responseVersion r = Inr v \<Longrightarrow> v \<le> now s'"
    and query_paged: "srv s (Call (MQuery (identityQuery (identity_of p x)) (query_options timeout v c))) s' (Inr r) \<Longrightarrow>
      v \<le> now s \<Longrightarrow> responseVersion r = Inr v \<Longrightarrow> responseArray r = Inr rows \<Longrightarrow>
      \<exists>os. rows = map (\<lambda>u. JArr [rep_term u]) os \<and>
        pages_to (more s' (identityQuery (identity_of p x)) v) r os
          (case c of None \<Rightarrow> owners_in p x (snap s' v) | Some c' \<Rightarrow> more s' (identityQuery (identity_of p x)) v c')"
    and scan_paged: "srv s (Call (MScan (scan_pattern (rep_term e) (rep_term p)) (scan_options c))) s' (Inr r) \<Longrightarrow>
      responseVersion r = Inr v \<Longrightarrow> responseArray r = Inr rows \<Longrightarrow>
      v \<le> now s' \<and> (\<exists>xs. rows = map (\<lambda>x. rep_term (FTriple e p x)) xs \<and>
        pages_to (more s' (scan_pattern (rep_term e) (rep_term p)) v) r xs
          (case c of None \<Rightarrow> values_in e p (snap s' v) | Some c' \<Rightarrow> more s' (scan_pattern (rep_term e) (rep_term p)) v c'))"
    and batch_applied: "srv s (Call (MBatch (JArr (map act_val acts))
        (JObj [(js ''expectedVersion'', JBigInt v), (js ''preflight'', pf)]))) s' (Inr r) \<Longrightarrow> responseVersion r = Inr w \<Longrightarrow>
      v \<le> w \<and> w \<le> now s' \<and> snap s' w = apply_all acts (snap s' v) \<and> (\<forall>y. v \<le> y \<longrightarrow> y < w \<longrightarrow> snap s' y = snap s' v)"
begin

section \<open>Reads\<close>

text \<open>What a read has established about the snapshot of version \<open>v\<close>, by the bound the code reads up to.\<close>

definition read_ok :: "int \<Rightarrow> (triples \<Rightarrow> fterm set) \<Rightarrow> nat \<Rightarrow> 's \<Rightarrow> jsval list \<Rightarrow> bool" where
  "read_ok v sel most s vs \<longleftrightarrow> v \<le> now s \<and>
     (\<exists>ts. vs = map rep_term ts \<and> set ts \<subseteq> sel (snap s v) \<and> length ts \<le> most \<and> (length ts < most \<longrightarrow> set ts = sel (snap s v)))"

definition some_read :: "int \<Rightarrow> (triples \<Rightarrow> fterm set) \<Rightarrow> nat \<Rightarrow> 's \<Rightarrow> found \<Rightarrow> bool" where
  "some_read v sel most s f \<longleftrightarrow> (\<exists>vs. f = Some vs \<and> read_ok v sel most s vs)"

lemma read_ok_stable: "srv s q s' a \<Longrightarrow> read_ok v sel most s vs \<Longrightarrow> read_ok v sel most s' vs"
  using now_grows [of s q s' a] snap_fixed [of s q s' a v] by (auto simp: read_ok_def)

lemma some_read_stable: "stable (some_read v sel most)"
  unfolding stable_def some_read_def using read_ok_stable by metis

lemma collectRows_rep:
  assumes "collectRows most (map (\<lambda>u. JArr [rep_term u]) rs) (map rep_term os, ks) = Inr st'" "set ks = key_text ` set os"
    "distinct os" "length os < most"
  shows "\<exists>os'. fst st' = map rep_term os' \<and> set (snd st') = key_text ` set os' \<and> distinct os' \<and> length os' \<le> most \<and>
    set os \<subseteq> set os' \<and> set os' \<subseteq> set os \<union> set rs \<and> (length os' < most \<longrightarrow> set os' = set os \<union> set rs)"
  using assms
proof (induction rs arbitrary: os ks)
  case Nil
  then show ?case by auto
next
  case (Cons t rs)
  have key: "key_text t \<in> set ks \<longleftrightarrow> t \<in> set os" using Cons.prems(2) by auto
  from Cons.prems(1) have row: "toTerm (rep_term t) = Inr (rep_term t)"
    by (auto simp: rowTerm_def res_simps dest: toTerm_rep_Inr)
  show ?case
  proof (cases "t \<in> set os")
    case True
    with Cons.prems row key have "collectRows most (map (\<lambda>u. JArr [rep_term u]) rs) (map rep_term os, ks) = Inr st'"
      by (simp add: rowTerm_def)
    from Cons.IH [OF this Cons.prems(2-4)] True show ?thesis by auto
  next
    case False
    let ?os = "os @ [t]"
    have k: "set (key_text t # ks) = key_text ` set ?os" "distinct ?os" using Cons.prems False by auto
    show ?thesis
    proof (cases "length os + 1 = most")
      case True
      with Cons.prems row key False have "st' = (map rep_term ?os, key_text t # ks)" by (auto simp: rowTerm_def)
      with k True show ?thesis by (intro exI [of _ ?os]) auto
    next
      case More: False
      with Cons.prems row key False
      have "collectRows most (map (\<lambda>u. JArr [rep_term u]) rs) (map rep_term ?os, key_text t # ks) = Inr st'"
        by (simp add: rowTerm_def)
      from Cons.IH [OF this k] More Cons.prems(4) show ?thesis by auto
    qed
  qed
qed

lemma continuationCursor_ok:
  "continuationCursor r n seen = Inr (c, seen') \<Longrightarrow> \<not> finished r \<Longrightarrow>
    toTerm (propOf (propOf r ''page'') ''nextCursor'') = Inr c"
  by (auto simp: continuationCursor_def schemaError_def res_simps split: if_splits)

definition outcome_ok :: "('s \<Rightarrow> 'a \<Rightarrow> bool) \<Rightarrow> 's \<Rightarrow> 'a res \<Rightarrow> bool" where
  "outcome_ok P s r \<longleftrightarrow> (\<forall>x. r = Inr x \<longrightarrow> P s x)"

lemma outcome_ok_simps [simp]: "outcome_ok P s (Inl e)" "outcome_ok P s (Inr x) \<longleftrightarrow> P s x"
  "outcome_ok P s (schemaError c)"
  by (simp_all add: outcome_ok_def schemaError_def)

lemma after_on_ok: "(\<And>x. r = Inr x \<Longrightarrow> after srv (f x) (outcome_ok P) s) \<Longrightarrow> after srv (on_ok_task f r) (outcome_ok P) s"
  by (rule after_on_ok_task) simp_all

lemma after_if:
  "(b \<Longrightarrow> after srv m P s) \<Longrightarrow> (\<not> b \<Longrightarrow> after srv m' P s) \<Longrightarrow> after srv (if b then m else m') P s"
  by simp

lemma after_prod: "(\<And>u w. x = (u, w) \<Longrightarrow> after srv (f u w) P s) \<Longrightarrow> after srv (case x of (u, w) \<Rightarrow> f u w) P s"
  by (cases x) simp

lemmas after_intros = after_on_ok after_if after_prod

lemma readPages_ok:
  assumes "v \<le> now s" "fst st = map rep_term os" "set (snd st) = key_text ` set os" "distinct os" "length os \<le> most"
    "set os \<union> (case c of None \<Rightarrow> owners_in p x (snap s v) | Some k \<Rightarrow> more s (identityQuery (identity_of p x)) v k) =
       owners_in p x (snap s v)"
  shows "after srv (readPages timeout (identityQuery (identity_of p x)) v most st seen n c) (outcome_ok (read_ok v (owners_in p x) most)) s"
  using assms
proof (induction timeout "identityQuery (identity_of p x)" v most st seen n c arbitrary: s os rule: readPages.induct)
  case (1 timeout v most st seen n c)
  let ?Q = "identityQuery (identity_of p x)" and ?O = "owners_in p x (snap s v)"
  show ?case
  proof (cases "most \<le> length (fst st)")
    case True
    with "1.prems" show ?thesis
      by (subst readPages.simps) (auto simp: read_ok_def intro!: exI [of _ os])
  next
    case False
    have page: "\<exists>os'. fst st' = map rep_term os' \<and> set (snd st') = key_text ` set os' \<and> distinct os' \<and> length os' \<le> most \<and>
        set os' \<subseteq> ?O \<and> (finished r \<longrightarrow> length os' < most \<longrightarrow> set os' = ?O) \<and>
        (\<forall>c' seen'. \<not> finished r \<longrightarrow> continuationCursor r m seen = Inr (c', seen') \<longrightarrow> length os' < most \<longrightarrow>
          set os' \<union> more s' ?Q v c' = ?O)"
      and grown: "v \<le> now s'" "snap s' v = snap s v"
      if a: "srv s (Call (MQuery ?Q (query_options timeout v c))) s' (Inr r)" "responseVersion r = Inr v"
        "responseArray r = Inr rows" "collectRows most rows st = Inr st'" for s' r rows st' m
    proof -
      show "v \<le> now s'" "snap s' v = snap s v"
        using now_grows [OF a(1)] snap_fixed [OF a(1) "1.prems"(1)] "1.prems"(1) by auto
      obtain rs where rs: "rows = map (\<lambda>u. JArr [rep_term u]) rs"
        "pages_to (more s' ?Q v) r rs (case c of None \<Rightarrow> owners_in p x (snap s' v) | Some c' \<Rightarrow> more s' ?Q v c')"
        using query_paged [OF a(1) "1.prems"(1) a(2,3)] by blast
      have "(case c of None \<Rightarrow> owners_in p x (snap s' v) | Some c' \<Rightarrow> more s' ?Q v c') =
          (case c of None \<Rightarrow> ?O | Some k \<Rightarrow> more s ?Q v k)"
        using snap_fixed [OF a(1) "1.prems"(1)] more_fixed [OF a(1) "1.prems"(1)] by (simp split: option.split)
      with rs(2) have pg: "pages_to (more s' ?Q v) r rs (case c of None \<Rightarrow> ?O | Some k \<Rightarrow> more s ?Q v k)" by simp
      have "collectRows most (map (\<lambda>u. JArr [rep_term u]) rs) (map rep_term os, snd st) = Inr st'"
        using a(4) rs(1) "1.prems"(2) by (metis prod.collapse)
      from collectRows_rep [OF this "1.prems"(3,4)] False "1.prems"(2) obtain os' where
        os': "fst st' = map rep_term os'" "set (snd st') = key_text ` set os'" "distinct os'" "length os' \<le> most"
        "set os' \<subseteq> set os \<union> set rs" "length os' < most \<longrightarrow> set os' = set os \<union> set rs" by auto
      show "\<exists>os'. fst st' = map rep_term os' \<and> set (snd st') = key_text ` set os' \<and> distinct os' \<and> length os' \<le> most \<and>
        set os' \<subseteq> ?O \<and> (finished r \<longrightarrow> length os' < most \<longrightarrow> set os' = ?O) \<and>
        (\<forall>c' seen'. \<not> finished r \<longrightarrow> continuationCursor r m seen = Inr (c', seen') \<longrightarrow> length os' < most \<longrightarrow>
          set os' \<union> more s' ?Q v c' = ?O)"
      proof (intro exI [of _ os'] conjI allI impI)
        show "set os' \<subseteq> ?O" using os'(5) pg "1.prems"(6) by (auto simp: pages_to_def)
        show "set os' = ?O" if "finished r" "length os' < most"
          using os'(6) pg "1.prems"(6) that by (auto simp: pages_to_def)
        show "set os' \<union> more s' ?Q v c' = ?O" if "\<not> finished r" "continuationCursor r m seen = Inr (c', seen')" "length os' < most" for c' seen'
          using os'(6) pg "1.prems"(6) that continuationCursor_ok [OF that(2,1)] by (auto simp: pages_to_def)
      qed (use os' in auto)
    qed
    show ?thesis
      apply (subst readPages.simps)
      apply (simp only: False if_False after.simps)
      apply (intro allI impI after_intros)
      subgoal by simp
      subgoal for s' a r served rows st'
        using page [of s' r rows st' 0] grown [of s' r rows st'] by (auto simp: read_ok_def)
      subgoal premises hs for s' a r served rows st' ck c' seen'
      proof -
        have v: "served = v" using hs(4) by simp
        note a = hs(1) [unfolded hs(2)] hs(3) [unfolded v] hs(5,6)
        obtain os' where os': "fst st' = map rep_term os'" "set (snd st') = key_text ` set os'" "distinct os'" "length os' \<le> most"
          "\<forall>c' seen'. \<not> finished r \<longrightarrow> continuationCursor r (n + 1) seen = Inr (c', seen') \<longrightarrow> length os' < most \<longrightarrow>
             set os' \<union> more s' ?Q v c' = ?O"
          using page [OF a, of "n + 1"] by (elim exE conjE) (rule that)
        have more: "set os' \<union> more s' ?Q v c' = owners_in p x (snap s' v)"
          using os'(4,5) hs(7,8,9) os'(1) grown(2) [OF a] by auto
        show ?thesis
          using more by (intro 1(1) [OF False hs(3-8) hs(9) [symmetric] grown(1) [OF a] os'(1-4)]) simp
      qed
      done
  qed
qed

lemma ownersAt_ok:
  assumes "v \<le> now s"
  shows "after srv (ownersAt timeout (identity_of p x) v) (outcome_ok (read_ok v (owners_in p x) 2)) s"
  unfolding ownersAt_def readColumn_def by (rule readPages_ok [OF assms, of _ "[]"]) simp_all

lemma collectValues_rep:
  assumes "collectValues (rep_term e) (rep_term p) (map (\<lambda>x. rep_term (FTriple e p x)) rs) (map rep_term xs) = Inr vs"
    "length xs \<le> SCHEMA_MAX_BATCH_ACTIONS"
  shows "\<exists>ys. vs = map rep_term (xs @ ys) \<and> set ys \<subseteq> set rs \<and> length (xs @ ys) \<le> SCHEMA_MAX_BATCH_ACTIONS + 1 \<and>
    (length (xs @ ys) \<le> SCHEMA_MAX_BATCH_ACTIONS \<longrightarrow> ys = rs)"
  using assms
proof (induction rs arbitrary: xs)
  case Nil
  then show ?case by auto
next
  case (Cons x rs)
  have tag: "js_lit ''triple'' = JStr (js ''triple'')" by (simp add: js_lit_def)
  have row: "toTerm (rep_term (FTriple e p x)) = Inr (rep_term (FTriple e p x))"
    using Cons.prems(1) by (auto simp: rbind_Inr_iff simp del: rep_term.simps dest: toTerm_rep_Inr)
  show ?case
  proof (cases "length xs + 1 = SCHEMA_MAX_BATCH_ACTIONS + 1")
    case True
    with Cons.prems row have "vs = map rep_term (xs @ [x])" by (simp add: tag)
    with True show ?thesis by (intro exI [of _ "[x]"]) auto
  next
    case False
    with Cons.prems row have "collectValues (rep_term e) (rep_term p) (map (\<lambda>x. rep_term (FTriple e p x)) rs)
        (map rep_term (xs @ [x])) = Inr vs" by (simp add: tag)
    from Cons.IH [OF this] False Cons.prems(2) obtain ys where
      "vs = map rep_term ((xs @ [x]) @ ys)" "set ys \<subseteq> set rs" "length ((xs @ [x]) @ ys) \<le> SCHEMA_MAX_BATCH_ACTIONS + 1"
      "length ((xs @ [x]) @ ys) \<le> SCHEMA_MAX_BATCH_ACTIONS \<longrightarrow> ys = rs" by auto
    then show ?thesis by (intro exI [of _ "x # ys"]) auto
  qed
qed

lemma scanPages_ok:
  assumes "v \<le> now s" "vs = map rep_term xs" "length xs \<le> SCHEMA_MAX_BATCH_ACTIONS + 1" "set xs \<subseteq> values_in e p (snap s v)"
    "length xs \<le> SCHEMA_MAX_BATCH_ACTIONS \<longrightarrow>
      set xs \<union> (case c of None \<Rightarrow> values_in e p (snap s v) | Some k \<Rightarrow> more s (scan_pattern (rep_term e) (rep_term p)) v k) =
        values_in e p (snap s v)"
  shows "after srv (scanPages (rep_term e) (rep_term p) v vs seen n c)
    (outcome_ok (read_ok v (values_in e p) (SCHEMA_MAX_BATCH_ACTIONS + 1))) s"
  using assms
proof (induction "rep_term e" "rep_term p" v vs seen n c arbitrary: s xs rule: scanPages.induct)
  case (1 v vs seen n c)
  let ?Q = "scan_pattern (rep_term e) (rep_term p)" and ?V = "values_in e p (snap s v)"
  show ?case
  proof (cases "SCHEMA_MAX_BATCH_ACTIONS + 1 \<le> length vs")
    case True
    with "1.prems" show ?thesis
      by (subst scanPages.simps) (auto simp: read_ok_def intro!: exI [of _ xs])
  next
    case False
    have page: "\<exists>ys. vs' = map rep_term (xs @ ys) \<and> length (xs @ ys) \<le> SCHEMA_MAX_BATCH_ACTIONS + 1 \<and> set (xs @ ys) \<subseteq> ?V \<and>
        (length (xs @ ys) \<le> SCHEMA_MAX_BATCH_ACTIONS \<longrightarrow> finished r \<longrightarrow> set (xs @ ys) = ?V) \<and>
        (\<forall>c' seen'. \<not> finished r \<longrightarrow> continuationCursor r m seen = Inr (c', seen') \<longrightarrow> length (xs @ ys) \<le> SCHEMA_MAX_BATCH_ACTIONS \<longrightarrow>
          set (xs @ ys) \<union> more s' ?Q v c' = ?V)"
      and grown: "v \<le> now s'" "snap s' v = snap s v"
      if a: "srv s (Call (MScan ?Q (scan_options c))) s' (Inr r)" "responseVersion r = Inr v"
        "responseArray r = Inr rows" "collectValues (rep_term e) (rep_term p) rows vs = Inr vs'" for s' r rows vs' m
    proof -
      show "v \<le> now s'" "snap s' v = snap s v"
        using now_grows [OF a(1)] snap_fixed [OF a(1) "1.prems"(1)] "1.prems"(1) by auto
      obtain rs where rs: "rows = map (\<lambda>x. rep_term (FTriple e p x)) rs"
        "pages_to (more s' ?Q v) r rs (case c of None \<Rightarrow> values_in e p (snap s' v) | Some c' \<Rightarrow> more s' ?Q v c')"
        using scan_paged [OF a(1-3)] by blast
      have "(case c of None \<Rightarrow> values_in e p (snap s' v) | Some c' \<Rightarrow> more s' ?Q v c') =
          (case c of None \<Rightarrow> ?V | Some k \<Rightarrow> more s ?Q v k)"
        using snap_fixed [OF a(1) "1.prems"(1)] more_fixed [OF a(1) "1.prems"(1)] by (simp split: option.split)
      with rs(2) have pg: "pages_to (more s' ?Q v) r rs (case c of None \<Rightarrow> ?V | Some k \<Rightarrow> more s ?Q v k)" by simp
      have short: "length xs \<le> SCHEMA_MAX_BATCH_ACTIONS" using False "1.prems"(2) by simp
      have all: "set xs \<union> (case c of None \<Rightarrow> ?V | Some k \<Rightarrow> more s ?Q v k) = ?V" using "1.prems"(5) short by blast
      obtain ys where ys: "vs' = map rep_term (xs @ ys)" "set ys \<subseteq> set rs" "length (xs @ ys) \<le> SCHEMA_MAX_BATCH_ACTIONS + 1"
        "length (xs @ ys) \<le> SCHEMA_MAX_BATCH_ACTIONS \<longrightarrow> ys = rs"
        using collectValues_rep [OF a(4) [unfolded rs(1) "1.prems"(2)] short] by blast
      show "\<exists>ys. vs' = map rep_term (xs @ ys) \<and> length (xs @ ys) \<le> SCHEMA_MAX_BATCH_ACTIONS + 1 \<and> set (xs @ ys) \<subseteq> ?V \<and>
        (length (xs @ ys) \<le> SCHEMA_MAX_BATCH_ACTIONS \<longrightarrow> finished r \<longrightarrow> set (xs @ ys) = ?V) \<and>
        (\<forall>c' seen'. \<not> finished r \<longrightarrow> continuationCursor r m seen = Inr (c', seen') \<longrightarrow> length (xs @ ys) \<le> SCHEMA_MAX_BATCH_ACTIONS \<longrightarrow>
          set (xs @ ys) \<union> more s' ?Q v c' = ?V)"
      proof (intro exI [of _ ys] conjI allI impI)
        show "set (xs @ ys) \<subseteq> ?V" using ys(2) pg all by (auto simp: pages_to_def)
        show "set (xs @ ys) = ?V" if "finished r" "length (xs @ ys) \<le> SCHEMA_MAX_BATCH_ACTIONS"
          using ys(4) pg all that by (auto simp: pages_to_def)
        show "set (xs @ ys) \<union> more s' ?Q v c' = ?V"
          if "\<not> finished r" "continuationCursor r m seen = Inr (c', seen')" "length (xs @ ys) \<le> SCHEMA_MAX_BATCH_ACTIONS" for c' seen'
          using ys(4) pg all that continuationCursor_ok [OF that(2,1)] by (auto simp: pages_to_def)
      qed (use ys in auto)
    qed
    show ?thesis
      apply (subst scanPages.simps)
      apply (simp only: False if_False after.simps)
      apply (intro allI impI after_intros)
      subgoal by simp
      subgoal premises hs for s' a r served rows vs'
      proof -
        have v: "served = v" using hs(4) by simp
        note a = hs(1) [unfolded hs(2)] hs(3) [unfolded v] hs(5,6)
        obtain ys where ys: "vs' = map rep_term (xs @ ys)" "length (xs @ ys) \<le> SCHEMA_MAX_BATCH_ACTIONS + 1" "set (xs @ ys) \<subseteq> ?V"
          "length (xs @ ys) \<le> SCHEMA_MAX_BATCH_ACTIONS \<longrightarrow> finished r \<longrightarrow> set (xs @ ys) = ?V"
          using page [OF a, of 0] by (elim exE conjE) (rule that)
        then have "length (xs @ ys) < SCHEMA_MAX_BATCH_ACTIONS + 1 \<longrightarrow> set (xs @ ys) = ?V" using hs(7) by auto
        with ys(1-3) grown [OF a] show ?thesis
          by (simp only: after.simps outcome_ok_simps read_ok_def) (intro conjI exI [of _ "xs @ ys"]; simp)
      qed
      subgoal premises hs for s' a r served rows vs' ck c' seen'
      proof -
        have v: "served = v" using hs(4) by simp
        note a = hs(1) [unfolded hs(2)] hs(3) [unfolded v] hs(5,6)
        obtain ys where ys: "vs' = map rep_term (xs @ ys)" "length (xs @ ys) \<le> SCHEMA_MAX_BATCH_ACTIONS + 1" "set (xs @ ys) \<subseteq> ?V"
          "\<forall>c' seen'. \<not> finished r \<longrightarrow> continuationCursor r (n + 1) seen = Inr (c', seen') \<longrightarrow>
             length (xs @ ys) \<le> SCHEMA_MAX_BATCH_ACTIONS \<longrightarrow> set (xs @ ys) \<union> more s' ?Q v c' = ?V"
          using page [OF a, of "n + 1"] by (elim exE conjE) (rule that)
        have "length (xs @ ys) \<le> SCHEMA_MAX_BATCH_ACTIONS" using hs(7) ys(1,2) by simp
        then have more: "set (xs @ ys) \<union> more s' ?Q v c' = values_in e p (snap s' v)"
          using ys(4) hs(7-9) grown(2) [OF a] by (simp del: set_append)
        show ?thesis
          using more ys(3) grown(2) [OF a]
          by (intro 1(1) [OF False hs(3-8) hs(9) [symmetric] grown(1) [OF a] ys(1,2)]) simp_all
      qed
      done
  qed
qed

lemma valuesAt_ok:
  assumes "v \<le> now s"
  shows "after srv (valuesAt (rep_term e) (rep_term p) v) (outcome_ok (read_ok v (values_in e p) (SCHEMA_MAX_BATCH_ACTIONS + 1))) s"
  unfolding valuesAt_def by (rule scanPages_ok [OF assms, of _ "[]"]) simp_all

lemma map_sum_Inr_iff: "map_sum f g r = Inr y \<longleftrightarrow> (\<exists>x. r = Inr x \<and> y = g x)"
  by (cases r) auto

lemma after_found:
  "after srv t (outcome_ok (read_ok v sel most)) s \<Longrightarrow> after srv (foundBy t) (outcome_ok (some_read v sel most)) s"
  unfolding after_foundBy by (erule after_mono) (auto simp: outcome_ok_def some_read_def map_sum_Inr_iff)

lemma outcome_ok_stable: "stable Q \<Longrightarrow> stable (outcome_ok Q)"
  unfolding stable_def outcome_ok_def by metis

section \<open>Commits and attempts\<close>

lemma pool_step_moves: "pool_step srv q s tr q' s' \<Longrightarrow> now s \<le> now s' \<and> (\<forall>v \<le> now s. snap s' v = snap s v)"
  by (induction rule: pool_step.induct) (auto simp: now_grows snap_fixed)

lemma pool_run_moves: "pool_run srv q s tr q' s' \<Longrightarrow> now s \<le> now s' \<and> (\<forall>v \<le> now s. snap s' v = snap s v)"
  by (induction rule: pool_run.induct) (use pool_step_moves in \<open>force+\<close>)

lemma exec_moves: "exec srv m s tr r s' \<Longrightarrow> now s \<le> now s' \<and> (\<forall>v \<le> now s. snap s' v = snap s v)"
proof (induction rule: exec.induct)
  case (Await s q s1 a k tr r s2)
  then show ?case using now_grows [OF Await.hyps(1)] snap_fixed [OF Await.hyps(1)] by auto
next
  case (Together ts s tr1 p s1 k tr2 r s2)
  then show ?case using pool_run_moves [OF Together.hyps(1)] by auto
qed simp

abbreviation succeeds :: "'s \<Rightarrow> int \<Rightarrow> int \<Rightarrow> triples \<Rightarrow> bool" where
  "succeeds \<equiv> follows now snap"

lemma write_actions_ok:
  assumes "exec srv (write_actions v (map act_val acts) f) s tr (Inr x) s'" "v \<le> now s"
  shows "length acts \<le> SCHEMA_MAX_BATCH_ACTIONS \<and> (\<exists>w. x = f w \<and> succeeds s' v (wr_served w) (apply_all acts (snap s' v)))"
proof -
  from assms(1) obtain tr1 r1 s1 tr2 where
    c: "exec srv (schema_commit v (map act_val acts)) s tr1 r1 s1"
      "exec srv (on_ok (\<lambda>outc. Ret (map_sum id f (summarizeWrite v outc))) r1) s1 tr2 (Inr x) s'"
    unfolding write_actions_def by (rule exec_thenE) blast
  from c(2) obtain outc where outc: "r1 = Inr outc" by (cases r1) auto
  with c(2) obtain w where w: "x = f w" "summarizeWrite v outc = Inr w" "s1 = s'"
    by (auto simp: map_sum_Inr_iff dest!: sym [of "Inr x"])
  have len: "length acts \<le> SCHEMA_MAX_BATCH_ACTIONS"
    using c(1) outc by (cases "enforceActionLimit (map act_val acts)")
      (auto simp: schema_commit_def enforceActionLimit_def enforceActionCount_def require_def split: if_splits)
  show ?thesis
  proof (cases "acts = []")
    case True
    with c(1) outc w len have "wr_served w = v" "s' = s"
      by (auto simp: schema_commit_def enforceActionLimit_def enforceActionCount_def summarizeWrite_def)
    with True w(1) len assms(2) show ?thesis by (auto simp: follows_def apply_all_def)
  next
    case False
    let ?opts = "\<lambda>q. JObj [(js ''expectedVersion'', JBigInt v), (js ''preflight'', q)]"
    obtain s2 q tr2 where p: "srv s (Preflight (JArr (map act_val acts)) (JObj [(js ''expectedVersion'', JBigInt v)])) s2 (Inr q)"
      "exec srv (Await (Call (MBatch (JArr (map act_val acts)) (?opts q))) (on_ok (\<lambda>r. Ret (Inr (Some (r, q)))))) s2 tr2 (Inr outc) s1"
      using c(1) False unfolding outc schema_commit_def by (elim exec_on_okE) (auto elim: exec_await_okE)
    obtain r where b: "srv s2 (Call (MBatch (JArr (map act_val acts)) (?opts q))) s1 (Inr r)" "outc = Some (r, q)"
      using p(2) by (elim exec_await_okE) auto
    have "responseVersion r = Inr (wr_served w)" using w(2) b(2) by (auto simp: summarizeWrite_def res_simps)
    from batch_applied [OF b(1) this] w(1,3) len show ?thesis by (auto simp: follows_def)
  qed
qed

lemma attempt_ok:
  assumes "exec srv (attempt body again) s tr (Inr x) s'"
  shows "(\<exists>v s1 tr1. v \<le> now s1 \<and> exec srv (body v) s1 tr1 (Inr x) s') \<or> (\<exists>s1 tr1. exec srv again s1 tr1 (Inr x) s')"
proof -
  obtain s1 r v tr1 where v: "srv s (Call (MVersion JUndef)) s1 (Inr r)" "responseVersion r = Inr v"
    "exec srv (io_then (body v) (\<lambda>outc. case outc of Inl e \<Rightarrow> if skewed e \<or> typedConflict e then again else Ret (Inl e)
       | Inr x \<Rightarrow> Ret (Inr x))) s1 tr1 (Inr x) s'"
    using assms unfolding attempt_def by (elim exec_await_okE exec_on_okE) (rule that)
  obtain tr2 r1 s2 tr3 where b: "exec srv (body v) s1 tr2 r1 s2"
    "exec srv (case r1 of Inl e \<Rightarrow> if skewed e \<or> typedConflict e then again else Ret (Inl e) | Inr x \<Rightarrow> Ret (Inr x)) s2 tr3 (Inr x) s'"
    using exec_thenE [OF v(3)] by metis
  show ?thesis
  proof (cases r1)
    case (Inl e)
    with b(2) show ?thesis by (auto split: if_splits)
  next
    case (Inr y)
    with b(2) have "y = x" "s2 = s'" by auto
    with b(1) Inr version_served [OF v(1,2)] show ?thesis by blast
  qed
qed

lemma retrying_ok:
  assumes "exec srv (retrying n body) s tr (Inr x) s'"
  shows "\<exists>v s1 tr1. v \<le> now s1 \<and> exec srv (body v) s1 tr1 (Inr x) s'"
  using assms
proof (induction n arbitrary: s tr)
  case 0
  then show ?case using attempt_ok [of body "Ret (schemaError ''schema/conflict-exhausted'')"]
    by (fastforce simp: schemaError_def)
next
  case (Suc n)
  then show ?case using attempt_ok [of body "retrying n body"] by (metis retrying.simps(2))
qed

lemma exec_read:
  assumes "exec srv (io_task t (on_ok f)) s tr (Inr x) s'" "after srv t (outcome_ok P) s"
  shows "\<exists>vs s1 tr1. P s1 vs \<and> exec srv (f vs) s1 tr1 (Inr x) s'"
proof -
  obtain s1 r1 tr2 where "outcome_ok P s1 r1" "exec srv (on_ok f r1) s1 tr2 (Inr x) s'"
    by (rule exec_io_taskE [OF assms])
  then show ?thesis by (cases r1) (auto dest: exec_RetD)
qed

lemma exec_togetherE:
  assumes "exec srv (Together ts k) s tr (Inr x) s'" "length Qs = length ts" "\<And>Q. Q \<in> set Qs \<Longrightarrow> stable Q"
    "\<And>i. i < length ts \<Longrightarrow> after srv (ts ! i) (outcome_ok (Qs ! i)) s"
  obtains s1 outc tr2 where "exec srv (k outc) s1 tr2 (Inr x) s'" "\<And>fs. outc = Inr fs \<Longrightarrow> list_all2 (\<lambda>Q f. Q s1 f) Qs fs"
    "now s \<le> now s1" "\<And>v. v \<le> now s \<Longrightarrow> snap s1 v = snap s v"
proof -
  from assms(1) obtain tr1 p s1 tr2 where p: "pool_run srv (start_pool SCHEMA_MAX_GUARD_CONCURRENCY ts) s tr1 p s1"
    "exec srv (k (pool_outcome (length ts) p)) s1 tr2 (Inr x) s'"
    by (elim exec_TogetherE) (rule that)
  define Q where "Q = (\<lambda>i. if i < length ts then outcome_ok (Qs ! i) else (\<lambda>_ _. True))"
  have "stable (Q i)" for i
  proof (cases "i < length ts")
    case True
    then have "stable (Qs ! i)" using assms(2) by (intro assms(3) nth_mem) simp
    with True show ?thesis by (simp add: Q_def outcome_ok_stable)
  qed (simp add: Q_def stable_def)
  moreover have "after srv (ts ! i) (Q i) s" if "i < length ts" for i using that assms(4) by (simp add: Q_def)
  moreover have "0 < SCHEMA_MAX_GUARD_CONCURRENCY" by (simp add: SCHEMA_MAX_GUARD_CONCURRENCY_def)
  ultimately have "list_all2 (\<lambda>Q f. Q s1 f) Qs fs" if "pool_outcome (length ts) p = Inr fs" for fs
    using together_results [OF p(1) that, of Q] assms(2) by (auto simp: Q_def list_all2_conv_all_nth)
  with p(2) pool_run_moves [OF p(1)] show thesis using that by blast
qed

section \<open>Replacing a value\<close>

theorem replaceSingle_ok:
  assumes "exec srv (replaceSingle sc (rep_term e) (rep_term p) (rep_term x)) s tr (Inr sm) s'"
  shows "su_subject sm = rep_term e \<and>
    (\<exists>v. succeeds s' v (wr_served (su_written sm)) (snap s' v - {(e, p, y) | y. True} \<union> {(e, p, x)}))"
proof -
  define wr where "wr = (\<lambda>v current. write_actions v
    (map (retractAction (rep_term e) (rep_term p)) current @ [assertAction (rep_term e) (rep_term p) (rep_term x)])
    (\<lambda>w. \<lparr>su_subject = rep_term e, su_created = False, su_written = w\<rparr>))"
  define body where "body = (\<lambda>v. io_task (valuesAt (rep_term e) (rep_term p) v) (on_ok (wr v)))"
  have "exec srv (retrying (maxConflictRetries sc) body) s tr (Inr sm) s'"
    using assms unfolding replaceSingle_def body_def wr_def by (elim exec_on_okE) (auto dest!: toTerm_rep_Inr)
  from retrying_ok [OF this] obtain v s1 tr1 where v: "v \<le> now s1" "exec srv (body v) s1 tr1 (Inr sm) s'" by blast
  obtain vs s2 tr2 where r: "read_ok v (values_in e p) (SCHEMA_MAX_BATCH_ACTIONS + 1) s2 vs"
    "exec srv (wr v vs) s2 tr2 (Inr sm) s'"
    using exec_read [OF v(2) [unfolded body_def] valuesAt_ok [OF v(1)]] by blast
  from r(1) obtain ys where ys: "vs = map rep_term ys" "v \<le> now s2" "set ys \<subseteq> values_in e p (snap s2 v)"
    "length ys < SCHEMA_MAX_BATCH_ACTIONS + 1 \<longrightarrow> set ys = values_in e p (snap s2 v)" by (auto simp: read_ok_def)
  let ?acts = "map (Retract e p) ys @ [Assert e p x]"
  have acts: "map (retractAction (rep_term e) (rep_term p)) vs @ [assertAction (rep_term e) (rep_term p) (rep_term x)] = map act_val ?acts"
    by (simp add: ys(1))
  obtain w where w: "length ?acts \<le> SCHEMA_MAX_BATCH_ACTIONS" "sm = \<lparr>su_subject = rep_term e, su_created = False, su_written = w\<rparr>"
    "succeeds s' v (wr_served w) (apply_all ?acts (snap s' v))"
    using write_actions_ok [OF r(2) [unfolded wr_def acts] ys(2)] by blast
  have "snap s' v = snap s2 v" using exec_moves [OF r(2)] ys(2) by blast
  then have "set ys = values_in e p (snap s' v)" using ys(4) w(1) by simp
  then have "apply_all ?acts (snap s' v) = snap s' v - {(e, p, y) | y. True} \<union> {(e, p, x)}"
    unfolding apply_all_append apply_retracts by (auto simp: apply_all_def values_in_def)
  with w(2,3) show ?thesis by (metis summary.select_convs(1,3))
qed

end

end
