(* ===== verification/SchemaSpace.thy ===== *)
theory SchemaSpace
  imports SchemaService
begin

text \<open>
  A reference space that keeps the contract \<open>occ_service\<close>: a history of versions, each a list of Triples, which other
  clients extend between any two calls. Answers come in pages whose cursor is the number of rows already served; a
  call may fail at any time, also after it took effect.
\<close>

section \<open>Answers\<close>

type_synonym history = "(fterm \<times> fterm \<times> fterm) list list"

definition now_of :: "history \<Rightarrow> int" where
  "now_of h = int (length h) - 1"

definition snap_of :: "history \<Rightarrow> int \<Rightarrow> triples" where
  "snap_of h v = (if 0 \<le> v then set (h ! nat v) else {})"

definition owner_list :: "fterm \<Rightarrow> fterm \<Rightarrow> (fterm \<times> fterm \<times> fterm) list \<Rightarrow> fterm list" where
  "owner_list p x T = map fst (filter (\<lambda>(a, q, y). q = p \<and> y = x) T)"

definition value_list :: "fterm \<Rightarrow> fterm \<Rightarrow> (fterm \<times> fterm \<times> fterm) list \<Rightarrow> fterm list" where
  "value_list e p T = map (\<lambda>(a, q, y). y) (filter (\<lambda>(a, q, y). a = e \<and> q = p) T)"

definition offset_cursor :: "nat \<Rightarrow> jsval" where
  "offset_cursor n = rep_term (FInteger (int n))"

definition version_answer :: "int \<Rightarrow> jsval" where
  "version_answer v = JObj [(js ''servedVersion'', JBigInt v)]"

definition rows_answer :: "int \<Rightarrow> nat \<Rightarrow> jsval list \<Rightarrow> jsval" where
  "rows_answer v off rows = JObj [(js ''servedVersion'', JBigInt v),
     (js ''result'', JArr (take QUERY_PAGE_LIMIT (drop off rows))),
     (js ''page'', JObj [(js ''done'', JBool (length rows \<le> off + QUERY_PAGE_LIMIT)),
        (js ''nextCursor'', offset_cursor (off + QUERY_PAGE_LIMIT))])]"

definition scan_row :: "fterm \<Rightarrow> fterm \<Rightarrow> fterm \<Rightarrow> jsval" where
  "scan_row e p x = rep_term (FTriple e p x)"

definition batch_answer :: "int \<Rightarrow> act list \<Rightarrow> jsval" where
  "batch_answer v acts = JObj [(js ''servedVersion'', JBigInt v),
     (js ''result'', JArr (map (\<lambda>_. JObj [(js ''stateChanged'', JBool True)]) acts))]"

text \<open>The row at which a request starts.\<close>

inductive starts_at :: "jsval option \<Rightarrow> nat \<Rightarrow> bool" where
  "starts_at None 0"
| "starts_at (Some (offset_cursor n)) n"

definition batch_options :: "int \<Rightarrow> jsval \<Rightarrow> jsval" where
  "batch_options v q = JObj [(js ''expectedVersion'', JBigInt v), (js ''preflight'', q)]"

text \<open>\<open>g\<close> is the history after what other clients did before the call took effect.\<close>

inductive serve :: "history service" where
  Version: "g = h @ ext \<Longrightarrow> serve h (Call (MVersion opts)) g (Inr (version_answer (now_of g)))"
| Query: "g = h @ ext \<Longrightarrow> 0 \<le> v \<Longrightarrow> v \<le> now_of g \<Longrightarrow> starts_at c off \<Longrightarrow>
    serve h (Call (MQuery (identityQuery (identity_of p x)) (query_options timeout v c))) g
      (Inr (rows_answer v off (map (\<lambda>u. JArr [rep_term u]) (owner_list p x (g ! nat v)))))"
| Scan: "g = h @ ext \<Longrightarrow> 0 \<le> v \<Longrightarrow> v \<le> now_of g \<Longrightarrow> starts_at c off \<Longrightarrow>
    serve h (Call (MScan (scan_pattern (rep_term e) (rep_term p)) (scan_options c))) g
      (Inr (rows_answer v off (map (scan_row e p) (value_list e p (g ! nat v)))))"
| Batch: "g = h @ ext \<Longrightarrow> 0 \<le> v \<Longrightarrow> v = now_of g \<Longrightarrow> set T = apply_all acts (snap_of g v) \<Longrightarrow>
    ans = Inr (batch_answer (v + 1) acts) \<or> ans = Inl e \<Longrightarrow>
    serve h (Call (MBatch (JArr (map act_val acts)) (batch_options v q))) (g @ [T]) ans"
| Preflight: "serve h (Preflight actions opts) (h @ ext) (Inr JUndef)"
| Failed: "serve h q (h @ ext) (Inl e)"

lemma rep_term_inject [simp]: "rep_term t = rep_term u \<longleftrightarrow> t = u"
  using termKey_rep key_text_inject by (metis sum.inject(2))

lemma map_act_val_inject [simp]: "map act_val xs = map act_val ys \<longleftrightarrow> xs = ys"
proof -
  have "act_val x = act_val y \<longleftrightarrow> x = y" for x y
    by (cases x; cases y) (auto simp: assertAction_def retractAction_def action_val_def js_lit_def)
  then show ?thesis by (metis inj_map_eq_map injI)
qed

inductive_cases serve_VersionE: "serve h (Call (MVersion opts)) g (Inr r)"
inductive_cases serve_QueryE: "serve h (Call (MQuery q opts)) g (Inr r)"
inductive_cases serve_ScanE: "serve h (Call (MScan q opts)) g (Inr r)"
inductive_cases serve_BatchE: "serve h (Call (MBatch as opts)) g (Inr r)"

section \<open>The contract holds\<close>

lemma serve_extends: "serve h q g a \<Longrightarrow> \<exists>ext. g = h @ ext"
  by (induction rule: serve.induct) auto

lemma serve_earlier: "serve (h @ ext) q g a \<Longrightarrow> serve h q g a"
proof (erule serve.cases)
  fix g' h' exta v T acts ans e q'
  assume a: "h @ ext = h'" "q = Call (MBatch (JArr (map act_val acts)) (batch_options v q'))" "g = g' @ [T]" "a = ans"
    "g' = h' @ exta" "0 \<le> v" "v = now_of g'" "set T = apply_all acts (snap_of g' v)"
    "ans = Inr (batch_answer (v + 1) acts) \<or> ans = Inl e"
  then have "g' = h @ ext @ exta" by simp
  from serve.Batch [OF this a(6-9)] show ?thesis using a by simp
qed (auto intro: serve.intros)

lemma snap_of_append [simp]: "v \<le> now_of h \<Longrightarrow> snap_of (h @ ext) v = snap_of h v"
  by (auto simp: snap_of_def now_of_def nth_append)

lemma now_of_snoc: "now_of (g @ [T]) = now_of g + 1"
  by (simp add: now_of_def)

lemma snap_of_snoc: "0 \<le> now_of g \<Longrightarrow> snap_of (g @ [T]) (now_of g + 1) = set T"
  by (simp add: snap_of_def now_of_def)

lemma set_owner_list: "set (owner_list p x T) = owners_in p x (set T)"
  by (force simp: owner_list_def owners_in_def)

lemma set_value_list: "set (value_list e p T) = values_in e p (set T)"
  by (force simp: value_list_def values_in_def)

text \<open>The rows a cursor stands for.\<close>

definition more_of :: "history \<Rightarrow> jsval \<Rightarrow> int \<Rightarrow> jsval \<Rightarrow> fterm set" where
  "more_of h what v c =
     (if v < 0 then {} else
     {t. \<exists>p x n. what = identityQuery (identity_of p x) \<and> c = offset_cursor n \<and> t \<in> set (drop n (owner_list p x (h ! nat v)))} \<union>
     {t. \<exists>e p n. what = scan_pattern (rep_term e) (rep_term p) \<and> c = offset_cursor n \<and>
        t \<in> set (drop n (value_list e p (h ! nat v)))})"

lemma offset_cursor_inject [simp]: "offset_cursor m = offset_cursor n \<longleftrightarrow> m = n"
  by (simp add: offset_cursor_def del: rep_term.simps)

lemma identityQuery_inject [simp]:
  "identityQuery (identity_of p x) = identityQuery (identity_of q y) \<longleftrightarrow> p = q \<and> x = y"
  by (auto simp: identityQuery_def singleColumnQuery_def identity_of_def)

lemma scan_pattern_inject [simp]:
  "scan_pattern (rep_term e) (rep_term p) = scan_pattern (rep_term f) (rep_term q) \<longleftrightarrow> e = f \<and> p = q"
  by (auto simp: scan_pattern_def)

lemma identityQuery_no_scan [simp]: "identityQuery i \<noteq> scan_pattern a b" "scan_pattern a b \<noteq> identityQuery i"
  by (auto simp: identityQuery_def singleColumnQuery_def scan_pattern_def)

lemma more_of_query [simp]:
  "0 \<le> v \<Longrightarrow> more_of h (identityQuery (identity_of p x)) v (offset_cursor n) = set (drop n (owner_list p x (h ! nat v)))"
  by (auto simp: more_of_def)

lemma more_of_scan [simp]:
  "0 \<le> v \<Longrightarrow> more_of h (scan_pattern (rep_term e) (rep_term p)) v (offset_cursor n) = set (drop n (value_list e p (h ! nat v)))"
  by (auto simp: more_of_def)

lemma rows_answer_simps [simp]:
  "responseVersion (rows_answer v off rows) = Inr v"
  "responseArray (rows_answer v off rows) = Inr (take QUERY_PAGE_LIMIT (drop off rows))"
  "finished (rows_answer v off rows) \<longleftrightarrow> length rows \<le> off + QUERY_PAGE_LIMIT"
  "propOf (propOf (rows_answer v off rows) ''page'') ''nextCursor'' = offset_cursor (off + QUERY_PAGE_LIMIT)"
  by (simp_all add: rows_answer_def responseVersion_def responseArray_def finished_def propOf_def object_fields_def truthy_def)

lemma pages_to_rows:
  assumes "\<And>n. rest (offset_cursor n) = set (drop n xs)"
  shows "pages_to rest (rows_answer v off (map f xs)) (take QUERY_PAGE_LIMIT (drop off xs)) (set (drop off xs))"
proof -
  have all: "set (take QUERY_PAGE_LIMIT (drop off xs)) \<union> set (drop (off + QUERY_PAGE_LIMIT) xs) = set (drop off xs)"
    using append_take_drop_id [of QUERY_PAGE_LIMIT "drop off xs"] by (metis add.commute drop_drop set_append)
  moreover have "c = offset_cursor n" if "toTerm (offset_cursor n) = Inr c" for c n
    using that unfolding offset_cursor_def by (rule toTerm_rep_Inr)
  ultimately have "set (take QUERY_PAGE_LIMIT (drop off xs)) \<union> rest c = set (drop off xs)"
    if "toTerm (offset_cursor (off + QUERY_PAGE_LIMIT)) = Inr c" for c
    using that assms by metis
  with all show ?thesis unfolding pages_to_def rows_answer_simps by (intro conjI allI impI) auto
qed

lemma offset_rest:
  "starts_at c off \<Longrightarrow> (\<And>n. rest (offset_cursor n) = set (drop n xs)) \<Longrightarrow> set xs = all \<Longrightarrow>
    (case c of None \<Rightarrow> all | Some c' \<Rightarrow> rest c') = set (drop off xs)"
  by (auto elim: starts_at.cases)

lemma more_of_append [simp]: "v \<le> now_of h \<Longrightarrow> more_of (h @ ext) what v c = more_of h what v c"
  by (auto simp: more_of_def now_of_def nth_append)

lemma now_of_append: "now_of h \<le> now_of (h @ ext)"
  by (simp add: now_of_def)

interpretation space: occ_service serve now_of snap_of more_of
proof
  fix s s1 s2 q q' a a'
  assume "serve s q s1 a" "serve s1 q' s2 a'"
  then show "serve s q' s2 a'" using serve_extends serve_earlier by blast
next
  fix s q s' ans
  assume "serve s q s' ans"
  then obtain ext where s': "s' = s @ ext" using serve_extends by blast
  then show "now_of s \<le> now_of s'" by (simp add: now_of_append)
  show "v \<le> now_of s \<Longrightarrow> snap_of s' v = snap_of s v" for v using s' by simp
  show "v \<le> now_of s \<Longrightarrow> more_of s' what v k = more_of s what v k" for v what k using s' by simp
next
  fix s s' r v
  assume "serve s (Call (MVersion JUndef)) s' (Inr r)" "responseVersion r = Inr v"
  then show "v \<le> now_of s'"
    by (auto elim!: serve_VersionE simp: version_answer_def responseVersion_def propOf_def object_fields_def)
next
  fix s p x timeout v c s' r rows
  assume "serve s (Call (MQuery (identityQuery (identity_of p x)) (query_options timeout v c))) s' (Inr r)"
    "responseVersion r = Inr v" "responseArray r = Inr rows"
  then obtain off where "starts_at c off" "0 \<le> v"
    "r = rows_answer v off (map (\<lambda>u. JArr [rep_term u]) (owner_list p x (s' ! nat v)))"
    by (auto elim!: serve_QueryE simp: query_options_def page_val_def split: option.splits)
  then show "\<exists>os. rows = map (\<lambda>u. JArr [rep_term u]) os \<and>
    pages_to (more_of s' (identityQuery (identity_of p x)) v) r os
      (case c of None \<Rightarrow> owners_in p x (snap_of s' v) | Some c' \<Rightarrow> more_of s' (identityQuery (identity_of p x)) v c')"
    using \<open>responseArray r = Inr rows\<close>
    by (intro exI [of _ "take QUERY_PAGE_LIMIT (drop off (owner_list p x (s' ! nat v)))"])
       (auto simp: take_map drop_map offset_rest set_owner_list snap_of_def intro!: pages_to_rows)
next
  fix s e p c s' r v rows
  assume "serve s (Call (MScan (scan_pattern (rep_term e) (rep_term p)) (scan_options c))) s' (Inr r)"
    "responseVersion r = Inr v" "responseArray r = Inr rows"
  then obtain off where "starts_at c off" "0 \<le> v" "v \<le> now_of s'"
    "r = rows_answer v off (map (scan_row e p) (value_list e p (s' ! nat v)))"
    by (auto elim!: serve_ScanE simp: scan_options_def page_val_def split: option.splits)
  then show "v \<le> now_of s' \<and> (\<exists>xs. rows = map (\<lambda>x. rep_term (FTriple e p x)) xs \<and>
    pages_to (more_of s' (scan_pattern (rep_term e) (rep_term p)) v) r xs
      (case c of None \<Rightarrow> values_in e p (snap_of s' v) | Some c' \<Rightarrow> more_of s' (scan_pattern (rep_term e) (rep_term p)) v c'))"
    using \<open>responseArray r = Inr rows\<close>
    by (intro conjI exI [of _ "take QUERY_PAGE_LIMIT (drop off (value_list e p (s' ! nat v)))"])
       (auto simp: take_map drop_map offset_rest set_value_list snap_of_def scan_row_def [abs_def] simp del: rep_term.simps intro!: pages_to_rows)
next
  fix s acts v pf s' r w
  assume "serve s (Call (MBatch (JArr (map act_val acts)) (JObj [(js ''expectedVersion'', JBigInt v), (js ''preflight'', pf)]))) s' (Inr r)"
    "responseVersion r = Inr w"
  then obtain ext T where s': "s' = (s @ ext) @ [T]" "0 \<le> v" "v = now_of (s @ ext)" "w = v + 1"
    "set T = apply_all acts (snap_of (s @ ext) v)"
    by (auto elim!: serve_BatchE simp: batch_options_def batch_answer_def responseVersion_def propOf_def object_fields_def)
  moreover from this have "w = now_of s'" "snap_of s' w = set T"
    by (simp_all add: now_of_snoc snap_of_snoc del: append_assoc)
  moreover have "snap_of s' v = snap_of (s @ ext) v" using s' by (metis order_refl snap_of_append)
  ultimately show "v \<le> w \<and> w \<le> now_of s' \<and> snap_of s' w = apply_all acts (snap_of s' v) \<and>
    (\<forall>y. v \<le> y \<longrightarrow> y < w \<longrightarrow> snap_of s' y = snap_of s' v)"
    by auto
qed

end
