(* ===== verification/SchemaOps.thy ===== *)
theory SchemaOps
  imports SchemaService
begin

text \<open>
  What the operations of the schema client guarantee against every service that keeps \<open>occ_service\<close>: which guards held
  at the version the write was based on, and which Triples the new version has.
\<close>

lemma list_all2_witness:
  "list_all2 (\<lambda>x w. \<exists>y. w = h y \<and> R x y) xs ws \<Longrightarrow> \<exists>ys. ws = map h ys \<and> list_all2 R xs ys"
proof (induction xs ws rule: list_all2_induct)
  case (Cons x xs w ws)
  then obtain y ys where "w = h y" "R x y" "ws = map h ys" "list_all2 R xs ys" by blast
  then show ?case by (intro exI [of _ "y # ys"]) simp
qed simp

lemma length_le_concat: "x \<in> set xss \<Longrightarrow> length x \<le> length (concat xss)"
  by (induction xss) auto

section \<open>Requirements\<close>

definition requirements_met :: "(fterm \<times> fterm \<times> fterm) list \<Rightarrow> triples \<Rightarrow> bool" where
  "requirements_met rs T \<longleftrightarrow> (\<forall>(a, p, x) \<in> set rs. owners_in p x T = {a})"

lemma rejectOwners_rep:
  "rejectOwners creating (map rep_term os) = Inr u \<longleftrightarrow> length os \<le> 1 \<and> (creating \<longrightarrow> os = [])"
  by (cases os rule: remdups_adj.cases) (auto simp: rejectOwners_def schemaError_def)

lemma requirementHolds_rep:
  "requirementHolds (rep_requirement (a, p, x), Some (map rep_term os)) = Inr u \<longleftrightarrow> os = [a]"
  by (auto simp: requirementHolds_def listOf_def schemaError_def split: list.splits if_splits)

lemma requireSource_rep: "requireSource (map rep_term os) = Inr s \<longleftrightarrow> (\<exists>b. os = [b] \<and> s = rep_term b)"
  by (auto simp: requireSource_def schemaError_def split: list.splits)

section \<open>Fields of a record\<close>

text \<open>Two fields of one predicate that both remain after normalization are values of a multiple one.\<close>

definition fields_apart :: "field \<Rightarrow> field \<Rightarrow> bool" where
  "fields_apart f g \<longleftrightarrow> (sameTerm (fl_predicate f) (fl_predicate g) = Inr True \<longrightarrow>
     fl_cardinality f = Multi \<and> fl_cardinality g = Multi)"

definition holds_prior :: "(jstr \<Rightarrow> prior option) \<Rightarrow> field \<Rightarrow> bool" where
  "holds_prior m f \<longleftrightarrow> (\<exists>k p. termKey (fl_predicate f) = Inr k \<and> m k = Some p \<and> pr_cardinality p = fl_cardinality f)"

lemma prior_kept:
  assumes "holds_prior m f" "m pk = None \<or> (\<exists>p. m pk = Some p \<and> pr_cardinality p' = pr_cardinality p)"
  shows "holds_prior (m(pk \<mapsto> p')) f"
proof -
  obtain k p where "termKey (fl_predicate f) = Inr k" "m k = Some p" "pr_cardinality p = fl_cardinality f"
    using assms(1) by (auto simp: holds_prior_def)
  with assms(2) show ?thesis by (cases "k = pk") (auto simp: holds_prior_def)
qed

definition fields_inv :: "field list \<Rightarrow> (jstr \<Rightarrow> prior option) \<Rightarrow> bool" where
  "fields_inv fls m \<longleftrightarrow> sorted_wrt fields_apart fls \<and>
     (\<forall>f \<in> set fls. holds_prior m f) \<and>
     (\<forall>k p. m k = Some p \<longrightarrow> (\<exists>j. termKey (hd (pr_values p)) = Inr j \<and> j \<in> set (pr_keys p)) \<and> pr_values p \<noteq> [])"

lemma sameTerm_keys: "sameTerm x y = Inr b \<longleftrightarrow> (\<exists>j k. termKey x = Inr j \<and> termKey y = Inr k \<and> b = (j = k))"
  by (auto simp: sameTerm_def rbind_Inr_iff)

lemma addField_inv:
  assumes "addField i v (fls, m) = Inr (fls', m')" "fields_inv fls m"
  shows "fields_inv fls' m'"
proof -
  obtain f pk where f: "normalizeField v = Inr f" "termKey (fl_predicate f) = Inr pk"
    using assms(1) by (auto simp: addField_def schemaError_def res_simps split: if_splits)
  have known: "m pk \<noteq> None" if "g \<in> set fls" "sameTerm (fl_predicate g) (fl_predicate f) = Inr True" for g
    using assms(2) that f(2) by (auto simp: fields_inv_def holds_prior_def sameTerm_keys)
  show ?thesis
  proof (cases "m pk")
    case None
    with assms f obtain vk where vk: "termKey (fl_value f) = Inr vk" "fls' = fls @ [f]"
      "m' = m(pk \<mapsto> \<lparr>pr_cardinality = fl_cardinality f, pr_keys = [vk], pr_values = [fl_value f]\<rparr>)"
      by (auto simp: addField_def schemaError_def res_simps split: if_splits)
    have "fields_apart g f" if "g \<in> set fls" for g using known [OF that] None by (auto simp: fields_apart_def)
    moreover have "holds_prior m' g" if "g \<in> set fls" for g
      using assms(2) that None vk(3) by (auto simp: fields_inv_def intro: prior_kept)
    ultimately show ?thesis using assms(2) vk f(2) by (simp add: fields_inv_def sorted_wrt_append) (simp add: holds_prior_def)
  next
    case (Some p)
    show ?thesis
    proof (cases "fls' = fls \<and> m' = m")
      case True
      with assms(2) show ?thesis by simp
    next
      case False
      with assms f Some obtain vk where vk: "termKey (fl_value f) = Inr vk" "fls' = fls @ [f]" "pr_cardinality p = fl_cardinality f"
        "vk \<notin> set (pr_keys p)" "m' = m(pk \<mapsto> p\<lparr>pr_keys := vk # pr_keys p, pr_values := pr_values p @ [fl_value f]\<rparr>)"
        "fl_cardinality f = Single \<Longrightarrow> sameTerm (hd (pr_values p)) (fl_value f) = Inr True"
        by (auto simp: addField_def schemaError_def res_simps split: if_splits)
      obtain j where p: "pr_values p \<noteq> []" and j: "termKey (hd (pr_values p)) = Inr j" "j \<in> set (pr_keys p)"
        using assms(2) Some unfolding fields_inv_def by blast
      with vk(1,4) vk(6) have multi: "fl_cardinality f = Multi" by (cases "fl_cardinality f") (auto simp: sameTerm_keys)
      have "fields_apart g f" if "g \<in> set fls" for g
        using assms(2) that Some f(2) vk(3) multi by (fastforce simp: fields_inv_def holds_prior_def fields_apart_def sameTerm_keys)
      moreover have "holds_prior m' g" if "g \<in> set fls" for g
        using assms(2) that Some vk(5) by (auto simp: fields_inv_def intro: prior_kept)
      ultimately show ?thesis
        using assms(2) vk f(2) Some p j by (simp add: fields_inv_def sorted_wrt_append) (simp add: holds_prior_def)
    qed
  qed
qed

lemma addFields_inv: "addFields i vs (fls, m) = Inr (fls', m') \<Longrightarrow> fields_inv fls m \<Longrightarrow> fields_inv fls' m'"
  by (induction vs arbitrary: fls m) (auto simp: res_simps dest: addField_inv)

lemma normalizeCreateRecord_apart: "normalizeCreateRecord b v = Inr (c, fs) \<Longrightarrow> sorted_wrt fields_apart (cr_fields c)"
  by (auto simp: normalizeCreateRecord_def res_simps fields_inv_def dest!: addFields_inv)

section \<open>Effects\<close>

definition created :: "fterm \<Rightarrow> fterm \<Rightarrow> fterm \<Rightarrow> (fterm \<times> fterm \<times> cardinality) list \<Rightarrow> triples" where
  "created a p x fs = insert (a, p, x) {(a, q, y) | q y c. (q, y, c) \<in> set fs}"

lemma apply_create: "apply_all (create_acts a p x fs) T = T \<union> created a p x fs"
  unfolding create_acts_def apply_asserts by (force simp: created_def)

lemma apply_one: "apply_all [] T = T" "apply_all [a] T = apply_act a T"
  by (simp_all add: apply_all_def)

lemma retract_all: "set ys = values_in b q T \<Longrightarrow> apply_all (map (Retract b q) ys) T = T - {(b, q, z) | z. True}"
  unfolding apply_retracts by (auto simp: values_in_def)

fun upsert_acts :: "fterm \<Rightarrow> (fterm \<times> fterm \<times> cardinality) \<times> fterm list option \<Rightarrow> act list" where
  "upsert_acts b ((q, y, c), yo) = (case yo of Some ys \<Rightarrow> map (Retract b q) ys | None \<Rightarrow> []) @ [Assert b q y]"

lemma upsertField_rep:
  "upsertField (rep_term b) (rep_field f, map_option (map rep_term) yo) = map act_val (upsert_acts b (f, yo))"
  by (cases f; cases yo) (simp_all add: upsertField_def)

text \<open>Single-valued fields take the place of what was there, multi-valued ones join it.\<close>

definition upserted :: "fterm \<Rightarrow> (fterm \<times> fterm \<times> cardinality) list \<Rightarrow> triples \<Rightarrow> triples" where
  "upserted b fs T = (T - {(b, q, z) | q y z. (q, y, Single) \<in> set fs}) \<union> {(b, q, y) | q y c. (q, y, c) \<in> set fs}"

definition read_for :: "fterm \<Rightarrow> triples \<Rightarrow> fterm \<times> fterm \<times> cardinality \<Rightarrow> fterm list option \<Rightarrow> bool" where
  "read_for b T f yo = (case f of (q, y, c) \<Rightarrow> if c = Single then \<exists>ys. yo = Some ys \<and> set ys = values_in b q T else yo = None)"

lemma apply_upsert:
  assumes "list_all2 (read_for b T) fs yos" "sorted_wrt fields_apart (map rep_field fs)"
  shows "apply_all (concat (map (upsert_acts b) (zip fs yos))) T = upserted b fs T"
  using assms
proof (induction fs arbitrary: yos T)
  case Nil
  then show ?case by (simp add: apply_all_def upserted_def)
next
  case (Cons f fs)
  from Cons.prems(1) obtain yo yos' where yo: "read_for b T f yo" "list_all2 (read_for b T) fs yos'" "yos = yo # yos'"
    by (auto simp: list_all2_Cons1)
  obtain q y c where f: "f = (q, y, c)" by (cases f)
  have apart: "c' = Multi \<and> c = Multi" if "(q, y', c') \<in> set fs" for y' c'
    using Cons.prems that f by (force simp: fields_apart_def)
  let ?T = "apply_all (upsert_acts b (f, yo)) T"
  have T: "?T = (if c = Single then T - {(b, q, z) | z. True} else T) \<union> {(b, q, y)}"
  proof (cases c)
    case Single
    with yo(1) f obtain ys where "yo = Some ys" "set ys = values_in b q T" by (auto simp: read_for_def)
    with Single f show ?thesis by (simp add: apply_all_append retract_all apply_one)
  next
    case Multi
    with yo(1) f show ?thesis by (simp add: read_for_def apply_one)
  qed
  have "list_all2 (read_for b ?T) fs yos'"
    using yo(2)
  proof (rule list.rel_mono_strong)
    fix g zo
    assume g: "g \<in> set fs" "read_for b T g zo"
    obtain q' y' c' where g': "g = (q', y', c')" by (cases g)
    with apart g(1) have "c' = Single \<Longrightarrow> q' \<noteq> q" by auto
    then have "c' = Single \<Longrightarrow> values_in b q' ?T = values_in b q' T" by (auto simp: T values_in_def)
    with g(2) g' show "read_for b ?T g zo" by (auto simp: read_for_def split: if_splits)
  qed
  then have "apply_all (concat (map (upsert_acts b) (zip fs yos'))) ?T = upserted b fs ?T"
    using Cons.IH Cons.prems by simp
  moreover have "upserted b fs ?T = upserted b (f # fs) T"
    using apart unfolding T by (cases c) (auto simp: upserted_def f)
  ultimately show ?case by (simp add: apply_all_append yo(3) del: upsert_acts.simps)
qed

section \<open>Guards and writes\<close>

context occ_service
begin

lemma stable_const: "stable (\<lambda>s. Q)"
  by (simp add: stable_def)

lemma some_readE:
  assumes "some_read v sel most s f"
  obtains ts where "f = Some (map rep_term ts)" "set ts \<subseteq> sel (snap s v)" "length ts \<le> most"
    "length ts < most \<longrightarrow> set ts = sel (snap s v)"
  using assms by (auto simp: some_read_def read_ok_def)

lemma exec_owners:
  assumes "exec srv (io_task (ownersAt timeout (identity_of p x) v) (on_ok f)) s tr (Inr r) s'" "v \<le> now s"
  obtains os s1 tr1 where "set os \<subseteq> owners_in p x (snap s' v)" "length os \<le> 1 \<longrightarrow> set os = owners_in p x (snap s' v)"
    "v \<le> now s1" "exec srv (f (map rep_term os)) s1 tr1 (Inr r) s'"
proof -
  obtain vs s1 tr1 where vs: "read_ok v (owners_in p x) 2 s1 vs" "exec srv (f vs) s1 tr1 (Inr r) s'"
    using exec_read [OF assms(1) ownersAt_ok [OF assms(2)]] by blast
  moreover have "snap s' v = snap s1 v" using exec_moves [OF vs(2)] vs(1) by (auto simp: read_ok_def)
  ultimately show thesis using that by (auto simp: read_ok_def)
qed

lemma exec_reads:
  assumes "exec srv (Together (map t as) k) s tr (Inr x) s'" "v \<le> now s" "\<And>a. a \<in> set as \<Longrightarrow> stable (P a)"
    "\<And>a. a \<in> set as \<Longrightarrow> after srv (t a) (outcome_ok (P a)) s"
  obtains s1 outc tr2 where "exec srv (k outc) s1 tr2 (Inr x) s'" "v \<le> now s1" "snap s1 v = snap s' v"
    "\<forall>fs. outc = Inr fs \<longrightarrow> list_all2 (\<lambda>a f. P a s1 f) as fs"
proof -
  obtain s1 outc tr2 where r: "exec srv (k outc) s1 tr2 (Inr x) s'"
    "\<And>fs. outc = Inr fs \<Longrightarrow> list_all2 (\<lambda>Q f. Q s1 f) (map P as) fs" "now s \<le> now s1" "\<And>v. v \<le> now s \<Longrightarrow> snap s1 v = snap s v"
    by (rule exec_togetherE [OF assms(1), of "map P as"]) (use assms(3,4) in auto)
  then show thesis using that [OF r(1)] assms(2) exec_moves [OF r(1)] by (auto simp: list_all2_map1)
qed

lemma exec_requirements:
  assumes "exec srv (requireUniqueAt sc (map rep_requirement rs) v (on_ok g)) s tr (Inr r) s'" "v \<le> now s"
  obtains s1 tr1 where "exec srv (g ()) s1 tr1 (Inr r) s'" "v \<le> now s1" "requirements_met rs (snap s' v)"
proof -
  let ?P = "\<lambda>(a, p, x). some_read v (owners_in p x) 2"
  have "exec srv (Together (map (\<lambda>r. foundBy (ownersAt (queryTimeoutMs sc) (rep_requirement r) v)) rs)
      (\<lambda>outc. on_ok g (rbind outc (\<lambda>fs. checkAll requirementHolds (zip (map rep_requirement rs) fs))))) s tr (Inr r) s'"
    using assms(1) by (simp add: requireUniqueAt_def comp_def)
  then obtain s1 outc tr2 where r:
    "exec srv (on_ok g (rbind outc (\<lambda>fs. checkAll requirementHolds (zip (map rep_requirement rs) fs)))) s1 tr2 (Inr r) s'"
    "v \<le> now s1" "snap s1 v = snap s' v" "\<forall>fs. outc = Inr fs \<longrightarrow> list_all2 (\<lambda>a f. ?P a s1 f) rs fs"
  proof (rule exec_reads [where P = ?P, OF _ assms(2)])
    show "stable (?P a)" for a by (simp add: some_read_stable split: prod.split)
    show "after srv (foundBy (ownersAt (queryTimeoutMs sc) (rep_requirement a) v)) (outcome_ok (?P a)) s" for a
      using after_found [OF ownersAt_ok [OF assms(2)]]
      by (cases a) (simp add: ownersAt_def identityQuery_requirement del: rep_requirement.simps)
  qed
  from r(1) obtain fs where fs: "outc = Inr fs" "checkAll requirementHolds (zip (map rep_requirement rs) fs) = Inr ()"
    "exec srv (g ()) s1 tr2 (Inr r) s'"
    by (elim exec_on_okE) (auto simp: rbind_Inr_iff)
  have all: "list_all2 (\<lambda>a f. ?P a s1 f) rs fs" using r(4) fs(1) by blast
  have "owners_in p x (snap s' v) = {a}" if mem: "(a, p, x) \<in> set rs" for a p x
  proof -
    obtain i where i: "i < length rs" "rs ! i = (a, p, x)" using mem by (auto simp: in_set_conv_nth)
    with all have read: "some_read v (owners_in p x) 2 s1 (fs ! i)" "i < length fs"
      using list_all2_nthD [OF all i(1)] list_all2_lengthD [OF all] by simp_all
    have "(rep_requirement (a, p, x), fs ! i) \<in> set (zip (map rep_requirement rs) fs)"
      using i read(2) by (auto simp: in_set_zip simp del: rep_requirement.simps intro!: exI [of _ i])
    with fs(2) have "requirementHolds (rep_requirement (a, p, x), fs ! i) = Inr ()" by (auto simp: res_simps)
    with read(1) r(3) show ?thesis by (elim some_readE) (auto simp: requirementHolds_rep simp del: rep_requirement.simps)
  qed
  with that [OF fs(3) r(2)] show thesis by (auto simp: requirements_met_def)
qed

lemma exec_create_body:
  assumes "exec srv (requireUniqueAt sc (map rep_requirement rs) v (on_ok (\<lambda>_.
      write_actions v (createActions (rep_create a p x fs)) f))) s tr (Inr sm) s'" "v \<le> now s"
  shows "requirements_met rs (snap s' v) \<and> (\<exists>w. sm = f w \<and> succeeds s' v (wr_served w) (snap s' v \<union> created a p x fs))"
proof -
  obtain s1 tr1 where r: "exec srv (write_actions v (createActions (rep_create a p x fs)) f) s1 tr1 (Inr sm) s'" "v \<le> now s1"
    "requirements_met rs (snap s' v)"
    by (rule exec_requirements [OF assms])
  from write_actions_ok [OF r(1) [unfolded createActions_rep] r(2)] r(3) show ?thesis by (auto simp: apply_create)
qed

theorem createUnique_ok:
  assumes "exec srv (createUnique sc val) s tr (Inr sm) s'"
    "normalizeUniqueInput val = Inr \<lparr>ui_create = rep_create a p x fs, ui_requireUnique = map rep_requirement rs\<rparr>"
  shows "su_subject sm = rep_term a \<and> su_created sm \<and>
    (\<exists>v. owners_in p x (snap s' v) = {} \<and> requirements_met rs (snap s' v) \<and>
      succeeds s' v (wr_served (su_written sm)) (snap s' v \<union> created a p x fs))"
proof -
  let ?f = "\<lambda>w. \<lparr>su_subject = rep_term a, su_created = True, su_written = w\<rparr>"
  define body where "body = (\<lambda>v. io_task (ownersAt (queryTimeoutMs sc) (identity_of p x) v) (on_ok (\<lambda>owners.
    on_ok (\<lambda>_. requireUniqueAt sc (map rep_requirement rs) v (on_ok (\<lambda>_.
      write_actions v (createActions (rep_create a p x fs)) ?f))) (rejectOwners True owners))))"
  have "exec srv (retrying (maxConflictRetries sc) body) s tr (Inr sm) s'"
    using assms unfolding createUnique_def body_def
    by (elim exec_on_okE) (auto simp: Let_def rep_create_def elim!: exec_on_okE)
  from retrying_ok [OF this] obtain v s1 tr1 where v: "v \<le> now s1" "exec srv (body v) s1 tr1 (Inr sm) s'" by blast
  obtain os s2 tr2 where os: "set os \<subseteq> owners_in p x (snap s' v)" "length os \<le> 1 \<longrightarrow> set os = owners_in p x (snap s' v)" "v \<le> now s2"
    "exec srv (on_ok (\<lambda>_. requireUniqueAt sc (map rep_requirement rs) v (on_ok (\<lambda>_.
      write_actions v (createActions (rep_create a p x fs)) ?f))) (rejectOwners True (map rep_term os))) s2 tr2 (Inr sm) s'"
    by (rule exec_owners [OF v(2) [unfolded body_def] v(1)])
  from os(4) have none: "os = []" by (elim exec_on_okE) (simp add: rejectOwners_rep)
  with os(4) have "exec srv (requireUniqueAt sc (map rep_requirement rs) v (on_ok (\<lambda>_.
      write_actions v (createActions (rep_create a p x fs)) ?f))) s2 tr2 (Inr sm) s'" by (simp add: rejectOwners_def)
  from exec_create_body [OF this os(3)] os(2) none show ?thesis by auto
qed

lemma exec_upsert_write:
  assumes "exec srv (Together (map (\<lambda>f. if fl_cardinality f = Single then foundBy (valuesAt (rep_term b) (fl_predicate f) v)
        else Done (Inr None)) (map rep_field fs))
      (on_ok (\<lambda>ws. write_actions v (concat (map (upsertField (rep_term b)) (zip (map rep_field fs) ws))) g))) s tr (Inr sm) s'"
    "v \<le> now s" "sorted_wrt fields_apart (map rep_field fs)"
  shows "\<exists>w. sm = g w \<and> succeeds s' v (wr_served w) (upserted b fs (snap s' v))"
proof -
  let ?P = "\<lambda>(q, y :: fterm, c). if c = Single then some_read v (values_in b q) (SCHEMA_MAX_BATCH_ACTIONS + 1) else (\<lambda>s f. f = None)"
  let ?t = "\<lambda>f. if fl_cardinality f = Single then foundBy (valuesAt (rep_term b) (fl_predicate f) v) else Done (Inr None)"
  have "exec srv (Together (map (\<lambda>f. ?t (rep_field f)) fs)
      (on_ok (\<lambda>ws. write_actions v (concat (map (upsertField (rep_term b)) (zip (map rep_field fs) ws))) g))) s tr (Inr sm) s'"
    using assms(1) by (simp add: comp_def)
  then obtain s1 outc tr2 where r:
    "exec srv (on_ok (\<lambda>ws. write_actions v (concat (map (upsertField (rep_term b)) (zip (map rep_field fs) ws))) g) outc) s1 tr2 (Inr sm) s'"
    "v \<le> now s1" "snap s1 v = snap s' v" "\<forall>ws. outc = Inr ws \<longrightarrow> list_all2 (\<lambda>a f. ?P a s1 f) fs ws"
  proof (rule exec_reads [where P = ?P, OF _ assms(2)])
    show "stable (?P a)" for a by (cases a) (simp add: some_read_stable stable_const)
    show "after srv (?t (rep_field a)) (outcome_ok (?P a)) s" for a
      using after_found [OF valuesAt_ok [OF assms(2)]] by (cases a) simp
  qed
  from r(1) obtain ws where ws: "outc = Inr ws"
    "exec srv (write_actions v (concat (map (upsertField (rep_term b)) (zip (map rep_field fs) ws))) g) s1 tr2 (Inr sm) s'"
    by (elim exec_on_okE) simp
  have "\<exists>yos. ws = map (map_option (map rep_term)) yos \<and> list_all2 (\<lambda>f yo. read_for b (snap s' v) f yo \<or>
      (\<exists>ys. yo = Some ys \<and> SCHEMA_MAX_BATCH_ACTIONS < length ys)) fs yos"
  proof (rule list_all2_witness, rule list.rel_mono_strong)
    show "list_all2 (\<lambda>a f. ?P a s1 f) fs ws" using r(4) ws(1) by blast
    fix f w
    assume read: "?P f s1 w"
    obtain q y c where f: "f = (q, y, c)" by (cases f)
    show "\<exists>yo. w = map_option (map rep_term) yo \<and> (read_for b (snap s' v) f yo \<or>
        (\<exists>ys. yo = Some ys \<and> SCHEMA_MAX_BATCH_ACTIONS < length ys))"
    proof (cases c)
      case Single
      with read f have "some_read v (values_in b q) (SCHEMA_MAX_BATCH_ACTIONS + 1) s1 w" by simp
      then obtain ys where "w = Some (map rep_term ys)" "set ys \<subseteq> values_in b q (snap s1 v)" "length ys \<le> SCHEMA_MAX_BATCH_ACTIONS + 1"
        "length ys < SCHEMA_MAX_BATCH_ACTIONS + 1 \<longrightarrow> set ys = values_in b q (snap s1 v)" by (rule some_readE)
      with r(3) f Single show ?thesis by (intro exI [of _ "Some ys"]) (auto simp: read_for_def)
    qed (use read f in \<open>simp add: read_for_def\<close>)
  qed
  then obtain yos where yos: "ws = map (map_option (map rep_term)) yos" "list_all2 (\<lambda>f yo. read_for b (snap s' v) f yo \<or>
      (\<exists>ys. yo = Some ys \<and> SCHEMA_MAX_BATCH_ACTIONS < length ys)) fs yos" by blast
  have acts: "concat (map (upsertField (rep_term b)) (zip (map rep_field fs) ws)) = map act_val (concat (map (upsert_acts b) (zip fs yos)))"
    by (simp add: yos(1) zip_map_map map_concat upsertField_rep comp_def case_prod_beta del: upsert_acts.simps)
  obtain w where w: "length (concat (map (upsert_acts b) (zip fs yos))) \<le> SCHEMA_MAX_BATCH_ACTIONS" "sm = g w"
    "succeeds s' v (wr_served w) (apply_all (concat (map (upsert_acts b) (zip fs yos))) (snap s' v))"
    using write_actions_ok [OF ws(2) [unfolded acts] r(2)] by blast
  have "length ys \<le> SCHEMA_MAX_BATCH_ACTIONS" if "(f, Some ys) \<in> set (zip fs yos)" for f ys
    using length_le_concat [of "upsert_acts b (f, Some ys)" "map (upsert_acts b) (zip fs yos)"] that w(1)
    by (cases f) force
  then have "list_all2 (read_for b (snap s' v)) fs yos" using yos(2) by (fastforce simp: list_all2_iff)
  from apply_upsert [OF this assms(3)] w(2,3) show ?thesis by auto
qed

theorem upsertUnique_ok:
  assumes "exec srv (upsertUnique sc val) s tr (Inr sm) s'"
    "normalizeUniqueInput val = Inr \<lparr>ui_create = rep_create a p x fs, ui_requireUnique = map rep_requirement rs\<rparr>"
  shows "\<exists>v. requirements_met rs (snap s' v) \<and>
    (owners_in p x (snap s' v) = {} \<and> su_subject sm = rep_term a \<and> su_created sm \<and>
       succeeds s' v (wr_served (su_written sm)) (snap s' v \<union> created a p x fs) \<or>
     (\<exists>b. owners_in p x (snap s' v) = {b} \<and> su_subject sm = rep_term b \<and> \<not> su_created sm \<and>
       succeeds s' v (wr_served (su_written sm)) (upserted b fs (snap s' v))))"
proof -
  let ?f = "\<lambda>w. \<lparr>su_subject = rep_term a, su_created = True, su_written = w\<rparr>"
  let ?g = "\<lambda>b w. \<lparr>su_subject = b, su_created = False, su_written = w\<rparr>"
  define wr where "wr = (\<lambda>v owners. case owners of
      [] \<Rightarrow> write_actions v (createActions (rep_create a p x fs)) ?f
    | b # _ \<Rightarrow> Together (map (\<lambda>f. if fl_cardinality f = Single then foundBy (valuesAt b (fl_predicate f) v)
          else Done (Inr None)) (map rep_field fs))
        (on_ok (\<lambda>ws. write_actions v (concat (map (upsertField b) (zip (map rep_field fs) ws))) (?g b))))"
  define body where "body = (\<lambda>v. io_task (ownersAt (queryTimeoutMs sc) (identity_of p x) v) (on_ok (\<lambda>owners.
    on_ok (\<lambda>_. requireUniqueAt sc (map rep_requirement rs) v (on_ok (\<lambda>_. wr v owners))) (rejectOwners False owners))))"
  have "exec srv (retrying (maxConflictRetries sc) body) s tr (Inr sm) s'"
    using assms unfolding upsertUnique_def body_def wr_def by (simp add: Let_def rep_create_def cong: list.case_cong)
  from retrying_ok [OF this] obtain v s1 tr1 where v: "v \<le> now s1" "exec srv (body v) s1 tr1 (Inr sm) s'" by blast
  obtain os s2 tr2 where os: "set os \<subseteq> owners_in p x (snap s' v)" "length os \<le> 1 \<longrightarrow> set os = owners_in p x (snap s' v)"
    "v \<le> now s2" "exec srv (on_ok (\<lambda>_. requireUniqueAt sc (map rep_requirement rs) v (on_ok (\<lambda>_. wr v (map rep_term os))))
      (rejectOwners False (map rep_term os))) s2 tr2 (Inr sm) s'"
    by (rule exec_owners [OF v(2) [unfolded body_def] v(1)])
  from os(4) have one: "length os \<le> 1"
    "exec srv (requireUniqueAt sc (map rep_requirement rs) v (on_ok (\<lambda>_. wr v (map rep_term os)))) s2 tr2 (Inr sm) s'"
    by (elim exec_on_okE; simp add: rejectOwners_rep)+
  obtain s3 tr3 where w: "exec srv (wr v (map rep_term os)) s3 tr3 (Inr sm) s'" "v \<le> now s3" "requirements_met rs (snap s' v)"
    by (rule exec_requirements [OF one(2) os(3)])
  have apart: "sorted_wrt fields_apart (map rep_field fs)"
    using assms(2) by (auto simp: normalizeUniqueInput_def rbind_Inr_iff rep_create_def dest!: normalizeCreateRecord_apart)
  show ?thesis
  proof (cases os)
    case Nil
    with w(1) have "exec srv (write_actions v (map act_val (create_acts a p x fs)) ?f) s3 tr3 (Inr sm) s'"
      by (simp add: wr_def createActions_rep)
    from write_actions_ok [OF this w(2)] Nil os(2) w(3) show ?thesis by (auto simp: apply_create)
  next
    case (Cons b bs)
    with one(1) have b: "os = [b]" by simp
    with w(1) have "exec srv (Together (map (\<lambda>f. if fl_cardinality f = Single then foundBy (valuesAt (rep_term b) (fl_predicate f) v)
          else Done (Inr None)) (map rep_field fs))
        (on_ok (\<lambda>ws. write_actions v (concat (map (upsertField (rep_term b)) (zip (map rep_field fs) ws))) (?g (rep_term b)))))
        s3 tr3 (Inr sm) s'"
      by (simp add: wr_def)
    from exec_upsert_write [OF this w(2) apart] b os(2) w(3) show ?thesis by auto
  qed
qed

end

end
