(* ===== verification/SchemaUpdates.thy ===== *)
theory SchemaUpdates
  imports SchemaOps
begin

text \<open>
  \<open>updateUniqueMany\<close> and \<open>transactUnique\<close> against a service that keeps \<open>occ_service\<close>: the cells that are written were
  compared with what the service held, and a transaction leaves each identity it declares with exactly one subject.
\<close>

section \<open>Updates over Terms\<close>

type_synonym upd_field = "fterm \<times> fterm list \<times> cardinality \<times> fterm list option"
type_synonym upd = "(fterm \<times> fterm) \<times> upd_field list"
type_synonym upd_cell = "fterm \<times> upd_field"

fun rep_upd_field :: "upd_field \<Rightarrow> update_field" where
  "rep_upd_field (q, ys, c, al) = \<lparr>uf_predicate = rep_term q, uf_values = map rep_term ys, uf_cardinality = c,
     uf_allowedCurrent = map_option (map rep_term) al\<rparr>"

fun rep_upd :: "upd \<Rightarrow> update" where
  "rep_upd ((p, x), fs) = \<lparr>up_identity = identity_of p x, up_fields = map rep_upd_field fs\<rparr>"

fun rep_cell :: "upd_cell \<Rightarrow> cell" where
  "rep_cell (b, f) = \<lparr>ce_subject = rep_term b, ce_field = rep_upd_field f\<rparr>"

text \<open>The subject and predicate a cell is of.\<close>

definition cell_key :: "upd_cell \<Rightarrow> fterm \<times> fterm" where
  "cell_key c = (fst c, fst (snd c))"

lemma cell_key_Pair [simp]: "cell_key (b, f) = (b, fst f)" "cell_key \<circ> Pair b = (\<lambda>f. (b, fst f))"
  by (auto simp: cell_key_def)

definition cell_values :: "upd_cell \<Rightarrow> triples \<Rightarrow> fterm set" where
  "cell_values c T = values_in (fst c) (fst (snd c)) T"

definition cells_of :: "fterm list \<Rightarrow> upd list \<Rightarrow> upd_cell list" where
  "cells_of bs us = concat (map (\<lambda>(b, _, fs). map (Pair b) fs) (zip bs us))"

lemma cells_of_simps [simp]: "cells_of [] us = []" "cells_of bs [] = []"
  "cells_of (b # bs) (u # us) = map (Pair b) (snd u) @ cells_of bs us"
  by (auto simp: cells_of_def split: prod.splits)

fun wf_upd_field :: "upd_field \<Rightarrow> bool" where
  "wf_upd_field (q, ys, c, al) \<longleftrightarrow> (c = Single \<longrightarrow> length ys \<le> 1) \<and> (\<forall>as. al = Some as \<longrightarrow> distinct as)"

definition wf_upds :: "upd list \<Rightarrow> bool" where
  "wf_upds us \<longleftrightarrow> (\<forall>u \<in> set us. \<forall>f \<in> set (snd u). wf_upd_field f)"

lemma distinct_from_keys:
  "distinct_from seen xs = Inr ys \<Longrightarrow> distinct (map termKey ys) \<and> length ys \<le> length xs \<and>
     (\<forall>y \<in> set ys. \<exists>k. termKey y = Inr k \<and> k \<notin> set seen)"
proof (induction seen xs arbitrary: ys rule: distinct_from.induct)
  case (2 seen v vs)
  then obtain k where k: "termKey v = Inr k" by (auto simp: rbind_Inr_iff)
  show ?case
  proof (cases "k \<in> set seen")
    case True
    with "2.prems" k "2.IH"(1) [OF k True] show ?thesis by auto
  next
    case False
    with "2.prems" k obtain zs where zs: "ys = v # zs" "distinct_from (k # seen) vs = Inr zs" by (auto simp: rbind_Inr_iff)
    from "2.IH"(2) [OF k False zs(2)] k zs(1) False show ?thesis by force
  qed
qed auto

lemma distinctTerms_keys: "distinctTerms xs = Inr ys \<Longrightarrow> distinct (map termKey ys) \<and> length ys \<le> length xs"
  using distinct_from_keys [of "[]" xs ys] by (simp add: distinctTerms_def)

lemma distinct_rep: "distinct (map termKey (map rep_term ts)) \<Longrightarrow> distinct ts"
  by (simp add: distinct_map)

definition update_field_ok :: "update_field \<Rightarrow> bool" where
  "update_field_ok f \<longleftrightarrow> (uf_cardinality f = Single \<longrightarrow> length (uf_values f) \<le> 1) \<and>
     (\<forall>as. uf_allowedCurrent f = Some as \<longrightarrow> distinct (map termKey as))"

definition updates_ok :: "update list \<Rightarrow> bool" where
  "updates_ok us \<longleftrightarrow> (\<forall>u \<in> set us. \<forall>f \<in> set (up_fields u). update_field_ok f)"

lemma normalizeUpdateField_ok: "normalizeUpdateField i v = Inr f \<Longrightarrow> update_field_ok f"
  by (auto simp: normalizeUpdateField_def update_field_ok_def schemaError_def res_simps rmap_length
      dest!: distinctTerms_keys rmap_length split: if_splits option.splits)

lemma updateFields_ok: "updateFields i seen n vs = Inr (ufs, m) \<Longrightarrow> \<forall>f \<in> set ufs. update_field_ok f"
  by (induction vs arbitrary: seen n ufs m)
     (auto simp: schemaError_def res_simps Let_def split: if_splits dest: normalizeUpdateField_ok)

lemma normalizeUpdate_ok: "normalizeUpdate counts v = Inr (u, counts') \<Longrightarrow> \<forall>f \<in> set (up_fields u). update_field_ok f"
  by (auto simp: normalizeUpdate_def schemaError_def res_simps split: if_splits prod.splits dest: updateFields_ok)

lemma normalizeUpdates_ok: "normalizeUpdates counts vs = Inr us \<Longrightarrow> updates_ok us"
proof (induction vs arbitrary: counts us)
  case (Cons v vs)
  then obtain u counts' us' where "normalizeUpdate counts v = Inr (u, counts')" "us = u # us'" "updates_ok us'"
    by (auto simp: res_simps)
  with normalizeUpdate_ok show ?case by (auto simp: updates_ok_def)
qed (simp add: updates_ok_def)

lemma updatesInput_ok: "updatesInput v = Inr us \<Longrightarrow> updates_ok us"
  by (auto simp: updatesInput_def schemaError_def res_simps split: if_splits dest: normalizeUpdates_ok)

lemma normalizeUpdateManyInput_ok: "normalizeUpdateManyInput v = Inr m \<Longrightarrow> updates_ok (um_updates m)"
  by (auto simp: normalizeUpdateManyInput_def res_simps dest: updatesInput_ok)

lemma normalizeUpdateInput_ok: "normalizeUpdateInput v = Inr m \<Longrightarrow> updates_ok (um_updates m)"
  by (auto simp: normalizeUpdateInput_def res_simps updates_ok_def dest: normalizeUpdateField_ok)

lemma normalizeUniqueTransaction_updates: "normalizeUniqueTransaction v = Inr m \<Longrightarrow> updates_ok (ut_updates m)"
  by (auto simp: normalizeUniqueTransaction_def schemaError_def res_simps updates_ok_def [of "[]"] split: if_splits dest: updatesInput_ok)

lemma rep_upd_field_ok: "update_field_ok (rep_upd_field f) \<Longrightarrow> wf_upd_field f"
  by (cases f) (auto simp: update_field_ok_def dest: distinct_rep)

lemma updates_ok_rep: "updates_ok (map rep_upd us) \<Longrightarrow> wf_upds us"
  by (fastforce simp: updates_ok_def wf_upds_def intro: rep_upd_field_ok)

section \<open>Owners and cells\<close>

lemma requireSources_rep:
  assumes "rmap (\<lambda>f. rbind (listOf f) requireSource) (map (\<lambda>os. Some (map rep_term os)) oss) = Inr ss"
  shows "\<exists>bs. oss = map (\<lambda>b. [b]) bs \<and> ss = map rep_term bs"
  using assms
proof (induction oss arbitrary: ss)
  case (Cons os oss)
  then obtain b ss' where "os = [b]" "ss = rep_term b # ss'"
    "rmap (\<lambda>f. rbind (listOf f) requireSource) (map (\<lambda>os. Some (map rep_term os)) oss) = Inr ss'"
    by (auto simp: rbind_Inr_iff listOf_def requireSource_rep)
  with Cons.IH obtain bs where "oss = map (\<lambda>b. [b]) bs" "ss' = map rep_term bs" by blast
  with \<open>os = [b]\<close> \<open>ss = _\<close> show ?case by (intro exI [of _ "b # bs"]) simp
qed simp

text \<open>The lookup predicates of each subject.\<close>

definition lookups_of :: "fterm list \<Rightarrow> upd list \<Rightarrow> fterm \<Rightarrow> fterm set" where
  "lookups_of bs us b = {p. \<exists>x fs. (b, (p, x), fs) \<in> set (zip bs us)}"

lemma lookups_of_simps [simp]: "lookups_of [] us b = {}" "lookups_of bs [] b = {}"
  "lookups_of (b' # bs) (((p, x), fs) # us) b = (if b = b' then insert p (lookups_of bs us b) else lookups_of bs us b)"
  by (auto simp: lookups_of_def)

lemma lookupPredicates_rep:
  assumes "lookupPredicates (zip (map rep_term bs) (map rep_upd us)) m = Inr m'" "\<And>b. m (key_text b) = map rep_term (P b)"
  shows "\<exists>P'. (\<forall>b. m' (key_text b) = map rep_term (P' b) \<and>
    set (P' b) = set (P b) \<union> lookups_of bs us b)"
  using assms
proof (induction bs us arbitrary: m P rule: list_induct2')
  case (4 b bs u us)
  obtain p x fs where u: "u = ((p, x), fs)" by (metis surj_pair)
  let ?P = "P(b := if p \<in> set (P b) then P b else P b @ [p])"
  have "lookupPredicates (zip (map rep_term bs) (map rep_upd us))
      (m(key_text b := map rep_term (?P b))) = Inr m'"
    using "4.prems" by (simp add: u identity_of_def rbind_Inr_iff someSame_rep split: if_splits)
  moreover have "(m(key_text b := map rep_term (?P b))) (key_text b') = map rep_term (?P b')" for b'
    using "4.prems"(2) by simp
  ultimately obtain P' where P': "m' (key_text b') = map rep_term (P' b')"
    "set (P' b') = set (?P b') \<union> lookups_of bs us b'" for b'
    using "4.IH" [of _ ?P] by blast
  show ?case
    by (intro exI [of _ P'] allI conjI P'(1)) (simp add: P'(2) u insert_absorb)
qed auto

definition cell_keys :: "upd_cell list \<Rightarrow> jstr set" where
  "cell_keys cs = (\<lambda>(b, q). pair_text b q) ` cell_key ` set cs"

lemma cell_keys_simps: "pair_text b q \<in> cell_keys cs \<longleftrightarrow> (b, q) \<in> cell_key ` set cs"
  "cell_keys (cs @ [c]) = insert (pair_text (fst (cell_key c)) (snd (cell_key c))) (cell_keys cs)"
proof -
  have "pair_text b q \<in> (\<lambda>(b, q). pair_text b q) ` S \<longleftrightarrow> (b, q) \<in> S" for S by force
  then show "pair_text b q \<in> cell_keys cs \<longleftrightarrow> (b, q) \<in> cell_key ` set cs" by (simp add: cell_keys_def)
qed (simp add: cell_keys_def split: prod.splits)

lemma fieldCells_rep:
  assumes "fieldCells (rep_term b) (map rep_term P) (map rep_upd_field fs) (map rep_cell cs, keys) = Inr (cells, keys')"
    "set keys = cell_keys cs" "distinct (map cell_key cs)"
  shows "cells = map rep_cell (cs @ map (Pair b) fs) \<and>
    set keys' = cell_keys (cs @ map (Pair b) fs) \<and>
    distinct (map cell_key (cs @ map (Pair b) fs)) \<and> (\<forall>f \<in> set fs. fst f \<notin> set P)"
  using assms
proof (induction fs arbitrary: cs keys)
  case (Cons f fs)
  obtain q ys c al where f: "f = (q, ys, c, al)" by (cases f)
  have new: "q \<notin> set P" "pair_text b q \<notin> set keys"
    "fieldCells (rep_term b) (map rep_term P) (map rep_upd_field fs) (map rep_cell (cs @ [(b, f)]), pair_text b q # keys) = Inr (cells, keys')"
    using Cons.prems(1) by (auto simp: f rbind_Inr_iff someSame_rep schemaError_def split: if_splits)
  have "set (pair_text b q # keys) = cell_keys (cs @ [(b, f)])" "distinct (map cell_key (cs @ [(b, f)]))"
    using Cons.prems(2,3) new(2) by (auto simp: cell_keys_simps f)
  from Cons.IH [OF new(3) this] new(1) show ?case by (simp add: f)
qed auto

lemma updateCells_rep:
  assumes "updateCells m (zip (map rep_term bs) (map rep_upd us)) (map rep_cell cs, keys) = Inr (cells, keys')"
    "\<forall>b. m (key_text b) = map rep_term (P b)" "set keys = cell_keys cs" "distinct (map cell_key cs)"
  shows "cells = map rep_cell (cs @ cells_of bs us) \<and> distinct (map cell_key (cs @ cells_of bs us)) \<and>
    (\<forall>(b, q) \<in> cell_key ` set (cells_of bs us). q \<notin> set (P b))"
  using assms
proof (induction bs us arbitrary: cs keys rule: list_induct2')
  case (4 b bs u us)
  obtain p x fs where u: "u = ((p, x), fs)" by (metis surj_pair)
  obtain cells1 keys1 where c1:
    "fieldCells (rep_term b) (map rep_term (P b)) (map rep_upd_field fs) (map rep_cell cs, keys) = Inr (cells1, keys1)"
    "updateCells m (zip (map rep_term bs) (map rep_upd us)) (cells1, keys1) = Inr (cells, keys')"
    using "4.prems"(1,2) by (auto simp: u rbind_Inr_iff)
  note c2 = fieldCells_rep [OF c1(1) "4.prems"(3,4)]
  have "updateCells m (zip (map rep_term bs) (map rep_upd us)) (map rep_cell (cs @ map (Pair b) fs), keys1) = Inr (cells, keys')"
    using c1(2) c2 by simp
  from "4.IH" [OF this "4.prems"(2)] c2 show ?case by (auto simp: u)
qed simp_all

text \<open>What \<open>resolveUpdates\<close> has made sure of when it returns subjects and cells.\<close>

lemma resolveOwners_rep:
  assumes "resolveOwners (map rep_upd us) (map (\<lambda>os. Some (map rep_term os)) oss) = Inr (subjects, cells)"
  shows "\<exists>bs. oss = map (\<lambda>b. [b]) bs \<and> subjects = map rep_term bs \<and> cells = map rep_cell (cells_of bs us) \<and>
    distinct (map cell_key (cells_of bs us)) \<and>
    (\<forall>(b, (p, x), fs) \<in> set (zip bs us). (b, p) \<notin> cell_key ` set (cells_of bs us))"
proof -
  obtain m' keys where r: "rmap (\<lambda>f. rbind (listOf f) requireSource) (map (\<lambda>os. Some (map rep_term os)) oss) = Inr subjects"
    "lookupPredicates (zip subjects (map rep_upd us)) (\<lambda>_. []) = Inr m'"
    "updateCells m' (zip subjects (map rep_upd us)) ([], []) = Inr (cells, keys)"
    using assms by (auto simp: resolveOwners_def res_simps)
  obtain bs where bs: "oss = map (\<lambda>b. [b]) bs" "subjects = map rep_term bs" using requireSources_rep [OF r(1)] by blast
  obtain P' where P': "\<forall>b. m' (key_text b) = map rep_term (P' b) \<and> set (P' b) = lookups_of bs us b"
    using lookupPredicates_rep [OF r(2) [unfolded bs(2)], of "\<lambda>_. []"] by auto
  have "updateCells m' (zip (map rep_term bs) (map rep_upd us)) (map rep_cell [], []) = Inr (cells, keys)" using r(3) bs(2) by simp
  from updateCells_rep [OF this, of P'] P' have "cells = map rep_cell (cells_of bs us)" "distinct (map cell_key (cells_of bs us))"
    "\<forall>(b, q) \<in> cell_key ` set (cells_of bs us). q \<notin> set (P' b)" by (auto simp: cell_keys_def)
  with bs P' show ?thesis by (intro exI [of _ bs]) (fastforce simp: lookups_of_def)
qed

section \<open>Compare and set\<close>

fun allows :: "cardinality \<Rightarrow> fterm list option \<Rightarrow> fterm set \<Rightarrow> bool" where
  "allows c None V \<longleftrightarrow> True"
| "allows Multi (Some as) V \<longleftrightarrow> V = set as"
| "allows Single (Some as) V \<longleftrightarrow> (if as = [] then V = {} else \<exists>a \<in> set as. V = {a})"

fun cell_allows :: "upd_cell \<Rightarrow> fterm set \<Rightarrow> bool" where
  "cell_allows (b, q, vs, c, al) V \<longleftrightarrow> allows c al V"

lemma everySame_rep: "everySame (map rep_term as) (map rep_term ts) = Inr (set ts \<subseteq> set as)"
  by (induction ts) (auto simp: someSame_rep)

lemma distinct_same_set: "distinct xs \<Longrightarrow> distinct ys \<Longrightarrow> length xs = length ys \<and> set xs \<subseteq> set ys \<longleftrightarrow> set xs = set ys"
  by (metis List.finite_set card_subset_eq distinct_card order_refl)

lemma acceptsCurrent_rep:
  assumes "distinct as"
  shows "rbind (distinctTerms (map rep_term ys)) (acceptsCurrent c (map rep_term as)) = Inr (allows c (Some as) (set ys))"
proof -
  let ?ds = "firsts [] ys"
  have ds: "set ?ds = set ys" "distinct ?ds" by (simp_all add: set_firsts distinct_firsts)
  have one: "(case map rep_term ?ds of [v] \<Rightarrow> someSame (map rep_term as) v | _ \<Rightarrow> Inr False) =
    Inr (\<exists>a \<in> set as. set ?ds = {a})"
    using ds(2) by (cases ?ds rule: remdups_adj.cases) (auto simp: someSame_rep)
  show ?thesis
    using one ds distinct_same_set [OF ds(2) assms]
    by (cases c) (auto simp: distinctTerms_rep acceptsCurrent_def everySame_rep)
qed

fun cell_acts :: "upd_cell \<times> fterm list \<Rightarrow> act list" where
  "cell_acts ((b, q, vs, c, al), ys) =
     (if c = Single \<and> length ys = length vs \<and> (ys = [] \<or> hd ys = hd vs) then []
      else map (Retract b q) ys @ map (Assert b q) vs)"

lemma singleNoop_rep:
  "singleNoop (rep_upd_field (q, vs, c, al)) (map rep_term ys) =
    Inr (c = Single \<and> length ys = length vs \<and> (ys = [] \<or> hd ys = hd vs))"
  by (cases ys; cases vs) (auto simp: singleNoop_def)

lemma appendCell_rep:
  assumes "appendCell (rep_cell (b, f)) (map rep_term ys) (map act_val acts) = Inr acts'" "wf_upd_field f"
  shows "acts' = map act_val (acts @ cell_acts ((b, f), ys)) \<and> cell_allows (b, f) (set ys) \<and> length ys \<le> SCHEMA_MAX_BATCH_ACTIONS"
proof -
  obtain q vs c al where f: "f = (q, vs, c, al)" by (cases f)
  have ok: "(case uf_allowedCurrent (rep_upd_field f) of None \<Rightarrow> Inr True
      | Some allowed \<Rightarrow> rbind (distinctTerms (map rep_term ys)) (acceptsCurrent (uf_cardinality (rep_upd_field f)) allowed)) =
    Inr (allows c al (set ys))"
    using assms(2) acceptsCurrent_rep [of _ ys c] by (cases al) (auto simp: f)
  have sel: "ce_field (rep_cell (b, f)) = rep_upd_field f" "ce_subject (rep_cell (b, f)) = rep_term b" by simp_all
  define noop where "noop \<longleftrightarrow> c = Single \<and> length ys = length vs \<and> (ys = [] \<or> hd ys = hd vs)"
  have nv: "singleNoop (rep_upd_field f) (map rep_term ys) = Inr noop" unfolding f singleNoop_rep noop_def ..
  have eq: "appendCell (rep_cell (b, f)) (map rep_term ys) (map act_val acts) =
    (if \<not> allows c al (set ys) then schemaError ''schema/current-value-rejected''
     else if noop then Inr (map act_val acts)
     else rbind (enforceActionLimit (map act_val (acts @ map (Retract b q) ys @ map (Assert b q) vs)))
       (\<lambda>_. Inr (map act_val (acts @ map (Retract b q) ys @ map (Assert b q) vs))))"
    unfolding appendCell_def Let_def sel ok rbind.simps nv by (simp add: f comp_def)
  show ?thesis
  proof (cases noop)
    case True
    then have "length ys \<le> SCHEMA_MAX_BATCH_ACTIONS"
      using assms(2) by (simp add: f noop_def SCHEMA_MAX_BATCH_ACTIONS_def FRAMRPC_MAX_BATCH_ACTIONS_def)
    with True assms(1) show ?thesis unfolding eq by (auto simp: f noop_def schemaError_def split: if_splits)
  next
    case False
    then have acts: "cell_acts ((b, f), ys) = map (Retract b q) ys @ map (Assert b q) vs" unfolding f noop_def by simp
    from assms(1) False show ?thesis
      unfolding eq acts
      by (auto simp: f schemaError_def enforceActionLimit_def enforceActionCount_def require_def rbind_Inr_iff split: if_splits)
  qed
qed

lemma appendCells_rep:
  assumes "appendCells (zip (map rep_cell cs) (map (\<lambda>ys. Some (map rep_term ys)) yss)) (map act_val acts) = Inr acts'"
    "length cs = length yss" "\<forall>c \<in> set cs. wf_upd_field (snd c)"
  shows "acts' = map act_val (acts @ concat (map cell_acts (zip cs yss))) \<and>
    list_all2 (\<lambda>c ys. cell_allows c (set ys) \<and> length ys \<le> SCHEMA_MAX_BATCH_ACTIONS) cs yss"
  using assms
proof (induction cs arbitrary: yss acts)
  case (Cons c cs)
  obtain b f where c: "c = (b, f)" by (cases c)
  from Cons.prems(2) obtain ys yss' where yss: "yss = ys # yss'" "length cs = length yss'" by (cases yss) auto
  with Cons.prems(1) obtain acts1 where a:
    "appendCell (rep_cell (b, f)) (map rep_term ys) (map act_val acts) = Inr acts1"
    "appendCells (zip (map rep_cell cs) (map (\<lambda>ys. Some (map rep_term ys)) yss')) acts1 = Inr acts'"
    by (auto simp: c listOf_def rbind_Inr_iff simp del: rep_cell.simps)
  from appendCell_rep [OF a(1)] Cons.prems(3) have one: "acts1 = map act_val (acts @ cell_acts ((b, f), ys))"
    "cell_allows (b, f) (set ys)" "length ys \<le> SCHEMA_MAX_BATCH_ACTIONS" by (auto simp: c)
  from Cons.IH [OF a(2) [unfolded one(1)] yss(2)] one Cons.prems(3) show ?case
    by (simp add: yss(1) c del: cell_acts.simps cell_allows.simps)
qed simp

text \<open>The cells hold their desired values, everything else is as it was.\<close>

definition updated :: "upd_cell list \<Rightarrow> triples \<Rightarrow> triples" where
  "updated cs T = {(b, q, z) \<in> T. (b, q) \<notin> cell_key ` set cs} \<union>
     {(b, q, y) | b q vs c al y. (b, q, vs, c, al) \<in> set cs \<and> y \<in> set vs}"

lemma updated_iff:
  "(a, p, z) \<in> updated cs T \<longleftrightarrow> (a, p, z) \<in> T \<and> (a, p) \<notin> cell_key ` set cs \<or>
     (\<exists>vs c al. (a, p, vs, c, al) \<in> set cs \<and> z \<in> set vs)"
  by (simp add: updated_def)

lemma updated_Cons:
  assumes "(b, q) \<notin> cell_key ` set cs"
  shows "updated cs (T - {(b, q, z) | z. True} \<union> {(b, q, y) | y. y \<in> set vs}) = updated ((b, q, vs, c, al) # cs) T"
    (is "?L = ?R")
proof -
  have none: "(b, q, f) \<notin> set cs" for f using assms by (force intro: image_eqI)
  have "(a, p, z) \<in> ?L \<longleftrightarrow> (a, p, z) \<in> ?R" for a p z
  proof (cases "a = b \<and> p = q")
    case True
    with none assms show ?thesis by (simp add: updated_iff)
  next
    case False
    then show ?thesis by (auto simp: updated_iff)
  qed
  then show ?thesis by auto
qed

lemma apply_cell:
  assumes "set ys = values_in b q T" "wf_upd_field (q, vs, c, al)"
  shows "apply_all (cell_acts ((b, q, vs, c, al), ys)) T = (T - {(b, q, z) | z. True}) \<union> {(b, q, y) | y. y \<in> set vs}"
proof (cases "c = Single \<and> length ys = length vs \<and> (ys = [] \<or> hd ys = hd vs)")
  case True
  with assms(2) have "set ys = set vs" by (cases ys; cases vs) auto
  with assms(1) have "(b, q, y) \<in> T \<longleftrightarrow> y \<in> set vs" for y by (auto simp: values_in_def)
  with True show ?thesis by (auto simp: apply_one)
next
  case False
  have "apply_all (map (Assert b q) vs) T' = T' \<union> {(b, q, y) | y. y \<in> set vs}" for T'
    using apply_asserts [of "map (\<lambda>y. (b, q, y)) vs" T'] by (auto simp: comp_def image_def)
  moreover have "cell_acts ((b, q, vs, c, al), ys) = map (Retract b q) ys @ map (Assert b q) vs"
    using False by (simp only: cell_acts.simps if_False)
  ultimately show ?thesis by (simp add: apply_all_append retract_all [OF assms(1)] del: cell_acts.simps)
qed

lemma apply_cells:
  assumes "list_all2 (\<lambda>c ys. set ys = cell_values c T) cs yss" "distinct (map cell_key cs)" "\<forall>c \<in> set cs. wf_upd_field (snd c)"
  shows "apply_all (concat (map cell_acts (zip cs yss))) T = updated cs T"
  using assms
proof (induction cs arbitrary: yss T)
  case Nil
  then show ?case by (auto simp: apply_all_def updated_def)
next
  case (Cons c cs)
  obtain b q vs cd al where c: "c = (b, q, vs, cd, al)" by (metis surj_pair)
  from Cons.prems(1) obtain ys yss' where ys: "set ys = values_in b q T" "list_all2 (\<lambda>c ys. set ys = cell_values c T) cs yss'" "yss = ys # yss'"
    by (auto simp: list_all2_Cons1 c cell_values_def)
  let ?T = "apply_all (cell_acts (c, ys)) T"
  have T: "?T = (T - {(b, q, z) | z. True}) \<union> {(b, q, y) | y. y \<in> set vs}"
    unfolding c using Cons.prems(3) by (intro apply_cell [OF ys(1)]) (simp add: c)
  have new: "(b, q) \<notin> cell_key ` set cs" using Cons.prems(2) by (simp add: c)
  have "list_all2 (\<lambda>c ys. set ys = cell_values c ?T) cs yss'"
    using ys(2)
  proof (rule list.rel_mono_strong)
    fix d zs
    assume d: "d \<in> set cs" "set zs = cell_values d T"
    with new have "cell_key d \<noteq> (b, q)" by force
    then have "cell_values d ?T = cell_values d T" by (auto simp: T cell_values_def values_in_def cell_key_def)
    with d(2) show "set zs = cell_values d ?T" by simp
  qed
  then have "apply_all (concat (map cell_acts (zip cs yss'))) ?T = updated cs ?T"
    using Cons.IH Cons.prems(2,3) by simp
  moreover have "updated cs ?T = updated (c # cs) T"
    unfolding T unfolding c by (rule updated_Cons [OF new])
  ultimately show ?case by (simp add: apply_all_append ys(3) del: cell_acts.simps)
qed

end
