(* ===== verification/SchemaTransact.thy ===== *)
theory SchemaTransact
  imports SchemaUpdates
begin

text \<open>
  \<open>updateUniqueMany\<close>, \<open>updateUnique\<close> and \<open>transactUnique\<close> against a service that keeps \<open>occ_service\<close>: what was read
  at one version decides, and the new version has exactly the effect of the input on that version.
\<close>

section \<open>Updates\<close>

text \<open>
  \<open>updates_apply us bs T\<close>: in \<open>T\<close> each update finds exactly one subject, the listed one; no two updates write one
  cell; no cell is an identity an update was looked up by; the values a cell holds are among those allowed.
\<close>

definition updates_apply :: "upd list \<Rightarrow> fterm list \<Rightarrow> triples \<Rightarrow> bool" where
  "updates_apply us bs T \<longleftrightarrow>
     list_all2 (\<lambda>b u. owners_in (fst (fst u)) (snd (fst u)) T = {b}) bs us \<and>
     distinct (map cell_key (cells_of bs us)) \<and>
     (\<forall>(b, (p, x), fs) \<in> set (zip bs us). (b, p) \<notin> cell_key ` set (cells_of bs us)) \<and>
     (\<forall>c \<in> set (cells_of bs us). cell_allows c (cell_values c T))"

section \<open>Transactions\<close>

type_synonym crt = "fterm \<times> fterm \<times> fterm \<times> (fterm \<times> fterm \<times> cardinality) list"

fun rep_crt :: "crt \<Rightarrow> create" where
  "rep_crt (a, p, x, fs) = rep_create a p x fs"

fun crt_identity :: "crt \<Rightarrow> fterm \<times> fterm" where
  "crt_identity (a, p, x, fs) = (p, x)"

definition all_created :: "crt list \<Rightarrow> triples" where
  "all_created cs = (\<Union>(a, p, x, fs) \<in> set cs. created a p x fs)"

definition create_keys :: "crt list \<Rightarrow> (fterm \<times> fterm) set" where
  "create_keys cs = (\<Union>(a, p, x, fs) \<in> set cs. Pair a ` insert p (fst ` set fs))"

lemma identityKey_rep [simp]: "identityKey (identity_of p x) = Inr (pair_text p x)"
  "identityKey \<lparr>id_predicate = rep_term p, id_value = rep_term x, rq_subject = s\<rparr> = Inr (pair_text p x)"
  by (simp_all add: identityKey_def identity_of_def)

lemma rep_create_simps [simp]: "cr_subject (rep_create a p x fs) = rep_term a" "cr_identity (rep_create a p x fs) = identity_of p x"
  "cr_fields (rep_create a p x fs) = map rep_field fs"
  by (simp_all add: rep_create_def)

lemma createCellKeys_rep:
  "createCellKeys (map rep_crt cs) = Inr (concat (map (\<lambda>(a, p, x, fs). pair_text a p # map (\<lambda>f. pair_text a (fst f)) fs) cs))"
proof -
  have "rmap (pairKey (rep_term a)) (map fl_predicate (map rep_field fs)) = Inr (map (\<lambda>f. pair_text a (fst f)) fs)" for a fs
    by (induction fs) auto
  then have "rmap (\<lambda>c. rmap (pairKey (cr_subject c)) (id_predicate (cr_identity c) # map fl_predicate (cr_fields c))) (map rep_crt cs) =
    Inr (map (\<lambda>(a, p, x, fs). pair_text a p # map (\<lambda>f. pair_text a (fst f)) fs) cs)"
    by (induction cs) (auto simp: identity_of_def)
  then show ?thesis by (simp add: createCellKeys_def)
qed

lemma create_keys_simps: "create_keys [] = {}"
  "create_keys ((a, p, x, fs) # cs) = Pair a ` insert p (fst ` set fs) \<union> create_keys cs"
  by (simp_all add: create_keys_def)

lemma create_keys_text:
  "pair_text b q \<in> set (concat (map (\<lambda>(a, p, x, fs). pair_text a p # map (\<lambda>f. pair_text a (fst f)) fs) cs)) \<longleftrightarrow>
    (b, q) \<in> create_keys cs"
  by (induction cs) (auto simp: create_keys_simps image_iff, force)

lemma rejectCollisions_rep:
  assumes "rejectCollisions (map rep_crt cs) (map rep_cell us) = Inr u"
  shows "create_keys cs \<inter> cell_key ` set us = {}"
proof -
  obtain keys where keys: "createCellKeys (map rep_crt cs) = Inr keys" "\<And>b q. pair_text b q \<in> set keys \<longleftrightarrow> (b, q) \<in> create_keys cs"
    using createCellKeys_rep [of cs] create_keys_text by blast
  have "cell_key c \<notin> create_keys cs" if c: "c \<in> set us" for c
  proof -
    obtain b q vs cd al where bq: "c = (b, q, vs, cd, al)" by (metis surj_pair)
    have "\<forall>ce \<in> set (map rep_cell us). rbind (pairKey (ce_subject ce) (uf_predicate (ce_field ce)))
        (\<lambda>k. if k \<in> set keys then schemaError ''schema/duplicate-update-target'' else Inr ()) = Inr ()"
      using assms by (simp add: rejectCollisions_def keys(1) checkAll_Inr_iff)
    then have "(if pair_text b q \<in> set keys then schemaError ''schema/duplicate-update-target'' else Inr ()) = Inr ()"
      using c by (force simp: bq)
    then show ?thesis using keys(2) by (auto simp: bq schemaError_def split: if_splits)
  qed
  then show ?thesis by auto
qed

lemma plannedBy_rep:
  assumes "plannedBy (map rep_crt cs) m = Inr m'"
  shows "m' (pair_text p x) = m (pair_text p x) \<or>
    (\<exists>a fs. (a, p, x, fs) \<in> set cs \<and> m' (pair_text p x) = Some (rep_create a p x fs))"
  using assms
proof (induction cs arbitrary: m)
  case (Cons d cs)
  obtain a' p' x' fs' where d: "d = (a', p', x', fs')" by (metis surj_pair)
  have r: "plannedBy (map rep_crt cs) (m(pair_text p' x' \<mapsto> rep_create a' p' x' fs')) = Inr m'"
    using Cons.prems by (simp add: d)
  from Cons.IH [OF r] show ?case by (auto simp: d split: if_splits)
qed simp

lemma requirementsOutside_rep:
  assumes "requirementsOutsideCreateSet (map rep_requirement rs) (map rep_crt cs) = Inr live"
  shows "\<exists>rs'. live = map rep_requirement rs' \<and> (\<forall>(b, p, x) \<in> set rs. (b, p, x) \<in> set rs' \<or> (\<exists>fs. (b, p, x, fs) \<in> set cs))"
proof -
  obtain m where m: "plannedBy (map rep_crt cs) (\<lambda>_. None) = Inr m" "requirementsOutside m (map rep_requirement rs) = Inr live"
    using assms by (auto simp: requirementsOutsideCreateSet_def rbind_Inr_iff)
  note planned = plannedBy_rep [OF m(1)]
  from m(2) show ?thesis
  proof (induction rs arbitrary: live)
    case (Cons r rs)
    obtain b p x where r: "r = (b, p, x)" by (metis surj_pair)
    show ?case
    proof (cases "m (pair_text p x)")
      case None
      with Cons.prems obtain live' where "live = rep_requirement r # live'" "requirementsOutside m (map rep_requirement rs) = Inr live'"
        by (auto simp: r rbind_Inr_iff)
      with Cons.IH obtain rs' where "live' = map rep_requirement rs'" "\<forall>(b, p, x) \<in> set rs. (b, p, x) \<in> set rs' \<or> (\<exists>fs. (b, p, x, fs) \<in> set cs)" by blast
      with \<open>live = _\<close> show ?thesis by (intro exI [of _ "r # rs'"]) (auto simp: r)
    next
      case (Some c)
      with planned [of p x] obtain a fs where a: "(a, p, x, fs) \<in> set cs" "c = rep_create a p x fs" by auto
      with Cons.prems Some have "a = b" "requirementsOutside m (map rep_requirement rs) = Inr live"
        by (auto simp: r schemaError_def rbind_Inr_iff split: if_splits)
      with Cons.IH a(1) show ?thesis by (fastforce simp: r)
    qed
  qed simp
qed

text \<open>What the checks on the input leave: the identities to create are declared once, by their create alone.\<close>

definition transaction_apart :: "crt list \<Rightarrow> upd list \<Rightarrow> bool" where
  "transaction_apart cs us \<longleftrightarrow> distinct (map crt_identity cs) \<and> distinct (map fst cs) \<and>
     (\<forall>a p x fs q y c. (a, p, x, fs) \<in> set cs \<longrightarrow> (q, y, c) \<in> set fs \<longrightarrow> (q, y) \<notin> crt_identity ` set cs) \<and>
     (\<forall>i fs q ys c al y. (i, fs) \<in> set us \<longrightarrow> (q, ys, c, al) \<in> set fs \<longrightarrow> y \<in> set ys \<longrightarrow> (q, y) \<notin> crt_identity ` set cs)"

lemma planCreates_rep:
  assumes "planCreates (map rep_crt cs) sks m = Inr m'"
  shows "(\<forall>p x. m' (pair_text p x) = None \<longleftrightarrow> m (pair_text p x) = None \<and> (p, x) \<notin> crt_identity ` set cs) \<and>
    distinct (map crt_identity cs) \<and> (\<forall>(p, x) \<in> crt_identity ` set cs. m (pair_text p x) = None) \<and>
    distinct (map fst cs) \<and> (\<forall>a \<in> fst ` set cs. key_text a \<notin> set sks)"
  using assms
proof (induction cs arbitrary: sks m)
  case (Cons d cs)
  obtain a' p' x' fs' where d: "d = (a', p', x', fs')" by (metis surj_pair)
  have r: "m (pair_text p' x') = None" "key_text a' \<notin> set sks"
    "planCreates (map rep_crt cs) (key_text a' # sks) (m(pair_text p' x' \<mapsto> rep_create a' p' x' fs')) = Inr m'"
    using Cons.prems by (auto simp: d schemaError_def split: if_splits)
  note ih = Cons.IH [OF r(3)]
  have "(p', x') \<notin> crt_identity ` set cs" "a' \<notin> fst ` set cs" using ih by (fastforce split: if_splits)+
  with ih r(1,2) show ?case by (auto simp: d split: if_splits)
qed auto

lemma normalizeUniqueTransaction_rep:
  assumes "normalizeUniqueTransaction v =
    Inr \<lparr>ut_creates = map rep_crt cs, ut_updates = map rep_upd us, ut_requireUnique = rs\<rparr>"
  shows "transaction_apart cs us"
proof -
  obtain m where m: "planCreates (map rep_crt cs) [] (\<lambda>_. None) = Inr m"
    "checkAll (\<lambda>c. checkAll (\<lambda>f. notPlanned m (fl_predicate f) (fl_value f)) (cr_fields c)) (map rep_crt cs) = Inr ()"
    "checkAll (\<lambda>u. checkAll (\<lambda>f. checkAll (notPlanned m (uf_predicate f)) (uf_values f)) (up_fields u)) (map rep_upd us) = Inr ()"
    using assms unfolding normalizeUniqueTransaction_def by (auto simp: schemaError_def rbind_Inr_iff split: if_splits)
  have known: "notPlanned m (rep_term q) (rep_term y) = Inr () \<longleftrightarrow> (q, y) \<notin> crt_identity ` set cs" for q y
  proof -
    have "m (pair_text q y) = None \<longleftrightarrow> (q, y) \<notin> crt_identity ` set cs" using planCreates_rep [OF m(1)] by simp
    then show ?thesis by (cases "m (pair_text q y)") (auto simp: notPlanned_def schemaError_def)
  qed
  have "(q, y) \<notin> crt_identity ` set cs" if a: "(a, p, x, fs) \<in> set cs" "(q, y, c) \<in> set fs" for a p x fs q y c
  proof -
    have "\<forall>c \<in> set (map rep_crt cs). \<forall>f \<in> set (cr_fields c). notPlanned m (fl_predicate f) (fl_value f) = Inr ()"
      using m(2) by (simp add: checkAll_Inr_iff)
    then have "notPlanned m (rep_term q) (rep_term y) = Inr ()" using a by force
    then show ?thesis by (simp add: known)
  qed
  moreover have "(q, y) \<notin> crt_identity ` set cs" if a: "(i, fs) \<in> set us" "(q, ys, c, al) \<in> set fs" "y \<in> set ys" for i fs q ys c al y
  proof -
    obtain p x where i: "i = (p, x)" by (cases i)
    have "\<forall>u \<in> set (map rep_upd us). \<forall>f \<in> set (up_fields u). \<forall>y \<in> set (uf_values f). notPlanned m (uf_predicate f) y = Inr ()"
      using m(3) by (simp add: checkAll_Inr_iff)
    then have "\<forall>f \<in> set (map rep_upd_field fs). \<forall>y \<in> set (uf_values f). notPlanned m (uf_predicate f) y = Inr ()"
      using a(1) by (force simp: i)
    then have "notPlanned m (rep_term q) (rep_term y) = Inr ()" using a(2,3) by force
    then show ?thesis by (simp add: known)
  qed
  ultimately show ?thesis
    unfolding transaction_apart_def using planCreates_rep [OF m(1)] by blast
qed

lemma apply_creates: "apply_all (concat (map (\<lambda>(a, p, x, fs). create_acts a p x fs) cs)) T = T \<union> all_created cs"
  by (induction cs arbitrary: T) (auto simp: apply_all_append apply_create all_created_def apply_one split: prod.splits)

lemma createActions_all:
  "concat (map createActions (map rep_crt cs)) = map act_val (concat (map (\<lambda>(a, p, x, fs). create_acts a p x fs) cs))"
  by (induction cs) (auto simp: createActions_rep)

lemma created_keys: "(b, q, y) \<in> all_created cs \<Longrightarrow> (b, q) \<in> create_keys cs"
proof -
  assume "(b, q, y) \<in> all_created cs"
  then obtain p x fs where d: "(b, p, x, fs) \<in> set cs" "q = p \<or> (\<exists>c. (q, y, c) \<in> set fs)"
    by (auto simp: all_created_def created_def)
  then have "(b, q) \<in> Pair b ` insert p (fst ` set fs)" by force
  with d(1) show "(b, q) \<in> create_keys cs" unfolding create_keys_def by blast
qed

lemma values_beside_creates:
  "create_keys cs \<inter> cell_key ` set us = {} \<Longrightarrow> c \<in> set us \<Longrightarrow> cell_values c (T \<union> all_created cs) = cell_values c T"
  using created_keys by (fastforce simp: cell_values_def values_in_def cell_key_def)

lemma transaction_owners:
  assumes "transaction_apart cs us" "create_keys cs \<inter> cell_key ` set (cells_of bs us) = {}"
    "(a, p, x, fs) \<in> set cs" "owners_in p x T = {}"
  shows "owners_in p x (updated (cells_of bs us) (T \<union> all_created cs)) = {a}"
proof -
  have planned: "(p, x) \<in> crt_identity ` set cs" using assms(3) by force
  have key: "(a, p) \<in> create_keys cs" using assms(3) by (force simp: create_keys_def)
  have mine: "(a, p, x) \<in> all_created cs" using assms(3) by (force simp: all_created_def created_def)
  have only: "b = a" if b: "(b, p, x) \<in> all_created cs" for b
  proof -
    obtain p' x' fs' where d: "(b, p', x', fs') \<in> set cs" "p' = p \<and> x' = x \<or> (\<exists>c. (p, x, c) \<in> set fs')"
      using b by (auto simp: all_created_def created_def)
    with assms(1) planned have "p' = p \<and> x' = x" unfolding transaction_apart_def by blast
    then have "crt_identity (b, p', x', fs') = crt_identity (a, p, x, fs)" by simp
    with assms(1,3) d(1) show ?thesis
      unfolding transaction_apart_def distinct_map by (metis (no_types, lifting) inj_onD prod.inject)
  qed
  have none: "\<not> ((b, p, vs, c, al) \<in> set (cells_of bs us) \<and> x \<in> set vs)" for b vs c al
  proof
    assume d: "(b, p, vs, c, al) \<in> set (cells_of bs us) \<and> x \<in> set vs"
    then obtain i gs where "(i, gs) \<in> set us" "(p, vs, c, al) \<in> set gs"
      by (auto simp: cells_of_def dest: set_zip_rightD)
    with assms(1) planned d show False unfolding transaction_apart_def by blast
  qed
  have "(b, p, x) \<notin> T" for b using assms(4) by (auto simp: owners_in_def)
  with none have "(b, p, x) \<in> updated (cells_of bs us) (T \<union> all_created cs) \<longleftrightarrow>
      (b, p, x) \<in> all_created cs \<and> (b, p) \<notin> cell_key ` set (cells_of bs us)" for b
    unfolding updated_iff by blast
  moreover have "(a, p) \<notin> cell_key ` set (cells_of bs us)" using assms(2) key by blast
  ultimately show ?thesis using only mine unfolding owners_in_def by blast
qed

lemma on_ok_rbind: "(\<lambda>r. on_ok g (rbind r f)) = on_ok (\<lambda>x. on_ok g (f x))"
proof
  show "on_ok g (rbind r f) = on_ok (\<lambda>x. on_ok g (f x)) r" for r by (cases r) simp_all
qed

lemma wf_cells: "wf_upds us \<Longrightarrow> \<forall>c \<in> set (cells_of bs us). wf_upd_field (snd c)"
  by (induction bs us rule: list_induct2') (simp_all add: wf_upds_def ball_Un)

context occ_service
begin

lemma exec_owner_lists:
  assumes "exec srv (Together (map (\<lambda>i. foundBy (ownersAt timeout (ident i) v)) is) (on_ok g)) s tr (Inr r) s'" "v \<le> now s"
    "\<And>i. i \<in> set is \<Longrightarrow> ident i = identity_of (pred i) (val i)"
  obtains s1 tr1 oss where "exec srv (g (map (\<lambda>os. Some (map rep_term os)) oss)) s1 tr1 (Inr r) s'" "v \<le> now s1"
    "list_all2 (\<lambda>i os. length os \<le> 1 \<longrightarrow> set os = owners_in (pred i) (val i) (snap s' v)) is oss"
proof -
  let ?P = "\<lambda>i. some_read v (owners_in (pred i) (val i)) 2"
  obtain s1 outc tr2 where r: "exec srv (on_ok g outc) s1 tr2 (Inr r) s'" "v \<le> now s1" "snap s1 v = snap s' v"
    "\<forall>fs. outc = Inr fs \<longrightarrow> list_all2 (\<lambda>a f. ?P a s1 f) is fs"
  proof (rule exec_reads [where P = ?P, OF assms(1,2)])
    show "stable (?P i)" for i by (rule some_read_stable)
    show "after srv (foundBy (ownersAt timeout (ident i) v)) (outcome_ok (?P i)) s" if "i \<in> set is" for i
      using after_found [OF ownersAt_ok [OF assms(2)]] assms(3) [OF that] by simp
  qed
  from r(1) obtain fs where fs: "outc = Inr fs" "exec srv (g fs) s1 tr2 (Inr r) s'" by (elim exec_on_okE) simp
  have "\<exists>oss. fs = map (\<lambda>os. Some (map rep_term os)) oss \<and>
    list_all2 (\<lambda>i os. length os \<le> 1 \<longrightarrow> set os = owners_in (pred i) (val i) (snap s' v)) is oss"
  proof (rule list_all2_witness, rule list.rel_mono_strong)
    show "list_all2 (\<lambda>a f. ?P a s1 f) is fs" using r(4) fs(1) by blast
    show "\<exists>os. f = Some (map rep_term os) \<and> (length os \<le> 1 \<longrightarrow> set os = owners_in (pred i) (val i) (snap s' v))"
      if "?P i s1 f" for i f
      using that r(3) by (elim some_readE) auto
  qed
  with that fs(2) r(2) show thesis by blast
qed

lemma exec_resolve:
  assumes "exec srv (resolveUpdates sc (map rep_upd us) v (on_ok g)) s tr (Inr r) s'" "v \<le> now s"
  obtains s1 tr1 bs where "exec srv (g (map rep_term bs, map rep_cell (cells_of bs us))) s1 tr1 (Inr r) s'" "v \<le> now s1"
    "list_all2 (\<lambda>b u. owners_in (fst (fst u)) (snd (fst u)) (snap s' v) = {b}) bs us" "distinct (map cell_key (cells_of bs us))"
    "\<forall>(b, (p, x), fs) \<in> set (zip bs us). (b, p) \<notin> cell_key ` set (cells_of bs us)"
proof -
  have "exec srv (Together (map (\<lambda>u. foundBy (ownersAt (queryTimeoutMs sc) (up_identity (rep_upd u)) v)) us)
      (on_ok (\<lambda>fs. on_ok g (resolveOwners (map rep_upd us) fs)))) s tr (Inr r) s'"
    using assms(1) by (simp add: resolveUpdates_def on_ok_rbind comp_def)
  then obtain s1 tr1 oss where o: "exec srv (on_ok g (resolveOwners (map rep_upd us) (map (\<lambda>os. Some (map rep_term os)) oss))) s1 tr1 (Inr r) s'"
    "v \<le> now s1" "list_all2 (\<lambda>u os. length os \<le> 1 \<longrightarrow> set os = owners_in (fst (fst u)) (snd (fst u)) (snap s' v)) us oss"
    by (rule exec_owner_lists [OF _ assms(2), where pred = "\<lambda>u. fst (fst u)" and val = "\<lambda>u. snd (fst u)"]) (auto simp: identity_of_def split: prod.splits)
  from o(1) obtain subjects cells where rc: "resolveOwners (map rep_upd us) (map (\<lambda>os. Some (map rep_term os)) oss) = Inr (subjects, cells)"
    "exec srv (g (subjects, cells)) s1 tr1 (Inr r) s'" by (elim exec_on_okE) auto
  obtain bs where bs: "oss = map (\<lambda>b. [b]) bs" "subjects = map rep_term bs" "cells = map rep_cell (cells_of bs us)"
    "distinct (map cell_key (cells_of bs us))" "\<forall>(b, (p, x), fs) \<in> set (zip bs us). (b, p) \<notin> cell_key ` set (cells_of bs us)"
    using resolveOwners_rep [OF rc(1)] by blast
  have "list_all2 (\<lambda>b u. owners_in (fst (fst u)) (snd (fst u)) (snap s' v) = {b}) bs us"
  proof -
    have "list_all2 (\<lambda>u b. {b} = owners_in (fst (fst u)) (snd (fst u)) (snap s' v)) us bs"
      using o(3) by (simp add: bs(1) list_all2_map2)
    then have "list_all2 (\<lambda>u b. owners_in (fst (fst u)) (snd (fst u)) (snap s' v) = {b}) us bs"
      by (rule list_all2_mono) (rule sym)
    then show ?thesis by (simp add: list_all2_conv_all_nth)
  qed
  with that [of bs s1 tr1] rc(2) o(2) bs show thesis by simp
qed

lemma exec_cells:
  assumes "exec srv (appendUpdateActions (map act_val acts) (map rep_cell cs) v (on_ok g)) s tr (Inr r) s'" "v \<le> now s"
    "\<forall>c \<in> set cs. wf_upd_field (snd c)"
  obtains s1 tr1 yss where "exec srv (g (map act_val (acts @ concat (map cell_acts (zip cs yss))))) s1 tr1 (Inr r) s'" "v \<le> now s1"
    "list_all2 (\<lambda>c ys. set ys = cell_values c (snap s' v)) cs yss" "\<forall>c \<in> set cs. cell_allows c (cell_values c (snap s' v))"
proof -
  let ?P = "\<lambda>c. some_read v (cell_values c) (SCHEMA_MAX_BATCH_ACTIONS + 1)"
  have "exec srv (Together (map (\<lambda>c. foundBy (valuesAt (ce_subject (rep_cell c)) (uf_predicate (ce_field (rep_cell c))) v)) cs)
      (on_ok (\<lambda>fs. on_ok g (appendCells (zip (map rep_cell cs) fs) (map act_val acts))))) s tr (Inr r) s'"
    using assms(1) by (simp add: appendUpdateActions_def on_ok_rbind comp_def)
  then obtain s1 outc tr2 where o: "exec srv (on_ok (\<lambda>fs. on_ok g (appendCells (zip (map rep_cell cs) fs) (map act_val acts))) outc) s1 tr2 (Inr r) s'"
    "v \<le> now s1" "snap s1 v = snap s' v" "\<forall>fs. outc = Inr fs \<longrightarrow> list_all2 (\<lambda>c f. ?P c s1 f) cs fs"
  proof (rule exec_reads [where P = ?P, OF _ assms(2)])
    show "stable (?P c)" for c by (rule some_read_stable)
    show "after srv (foundBy (valuesAt (ce_subject (rep_cell c)) (uf_predicate (ce_field (rep_cell c))) v)) (outcome_ok (?P c)) s" for c
      using after_found [OF valuesAt_ok [OF assms(2)]] by (cases c) (auto simp: cell_values_def [abs_def])
  qed
  from o(1) obtain fs acts' where fs: "outc = Inr fs" "appendCells (zip (map rep_cell cs) fs) (map act_val acts) = Inr acts'"
    "exec srv (g acts') s1 tr2 (Inr r) s'" by (elim exec_on_okE) simp
  have "\<exists>yss. fs = map (\<lambda>ys. Some (map rep_term ys)) yss \<and>
    list_all2 (\<lambda>c ys. length ys \<le> SCHEMA_MAX_BATCH_ACTIONS \<longrightarrow> set ys = cell_values c (snap s' v)) cs yss"
  proof (rule list_all2_witness, rule list.rel_mono_strong)
    show "list_all2 (\<lambda>c f. ?P c s1 f) cs fs" using o(4) fs(1) by blast
    show "\<exists>ys. f = Some (map rep_term ys) \<and> (length ys \<le> SCHEMA_MAX_BATCH_ACTIONS \<longrightarrow> set ys = cell_values c (snap s' v))"
      if "?P c s1 f" for c f
      using that o(3) by (elim some_readE) auto
  qed
  then obtain yss where yss: "fs = map (\<lambda>ys. Some (map rep_term ys)) yss"
    "list_all2 (\<lambda>c ys. length ys \<le> SCHEMA_MAX_BATCH_ACTIONS \<longrightarrow> set ys = cell_values c (snap s' v)) cs yss" by blast
  have acts': "acts' = map act_val (acts @ concat (map cell_acts (zip cs yss)))"
    "list_all2 (\<lambda>c ys. cell_allows c (set ys) \<and> length ys \<le> SCHEMA_MAX_BATCH_ACTIONS) cs yss"
    using appendCells_rep [OF fs(2) [unfolded yss(1)] list_all2_lengthD [OF yss(2)] assms(3)] by blast+
  have eq: "list_all2 (\<lambda>c ys. set ys = cell_values c (snap s' v)) cs yss"
    using yss(2) acts'(2) by (simp add: list_all2_conv_all_nth)
  have "cell_allows c (cell_values c (snap s' v))" if c: "c \<in> set cs" for c
  proof -
    obtain i where i: "i < length cs" "cs ! i = c" using c by (metis in_set_conv_nth)
    with list_all2_nthD [OF acts'(2) i(1)] list_all2_nthD [OF eq i(1)] show ?thesis by simp
  qed
  with eq have all: "list_all2 (\<lambda>c ys. set ys = cell_values c (snap s' v)) cs yss"
    "\<forall>c \<in> set cs. cell_allows c (cell_values c (snap s' v))" by blast+
  show thesis by (rule that [OF _ o(2) all]) (use fs(3) acts'(1) in simp)
qed

theorem updates_written:
  assumes "exec srv (executeUpdateUniqueMany sc \<lparr>um_updates = map rep_upd us, um_requireUnique = map rep_requirement rs\<rparr>) s tr (Inr ms) s'"
    "wf_upds us"
  shows "\<exists>v bs. ms_subjects ms = map rep_term bs \<and> updates_apply us bs (snap s' v) \<and> requirements_met rs (snap s' v) \<and>
    succeeds s' v (wr_served (ms_written ms)) (updated (cells_of bs us) (snap s' v))"
proof -
  define wr where "wr = (\<lambda>v subjects actions. write_actions v actions (\<lambda>w. \<lparr>ms_subjects = subjects, ms_written = w\<rparr>))"
  define g where "g = (\<lambda>v (subjects, cells).
    requireUniqueAt sc (map rep_requirement rs) v (on_ok (\<lambda>_. appendUpdateActions [] cells v (on_ok (wr v subjects)))))"
  define body where "body = (\<lambda>v. resolveUpdates sc (map rep_upd us) v (on_ok (g v)))"
  have "exec srv (retrying (maxConflictRetries sc) body) s tr (Inr ms) s'"
    using assms(1) unfolding executeUpdateUniqueMany_def body_def g_def wr_def by simp
  from retrying_ok [OF this] obtain v s1 tr1 where v: "v \<le> now s1" "exec srv (body v) s1 tr1 (Inr ms) s'" by blast
  obtain s2 tr2 bs where bs: "exec srv (g v (map rep_term bs, map rep_cell (cells_of bs us))) s2 tr2 (Inr ms) s'" "v \<le> now s2"
    "list_all2 (\<lambda>b u. owners_in (fst (fst u)) (snd (fst u)) (snap s' v) = {b}) bs us" "distinct (map cell_key (cells_of bs us))"
    "\<forall>(b, (p, x), fs) \<in> set (zip bs us). (b, p) \<notin> cell_key ` set (cells_of bs us)"
    by (rule exec_resolve [OF v(2) [unfolded body_def] v(1)])
  have "exec srv (requireUniqueAt sc (map rep_requirement rs) v (on_ok (\<lambda>_.
      appendUpdateActions (map act_val []) (map rep_cell (cells_of bs us)) v (on_ok (wr v (map rep_term bs)))))) s2 tr2 (Inr ms) s'"
    using bs(1) by (simp add: g_def)
  then obtain s3 tr3 where r: "exec srv (appendUpdateActions (map act_val []) (map rep_cell (cells_of bs us)) v (on_ok (wr v (map rep_term bs)))) s3 tr3 (Inr ms) s'"
    "v \<le> now s3" "requirements_met rs (snap s' v)"
    by (rule exec_requirements [OF _ bs(2)])
  have wf: "\<forall>c \<in> set (cells_of bs us). wf_upd_field (snd c)"
    by (rule wf_cells [OF assms(2)])
  obtain s4 tr4 yss where a: "exec srv (wr v (map rep_term bs) (map act_val ([] @ concat (map cell_acts (zip (cells_of bs us) yss))))) s4 tr4 (Inr ms) s'"
    "v \<le> now s4" "list_all2 (\<lambda>c ys. set ys = cell_values c (snap s' v)) (cells_of bs us) yss"
    "\<forall>c \<in> set (cells_of bs us). cell_allows c (cell_values c (snap s' v))"
    by (rule exec_cells [OF r(1,2) wf])
  from write_actions_ok [OF a(1) [unfolded wr_def] a(2)] apply_cells [OF a(3) bs(4) wf] bs(3-5) a(4) r(3)
  show ?thesis by (intro exI [of _ v] exI [of _ bs]) (auto simp: updates_apply_def)
qed

theorem transaction_written:
  assumes "exec srv (executeUniqueTransaction sc \<lparr>ut_creates = map rep_crt cs, ut_updates = map rep_upd us,
      ut_requireUnique = map rep_requirement rs\<rparr>) s tr (Inr ts) s'"
    "wf_upds us"
  shows "\<exists>v bs. ts_createdSubjects ts = map (rep_term \<circ> fst) cs \<and> ts_updatedSubjects ts = map rep_term bs \<and>
    (\<forall>(a, p, x, fs) \<in> set cs. owners_in p x (snap s' v) = {}) \<and> updates_apply us bs (snap s' v) \<and>
    create_keys cs \<inter> cell_key ` set (cells_of bs us) = {} \<and>
    (\<forall>(b, p, x) \<in> set rs. owners_in p x (snap s' v) = {b} \<or> (\<exists>fs. (b, p, x, fs) \<in> set cs)) \<and>
    succeeds s' v (wr_served (ts_written ts)) (updated (cells_of bs us) (snap s' v \<union> all_created cs))"
proof -
  define wr where "wr = (\<lambda>v subjects actions. write_actions v actions (\<lambda>w. \<lparr>ts_createdSubjects = map cr_subject (map rep_crt cs),
    ts_updatedSubjects = subjects, ts_written = w\<rparr>))"
  define acts where "acts = concat (map (\<lambda>(a, p, x, fs). create_acts a p x fs) cs)"
  define ad where "ad = (\<lambda>v subjects cells. on_ok (\<lambda>_. appendUpdateActions (map act_val acts) cells v (on_ok (wr v subjects)))
    (enforceActionLimit (map act_val acts)))"
  define g where "g = (\<lambda>v (subjects, cells). on_ok (\<lambda>_. on_ok (\<lambda>live.
      requireUniqueAt sc live v (on_ok (\<lambda>_. ad v subjects cells)))
    (requirementsOutsideCreateSet (map rep_requirement rs) (map rep_crt cs))) (rejectCollisions (map rep_crt cs) cells))"
  define body where "body = (\<lambda>v. Together (map (\<lambda>c. foundBy (ownersAt (queryTimeoutMs sc) (cr_identity (rep_crt c)) v)) cs) (on_ok (\<lambda>fs.
    on_ok (\<lambda>_. resolveUpdates sc (map rep_upd us) v (on_ok (g v))) (checkAll (\<lambda>f. rbind (listOf f) (rejectOwners True)) fs))))"
  have "exec srv (retrying (maxConflictRetries sc) body) s tr (Inr ts) s'"
    using assms(1) unfolding executeUniqueTransaction_def body_def g_def ad_def wr_def acts_def createActions_all [symmetric]
    by (simp add: Let_def comp_def)
  from retrying_ok [OF this] obtain v s1 tr1 where v: "v \<le> now s1" "exec srv (body v) s1 tr1 (Inr ts) s'" by blast
  obtain s2 tr2 oss where o: "exec srv (on_ok (\<lambda>_. resolveUpdates sc (map rep_upd us) v (on_ok (g v)))
      (checkAll (\<lambda>f. rbind (listOf f) (rejectOwners True)) (map (\<lambda>os. Some (map rep_term os)) oss))) s2 tr2 (Inr ts) s'" "v \<le> now s2"
    "list_all2 (\<lambda>c os. length os \<le> 1 \<longrightarrow> set os = owners_in (fst (crt_identity c)) (snd (crt_identity c)) (snap s' v)) cs oss"
    by (rule exec_owner_lists [OF v(2) [unfolded body_def] v(1), where pred = "\<lambda>c. fst (crt_identity c)" and val = "\<lambda>c. snd (crt_identity c)"])
       (auto split: prod.splits)
  from o(1) obtain chk: "checkAll (\<lambda>f. rbind (listOf f) (rejectOwners True)) (map (\<lambda>os. Some (map rep_term os)) oss) = Inr ()"
    and ex: "exec srv (resolveUpdates sc (map rep_upd us) v (on_ok (g v))) s2 tr2 (Inr ts) s'" by (elim exec_on_okE) auto
  have empty: "owners_in p x (snap s' v) = {}" if c: "(a, p, x, fs) \<in> set cs" for a p x fs
  proof -
    obtain i where i: "i < length cs" "cs ! i = (a, p, x, fs)" using c by (metis in_set_conv_nth)
    with list_all2_nthD [OF o(3) i(1)] list_all2_lengthD [OF o(3)]
    have own: "length (oss ! i) \<le> 1 \<longrightarrow> set (oss ! i) = owners_in p x (snap s' v)" "oss ! i \<in> set oss" by simp_all
    with chk have "rejectOwners True (map rep_term (oss ! i)) = Inr ()" by (simp add: checkAll_Inr_iff listOf_def)
    with own(1) show ?thesis by (simp add: rejectOwners_rep)
  qed
  obtain s3 tr3 bs where bs: "exec srv (g v (map rep_term bs, map rep_cell (cells_of bs us))) s3 tr3 (Inr ts) s'" "v \<le> now s3"
    "list_all2 (\<lambda>b u. owners_in (fst (fst u)) (snd (fst u)) (snap s' v) = {b}) bs us" "distinct (map cell_key (cells_of bs us))"
    "\<forall>(b, (p, x), fs) \<in> set (zip bs us). (b, p) \<notin> cell_key ` set (cells_of bs us)"
    by (rule exec_resolve [OF ex o(2)])
  let ?cells = "cells_of bs us"
  from bs(1) obtain u live where l: "rejectCollisions (map rep_crt cs) (map rep_cell ?cells) = Inr u"
    "requirementsOutsideCreateSet (map rep_requirement rs) (map rep_crt cs) = Inr live"
    "exec srv (requireUniqueAt sc live v (on_ok (\<lambda>_. ad v (map rep_term bs) (map rep_cell ?cells)))) s3 tr3 (Inr ts) s'"
    unfolding g_def prod.case by (elim exec_on_okE) (rule that)
  note apart = rejectCollisions_rep [OF l(1)]
  obtain rs' where rs': "live = map rep_requirement rs'" "\<forall>(b, p, x) \<in> set rs. (b, p, x) \<in> set rs' \<or> (\<exists>fs. (b, p, x, fs) \<in> set cs)"
    using requirementsOutside_rep [OF l(2)] by blast
  obtain s4 tr4 where r: "exec srv (ad v (map rep_term bs) (map rep_cell ?cells)) s4 tr4 (Inr ts) s'" "v \<le> now s4"
    "requirements_met rs' (snap s' v)"
    by (rule exec_requirements [OF l(3) [unfolded rs'(1)] bs(2)])
  have wf: "\<forall>c \<in> set ?cells. wf_upd_field (snd c)" by (rule wf_cells [OF assms(2)])
  from r(1) have "exec srv (appendUpdateActions (map act_val acts) (map rep_cell ?cells) v (on_ok (wr v (map rep_term bs)))) s4 tr4 (Inr ts) s'"
    unfolding ad_def by (elim exec_on_okE)
  then obtain s5 tr5 yss where a: "exec srv (wr v (map rep_term bs) (map act_val (acts @ concat (map cell_acts (zip ?cells yss))))) s5 tr5 (Inr ts) s'"
    "v \<le> now s5" "list_all2 (\<lambda>c ys. set ys = cell_values c (snap s' v)) ?cells yss"
    "\<forall>c \<in> set ?cells. cell_allows c (cell_values c (snap s' v))"
    by (rule exec_cells [OF _ r(2) wf])
  have "list_all2 (\<lambda>c ys. set ys = cell_values c (snap s' v \<union> all_created cs)) ?cells yss"
    using a(3) by (rule list.rel_mono_strong) (simp add: values_beside_creates [OF apart])
  from apply_cells [OF this bs(4) wf]
  have "apply_all (acts @ concat (map cell_acts (zip ?cells yss))) (snap s' v) = updated ?cells (snap s' v \<union> all_created cs)"
    unfolding acts_def apply_all_append apply_creates .
  with write_actions_ok [OF a(1) [unfolded wr_def] a(2)] obtain w where
    w: "ts = \<lparr>ts_createdSubjects = map cr_subject (map rep_crt cs), ts_updatedSubjects = map rep_term bs, ts_written = w\<rparr>"
    "succeeds s' v (wr_served w) (updated ?cells (snap s' v \<union> all_created cs))" by auto
  have subj: "map cr_subject (map rep_crt cs) = map (rep_term \<circ> fst) cs" by (induction cs) auto
  have ua: "updates_apply us bs (snap s' v)" using bs(3-5) a(4) by (simp add: updates_apply_def)
  have req: "\<forall>(b, p, x) \<in> set rs. owners_in p x (snap s' v) = {b} \<or> (\<exists>fs. (b, p, x, fs) \<in> set cs)"
    using rs'(2) r(3) unfolding requirements_met_def by fast
  show ?thesis
    by (intro exI [of _ v] exI [of _ bs] conjI ua apart req) (use w subj empty in \<open>auto\<close>)
qed

end

end
