(* ===== verification/SchemaSamples.thy ===== *)
theory SchemaSamples
  imports SchemaSpace SchemaTransact
begin

text \<open>
  Runs of the schema client against the reference space, for the theorems that apply the properties: no other client
  acts, every answer fits into one page.
\<close>

section \<open>Single steps\<close>

lemma exec_task_one:
  assumes "t = Ask q k" "srv s q s1 a" "k a = Done r" "exec srv (h r) s1 tr y s2"
  shows "\<exists>tr. exec srv (io_task t h) s tr y s2"
  using exec.Await [of srv s q s1 a "\<lambda>a. io_task (k a) h" tr y s2] assms by auto

lemma exec_await: "srv s q s1 (Inr a) \<Longrightarrow> exec srv (f a) s1 tr r s2 \<Longrightarrow> exec srv (Await q (on_ok f)) s (q # tr) r s2"
  by (auto intro: exec.Await)

lemma together_none: "exec srv (h (Inr [])) s tr r s2 \<Longrightarrow> \<exists>tr. exec srv (Together [] h) s tr r s2"
  using exec.Together [where ts = "[]" and k = h, OF pool_run.Stop] by (fastforce simp: start_pool_def pool_outcome_def)

lemma together_one:
  assumes "t = Ask q k" "srv s q s1 a" "k a = Done (Inr f)" "exec srv (h (Inr [f])) s1 tr r s2"
  shows "\<exists>tr. exec srv (Together [t] h) s tr r s2"
proof -
  let ?p = "start_pool SCHEMA_MAX_GUARD_CONCURRENCY [t]"
  have p: "pl_running ?p = [] @ (0, Ask q k) # []" "pl_queue ?p = []" "pl_failed ?p = None"
    by (simp_all add: start_pool_def Let_def SCHEMA_MAX_GUARD_CONCURRENCY_def assms(1))
  let ?p1 = "?p\<lparr>pl_running := [] @ (0, k a) # []\<rparr>"
  let ?p2 = "?p1\<lparr>pl_running := [] @ next_entry ?p1 @ [], pl_queue := drop (length (next_entry ?p1)) (pl_queue ?p1),
    pl_results := (pl_results ?p1)(0 \<mapsto> f)\<rparr>"
  have "pool_step srv ?p s [q] ?p1 s1" 
    by (rule Answered [where xs = "[]" and i = 0 and q = q and k = k and ys = "[]"]) (use p(1) assms(2) in simp_all)
  moreover have "pool_step srv ?p1 s1 [] ?p2 s1" 
    by (rule Stored [where xs = "[]" and i = 0 and ys = "[]"]) (simp add: assms(3))
  moreover have "pool_run srv ?p2 s1 [] ?p2 s1" by (rule pool_run.Stop) (simp add: next_entry_def p(2))
  ultimately have "pool_run srv ?p s ([q] @ ([] @ [])) ?p2 s1" by (intro pool_run.Step)
  moreover have "pool_outcome (length [t]) ?p2 = Inr [f]" using p(3) by (simp add: pool_outcome_def)
  ultimately show ?thesis using exec.Together [where ts = "[t]" and k = h] assms(4) by metis
qed

section \<open>Calls of the reference space\<close>

lemma ownersAt_asks:
  assumes "0 \<le> v" "v \<le> now_of h" "owner_list p x (h ! nat v) = os" "length os \<le> 1" "\<forall>b \<in> set os. term_ok b"
  shows "\<exists>q k a. ownersAt timeout (identity_of p x) v = Ask q k \<and> serve h q h a \<and> k a = Done (Inr (map rep_term os))"
proof -
  let ?a = "rows_answer v 0 (map (\<lambda>u. JArr [rep_term u]) os)"
  have "serve h (Call (MQuery (identityQuery (identity_of p x)) (query_options timeout v None))) h (Inr ?a)"
    using serve.Query [of h h "[]" v None 0 p x timeout] assms(1-3) by (simp add: starts_at.intros)
  moreover have "finished ?a" using assms(4) by (simp add: QUERY_PAGE_LIMIT_def)
  moreover have "responseArray ?a = Inr (map (\<lambda>u. JArr [rep_term u]) os)" using assms(4) by (simp add: QUERY_PAGE_LIMIT_def)
  moreover have "collectRows 2 (map (\<lambda>u. JArr [rep_term u]) os) ([], []) = Inr (map rep_term os, map key_text os)"
    using assms(4,5) by (cases os) (auto simp: rowTerm_def toTerm_rep_term)
  ultimately show ?thesis
    unfolding ownersAt_def readColumn_def by (subst readPages.simps) (auto intro!: exI)
qed

lemma valuesAt_asks:
  assumes "0 \<le> v" "v \<le> now_of h" "value_list e p (h ! nat v) = ys" "length ys \<le> 1" "\<forall>y \<in> set ys. term_ok (FTriple e p y)"
  shows "\<exists>q k a. valuesAt (rep_term e) (rep_term p) v = Ask q k \<and> serve h q h a \<and> k a = Done (Inr (map rep_term ys))"
proof -
  let ?a = "rows_answer v 0 (map (scan_row e p) ys)"
  have "serve h (Call (MScan (scan_pattern (rep_term e) (rep_term p)) (scan_options None))) h (Inr ?a)"
    using serve.Scan [of h h "[]" v None 0 e p] assms(1-3) by (simp add: starts_at.intros)
  moreover have "finished ?a" using assms(4) by (simp add: QUERY_PAGE_LIMIT_def)
  moreover have "responseArray ?a = Inr (map (scan_row e p) ys)" using assms(4) by (simp add: QUERY_PAGE_LIMIT_def)
  moreover have "collectValues (rep_term e) (rep_term p) (map (scan_row e p) ys) [] = Inr (map rep_term ys)"
  proof -
    have "toTerm (scan_row e p y) = Inr (rep_term (FTriple e p y))" if "y \<in> set ys" for y
      using assms(5) that unfolding scan_row_def by (intro toTerm_rep_term) simp
    with assms(4) show ?thesis
      by (cases ys) (auto simp: js_lit_def SCHEMA_MAX_BATCH_ACTIONS_def FRAMRPC_MAX_BATCH_ACTIONS_def)
  qed
  ultimately show ?thesis
    unfolding valuesAt_def by (subst scanPages.simps) (auto intro!: exI)
qed

lemma foundBy_asks:
  assumes "\<exists>q k a. t = Ask q k \<and> serve h q h a \<and> k a = Done (Inr vs)"
  shows "\<exists>q k a. foundBy t = Ask q k \<and> serve h q h a \<and> k a = Done (Inr (Some vs))"
proof -
  obtain q k a where "t = Ask q k" "serve h q h a" "k a = Done (Inr vs)" using assms by blast
  then show ?thesis
    by (intro exI [of _ q] exI [of _ "\<lambda>a. task_then (k a) (\<lambda>r. Done (map_sum id Some r))"] exI [of _ a]) (simp add: foundBy_def)
qed

text \<open>A program runs to a result and leaves a history.\<close>

definition reaches :: "'a io \<Rightarrow> history \<Rightarrow> history \<Rightarrow> bool" where
  "reaches m h h' \<longleftrightarrow> (\<exists>tr x. exec serve m h tr (Inr x) h')"

lemma reaches_asks:
  "\<exists>q k a. t = Ask q k \<and> serve h q h a \<and> k a = Done (Inr vs) \<Longrightarrow> reaches (g vs) h h' \<Longrightarrow> reaches (io_task t (on_ok g)) h h'"
  unfolding reaches_def using exec_task_one [where h = "on_ok g"] by (metis on_ok.simps(2))

lemma reaches_together_none: "reaches (g (Inr [])) h h' \<Longrightarrow> reaches (Together [] g) h h'"
  unfolding reaches_def using together_none by metis

lemma reaches_together_one:
  "\<exists>q k a. t = Ask q k \<and> serve h q h a \<and> k a = Done (Inr f) \<Longrightarrow> reaches (g (Inr [f])) h h' \<Longrightarrow> reaches (Together [t] g) h h'"
  unfolding reaches_def using together_one by metis

lemma exec_write:
  assumes "0 \<le> now_of h" "set T = apply_all acts (snap_of h (now_of h))" "acts \<noteq> []" "length acts \<le> SCHEMA_MAX_BATCH_ACTIONS"
  shows "\<exists>tr w. exec serve (write_actions (now_of h) (map act_val acts) f) h tr (Inr (f w)) (h @ [T]) \<and> wr_served w = now_of h + 1"
proof -
  let ?v = "now_of h"
  let ?w = "\<lparr>wr_changed = True, wr_served = ?v + 1, wr_result = map (\<lambda>_. JObj [(js ''stateChanged'', JBool True)]) acts, wr_preflight = JUndef\<rparr>"
  have limit: "enforceActionLimit (map act_val acts) = Inr ()"
    using assms(4) by (simp add: enforceActionLimit_def enforceActionCount_def require_def)
  have p: "serve h (Preflight (JArr (map act_val acts)) (JObj [(js ''expectedVersion'', JBigInt ?v)])) h (Inr JUndef)"
    using serve.Preflight [of h _ _ "[]"] by simp
  have b: "serve h (Call (MBatch (JArr (map act_val acts)) (JObj [(js ''expectedVersion'', JBigInt ?v), (js ''preflight'', JUndef)]))) (h @ [T])
      (Inr (batch_answer (?v + 1) acts))"
    using serve.Batch [of h h "[]" ?v T acts] assms(1,2) by (simp add: batch_options_def)
  have com: "exec serve (schema_commit ?v (map act_val acts)) h
      [Preflight (JArr (map act_val acts)) (JObj [(js ''expectedVersion'', JBigInt ?v)]),
       Call (MBatch (JArr (map act_val acts)) (JObj [(js ''expectedVersion'', JBigInt ?v), (js ''preflight'', JUndef)]))]
      (Inr (Some (batch_answer (?v + 1) acts, JUndef))) (h @ [T])"
    unfolding schema_commit_def limit on_ok.simps using assms(3)
    by simp (rule exec_await, rule p, rule exec_await, rule b, rule exec.Ret)
  have sum: "summarizeWrite ?v (Some (batch_answer (?v + 1) acts, JUndef)) = Inr ?w"
  proof -
    have "someChanged (map (\<lambda>_. JObj [(js ''stateChanged'', JBool True)]) acts) = Inr True"
      using assms(3) by (cases acts) (auto simp: nullish_def propOf_def object_fields_def)
    then show ?thesis
      by (simp add: summarizeWrite_def batch_answer_def responseVersion_def responseArray_def propOf_def object_fields_def)
  qed
  let ?h = "on_ok (\<lambda>outc. Ret (map_sum id f (summarizeWrite ?v outc)))"
  have "exec serve (?h (Inr (Some (batch_answer (?v + 1) acts, JUndef)))) (h @ [T]) [] (Inr (f ?w)) (h @ [T])"
    using sum by (simp add: exec.Ret)
  from exec_then [where h = ?h, OF com this]
  have "\<exists>tr. exec serve (write_actions ?v (map act_val acts) f) h tr (Inr (f ?w)) (h @ [T])" unfolding write_actions_def by blast
  then show ?thesis by (metis written.select_convs(2))
qed

lemma reaches_require_none: "reaches (g (Inr ())) h h' \<Longrightarrow> reaches (requireUniqueAt sc [] v g) h h'"
  unfolding requireUniqueAt_def by (simp add: reaches_together_none checkAll_def)

lemma reaches_require_one:
  assumes "\<exists>q k a. ownersAt (queryTimeoutMs sc) (identity_of p x) v = Ask q k \<and> serve h q h a \<and> k a = Done (Inr (map rep_term [b]))"
    "reaches (g (Inr ())) h h'"
  shows "reaches (requireUniqueAt sc (map rep_requirement [(b, p, x)]) v g) h h'"
proof -
  have "ownersAt (queryTimeoutMs sc) (rep_requirement (b, p, x)) v = ownersAt (queryTimeoutMs sc) (identity_of p x) v"
    by (simp add: ownersAt_def identityQuery_requirement del: rep_requirement.simps)
  with foundBy_asks [OF assms(1)] have ask: "\<exists>q k a. foundBy (ownersAt (queryTimeoutMs sc) (rep_requirement (b, p, x)) v) = Ask q k \<and>
    serve h q h a \<and> k a = Done (Inr (Some (map rep_term [b])))" by (simp only:)
  have met: "checkAll requirementHolds (zip (map rep_requirement [(b, p, x)]) [Some (map rep_term [b])]) = Inr ()"
  proof -
    have "requirementHolds (rep_requirement (b, p, x), Some (map rep_term [b])) = Inr ()" unfolding requirementHolds_rep ..
    then show ?thesis by (simp add: checkAll_def del: rep_requirement.simps)
  qed
  show ?thesis
    unfolding requireUniqueAt_def list.map
    by (rule reaches_together_one [OF ask [unfolded list.map]]) (use met assms(2) in \<open>simp only: rbind.simps list.map\<close>)
qed

lemma reaches_write:
  "0 \<le> now_of h \<Longrightarrow> v = now_of h \<Longrightarrow> as = map act_val acts \<Longrightarrow> set T = apply_all acts (snap_of h v) \<Longrightarrow> acts \<noteq> [] \<Longrightarrow>
    length acts \<le> SCHEMA_MAX_BATCH_ACTIONS \<Longrightarrow> reaches (write_actions v as f) h (h @ [T])"
  unfolding reaches_def using exec_write by metis

lemma reaches_retrying:
  assumes "reaches (body (now_of h)) h h'"
  shows "reaches (retrying n body) h h'"
proof -
  obtain tr x where ex: "exec serve (body (now_of h)) h tr (Inr x) h'" using assms unfolding reaches_def by blast
  have b: "exec serve (io_then (body (now_of h)) (\<lambda>outc. case outc of Inl e \<Rightarrow> if skewed e \<or> typedConflict e then again else Ret (Inl e)
      | Inr x \<Rightarrow> Ret (Inr x))) h tr (Inr x) h'" (is "exec serve (io_then _ ?g) _ _ _ _") for again
  proof -
    have "exec serve (?g (Inr x)) h' [] (Inr x) h'" by (simp add: exec.Ret)
    from exec_then [where h = ?g, OF ex this] show ?thesis by simp
  qed
  have "serve h (Call (MVersion JUndef)) h (Inr (version_answer (now_of h)))" using serve.Version [of h h "[]"] by simp
  moreover have "responseVersion (version_answer v) = Inr v" for v
    by (simp add: version_answer_def responseVersion_def propOf_def object_fields_def)
  ultimately have "exec serve (attempt body again) h (Call (MVersion JUndef) # tr) (Inr x) h'" for again
    unfolding attempt_def using b by (intro exec.Await) auto
  then show ?thesis unfolding reaches_def by (cases n) auto
qed

section \<open>Sample values\<close>

definition sub1 :: fterm where "sub1 = FInteger 1"
definition sub2 :: fterm where "sub2 = FInteger 2"
definition val1 :: fterm where "val1 = FBoolean True"
definition val2 :: fterm where "val2 = FBoolean False"
definition pred1 :: fterm where "pred1 = FInteger 10"
definition pred2 :: fterm where "pred2 = FInteger 20"

lemmas sample_defs = sub1_def sub2_def val1_def val2_def pred1_def pred2_def

lemma sample_terms_ok: "term_ok sub1" "term_ok sub2" "term_ok val1" "term_ok val2" "term_ok pred1" "term_ok pred2"
  "term_ok (FTriple sub1 pred1 val1)" "term_ok (FTriple sub1 pred2 val1)"
  by (simp_all add: sample_defs term_ok_def MAX_TERM_NODES_def MAX_TERM_DEPTH_def i64_ok_def I64_MIN_def I64_MAX_def)

definition sample_schema :: schema_client where
  "sample_schema = \<lparr>maxConflictRetries = 4, queryTimeoutMs = 5000\<rparr>"

text \<open>A value is replaced.\<close>

lemma sample_replace:
  "reaches (replaceSingle sample_schema (rep_term sub1) (rep_term pred1) (rep_term val2)) [[(sub1, pred1, val1)]]
     ([[(sub1, pred1, val1)]] @ [[(sub1, pred1, val2)]])"
proof -
  let ?h = "[[(sub1, pred1, val1)]]"
  have now: "now_of ?h = 0" by (simp add: now_of_def)
  have ask: "\<exists>q k a. valuesAt (rep_term sub1) (rep_term pred1) 0 = Ask q k \<and> serve ?h q ?h a \<and> k a = Done (Inr (map rep_term [val1]))"
    by (rule valuesAt_asks) (simp_all add: now value_list_def sample_terms_ok)
  show ?thesis
    unfolding replaceSingle_def toTerm_rep_term [OF sample_terms_ok(1)] toTerm_rep_term [OF sample_terms_ok(4)]
      toTerm_rep_term [OF sample_terms_ok(5)] on_ok.simps
    by (rule reaches_retrying, unfold now, rule reaches_asks [OF ask],
        rule reaches_write [where acts = "[Retract sub1 pred1 val1, Assert sub1 pred1 val2]"])
       (auto simp: now snap_of_def apply_all_def SCHEMA_MAX_BATCH_ACTIONS_def FRAMRPC_MAX_BATCH_ACTIONS_def)
qed

text \<open>Inputs as a caller writes them.\<close>

definition identity_val :: "fterm \<Rightarrow> fterm \<Rightarrow> jsval" where
  "identity_val p x = JObj [(js ''predicate'', rep_term p), (js ''value'', rep_term x)]"

definition create_input :: jsval where
  "create_input = JObj [(js ''subject'', rep_term sub1), (js ''identity'', identity_val pred1 val1),
     (js ''fields'', JArr [JObj [(js ''predicate'', rep_term pred2), (js ''value'', rep_term val1)]]),
     (js ''requireUnique'', JArr [JObj [(js ''subject'', rep_term sub2), (js ''predicate'', rep_term pred2), (js ''value'', rep_term val2)]])]"

lemmas input_defs = onlyKeys_def inputObject_def object_fields_def requiredTerm_def requiredKey_def inputArray_def identity_val_def
  normalizeIdentity_def normalizeRequireUnique_def normalizeRequirement_def enforceActionCount_def require_def
  SCHEMA_MAX_BATCH_ACTIONS_def FRAMRPC_MAX_BATCH_ACTIONS_def SCHEMA_MAX_REQUIRE_UNIQUE_def toTerm_rep_term sample_terms_ok js_lit_def

lemma create_input_ok:
  "normalizeUniqueInput create_input = Inr \<lparr>ui_create = rep_create sub1 pred1 val1 [(pred2, val1, Single)],
     ui_requireUnique = map rep_requirement [(sub2, pred2, val2)]\<rparr>"
proof -
  have "pred2 \<noteq> pred1" by (simp add: sample_defs)
  then show ?thesis
    by (simp add: normalizeUniqueInput_def normalizeCreateRecord_def create_input_def input_defs addField_def normalizeField_def
        rep_create_def identity_of_def)
qed

lemma sample_create:
  "reaches (createUnique sample_schema create_input) [[(sub2, pred2, val2)]]
     ([[(sub2, pred2, val2)]] @ [[(sub2, pred2, val2), (sub1, pred1, val1), (sub1, pred2, val1)]])"
proof -
  let ?h = "[[(sub2, pred2, val2)]]"
  have now: "now_of ?h = 0" by (simp add: now_of_def)
  have other: "pred2 \<noteq> pred1" "val2 \<noteq> val1" by (simp_all add: sample_defs)
  have own: "\<exists>q k a. ownersAt (queryTimeoutMs sample_schema) (identity_of pred1 val1) 0 = Ask q k \<and> serve ?h q ?h a \<and> k a = Done (Inr (map rep_term []))"
    by (rule ownersAt_asks) (simp_all add: now owner_list_def other)
  have req: "\<exists>q k a. ownersAt (queryTimeoutMs sample_schema) (identity_of pred2 val2) 0 = Ask q k \<and> serve ?h q ?h a \<and>
      k a = Done (Inr (map rep_term [sub2]))"
    by (rule ownersAt_asks) (simp_all add: now owner_list_def sample_terms_ok)
  have limit: "enforceActionLimit (createActions (rep_create sub1 pred1 val1 [(pred2, val1, Single)])) = Inr ()"
    by (simp add: enforceActionLimit_def createActions_rep create_acts_def input_defs)
  have none: "rejectOwners True (map rep_term []) = Inr ()" by (simp add: rejectOwners_def)
  show ?thesis
    unfolding createUnique_def create_input_ok on_ok.simps Let_def unique_input.select_convs limit rep_create_simps
    by (rule reaches_retrying, unfold now, rule reaches_asks [OF own], unfold none on_ok.simps,
        rule reaches_require_one [OF req], unfold on_ok.simps,
        rule reaches_write [where acts = "create_acts sub1 pred1 val1 [(pred2, val1, Single)]"])
       (auto simp: now createActions_rep snap_of_def create_acts_def apply_all_def SCHEMA_MAX_BATCH_ACTIONS_def FRAMRPC_MAX_BATCH_ACTIONS_def)
qed

text \<open>A record that exists: its single value is replaced.\<close>

definition sample_space :: history where
  "sample_space = [[(sub1, pred1, val1), (sub1, pred2, val2)]]"

definition sample_after :: history where
  "sample_after = sample_space @ [[(sub1, pred1, val1), (sub1, pred2, val1)]]"

lemma sample_apart: "pred2 \<noteq> pred1" "pred1 \<noteq> pred2" "val2 \<noteq> val1" "val1 \<noteq> val2"
  by (simp_all add: sample_defs)

lemma sample_now: "now_of sample_space = 0"
  by (simp add: sample_space_def now_of_def)

lemma sample_owner:
  "\<exists>q k a. ownersAt timeout (identity_of pred1 val1) 0 = Ask q k \<and> serve sample_space q sample_space a \<and>
     k a = Done (Inr (map rep_term [sub1]))"
  by (rule ownersAt_asks) (simp_all add: sample_now, simp_all add: sample_space_def owner_list_def sample_terms_ok sample_apart)

lemma sample_value:
  "\<exists>q k a. foundBy (valuesAt (rep_term sub1) (rep_term pred2) 0) = Ask q k \<and> serve sample_space q sample_space a \<and>
     k a = Done (Inr (Some (map rep_term [val2])))"
proof (rule foundBy_asks, rule valuesAt_asks)
  show "\<forall>y \<in> set [val2]. term_ok (FTriple sub1 pred2 y)"
    by (simp add: sample_defs term_ok_def MAX_TERM_NODES_def MAX_TERM_DEPTH_def i64_ok_def I64_MIN_def I64_MAX_def)
qed (simp_all add: sample_now, simp_all add: sample_space_def value_list_def sample_apart)

lemma sample_written:
  "as = map act_val [Retract sub1 pred2 val2, Assert sub1 pred2 val1] \<Longrightarrow> reaches (write_actions 0 as f) sample_space sample_after"
  unfolding sample_after_def
  by (rule reaches_write [where acts = "[Retract sub1 pred2 val2, Assert sub1 pred2 val1]"])
     (auto simp: sample_now, auto simp: sample_space_def sample_apart snap_of_def apply_all_def SCHEMA_MAX_BATCH_ACTIONS_def FRAMRPC_MAX_BATCH_ACTIONS_def)

definition upsert_input :: jsval where
  "upsert_input = JObj [(js ''subject'', rep_term sub2), (js ''identity'', identity_val pred1 val1),
     (js ''fields'', JArr [JObj [(js ''predicate'', rep_term pred2), (js ''value'', rep_term val1)]])]"

lemma upsert_input_ok:
  "normalizeUniqueInput upsert_input = Inr \<lparr>ui_create = rep_create sub2 pred1 val1 [(pred2, val1, Single)],
     ui_requireUnique = map rep_requirement []\<rparr>"
  by (simp add: normalizeUniqueInput_def normalizeCreateRecord_def upsert_input_def input_defs addField_def normalizeField_def
      rep_create_def identity_of_def sample_apart)

lemma sample_upsert: "reaches (upsertUnique sample_schema upsert_input) sample_space sample_after"
proof -
  have one: "rejectOwners False (map rep_term [sub1]) = Inr ()" by (simp add: rejectOwners_def)
  show ?thesis
    unfolding upsertUnique_def upsert_input_ok on_ok.simps Let_def unique_input.select_convs rep_create_simps
    by (rule reaches_retrying, unfold sample_now, rule reaches_asks [OF sample_owner], unfold one on_ok.simps list.map(1),
        rule reaches_require_none, unfold on_ok.simps list.map list.case,
        simp, rule reaches_together_one [OF sample_value], unfold on_ok.simps, rule sample_written)
       (simp add: upsertField_def)
qed

definition update_input :: jsval where
  "update_input = JObj [(js ''updates'', JArr [JObj [(js ''identity'', identity_val pred1 val1),
     (js ''fields'', JArr [JObj [(js ''predicate'', rep_term pred2), (js ''values'', JArr [rep_term val1]),
       (js ''cardinality'', JStr (js ''single'')), (js ''allowedCurrent'', JArr [rep_term val2])]])]])]"

definition sample_updates :: "upd list" where
  "sample_updates = [((pred1, val1), [(pred2, [val1], Single, Some [val2])])]"

lemma update_input_ok:
  "normalizeUpdateManyInput update_input = Inr \<lparr>um_updates = map rep_upd sample_updates, um_requireUnique = map rep_requirement []\<rparr>"
  by (simp add: normalizeUpdateManyInput_def updatesInput_def update_input_def input_defs normalizeUpdate_def normalizeUpdateField_def
      cardinalityOf_def allowedInput_def distinctTerms_def sample_updates_def identity_of_def sample_apart)

lemma sample_update: "reaches (updateUniqueMany sample_schema update_input) sample_space sample_after"
proof -
  have rs: "resolveOwners (map rep_upd sample_updates) [Some (map rep_term [sub1])] =
      Inr ([rep_term sub1], map rep_cell [(sub1, pred2, [val1], Single, Some [val2])])"
    by (simp add: resolveOwners_def sample_updates_def listOf_def requireSource_def identity_of_def someSame_rep sample_apart)
  have acts: "appendCells (zip [rep_cell (sub1, pred2, [val1], Single, Some [val2])] [Some (map rep_term [val2])]) [] =
      Inr (map act_val [Retract sub1 pred2 val2, Assert sub1 pred2 val1])"
    by (simp add: listOf_def appendCell_def Let_def distinctTerms_def acceptsCurrent_def someSame_rep singleNoop_def sample_apart
        enforceActionLimit_def input_defs)
  have cell: "ce_subject (rep_cell (b, f)) = rep_term b" "uf_predicate (ce_field (rep_cell (b, q, g))) = rep_term q" for b f q g
    by (cases g; simp)+
  have up: "map (\<lambda>u. foundBy (ownersAt (queryTimeoutMs sample_schema) (up_identity u) v)) (map rep_upd sample_updates) =
      [foundBy (ownersAt (queryTimeoutMs sample_schema) (identity_of pred1 val1) v)]" for v
    by (simp add: sample_updates_def)
  show ?thesis
    unfolding updateUniqueMany_def update_input_ok on_ok.simps executeUpdateUniqueMany_def update_many.select_convs resolveUpdates_def
      appendUpdateActions_def up
    apply (rule reaches_retrying, unfold sample_now, rule reaches_together_one [OF foundBy_asks [OF sample_owner]])
    apply (unfold rbind.simps rs on_ok.simps prod.case list.map(1), rule reaches_require_none)
    apply (unfold on_ok.simps list.map cell, rule reaches_together_one [OF sample_value])
    apply (unfold rbind.simps acts on_ok.simps, rule sample_written, rule refl)
    done
qed

definition transact_input :: jsval where
  "transact_input = JObj [(js ''creates'', JArr [JObj [(js ''subject'', rep_term sub1), (js ''identity'', identity_val pred1 val1)]]),
     (js ''requireUnique'', JArr [JObj [(js ''subject'', rep_term sub1), (js ''predicate'', rep_term pred1), (js ''value'', rep_term val1)]])]"

lemma transact_input_ok:
  "normalizeUniqueTransaction transact_input = Inr \<lparr>ut_creates = map rep_crt [(sub1, pred1, val1, [])], ut_updates = map rep_upd [],
     ut_requireUnique = map rep_requirement [(sub1, pred1, val1)]\<rparr>"
  by (simp add: normalizeUniqueTransaction_def normalizeCreateRecord_def transact_input_def input_defs rep_create_def identity_of_def
      identityKey_def checkAll_def requirementPlanned_def desiredActions_def)

lemma sample_transact:
  "reaches (transactUnique sample_schema transact_input) [[]] ([[]] @ [[(sub1, pred1, val1)]])"
proof -
  have now: "now_of [[]] = 0" by (simp add: now_of_def)
  have own: "\<exists>q k a. ownersAt (queryTimeoutMs sample_schema) (identity_of pred1 val1) 0 = Ask q k \<and> serve [[]] q [[]] a \<and>
      k a = Done (Inr (map rep_term []))"
    by (rule ownersAt_asks) (simp_all add: now owner_list_def)
  have none: "checkAll (\<lambda>f. rbind (listOf f) (rejectOwners True)) [Some (map rep_term [])] = Inr ()"
    by (simp add: checkAll_def listOf_def rejectOwners_def)
  have res: "resolveOwners (map rep_upd []) [] = Inr ([], map rep_cell [])" by (simp add: resolveOwners_def)
  have live: "requirementsOutsideCreateSet (map rep_requirement [(sub1, pred1, val1)]) (map rep_crt [(sub1, pred1, val1, [])]) = Inr []"
    by (simp add: requirementsOutsideCreateSet_def rep_create_def identityKey_def identity_of_def)
  have coll: "rejectCollisions (map rep_crt [(sub1, pred1, val1, [])]) (map rep_cell []) = Inr ()"
    unfolding rejectCollisions_def createCellKeys_rep by (simp add: checkAll_def)
  have acts: "concat (map createActions (map rep_crt [(sub1, pred1, val1, [])])) = map act_val [Assert sub1 pred1 val1]"
    by (simp add: createActions_rep create_acts_def)
  have limit: "enforceActionLimit (map act_val [Assert sub1 pred1 val1]) = Inr ()"
    by (simp add: enforceActionLimit_def input_defs)
  have crt: "map (\<lambda>c. foundBy (ownersAt t (cr_identity c) v)) (map rep_crt [(sub1, pred1, val1, [])]) =
      [foundBy (ownersAt t (identity_of pred1 val1) v)]" for t v
    by simp
  show ?thesis
    unfolding transactUnique_def transact_input_ok on_ok.simps executeUniqueTransaction_def unique_transaction.select_convs
      resolveUpdates_def appendUpdateActions_def crt
    apply (rule reaches_retrying, unfold now, rule reaches_together_one [OF foundBy_asks [OF own]])
    apply (unfold on_ok.simps none, unfold list.map(1), rule reaches_together_none)
    apply (unfold rbind.simps res [unfolded list.map(1)] on_ok.simps prod.case coll [unfolded list.map(1)] live, rule reaches_require_none)
    apply (unfold on_ok.simps Let_def acts limit list.map(1), rule reaches_together_none)
    apply (unfold rbind.simps zip.simps appendCells.simps on_ok.simps)
    apply (rule reaches_write [where acts = "[Assert sub1 pred1 val1]"])
    apply (simp_all add: now)
    apply (simp_all add: snap_of_def apply_all_def SCHEMA_MAX_BATCH_ACTIONS_def FRAMRPC_MAX_BATCH_ACTIONS_def)
    done
qed

end
