(* ===== verification/SchemaTrace.thy ===== *)
theory SchemaTrace
  imports SchemaRun
begin

text \<open>
  How many calls the operations of the schema client make, that they do not go on after a batch whose outcome is
  settled, and that they return when the FRAM client answers every call. Nothing is assumed of the answers.
\<close>

section \<open>Counting calls\<close>

definition count_calls :: "(fram_request \<Rightarrow> bool) \<Rightarrow> fram_request list \<Rightarrow> nat" where
  "count_calls P tr = length (filter P tr)"

lemma count_calls_simps [simp]: "count_calls P [] = 0" "count_calls P (tr @ tr') = count_calls P tr + count_calls P tr'"
  "count_calls P (q # tr) = (if P q then 1 else 0) + count_calls P tr"
  by (simp_all add: count_calls_def)

definition is_batch :: "fram_request \<Rightarrow> bool" where
  "is_batch q \<longleftrightarrow> (case q of Call (MBatch as opts) \<Rightarrow> True | _ \<Rightarrow> False)"

definition any_call :: "fram_request \<Rightarrow> bool" where
  "any_call q \<longleftrightarrow> True"

lemma is_batch_simps [simp]: "\<not> is_batch (Call (MVersion v))" "\<not> is_batch (Call (MQuery x y))" "\<not> is_batch (Call (MScan x y))"
  "\<not> is_batch (Preflight x y)" "is_batch (Call (MBatch x y))" "any_call q"
  by (simp_all add: is_batch_def any_call_def)

text \<open>At most \<open>n\<close> calls with \<open>P\<close>, whatever the answers are.\<close>

primrec most_task :: "(fram_request \<Rightarrow> bool) \<Rightarrow> 'a task \<Rightarrow> nat \<Rightarrow> bool" where
  "most_task P (Done r) n \<longleftrightarrow> True"
| "most_task P (Ask q k) n \<longleftrightarrow> (if P q then 0 < n \<and> (\<forall>a. most_task P (k a) (n - 1)) else \<forall>a. most_task P (k a) n)"

definition jobs_most :: "(fram_request \<Rightarrow> bool) \<Rightarrow> (nat \<times> found task) list \<Rightarrow> nat \<Rightarrow> bool" where
  "jobs_most P xs n \<longleftrightarrow> (\<exists>bs. list_all2 (\<lambda>x b. most_task P (snd x) b) xs bs \<and> sum_list bs \<le> n)"

primrec most_io :: "(fram_request \<Rightarrow> bool) \<Rightarrow> 'a io \<Rightarrow> nat \<Rightarrow> bool" where
  "most_io P (Ret r) n \<longleftrightarrow> True"
| "most_io P (Await q k) n \<longleftrightarrow> (if P q then 0 < n \<and> (\<forall>a. most_io P (k a) (n - 1)) else \<forall>a. most_io P (k a) n)"
| "most_io P (Together ts k) n \<longleftrightarrow>
     (\<exists>m b. (\<forall>t \<in> set ts. most_task P t m) \<and> (\<forall>a. most_io P (k a) b) \<and> length ts * m + b \<le> n)"

lemma most_task_mono: "most_task P t m \<Longrightarrow> m \<le> n \<Longrightarrow> most_task P t n"
proof (induction t arbitrary: m n)
  case (Ask q k)
  have step: "\<forall>a. most_task P (k a) i \<Longrightarrow> i \<le> j \<Longrightarrow> \<forall>a. most_task P (k a) j" for i j using Ask.IH [OF rangeI] by blast
  show ?case
  proof (cases "P q")
    case True
    with Ask.prems step [of "m - 1" "n - 1"] show ?thesis by simp
  next
    case False
    with Ask.prems step [of m n] show ?thesis by simp
  qed
qed simp

lemma most_io_mono: "most_io P m a \<Longrightarrow> a \<le> b \<Longrightarrow> most_io P m b"
proof (induction m arbitrary: a b)
  case (Await q k)
  have step: "\<forall>x. most_io P (k x) i \<Longrightarrow> i \<le> j \<Longrightarrow> \<forall>x. most_io P (k x) j" for i j using Await.IH [OF rangeI] by blast
  show ?case
  proof (cases "P q")
    case True
    with Await.prems step [of "a - 1" "b - 1"] show ?thesis by simp
  next
    case False
    with Await.prems step [of a b] show ?thesis by simp
  qed
next
  case (Together ts k)
  then show ?case unfolding most_io.simps by (meson order_trans)
qed simp

lemma jobs_most_Nil [simp]: "jobs_most P [] n"
  by (simp add: jobs_most_def)

lemma jobs_most_Cons: "jobs_most P (x # xs) n \<longleftrightarrow> (\<exists>a b. most_task P (snd x) a \<and> jobs_most P xs b \<and> a + b \<le> n)"
proof
  assume "jobs_most P (x # xs) n"
  then obtain a bs where "most_task P (snd x) a" "list_all2 (\<lambda>x b. most_task P (snd x) b) xs bs" "a + sum_list bs \<le> n"
    by (auto simp: jobs_most_def list_all2_Cons1)
  then show "\<exists>a b. most_task P (snd x) a \<and> jobs_most P xs b \<and> a + b \<le> n" by (auto simp: jobs_most_def)
next
  assume "\<exists>a b. most_task P (snd x) a \<and> jobs_most P xs b \<and> a + b \<le> n"
  then obtain a b bs where "most_task P (snd x) a" "list_all2 (\<lambda>x b. most_task P (snd x) b) xs bs" "sum_list bs \<le> b" "a + b \<le> n"
    by (auto simp: jobs_most_def)
  then show "jobs_most P (x # xs) n" unfolding jobs_most_def by (intro exI [of _ "a # bs"]) simp
qed

lemma jobs_most_append: "jobs_most P (xs @ ys) n \<longleftrightarrow> (\<exists>a b. jobs_most P xs a \<and> jobs_most P ys b \<and> a + b \<le> n)"
proof
  assume "jobs_most P (xs @ ys) n"
  then obtain as bs where "list_all2 (\<lambda>x b. most_task P (snd x) b) xs as" "list_all2 (\<lambda>x b. most_task P (snd x) b) ys bs"
    "sum_list as + sum_list bs \<le> n" by (auto simp: jobs_most_def list_all2_append1)
  then show "\<exists>a b. jobs_most P xs a \<and> jobs_most P ys b \<and> a + b \<le> n"
    by (intro exI [of _ "sum_list as"] exI [of _ "sum_list bs"]) (auto simp: jobs_most_def)
next
  assume "\<exists>a b. jobs_most P xs a \<and> jobs_most P ys b \<and> a + b \<le> n"
  then obtain as bs where "list_all2 (\<lambda>x b. most_task P (snd x) b) xs as" "list_all2 (\<lambda>x b. most_task P (snd x) b) ys bs"
    "sum_list as + sum_list bs \<le> n" by (fastforce simp: jobs_most_def)
  then show "jobs_most P (xs @ ys) n" unfolding jobs_most_def by (intro exI [of _ "as @ bs"]) (simp add: list_all2_appendI)
qed

lemma jobs_most_all: "(\<forall>x \<in> set xs. most_task P (snd x) m) \<Longrightarrow> jobs_most P xs (length xs * m)"
  by (induction xs) (auto simp: jobs_most_Cons)

lemma pool_step_most:
  assumes "pool_step srv p s tr p' s'" "jobs_most P (pl_running p @ pl_queue p) n"
  shows "\<exists>n'. jobs_most P (pl_running p' @ pl_queue p') n' \<and> count_calls P tr + n' \<le> n"
  using assms
proof (induction rule: pool_step.induct)
  case (Answered p xs i q k ys s s' a)
  then obtain na nt nb where b: "jobs_most P xs na" "most_task P (Ask q k) nt" "jobs_most P (ys @ pl_queue p) nb" "na + (nt + nb) \<le> n"
    by (fastforce simp: jobs_most_append jobs_most_Cons)
  then have "most_task P (k a) (nt - (if P q then 1 else 0))" "P q \<Longrightarrow> 0 < nt" by (auto split: if_splits)
  with b have "jobs_most P (xs @ (i, k a) # ys @ pl_queue p) (na + ((nt - (if P q then 1 else 0)) + nb))"
    unfolding jobs_most_append [of _ xs] jobs_most_Cons by (metis order_refl snd_conv)
  with b(4) \<open>P q \<Longrightarrow> 0 < nt\<close> show ?case
    by (intro exI [of _ "na + ((nt - (if P q then 1 else 0)) + nb)"]) auto
next
  case (Stored p xs i x ys s)
  then obtain na nb nq where b: "jobs_most P xs na" "jobs_most P ys nb" "jobs_most P (pl_queue p) nq" "na + nb + nq \<le> n"
    by (fastforce simp: jobs_most_append jobs_most_Cons)
  have "next_entry p @ drop (length (next_entry p)) (pl_queue p) = pl_queue p"
    by (cases "pl_queue p") (simp_all add: next_entry_def)
  with b(3) obtain ne nr where e: "jobs_most P (next_entry p) ne" "jobs_most P (drop (length (next_entry p)) (pl_queue p)) nr" "ne + nr \<le> nq"
    by (metis jobs_most_append)
  have "jobs_most P (xs @ next_entry p @ ys @ drop (length (next_entry p)) (pl_queue p)) (na + (ne + (nb + nr)))"
    using b(1,2) e(1,2) unfolding jobs_most_append by blast
  with b(4) e(3) show ?case by (intro exI [of _ "na + (ne + (nb + nr))"]) simp
next
  case (Threw p xs i e ys s)
  then show ?case by (fastforce simp: jobs_most_append jobs_most_Cons)
qed

lemma pool_run_most: "pool_run srv p s tr p' s' \<Longrightarrow> jobs_most P (pl_running p @ pl_queue p) n \<Longrightarrow> count_calls P tr \<le> n"
proof (induction arbitrary: n rule: pool_run.induct)
  case (Step p s tr1 p1 s1 tr2 p2 s2)
  obtain n' where "jobs_most P (pl_running p1 @ pl_queue p1) n'" "count_calls P tr1 + n' \<le> n"
    using pool_step_most [OF Step.hyps(1) Step.prems] by blast
  with Step.IH [of n'] show ?case by simp
qed simp

lemma start_pool_most: "\<forall>t \<in> set ts. most_task P t m \<Longrightarrow>
  jobs_most P (pl_running (start_pool c ts) @ pl_queue (start_pool c ts)) (length ts * m)"
proof -
  assume ts: "\<forall>t \<in> set ts. most_task P t m"
  have "\<forall>x \<in> set (zip [0..<length ts] ts). most_task P (snd x) m" using ts by (auto dest: set_zip_rightD)
  from jobs_most_all [OF this] show ?thesis by (simp add: start_pool_def Let_def)
qed

theorem exec_most: "exec srv m s tr r s' \<Longrightarrow> most_io P m n \<Longrightarrow> count_calls P tr \<le> n"
proof (induction arbitrary: n rule: exec.induct)
  case (Await s q s1 a k tr r s2)
  then show ?case by (cases "P q") (fastforce dest: Await.IH)+
next
  case (Together ts s tr1 p s1 k tr2 r s2)
  from Together.prems obtain m b where m: "\<forall>t \<in> set ts. most_task P t m" "\<forall>a. most_io P (k a) b" "length ts * m + b \<le> n"
    unfolding most_io.simps by blast
  have "count_calls P tr1 \<le> length ts * m" by (rule pool_run_most [OF Together.hyps(1) start_pool_most [OF m(1)]])
  moreover have "count_calls P tr2 \<le> b" using m(2) by (intro Together.IH) simp
  ultimately show ?case using m(3) by simp
qed simp

section \<open>The operations\<close>

lemma most_then: "most_io P m a \<Longrightarrow> (\<And>r. most_io P (h r) b) \<Longrightarrow> most_io P (io_then m h) (a + b)"
proof (induction m arbitrary: a)
  case (Ret r)
  then show ?case by (simp add: most_io_mono [of P "h r" b])
next
  case (Await q k)
  then show ?case by (fastforce split: if_splits)
next
  case (Together ts k)
  from Together.prems(1) obtain m c where m: "\<forall>t \<in> set ts. most_task P t m" "\<forall>x. most_io P (k x) c" "length ts * m + c \<le> a"
    unfolding most_io.simps by blast
  have "\<forall>x. most_io P (io_then (k x) h) (c + b)" using Together.IH [OF rangeI _ Together.prems(2)] m(2) by blast
  with m show ?case unfolding io_then.simps most_io.simps by (intro exI [of _ m] exI [of _ "c + b"]) simp
qed

lemma most_io_task: "most_task P t a \<Longrightarrow> (\<And>r. most_io P (h r) b) \<Longrightarrow> most_io P (io_task t h) (a + b)"
proof (induction t arbitrary: a)
  case (Done r)
  then show ?case by (simp add: most_io_mono [of P "h r" b])
qed (fastforce split: if_splits)

lemma most_on_ok: "(\<And>x. most_io P (f x) n) \<Longrightarrow> most_io P (on_ok f r) n"
  by (cases r) simp_all

lemma most_on_ok_task: "(\<And>x. r = Inr x \<Longrightarrow> most_task P (f x) n) \<Longrightarrow> most_task P (on_ok_task f r) n"
  by (cases r) simp_all

lemma most_foundBy: "most_task P t n \<Longrightarrow> most_task P (foundBy t) n"
  unfolding foundBy_def by (induction t arbitrary: n) (auto split: if_splits)

lemma readPages_free: "(\<And>x y. \<not> P (Call (MQuery x y))) \<Longrightarrow> most_task P (readPages timeout query v most st seen n c) 0"
proof (induction timeout query v most st seen n c rule: readPages.induct)
  case (1 timeout query v most st seen n c)
  then show ?case by (subst readPages.simps) (auto intro!: most_on_ok_task split: prod.split)
qed

lemma scanPages_free: "(\<And>x y. \<not> P (Call (MScan x y))) \<Longrightarrow> most_task P (scanPages a p v vs seen n c) 0"
proof (induction a p v vs seen n c rule: scanPages.induct)
  case (1 a p v vs seen n c)
  then show ?case by (subst scanPages.simps) (auto intro!: most_on_ok_task split: prod.split)
qed

text \<open>The page ceiling bounds a scan, whatever cursors the service returns.\<close>

lemma scanPages_most: "most_task P (scanPages a p v vs seen n c) (max 1 (SCHEMA_MAX_READ_PAGES - n))"
proof (induction a p v vs seen n c rule: scanPages.induct)
  case (1 a p v vs seen n c)
  have "most_task P (case x of (c', seen') \<Rightarrow> scanPages a p v vs' seen' (n + 1) (Some c')) (max 1 (SCHEMA_MAX_READ_PAGES - n) - 1)"
    if x: "\<not> SCHEMA_MAX_BATCH_ACTIONS + 1 \<le> length vs" "responseVersion r = Inr served" "\<not> served \<noteq> v"
      "responseArray r = Inr rows" "collectValues a p rows vs = Inr vs'"
      "\<not> (length vs' = SCHEMA_MAX_BATCH_ACTIONS + 1 \<or> finished r)" "continuationCursor r (n + 1) seen = Inr x" for x r served rows vs'
  proof (cases x)
    case (Pair c' seen')
    have "n + 1 < SCHEMA_MAX_READ_PAGES" using continuationCursor_pages x(6,7) Pair by blast
    then have "max 1 (SCHEMA_MAX_READ_PAGES - (n + 1)) = max 1 (SCHEMA_MAX_READ_PAGES - n) - 1" by simp
    with 1 [OF x Pair [symmetric]] Pair show ?thesis by simp
  qed
  moreover from this have "most_task P (case x of (c', seen') \<Rightarrow> scanPages a p v vs' seen' (n + 1) (Some c')) (max 1 (SCHEMA_MAX_READ_PAGES - n))"
    if x: "\<not> SCHEMA_MAX_BATCH_ACTIONS + 1 \<le> length vs" "responseVersion r = Inr served" "\<not> served \<noteq> v"
      "responseArray r = Inr rows" "collectValues a p rows vs = Inr vs'"
      "\<not> (length vs' = SCHEMA_MAX_BATCH_ACTIONS + 1 \<or> finished r)" "continuationCursor r (n + 1) seen = Inr x" for x r served rows vs'
    using that most_task_mono [OF _ diff_le_self] by blast
  ultimately show ?case by (subst scanPages.simps) (auto intro!: most_on_ok_task)
qed

lemma commit_most: "most_io P (schema_commit v acts) 2" "\<not> P (Preflight (JArr acts) (JObj [(js ''expectedVersion'', JBigInt v)])) \<Longrightarrow>
    most_io P (schema_commit v acts) 1"
  by (auto simp: schema_commit_def intro!: most_on_ok)

lemma write_most: "most_io P (schema_commit v acts) n \<Longrightarrow> most_io P (write_actions v acts f) n"
  using most_then [of P "schema_commit v acts" n "on_ok (\<lambda>outc. Ret (map_sum id f (summarizeWrite v outc)))" 0]
  by (simp add: write_actions_def most_on_ok)

lemma attempt_most:
  assumes "\<And>v. most_io P (body v) b" "most_io P again n"
  shows "most_io P (attempt body again) ((if P (Call (MVersion JUndef)) then 1 else 0) + (b + n))"
proof -
  have "most_io P (case outc of Inl e \<Rightarrow> if skewed e \<or> typedConflict e then again else Ret (Inl e) | Inr x \<Rightarrow> Ret (Inr x)) n" for outc
    using assms(2) by (cases outc) simp_all
  then have "most_io P (io_then (body v) (\<lambda>outc. case outc of Inl e \<Rightarrow> if skewed e \<or> typedConflict e then again else Ret (Inl e)
      | Inr x \<Rightarrow> Ret (Inr x))) (b + n)" for v
    by (rule most_then [OF assms(1)])
  then have "most_io P (on_ok (\<lambda>r. on_ok (\<lambda>v. io_then (body v) (\<lambda>outc. case outc of Inl e \<Rightarrow>
      if skewed e \<or> typedConflict e then again else Ret (Inl e) | Inr x \<Rightarrow> Ret (Inr x))) (responseVersion r)) a) (b + n)" for a
    by (intro most_on_ok)
  then show ?thesis by (simp add: attempt_def)
qed

lemma retrying_most:
  assumes "\<And>v. most_io P (body v) b"
  shows "most_io P (retrying n body) ((n + 1) * ((if P (Call (MVersion JUndef)) then 1 else 0) + b))"
proof (induction n)
  case 0
  show ?case using attempt_most [OF assms, of "Ret (schemaError ''schema/conflict-exhausted'')" 0] by simp
next
  case (Suc n)
  show ?case using attempt_most [OF assms Suc] by (simp add: algebra_simps split: if_splits)
qed

section \<open>The bounds\<close>

lemma retrying_batches: "(\<And>v. most_io is_batch (body v) 1) \<Longrightarrow> most_io is_batch (retrying n body) (n + 1)"
  using retrying_most [of is_batch body 1 n] by simp

lemma write_batches: "most_io is_batch (write_actions v acts f) 1"
  by (intro write_most commit_most(2)) simp

lemma ownersAt_free: "most_task is_batch (ownersAt timeout i v) 0"
  by (simp add: ownersAt_def readColumn_def readPages_free)

lemma valuesAt_free: "most_task is_batch (valuesAt a p v) 0"
  by (simp add: valuesAt_def scanPages_free)

lemma together_free: "(\<And>t. t \<in> set ts \<Longrightarrow> most_task P t 0) \<Longrightarrow> (\<And>a. most_io P (k a) n) \<Longrightarrow> most_io P (Together ts k) n"
  unfolding most_io.simps by (intro exI [of _ 0] exI [of _ n]) simp

lemma task_free: "most_task P t 0 \<Longrightarrow> (\<And>r. most_io P (h r) n) \<Longrightarrow> most_io P (io_task t h) n"
  using most_io_task [of P t 0 h n] by simp

lemma requireUniqueAt_batches: "(\<And>r. most_io is_batch (h r) n) \<Longrightarrow> most_io is_batch (requireUniqueAt sc rs v h) n"
  unfolding requireUniqueAt_def by (rule together_free) (auto intro: most_foundBy ownersAt_free)

lemma resolveUpdates_batches: "(\<And>r. most_io is_batch (h r) n) \<Longrightarrow> most_io is_batch (resolveUpdates sc us v h) n"
  unfolding resolveUpdates_def by (rule together_free) (auto intro: most_foundBy ownersAt_free)

lemma appendUpdateActions_batches: "(\<And>r. most_io is_batch (h r) n) \<Longrightarrow> most_io is_batch (appendUpdateActions as cs v h) n"
  unfolding appendUpdateActions_def by (rule together_free) (auto intro: most_foundBy valuesAt_free)

lemmas batch_intros = most_on_ok retrying_batches write_batches task_free ownersAt_free valuesAt_free requireUniqueAt_batches
  resolveUpdates_batches appendUpdateActions_batches

lemma replaceSingle_batches: "most_io is_batch (replaceSingle sc a p x) (maxConflictRetries sc + 1)"
  unfolding replaceSingle_def by (intro batch_intros)

lemma createUnique_batches: "most_io is_batch (createUnique sc x) (maxConflictRetries sc + 1)"
  unfolding createUnique_def Let_def by (intro batch_intros)

lemma most_list_case: "most_io P f n \<Longrightarrow> (\<And>y ys. most_io P (g y ys) n) \<Longrightarrow> most_io P (case xs of [] \<Rightarrow> f | y # ys \<Rightarrow> g y ys) n"
  by (cases xs) simp_all

lemma upsertUnique_batches: "most_io is_batch (upsertUnique sc x) (maxConflictRetries sc + 1)"
  unfolding upsertUnique_def Let_def
  by (intro most_on_ok retrying_batches task_free ownersAt_free requireUniqueAt_batches most_list_case write_batches together_free)
     (auto intro: most_foundBy valuesAt_free)

lemma executeUpdateUniqueMany_batches: "most_io is_batch (executeUpdateUniqueMany sc m) (maxConflictRetries sc + 1)"
  unfolding executeUpdateUniqueMany_def case_prod_beta by (intro batch_intros)

lemma updateUnique_batches: "most_io is_batch (updateUnique sc x) (maxConflictRetries sc + 1)"
proof -
  have "most_io is_batch (io_then (executeUpdateUniqueMany sc m) (on_ok (\<lambda>m. Ret (f m)))) (maxConflictRetries sc + 1 + 0)" for m and f :: "many_summary \<Rightarrow> summary res"
    by (intro most_then executeUpdateUniqueMany_batches most_on_ok) simp
  then show ?thesis unfolding updateUnique_def by (intro most_on_ok) simp
qed

lemma executeUniqueTransaction_batches: "most_io is_batch (executeUniqueTransaction sc m) (maxConflictRetries sc + 1)"
  unfolding executeUniqueTransaction_def case_prod_beta Let_def
  by (intro retrying_batches together_free batch_intros) (auto intro: most_foundBy ownersAt_free)

lemma replaceSingle_calls: "most_io any_call (replaceSingle sc a p x) ((maxConflictRetries sc + 1) * 5)"
proof -
  have "most_task any_call (valuesAt a p v) 2" for a p v
    using scanPages_most [of any_call a p v "[]" "[]" 0 None] by (simp add: valuesAt_def SCHEMA_MAX_READ_PAGES_def numeral_2_eq_2)
  then have body: "most_io any_call (io_task (valuesAt a p v) (on_ok (\<lambda>c. write_actions v (acts c) f))) (2 + 2)"
    for a p v acts and f :: "written \<Rightarrow> summary"
    by (intro most_io_task most_on_ok write_most commit_most(1))
  have "most_io any_call (retrying n (\<lambda>v. io_task (valuesAt a p v) (on_ok (\<lambda>c. write_actions v (acts c) f)))) ((n + 1) * 5)"
    for n a p acts and f :: "written \<Rightarrow> summary"
    using retrying_most [OF body, of n] by simp
  then show ?thesis unfolding replaceSingle_def by (intro most_on_ok)
qed

section \<open>After a settled batch\<close>

text \<open>An outcome is settled unless it is one of the two the loop retries on.\<close>

definition retried :: "jsval res \<Rightarrow> bool" where
  "retried a \<longleftrightarrow> (\<exists>e. a = Inl e \<and> (skewed e \<or> typedConflict e))"

text \<open>A batch that was answered, with anything but a conflict, was the last call.\<close>

primrec stops :: "'a io \<Rightarrow> bool" where
  "stops (Ret r) \<longleftrightarrow> True"
| "stops (Await q k) \<longleftrightarrow> (\<forall>a. stops (k a)) \<and> (is_batch q \<longrightarrow> (\<forall>a. \<not> retried a \<longrightarrow> (\<exists>r. k a = Ret r)))"
| "stops (Together ts k) \<longleftrightarrow> (\<forall>t \<in> set ts. most_task is_batch t 0) \<and> (\<forall>a. stops (k a))"

text \<open>Returning a final error is what the loop reacts to: an outcome that is no conflict ends it.\<close>

primrec settles :: "'a io \<Rightarrow> bool" where
  "settles (Ret r) \<longleftrightarrow> True"
| "settles (Await q k) \<longleftrightarrow> (\<forall>a. settles (k a)) \<and>
     (is_batch q \<longrightarrow> (\<forall>a. \<not> retried a \<longrightarrow> (\<exists>r. k a = Ret r \<and> (\<forall>e. r = Inl e \<longrightarrow> \<not> skewed e \<and> \<not> typedConflict e))))"
| "settles (Together ts k) \<longleftrightarrow> (\<forall>t \<in> set ts. most_task is_batch t 0) \<and> (\<forall>a. settles (k a))"

lemma stops_then: "settles m \<Longrightarrow> (\<And>r. stops (h r)) \<Longrightarrow>
    (\<And>r. (\<forall>e. r = Inl e \<longrightarrow> \<not> skewed e \<and> \<not> typedConflict e) \<Longrightarrow> \<exists>r'. h r = Ret r') \<Longrightarrow> stops (io_then m h)"
proof (induction m)
  case (Await q k)
  then show ?case by (fastforce simp: rangeI)
qed auto

lemma stops_retrying: "(\<And>v. settles (body v)) \<Longrightarrow> stops (retrying n body)"
proof -
  assume body: "\<And>v. settles (body v)"
  have attempt: "stops (attempt body again)" if again: "stops again" for again
  proof -
    have "stops (on_ok (\<lambda>v. io_then (body v) (\<lambda>outc. case outc of Inl e \<Rightarrow> if skewed e \<or> typedConflict e then again else Ret (Inl e)
      | Inr x \<Rightarrow> Ret (Inr x))) x)" for x
      using again by (cases x) (auto intro!: stops_then body split: sum.split)
    then have "stops (on_ok (\<lambda>r. on_ok (\<lambda>v. io_then (body v) (\<lambda>outc. case outc of Inl e \<Rightarrow> if skewed e \<or> typedConflict e then again else Ret (Inl e)
      | Inr x \<Rightarrow> Ret (Inr x))) (responseVersion r)) a)" for a
      by (cases a) auto
    then show ?thesis by (simp add: attempt_def)
  qed
  then show ?thesis by (induction n) (auto simp: attempt)
qed

lemma settles_on_ok: "(\<And>x. settles (f x)) \<Longrightarrow> settles (on_ok f r)"
  by (cases r) simp_all

lemma settles_task: "most_task is_batch t 0 \<Longrightarrow> (\<And>r. settles (h r)) \<Longrightarrow> settles (io_task t h)"
  by (induction t) (auto split: if_splits)

lemma settles_together: "(\<And>t. t \<in> set ts \<Longrightarrow> most_task is_batch t 0) \<Longrightarrow> (\<And>a. settles (k a)) \<Longrightarrow> settles (Together ts k)"
  by simp

lemma someChanged_Inl: "someChanged vs = Inl e \<Longrightarrow> e = JsTypeError"
  by (induction vs) (auto split: if_splits)

lemma summarizeWrite_Inl: "summarizeWrite v outc = Inl e \<Longrightarrow> \<not> skewed e \<and> \<not> typedConflict e"
  by (auto simp: summarizeWrite_def rbind_Inl_iff responseVersion_def responseArray_def schemaError_def skewed_def typedConflict_def
      split: option.splits jsval.splits prod.splits dest!: someChanged_Inl)

lemma settles_write: "settles (write_actions v acts f)"
proof -
  define h where "h = on_ok (\<lambda>outc. Ret (map_sum id f (summarizeWrite v outc)))"
  have final: "\<exists>r. h (Inr outc) = Ret r \<and> (\<forall>e. r = Inl e \<longrightarrow> \<not> skewed e \<and> \<not> typedConflict e)" for outc
    by (cases "summarizeWrite v outc") (auto simp: h_def dest: summarizeWrite_Inl)
  have err: "h (Inl e) = Ret (Inl e)" for e by (simp add: h_def)
  have ends: "settles (h r)" for r using final err by (cases r) (metis settles.simps(1))+
  have "settles (io_then (on_ok (\<lambda>r. Ret (Inr (Some (r, p)))) a) h) \<and> (\<not> retried a \<longrightarrow>
      (\<exists>r. io_then (on_ok (\<lambda>r. Ret (Inr (Some (r, p)))) a) h = Ret r \<and> (\<forall>e. r = Inl e \<longrightarrow> \<not> skewed e \<and> \<not> typedConflict e)))" for a p
    using final err ends by (cases a) (auto simp: retried_def)
  then have "settles (io_then (on_ok (\<lambda>p. Await (Call (MBatch (JArr acts) (JObj [(js ''expectedVersion'', JBigInt v), (js ''preflight'', p)])))
      (on_ok (\<lambda>r. Ret (Inr (Some (r, p)))))) a) h)" for a
    using err by (cases a) auto
  then have "settles (io_then (schema_commit v acts) h)"
    using ends err by (cases "enforceActionLimit acts") (simp_all add: schema_commit_def)
  then show ?thesis by (simp add: write_actions_def h_def)
qed

lemma settles_list_case: "settles f \<Longrightarrow> (\<And>y ys. settles (g y ys)) \<Longrightarrow> settles (case xs of [] \<Rightarrow> f | y # ys \<Rightarrow> g y ys)"
  by (cases xs) simp_all

lemma settles_requireUniqueAt: "(\<And>r. settles (h r)) \<Longrightarrow> settles (requireUniqueAt sc rs v h)"
  unfolding requireUniqueAt_def by (rule settles_together) (auto intro: most_foundBy ownersAt_free)

lemma settles_resolveUpdates: "(\<And>r. settles (h r)) \<Longrightarrow> settles (resolveUpdates sc us v h)"
  unfolding resolveUpdates_def by (rule settles_together) (auto intro: most_foundBy ownersAt_free)

lemma settles_appendUpdateActions: "(\<And>r. settles (h r)) \<Longrightarrow> settles (appendUpdateActions as cs v h)"
  unfolding appendUpdateActions_def by (rule settles_together) (auto intro: most_foundBy valuesAt_free)

lemmas settles_intros = settles_on_ok settles_task ownersAt_free valuesAt_free settles_write settles_list_case
  settles_requireUniqueAt settles_resolveUpdates settles_appendUpdateActions

lemma stops_on_ok: "(\<And>x. stops (f x)) \<Longrightarrow> stops (on_ok f r)"
  by (cases r) simp_all

lemma replaceSingle_stops: "stops (replaceSingle sc a p x)"
  unfolding replaceSingle_def by (intro stops_on_ok stops_retrying settles_intros)

lemma createUnique_stops: "stops (createUnique sc x)"
  unfolding createUnique_def Let_def by (intro stops_on_ok stops_retrying settles_intros)

lemma upsertUnique_stops: "stops (upsertUnique sc x)"
  unfolding upsertUnique_def Let_def
  by (intro stops_on_ok stops_retrying settles_intros settles_together) (auto intro: most_foundBy valuesAt_free)

lemma executeUpdateUniqueMany_stops: "stops (executeUpdateUniqueMany sc m)"
  unfolding executeUpdateUniqueMany_def case_prod_beta by (intro stops_retrying settles_intros)

lemma stops_then_ret: "stops m \<Longrightarrow> (\<And>r. \<exists>r'. h r = Ret r') \<Longrightarrow> stops (io_then m h)"
proof (induction m)
  case (Ret r)
  then obtain r' where "h r = Ret r'" by blast
  then show ?case by simp
next
  case (Await q k)
  have "\<exists>r'. io_then (k a) h = Ret r'" if b: "is_batch q" "\<not> retried a" for a
  proof -
    obtain r where "k a = Ret r" using Await.prems(1) b by auto
    with Await.prems(2) show ?thesis by simp
  qed
  with Await show ?case by simp
next
  case (Together ts k)
  then show ?case by simp
qed

lemma updateUnique_stops: "stops (updateUnique sc x)"
  unfolding updateUnique_def
proof (intro stops_on_ok stops_then_ret executeUpdateUniqueMany_stops)
  show "\<exists>r'. on_ok (\<lambda>m. Ret (f m)) r = Ret r'" for r and f :: "many_summary \<Rightarrow> summary res" by (cases r) simp_all
qed

lemma executeUniqueTransaction_stops: "stops (executeUniqueTransaction sc m)"
  unfolding executeUniqueTransaction_def case_prod_beta Let_def
  by (intro stops_retrying settles_together settles_intros) (auto intro: most_foundBy ownersAt_free)

section \<open>Every operation returns\<close>

text \<open>A client that answers every call lets every program run to its end, in some order of the workers.\<close>

definition answers :: "'s service \<Rightarrow> bool" where
  "answers srv \<longleftrightarrow> (\<forall>s q. \<exists>s' a. srv s q s' a)"

lemma pool_first:
  assumes "answers srv" "pl_running p = (i, t) # xs"
  shows "\<exists>tr p' s' r. pl_running p' = (i, Done r) # xs \<and> pl_queue p' = pl_queue p \<and>
    (\<forall>tr2 p2 s2. pool_run srv p' s' tr2 p2 s2 \<longrightarrow> pool_run srv p s (tr @ tr2) p2 s2)"
  using assms(2)
proof (induction t arbitrary: p s)
  case (Done r)
  then show ?case by (metis append_Nil)
next
  case (Ask q k)
  obtain s1 a where a: "srv s q s1 a" using assms(1) unfolding answers_def by blast
  let ?p = "p\<lparr>pl_running := [] @ (i, k a) # xs\<rparr>"
  have st: "pool_step srv p s [q] ?p s1" by (rule Answered [where q = q]) (simp_all add: Ask.prems a)
  obtain tr p' s' r where n: "pl_running p' = (i, Done r) # xs" "pl_queue p' = pl_queue ?p"
    "\<forall>tr2 p2 s2. pool_run srv p' s' tr2 p2 s2 \<longrightarrow> pool_run srv ?p s1 (tr @ tr2) p2 s2"
    using Ask.IH [OF rangeI, where p = ?p and s = s1] by fastforce
  then have "pool_run srv p s (([q] @ tr) @ tr2) p2 s2" if "pool_run srv p' s' tr2 p2 s2" for tr2 p2 s2
    using pool_run.Step [OF st] that by fastforce
  with n(1,2) show ?case by (intro exI [of _ "[q] @ tr"] exI [of _ p'] exI [of _ s'] exI [of _ r]) auto
qed

lemma pool_ends:
  assumes "answers srv"
  shows "\<exists>tr p' s'. pool_run srv p s tr p' s'"
proof (induction "length (pl_running p) + length (pl_queue p)" arbitrary: p s rule: less_induct)
  case less
  show ?case
  proof (cases "pl_running p")
    case Nil
    then show ?thesis by (auto intro: pool_run.Stop)
  next
    case (Cons x xs)
    obtain i t where x: "x = (i, t)" by (cases x)
    obtain tr p1 s1 r where p1: "pl_running p1 = (i, Done r) # xs" "pl_queue p1 = pl_queue p"
      "\<forall>tr2 p2 s2. pool_run srv p1 s1 tr2 p2 s2 \<longrightarrow> pool_run srv p s (tr @ tr2) p2 s2"
      using pool_first [OF assms Cons [unfolded x]] by metis
    obtain p2 where p2: "pool_step srv p1 s1 [] p2 s1"
      "length (pl_running p2) + length (pl_queue p2) < length (pl_running p) + length (pl_queue p)"
    proof (cases r)
      case (Inl e)
      with p1(1) have "pool_step srv p1 s1 [] (p1\<lparr>pl_running := [] @ xs,
        pl_failed := (case pl_failed p1 of None \<Rightarrow> Some e | Some e' \<Rightarrow> Some e')\<rparr>) s1" by (intro Threw) simp
      with that show thesis using p1(2) Cons by fastforce
    next
      case (Inr y)
      with p1(1) have "pool_step srv p1 s1 [] (p1\<lparr>pl_running := [] @ next_entry p1 @ xs, pl_queue := drop (length (next_entry p1)) (pl_queue p1),
        pl_results := (pl_results p1)(i \<mapsto> y)\<rparr>) s1" by (intro Stored) simp
      moreover have "length (next_entry p1) \<le> length (pl_queue p1)" by (simp add: next_entry_def)
      ultimately show thesis using that p1(2) Cons by fastforce
    qed
    obtain tr2 p3 s3 where "pool_run srv p2 s1 tr2 p3 s3" using less.hyps [OF p2(2)] by blast
    then have "pool_run srv p1 s1 ([] @ tr2) p3 s3" by (rule pool_run.Step [OF p2(1)])
    with p1(3) show ?thesis by blast
  qed
qed

theorem exec_ends: "answers srv \<Longrightarrow> \<exists>tr r s'. exec srv m s tr r s'"
proof (induction m arbitrary: s)
  case (Ret r)
  then show ?case by (auto intro: exec.Ret)
next
  case (Await q k)
  obtain s1 a where "srv s q s1 a" using Await.prems unfolding answers_def by blast
  with Await.IH [OF rangeI Await.prems, of a s1] show ?case by (blast intro: exec.Await)
next
  case (Together ts k)
  obtain tr p s1 where "pool_run srv (start_pool SCHEMA_MAX_GUARD_CONCURRENCY ts) s tr p s1"
    using pool_ends [OF Together.prems] by blast
  with Together.IH [OF rangeI Together.prems, of "pool_outcome (length ts) p" s1] show ?case by (blast intro: exec.Together)
qed

end
