(* ===== verification/SchemaPool.thy ===== *)
theory SchemaPool
  imports SchemaTrace "HOL-Library.Multiset"
begin

text \<open>
  \<open>mapWithConcurrency\<close> as a transition system: every interleaving of its workers ends, it is stuck only when all of them
  are done, and it never runs more reads at once than it may.
\<close>

section \<open>Every interleaving ends\<close>

text \<open>A read that has its answer is a direct subterm of the read that asked.\<close>

definition resumes :: "('a task \<times> 'a task) set" where
  "resumes = {(k a, Ask q k) | q k a. True}"

lemma wf_resumes: "wf resumes"
proof (rule wfUNIVI)
  fix P :: "'a task \<Rightarrow> bool" and t
  assume step: "\<forall>t. (\<forall>u. (u, t) \<in> resumes \<longrightarrow> P u) \<longrightarrow> P t"
  show "P t"
  proof (induction t)
    case (Done r)
    show ?case by (rule step [rule_format]) (simp add: resumes_def)
  next
    case (Ask q k)
    show ?case by (rule step [rule_format]) (use Ask in \<open>auto simp: resumes_def\<close>)
  qed
qed

text \<open>The reads a pool still has to do.\<close>

definition pending :: "pool \<Rightarrow> found task multiset" where
  "pending p = image_mset snd (mset (pl_running p @ pl_queue p))"

lemma next_entry_queue: "mset (next_entry p) + mset (drop (length (next_entry p)) (pl_queue p)) = mset (pl_queue p)"
  by (cases "pl_queue p") (simp_all add: next_entry_def)

lemma pool_step_pending: "pool_step srv p s tr q s' \<Longrightarrow> (pending q, pending p) \<in> mult1 resumes"
proof (induction rule: pool_step.induct)
  case (Answered p xs i q k ys s s' a)
  have "(k a, Ask q k) \<in> resumes" by (auto simp: resumes_def)
  with Answered show ?case
    by (intro mult1I [of _ "Ask q k" "image_mset snd (mset (xs @ ys @ pl_queue p))" _ "{#k a#}"]) (simp_all add: pending_def)
next
  case (Stored p xs i x ys s)
  have "image_mset snd (mset (next_entry p)) + image_mset snd (mset (drop (length (next_entry p)) (pl_queue p))) =
      image_mset snd (mset (pl_queue p))"
    by (simp only: image_mset_union [symmetric] next_entry_queue)
  with Stored show ?case
    by (intro mult1I [of _ "Done (Inr x)" "image_mset snd (mset (xs @ ys @ pl_queue p))" _ "{#}"]) (simp_all add: pending_def ac_simps)
next
  case (Threw p xs i e ys s)
  then show ?case
    by (intro mult1I [of _ "Done (Inl e)" "image_mset snd (mset (xs @ ys @ pl_queue p))" _ "{#}"]) (simp_all add: pending_def)
qed

lemma pool_steps_end: "wfp (\<lambda>(q, s') (p, s). \<exists>tr. pool_step srv p s tr q s')"
  unfolding wfp_def
proof (rule wf_subset)
  show "wf (inv_image (mult1 resumes) (pending \<circ> fst))" by (intro wf_inv_image wf_mult1 wf_resumes)
qed (auto dest: pool_step_pending)

section \<open>No deadlock\<close>

lemma pool_moves:
  assumes "answers srv" "pl_running p \<noteq> []"
  shows "\<exists>tr q s'. pool_step srv p s tr q s'"
proof -
  obtain i t xs where p: "pl_running p = (i, t) # xs" using assms(2) by (metis list.exhaust surj_pair)
  show ?thesis
  proof (cases t)
    case (Done r)
    with p show ?thesis
      by (cases r) (blast intro: Threw [where xs = "[]", simplified] Stored [where xs = "[]", simplified])+
  next
    case (Ask q k)
    obtain s' a where "srv s q s' a" using assms(1) unfolding answers_def by blast
    with p Ask show ?thesis by (blast intro: Answered [where xs = "[]", simplified])
  qed
qed

lemma pool_done: "pl_running p = [] \<Longrightarrow> \<not> pool_step srv p s tr q s'"
  by (auto elim: pool_step.cases)

section \<open>The bound on concurrency\<close>

inductive pool_reaches :: "'s service \<Rightarrow> pool \<Rightarrow> 's \<Rightarrow> pool \<Rightarrow> 's \<Rightarrow> bool" for srv p s where
  Here: "pool_reaches srv p s p s"
| There: "pool_reaches srv p s q s' \<Longrightarrow> pool_step srv q s' tr r s'' \<Longrightarrow> pool_reaches srv p s r s''"

lemma length_next_entry: "length (next_entry p) \<le> 1"
  by (simp add: next_entry_def)

lemma pool_step_running: "pool_step srv p s tr q s' \<Longrightarrow> length (pl_running q) \<le> length (pl_running p)"
proof (induction rule: pool_step.induct)
  case (Stored p xs i x ys s)
  then show ?case using length_next_entry [of p] by simp
qed simp_all

lemma pool_reaches_running: "pool_reaches srv p s q s' \<Longrightarrow> length (pl_running q) \<le> length (pl_running p)"
  by (induction rule: pool_reaches.induct) (auto dest: pool_step_running)

lemma start_pool_running: "length (pl_running (start_pool n ts)) \<le> n"
  by (simp add: start_pool_def Let_def)

lemma pool_reaches_covers: "pool_reaches srv p s q s' \<Longrightarrow> covers n p \<Longrightarrow> covers n q"
  by (induction rule: pool_reaches.induct) (auto dest: pool_step_covers)

lemma pool_outcome_covers:
  assumes "covers n p" "pl_running p = []" "pool_outcome n p = Inr fs"
  shows "length fs = n \<and> (\<forall>i < n. pl_results p i = Some (fs ! i))"
  using assms by (auto simp: covers_def pool_outcome_def split: option.splits)

end
