(* ===== verification/SchemaProperties.thy ===== *)
theory SchemaProperties
  imports SchemaSamples SchemaPool
begin

text \<open>
  The properties of the schema client, stated for every service that keeps the contract \<open>occ_service\<close>, with runs
  against the reference space as their instances.
\<close>

section \<open>Comparing Terms\<close>

text \<open>
  On canonical arrays the comparisons by \<open>JSON.stringify\<close> are comparisons of Terms: \<open>sameTerm\<close> is
  equality, the key of a cell or an identity determines both Terms, \<open>distinctTerms\<close> keeps each Term once, in the order of
  its first place, and \<open>someSame\<close> is membership.
\<close>

theorem comparisons_exact:
  "sameTerm (rep_term t) (rep_term u) = Inr (t = u) \<and>
   (pairKey (rep_term t) (rep_term u) = pairKey (rep_term t') (rep_term u') \<longleftrightarrow> (t, u) = (t', u')) \<and>
   distinctTerms (map rep_term ts) = Inr (map rep_term (rev (remdups (rev ts)))) \<and>
   someSame (map rep_term ts) (rep_term t) = Inr (t \<in> set ts)"
  by (simp add: distinctTerms_rep firsts_remdups someSame_rep)

text \<open>
  On the other arrays \<open>term\<close> lets through they are not: an integer Term whose payload is a number is told apart
  from the same Term whose payload is text, and one whose payload is a bigint makes the comparison throw.
\<close>

theorem comparisons_of_aliases:
  assumes "i64_ok z" "safe_int b = Some z"
  defines "numbered \<equiv> JArr [JStr (js ''integer''), JNum b]" and "big \<equiv> JArr [JStr (js ''integer''), JBigInt z]"
  shows "toTerm numbered = Inr numbered \<and> denotes numbered (FInteger z) \<and> sameTerm numbered (rep_term (FInteger z)) = Inr False \<and>
    toTerm big = Inr big \<and> denotes big (FInteger z) \<and> sameTerm big (rep_term (FInteger z)) = Inl JsTypeError"
proof -
  have "term_ok (FInteger z)" using assms(1) by simp
  then have "toTerm (JArr vs) = Inr (JArr vs)" if "denotes (JArr vs) (FInteger z)" for vs
    using that validateTerm_fresh [of "JArr vs"] by (auto simp: toTerm_def res_simps)
  then show ?thesis using sameTerm_alias [OF assms(1,2)] by (simp add: numbered_def big_def)
qed

theorem comparisons_of_aliases_witness:
  "sameTerm (JArr [JStr (js ''integer''), JNum (num_of_nat 5)]) (rep_term (FInteger 5)) = Inr False"
  using comparisons_of_aliases [of 5 "num_of_nat 5"] safe_int_num_of_nat [of 5] by (simp add: i64_ok_def I64_MIN_def I64_MAX_def)

section \<open>What a successful operation has done\<close>











section \<open>How an operation ends\<close>

datatype schema_op =
    OpReplaceSingle jsval jsval jsval
  | OpCreateUnique jsval
  | OpUpsertUnique jsval
  | OpUpdateUnique jsval
  | OpUpdateUniqueMany jsval
  | OpTransactUnique jsval

text \<open>A run of one of the six methods, with its calls.\<close>

fun op_runs :: "'s service \<Rightarrow> schema_client \<Rightarrow> schema_op \<Rightarrow> 's \<Rightarrow> fram_request list \<Rightarrow> 's \<Rightarrow> bool" where
  "op_runs srv sc (OpReplaceSingle a p x) s tr s' \<longleftrightarrow> (\<exists>r. exec srv (replaceSingle sc a p x) s tr r s')"
| "op_runs srv sc (OpCreateUnique v) s tr s' \<longleftrightarrow> (\<exists>r. exec srv (createUnique sc v) s tr r s')"
| "op_runs srv sc (OpUpsertUnique v) s tr s' \<longleftrightarrow> (\<exists>r. exec srv (upsertUnique sc v) s tr r s')"
| "op_runs srv sc (OpUpdateUnique v) s tr s' \<longleftrightarrow> (\<exists>r. exec srv (updateUnique sc v) s tr r s')"
| "op_runs srv sc (OpUpdateUniqueMany v) s tr s' \<longleftrightarrow> (\<exists>r. exec srv (updateUniqueMany sc v) s tr r s')"
| "op_runs srv sc (OpTransactUnique v) s tr s' \<longleftrightarrow> (\<exists>r. exec srv (transactUnique sc v) s tr r s')"

fun op_stops :: "schema_client \<Rightarrow> schema_op \<Rightarrow> bool" where
  "op_stops sc (OpReplaceSingle a p x) \<longleftrightarrow> stops (replaceSingle sc a p x)"
| "op_stops sc (OpCreateUnique v) \<longleftrightarrow> stops (createUnique sc v)"
| "op_stops sc (OpUpsertUnique v) \<longleftrightarrow> stops (upsertUnique sc v)"
| "op_stops sc (OpUpdateUnique v) \<longleftrightarrow> stops (updateUnique sc v)"
| "op_stops sc (OpUpdateUniqueMany v) \<longleftrightarrow> stops (updateUniqueMany sc v)"
| "op_stops sc (OpTransactUnique v) \<longleftrightarrow> stops (transactUnique sc v)"

text \<open>
  C37 (bounds). Whatever the service answers, an operation sends at most one batch for each of the
  \<open>maxConflictRetries + 1\<close> attempts, and \<open>replaceSingle\<close> at most five calls in each of them.
\<close>

theorem op_batches:
  assumes "op_runs srv sc op s tr s'"
  shows "count_calls is_batch tr \<le> maxConflictRetries sc + 1 \<and>
    (\<forall>a p x. op = OpReplaceSingle a p x \<longrightarrow> length tr \<le> (maxConflictRetries sc + 1) * 5)"
proof -
  have many: "most_io is_batch (updateUniqueMany sc v) (maxConflictRetries sc + 1)"
    "most_io is_batch (transactUnique sc v) (maxConflictRetries sc + 1)" for v
    unfolding updateUniqueMany_def transactUnique_def
    by (intro most_on_ok executeUpdateUniqueMany_batches executeUniqueTransaction_batches)+
  have "count_calls any_call tr = length tr" for tr by (simp add: count_calls_def any_call_def)
  with assms show ?thesis
    by (cases op) (fastforce dest: exec_most [OF _ replaceSingle_batches] exec_most [OF _ replaceSingle_calls]
      exec_most [OF _ createUnique_batches] exec_most [OF _ upsertUnique_batches] exec_most [OF _ updateUnique_batches]
      exec_most [OF _ many(1)] exec_most [OF _ many(2)])+
qed

theorem op_batches_witness:
  "\<exists>tr. op_runs serve sample_schema (OpCreateUnique create_input) [[(sub2, pred2, val2)]] tr
      ([[(sub2, pred2, val2)]] @ [[(sub2, pred2, val2), (sub1, pred1, val1), (sub1, pred2, val1)]]) \<and> count_calls is_batch tr \<le> 5"
proof -
  obtain tr where run: "op_runs serve sample_schema (OpCreateUnique create_input) [[(sub2, pred2, val2)]] tr
      ([[(sub2, pred2, val2)]] @ [[(sub2, pred2, val2), (sub1, pred1, val1), (sub1, pred2, val1)]])"
    using sample_create unfolding reaches_def op_runs.simps by blast
  from op_batches [OF run] have "count_calls is_batch tr \<le> 5" by (simp add: sample_schema_def)
  with run show ?thesis by blast
qed

text \<open>
  C15 (error). Once a batch is answered with anything but a conflict, success or error, an operation makes no
  further call: a batch whose outcome is unknown is never sent again.
\<close>

theorem op_stops_after_batch: "op_stops sc op"
proof -
  have "stops (updateUniqueMany sc v)" "stops (transactUnique sc v)" for v
    unfolding updateUniqueMany_def transactUnique_def
    by (intro stops_on_ok executeUpdateUniqueMany_stops executeUniqueTransaction_stops)+
  then show ?thesis
    by (cases op) (simp_all add: replaceSingle_stops createUnique_stops upsertUnique_stops updateUnique_stops)
qed






end
