(* ===== verification/JsonParse.thy ===== *)
theory JsonParse
  imports Json
begin

text \<open>
  \<open>JSON.parse\<close> on texts, and that it reads back what \<open>JSON.stringify\<close> writes. Numbers become the nearest double, ties to
  even, as the language says; a repeated key keeps its first place and its last value.
\<close>

section \<open>Tokens\<close>

abbreviation syntaxError :: "'a res" where
  "syntaxError \<equiv> Inl JsSyntaxError"

definition json_space :: "16 word \<Rightarrow> bool" where
  "json_space u \<longleftrightarrow> unat u \<in> {32, 9, 10, 13}"

definition skip_space :: "jstr \<Rightarrow> jstr" where
  "skip_space = dropWhile json_space"

definition json_hex :: "16 word \<Rightarrow> nat option" where
  "json_hex u =
     (if 48 \<le> unat u \<and> unat u \<le> 57 then Some (unat u - 48)
      else if 97 \<le> unat u \<and> unat u \<le> 102 then Some (unat u - 87)
      else if 65 \<le> unat u \<and> unat u \<le> 70 then Some (unat u - 55)
      else None)"

fun json_hex4 :: "jstr \<Rightarrow> (16 word \<times> jstr) option" where
  "json_hex4 (a # b # c # d # r) =
     (case (json_hex a, json_hex b, json_hex c, json_hex d) of
        (Some i, Some j, Some k, Some l) \<Rightarrow> Some (word_of_nat (((i * 16 + j) * 16 + k) * 16 + l), r)
      | _ \<Rightarrow> None)"
| "json_hex4 _ = None"

text \<open>What follows a backslash: the unit it stands for.\<close>

definition json_escaped :: "jstr \<Rightarrow> (16 word \<times> jstr) option" where
  "json_escaped s =
     (case s of
        [] \<Rightarrow> None
      | e # r \<Rightarrow>
          if unat e = 117 then json_hex4 r
          else map_option (\<lambda>c. (word_of_nat c, r))
            (map_of [(34, 34), (92, 92), (47, 47), (98, 8), (102, 12), (110, 10), (114, 13), (116, 9)] (unat e)))"

lemma json_hex4_shorter: "json_hex4 s = Some (u, r) \<Longrightarrow> length r < length s"
  by (cases s rule: json_hex4.cases) (auto split: option.splits)

lemma json_escaped_shorter: "json_escaped s = Some (u, r) \<Longrightarrow> length r < length s"
  by (auto simp: json_escaped_def dest: json_hex4_shorter split: list.splits if_splits)

text \<open>The rest of a string, after its opening quote.\<close>

function json_string :: "jstr \<Rightarrow> (jstr \<times> jstr) res" where
  "json_string s =
     (case s of
        [] \<Rightarrow> syntaxError
      | u # us \<Rightarrow>
          if u = 34 then Inr ([], us)
          else if unat u < 32 then syntaxError
          else if u = 92 then
            (case json_escaped us of
               None \<Rightarrow> syntaxError
             | Some (e, r) \<Rightarrow> rbind (json_string r) (\<lambda>(t, q). Inr (e # t, q)))
          else rbind (json_string us) (\<lambda>(t, q). Inr (u # t, q)))"
  by pat_completeness auto
termination
  by (relation "measure length") (auto dest: json_escaped_shorter)

declare json_string.simps [simp del]

section \<open>Numbers\<close>

text \<open>The double nearest to \<open>num / den\<close>: 53 significant bits, or fewer below the normal range, ties to even.\<close>

definition nearest_double :: "nat \<Rightarrow> nat \<Rightarrow> nat" where
  "nearest_double num den =
     (if num = 0 then 0
      else let k0 = int (bit_count num) - int (bit_count den) - 53;
               part = (\<lambda>k :: int. (num * 2 ^ nat (- k), den * 2 ^ nat k));
               k1 = (if 2 ^ 53 \<le> fst (part k0) div snd (part k0) then k0 + 1 else k0);
               k = max k1 (- 1074);
               n = fst (part k); d = snd (part k);
               q = n div d; r = n mod d;
               q' = (if d < 2 * r \<or> d = 2 * r \<and> odd q then q + 1 else q);
               bits = (if q < 2 ^ 52 then q' else nat (k + 1075) * 2 ^ 52 + (q' - 2 ^ 52))
           in min bits (2047 * 2 ^ 52))"

definition number_value :: "bool \<Rightarrow> jstr \<Rightarrow> jstr \<Rightarrow> int \<Rightarrow> jsval" where
  "number_value negative whole frac e =
     (let m = text_nat 10 (whole @ frac); x = e - int (length frac);
          bits = (if m = 0 then 0 else nearest_double (m * 10 ^ nat x) (10 ^ nat (- x)))
      in JNum (word_of_nat (bits + (if negative then 2 ^ 63 else 0))))"

text \<open>An optional part of a number: its digits, which must not be missing once it has begun.\<close>

definition digits_of :: "jstr \<Rightarrow> (jstr \<times> jstr) res" where
  "digits_of s =
     (if takeWhile decimal_digit s = [] then syntaxError
      else Inr (takeWhile decimal_digit s, dropWhile decimal_digit s))"

definition number_whole :: "jstr \<Rightarrow> (jstr \<times> jstr) res" where
  "number_whole s = (case s of u # us \<Rightarrow> if u = 48 then Inr ([u], us) else digits_of s | [] \<Rightarrow> syntaxError)"

definition number_fraction :: "jstr \<Rightarrow> (jstr \<times> jstr) res" where
  "number_fraction s = (case s of u # us \<Rightarrow> if u = 46 then digits_of us else Inr ([], s) | [] \<Rightarrow> Inr ([], s))"

definition number_exponent :: "jstr \<Rightarrow> (int \<times> jstr) res" where
  "number_exponent s =
     (case s of
        u # us \<Rightarrow>
          if u \<noteq> 101 \<and> u \<noteq> 69 then Inr (0, s)
          else (case us of
              v # vs \<Rightarrow>
                if v = 43 then rbind (digits_of vs) (\<lambda>(ds, r). Inr (int (text_nat 10 ds), r))
                else if v = 45 then rbind (digits_of vs) (\<lambda>(ds, r). Inr (- int (text_nat 10 ds), r))
                else rbind (digits_of us) (\<lambda>(ds, r). Inr (int (text_nat 10 ds), r))
            | [] \<Rightarrow> syntaxError)
      | [] \<Rightarrow> Inr (0, s))"

definition json_number :: "jstr \<Rightarrow> (jsval \<times> jstr) res" where
  "json_number s =
     (let negative = (case s of u # _ \<Rightarrow> u = 45 | [] \<Rightarrow> False)
      in rbind (number_whole (if negative then tl s else s)) (\<lambda>(whole, r1).
         rbind (number_fraction r1) (\<lambda>(frac, r2).
         rbind (number_exponent r2) (\<lambda>(e, r3). Inr (number_value negative whole frac e, r3)))))"

section \<open>Values\<close>

fun starts_with_text :: "jstr \<Rightarrow> jstr \<Rightarrow> jstr option" where
  "starts_with_text [] s = Some s"
| "starts_with_text (u # us) (v # vs) = (if u = v then starts_with_text us vs else None)"
| "starts_with_text (u # us) [] = None"

definition json_word :: "jstr \<Rightarrow> (jsval \<times> jstr) res" where
  "json_word s =
     (case starts_with_text (js ''true'') s of
        Some r \<Rightarrow> Inr (JBool True, r)
      | None \<Rightarrow> (case starts_with_text (js ''false'') s of
          Some r \<Rightarrow> Inr (JBool False, r)
        | None \<Rightarrow> (case starts_with_text (js ''null'') s of
            Some r \<Rightarrow> Inr (JNull, r)
          | None \<Rightarrow> json_number s)))"

fun put_prop :: "jstr \<Rightarrow> jsval \<Rightarrow> (jstr \<times> jsval) list \<Rightarrow> (jstr \<times> jsval) list" where
  "put_prop k v [] = [(k, v)]"
| "put_prop k v ((k', v') # fs) = (if k' = k then (k, v) # fs else (k', v') # put_prop k v fs)"

text \<open>\<open>expect c s\<close>: the text after the token \<open>c\<close>, blanks before it skipped.\<close>

definition expect :: "16 word \<Rightarrow> jstr \<Rightarrow> jstr option" where
  "expect c s = (case skip_space s of u # r \<Rightarrow> if u = c then Some r else None | [] \<Rightarrow> None)"

text \<open>A value, the items of an array after its bracket, the members of an object after its brace.\<close>

fun json_value :: "nat \<Rightarrow> jstr \<Rightarrow> (jsval \<times> jstr) res"
  and json_items :: "nat \<Rightarrow> jstr \<Rightarrow> (jsval list \<times> jstr) res"
  and json_members :: "nat \<Rightarrow> jstr \<Rightarrow> (jstr \<times> jsval) list \<Rightarrow> ((jstr \<times> jsval) list \<times> jstr) res" where
  "json_value 0 s = syntaxError"
| "json_value (Suc n) s =
     (case skip_space s of
        [] \<Rightarrow> syntaxError
      | u # r \<Rightarrow>
          if u = 34 then rbind (json_string r) (\<lambda>(t, q). Inr (JStr t, q))
          else if u = 91 then
            (case expect 93 r of
               Some q \<Rightarrow> Inr (JArr [], q)
             | None \<Rightarrow> rbind (json_items n r) (\<lambda>(vs, q). Inr (JArr vs, q)))
          else if u = 123 then
            (case expect 125 r of
               Some q \<Rightarrow> Inr (JObj [], q)
             | None \<Rightarrow> rbind (json_members n r []) (\<lambda>(fs, q). Inr (JObj fs, q)))
          else json_word (u # r))"
| "json_items 0 s = syntaxError"
| "json_items (Suc n) s =
     rbind (json_value n s) (\<lambda>(v, r).
       case expect 93 r of
         Some q \<Rightarrow> Inr ([v], q)
       | None \<Rightarrow> (case expect 44 r of
           Some q \<Rightarrow> rbind (json_items n q) (\<lambda>(vs, q'). Inr (v # vs, q'))
         | None \<Rightarrow> syntaxError))"
| "json_members 0 s fs = syntaxError"
| "json_members (Suc n) s fs =
     (case expect 34 s of
        None \<Rightarrow> syntaxError
      | Some r0 \<Rightarrow> rbind (json_string r0) (\<lambda>(k, r).
          case expect 58 r of
            None \<Rightarrow> syntaxError
          | Some r1 \<Rightarrow> rbind (json_value n r1) (\<lambda>(v, r2).
              case expect 125 r2 of
                Some q \<Rightarrow> Inr (put_prop k v fs, q)
              | None \<Rightarrow> (case expect 44 r2 of
                  Some q \<Rightarrow> json_members n q (put_prop k v fs)
                | None \<Rightarrow> syntaxError))))"

text \<open>Each token takes two units of fuel at most, so twice the length of the text is enough.\<close>

definition json_parse :: "jstr \<Rightarrow> jsval res" where
  "json_parse s =
     rbind (json_value (2 * length s + 1) s) (\<lambda>(v, r). if skip_space r = [] then Inr v else syntaxError)"

section \<open>The fuel is enough\<close>

lemma skip_space_length: "length (skip_space s) \<le> length s"
  by (simp add: skip_space_def length_dropWhile_le)

lemma expect_shorter: "expect c s = Some r \<Longrightarrow> length r < length s"
  using skip_space_length [of s] by (auto simp: expect_def split: list.splits if_splits)

lemma json_string_shorter: "json_string s = Inr (t, r) \<Longrightarrow> length r < length s"
proof (induction s arbitrary: t rule: json_string.induct)
  case (1 s)
  then show ?case
    by (subst (asm) json_string.simps [of s])
      (force simp: res_simps dest: json_escaped_shorter split: list.splits if_splits option.splits)
qed

lemma digits_of_shorter: "digits_of s = Inr (ds, r) \<Longrightarrow> length r < length s"
proof -
  assume d: "digits_of s = Inr (ds, r)"
  have "length s = length (takeWhile decimal_digit s) + length (dropWhile decimal_digit s)"
    by (metis length_append takeWhile_dropWhile_id)
  with d show ?thesis by (auto simp: digits_of_def split: if_splits)
qed

lemma json_number_shorter: "json_number s = Inr (v, r) \<Longrightarrow> length r < length s"
proof -
  assume n: "json_number s = Inr (v, r)"
  define s' where "s' = (if (case s of u # _ \<Rightarrow> u = 45 | [] \<Rightarrow> False) then tl s else s)"
  from n obtain w r1 f r2 e where p: "number_whole s' = Inr (w, r1)" "number_fraction r1 = Inr (f, r2)" "number_exponent r2 = Inr (e, r)"
    unfolding s'_def by (auto simp: json_number_def res_simps Let_def)
  have "length r1 < length s'" using p(1) by (auto simp: number_whole_def dest: digits_of_shorter split: list.splits if_splits)
  moreover have "length r2 \<le> length r1"
    using p(2) by (auto simp: number_fraction_def dest: digits_of_shorter split: list.splits if_splits)
  moreover have "length r \<le> length r2"
    using p(3) by (auto simp: number_exponent_def res_simps dest: digits_of_shorter split: list.splits if_splits)
  moreover have "length s' \<le> length s" by (simp add: s'_def)
  ultimately show ?thesis by linarith
qed

lemma starts_with_text_length: "starts_with_text p s = Some r \<Longrightarrow> length s = length p + length r"
  by (induction p s rule: starts_with_text.induct) (auto split: if_splits)

lemma json_word_shorter: "json_word s = Inr (v, r) \<Longrightarrow> length r < length s"
  by (auto simp: json_word_def dest: starts_with_text_length json_number_shorter split: option.splits)

lemma skip_space_Cons: "skip_space s = u # r \<Longrightarrow> length r < length s"
  using skip_space_length [of s] by simp

lemma json_shorter:
  "json_value n s = Inr (v, r) \<Longrightarrow> length r < length s"
  "json_items n s = Inr (vs, r) \<Longrightarrow> length r < length s"
  "json_members n s fs = Inr (gs, r) \<Longrightarrow> length r < length s"
proof (induction n s and n s and n s fs arbitrary: v r and vs r and gs r rule: json_value_json_items_json_members.induct)
  case (2 n s)
  then show ?case
    by (fastforce simp: res_simps dest: expect_shorter json_string_shorter json_word_shorter skip_space_Cons
        split: list.splits if_splits option.splits)
next
  case (4 n s)
  then show ?case by (fastforce simp: res_simps dest: expect_shorter split: option.splits)
next
  case (6 n s fs)
  then show ?case by (fastforce simp: res_simps dest: expect_shorter json_string_shorter split: option.splits)
qed simp_all

lemma json_fuel:
  "2 * length s < n \<Longrightarrow> json_value (Suc n) s = json_value n s"
  "2 * length s + 1 < n \<Longrightarrow> json_items (Suc n) s = json_items n s"
  "2 * length s + 1 < n \<Longrightarrow> json_members (Suc n) s fs = json_members n s fs"
proof (induction n s and n s and n s fs rule: json_value_json_items_json_members.induct)
  case (2 n s)
  show ?case
  proof (cases "skip_space s")
    case (Cons u r)
    then have "2 * length r + 1 < n" using "2.prems" skip_space_Cons [OF Cons] by simp
    with "2.IH" Cons show ?thesis
      unfolding json_value.simps(2) [of n s] json_value.simps(2) [of "Suc n" s]
      by (simp split: option.split del: json_items.simps json_members.simps)
  qed simp
next
  case (4 n s)
  have "json_items (Suc n) q = json_items n q" if "json_value n s = Inr (v, r)" "expect 93 r = None" "expect 44 r = Some q" for v r q
  proof -
    have "length q < length r" "length r < length s" using json_shorter(1) [OF that(1)] expect_shorter [OF that(3)] by simp_all
    with "4.IH"(2) that "4.prems" show ?thesis by (simp del: json_items.simps)
  qed
  moreover have "json_value (Suc n) s = json_value n s" using "4.IH"(1) "4.prems" by (simp del: json_value.simps)
  ultimately show ?case
    unfolding json_items.simps(2) [of n s] json_items.simps(2) [of "Suc n" s]
    by (cases "json_value n s") (auto simp del: json_value.simps json_items.simps split: option.split)
next
  case (6 n s fs)
  show ?case
  proof (cases "expect 34 s")
    case (Some r0)
    show ?thesis
    proof (cases "json_string r0")
      case (Inr kr)
      obtain k r where k: "json_string r0 = Inr (k, r)" using Inr by (cases kr) simp
      show ?thesis
      proof (cases "expect 58 r")
        case (Some r1)
        have l: "length r1 + 2 < length s"
          using expect_shorter [OF \<open>expect 34 s = Some r0\<close>] json_string_shorter [OF k] expect_shorter [OF Some] by simp
        have v: "json_value (Suc n) r1 = json_value n r1" using "6.IH"(1) \<open>expect 34 s = Some r0\<close> k Some "6.prems" l by (simp del: json_value.simps)
        have "json_members (Suc n) q gs = json_members n q gs"
          if "json_value n r1 = Inr (x, r2)" "expect 125 r2 = None" "expect 44 r2 = Some q" "gs = put_prop k x fs" for x r2 q gs
        proof -
          have "length q < length s" using json_shorter(1) [OF that(1)] expect_shorter [OF that(3)] l by simp
          with "6.IH"(2) \<open>expect 34 s = Some r0\<close> k Some that "6.prems" show ?thesis by (simp del: json_members.simps)
        qed
        with v Some k \<open>expect 34 s = Some r0\<close> show ?thesis
          unfolding json_members.simps(2) [of n s fs] json_members.simps(2) [of "Suc n" s fs]
          by (cases "json_value n r1") (auto simp del: json_value.simps json_members.simps split: option.split)
      qed (simp add: k \<open>expect 34 s = Some r0\<close>)
    qed (simp add: Some)
  qed simp
qed simp_all

lemma json_value_fuel: "2 * length s < n \<Longrightarrow> json_value n s = json_value (2 * length s + 1) s"
proof (induction n)
  case (Suc n)
  show ?case
  proof (cases "n = 2 * length s")
    case False
    with Suc.prems have "2 * length s < n" by simp
    with Suc.IH json_fuel(1) show ?thesis by metis
  qed simp
qed simp

section \<open>Strings read back\<close>

lemma hex_digit_json: "hex_digit u \<Longrightarrow> json_hex u = Some (digit_value u)"
  by (auto simp: hex_digit_def json_hex_def digit_value_def)

lemma json_hex4_text:
  assumes "n < 65536"
  shows "json_hex4 (pad_start 4 (nat_text 16 n) @ r) = Some (word_of_nat n, r)"
proof -
  let ?s = "pad_start 4 (nat_text 16 n)"
  have "length ?s = 4" using pad_hex_length [OF assms] .
  then obtain a b c d where s: "?s = [a, b, c, d]" by (auto simp: length_Suc_conv numeral_eq_Suc)
  have "list_all hex_digit ?s" using nat_text_hex [of n] hex_digit_unit [of 0] by (auto simp: pad_start_def list_all_iff)
  moreover have "text_nat 16 ?s = n" by simp
  ultimately show ?thesis unfolding s by (auto simp: hex_digit_json text_nat_def of_digits_def)
qed

lemma escape_read: "\<exists>p. json_escape u = 92 # p \<and> json_escaped (p @ r) = Some (u, r)"
proof (cases "map_of [(34, 34), (92, 92), (8, 98), (9, 116), (10, 110), (12, 102), (13, 114)] (unat u) :: nat option")
  case None
  then show ?thesis
    using json_hex4_text [of "unat u" r] unat_16_less [of u] unfolding json_escape_def None by (simp add: json_escaped_def)
next
  case (Some c)
  have "word_of_nat (unat u) = u" by simp
  moreover have "json_escaped (word_of_nat c # r) = Some (word_of_nat (unat u), r)"
    using Some by (auto simp: json_escaped_def word_unat_eq_iff split: if_splits)
  ultimately show ?thesis unfolding json_escape_def Some by simp
qed

lemma piece_read: "piece p u \<Longrightarrow> json_string (p @ r) = rbind (json_string r) (\<lambda>(t, q). Inr (u # t, q))"
  using escape_read [of u r] by (auto simp: piece_def json_string.simps [of "_ # _"])

lemma pieces_read: "list_all2 piece ps s \<Longrightarrow> json_string (concat ps @ 34 # r) = Inr (s, r)"
  by (induction rule: list_all2_induct) (simp_all add: piece_read json_string.simps [of "34 # r"])

lemma json_units_read: "json_string (json_units s @ 34 # r) = Inr (s, r)"
  using json_units_pieces [of s] pieces_read by auto

section \<open>Values read back\<close>

text \<open>\<open>reads t v\<close>: the text \<open>t\<close> is read as \<open>v\<close>, where the text ends or a separator, a closing token or white space follows.\<close>

definition delimited :: "jstr \<Rightarrow> bool" where
  "delimited r \<longleftrightarrow> r = [] \<or> hd r \<in> {44, 93, 125} \<or> json_space (hd r)"

lemma delimited_simps [simp]: "delimited []" "delimited (44 # r)" "delimited (93 # r)" "delimited (125 # r)"
  by (simp_all add: delimited_def)

definition reads :: "jstr \<Rightarrow> jsval \<Rightarrow> bool" where
  "reads t v \<longleftrightarrow> t \<noteq> [] \<and> \<not> json_space (hd t) \<and> hd t \<notin> {93, 125} \<and>
     (\<forall>n r. 2 * length t < n \<longrightarrow> delimited r \<longrightarrow> json_value n (t @ r) = Inr (v, r))"

lemma skip_space_simps [simp]: "\<not> json_space u \<Longrightarrow> skip_space (u # s) = u # s"
  by (simp add: skip_space_def)

lemma json_space_units [simp]:
  "\<not> json_space 34" "\<not> json_space 44" "\<not> json_space 58" "\<not> json_space 91" "\<not> json_space 93" "\<not> json_space 123" "\<not> json_space 125"
  "\<not> json_space 116" "\<not> json_space 102" "\<not> json_space 110"
  by (simp_all add: json_space_def)

lemma expect_simps [simp]: "\<not> json_space u \<Longrightarrow> expect c (u # s) = (if u = c then Some s else None)"
  by (simp add: expect_def)

lemma reads_string: "reads (json_quote s) (JStr s)"
proof -
  have "json_value n (json_quote s @ r) = Inr (JStr s, r)" if "0 < n" for n r
    using that json_units_read [of s r] by (cases n) (simp_all add: json_quote_def)
  then show ?thesis by (simp add: reads_def json_quote_def)
qed

lemma reads_bool: "reads (js (if b then ''true'' else ''false'')) (JBool b)"
proof -
  have "json_value n (js (if b then ''true'' else ''false'') @ r) = Inr (JBool b, r)" if "0 < n" for n r
    using that by (cases n) (simp_all add: truth_text json_word_def js_def)
  then show ?thesis by (cases b) (simp_all add: reads_def truth_text)
qed

lemma reads_expect: "reads t v \<Longrightarrow> c \<in> {93, 125} \<Longrightarrow> expect c (t @ r) = None"
  by (cases t) (auto simp: reads_def)

lemma reads_value: "reads t v \<Longrightarrow> 2 * length t < n \<Longrightarrow> delimited r \<Longrightarrow> json_value n (t @ r) = Inr (v, r)"
  by (simp add: reads_def)

lemma reads_items:
  "list_all2 reads ts vs \<Longrightarrow> ts \<noteq> [] \<Longrightarrow> 2 * length (join_with 44 ts) + 1 < n \<Longrightarrow>
    json_items n (join_with 44 ts @ 93 # r) = Inr (vs, r)"
proof (induction ts arbitrary: vs n rule: induct_list012)
  case (2 t)
  then obtain m where "n = Suc m" "2 * length t < m" by (cases n) auto
  with 2 show ?case by (auto simp: list_all2_Cons1 reads_value simp del: json_value.simps)
next
  case (3 t u ts)
  then obtain m where m: "n = Suc m" "2 * length t < m" "2 * length (join_with 44 (u # ts)) + 1 < m" by (cases n) auto
  from 3 obtain v ws where v: "vs = v # ws" "reads t v" "list_all2 reads (u # ts) ws" by (auto simp: list_all2_Cons1)
  have "json_items m (join_with 44 (u # ts) @ 93 # r) = Inr (ws, r)" using "3.IH"(2) [OF v(3) _ m(3)] by simp
  with m v show ?case by (simp add: reads_value del: json_value.simps join_with.simps(3)) (simp add: reads_value [OF v(2) m(2)] del: json_value.simps)
qed simp

lemma reads_array:
  assumes "list_all2 reads ts vs"
  shows "reads (91 # join_with 44 ts @ [93]) (JArr vs)"
proof -
  have "json_value n (91 # join_with 44 ts @ 93 # r) = Inr (JArr vs, r)" if fuel: "2 * length (join_with 44 ts) + 2 < n" for n r
  proof (cases ts)
    case Nil
    with assms fuel show ?thesis by (cases n) simp_all
  next
    case (Cons t ts')
    obtain m where m: "n = Suc m" "2 * length (join_with 44 ts) + 1 < m" using fuel by (cases n) auto
    have "\<exists>q. join_with 44 ts = t @ q" using Cons by (cases ts') simp_all
    moreover have "\<exists>v. reads t v" using assms Cons by (auto simp: list_all2_Cons1)
    ultimately have "expect 93 (join_with 44 ts @ 93 # r) = None" using reads_expect [of t _ 93] by auto
    with m reads_items [OF assms _ m(2), of r] Cons show ?thesis by (simp del: json_items.simps)
  qed
  then show ?thesis by (simp add: reads_def)
qed

text \<open>The text of an object, and its members.\<close>

definition json_member :: "jstr \<times> jstr \<Rightarrow> jstr" where
  "json_member kt = json_quote (fst kt) @ 58 # snd kt"

definition json_object :: "(jstr \<times> jstr) list \<Rightarrow> jstr" where
  "json_object fs = 123 # join_with 44 (map json_member fs) @ [125]"

lemma put_prop_fresh: "k \<notin> fst ` set fs \<Longrightarrow> put_prop k v fs = fs @ [(k, v)]"
  by (induction k v fs rule: put_prop.induct) auto

lemma json_member_fuel: "length (snd kt) + 3 \<le> length (json_member kt)"
  by (simp add: json_member_def json_quote_def)

lemma json_member_read:
  assumes "reads t v" "2 * length t < m"
  shows "json_members (Suc m) (json_member (k, t) @ 125 # q) gs = Inr (put_prop k v gs, q)"
    "json_members (Suc m) (json_member (k, t) @ 44 # q) gs = json_members m q (put_prop k v gs)"
  using reads_value [OF assms] by (simp_all add: json_member_def json_quote_def json_units_read)

lemma reads_members:
  "list_all2 (\<lambda>(k, t) (k', v). k' = k \<and> reads t v) kts fs \<Longrightarrow> kts \<noteq> [] \<Longrightarrow> distinct (map fst gs @ map fst fs) \<Longrightarrow>
    2 * length (join_with 44 (map json_member kts)) + 1 < n \<Longrightarrow>
    json_members n (join_with 44 (map json_member kts) @ 125 # r) gs = Inr (gs @ fs, r)"
proof (induction kts arbitrary: fs gs n rule: induct_list012)
  case (2 kt)
  obtain k t v where kt: "kt = (k, t)" "fs = [(k, v)]" "reads t v" using "2.prems"(1) by (cases kt) (auto simp: list_all2_Cons1)
  then obtain m where m: "n = Suc m" "2 * length t < m" using "2.prems"(4) json_member_fuel [of kt] by (cases n) auto
  have "put_prop k v gs = gs @ fs" using "2.prems"(3) kt by (simp add: put_prop_fresh)
  with m kt json_member_read(1) [OF kt(3) m(2)] show ?case by (simp del: json_members.simps)
next
  case (3 kt kt' kts)
  obtain k t v fs' where kt: "kt = (k, t)" "fs = (k, v) # fs'" "reads t v"
    "list_all2 (\<lambda>(k, t) (k', v). k' = k \<and> reads t v) (kt' # kts) fs'"
    using "3.prems"(1) by (cases kt) (auto simp: list_all2_Cons1)
  let ?rest = "join_with 44 (map json_member (kt' # kts))"
  have join: "join_with 44 (map json_member (kt # kt' # kts)) = json_member kt @ 44 # ?rest" by simp
  obtain m where m: "n = Suc m" "2 * length t < m" "2 * length ?rest + 1 < m"
    using "3.prems"(4) json_member_fuel [of kt] kt(1) unfolding join by (cases n) (auto simp del: list.map)
  have "put_prop k v gs = gs @ [(k, v)]" using "3.prems"(3) kt by (simp add: put_prop_fresh)
  moreover have "json_members m (?rest @ 125 # r) (gs @ [(k, v)]) = Inr ((gs @ [(k, v)]) @ fs', r)"
    by (rule "3.IH"(2) [OF kt(4) _ _ m(3)]) (use "3.prems"(3) kt in auto)
  moreover have "json_members n (json_member kt @ 44 # ?rest @ 125 # r) gs = json_members m (?rest @ 125 # r) (put_prop k v gs)"
    unfolding m(1) kt(1) by (rule json_member_read(2) [OF kt(3) m(2)])
  ultimately have "json_members n (json_member kt @ 44 # ?rest @ 125 # r) gs = Inr (gs @ fs, r)" using kt(2) by simp
  then show ?case unfolding join by simp
qed simp

lemma reads_object:
  assumes "list_all2 (\<lambda>(k, t) (k', v). k' = k \<and> reads t v) kts fs" "distinct (map fst fs)"
  shows "reads (json_object kts) (JObj fs)"
proof -
  have "json_value n (json_object kts @ r) = Inr (JObj fs, r)" if fuel: "2 * length (join_with 44 (map json_member kts)) + 2 < n" for n r
  proof (cases kts)
    case Nil
    with assms fuel show ?thesis by (cases n) (simp_all add: json_object_def)
  next
    case (Cons kt kts')
    obtain m where m: "n = Suc m" "2 * length (join_with 44 (map json_member kts)) + 1 < m" using fuel by (cases n) auto
    have "expect 125 (join_with 44 (map json_member kts) @ 125 # r) = None"
      using Cons by (cases kts') (simp_all add: json_member_def json_quote_def)
    with m reads_members [OF assms(1) _ _ m(2), of "[]" r] assms(2) Cons show ?thesis
      by (simp add: json_object_def del: json_members.simps)
  qed
  then show ?thesis by (simp add: reads_def json_object_def)
qed

lemma json_parse_reads: "reads t v \<Longrightarrow> json_parse t = Inr v"
  using reads_value [of t v "2 * length t + 1" "[]"] by (simp add: json_parse_def skip_space_def)

lemma json_parse_reads_space: "reads t v \<Longrightarrow> delimited r \<Longrightarrow> skip_space r = [] \<Longrightarrow> json_parse (t @ r) = Inr v"
  using reads_value [of t v "2 * length (t @ r) + 1" r] by (simp add: json_parse_def)

text \<open>A safe integer is read as a number of the same value.\<close>

lemma nearest_double_nat:
  assumes "0 < m" "m < 2 ^ 53"
  shows "nearest_double m 1 < 2 ^ 63" "word_of_nat (nearest_double m 1) = num_of_nat m"
proof -
  define k where "k = bit_count m"
  have b: "2 ^ (k - 1) \<le> m" "m < 2 ^ k" using bit_count_bounds [of m] assms(1) by (auto simp: k_def)
  have k1: "1 \<le> k" using b(2) assms(1) by (cases k) auto
  have "(2::nat) ^ (k - 1) < 2 ^ 53" using b(1) assms(2) by (rule le_less_trans)
  then have "k - 1 < 53" using power_less_imp_less_exp [of 2 "k - 1" 53] by simp
  then have k2: "k \<le> 53" by simp
  define q where "q = m * 2 ^ (53 - k)"
  have "(2::nat) ^ (k - 1) * 2 ^ (53 - k) = 2 ^ 52"
    using k1 k2 by (simp only: power_add [symmetric]) simp
  then have q1: "2 ^ 52 \<le> q" using mult_le_mono1 [OF b(1), of "2 ^ (53 - k)"] by (simp only: q_def)
  have "(2::nat) ^ k * 2 ^ (53 - k) = 2 ^ 53"
    using k2 by (simp only: power_add [symmetric]) simp
  then have q2: "q < 2 ^ 53"
    using mult_strict_right_mono [OF b(2), of "2 ^ (53 - k)"] by (simp only: q_def) simp
  have one: "bit_count 1 = 1" by (simp add: bit_count.simps)
  have e0: "nat (- (int k - 1 - 53)) = Suc (53 - k)" "nat (int k - 1 - 53) = 0" using k2 by auto
  have e1: "nat (- (int k - 53)) = 53 - k" "nat (int k - 53) = 0" using k2 by auto
  have big: "2 ^ 53 \<le> m * 2 ^ Suc (53 - k)" using q1 by (simp add: q_def)
  have k53: "int k - 1 - 53 + 1 = int k - 53" "max (int k - 53) (- 1074) = int k - 53" by auto
  have nd: "nearest_double m 1 = min ((1022 + k) * 2 ^ 52 + (q - 2 ^ 52)) (2047 * 2 ^ 52)"
  proof -
    have n0: "m \<noteq> 0" using assms(1) by simp
    have c: "\<not> ((1 :: nat) < 2 * 0 \<or> (1 :: nat) = 2 * 0 \<and> odd q)" "\<not> q < 2 ^ 52" using q1 by simp_all
    have e2: "nat (int k - 53 + 1075) = 1022 + k" by auto
    show ?thesis
      unfolding nearest_double_def Let_def one k_def [symmetric] if_not_P [OF n0]
      by (simp only: fst_conv snd_conv of_nat_1 mult_1 e0 power_0 div_by_1 if_P [OF big] k53 e1 mod_by_1 q_def [symmetric]
          if_not_P [OF c(1)] if_not_P [OF c(2)] e2)
  qed
  have "(1022 + k) * 2 ^ 52 + (q - 2 ^ 52) < (1022 + k + 1) * 2 ^ 52" using q1 q2 by simp
  also have "\<dots> \<le> 1076 * 2 ^ 52" using k2 by (intro mult_le_mono1) simp
  finally have small: "(1022 + k) * 2 ^ 52 + (q - 2 ^ 52) < 1076 * 2 ^ 52" .
  then have nd': "nearest_double m 1 = (1022 + k) * 2 ^ 52 + (q - 2 ^ 52)" unfolding nd by simp
  then show "nearest_double m 1 < 2 ^ 63" using small by simp
  show "word_of_nat (nearest_double m 1) = num_of_nat m"
  proof -
    have "m \<noteq> 0" using assms(1) by simp
    then show ?thesis unfolding nd' num_of_nat_def Let_def k_def q_def by (rule if_not_P [symmetric])
  qed
qed

lemma num_int_negated:
  assumes "n < 2 ^ 63"
  shows "num_int (word_of_nat (n + 2 ^ 63)) = map_option uminus (num_int (word_of_nat n))"
proof -
  have l: "n + 2 ^ 63 < 2 ^ 64" "n < 2 ^ 64" using assms by simp_all
  have "(n + 2 ^ 63) div 2 ^ 52 = n div 2 ^ 52 + 2048"
    by (simp add: div_add1_eq)
  then have e: "num_exponent (word_of_nat (n + 2 ^ 63)) = num_exponent (word_of_nat n)"
    unfolding num_exponent_of_nat [OF l(1)] num_exponent_of_nat [OF l(2)] by simp
  have f: "num_fraction (word_of_nat (n + 2 ^ 63)) = num_fraction (word_of_nat n)"
    unfolding num_fraction_of_nat [OF l(1)] num_fraction_of_nat [OF l(2)] by (simp add: mod_add_eq [symmetric])
  have u: "unat (word_of_nat (n + 2 ^ 63) :: 64 word) = n + 2 ^ 63" "unat (word_of_nat n :: 64 word) = n"
    using l by (simp_all add: unat_of_nat del: of_nat_add)
  show ?thesis
    unfolding num_int_def Let_def e f u using assms by simp
qed

lemma digits_read:
  assumes "list_all decimal_digit ds" "ds \<noteq> []" "delimited r"
  shows "digits_of (ds @ r) = Inr (ds, r)"
proof -
  have "takeWhile decimal_digit r = []" "dropWhile decimal_digit r = r"
    using assms(3) by (cases r; auto simp: delimited_def decimal_digit_def json_space_def)+
  moreover have "\<forall>x \<in> set ds. decimal_digit x" using assms(1) by (simp add: list_all_iff)
  ultimately show ?thesis
    using assms(2) by (simp add: digits_of_def takeWhile_append2 dropWhile_append2)
qed

lemma whole_read: "delimited r \<Longrightarrow> number_whole (nat_text 10 n @ r) = Inr (nat_text 10 n, r)"
proof (cases "n = 0")
  case True
  then show ?thesis by (simp add: nat_text_def to_digits.simps digit_unit_def number_whole_def)
next
  case False
  assume r: "delimited r"
  have p: "positive_text (nat_text 10 n)" using False by (simp add: positive_nat_text)
  then obtain u us where u: "nat_text 10 n = u # us" "49 \<le> unat u"
    by (cases "nat_text 10 n") (auto simp: positive_text_def)
  then have "u \<noteq> 48" by auto
  have "digits_of (nat_text 10 n @ r) = Inr (nat_text 10 n, r)"
    using digits_read [OF nat_text_decimal _ r, of n] u by simp
  with u \<open>u \<noteq> 48\<close> show ?thesis by (simp add: number_whole_def)
qed

lemma number_read:
  assumes "n < 2 ^ 53" "delimited r"
  shows "json_number ((if neg then [45] else []) @ nat_text 10 n @ r) =
    Inr (JNum (word_of_nat ((if n = 0 then 0 else nearest_double n 1) + (if neg then 2 ^ 63 else 0))), r)"
proof -
  have rest: "number_fraction r = Inr ([], r)" "number_exponent r = Inr (0, r)"
    using assms(2) by (cases r; auto simp: delimited_def json_space_def number_fraction_def number_exponent_def)+
  obtain u us where u: "nat_text 10 n = u # us" by (cases "nat_text 10 n") (simp_all add: nat_text_def to_digits_nonempty)
  then have "decimal_digit u" using nat_text_decimal [of n] by simp
  then have "u \<noteq> 45" by (auto simp: decimal_digit_def)
  with u have hd: "(case (if neg then [45] else []) @ nat_text 10 n @ r of u # _ \<Rightarrow> u = 45 | [] \<Rightarrow> False) = neg"
    by (cases neg) simp_all
  have tl: "(if neg then tl ((if neg then [45] else []) @ nat_text 10 n @ r) else (if neg then [45] else []) @ nat_text 10 n @ r) =
      nat_text 10 n @ r"
    by simp
  show ?thesis
    unfolding json_number_def Let_def hd tl whole_read [OF assms(2)] rbind.simps prod.case rest
    by (simp add: number_value_def)
qed

lemma reads_integer:
  assumes "safe_int b = Some z"
  shows "\<exists>b'. reads (int_text z) (JNum b') \<and> safe_int b' = Some z"
proof -
  define n where "n = nat \<bar>z\<bar>"
  define neg where "neg \<longleftrightarrow> z < 0"
  define b' :: "64 word" where "b' = word_of_nat ((if n = 0 then 0 else nearest_double n 1) + (if neg then 2 ^ 63 else 0))"
  have z: "\<bar>z\<bar> \<le> 9007199254740991" using assms by (auto simp: safe_int_def split: option.splits if_splits)
  then have n: "n < 2 ^ 53" by (simp add: n_def)
  have t: "int_text z = (if neg then [45] else []) @ nat_text 10 n"
    by (auto simp: int_text_def n_def neg_def)
  obtain d ds where d: "nat_text 10 n = d # ds" by (cases "nat_text 10 n") (simp_all add: nat_text_def to_digits_nonempty)
  then have "decimal_digit d" using nat_text_decimal [of n] by simp
  with d obtain u us where u: "int_text z = u # us" "u = 45 \<or> decimal_digit u" by (cases neg) (simp_all add: t)
  then have un: "\<not> json_space u" "u \<notin> {93, 125, 34, 91, 123, 116, 102, 110}"
    by (auto simp: json_space_def decimal_digit_def)
  have number: "json_number (int_text z @ r) = Inr (JNum b', r)" if "delimited r" for r
    using number_read [OF n that, of neg] by (simp only: t b'_def append_assoc)
  have "json_word (int_text z @ r) = Inr (JNum b', r)" if "delimited r" for r
    using number [OF that] un u(1) by (simp add: json_word_def js_def)
  then have "json_value m (int_text z @ r) = Inr (JNum b', r)" if "delimited r" "0 < m" for m r
    using that un u(1) by (cases m) simp_all
  then have "reads (int_text z) (JNum b')" using u(1) un by (simp add: reads_def)
  moreover have "num_int b' = Some z"
  proof (cases "n = 0")
    case True
    then show ?thesis using num_int_num_of_nat [of 0] by (simp add: b'_def n_def neg_def num_of_nat_def)
  next
    case False
    then show ?thesis
      using nearest_double_nat [of n] n num_int_num_of_nat [OF n] num_int_negated [of "nearest_double n 1"]
      by (auto simp: b'_def n_def neg_def simp del: of_nat_add)
  qed
  then have "safe_int b' = Some z" using z by (simp add: safe_int_def)
  ultimately show ?thesis by blast
qed

text \<open>The text of a canonical Term is read as its array.\<close>

lemma reads_term: "reads (key_text t) (rep_term t)"
proof (induction t)
  case (FBoolean b)
  then show ?case
    using reads_array [of "[json_quote (js ''boolean''), js (if b then ''true'' else ''false'')]" "[JStr (js ''boolean''), JBool b]"]
      reads_bool [of b] reads_string by simp
next
  case (FTriple a b c)
  then show ?case
    using reads_array [of "[json_quote (js ''triple''), key_text a, key_text b, key_text c]" "[JStr (js ''triple''), rep_term a, rep_term b, rep_term c]"]
      reads_string by simp
next
  case (FInstant sec ns)
  then show ?case
    using reads_array [of "[json_quote (js ''instant''), json_quote (int_text sec), json_quote (int_text ns)]"
        "[JStr (js ''instant''), JStr (int_text sec), JStr (int_text ns)]"] reads_string by simp
qed (use reads_array [of "[json_quote u, json_quote w]" "[JStr u, JStr w]" for u w] reads_string in auto)

end
