(* ===== verification/EdgeClient.thy ===== *)
theory EdgeClient
  imports Client JsonParse
begin

text \<open>
  The client of the JSON representation, \<^verbatim>\<open>deploy/cloudflare/worker-client.js\<close>: its own Term constructors and checks, the payloads,
  the request body, and what it accepts as a reply. Every failure of the file's own \<open>fail\<close> is a plain \<open>Error\<close>.
\<close>

abbreviation edgeFail :: "'a res" where
  "edgeFail \<equiv> Inl PlainError"

section \<open>Limits and patterns\<close>

definition MAX_JSON_BYTES :: nat where "MAX_JSON_BYTES = 1024 * 1024"

definition keyword_unit :: "16 word \<Rightarrow> bool" where
  "keyword_unit u \<longleftrightarrow>
     u \<in> set (js ''ABCDEFGHIJKLMNOPQRSTUVWXYZabcdefghijklmnopqrstuvwxyz0123456789*+!_?<>=$%&.-'')"

definition KEYWORD :: "jstr \<Rightarrow> bool" where
  "KEYWORD s \<longleftrightarrow> takeWhile keyword_unit s \<noteq> [] \<and>
     (case dropWhile keyword_unit s of
        [] \<Rightarrow> True
      | u # us \<Rightarrow> u = 47 \<and> us \<noteq> [] \<and> list_all keyword_unit us)"

section \<open>Checks\<close>

definition edge_exactKeys :: "jsval \<Rightarrow> string list \<Rightarrow> string list \<Rightarrow> (jstr \<times> jsval) list res" where
  "edge_exactKeys v needed allowed =
     (case object_fields v of
        None \<Rightarrow> edgeFail
      | Some fs \<Rightarrow>
          if list_all (has_own fs) needed \<and> list_all (\<lambda>(k, _). k \<in> set (map js allowed)) fs then Inr fs else edgeFail)"

definition edge_decimal :: "int \<Rightarrow> int \<Rightarrow> jsval \<Rightarrow> jstr res" where
  "edge_decimal lo hi v =
     rbind (case v of
              JBigInt z \<Rightarrow> Inr (int_text z)
            | JNum b \<Rightarrow> (case safe_int b of Some z \<Rightarrow> Inr (int_text z) | None \<Rightarrow> edgeFail)
            | JStr s \<Rightarrow> if I64 s then Inr s else edgeFail
            | _ \<Rightarrow> edgeFail)
       (\<lambda>text. if \<not> I64 text then edgeFail
         else let parsed = text_int text
              in if parsed < lo \<or> hi < parsed then edgeFail else Inr text)"

definition edge_floatBits :: "jsval \<Rightarrow> jstr res" where
  "edge_floatBits v =
     (case v of
        JNum b \<Rightarrow>
          if is_nan b then Inr canonical_nan
          else Inr (concat (map (\<lambda>byte. pad_start 2 (nat_text 16 (unat byte))) (rev (le_bytes 8 (unat b)))))
      | _ \<Rightarrow> edgeFail)"

definition edge_canonicalFloatBits :: "jsval \<Rightarrow> jstr res" where
  "edge_canonicalFloatBits v =
     (case v of
        JStr s \<Rightarrow>
          if \<not> FLOAT64 s then edgeFail
          else let raw = text_nat 16 s
               in if raw div 2 ^ 52 mod 2048 = 2047 \<and> raw mod 2 ^ 52 \<noteq> 0 \<and> s \<noteq> canonical_nan then edgeFail else Inr s
      | _ \<Rightarrow> edgeFail)"

section \<open>Constructors\<close>

definition edge_stringTerm :: "jsval \<Rightarrow> jsval res" where
  "edge_stringTerm v = (case v of JStr _ \<Rightarrow> Inr (JArr [js_lit ''string'', v]) | _ \<Rightarrow> edgeFail)"

definition edge_integerTerm :: "jsval \<Rightarrow> jsval res" where
  "edge_integerTerm v = rbind (edge_decimal I64_MIN I64_MAX v) (\<lambda>t. Inr (JArr [js_lit ''integer'', JStr t]))"

definition edge_float64Term :: "jsval \<Rightarrow> jsval res" where
  "edge_float64Term v = rbind (edge_floatBits v) (\<lambda>t. Inr (JArr [js_lit ''float64'', JStr t]))"

definition edge_booleanTerm :: "jsval \<Rightarrow> jsval res" where
  "edge_booleanTerm v = (case v of JBool _ \<Rightarrow> Inr (JArr [js_lit ''boolean'', v]) | _ \<Rightarrow> edgeFail)"

definition edge_keywordTerm :: "jsval \<Rightarrow> jsval res" where
  "edge_keywordTerm v =
     (case v of JStr s \<Rightarrow> if KEYWORD s then Inr (JArr [js_lit ''keyword'', v]) else edgeFail | _ \<Rightarrow> edgeFail)"

definition edge_instantTerm :: "jsval \<Rightarrow> jsval \<Rightarrow> jsval res" where
  "edge_instantTerm seconds nanos =
     rbind (edge_decimal 0 999999999 nanos) (\<lambda>n.
     rbind (edge_decimal I64_MIN I64_MAX seconds) (\<lambda>s. Inr (JArr [js_lit ''instant'', JStr s, JStr n])))"

section \<open>validateTerm and term\<close>

text \<open>The budget is the node count; the result is the count afterwards.\<close>

function edge_validate :: "nat \<Rightarrow> nat \<Rightarrow> jsval \<Rightarrow> nat res" where
  "edge_validate depth seen v =
     (if 256 < depth then edgeFail
      else if 65536 < seen + 1 then edgeFail
      else case v of
        JArr (JStr tag # args) \<Rightarrow>
          if tag = js ''string'' then (case args of [JStr _] \<Rightarrow> Inr (seen + 1) | _ \<Rightarrow> edgeFail)
          else if tag = js ''integer'' then
            (case args of [x] \<Rightarrow> rbind (edge_decimal I64_MIN I64_MAX x) (\<lambda>_. Inr (seen + 1)) | _ \<Rightarrow> edgeFail)
          else if tag = js ''float64'' then
            (case args of [x] \<Rightarrow> rbind (edge_canonicalFloatBits x) (\<lambda>_. Inr (seen + 1)) | _ \<Rightarrow> edgeFail)
          else if tag = js ''boolean'' then (case args of [JBool _] \<Rightarrow> Inr (seen + 1) | _ \<Rightarrow> edgeFail)
          else if tag = js ''keyword'' then
            (case args of [JStr s] \<Rightarrow> if KEYWORD s then Inr (seen + 1) else edgeFail | _ \<Rightarrow> edgeFail)
          else if tag = js ''instant'' then
            (case args of
               [x, y] \<Rightarrow> rbind (edge_decimal I64_MIN I64_MAX x) (\<lambda>_. rbind (edge_decimal 0 999999999 y) (\<lambda>_. Inr (seen + 1)))
             | _ \<Rightarrow> edgeFail)
          else if tag = js ''triple'' then
            (case args of
               [x, y, z] \<Rightarrow>
                 rbind (edge_validate (depth + 1) (seen + 1) x) (\<lambda>n1.
                 rbind (edge_validate (depth + 1) n1 y) (\<lambda>n2. edge_validate (depth + 1) n2 z))
             | _ \<Rightarrow> edgeFail)
          else edgeFail
      | _ \<Rightarrow> edgeFail)"
  by pat_completeness auto
termination
  by (relation "measure (\<lambda>(depth, _, _). 257 - depth)") auto

declare edge_validate.simps [simp del]

definition edge_validateTerm :: "jsval \<Rightarrow> jsval res" where
  "edge_validateTerm v = rbind (edge_validate 0 0 v) (\<lambda>_. Inr v)"

definition edge_dateTerm :: "int option \<Rightarrow> jsval res" where
  "edge_dateTerm time =
     (case time of
        None \<Rightarrow> Inl JsRangeError
      | Some millis \<Rightarrow>
          let seconds = (if 0 \<le> millis then trunc_div millis 1000 else trunc_div (millis - 999) 1000);
              nanos = (millis - seconds * 1000) * 1000000
          in edge_instantTerm (JBigInt seconds) (JBigInt nanos))"

definition edge_term :: "jsval \<Rightarrow> jsval res" where
  "edge_term v =
     (case v of
        JArr _ \<Rightarrow> edge_validateTerm v
      | JStr _ \<Rightarrow> edge_stringTerm v
      | JBigInt _ \<Rightarrow> edge_integerTerm v
      | JNum b \<Rightarrow> if is_safe_integer b then edge_integerTerm v else edge_float64Term v
      | JBool _ \<Rightarrow> edge_booleanTerm v
      | JDate t \<Rightarrow> edge_dateTerm t
      | _ \<Rightarrow> edgeFail)"

definition edge_tripleTerm :: "jsval \<Rightarrow> jsval \<Rightarrow> jsval \<Rightarrow> jsval res" where
  "edge_tripleTerm t1 t2 t3 =
     rbind (edge_term t1) (\<lambda>a. rbind (edge_term t2) (\<lambda>b. rbind (edge_term t3) (\<lambda>c.
       Inr (JArr [js_lit ''triple'', a, b, c]))))"

section \<open>Lists, records and options\<close>

definition edge_kw :: "string \<Rightarrow> jsval res" where
  "edge_kw s = edge_keywordTerm (js_lit s)"

definition edge_list :: "jsval list \<Rightarrow> jsval res" where
  "edge_list vs =
     foldr (\<lambda>v acc. rbind acc (\<lambda>rest. rbind (edge_kw ''rpc/list'') (\<lambda>k. edge_tripleTerm k v rest)))
       vs (edge_kw ''rpc/list-end'')"

definition edge_record :: "string \<Rightarrow> jsval list \<Rightarrow> jsval res" where
  "edge_record tag xs =
     rbind (edge_kw tag) (\<lambda>k. rbind (edge_list xs) (\<lambda>fs.
     rbind (edge_kw ''rpc/record'') (\<lambda>e. edge_tripleTerm k fs e)))"

definition edge_option :: "jsval \<Rightarrow> jsval res" where
  "edge_option v =
     (if nullish v then edge_kw ''rpc/none''
      else rbind (edge_kw ''rpc/some'') (\<lambda>k. rbind (edge_term v) (\<lambda>x.
        rbind (edge_kw ''rpc/option'') (\<lambda>e. edge_tripleTerm k x e))))"

text \<open>\<open>cursor[0] === 'keyword' && cursor[1] === name\<close> on a Term array that has been validated.\<close>

definition headed :: "jsval \<Rightarrow> string \<Rightarrow> bool" where
  "headed v name = (case v of JArr (t # x # _) \<Rightarrow> t = js_lit ''keyword'' \<and> x = js_lit name | _ \<Rightarrow> False)"

function edge_items :: "jsval \<Rightarrow> jsval list res" where
  "edge_items cur =
     (if headed cur ''rpc/list-end'' then Inr []
      else case as_triple cur of
        None \<Rightarrow> edgeFail
      | Some (k, x, rest) \<Rightarrow>
          if \<not> headed k ''rpc/list'' then edgeFail
          else rbind (edge_items rest) (\<lambda>xs. Inr (x # xs)))"
  by pat_completeness auto
termination
  by (relation "measure size") (auto dest: as_triple_size)

declare edge_items.simps [simp del]

definition edge_listValues :: "jsval \<Rightarrow> jsval list res" where
  "edge_listValues v = rbind (edge_validateTerm v) edge_items"

definition edge_recordFields :: "jsval \<Rightarrow> string \<Rightarrow> nat \<Rightarrow> jsval list res" where
  "edge_recordFields v tag count =
     rbind (edge_validateTerm v) (\<lambda>_.
       case as_triple v of
         None \<Rightarrow> edgeFail
       | Some (k, fs, e) \<Rightarrow>
           if \<not> headed k tag \<or> \<not> headed e ''rpc/record'' then edgeFail
           else rbind (edge_listValues fs) (\<lambda>xs. if length xs \<noteq> count then edgeFail else Inr xs))"

section \<open>Payloads\<close>

definition edge_queryVar :: "string \<Rightarrow> jsval res" where
  "edge_queryVar name = rbind (edge_stringTerm (js_lit name)) (\<lambda>s. edge_record ''query/var'' [s])"

definition edge_queryConst :: "jsval \<Rightarrow> jsval res" where
  "edge_queryConst v = rbind (edge_term v) (\<lambda>t. edge_record ''query/const'' [t])"

definition edge_tripleQuery :: "jsval \<Rightarrow> jsval res" where
  "edge_tripleQuery pattern =
     rbind (edge_exactKeys (if pattern = JUndef then JObj [] else pattern) [] [''t1'', ''t2'', ''t3'']) (\<lambda>fs.
     let names = [''t1'', ''t2'', ''t3''];
         variables = filter (\<lambda>n. nullish (get_prop fs n)) names
     in rbind (rmap (\<lambda>n. if nullish (get_prop fs n) then edge_queryVar n else edge_queryConst (get_prop fs n)) names) (\<lambda>args.
        rbind (if variables \<noteq> [] then rmap edge_queryVar variables else Inr args) (\<lambda>headTerms.
        rbind (edge_stringTerm (js_lit ''out'')) (\<lambda>out. rbind (edge_list headTerms) (\<lambda>hl.
        rbind (edge_record ''query/head'' [out, hl]) (\<lambda>hd'.
        rbind (edge_stringTerm (js_lit ''triple'')) (\<lambda>rel. rbind (edge_list args) (\<lambda>al.
        rbind (edge_booleanTerm (JBool False)) (\<lambda>neg.
        rbind (edge_record ''query/relation'' [rel, al, neg]) (\<lambda>relation.
        rbind (edge_list [relation]) (\<lambda>body. rbind (edge_record ''query/rule'' [hd', body]) (\<lambda>rule.
        rbind (edge_list [rule]) (\<lambda>rules. rbind (edge_record ''query/stratum'' [rules]) (\<lambda>stratum.
        rbind (edge_record ''query/find-relation'' [out]) (\<lambda>find'.
        rbind (edge_list [stratum]) (\<lambda>strata. edge_record ''query/plan'' [find', strata]))))))))))))))))"

definition edge_policy :: "jsval \<Rightarrow> jsval res" where
  "edge_policy existing = edge_kw (if truthy existing then ''rpc/subject-existing'' else ''rpc/subject-any'')"

definition edge_writePayload :: "jsval \<Rightarrow> jsval \<Rightarrow> jsval res" where
  "edge_writePayload proposition opts =
     rbind (member opts ''existing'') (\<lambda>ex. rbind (edge_policy ex) (\<lambda>pol.
     rbind (member opts ''fence'') (\<lambda>f. rbind (edge_option f) (\<lambda>fence.
       edge_record ''rpc/write'' [proposition, pol, fence]))))"

definition edge_actionPayload :: "jsval \<Rightarrow> jsval res" where
  "edge_actionPayload act =
     rbind (edge_exactKeys act [''op''] [''op'', ''proposition'', ''t1'', ''t2'', ''t3'', ''existing'']) (\<lambda>fs.
     case (if get_prop fs ''op'' = js_lit ''retract'' then Some ''rpc/retract''
           else if get_prop fs ''op'' = js_lit ''assert'' then Some ''rpc/assert'' else None) of
       None \<Rightarrow> edgeFail
     | Some op \<Rightarrow>
         rbind (if truthy (get_prop fs ''proposition'') then edge_term (get_prop fs ''proposition'')
                else edge_tripleTerm (get_prop fs ''t1'') (get_prop fs ''t2'') (get_prop fs ''t3'')) (\<lambda>p.
         rbind (edge_kw op) (\<lambda>k. rbind (edge_policy (get_prop fs ''existing'')) (\<lambda>pol.
           edge_record ''rpc/action'' [k, p, pol]))))"

definition edge_scanPayload :: "jsval \<Rightarrow> jsval res" where
  "edge_scanPayload pattern =
     rbind (edge_exactKeys pattern [] [''t1'', ''t2'', ''t3'']) (\<lambda>fs.
     rbind (edge_option (get_prop fs ''t1'')) (\<lambda>a. rbind (edge_option (get_prop fs ''t2'')) (\<lambda>b.
     rbind (edge_option (get_prop fs ''t3'')) (\<lambda>c. edge_record ''rpc/triple-pattern'' [a, b, c]))))"

definition edge_asOf :: "jsval \<Rightarrow> jsval res" where
  "edge_asOf v = rbind (edge_integerTerm v) (\<lambda>i. edge_record ''query/as-of'' [i])"

definition edge_querySnapshot :: "jsval \<Rightarrow> jsval res" where
  "edge_querySnapshot opts =
     rbind (own_of opts ''asOf'') (\<lambda>hasAsOf.
     rbind (own_of opts ''since'') (\<lambda>hasSince.
     if hasAsOf \<and> hasSince then edgeFail
     else if hasAsOf then rbind (member opts ''asOf'') edge_asOf
     else if \<not> hasSince then edge_kw ''query/current''
     else rbind (member opts ''since'') (\<lambda>raw.
       let since = (case raw of JObj _ \<Rightarrow> raw | JArr _ \<Rightarrow> raw | JDate _ \<Rightarrow> raw | _ \<Rightarrow> JObj [(js ''lowerExclusive'', raw)])
       in rbind (edge_exactKeys since [''lowerExclusive''] [''lowerExclusive'', ''upper'']) (\<lambda>fs.
          rbind (if \<not> has_own fs ''upper'' \<or> get_prop fs ''upper'' = js_lit ''current'' then edge_kw ''query/current''
                 else edge_asOf (get_prop fs ''upper'')) (\<lambda>upper.
          rbind (edge_integerTerm (get_prop fs ''lowerExclusive'')) (\<lambda>i. edge_record ''query/since'' [i, upper]))))))"

section \<open>Requests\<close>

text \<open>The request object; a missing property is \<open>None\<close>.\<close>

record edge_page =
  eg_limit :: jstr
  eg_cursor :: "jsval option"

record edge_request =
  eq_space :: jstr
  eq_op :: jstr
  eq_payload :: jsval
  eq_expectedVersion :: "jstr option"
  eq_page :: "edge_page option"
  eq_timeoutMs :: "jstr option"

definition optional_of :: "(jsval \<Rightarrow> 'a res) \<Rightarrow> jsval \<Rightarrow> 'a option res" where
  "optional_of f v = (if v = JUndef then Inr None else map_sum id Some (f v))"

definition edge_pageRequest :: "jsval \<Rightarrow> edge_page res" where
  "edge_pageRequest v =
     rbind (edge_exactKeys v [''limit''] [''limit'', ''cursor'']) (\<lambda>fs.
     rbind (edge_decimal 1 U32_MAX (get_prop fs ''limit'')) (\<lambda>lim.
     rbind (optional_of edge_term (get_prop fs ''cursor'')) (\<lambda>c. Inr \<lparr>eg_limit = lim, eg_cursor = c\<rparr>)))"

definition edge_requestOf :: "jstr \<Rightarrow> string \<Rightarrow> jsval \<Rightarrow> jsval \<Rightarrow> edge_request res" where
  "edge_requestOf space op payload opts =
     rbind (edge_term payload) (\<lambda>p.
     rbind (rbind (member opts ''expectedVersion'') (optional_of (edge_decimal 0 I64_MAX))) (\<lambda>ver.
     rbind (rbind (member opts ''page'') (optional_of edge_pageRequest)) (\<lambda>pg.
     rbind (rbind (member opts ''timeoutMs'') (optional_of (edge_decimal 0 U32_MAX))) (\<lambda>ms.
       Inr \<lparr>eq_space = space, eq_op = js op, eq_payload = p, eq_expectedVersion = ver, eq_page = pg, eq_timeoutMs = ms\<rparr>))))"

text \<open>\<open>JSON.stringify(request)\<close>: the properties in the order they were set.\<close>

definition member_text :: "string \<Rightarrow> jstr option res \<Rightarrow> (jstr \<times> jstr) list res" where
  "member_text k t = rbind t (\<lambda>x. Inr (case x of None \<Rightarrow> [] | Some s \<Rightarrow> [(js k, s)]))"

definition optional_text :: "('a \<Rightarrow> jstr res) \<Rightarrow> 'a option \<Rightarrow> jstr option res" where
  "optional_text f x = (case x of None \<Rightarrow> Inr None | Some y \<Rightarrow> map_sum id Some (f y))"

definition page_text :: "edge_page \<Rightarrow> jstr res" where
  "page_text p =
     rbind (member_text ''cursor'' (optional_text json_text (eg_cursor p))) (\<lambda>c.
       Inr (json_object ((js ''limit'', json_quote (eg_limit p)) # c)))"

definition request_text :: "edge_request \<Rightarrow> jstr res" where
  "request_text q =
     rbind (json_text (eq_payload q)) (\<lambda>p.
     rbind (member_text ''expectedVersion'' (Inr (map_option json_quote (eq_expectedVersion q)))) (\<lambda>ver.
     rbind (member_text ''page'' (optional_text page_text (eq_page q))) (\<lambda>pg.
     rbind (member_text ''timeoutMs'' (Inr (map_option json_quote (eq_timeoutMs q)))) (\<lambda>ms.
       Inr (json_object ([(js ''space'', json_quote (eq_space q)), (js ''op'', json_quote (eq_op q)), (js ''payload'', p)] @
         ver @ pg @ ms))))))"

section \<open>Replies\<close>

definition edge_responsePage :: "jsval \<Rightarrow> unit res" where
  "edge_responsePage v =
     rbind (edge_exactKeys v [''ordinal'', ''done''] [''ordinal'', ''done'', ''nextCursor'']) (\<lambda>fs.
     rbind (edge_decimal 0 U32_MAX (get_prop fs ''ordinal'')) (\<lambda>_.
     case get_prop fs ''done'' of
       JBool _ \<Rightarrow> if has_own fs ''nextCursor'' then map_sum id (\<lambda>_. ()) (edge_validateTerm (get_prop fs ''nextCursor'')) else Inr ()
     | _ \<Rightarrow> edgeFail))"

definition edge_responseError :: "jsval \<Rightarrow> unit res" where
  "edge_responseError v =
     rbind (edge_exactKeys v [''code'', ''retryable'', ''message''] [''code'', ''retryable'', ''message'', ''detail'']) (\<lambda>fs.
     case (get_prop fs ''code'', get_prop fs ''retryable'', get_prop fs ''message'') of
       (JStr spelling, JBool _, JStr _) \<Rightarrow>
         if \<not> KEYWORD spelling then edgeFail
         else if has_own fs ''detail'' then map_sum id (\<lambda>_. ()) (edge_validateTerm (get_prop fs ''detail'')) else Inr ()
     | _ \<Rightarrow> edgeFail)"

definition validateResponse :: "jstr \<Rightarrow> string \<Rightarrow> jsval \<Rightarrow> jsval res" where
  "validateResponse space op v =
     rbind (edge_exactKeys v [''space'', ''op'', ''servedVersion''] [''space'', ''op'', ''servedVersion'', ''page'', ''error'', ''payload'']) (\<lambda>fs.
     if get_prop fs ''space'' \<noteq> JStr space \<or> get_prop fs ''op'' \<noteq> js_lit op then edgeFail
     else rbind (edge_decimal 0 I64_MAX (get_prop fs ''servedVersion'')) (\<lambda>_.
     rbind (if has_own fs ''page'' then edge_responsePage (get_prop fs ''page'') else Inr ()) (\<lambda>_.
     rbind (if has_own fs ''error'' then edge_responseError (get_prop fs ''error'') else Inr ()) (\<lambda>_.
     rbind (if has_own fs ''payload'' then map_sum id (\<lambda>_. ()) (edge_validateTerm (get_prop fs ''payload'')) else Inr ()) (\<lambda>_.
       Inr v)))))"

text \<open>What \<open>fetch\<close> returns: the text of the body, the content type header if there is one, and \<open>response.ok\<close>.\<close>

record edge_reply =
  ey_text :: jstr
  ey_type :: "jstr option"
  ey_ok :: bool

definition ascii_lower :: "16 word \<Rightarrow> 16 word" where
  "ascii_lower u = (if 65 \<le> unat u \<and> unat u \<le> 90 then u + 32 else u)"

text \<open>The white space and line terminators \<open>trim\<close> removes.\<close>

definition js_space :: "16 word \<Rightarrow> bool" where
  "js_space u \<longleftrightarrow> unat u \<in> {9, 10, 11, 12, 13, 32, 160, 0x1680, 0x2028, 0x2029, 0x202f, 0x205f, 0x3000, 0xfeff} \<or>
     0x2000 \<le> unat u \<and> unat u \<le> 0x200a"

definition trimmed :: "jstr \<Rightarrow> jstr" where
  "trimmed s = rev (dropWhile js_space (rev (dropWhile js_space s)))"

definition media_type :: "jstr option \<Rightarrow> jstr" where
  "media_type t =
     (case t of None \<Rightarrow> [] | Some s \<Rightarrow> map ascii_lower (trimmed (takeWhile (\<lambda>u. u \<noteq> 59) s)))"

definition edge_receive :: "jstr \<Rightarrow> string \<Rightarrow> edge_reply res \<Rightarrow> jsval res" where
  "edge_receive space op reply =
     rbind reply (\<lambda>r.
     if MAX_JSON_BYTES < length (utf8_encode (ey_text r)) then edgeFail
     else if media_type (ey_type r) \<noteq> js ''application/json'' then edgeFail
     else case json_parse (ey_text r) of
       Inl e \<Rightarrow> edgeFail
     | Inr v \<Rightarrow> if \<not> ey_ok r then edgeFail else validateResponse space op v)"

section \<open>The client\<close>

record edge_client =
  ec_space :: jstr
  ec_token :: jsval

definition edge_framClient :: "jsval \<Rightarrow> jsval \<Rightarrow> edge_client res" where
  "edge_framClient token space =
     (if \<not> truthy token then edgeFail
      else case space of
        JStr s \<Rightarrow> if trimmed s = [] then edgeFail else Inr \<lparr>ec_space = s, ec_token = token\<rparr>
      | _ \<Rightarrow> edgeFail)"

text \<open>A method call: the path, the operation, the payload and the options, in the order the code evaluates them.\<close>

datatype edge_method =
    EVersion jsval
  | EStatus jsval
  | EValidate jsval
  | EOccurrences jsval
  | EScan jsval jsval
  | EQuery jsval jsval
  | EAssert jsval jsval jsval jsval
  | ERetract jsval jsval jsval jsval
  | EBatch jsval jsval
  | ELeaseAcquire jsval jsval jsval jsval
  | ELeaseRenew jsval jsval jsval
  | ELeaseRelease jsval jsval
  | ELeaseCheck jsval jsval

definition or_object :: "jsval \<Rightarrow> jsval" where
  "or_object v = (if v = JUndef then JObj [] else v)"

definition edge_write :: "string \<Rightarrow> jsval \<Rightarrow> jsval \<Rightarrow> jsval \<Rightarrow> jsval \<Rightarrow> (string \<times> string \<times> jsval \<times> jsval) res" where
  "edge_write op t1 t2 t3 opts =
     rbind (edge_tripleTerm t1 t2 t3) (\<lambda>t. rbind (edge_writePayload t (or_object opts)) (\<lambda>p.
       Inr (''/assert'', op, p, or_object opts)))"

fun edge_call :: "edge_method \<Rightarrow> (string \<times> string \<times> jsval \<times> jsval) res" where
  "edge_call (EVersion opts) = rbind (edge_kw ''rpc/unit'') (\<lambda>p. Inr (''/q'', ''rpc/version'', p, or_object opts))"
| "edge_call (EStatus opts) = rbind (edge_kw ''rpc/unit'') (\<lambda>p. Inr (''/q'', ''rpc/status'', p, or_object opts))"
| "edge_call (EValidate opts) = rbind (edge_kw ''rpc/unit'') (\<lambda>p. Inr (''/q'', ''rpc/validate'', p, or_object opts))"
| "edge_call (EOccurrences opts) = rbind (edge_kw ''rpc/unit'') (\<lambda>p. Inr (''/q'', ''rpc/occurrences'', p, or_object opts))"
| "edge_call (EScan pattern opts) =
     rbind (edge_scanPayload (or_object pattern)) (\<lambda>p. Inr (''/q'', ''rpc/scan'', p, or_object opts))"
| "edge_call (EQuery plan opts) =
     rbind (edge_term plan) (\<lambda>t. rbind (edge_querySnapshot (or_object opts)) (\<lambda>s.
     rbind (edge_record ''query/request'' [t, s]) (\<lambda>p. Inr (''/q'', ''rpc/query'', p, or_object opts))))"
| "edge_call (EAssert t1 t2 t3 opts) = edge_write ''rpc/assert'' t1 t2 t3 opts"
| "edge_call (ERetract t1 t2 t3 opts) = edge_write ''rpc/retract'' t1 t2 t3 opts"
| "edge_call (EBatch actions opts) =
     rbind (array_items actions) (\<lambda>as. rbind (rmap edge_actionPayload as) (\<lambda>ps. rbind (edge_list ps) (\<lambda>l.
     rbind (member (or_object opts) ''fence'') (\<lambda>f. rbind (edge_option f) (\<lambda>fence.
     rbind (edge_record ''rpc/batch'' [l, fence]) (\<lambda>p. Inr (''/assert'', ''rpc/batch'', p, or_object opts)))))))"
| "edge_call (ELeaseAcquire resource holder ttlMs opts) =
     rbind (edge_term resource) (\<lambda>r. rbind (edge_term holder) (\<lambda>h. rbind (edge_integerTerm ttlMs) (\<lambda>i.
     rbind (edge_record ''lease/acquire'' [r, h, i]) (\<lambda>p. Inr (''/assert'', ''rpc/lease-acquire'', p, or_object opts)))))"
| "edge_call (ELeaseRenew fence ttlMs opts) =
     rbind (edge_term fence) (\<lambda>f. rbind (edge_integerTerm ttlMs) (\<lambda>i.
     rbind (edge_record ''lease/renew'' [f, i]) (\<lambda>p. Inr (''/assert'', ''rpc/lease-renew'', p, or_object opts))))"
| "edge_call (ELeaseRelease fence opts) =
     rbind (edge_term fence) (\<lambda>p. Inr (''/assert'', ''rpc/lease-release'', p, or_object opts))"
| "edge_call (ELeaseCheck fence opts) =
     rbind (edge_term fence) (\<lambda>p. Inr (''/q'', ''rpc/lease-check'', p, or_object opts))"

text \<open>What a method sends: the path and the body.\<close>

definition edge_send :: "edge_client \<Rightarrow> edge_method \<Rightarrow> (string \<times> string \<times> jstr) res" where
  "edge_send c m =
     rbind (edge_call m) (\<lambda>(path, op, payload, opts).
     rbind (edge_requestOf (ec_space c) op payload opts) (\<lambda>q.
     rbind (request_text q) (\<lambda>body. Inr (path, op, body))))"

text \<open>A call, given what \<open>fetch\<close> makes of each request.\<close>

definition edge_exchange :: "edge_client \<Rightarrow> (string \<Rightarrow> jstr \<Rightarrow> edge_reply res) \<Rightarrow> edge_method \<Rightarrow> jsval res" where
  "edge_exchange c fetch m =
     rbind (edge_send c m) (\<lambda>(path, op, body). edge_receive (ec_space c) op (fetch path body))"

end
