(* ===== verification/EdgeTerms.thy ===== *)
theory EdgeTerms
  imports EdgeClient
begin

text \<open>
  What the checks of the JSON client accept, in terms of the Terms the arrays denote, and that both clients agree: on the
  Terms both can express they accept the same values and make the same arrays of them, and the same calls have the
  same payloads.
\<close>

section \<open>The checks of the JSON client\<close>

lemma edge_decimal_iff: "edge_decimal lo hi v = Inr s \<longleftrightarrow> (\<exists>z. int_denotes v z \<and> lo \<le> z \<and> z \<le> hi \<and> s = int_text z)"
proof -
  have "edge_decimal lo hi v = Inr s \<longleftrightarrow> decimal lo hi v = Inr s"
    by (auto simp: edge_decimal_def decimal_def res_simps Let_def split: jsval.splits option.splits if_splits)
  then show ?thesis by (simp add: decimal_Inr_iff)
qed

lemma edge_canonicalFloatBits_iff:
  "edge_canonicalFloatBits v = Inr s \<longleftrightarrow> (\<exists>b. v = JStr (float_text b) \<and> float_ok b \<and> s = float_text b)"
proof -
  have "edge_canonicalFloatBits v = Inr s \<longleftrightarrow> canonicalFloatBits v = Inr s"
    by (auto simp: edge_canonicalFloatBits_def canonicalFloatBits_def Let_def split: jsval.splits if_splits)
  then show ?thesis by (simp add: canonicalFloatBits_Inr_iff)
qed

text \<open>The atoms the JSON client lets through: any text, keywords of the pattern only.\<close>

fun edge_ok :: "fterm \<Rightarrow> bool" where
  "edge_ok (FString s) = True"
| "edge_ok (FInteger z) = i64_ok z"
| "edge_ok (FFloat b) = float_ok b"
| "edge_ok (FBoolean b) = True"
| "edge_ok (FKeyword s) = KEYWORD s"
| "edge_ok (FInstant sec ns) = (i64_ok sec \<and> 0 \<le> ns \<and> ns \<le> 999999999)"
| "edge_ok (FTriple a b c) = (edge_ok a \<and> edge_ok b \<and> edge_ok c)"

text \<open>The Term an array has the shape of, whatever its atoms are.\<close>

inductive shape :: "jsval \<Rightarrow> fterm \<Rightarrow> bool" where
  string: "shape (JArr [JStr (js ''string''), JStr s]) (FString s)"
| integer: "int_denotes v z \<Longrightarrow> shape (JArr [JStr (js ''integer''), v]) (FInteger z)"
| float: "shape (JArr [JStr (js ''float64''), JStr (float_text b)]) (FFloat b)"
| boolean: "shape (JArr [JStr (js ''boolean''), JBool b]) (FBoolean b)"
| keyword: "shape (JArr [JStr (js ''keyword''), JStr s]) (FKeyword s)"
| instant: "int_denotes v sec \<Longrightarrow> int_denotes w ns \<Longrightarrow> shape (JArr [JStr (js ''instant''), v, w]) (FInstant sec ns)"
| triple: "shape x a \<Longrightarrow> shape y b \<Longrightarrow> shape z c \<Longrightarrow> shape (JArr [JStr (js ''triple''), x, y, z]) (FTriple a b c)"

lemma shape_denotes: "shape v t \<Longrightarrow> atom_ok t \<Longrightarrow> denotes v t"
  by (induction rule: shape.induct) (auto intro: denotes.intros)

lemma denotes_shape: "denotes v t \<Longrightarrow> shape v t"
  by (induction rule: denotes.induct) (auto intro: shape.intros)

lemma shape_unique: "shape v t \<Longrightarrow> shape v u \<Longrightarrow> t = u"
proof (induction arbitrary: u rule: shape.induct)
  case (integer v z)
  from integer(2) show ?case by cases (use integer int_denotes_unique in auto)
next
  case (instant v sec w ns)
  from instant(3) show ?case by cases (use instant int_denotes_unique in auto)
next
  case (triple x a y b z c)
  from triple.prems show ?case by cases (use triple in auto)
qed (auto elim: shape.cases)

lemma shape_rep: "shape (rep_term t) t"
  by (induction t) (auto intro: shape.intros)

lemma edge_validate_complete:
  "shape v t \<Longrightarrow> edge_ok t \<Longrightarrow> depth + term_depth t \<le> 256 \<Longrightarrow> seen + term_size t \<le> 65536 \<Longrightarrow>
     edge_validate depth seen v = Inr (seen + term_size t)"
proof (induction arbitrary: depth seen rule: shape.induct)
  case (triple x a y b z c)
  have "edge_validate (depth + 1) (seen + 1) x = Inr (seen + 1 + term_size a)"
    using triple.prems by (intro triple.IH) auto
  moreover have "edge_validate (depth + 1) (seen + 1 + term_size a) y = Inr (seen + 1 + term_size a + term_size b)"
    using triple.prems by (intro triple.IH) auto
  moreover have "edge_validate (depth + 1) (seen + 1 + term_size a + term_size b) z =
      Inr (seen + 1 + term_size a + term_size b + term_size c)"
    using triple.prems by (intro triple.IH) auto
  ultimately show ?case
    using triple.prems by (subst edge_validate.simps) simp
next
  case (integer v z)
  then have "edge_decimal I64_MIN I64_MAX v = Inr (int_text z)" by (auto simp: edge_decimal_iff i64_ok_def)
  with integer show ?case by (subst edge_validate.simps) simp
next
  case (float b)
  then have "edge_canonicalFloatBits (JStr (float_text b)) = Inr (float_text b)" by (auto simp: edge_canonicalFloatBits_iff)
  with float show ?case by (subst edge_validate.simps) simp
next
  case (instant v sec w ns)
  then have "edge_decimal I64_MIN I64_MAX v = Inr (int_text sec)" "edge_decimal 0 999999999 w = Inr (int_text ns)"
    by (auto simp: edge_decimal_iff i64_ok_def)
  with instant show ?case by (subst edge_validate.simps) simp
qed (subst edge_validate.simps, simp)+

lemma edge_validate_sound:
  "edge_validate depth seen v = Inr m \<Longrightarrow>
     \<exists>t. shape v t \<and> edge_ok t \<and> depth + term_depth t \<le> 256 \<and> m = seen + term_size t \<and> m \<le> 65536"
proof (induction depth seen v arbitrary: m rule: edge_validate.induct)
  case (1 depth seen v)
  note eq = "1.prems" [unfolded edge_validate.simps [of depth seen v]]
  from eq have d: "depth \<le> 256" and n: "seen + 1 \<le> 65536" by (auto split: if_splits)
  from eq d n obtain tag args where v: "v = JArr (JStr tag # args)"
    by (auto split: jsval.splits list.splits)
  note eq' = eq [unfolded v]
  have leaf: ?case if "shape v t" "edge_ok t" "term_size t = 1" "term_depth t = 0" "m = seen + 1" for t
    using that d n by (intro exI [of _ t]) simp
  consider "tag = js ''string''" | "tag = js ''integer''" | "tag = js ''float64''"
    | "tag = js ''boolean''" | "tag = js ''keyword''" | "tag = js ''instant''" | "tag = js ''triple''"
    using eq' d n by (auto split: if_splits)
  then show ?case
  proof cases
    case 1
    with eq' d n obtain s where "args = [JStr s]" "m = seen + 1" by (auto split: list.splits jsval.splits)
    with v 1 show ?thesis by (intro leaf [of "FString s"]) (auto intro: shape.string)
  next
    case 2
    with eq' d n obtain x z where "args = [x]" "int_denotes x z" "i64_ok z" "m = seen + 1"
      by (auto simp: res_simps edge_decimal_iff i64_ok_def split: list.splits)
    with v 2 show ?thesis by (intro leaf [of "FInteger z"]) (auto intro: shape.integer)
  next
    case 3
    with eq' d n obtain b where "args = [JStr (float_text b)]" "float_ok b" "m = seen + 1"
      by (auto simp: res_simps edge_canonicalFloatBits_iff split: list.splits)
    with v 3 show ?thesis by (intro leaf [of "FFloat b"]) (auto intro: shape.float)
  next
    case 4
    with eq' d n obtain b where "args = [JBool b]" "m = seen + 1" by (auto split: list.splits jsval.splits)
    with v 4 show ?thesis by (intro leaf [of "FBoolean b"]) (auto intro: shape.boolean)
  next
    case 5
    with eq' d n obtain s where "args = [JStr s]" "KEYWORD s" "m = seen + 1"
      by (auto split: list.splits jsval.splits if_splits)
    with v 5 show ?thesis by (intro leaf [of "FKeyword s"]) (auto intro: shape.keyword)
  next
    case 6
    with eq' d n obtain x y a b where "args = [x, y]" "int_denotes x a" "i64_ok a" "int_denotes y b" "0 \<le> b" "b \<le> 999999999"
      "m = seen + 1"
      by (auto simp: res_simps edge_decimal_iff i64_ok_def split: list.splits)
    with v 6 show ?thesis by (intro leaf [of "FInstant a b"]) (auto intro: shape.instant)
  next
    case 7
    with eq' d n obtain x y z m1 m2 where a: "args = [x, y, z]"
      and r: "edge_validate (depth + 1) (seen + 1) x = Inr m1" "edge_validate (depth + 1) m1 y = Inr m2"
        "edge_validate (depth + 1) m2 z = Inr m"
      by (auto simp: res_simps split: list.splits)
    have guard: "\<not> 256 < depth" "\<not> 65536 < seen + 1" using d n by auto
    note IH = "1.IH" [OF guard v refl refl]
    obtain t1 where t1: "shape x t1" "edge_ok t1" "depth + 1 + term_depth t1 \<le> 256" "m1 = seen + 1 + term_size t1"
      using IH(1) [of x "[y, z]" y "[z]" z "[]" m1] 7 a r(1) by auto
    obtain t2 where t2: "shape y t2" "edge_ok t2" "depth + 1 + term_depth t2 \<le> 256" "m2 = m1 + term_size t2"
      using IH(2) [of x "[y, z]" y "[z]" z "[]" m1 m2] 7 a r(1,2) by auto
    obtain t3 where t3: "shape z t3" "edge_ok t3" "depth + 1 + term_depth t3 \<le> 256" "m = m2 + term_size t3" "m \<le> 65536"
      using IH(3) [of x "[y, z]" y "[z]" z "[]" m1 m2 m] 7 a r by auto
    have "shape v (FTriple t1 t2 t3)" using v 7 a t1 t2 t3 by (simp add: shape.triple)
    with t1 t2 t3 show ?thesis by (intro exI [of _ "FTriple t1 t2 t3"]) simp
  qed
qed

lemma edge_validateTerm_iff:
  "edge_validateTerm v = Inr u \<longleftrightarrow>
     u = v \<and> (\<exists>t. shape v t \<and> edge_ok t \<and> term_size t \<le> MAX_TERM_NODES \<and> term_depth t \<le> MAX_TERM_DEPTH)"
proof
  assume "edge_validateTerm v = Inr u"
  then obtain m where "edge_validate 0 0 v = Inr m" "u = v"
    by (cases "edge_validate 0 0 v") (simp_all add: edge_validateTerm_def)
  moreover from edge_validate_sound [OF this(1)]
  obtain t where "shape v t" "edge_ok t" "0 + term_depth t \<le> 256" "m = 0 + term_size t" "m \<le> 65536" by blast
  ultimately show "u = v \<and> (\<exists>t. shape v t \<and> edge_ok t \<and> term_size t \<le> MAX_TERM_NODES \<and> term_depth t \<le> MAX_TERM_DEPTH)"
    unfolding MAX_TERM_NODES_def MAX_TERM_DEPTH_def by (intro conjI exI [of _ t]) simp_all
next
  assume "u = v \<and> (\<exists>t. shape v t \<and> edge_ok t \<and> term_size t \<le> MAX_TERM_NODES \<and> term_depth t \<le> MAX_TERM_DEPTH)"
  then obtain t where "u = v" "shape v t" "edge_ok t" "term_size t \<le> 65536" "term_depth t \<le> 256"
    by (auto simp: MAX_TERM_NODES_def MAX_TERM_DEPTH_def)
  with edge_validate_complete [of v t 0 0] show "edge_validateTerm v = Inr u" by (simp add: edge_validateTerm_def)
qed

section \<open>Agreement on values\<close>

lemma edge_integerTerm_iff:
  "edge_integerTerm v = Inr u \<longleftrightarrow> (\<exists>z. int_denotes v z \<and> i64_ok z \<and> u = rep_term (FInteger z))"
  by (auto simp: edge_integerTerm_def res_simps edge_decimal_iff i64_ok_def js_lit_def)

lemma edge_instantTerm_iff:
  "edge_instantTerm v w = Inr u \<longleftrightarrow>
     (\<exists>sec ns. int_denotes v sec \<and> i64_ok sec \<and> int_denotes w ns \<and> 0 \<le> ns \<and> ns \<le> 999999999 \<and> u = rep_term (FInstant sec ns))"
  by (auto simp: edge_instantTerm_def res_simps edge_decimal_iff i64_ok_def js_lit_def)

lemma edge_float64Term_core: "edge_float64Term (JNum b) = float64Term (JNum b)"
  by (simp add: edge_float64Term_def edge_floatBits_def float64Term_def floatBits_def js_lit_def)

lemma edge_dateTerm_core: "edge_dateTerm d = Inr u \<longleftrightarrow> dateTerm d = Inr u"
  by (auto simp: edge_dateTerm_def dateTerm_def Let_def edge_instantTerm_iff instantTerm_Inr_iff split: option.splits)

lemma edge_stringTerm_iff: "edge_stringTerm v = Inr u \<longleftrightarrow> (\<exists>s. v = JStr s \<and> u = rep_term (FString s))"
  by (auto simp: edge_stringTerm_def js_lit_def split: jsval.splits)

text \<open>Values that are neither text nor an array are taken to the same Term.\<close>

lemma edge_term_plain: "(\<forall>s. v \<noteq> JStr s) \<Longrightarrow> (\<forall>xs. v \<noteq> JArr xs) \<Longrightarrow> edge_term v = Inr u \<longleftrightarrow> toTerm v = Inr u"
  by (cases v) (auto simp: edge_term_def toTerm_def edge_integerTerm_iff integerTerm_Inr_iff edge_float64Term_core edge_dateTerm_core
      edge_booleanTerm_def booleanTerm_def js_lit_def)

lemma toTerm_plain_ok: "(\<forall>s. v \<noteq> JStr s) \<Longrightarrow> (\<forall>xs. v \<noteq> JArr xs) \<Longrightarrow> toTerm v = Inr u \<Longrightarrow> \<exists>t. denotes u t \<and> edge_ok t"
proof -
  assume v: "\<forall>s. v \<noteq> JStr s" "\<forall>xs. v \<noteq> JArr xs" and u: "toTerm v = Inr u"
  obtain t where t: "denotes u t" "u = v \<or> u = rep_term t" "term_ok t" using toTerm_sound [OF u] by blast
  have "\<not> denotes v t" for t using v(2) by (auto elim: denotes.cases)
  with t have "u = rep_term t" by auto
  moreover have "u \<noteq> rep_term (FKeyword s)" "u \<noteq> rep_term (FTriple a b c)" for s a b c
    using u v by (cases v; auto simp: toTerm_def integerTerm_Inr_iff float64Term_JNum booleanTerm_def dateTerm_def Let_def
        instantTerm_Inr_iff split: if_splits option.splits)+
  ultimately have "edge_ok t" using t(3) by (cases t) (auto simp: term_ok_def)
  with t(1) show ?thesis by blast
qed

lemma edge_term_agrees:
  "edge_term v = Inr u \<and> (\<exists>t. denotes u t) \<longleftrightarrow> toTerm v = Inr u \<and> (\<exists>t. denotes u t \<and> edge_ok t)"
proof (cases v)
  case (JArr xs)
  have "(\<exists>t. shape v t \<and> edge_ok t \<and> term_size t \<le> MAX_TERM_NODES \<and> term_depth t \<le> MAX_TERM_DEPTH) \<and> (\<exists>t. denotes v t) \<longleftrightarrow>
    (\<exists>t. denotes v t \<and> term_ok t) \<and> (\<exists>t. denotes v t \<and> edge_ok t)"
  proof (cases "\<exists>t. denotes v t")
    case True
    then obtain t where t: "denotes v t" "atom_ok t" using denotes_atom_ok by blast
    then have "shape v u \<longleftrightarrow> u = t" "denotes v u \<longleftrightarrow> u = t" for u
      using denotes_shape shape_unique by blast+
    with t(2) show ?thesis by (auto simp: term_ok_def)
  qed auto
  moreover have "edge_term v = Inr u \<longleftrightarrow> u = v \<and>
      (\<exists>t. shape v t \<and> edge_ok t \<and> term_size t \<le> MAX_TERM_NODES \<and> term_depth t \<le> MAX_TERM_DEPTH)"
    using JArr edge_validateTerm_iff [of v u] by (simp add: edge_term_def)
  moreover have "toTerm v = Inr u \<longleftrightarrow> u = v \<and> (\<exists>t. denotes v t \<and> term_ok t)"
    using JArr by (auto simp: toTerm_def res_simps validateTerm_fresh)
  ultimately show ?thesis by blast
next
  case (JStr s)
  have d: "denotes (rep_term (FString s)) t \<longleftrightarrow> t = FString s \<and> text_ok s" for t
    by (auto intro: denotes.string elim: denotes.cases)
  have e: "edge_term v = Inr u \<longleftrightarrow> u = rep_term (FString s)"
    using JStr by (simp only: edge_term_def jsval.case edge_stringTerm_iff) blast
  have c: "toTerm v = Inr u \<longleftrightarrow> u = rep_term (FString s) \<and> text_ok s"
    using JStr by (simp only: toTerm_def jsval.case stringTerm_Inr_iff) blast
  have ok: "edge_ok (FString s)" by simp
  show ?thesis
    unfolding e c using d ok by blast
qed (use edge_term_plain [of v u] toTerm_plain_ok [of v u] in auto)

end
