(* ===== verification/EdgeCalls.thy ===== *)
theory EdgeCalls
  imports EdgeTerms
begin

text \<open>
  The payloads of the JSON client and of the FRAMRPC client: where both clients make a payload for a call, they make the same one.
\<close>

section \<open>Agreement of two fallible computations\<close>

definition agree :: "'a res \<Rightarrow> 'a res \<Rightarrow> bool" where
  "agree m m' \<longleftrightarrow> (\<forall>a b. m = Inr a \<longrightarrow> m' = Inr b \<longrightarrow> a = b)"

named_theorems agrees

lemma agree_refl [agrees]: "agree m m"
  by (simp add: agree_def)

lemma agree_Inl [agrees]: "agree (Inl e) m" "agree m (Inl e)"
  by (simp_all add: agree_def)

lemma agreeD: "agree m m' \<Longrightarrow> m = Inr a \<Longrightarrow> m' = Inr b \<Longrightarrow> a = b"
  by (simp add: agree_def)

lemma agree_rbind: "agree m m' \<Longrightarrow> (\<And>x. m = Inr x \<Longrightarrow> m' = Inr x \<Longrightarrow> agree (f x) (g x)) \<Longrightarrow> agree (rbind m f) (rbind m' g)"
  by (auto simp: agree_def res_simps)

lemma agree_skip: "(\<And>x. m = Inr x \<Longrightarrow> agree (f x) m') \<Longrightarrow> agree (rbind m f) m'"
  by (auto simp: agree_def res_simps)

lemma agree_skip_right: "(\<And>x. m' = Inr x \<Longrightarrow> agree m (f x)) \<Longrightarrow> agree m (rbind m' f)"
  by (auto simp: agree_def res_simps)

lemma agree_if: "(b \<Longrightarrow> agree m m') \<Longrightarrow> (\<not> b \<Longrightarrow> agree n n') \<Longrightarrow> agree (if b then m else n) (if b then m' else n')"
  by simp

lemma agree_rmap: "(\<And>x. x \<in> set xs \<Longrightarrow> agree (f x) (g x)) \<Longrightarrow> agree (rmap f xs) (rmap g xs)"
  by (induction xs) (auto intro!: agree_rbind agrees)

section \<open>Constructors\<close>

lemma agree_term [agrees]: "agree (edge_term v) (toTerm v)"
  unfolding agree_def
proof (intro allI impI)
  fix a b assume e: "edge_term v = Inr a" and c: "toTerm v = Inr b"
  obtain t where t: "denotes b t" using toTerm_sound [OF c] by blast
  show "a = b"
  proof (cases v)
    case (JArr xs)
    with e c toTerm_JArr [of xs b] show ?thesis by (simp add: edge_term_def edge_validateTerm_iff)
  next
    case (JStr s)
    with e c show ?thesis by (simp add: edge_term_def toTerm_def edge_stringTerm_iff stringTerm_Inr_iff)
  qed (use e c edge_term_plain [of v a] in auto)
qed

lemma agree_kw [agrees]: "agree (edge_kw s) (keyword_lit s)"
  by (auto simp: agree_def edge_kw_def edge_keywordTerm_def keyword_lit_def keywordTerm_Inr_iff js_lit_def split: if_splits)

lemma agree_triple [agrees]: "agree (edge_tripleTerm a b c) (tripleTerm a b c)"
  unfolding edge_tripleTerm_def tripleTerm_def js_lit_def by (intro agree_rbind agrees)

lemma agree_integer [agrees]: "agree (edge_integerTerm v) (integerTerm v)"
  unfolding agree_def edge_integerTerm_iff integerTerm_Inr_iff using int_denotes_unique by blast

lemma agree_list [agrees]: "agree (edge_list vs) (rpcList vs)"
  unfolding edge_list_def rpcList_def
  by (induction vs) (simp_all only: foldr.simps id_apply comp_apply, (intro agree_rbind agrees | assumption)+)

lemma agree_record [agrees]: "agree (edge_record tag vs) (rpcRecord tag vs)"
  unfolding edge_record_def rpcRecord_def by (intro agree_rbind agrees)

lemma agree_option [agrees]: "agree (edge_option v) (rpcOption v)"
  unfolding edge_option_def rpcOption_def by (intro agree_if agree_rbind agrees)

lemma agree_keys [agrees]: "agree (edge_exactKeys v needed allowed) (exactKeys v allowed)"
  by (auto simp: agree_def edge_exactKeys_def exactKeys_def plainObject_def res_simps split: option.splits if_splits)

section \<open>Payloads\<close>

lemma agree_policy [agrees]: "agree (edge_policy v) (policy v)"
  unfolding edge_policy_def policy_def by (intro agrees)

lemma agree_write [agrees]: "agree (edge_writePayload p opts) (writePayload p opts)"
  unfolding edge_writePayload_def writePayload_def by (intro agree_rbind agrees)

lemma or_object_default: "or_object = default_options"
  by (simp add: fun_eq_iff or_object_def default_options_def)

lemma agree_scan [agrees]: "agree (edge_scanPayload (default_options v)) (scanPayload v)"
  unfolding edge_scanPayload_def scanPayload_def by (intro agree_rbind agrees)

lemma agree_as_of [agrees]: "agree (edge_asOf v) (asOfTerm v)"
  unfolding edge_asOf_def asOfTerm_def by (intro agree_rbind agrees)

lemma edge_exactKeys_Inr: "edge_exactKeys v needed allowed = Inr fs \<Longrightarrow> object_fields v = Some fs \<and> list_all (has_own fs) needed"
  by (auto simp: edge_exactKeys_def split: option.splits if_splits)

lemma agree_since:
  "agree
     (rbind (edge_exactKeys since [''lowerExclusive''] [''lowerExclusive'', ''upper'']) (\<lambda>fs.
      rbind (if \<not> has_own fs ''upper'' \<or> get_prop fs ''upper'' = js_lit ''current'' then edge_kw ''query/current''
             else edge_asOf (get_prop fs ''upper'')) (\<lambda>upper.
      rbind (edge_integerTerm (get_prop fs ''lowerExclusive'')) (\<lambda>i. edge_record ''query/since'' [i, upper]))))
     (rbind (required since ''lowerExclusive'') (\<lambda>lower.
      rbind (own_of since ''upper'') (\<lambda>hasUpper.
      rbind (member since ''upper'') (\<lambda>up.
      rbind (if \<not> hasUpper \<or> up = js_lit ''current'' then keyword_lit ''query/current'' else asOfTerm up) (\<lambda>upper.
      rbind (integerTerm lower) (\<lambda>i. rpcRecord ''query/since'' [i, upper]))))))"
proof (rule agree_skip)
  fix fs
  assume "edge_exactKeys since [''lowerExclusive''] [''lowerExclusive'', ''upper''] = Inr fs"
  then have "object_fields since = Some fs" "has_own fs ''lowerExclusive''"
    by (auto dest: edge_exactKeys_Inr)
  then have "since = JObj fs" by (cases since) (auto simp: object_fields_def has_own_def)
  then have "required since ''lowerExclusive'' = Inr (get_prop fs ''lowerExclusive'')"
    "own_of since ''upper'' = Inr (has_own fs ''upper'')" "member since ''upper'' = Inr (get_prop fs ''upper'')"
    using \<open>has_own fs ''lowerExclusive''\<close>
    by (simp_all add: required_def plainObject_def object_fields_def own_of_def member_def nullish_def)
  then show "agree
     (rbind (if \<not> has_own fs ''upper'' \<or> get_prop fs ''upper'' = js_lit ''current'' then edge_kw ''query/current''
             else edge_asOf (get_prop fs ''upper'')) (\<lambda>upper.
      rbind (edge_integerTerm (get_prop fs ''lowerExclusive'')) (\<lambda>i. edge_record ''query/since'' [i, upper])))
     (rbind (required since ''lowerExclusive'') (\<lambda>lower.
      rbind (own_of since ''upper'') (\<lambda>hasUpper.
      rbind (member since ''upper'') (\<lambda>up.
      rbind (if \<not> hasUpper \<or> up = js_lit ''current'' then keyword_lit ''query/current'' else asOfTerm up) (\<lambda>upper.
      rbind (integerTerm lower) (\<lambda>i. rpcRecord ''query/since'' [i, upper]))))))"
    by (simp only: rbind.simps) (intro agree_if agree_rbind agrees)
qed

lemma agree_snapshot [agrees]: "agree (edge_querySnapshot opts) (querySnapshot opts)"
  unfolding edge_querySnapshot_def querySnapshot_def Let_def
  by (rule agree_rbind [OF agree_refl])+
    (intro agree_if; rule agree_Inl agree_kw agree_rbind [OF agree_refl agree_as_of] agree_rbind [OF agree_refl agree_since])

lemma triple_array_source: "toTerm v = Inr p \<Longrightarrow> is_triple_array p \<Longrightarrow> truthy v"
  by (cases v) (auto simp: toTerm_def integerTerm_Inr_iff stringTerm_Inr_iff float64Term_JNum booleanTerm_def dateTerm_def
      instantTerm_Inr_iff Let_def is_triple_array_def js_lit_def truthy_def split: if_splits option.splits)

lemma agree_action [agrees]: "agree (edge_actionPayload v) (actionPayload v)"
  unfolding edge_actionPayload_def actionPayload_def
proof (rule agree_rbind [OF agree_keys])
  fix fs
  define pv where "pv = get_prop fs ''proposition''"
  define op where "op = (if get_prop fs ''op'' = js_lit ''retract'' then Some ''rpc/retract''
           else if get_prop fs ''op'' = js_lit ''assert'' then Some ''rpc/assert'' else None)"
  have op': "op = (if get_prop fs ''op'' = js_lit ''assert'' then Some ''rpc/assert''
           else if get_prop fs ''op'' = js_lit ''retract'' then Some ''rpc/retract'' else None)"
    by (simp add: op_def js_lit_def)
  have made: "agree (rbind (edge_kw x) (\<lambda>k. rbind (edge_policy e) (\<lambda>pol. edge_record ''rpc/action'' [k, p, pol])))
      (if \<not> is_triple_array p then fail ''client/invalid-action''
       else rbind (keyword_lit x) (\<lambda>k. rbind (policy e) (\<lambda>pol. rpcRecord ''rpc/action'' [k, p, pol])))" for x p e
  proof (cases "is_triple_array p")
    case True
    then show ?thesis by (simp only: not_True_eq_False if_False) (intro agree_rbind agrees)
  qed (simp add: agree_Inl)
  have chosen: "agree (rbind (if truthy pv then edge_term pv else tt) f)
      (rbind (if has_own fs ''proposition'' then toTerm pv else tt') (\<lambda>p. if \<not> is_triple_array p then fail ''client/invalid-action'' else g p))"
    if tt: "agree tt tt'" and fg: "\<And>p. agree (f p) (if \<not> is_triple_array p then fail ''client/invalid-action'' else g p)" for tt tt' f g
  proof (cases "has_own fs ''proposition'' \<longleftrightarrow> truthy pv")
    case True
    show ?thesis unfolding True by (intro agree_rbind agree_if agrees tt fg)
  next
    case False
    have "\<not> truthy JUndef" by (simp add: truthy_def)
    then have "has_own fs ''proposition''" "\<not> truthy pv"
      using False by (auto simp: pv_def get_prop_def has_own_def split: option.splits)
    then show ?thesis
      by (auto simp: agree_def res_simps dest: triple_array_source split: if_splits)
  qed
  show "agree
      (case (if get_prop fs ''op'' = js_lit ''retract'' then Some ''rpc/retract''
           else if get_prop fs ''op'' = js_lit ''assert'' then Some ''rpc/assert'' else None) of None \<Rightarrow> edgeFail
       | Some x \<Rightarrow> rbind (if truthy (get_prop fs ''proposition'') then edge_term (get_prop fs ''proposition'')
           else edge_tripleTerm (get_prop fs ''t1'') (get_prop fs ''t2'') (get_prop fs ''t3'')) (\<lambda>p.
         rbind (edge_kw x) (\<lambda>k. rbind (edge_policy (get_prop fs ''existing'')) (\<lambda>pol. edge_record ''rpc/action'' [k, p, pol]))))
      (let operation = (if get_prop fs ''op'' = js_lit ''assert'' then Some ''rpc/assert''
           else if get_prop fs ''op'' = js_lit ''retract'' then Some ''rpc/retract'' else None)
       in case operation of None \<Rightarrow> fail ''client/invalid-action''
       | Some x \<Rightarrow> rbind (if has_own fs ''proposition'' then toTerm (get_prop fs ''proposition'')
           else tripleTerm (get_prop fs ''t1'') (get_prop fs ''t2'') (get_prop fs ''t3'')) (\<lambda>p.
         if \<not> is_triple_array p then fail ''client/invalid-action''
         else rbind (keyword_lit x) (\<lambda>k. rbind (policy (get_prop fs ''existing'')) (\<lambda>pol. rpcRecord ''rpc/action'' [k, p, pol]))))"
    unfolding op_def [symmetric] op' [symmetric] Let_def pv_def [symmetric]
  proof (cases op)
    case (Some x)
    show "agree (case op of None \<Rightarrow> edgeFail
       | Some x \<Rightarrow> rbind (if truthy pv then edge_term pv
           else edge_tripleTerm (get_prop fs ''t1'') (get_prop fs ''t2'') (get_prop fs ''t3'')) (\<lambda>p.
         rbind (edge_kw x) (\<lambda>k. rbind (edge_policy (get_prop fs ''existing'')) (\<lambda>pol. edge_record ''rpc/action'' [k, p, pol]))))
      (case op of None \<Rightarrow> fail ''client/invalid-action''
       | Some x \<Rightarrow> rbind (if has_own fs ''proposition'' then toTerm pv
           else tripleTerm (get_prop fs ''t1'') (get_prop fs ''t2'') (get_prop fs ''t3'')) (\<lambda>p.
         if \<not> is_triple_array p then fail ''client/invalid-action''
         else rbind (keyword_lit x) (\<lambda>k. rbind (policy (get_prop fs ''existing'')) (\<lambda>pol. rpcRecord ''rpc/action'' [k, p, pol]))))"
      unfolding Some option.case by (intro chosen agree_triple made)
  qed (simp add: agree_Inl)
qed

lemma agree_query: "agree (rbind (edge_term q) (\<lambda>t. rbind (edge_querySnapshot opts) (\<lambda>s. edge_record ''query/request'' [t, s])))
  (queryPayload q opts)"
proof (cases q)
  case (JArr xs)
  have "agree (rbind (edge_term q) (\<lambda>t. rbind (edge_querySnapshot opts) (\<lambda>s. edge_record ''query/request'' [t, s])))
    (rbind (toTerm q) (\<lambda>t. rbind (rawRecordFields t ''query/plan'' 4) (\<lambda>_.
       rbind (querySnapshot opts) (\<lambda>s. rpcRecord ''query/request'' [t, s]))))"
    by (intro agree_rbind agree_skip_right agrees)
  with JArr show ?thesis by (simp add: queryPayload_def is_array_def)
qed (simp_all add: queryPayload_def is_array_def lowerQueryPlan_def plainObject_def object_fields_def edge_term_def agree_def)

section \<open>Calls\<close>

text \<open>The same call on the FRAMRPC client.\<close>

fun core_of :: "edge_method \<Rightarrow> method_call" where
  "core_of (EVersion opts) = MVersion opts"
| "core_of (EStatus opts) = MStatus opts"
| "core_of (EValidate opts) = MValidate opts"
| "core_of (EOccurrences opts) = MOccurrences opts"
| "core_of (EScan pattern opts) = MScan pattern opts"
| "core_of (EQuery plan opts) = MQuery plan opts"
| "core_of (EAssert a b c opts) = MAssert a b c opts"
| "core_of (ERetract a b c opts) = MRetract a b c opts"
| "core_of (EBatch actions opts) = MBatch actions opts"
| "core_of (ELeaseAcquire resource holder ttl opts) = MLeaseAcquire resource holder ttl opts"
| "core_of (ELeaseRenew fence ttl opts) = MLeaseRenew fence ttl opts"
| "core_of (ELeaseRelease fence opts) = MLeaseRelease fence opts"
| "core_of (ELeaseCheck fence opts) = MLeaseCheck fence opts"


lemma agree_writing: "agree (rbind (edge_tripleTerm x y z) (\<lambda>t. edge_writePayload t opts))
    (rbind (tripleTerm x y z) (\<lambda>t. writePayload t opts))"
  by (intro agree_rbind agrees)

text \<open>The request of a method, and the payload and operation of the same method of the other client.\<close>

lemma plain_payload:
  assumes "rbind e (\<lambda>p. Inr (path', op', p, opts')) = Inr (path, op, p, opts)" "plain_call op' opts'' f = Inr a" "agree e f"
  shows "ca_operation a = op \<and> ca_payload a = p"
  using assms by (auto simp: plain_call_def res_simps dest: agreeD [OF assms(3)])

lemma agree_batch:
  assumes "edge_call (EBatch actions opts) = Inr (path, op, p, opts')" "prepareBatch actions (default_options opts) b = Inr q"
  shows "op = ''rpc/batch'' \<and> bt_payload q = p"
proof -
  from assms(1) obtain as where as: "actions = JArr as" by (cases actions) (auto simp: array_items_def)
  from assms(2) obtain fs where fs: "object_fields (default_options opts) = Some fs"
    by (auto simp: as prepareBatch_def exactKeys_def plainObject_def res_simps split: list.splits if_splits option.splits)
  have mem: "member (or_object opts) ''fence'' = Inr (get_prop fs ''fence'')"
    using fs by (cases opts) (auto simp: default_options_def or_object_def object_fields_def member_def nullish_def)
  have "agree (rbind (rmap edge_actionPayload as) (\<lambda>ps. rbind (edge_list ps) (\<lambda>l.
      rbind (edge_option (get_prop fs ''fence'')) (\<lambda>fence. edge_record ''rpc/batch'' [l, fence]))))
    (rbind (rmap actionPayload as) (\<lambda>ps. rbind (rpcList ps) (\<lambda>l.
      rbind (rpcOption (get_prop fs ''fence'')) (\<lambda>fence. rpcRecord ''rpc/batch'' [l, fence]))))"
    by (intro agree_rbind agree_rmap agrees)
  moreover have "rbind (rmap edge_actionPayload as) (\<lambda>ps. rbind (edge_list ps) (\<lambda>l.
      rbind (edge_option (get_prop fs ''fence'')) (\<lambda>fence. edge_record ''rpc/batch'' [l, fence]))) = Inr p" "op = ''rpc/batch''"
    using assms(1) by (auto simp: as array_items_def mem res_simps)
  moreover have "rbind (rmap actionPayload as) (\<lambda>ps. rbind (rpcList ps) (\<lambda>l.
      rbind (rpcOption (get_prop fs ''fence'')) (\<lambda>fence. rpcRecord ''rpc/batch'' [l, fence]))) = Inr (bt_payload q)"
    using assms(2) fs by (auto simp: as prepareBatch_def exactKeys_def plainObject_def res_simps Let_def split: list.splits if_splits)
  ultimately show ?thesis by (auto dest: agreeD)
qed

lemma agree_unit: "agree (edge_kw ''rpc/unit'') (Inr (kw ''rpc/unit''))"
  using agree_kw [of "''rpc/unit''"] by (simp add: name_ok_def ascii_def)

lemma edge_call_plain:
  "edge_call (EQuery q x) = rbind (rbind (edge_term q) (\<lambda>t. rbind (edge_querySnapshot (or_object x)) (\<lambda>s.
     edge_record ''query/request'' [t, s]))) (\<lambda>p. Inr (''/q'', ''rpc/query'', p, or_object x))"
  "edge_call (EAssert a b c x) = rbind (rbind (edge_tripleTerm a b c) (\<lambda>t. edge_writePayload t (or_object x)))
     (\<lambda>p. Inr (''/assert'', ''rpc/assert'', p, or_object x))"
  "edge_call (ERetract a b c x) = rbind (rbind (edge_tripleTerm a b c) (\<lambda>t. edge_writePayload t (or_object x)))
     (\<lambda>p. Inr (''/assert'', ''rpc/retract'', p, or_object x))"
  "edge_call (ELeaseAcquire resource holder ttl x) = rbind (rbind (edge_term resource) (\<lambda>r. rbind (edge_term holder) (\<lambda>h.
     rbind (edge_integerTerm ttl) (\<lambda>i. edge_record ''lease/acquire'' [r, h, i]))))
     (\<lambda>p. Inr (''/assert'', ''rpc/lease-acquire'', p, or_object x))"
  "edge_call (ELeaseRenew fence ttl x) = rbind (rbind (edge_term fence) (\<lambda>f. rbind (edge_integerTerm ttl) (\<lambda>i.
     edge_record ''lease/renew'' [f, i]))) (\<lambda>p. Inr (''/assert'', ''rpc/lease-renew'', p, or_object x))"
  by (simp_all add: rbind_assoc edge_write_def)

lemma agree_leases:
  "agree (rbind (edge_term resource) (\<lambda>r. rbind (edge_term holder) (\<lambda>h. rbind (edge_integerTerm ttl) (\<lambda>i.
       edge_record ''lease/acquire'' [r, h, i]))))
     (rbind (toTerm resource) (\<lambda>r. rbind (toTerm holder) (\<lambda>h. rbind (integerTerm ttl) (\<lambda>t.
       rpcRecord ''lease/acquire'' [r, h, t]))))"
  "agree (rbind (edge_term fence) (\<lambda>f. rbind (edge_integerTerm ttl) (\<lambda>i. edge_record ''lease/renew'' [f, i])))
     (rbind (toTerm fence) (\<lambda>f. rbind (integerTerm ttl) (\<lambda>t. rpcRecord ''lease/renew'' [f, t])))"
  by (intro agree_rbind agrees)+

lemmas call_payloads = agree_unit agree_scan agree_query agree_writing agree_leases agree_term

lemma agree_call:
  assumes "edge_call m = Inr (path, op, p, opts)" "method_args (core_of m) = Inr a"
  shows "ca_operation a = op \<and> ca_payload a = p"
proof (cases "\<exists>actions x. m = EBatch actions x")
  case True
  then obtain actions x where m: "m = EBatch actions x" by blast
  with assms(2) obtain q where "prepareBatch actions (default_options x) True = Inr q"
    "ca_operation a = ''rpc/batch''" "ca_payload a = bt_payload q"
    by (auto simp: res_simps)
  with agree_batch [OF assms(1) [unfolded m]] show ?thesis by simp
next
  case False
  note calls = edge_call_plain edge_call.simps(1-5,12,13)
  note e = assms(1) and c = assms(2)
  show ?thesis
  proof (cases m)
    case (EBatch actions x)
    with False show ?thesis by blast
  qed ((insert e c, simp only: core_of.simps method_args.simps calls or_object_default, erule (1) plain_payload, rule call_payloads)[1])+
qed

end
