(* ===== verification/EdgeReplies.thy ===== *)
theory EdgeReplies
  imports EdgeCalls
begin

text \<open>
  What the JSON client puts on the wire and takes from it: the body of a request, read back as JSON, holds the same Terms and
  numbers, and the replies it accepts are exactly checked.
\<close>

section \<open>Texts of Terms\<close>

lemma text_of_integer: "int_denotes v z \<Longrightarrow> json_text v = Inr s \<Longrightarrow> \<exists>w. reads s w \<and> int_denotes w z"
  using reads_string [of "int_text z"] reads_integer by (fastforce simp: int_denotes_def)

lemma reads_tagged: "reads x v \<Longrightarrow> reads (91 # json_quote t @ 44 # x @ [93]) (JArr [JStr t, v])"
  using reads_array [of "[json_quote t, x]" "[JStr t, v]"] reads_string by simp

lemma reads_tagged2:
  "reads x v \<Longrightarrow> reads y w \<Longrightarrow> reads (91 # json_quote t @ 44 # x @ 44 # y @ [93]) (JArr [JStr t, v, w])"
  using reads_array [of "[json_quote t, x, y]" "[JStr t, v, w]"] reads_string by simp

lemma reads_tagged3:
  "reads x v \<Longrightarrow> reads y w \<Longrightarrow> reads z u \<Longrightarrow>
    reads (91 # json_quote t @ 44 # x @ 44 # y @ 44 # z @ [93]) (JArr [JStr t, v, w, u])"
  using reads_array [of "[json_quote t, x, y, z]" "[JStr t, v, w, u]"] reads_string by simp

text \<open>\<open>JSON.stringify\<close> may write a number where the caller's array held one; the Term is the same.\<close>

lemma text_of_shape: "shape v t \<Longrightarrow> json_text v = Inr s \<Longrightarrow> \<exists>w. reads s w \<and> shape w t"
proof (induction arbitrary: s rule: shape.induct)
  case (integer v z)
  then obtain x where x: "json_text v = Inr x" "s = 91 # json_quote (js ''integer'') @ 44 # x @ [93]" by (auto simp: res_simps)
  with text_of_integer [OF integer(1) x(1)] show ?case using reads_tagged shape.integer by blast
next
  case (instant v sec w ns)
  then obtain x y where x: "json_text v = Inr x" "json_text w = Inr y"
    "s = 91 # json_quote (js ''instant'') @ 44 # x @ 44 # y @ [93]" by (auto simp: res_simps)
  with text_of_integer [OF instant(1) x(1)] text_of_integer [OF instant(2) x(2)]
  show ?case using reads_tagged2 shape.instant by blast
next
  case (triple a t1 b t2 c t3)
  then obtain x y z where x: "json_text a = Inr x" "json_text b = Inr y" "json_text c = Inr z"
    "s = 91 # json_quote (js ''triple'') @ 44 # x @ 44 # y @ 44 # z @ [93]" by (auto simp: res_simps)
  from triple.IH(1) [OF x(1)] triple.IH(2) [OF x(2)] triple.IH(3) [OF x(3)] x(4)
  show ?case using reads_tagged3 shape.triple by blast
next
  case (boolean b)
  then have "s = 91 # json_quote (js ''boolean'') @ 44 # js (if b then ''true'' else ''false'') @ [93]" by simp
  then show ?case using reads_tagged [OF reads_bool] shape.boolean by blast
qed (auto intro!: exI conjI reads_tagged reads_string shape.intros)

lemma edge_term_shape: "edge_term v = Inr u \<Longrightarrow> \<exists>t. shape u t \<and> edge_ok t"
proof (cases v)
  case (JArr xs)
  assume "edge_term v = Inr u"
  with JArr show ?thesis by (auto simp: edge_term_def edge_validateTerm_iff)
next
  case (JStr s)
  assume "edge_term v = Inr u"
  with JStr have "u = rep_term (FString s)" by (simp only: edge_term_def jsval.case edge_stringTerm_iff) blast
  then show ?thesis using shape_rep [of "FString s"] by auto
qed (use edge_term_plain [of v u] toTerm_plain_ok [of v u] denotes_shape in blast)+

section \<open>Requests\<close>

lemma map_sum_res: "map_sum id f m = Inr y \<longleftrightarrow> (\<exists>x. m = Inr x \<and> y = f x)"
  by (cases m) auto

lemma member_text_Inr:
  "member_text k (optional_text f x) = Inr l \<longleftrightarrow> x = None \<and> l = [] \<or> (\<exists>y s. x = Some y \<and> f y = Inr s \<and> l = [(js k, s)])"
  by (cases x) (auto simp: member_text_def optional_text_def res_simps map_sum_res)

text \<open>An optional property of an object.\<close>

definition opt_prop :: "string \<Rightarrow> 'a option \<Rightarrow> (jstr \<times> 'a) list" where
  "opt_prop k x = (case x of None \<Rightarrow> [] | Some v \<Rightarrow> [(js k, v)])"

lemma opt_prop_simps [simp]: "opt_prop k None = []" "opt_prop k (Some v) = [(js k, v)]"
  by (simp_all add: opt_prop_def)

abbreviation member_reads :: "jstr \<times> jstr \<Rightarrow> jstr \<times> jsval \<Rightarrow> bool" where
  "member_reads \<equiv> \<lambda>(k, t) (k', v). k' = k \<and> reads t v"

lemma opt_prop_reads: "rel_option reads x y \<Longrightarrow> list_all2 member_reads (opt_prop k x) (opt_prop k y)"
  by (cases x; cases y) auto

lemma member_text_opt: "member_text k m = Inr l \<longleftrightarrow> (\<exists>x. m = Inr x \<and> l = opt_prop k x)"
  by (auto simp: member_text_def res_simps opt_prop_def)

lemma optional_text_Inr: "optional_text f x = Inr y \<longleftrightarrow> rel_option (\<lambda>a b. f a = Inr b) x y"
  by (cases x; cases y) (auto simp: optional_text_def map_sum_res)

lemma optional_of_Inr: "optional_of f v = Inr y \<longleftrightarrow> v = JUndef \<and> y = None \<or> v \<noteq> JUndef \<and> (\<exists>x. f v = Inr x \<and> y = Some x)"
  by (auto simp: optional_of_def map_sum_res)

text \<open>An optional Term: the text read back has the same shape.\<close>

definition same_term :: "jsval \<Rightarrow> jsval \<Rightarrow> bool" where
  "same_term v w \<longleftrightarrow> (\<exists>t. shape v t \<and> shape w t)"

lemma term_text_read: "edge_term v = Inr u \<Longrightarrow> json_text u = Inr s \<Longrightarrow> \<exists>w. reads s w \<and> same_term u w"
  unfolding same_term_def using edge_term_shape text_of_shape by blast

lemma optional_term_read:
  assumes "optional_text json_text c = Inr s" "\<forall>u. c = Some u \<longrightarrow> (\<exists>v. edge_term v = Inr u)"
  shows "\<exists>w. rel_option reads s w \<and> rel_option same_term c w"
proof (cases c)
  case (Some u)
  with assms obtain v x where "edge_term v = Inr u" "json_text u = Inr x" "s = Some x"
    by (auto simp: optional_text_Inr option_rel_Some1)
  with term_text_read [of v u x] Some show ?thesis by (metis option.rel_inject(2))
qed (use assms in \<open>auto simp: optional_text_Inr\<close>)

definition page_reads :: "edge_page \<Rightarrow> jsval \<Rightarrow> bool" where
  "page_reads p w \<longleftrightarrow> (\<exists>c. rel_option same_term (eg_cursor p) c \<and> w = JObj ((js ''limit'', JStr (eg_limit p)) # opt_prop ''cursor'' c))"

lemma page_text_read:
  assumes "page_text p = Inr s" "\<forall>u. eg_cursor p = Some u \<longrightarrow> (\<exists>v. edge_term v = Inr u)"
  shows "\<exists>w. reads s w \<and> page_reads p w"
proof -
  from assms(1) obtain c where c: "optional_text json_text (eg_cursor p) = Inr c"
    "s = json_object ((js ''limit'', json_quote (eg_limit p)) # opt_prop ''cursor'' c)"
    by (auto simp: page_text_def res_simps member_text_opt)
  from optional_term_read [OF c(1) assms(2)] obtain w where w: "rel_option reads c w" "rel_option same_term (eg_cursor p) w" by blast
  have "reads s (JObj ((js ''limit'', JStr (eg_limit p)) # opt_prop ''cursor'' w))"
    unfolding c(2) by (rule reads_object) (use opt_prop_reads [OF w(1)] reads_string in \<open>auto simp: opt_prop_def split: option.splits\<close>)
  with w(2) show ?thesis unfolding page_reads_def by blast
qed

text \<open>The body of a request, read back.\<close>

lemma request_text_read:
  assumes "request_text q = Inr body" "edge_term x = Inr (eq_payload q)"
    "\<forall>p u. eq_page q = Some p \<longrightarrow> eg_cursor p = Some u \<longrightarrow> (\<exists>v. edge_term v = Inr u)"
  shows "\<exists>w pg. json_parse body = Inr (JObj ([(js ''space'', JStr (eq_space q)), (js ''op'', JStr (eq_op q)), (js ''payload'', w)] @
      opt_prop ''expectedVersion'' (map_option JStr (eq_expectedVersion q)) @ opt_prop ''page'' pg @
      opt_prop ''timeoutMs'' (map_option JStr (eq_timeoutMs q)))) \<and>
    same_term (eq_payload q) w \<and> rel_option page_reads (eq_page q) pg"
proof -
  from assms(1) obtain p pt where p: "json_text (eq_payload q) = Inr p" "optional_text page_text (eq_page q) = Inr pt"
    "body = json_object ([(js ''space'', json_quote (eq_space q)), (js ''op'', json_quote (eq_op q)), (js ''payload'', p)] @
       opt_prop ''expectedVersion'' (map_option json_quote (eq_expectedVersion q)) @ opt_prop ''page'' pt @
       opt_prop ''timeoutMs'' (map_option json_quote (eq_timeoutMs q)))"
    by (auto simp: request_text_def res_simps member_text_opt)
  from term_text_read [OF assms(2) p(1)] obtain w where w: "reads p w" "same_term (eq_payload q) w" by blast
  have "\<exists>pg. rel_option reads pt pg \<and> rel_option page_reads (eq_page q) pg"
  proof (cases "eq_page q")
    case (Some pg)
    with p(2) obtain s where "page_text pg = Inr s" "pt = Some s" by (auto simp: optional_text_Inr option_rel_Some1)
    with page_text_read [of pg s] assms(3) Some show ?thesis by (metis option.rel_inject(2))
  qed (use p(2) in \<open>auto simp: optional_text_Inr\<close>)
  then obtain pg where pg: "rel_option reads pt pg" "rel_option page_reads (eq_page q) pg" by blast
  have quoted: "rel_option reads (map_option json_quote y) (map_option JStr y)" for y
    by (cases y) (simp_all add: reads_string)
  have "reads body (JObj ([(js ''space'', JStr (eq_space q)), (js ''op'', JStr (eq_op q)), (js ''payload'', w)] @
      opt_prop ''expectedVersion'' (map_option JStr (eq_expectedVersion q)) @ opt_prop ''page'' pg @
      opt_prop ''timeoutMs'' (map_option JStr (eq_timeoutMs q))))"
    unfolding p(3)
  proof (rule reads_object)
    show "list_all2 member_reads
      ([(js ''space'', json_quote (eq_space q)), (js ''op'', json_quote (eq_op q)), (js ''payload'', p)] @
       opt_prop ''expectedVersion'' (map_option json_quote (eq_expectedVersion q)) @ opt_prop ''page'' pt @
       opt_prop ''timeoutMs'' (map_option json_quote (eq_timeoutMs q)))
      ([(js ''space'', JStr (eq_space q)), (js ''op'', JStr (eq_op q)), (js ''payload'', w)] @
       opt_prop ''expectedVersion'' (map_option JStr (eq_expectedVersion q)) @ opt_prop ''page'' pg @
       opt_prop ''timeoutMs'' (map_option JStr (eq_timeoutMs q)))"
      by (intro list_all2_appendI opt_prop_reads quoted pg(1)) (simp add: reads_string w(1))
  qed (auto simp: opt_prop_def split: option.splits)
  with w(2) pg(2) json_parse_reads show ?thesis by blast
qed

text \<open>What an option of a call becomes in the body: nothing when it is undefined.\<close>

definition sent_as :: "(jsval \<Rightarrow> jsval \<Rightarrow> bool) \<Rightarrow> jsval \<Rightarrow> (jstr \<times> jsval) list \<Rightarrow> string \<Rightarrow> bool" where
  "sent_as R v fs k \<longleftrightarrow> (if v = JUndef then \<not> has_own fs k else has_own fs k \<and> R v (get_prop fs k))"

definition number_sent :: "int \<Rightarrow> int \<Rightarrow> jsval \<Rightarrow> jsval \<Rightarrow> bool" where
  "number_sent lo hi v w \<longleftrightarrow> (\<exists>z. int_denotes v z \<and> lo \<le> z \<and> z \<le> hi \<and> w = JStr (int_text z))"

definition term_sent :: "jsval \<Rightarrow> jsval \<Rightarrow> bool" where
  "term_sent v w \<longleftrightarrow> (\<exists>u t. edge_term v = Inr u \<and> shape u t \<and> edge_ok t \<and> shape w t)"

definition page_sent :: "jsval \<Rightarrow> jsval \<Rightarrow> bool" where
  "page_sent v w \<longleftrightarrow>
     (\<exists>vs ws. object_fields v = Some vs \<and> w = JObj ws \<and>
        number_sent 1 U32_MAX (get_prop vs ''limit'') (get_prop ws ''limit'') \<and> sent_as term_sent (get_prop vs ''cursor'') ws ''cursor'')"

lemma term_sent_same: "edge_term v = Inr u \<Longrightarrow> same_term u w \<Longrightarrow> term_sent v w"
  unfolding term_sent_def same_term_def using edge_term_shape shape_unique by blast

lemma number_of_option:
  "optional_of (edge_decimal lo hi) v = Inr y \<Longrightarrow>
     (if v = JUndef then y = None else \<exists>s. y = Some s \<and> number_sent lo hi v (JStr s))"
  by (auto simp: optional_of_Inr edge_decimal_iff number_sent_def)

lemma page_of_option:
  assumes "edge_pageRequest v = Inr p" "page_reads p w"
  shows "page_sent v w \<and> (\<forall>u. eg_cursor p = Some u \<longrightarrow> (\<exists>v. edge_term v = Inr u))"
proof -
  from assms(1) obtain vs l c where v: "object_fields v = Some vs" "edge_decimal 1 U32_MAX (get_prop vs ''limit'') = Inr l"
    "optional_of edge_term (get_prop vs ''cursor'') = Inr c" "p = \<lparr>eg_limit = l, eg_cursor = c\<rparr>"
    by (auto simp: edge_pageRequest_def res_simps dest: edge_exactKeys_Inr)
  from assms(2) v(4) obtain d where d: "rel_option same_term c d" "w = JObj ((js ''limit'', JStr l) # opt_prop ''cursor'' d)"
    by (auto simp: page_reads_def)
  have "number_sent 1 U32_MAX (get_prop vs ''limit'') (JStr l)" using v(2) by (auto simp: edge_decimal_iff number_sent_def)
  moreover have "sent_as term_sent (get_prop vs ''cursor'') ((js ''limit'', JStr l) # opt_prop ''cursor'' d) ''cursor''"
    using v(3) d(1) term_sent_same by (cases d) (auto simp: sent_as_def optional_of_Inr)
  moreover have "\<forall>u. c = Some u \<longrightarrow> (\<exists>v. edge_term v = Inr u)" using v(3) by (auto simp: optional_of_Inr)
  ultimately show ?thesis using v d(2) unfolding page_sent_def by auto
qed

lemma page_cursor: "edge_pageRequest v = Inr p \<Longrightarrow> eg_cursor p = Some u \<Longrightarrow> \<exists>v. edge_term v = Inr u"
  by (auto simp: edge_pageRequest_def res_simps optional_of_Inr)

definition body_of :: "edge_client \<Rightarrow> string \<Rightarrow> jsval \<Rightarrow> jsval \<Rightarrow> (jstr \<times> jsval) list \<Rightarrow> bool" where
  "body_of c op payload opts fs \<longleftrightarrow>
     get_prop fs ''space'' = JStr (ec_space c) \<and> get_prop fs ''op'' = js_lit op \<and> term_sent payload (get_prop fs ''payload'') \<and>
     (\<exists>ver pg ms. member opts ''expectedVersion'' = Inr ver \<and> member opts ''page'' = Inr pg \<and> member opts ''timeoutMs'' = Inr ms \<and>
        sent_as (number_sent 0 I64_MAX) ver fs ''expectedVersion'' \<and> sent_as page_sent pg fs ''page'' \<and>
        sent_as (number_sent 0 U32_MAX) ms fs ''timeoutMs'')"

lemma send_read:
  assumes "edge_send c m = Inr (path, op, body)"
  shows "\<exists>payload opts fs. edge_call m = Inr (path, op, payload, opts) \<and> json_parse body = Inr (JObj fs) \<and>
    body_of c op payload opts fs"
proof -
  from assms obtain payload opts q where c: "edge_call m = Inr (path, op, payload, opts)"
    "edge_requestOf (ec_space c) op payload opts = Inr q" "request_text q = Inr body"
    by (auto simp: edge_send_def res_simps)
  from c(2) obtain p v1 v2 v3 ver pg ms where q: "edge_term payload = Inr p"
    "member opts ''expectedVersion'' = Inr v1" "optional_of (edge_decimal 0 I64_MAX) v1 = Inr ver"
    "member opts ''page'' = Inr v2" "optional_of edge_pageRequest v2 = Inr pg"
    "member opts ''timeoutMs'' = Inr v3" "optional_of (edge_decimal 0 U32_MAX) v3 = Inr ms"
    "q = \<lparr>eq_space = ec_space c, eq_op = js op, eq_payload = p, eq_expectedVersion = ver, eq_page = pg, eq_timeoutMs = ms\<rparr>"
    by (auto simp: edge_requestOf_def res_simps)
  have cur: "\<forall>p u. pg = Some p \<longrightarrow> eg_cursor p = Some u \<longrightarrow> (\<exists>v. edge_term v = Inr u)"
    using q(5) page_cursor by (auto simp: optional_of_Inr)
  obtain w pw where w: "json_parse body = Inr (JObj ([(js ''space'', JStr (ec_space c)), (js ''op'', JStr (js op)), (js ''payload'', w)] @
      opt_prop ''expectedVersion'' (map_option JStr ver) @ opt_prop ''page'' pw @ opt_prop ''timeoutMs'' (map_option JStr ms)))"
    "same_term p w" "rel_option page_reads pg pw"
    using request_text_read [OF c(3), of payload] q(1,8) cur by auto
  define fs where "fs = [(js ''space'', JStr (ec_space c)), (js ''op'', JStr (js op)), (js ''payload'', w)] @
      opt_prop ''expectedVersion'' (map_option JStr ver) @ opt_prop ''page'' pw @ opt_prop ''timeoutMs'' (map_option JStr ms)"
  have "get_prop fs ''space'' = JStr (ec_space c)" "get_prop fs ''op'' = js_lit op" "get_prop fs ''payload'' = w"
    by (simp_all add: fs_def js_lit_def)
  moreover have "sent_as (number_sent 0 I64_MAX) v1 fs ''expectedVersion''"
    using number_of_option [OF q(3)] by (cases ver; cases pw; cases ms) (auto simp: sent_as_def fs_def split: if_splits)
  moreover have "sent_as (number_sent 0 U32_MAX) v3 fs ''timeoutMs''"
    using number_of_option [OF q(7)] by (cases ver; cases pw; cases ms) (auto simp: sent_as_def fs_def split: if_splits)
  moreover have "sent_as page_sent v2 fs ''page''"
  proof (cases pw)
    case None
    with w(3) q(5) have "v2 = JUndef" by (auto simp: optional_of_Inr)
    with None show ?thesis by (cases ver; cases ms) (simp_all add: sent_as_def fs_def)
  next
    case (Some x)
    with w(3) q(5) obtain p' where p': "v2 \<noteq> JUndef" "edge_pageRequest v2 = Inr p'" "page_reads p' x"
      by (auto simp: optional_of_Inr)
    have "get_prop fs ''page'' = x" "has_own fs ''page''" using Some by (cases ver; simp add: fs_def)+
    with p'(1) page_of_option [OF p'(2,3)] show ?thesis by (simp add: sent_as_def)
  qed
  ultimately have "body_of c op payload opts fs"
    unfolding body_of_def using q(2,4,6) term_sent_same [OF q(1) w(2)] by auto
  with c(1) w(1) show ?thesis unfolding fs_def by blast
qed

section \<open>Replies\<close>

text \<open>The fields of a reply about a request: its space and operation, a version, and Terms within the limits.\<close>

definition checked_term :: "(jstr \<times> jsval) list \<Rightarrow> string \<Rightarrow> bool" where
  "checked_term fs k \<longleftrightarrow>
     (has_own fs k \<longrightarrow>
       (\<exists>t. shape (get_prop fs k) t \<and> edge_ok t \<and> term_size t \<le> MAX_TERM_NODES \<and> term_depth t \<le> MAX_TERM_DEPTH))"

definition number_in :: "int \<Rightarrow> int \<Rightarrow> jsval \<Rightarrow> bool" where
  "number_in lo hi v \<longleftrightarrow> (\<exists>z. int_denotes v z \<and> lo \<le> z \<and> z \<le> hi)"

definition page_checked :: "jsval \<Rightarrow> bool" where
  "page_checked v \<longleftrightarrow>
     (\<exists>ps. object_fields v = Some ps \<and> number_in 0 U32_MAX (get_prop ps ''ordinal'') \<and> (\<exists>b. get_prop ps ''done'' = JBool b) \<and>
        checked_term ps ''nextCursor'')"

definition error_checked :: "jsval \<Rightarrow> bool" where
  "error_checked v \<longleftrightarrow>
     (\<exists>es s. object_fields v = Some es \<and> get_prop es ''code'' = JStr s \<and> KEYWORD s \<and> (\<exists>b. get_prop es ''retryable'' = JBool b) \<and>
        (\<exists>m. get_prop es ''message'' = JStr m) \<and> checked_term es ''detail'')"

definition reply_checked :: "jstr \<Rightarrow> string \<Rightarrow> (jstr \<times> jsval) list \<Rightarrow> bool" where
  "reply_checked space op fs \<longleftrightarrow>
     get_prop fs ''space'' = JStr space \<and> get_prop fs ''op'' = js_lit op \<and> number_in 0 I64_MAX (get_prop fs ''servedVersion'') \<and>
     (has_own fs ''page'' \<longrightarrow> page_checked (get_prop fs ''page'')) \<and> (has_own fs ''error'' \<longrightarrow> error_checked (get_prop fs ''error'')) \<and>
     checked_term fs ''payload''"

text \<open>Only the properties of a list.\<close>

definition only_keys :: "string list \<Rightarrow> (jstr \<times> jsval) list \<Rightarrow> bool" where
  "only_keys ks fs \<longleftrightarrow> list_all (\<lambda>(k, _). k \<in> set (map js ks)) fs"

lemma decimal_in: "edge_decimal lo hi v = Inr s \<Longrightarrow> number_in lo hi v"
  by (auto simp: edge_decimal_iff number_in_def)

lemma in_decimal: "number_in lo hi v \<Longrightarrow> \<exists>s. edge_decimal lo hi v = Inr s"
  by (auto simp: edge_decimal_iff number_in_def)

lemma validate_checked: "edge_validateTerm (get_prop fs k) = Inr u \<Longrightarrow> checked_term fs k"
  unfolding edge_validateTerm_iff checked_term_def by blast

lemma checked_validate: "checked_term fs k \<Longrightarrow> has_own fs k \<Longrightarrow> edge_validateTerm (get_prop fs k) = Inr (get_prop fs k)"
  unfolding edge_validateTerm_iff checked_term_def by blast

lemma optional_check: "(if has_own fs k then map_sum id (\<lambda>_. ()) (edge_validateTerm (get_prop fs k)) else Inr ()) = Inr () \<longleftrightarrow> checked_term fs k"
proof (cases "has_own fs k")
  case True
  show ?thesis
  proof (cases "edge_validateTerm (get_prop fs k)")
    case (Inl e)
    with checked_validate [of fs k] True show ?thesis by auto
  next
    case (Inr u)
    with validate_checked [OF Inr] True show ?thesis by simp
  qed
qed (simp add: checked_term_def)

lemma exactKeys_iff:
  "edge_exactKeys v needed allowed = Inr fs \<longleftrightarrow> object_fields v = Some fs \<and> list_all (has_own fs) needed \<and> only_keys allowed fs"
  by (auto simp: edge_exactKeys_def only_keys_def split: option.splits)

lemma bool_case: "(case v of JBool b \<Rightarrow> m | _ \<Rightarrow> edgeFail) = Inr y \<longleftrightarrow> (\<exists>b. v = JBool b) \<and> m = Inr y"
  by (cases v) simp_all

lemma error_case:
  "(case (a, b, c) of (JStr s, JBool _, JStr _) \<Rightarrow> f s | _ \<Rightarrow> edgeFail) = Inr y \<longleftrightarrow>
     (\<exists>s. a = JStr s \<and> (\<exists>r. b = JBool r) \<and> (\<exists>m. c = JStr m) \<and> f s = Inr y)"
  by (cases a; cases b; cases c) simp_all

lemma keyword_check: "(if \<not> KEYWORD s then edgeFail else m) = Inr y \<longleftrightarrow> KEYWORD s \<and> m = Inr y"
  by simp

lemma responsePage_iff:
  "edge_responsePage v = Inr () \<longleftrightarrow>
     page_checked v \<and> (\<exists>ps. object_fields v = Some ps \<and> list_all (has_own ps) [''ordinal'', ''done''] \<and> only_keys [''ordinal'', ''done'', ''nextCursor''] ps)"
  unfolding page_checked_def edge_responsePage_def rbind_Inr_iff exactKeys_iff bool_case optional_check
  using decimal_in in_decimal by auto

lemma responseError_iff:
  "edge_responseError v = Inr () \<longleftrightarrow>
     error_checked v \<and> (\<exists>es. object_fields v = Some es \<and> list_all (has_own es) [''code'', ''retryable'', ''message''] \<and>
       only_keys [''code'', ''retryable'', ''message'', ''detail''] es)"
  unfolding error_checked_def edge_responseError_def rbind_Inr_iff exactKeys_iff error_case keyword_check optional_check
  by auto

lemma object_fields_own: "object_fields v = Some fs \<Longrightarrow> has_own fs k \<Longrightarrow> v = JObj fs"
  by (cases v) (auto simp: object_fields_def)

lemma unit_check: "(if b then m else Inr ()) = Inr () \<longleftrightarrow> (b \<longrightarrow> m = Inr ())"
  by simp

lemma guard_check: "(if a \<noteq> b \<or> c \<noteq> d then edgeFail else m) = Inr y \<longleftrightarrow> a = b \<and> c = d \<and> m = Inr y"
  by auto

lemma unit_ex: "(\<exists>u :: unit. P u) \<longleftrightarrow> P ()"
  by (metis (full_types) old.unit.exhaust)

lemma validateResponse_iff:
  "validateResponse space op v = Inr u \<longleftrightarrow>
     u = v \<and> (\<exists>fs. v = JObj fs \<and> list_all (has_own fs) [''space'', ''op'', ''servedVersion''] \<and>
       only_keys [''space'', ''op'', ''servedVersion'', ''page'', ''error'', ''payload''] fs \<and>
       get_prop fs ''space'' = JStr space \<and> get_prop fs ''op'' = js_lit op \<and> number_in 0 I64_MAX (get_prop fs ''servedVersion'') \<and>
       (has_own fs ''page'' \<longrightarrow> edge_responsePage (get_prop fs ''page'') = Inr ()) \<and>
       (has_own fs ''error'' \<longrightarrow> edge_responseError (get_prop fs ''error'') = Inr ()) \<and> checked_term fs ''payload'')"
proof -
  have n: "(\<exists>s. edge_decimal 0 I64_MAX w = Inr s) \<longleftrightarrow> number_in 0 I64_MAX w" for w using decimal_in in_decimal by blast
  show ?thesis
  proof (cases "\<exists>fs. v = JObj fs")
    case True
    then obtain fs where v: "v = JObj fs" by blast
    have f: "object_fields v = Some gs \<longleftrightarrow> gs = fs" for gs using v by (auto simp: object_fields_def)
    show ?thesis
      unfolding validateResponse_def rbind_Inr_iff exactKeys_iff guard_check unit_ex optional_check f
      unfolding unit_check ex_simps n v by auto
  next
    case False
    have "\<not> (object_fields v = Some gs \<and> list_all (has_own gs) [''space'', ''op'', ''servedVersion''])" for gs
      using False object_fields_own [of v gs "''space''"] by auto
    with False show ?thesis unfolding validateResponse_def rbind_Inr_iff exactKeys_iff by blast
  qed
qed

lemma validateResponse_Inr: "validateResponse space op v = Inr u \<Longrightarrow> \<exists>fs. u = v \<and> v = JObj fs \<and> reply_checked space op fs"
  unfolding validateResponse_iff reply_checked_def responsePage_iff responseError_iff by blast

lemma receive_checked:
  assumes "edge_receive space op reply = Inr v"
  shows "\<exists>r fs. reply = Inr r \<and> ey_ok r \<and> media_type (ey_type r) = js ''application/json'' \<and>
    length (utf8_encode (ey_text r)) \<le> MAX_JSON_BYTES \<and> json_parse (ey_text r) = Inr v \<and> v = JObj fs \<and> reply_checked space op fs"
proof -
  from assms obtain r w where r: "reply = Inr r" "length (utf8_encode (ey_text r)) \<le> MAX_JSON_BYTES"
    "media_type (ey_type r) = js ''application/json''" "json_parse (ey_text r) = Inr w" "ey_ok r" "validateResponse space op w = Inr v"
    by (auto simp: edge_receive_def res_simps split: if_splits sum.splits)
  from validateResponse_Inr [OF r(6)] r show ?thesis by blast
qed

lemma exchange_checked:
  assumes "edge_exchange c fetch m = Inr v"
  shows "\<exists>path op body r fs. edge_send c m = Inr (path, op, body) \<and> fetch path body = Inr r \<and> ey_ok r \<and>
    media_type (ey_type r) = js ''application/json'' \<and> length (utf8_encode (ey_text r)) \<le> MAX_JSON_BYTES \<and>
    json_parse (ey_text r) = Inr v \<and> v = JObj fs \<and> reply_checked (ec_space c) op fs"
proof -
  from assms obtain path op body where s: "edge_send c m = Inr (path, op, body)"
    "edge_receive (ec_space c) op (fetch path body) = Inr v"
    by (auto simp: edge_exchange_def res_simps)
  from receive_checked [OF s(2)] s(1) show ?thesis by blast
qed

section \<open>Replies written as JSON\<close>

text \<open>A reply: the served version, and the page, the error and the payload it may have.\<close>

record json_reply =
  jr_version :: int
  jr_page :: "(int \<times> bool \<times> fterm option) option"
  jr_error :: "(jstr \<times> bool \<times> jstr \<times> fterm option) option"
  jr_payload :: "fterm option"

definition bool_text :: "bool \<Rightarrow> jstr" where
  "bool_text b = js (if b then ''true'' else ''false'')"

fun page_json :: "int \<times> bool \<times> fterm option \<Rightarrow> jstr" where
  "page_json (n, d, c) =
     json_object ([(js ''ordinal'', json_quote (int_text n)), (js ''done'', bool_text d)] @ opt_prop ''nextCursor'' (map_option key_text c))"

fun page_object :: "int \<times> bool \<times> fterm option \<Rightarrow> jsval" where
  "page_object (n, d, c) =
     JObj ([(js ''ordinal'', JStr (int_text n)), (js ''done'', JBool d)] @ opt_prop ''nextCursor'' (map_option rep_term c))"

fun error_json :: "jstr \<times> bool \<times> jstr \<times> fterm option \<Rightarrow> jstr" where
  "error_json (k, r, m, d) =
     json_object ([(js ''code'', json_quote k), (js ''retryable'', bool_text r), (js ''message'', json_quote m)] @
       opt_prop ''detail'' (map_option key_text d))"

fun error_object :: "jstr \<times> bool \<times> jstr \<times> fterm option \<Rightarrow> jsval" where
  "error_object (k, r, m, d) =
     JObj ([(js ''code'', JStr k), (js ''retryable'', JBool r), (js ''message'', JStr m)] @ opt_prop ''detail'' (map_option rep_term d))"

definition reply_json :: "jstr \<Rightarrow> string \<Rightarrow> json_reply \<Rightarrow> jstr" where
  "reply_json space op r =
     json_object ([(js ''space'', json_quote space), (js ''op'', json_quote (js op)), (js ''servedVersion'', json_quote (int_text (jr_version r)))] @
       opt_prop ''page'' (map_option page_json (jr_page r)) @ opt_prop ''error'' (map_option error_json (jr_error r)) @
       opt_prop ''payload'' (map_option key_text (jr_payload r)))"

definition reply_object :: "jstr \<Rightarrow> string \<Rightarrow> json_reply \<Rightarrow> jsval" where
  "reply_object space op r =
     JObj ([(js ''space'', JStr space), (js ''op'', JStr (js op)), (js ''servedVersion'', JStr (int_text (jr_version r)))] @
       opt_prop ''page'' (map_option page_object (jr_page r)) @ opt_prop ''error'' (map_option error_object (jr_error r)) @
       opt_prop ''payload'' (map_option rep_term (jr_payload r)))"

definition term_fits :: "fterm \<Rightarrow> bool" where
  "term_fits t \<longleftrightarrow> edge_ok t \<and> term_size t \<le> MAX_TERM_NODES \<and> term_depth t \<le> MAX_TERM_DEPTH"

definition reply_fits :: "json_reply \<Rightarrow> bool" where
  "reply_fits r \<longleftrightarrow>
     0 \<le> jr_version r \<and> jr_version r \<le> I64_MAX \<and>
     (case jr_page r of None \<Rightarrow> True | Some (n, _, c) \<Rightarrow> 0 \<le> n \<and> n \<le> U32_MAX \<and> pred_option term_fits c) \<and>
     (case jr_error r of None \<Rightarrow> True | Some (k, _, _, d) \<Rightarrow> KEYWORD k \<and> pred_option term_fits d) \<and>
     pred_option term_fits (jr_payload r)"

lemma opt_term_reads: "rel_option reads (map_option key_text c) (map_option rep_term c)"
  by (cases c) (simp_all add: reads_term)

lemma page_json_reads: "reads (page_json p) (page_object p)"
proof (cases p)
  case (fields n d c)
  show ?thesis
    unfolding fields page_json.simps page_object.simps
    by (rule reads_object, intro list_all2_appendI opt_prop_reads opt_term_reads)
      (use reads_string reads_bool in \<open>auto simp: bool_text_def opt_prop_def split: option.splits\<close>)
qed

lemma error_json_reads: "reads (error_json e) (error_object e)"
proof (cases e)
  case (fields k r m d)
  show ?thesis
    unfolding fields error_json.simps error_object.simps
    by (rule reads_object, intro list_all2_appendI opt_prop_reads opt_term_reads)
      (use reads_string reads_bool in \<open>auto simp: bool_text_def opt_prop_def split: option.splits\<close>)
qed

lemma reply_json_reads: "reads (reply_json space op r) (reply_object space op r)"
proof -
  have p: "rel_option reads (map_option page_json x) (map_option page_object x)" for x by (cases x) (simp_all add: page_json_reads)
  have e: "rel_option reads (map_option error_json x) (map_option error_object x)" for x by (cases x) (simp_all add: error_json_reads)
  show ?thesis
    unfolding reply_json_def reply_object_def
    by (rule reads_object, intro list_all2_appendI opt_prop_reads opt_term_reads p e)
      (use reads_string in \<open>auto simp: opt_prop_def split: option.splits\<close>)
qed

lemma int_text_in: "lo \<le> z \<Longrightarrow> z \<le> hi \<Longrightarrow> number_in lo hi (JStr (int_text z))"
  by (auto simp: number_in_def int_denotes_def)

lemma fits_checked: "term_fits t \<Longrightarrow> get_prop fs k = rep_term t \<Longrightarrow> checked_term fs k"
  using shape_rep [of t] by (auto simp: term_fits_def checked_term_def)

lemma fits_checked_opt:
  "pred_option term_fits c \<Longrightarrow> get_prop fs k = (case c of None \<Rightarrow> JUndef | Some t \<Rightarrow> rep_term t) \<Longrightarrow>
     has_own fs k = (c \<noteq> None) \<Longrightarrow> checked_term fs k"
  using fits_checked by (cases c) (auto simp: checked_term_def)

lemma page_accepted:
  assumes "0 \<le> n" "n \<le> U32_MAX" "pred_option term_fits c"
  shows "edge_responsePage (page_object (n, d, c)) = Inr ()"
proof -
  let ?fs = "[(js ''ordinal'', JStr (int_text n)), (js ''done'', JBool d)] @ opt_prop ''nextCursor'' (map_option rep_term c)"
  have "checked_term ?fs ''nextCursor''" using assms(3) by (rule fits_checked_opt) (simp_all add: opt_prop_def split: option.split)
  moreover have "number_in 0 U32_MAX (get_prop ?fs ''ordinal'')" using int_text_in [OF assms(1,2)] by simp
  moreover have "list_all (has_own ?fs) [''ordinal'', ''done'']" by simp
  moreover have "only_keys [''ordinal'', ''done'', ''nextCursor''] ?fs" by (simp add: only_keys_def opt_prop_def split: option.split)
  ultimately show ?thesis
    unfolding responsePage_iff page_checked_def page_object.simps object_fields_def by auto
qed

lemma error_accepted:
  assumes "KEYWORD k" "pred_option term_fits d"
  shows "edge_responseError (error_object (k, r, m, d)) = Inr ()"
proof -
  let ?fs = "[(js ''code'', JStr k), (js ''retryable'', JBool r), (js ''message'', JStr m)] @ opt_prop ''detail'' (map_option rep_term d)"
  have "checked_term ?fs ''detail''" using assms(2) by (rule fits_checked_opt) (simp_all add: opt_prop_def split: option.split)
  moreover have "list_all (has_own ?fs) [''code'', ''retryable'', ''message'']" by simp
  moreover have "only_keys [''code'', ''retryable'', ''message'', ''detail''] ?fs" by (simp add: only_keys_def opt_prop_def split: option.split)
  ultimately show ?thesis
    using assms(1) unfolding responseError_iff error_checked_def error_object.simps object_fields_def by auto
qed

lemma reply_accepted:
  assumes "reply_fits r"
  shows "validateResponse space op (reply_object space op r) = Inr (reply_object space op r)"
proof -
  let ?fs = "[(js ''space'', JStr space), (js ''op'', JStr (js op)), (js ''servedVersion'', JStr (int_text (jr_version r)))] @
       opt_prop ''page'' (map_option page_object (jr_page r)) @ opt_prop ''error'' (map_option error_object (jr_error r)) @
       opt_prop ''payload'' (map_option rep_term (jr_payload r))"
  have keys: "only_keys [''space'', ''op'', ''servedVersion'', ''page'', ''error'', ''payload''] ?fs"
    by (simp add: only_keys_def opt_prop_def split: option.split)
  have own: "list_all (has_own ?fs) [''space'', ''op'', ''servedVersion'']" by simp
  have id: "get_prop ?fs ''space'' = JStr space" "get_prop ?fs ''op'' = js_lit op" by (simp_all add: js_lit_def)
  have ver: "number_in 0 I64_MAX (get_prop ?fs ''servedVersion'')" using assms int_text_in by (simp add: reply_fits_def)
  have pay: "checked_term ?fs ''payload''"
    using assms by (intro fits_checked_opt [of "jr_payload r"]) (simp_all add: reply_fits_def opt_prop_def split: option.split)
  have page: "has_own ?fs ''page'' \<longrightarrow> edge_responsePage (get_prop ?fs ''page'') = Inr ()"
  proof (cases "jr_page r")
    case (Some p)
    with assms page_accepted [of "fst p" "snd (snd p)" "fst (snd p)"] show ?thesis
      by (cases p) (simp add: reply_fits_def del: page_object.simps)
  qed (simp add: opt_prop_def split: option.split)
  have err: "has_own ?fs ''error'' \<longrightarrow> edge_responseError (get_prop ?fs ''error'') = Inr ()"
  proof (cases "jr_error r")
    case (Some e)
    with assms error_accepted [of "fst e" "snd (snd (snd e))" "fst (snd e)" "fst (snd (snd e))"] show ?thesis
      by (cases e; cases "jr_page r") (simp_all add: reply_fits_def del: error_object.simps)
  qed (simp add: opt_prop_def split: option.split)
  show ?thesis unfolding validateResponse_iff reply_object_def using own keys id ver page err pay by blast
qed

lemma receive_reply:
  assumes "reply_fits r" "length (utf8_encode (reply_json space op r)) \<le> MAX_JSON_BYTES" "media_type ty = js ''application/json''"
  shows "edge_receive space op (Inr \<lparr>ey_text = reply_json space op r, ey_type = ty, ey_ok = True\<rparr>) = Inr (reply_object space op r)"
  using assms by (simp add: edge_receive_def json_parse_reads [OF reply_json_reads] reply_accepted)

end
