(* ===== verification/EdgeRecords.thy ===== *)
theory EdgeRecords
  imports EdgeReplies
begin

text \<open>
  The records and lists the JSON client builds and reads back, with sample calls evaluated on them.
\<close>

section \<open>What the builders return\<close>

lemma edge_term_fits: "term_fits t \<Longrightarrow> edge_term (rep_term t) = Inr (rep_term t)"
proof -
  assume "term_fits t"
  then have v: "edge_validateTerm (rep_term t) = Inr (rep_term t)"
    using shape_rep unfolding edge_validateTerm_iff term_fits_def by blast
  have "\<exists>xs. rep_term t = JArr xs" by (cases t) simp_all
  then obtain xs where "rep_term t = JArr xs" by blast
  with v show ?thesis by (simp add: edge_term_def)
qed

lemma edge_kw_Inr: "edge_kw s = Inr k \<longleftrightarrow> KEYWORD (js s) \<and> k = kw s"
  by (auto simp: edge_kw_def edge_keywordTerm_def js_lit_def kw_def)

text \<open>Names of the form \<open>head/tail\<close> are keywords.\<close>

definition name_chars :: string where
  "name_chars = ''ABCDEFGHIJKLMNOPQRSTUVWXYZabcdefghijklmnopqrstuvwxyz0123456789*+!_?<>=$%&.-''"

lemma keyword_unit_name: "keyword_unit u \<longleftrightarrow> u \<in> set (js name_chars)"
  by (simp only: keyword_unit_def name_chars_def)

lemma name_units: "list_all (\<lambda>c. c \<in> set name_chars) s \<Longrightarrow> \<forall>u \<in> set (js s). keyword_unit u"
  unfolding keyword_unit_name js_def list_all_iff by auto

lemma slash_unit: "js ''/'' = [47]" "\<not> keyword_unit 47"
proof -
  show "js ''/'' = [47]" by (simp add: js_def)
  show "\<not> keyword_unit 47" by (simp add: keyword_unit_def js_def)
qed

lemma js_append: "js (s @ t) = js s @ js t"
  by (simp add: js_def)

lemma KEYWORD_name:
  assumes "list_all (\<lambda>c. c \<in> set name_chars) a" "a \<noteq> []" "list_all (\<lambda>c. c \<in> set name_chars) b" "b \<noteq> []"
  shows "KEYWORD (js (a @ ''/'' @ b))"
proof -
  have ne: "js a \<noteq> []" "js b \<noteq> []" using assms(2,4) by (simp_all add: js_def)
  show ?thesis
    unfolding KEYWORD_def js_append slash_unit(1)
    using name_units [OF assms(1)] name_units [OF assms(3)] ne slash_unit(2)
    by (simp add: takeWhile_append2 dropWhile_append2 list_all_iff)
qed

lemma KEYWORD_names [simp]:
  "KEYWORD (js ''rpc/list'')" "KEYWORD (js ''rpc/list-end'')" "KEYWORD (js ''rpc/record'')" "KEYWORD (js ''rpc/none'')"
  using KEYWORD_name [of "''rpc''" "''list''"] KEYWORD_name [of "''rpc''" "''list-end''"]
    KEYWORD_name [of "''rpc''" "''record''"] KEYWORD_name [of "''rpc''" "''none''"]
  by (simp_all add: name_chars_def)

lemma edge_term_array: "edge_term (JArr xs) = Inr u \<Longrightarrow> u = JArr xs"
  by (simp add: edge_term_def edge_validateTerm_iff)

lemma edge_term_kw: "edge_term (kw s) = Inr u \<Longrightarrow> u = kw s"
  by (simp add: kw_def edge_term_array)

lemma edge_list_Cons:
  "edge_list (v # vs) = rbind (edge_list vs) (\<lambda>rest. edge_tripleTerm (kw ''rpc/list'') v rest)"
proof -
  have "edge_kw ''rpc/list'' = Inr (kw ''rpc/list'')" by (simp add: edge_kw_Inr)
  then show ?thesis by (simp add: edge_list_def)
qed

lemma edge_list_Nil: "edge_list [] = Inr (kw ''rpc/list-end'')"
  using edge_kw_Inr [of "''rpc/list-end''"] by (simp add: edge_list_def)

lemma edge_triple_Inr:
  "edge_tripleTerm a b c = Inr u \<longleftrightarrow>
     (\<exists>x y z. edge_term a = Inr x \<and> edge_term b = Inr y \<and> edge_term c = Inr z \<and> u = JArr [JStr (js ''triple''), x, y, z])"
  by (auto simp: edge_tripleTerm_def res_simps js_lit_def)

lemma edge_list_Inr: "edge_list vs = Inr u \<Longrightarrow> \<exists>us. rmap edge_term vs = Inr us \<and> u = list_val us"
proof (induction vs arbitrary: u)
  case (Cons v vs)
  then obtain rest x z k where n: "edge_list vs = Inr rest" "edge_term v = Inr x" "edge_term rest = Inr z"
    "edge_term (kw ''rpc/list'') = Inr k" "u = JArr [JStr (js ''triple''), k, x, z]"
    by (auto simp: edge_list_Cons res_simps edge_triple_Inr)
  from Cons.IH [OF n(1)] obtain us where us: "rmap edge_term vs = Inr us" "rest = list_val us" by auto
  moreover have "z = rest" using list_val_JArr [of us] us(2) n(3) edge_term_array by auto
  ultimately show ?case using n edge_term_kw [OF n(4)] by (intro exI [of _ "x # us"]) simp
qed (simp add: edge_list_Nil)

lemma edge_record_Inr:
  assumes "edge_record tag vs = Inr u"
  shows "\<exists>us. rmap edge_term vs = Inr us \<and> u = record_val tag us"
proof -
  from assms obtain k fs e x y z where f: "edge_kw tag = Inr k" "edge_list vs = Inr fs" "edge_kw ''rpc/record'' = Inr e"
    "edge_term k = Inr x" "edge_term fs = Inr y" "edge_term e = Inr z" "u = JArr [JStr (js ''triple''), x, y, z]"
    by (auto simp: edge_record_def res_simps edge_triple_Inr)
  from edge_list_Inr [OF f(2)] obtain us where us: "rmap edge_term vs = Inr us" "fs = list_val us" by blast
  have "y = fs" using list_val_JArr [of us] us(2) f(5) edge_term_array by auto
  moreover have "x = kw tag" "z = kw ''rpc/record''" using f(1,3,4,6) edge_term_kw by (auto simp: edge_kw_Inr)
  ultimately show ?thesis using us f(7) by (auto simp: record_val_def)
qed

section \<open>What the readers return\<close>

lemma headed_kw: "headed (kw s) name \<longleftrightarrow> s = name"
  by (simp add: headed_def kw_def js_lit_def)

lemma headed_triple [simp]: "headed (JArr [JStr (js ''triple''), a, b, c]) name = False"
  by (simp add: headed_def js_lit_def)

lemma edge_items_list: "edge_items (list_val us) = Inr us"
proof (induction us)
  case Nil
  then show ?case by (subst edge_items.simps) (simp add: headed_kw)
next
  case (Cons u us)
  then show ?case by (subst edge_items.simps) (simp add: headed_kw)
qed

lemma shape_part: "shape (JArr [JStr (js ''triple''), x, y, z]) t \<Longrightarrow> \<exists>a b c. t = FTriple a b c \<and> shape x a \<and> shape y b \<and> shape z c"
  by (auto elim: shape.cases)

lemma validate_part:
  assumes "edge_validateTerm (JArr [JStr (js ''triple''), x, y, z]) = Inr u"
  shows "edge_validateTerm y = Inr y"
proof -
  from assms obtain t where t: "shape (JArr [JStr (js ''triple''), x, y, z]) t" "edge_ok t" "term_size t \<le> MAX_TERM_NODES"
    "term_depth t \<le> MAX_TERM_DEPTH"
    unfolding edge_validateTerm_iff by blast
  from shape_part [OF t(1)] obtain a b c where s: "t = FTriple a b c" "shape y b" by blast
  have "edge_ok b" "term_size b \<le> MAX_TERM_NODES" "term_depth b \<le> MAX_TERM_DEPTH" using t(2-4) s(1) by simp_all
  with s(2) show ?thesis unfolding edge_validateTerm_iff by blast
qed

lemma edge_recordFields_val:
  assumes "edge_validateTerm (record_val tag us) = Inr v"
  shows "edge_recordFields (record_val tag us) tag (length us) = Inr us"
proof -
  have "edge_validateTerm (list_val us) = Inr (list_val us)" using validate_part assms unfolding record_val_def by blast
  then have "edge_listValues (list_val us) = Inr us" by (simp add: edge_listValues_def edge_items_list)
  moreover have "edge_validateTerm (record_val tag us) = Inr (record_val tag us)" using assms by (simp add: edge_validateTerm_iff)
  ultimately show ?thesis by (simp add: edge_recordFields_def record_val_def headed_kw)
qed

section \<open>The query of a pattern\<close>

lemma edge_tripleQuery_fields:
  assumes "edge_tripleQuery pattern = Inr p"
  shows "\<exists>a b. p = record_val ''query/plan'' [a, b]"
proof -
  from assms obtain a b where "edge_record ''query/plan'' [a, b] = Inr p"
    by (auto simp: edge_tripleQuery_def Let_def res_simps)
  from edge_record_Inr [OF this] show ?thesis by (auto simp: res_simps)
qed

lemma edge_tripleQuery_refused:
  assumes "edge_tripleQuery pattern = Inr p"
  shows "\<exists>e. method_args (MQuery p opts) = Inl e"
proof -
  from edge_tripleQuery_fields [OF assms] obtain a b where p: "p = record_val ''query/plan'' [a, b]" by blast
  have f: "\<not> (\<exists>xs. rawRecordFields p ''query/plan'' 4 = Inr xs)"
    unfolding p rawRecordFields_iff by (auto simp: record_val_def simp del: list_val.simps)
  have p': "p = JArr [JStr (js ''triple''), kw ''query/plan'', list_val [a, b], kw ''rpc/record'']" by (simp add: p record_val_def)
  then have q: "queryPayload p o' = rbind (toTerm p) (\<lambda>t. rbind (rawRecordFields t ''query/plan'' 4) (\<lambda>_.
     rbind (querySnapshot o') (\<lambda>s. rpcRecord ''query/request'' [t, s])))" for o'
    by (simp add: queryPayload_def is_array_def)
  have "\<not> (\<exists>x. queryPayload p o' = Inr x)" for o'
    unfolding q rbind_Inr_iff using toTerm_JArr f p' by blast
  then have "\<exists>e. queryPayload p (default_options opts) = Inl e" by (metis sum.exhaust)
  then show ?thesis by (auto simp: plain_call_def)
qed

end
