(* ===== verification/EdgeSamples.thy ===== *)
theory EdgeSamples
  imports EdgeRecords
begin

text \<open>
  Sample calls of the JSON client, evaluated by the lemmas on its builders: a write with an expected version, a reply,
  and the query of the empty pattern.
\<close>

section \<open>Builders on Terms\<close>

lemma fits_triple: "term_fits (FTriple a b c) \<Longrightarrow> term_fits a \<and> term_fits b \<and> term_fits c"
  by (auto simp: term_fits_def)

lemma kw_fits: "KEYWORD (js s) \<Longrightarrow> term_fits (FKeyword (js s))"
  by (simp add: term_fits_def MAX_TERM_NODES_def MAX_TERM_DEPTH_def)

abbreviation edge_terms_of :: "jsval list \<Rightarrow> fterm list \<Rightarrow> bool" where
  "edge_terms_of vs ts \<equiv> list_all2 (\<lambda>v t. edge_term v = Inr (rep_term t)) vs ts"

lemma edge_triple_rep:
  assumes "edge_term a' = Inr (rep_term a)" "edge_term b' = Inr (rep_term b)" "edge_term c' = Inr (rep_term c)"
  shows "edge_tripleTerm a' b' c' = Inr (rep_term (FTriple a b c))"
  unfolding edge_triple_Inr using assms by simp

lemma edge_list_rep: "edge_terms_of vs ts \<Longrightarrow> term_fits (list_term ts) \<Longrightarrow> edge_list vs = Inr (rep_term (list_term ts))"
proof (induction rule: list_all2_induct)
  case Nil
  show ?case by (simp add: edge_list_Nil kw_def)
next
  case (Cons v vs t ts)
  then have ok: "term_fits (list_term ts)" using fits_triple [of "FKeyword (js ''rpc/list'')" t "list_term ts"] by simp
  have "edge_list (v # vs) = edge_tripleTerm (rep_term (FKeyword (js ''rpc/list''))) v (rep_term (list_term ts))"
    unfolding edge_list_Cons Cons.IH [OF ok] rbind.simps kw_rep ..
  also have "\<dots> = Inr (rep_term (list_term (t # ts)))"
    unfolding list_term.simps
    by (rule edge_triple_rep [OF edge_term_fits [OF kw_fits [OF KEYWORD_names(1)]] Cons.hyps(1) edge_term_fits [OF ok]])
  finally show ?case .
qed

lemma edge_record_rep:
  assumes "KEYWORD (js tag)" "edge_terms_of vs ts" "term_fits (list_term ts)"
  shows "edge_record tag vs = Inr (rep_term (record_term tag ts))"
proof -
  have k: "edge_kw tag = Inr (rep_term (FKeyword (js tag)))"
    "edge_kw ''rpc/record'' = Inr (rep_term (FKeyword (js ''rpc/record'')))"
    using assms(1) by (auto simp: edge_kw_Inr kw_rep)
  have "edge_tripleTerm (rep_term (FKeyword (js tag))) (rep_term (list_term ts)) (rep_term (FKeyword (js ''rpc/record''))) =
      Inr (rep_term (record_term tag ts))"
    unfolding record_term_def
    by (intro edge_triple_rep edge_term_fits kw_fits assms KEYWORD_names)
  with k edge_list_rep [OF assms(2,3)] show ?thesis by (simp add: edge_record_def del: rep_term.simps)
qed

section \<open>A write\<close>

definition edge_sample :: edge_client where
  "edge_sample = \<lparr>ec_space = js ''notes'', ec_token = js_lit ''secret''\<rparr>"

definition edge_sample_opts :: jsval where
  "edge_sample_opts = JObj [(js ''expectedVersion'', JBigInt 7)]"

definition edge_sample_call :: edge_method where
  "edge_sample_call = EAssert (js_lit ''n1'') (js_lit ''title'') (JBigInt 5) edge_sample_opts"

definition edge_sample_term :: fterm where
  "edge_sample_term = FTriple (FString (js ''n1'')) (FString (js ''title'')) (FInteger 5)"

definition edge_sample_write :: fterm where
  "edge_sample_write = record_term ''rpc/write'' [edge_sample_term, FKeyword (js ''rpc/subject-any''), FKeyword (js ''rpc/none'')]"

lemma KEYWORD_write_names [simp]: "KEYWORD (js ''rpc/write'')" "KEYWORD (js ''rpc/subject-any'')"
  using KEYWORD_name [of "''rpc''" "''write''"] KEYWORD_name [of "''rpc''" "''subject-any''"]
  by (simp_all add: name_chars_def)

lemma edge_sample_fits: "term_fits edge_sample_write"
  by (simp add: edge_sample_write_def edge_sample_term_def record_term_def term_fits_def i64_ok_def I64_MIN_def I64_MAX_def
      MAX_TERM_NODES_def MAX_TERM_DEPTH_def)

lemma edge_sample_parts: "term_fits edge_sample_term"
    "term_fits (list_term [edge_sample_term, FKeyword (js ''rpc/subject-any''), FKeyword (js ''rpc/none'')])"
  using edge_sample_fits fits_triple unfolding edge_sample_write_def record_term_def list_term.simps by blast+

lemma edge_sample_triple:
  "edge_tripleTerm (js_lit ''n1'') (js_lit ''title'') (JBigInt 5) = Inr (rep_term edge_sample_term)"
proof -
  have "edge_term (js_lit s) = Inr (rep_term (FString (js s)))" for s
    by (simp add: edge_term_def js_lit_def edge_stringTerm_iff)
  moreover have "edge_term (JBigInt 5) = Inr (rep_term (FInteger 5))"
    by (simp add: edge_term_def edge_integerTerm_iff int_denotes_def i64_ok_def I64_MIN_def I64_MAX_def)
  ultimately show ?thesis unfolding edge_sample_term_def by (intro edge_triple_rep)
qed

lemma edge_sample_called:
  "edge_call edge_sample_call = Inr (''/assert'', ''rpc/assert'', rep_term edge_sample_write, edge_sample_opts)"
proof -
  have mem: "member edge_sample_opts ''existing'' = Inr JUndef" "member edge_sample_opts ''fence'' = Inr JUndef"
    "or_object edge_sample_opts = edge_sample_opts"
    by (simp_all add: edge_sample_opts_def member_def nullish_def or_object_def)
  have k: "edge_policy JUndef = Inr (rep_term (FKeyword (js ''rpc/subject-any'')))"
    "edge_option JUndef = Inr (rep_term (FKeyword (js ''rpc/none'')))"
    by (simp_all add: edge_policy_def edge_option_def truthy_def nullish_def edge_kw_Inr kw_rep)
  have "edge_record ''rpc/write'' [rep_term edge_sample_term, rep_term (FKeyword (js ''rpc/subject-any'')), rep_term (FKeyword (js ''rpc/none''))] =
      Inr (rep_term edge_sample_write)"
    unfolding edge_sample_write_def
    by (rule edge_record_rep) (use edge_sample_parts edge_term_fits kw_fits in \<open>simp_all del: rep_term.simps\<close>)
  then show ?thesis
    unfolding edge_sample_call_def edge_call.simps edge_write_def edge_sample_triple rbind.simps mem(3) edge_writePayload_def mem(1,2) k
    by simp
qed

lemma edge_sample_request:
  "\<exists>body. edge_send edge_sample edge_sample_call = Inr (''/assert'', ''rpc/assert'', body)"
proof -
  have mem: "member edge_sample_opts ''expectedVersion'' = Inr (JBigInt 7)" "member edge_sample_opts ''page'' = Inr JUndef"
    "member edge_sample_opts ''timeoutMs'' = Inr JUndef"
    by (simp_all add: edge_sample_opts_def member_def nullish_def)
  have d: "edge_decimal 0 I64_MAX (JBigInt 7) = Inr (int_text 7)"
    by (simp add: edge_decimal_iff int_denotes_def I64_MAX_def)
  have t: "json_text (rep_term edge_sample_write) = Inr (key_text edge_sample_write)"
    using termKey_rep [of edge_sample_write] by (simp add: termKey_def)
  show ?thesis
    unfolding edge_send_def edge_sample_called rbind.simps prod.case edge_requestOf_def edge_term_fits [OF edge_sample_fits] mem
    by (simp add: optional_of_def d request_text_def t member_text_def optional_text_def edge_sample_def)
qed

text \<open>The same call has a payload on the FRAMRPC client.\<close>

lemma edge_sample_core: "\<exists>a. method_args (core_of edge_sample_call) = Inr a"
proof -
  have n: "name_ok ''rpc/write''" "name_ok ''rpc/subject-any''" by (simp_all add: name_ok_def ascii_def)
  have s: "text_ok (js ''n1'')" "text_ok (js ''title'')"
    using name_ok_text [of "''n1''"] name_ok_text [of "''title''"] by (simp_all add: name_ok_def ascii_def)
  have "toTerm (js_lit ''n1'') = Inr (rep_term (FString (js ''n1'')))" "toTerm (js_lit ''title'') = Inr (rep_term (FString (js ''title'')))"
    "toTerm (JBigInt 5) = Inr (rep_term (FInteger 5))"
    using s by (simp_all add: toTerm_def js_lit_def stringTerm_Inr_iff integerTerm_Inr_iff int_denotes_def i64_ok_def I64_MIN_def I64_MAX_def)
  then have t: "tripleTerm (js_lit ''n1'') (js_lit ''title'') (JBigInt 5) = Inr (rep_term edge_sample_term)"
    unfolding edge_sample_term_def by (intro tripleTerm_rep)
  have ok: "term_ok (list_term [edge_sample_term, FKeyword (js ''rpc/subject-any''), FKeyword (js ''rpc/none'')])" "term_ok edge_sample_term"
    using s name_ok_text [OF n(2)] name_ok_text [OF rpc_names(4)] name_ok_text [OF rpc_names(1)] name_ok_text [OF rpc_names(2)]
    by (simp_all add: edge_sample_term_def term_ok_def i64_ok_def I64_MIN_def I64_MAX_def MAX_TERM_NODES_def MAX_TERM_DEPTH_def)
  have mem: "member edge_sample_opts ''existing'' = Inr JUndef" "member edge_sample_opts ''fence'' = Inr JUndef"
    "default_options edge_sample_opts = edge_sample_opts"
    by (simp_all add: edge_sample_opts_def member_def nullish_def default_options_def)
  have k: "policy JUndef = Inr (rep_term (FKeyword (js ''rpc/subject-any'')))"
    "rpcOption JUndef = Inr (rep_term (FKeyword (js ''rpc/none'')))"
    using n by (simp_all add: policy_def rpcOption_def truthy_def nullish_def kw_rep del: rep_term.simps)
  have "rpcRecord ''rpc/write'' [rep_term edge_sample_term, rep_term (FKeyword (js ''rpc/subject-any'')), rep_term (FKeyword (js ''rpc/none''))] =
      Inr (rep_term (record_term ''rpc/write'' [edge_sample_term, FKeyword (js ''rpc/subject-any''), FKeyword (js ''rpc/none'')]))"
    by (rule rpcRecord_rep)
      (use n ok toTerm_rep_term [OF ok(2)] toTerm_name [OF n(2)] toTerm_name [OF rpc_names(4)] in \<open>simp_all del: rep_term.simps\<close>)
  then show ?thesis
    by (simp add: edge_sample_call_def plain_call_def mem t writePayload_def k del: rep_term.simps)
qed

section \<open>A reply\<close>

lemma utf8_length: "length (utf8_encode s) \<le> 4 * length s"
proof -
  have "length (concat (map utf8_of cs)) \<le> 4 * length cs" for cs by (induction cs) (auto simp: utf8_of_def)
  moreover have "length (code_points s) \<le> length s" by (induction s rule: code_points.induct) auto
  ultimately show ?thesis unfolding utf8_encode_def length_map by (meson le_trans mult_le_mono2)
qed

lemma json_unit_length: "length (json_unit u) \<le> 6"
  using pad_hex_length [of "unat u"] unat_16_less [of u] by (simp add: json_unit_def json_escape_def split: option.split)

lemma json_quote_length: "length (json_quote s) \<le> 6 * length s + 2"
proof -
  have "length (json_units s) \<le> 6 * length s"
  proof (induction s rule: json_units.induct)
    case (3 u v us)
    then show ?case using json_unit_length [of u] by auto
  qed (simp_all add: json_unit_length)
  then show ?thesis by (simp add: json_quote_def)
qed

definition edge_sample_reply :: json_reply where
  "edge_sample_reply = \<lparr>jr_version = 8, jr_page = None, jr_error = None, jr_payload = Some (FKeyword (js ''rpc/none''))\<rparr>"

lemma edge_sample_reply_fits: "reply_fits edge_sample_reply"
  using kw_fits [OF KEYWORD_names(4)] by (simp add: reply_fits_def edge_sample_reply_def I64_MAX_def)

lemma edge_sample_reply_size: "length (utf8_encode (reply_json (js ''notes'') ''rpc/assert'' edge_sample_reply)) \<le> MAX_JSON_BYTES"
proof -
  have n: "length (int_text 8) = 1" by (simp add: int_text_def nat_text_def to_digits.simps)
  note q = json_quote_length [of "js s" for s]
  have "length (reply_json (js ''notes'') ''rpc/assert'' edge_sample_reply) \<le> 2000"
    unfolding reply_json_def edge_sample_reply_def
    using q [of "''space''"] q [of "''op''"] q [of "''servedVersion''"] q [of "''payload''"] q [of "''notes''"] q [of "''rpc/assert''"]
      q [of "''keyword''"] q [of "''rpc/none''"] json_quote_length [of "int_text 8"] n
    by (simp add: json_object_def json_member_def)
  with utf8_length [of "reply_json (js ''notes'') ''rpc/assert'' edge_sample_reply"] show ?thesis
    by (simp add: MAX_JSON_BYTES_def)
qed

lemma edge_sample_type: "media_type (Some (js ''application/json'')) = js ''application/json''"
  by (simp add: media_type_def trimmed_def js_def js_space_def ascii_lower_def)

text \<open>A service that answers every request with the sample reply.\<close>

definition edge_sample_fetch :: "string \<Rightarrow> jstr \<Rightarrow> edge_reply res" where
  "edge_sample_fetch path body =
     Inr \<lparr>ey_text = reply_json (js ''notes'') ''rpc/assert'' edge_sample_reply, ey_type = Some (js ''application/json''), ey_ok = True\<rparr>"

lemma edge_sample_exchange:
  "edge_exchange edge_sample edge_sample_fetch edge_sample_call = Inr (reply_object (js ''notes'') ''rpc/assert'' edge_sample_reply)"
proof -
  obtain body where "edge_send edge_sample edge_sample_call = Inr (''/assert'', ''rpc/assert'', body)" using edge_sample_request by blast
  then show ?thesis
    using receive_reply [OF edge_sample_reply_fits edge_sample_reply_size edge_sample_type]
    by (simp add: edge_exchange_def edge_sample_fetch_def edge_sample_def)
qed

section \<open>The pattern query, evaluated\<close>

lemma list_fits: "term_fits (list_term ts) \<Longrightarrow> t \<in> set ts \<Longrightarrow> term_fits t"
  by (induction ts) (auto dest: fits_triple)

lemma record_fits: "term_fits (record_term tag ts) \<Longrightarrow> term_fits (list_term ts)"
  unfolding record_term_def by (blast dest: fits_triple)

lemma terms_of_reps: "term_fits (list_term ts) \<Longrightarrow> edge_terms_of (map rep_term ts) ts"
proof -
  assume "term_fits (list_term ts)"
  then have "\<forall>t \<in> set ts. edge_term (rep_term t) = Inr (rep_term t)" by (blast intro: edge_term_fits list_fits)
  then show ?thesis by (induction ts) simp_all
qed

lemma edge_list_terms: "term_fits (list_term ts) \<Longrightarrow> edge_list (map rep_term ts) = Inr (rep_term (list_term ts))"
  by (rule edge_list_rep [OF terms_of_reps])

lemma edge_record_terms:
  "KEYWORD (js tag) \<Longrightarrow> term_fits (record_term tag ts) \<Longrightarrow> edge_record tag (map rep_term ts) = Inr (rep_term (record_term tag ts))"
  by (rule edge_record_rep [OF _ terms_of_reps]) (auto dest: record_fits)

definition var_rec :: "string \<Rightarrow> fterm" where
  "var_rec n = record_term ''query/var'' [FString (js n)]"

definition pattern_rule :: fterm where
  "pattern_rule =
     record_term ''query/rule''
       [record_term ''query/head'' [FString (js ''out''), list_term [var_rec ''t1'', var_rec ''t2'', var_rec ''t3'']],
        list_term [record_term ''query/relation''
          [FString (js ''triple''), list_term [var_rec ''t1'', var_rec ''t2'', var_rec ''t3''], FBoolean False]]]"

definition pattern_plan :: fterm where
  "pattern_plan =
     record_term ''query/plan''
       [record_term ''query/find-relation'' [FString (js ''out'')],
        list_term [record_term ''query/stratum'' [list_term [pattern_rule]]]]"

lemma KEYWORD_query_names [simp]:
  "KEYWORD (js ''query/var'')" "KEYWORD (js ''query/rule'')" "KEYWORD (js ''query/head'')" "KEYWORD (js ''query/relation'')"
  "KEYWORD (js ''query/plan'')" "KEYWORD (js ''query/find-relation'')" "KEYWORD (js ''query/stratum'')"
  using KEYWORD_name [of "''query''" "''var''"] KEYWORD_name [of "''query''" "''rule''"] KEYWORD_name [of "''query''" "''head''"]
    KEYWORD_name [of "''query''" "''relation''"] KEYWORD_name [of "''query''" "''plan''"]
    KEYWORD_name [of "''query''" "''find-relation''"] KEYWORD_name [of "''query''" "''stratum''"]
  by (simp_all add: name_chars_def)

lemma pattern_plan_fits: "term_fits pattern_plan"
  by (simp add: pattern_plan_def pattern_rule_def var_rec_def record_term_def term_fits_def MAX_TERM_NODES_def MAX_TERM_DEPTH_def)

lemma pattern_fits:
  "term_fits pattern_rule" "term_fits (record_term ''query/find-relation'' [FString (js ''out'')])"
  "term_fits (record_term ''query/stratum'' [list_term [pattern_rule]])"
  "term_fits (list_term [record_term ''query/stratum'' [list_term [pattern_rule]]])" "term_fits (list_term [pattern_rule])"
  "term_fits (record_term ''query/head'' [FString (js ''out''), list_term [var_rec ''t1'', var_rec ''t2'', var_rec ''t3'']])"
  "term_fits (list_term [record_term ''query/relation''
     [FString (js ''triple''), list_term [var_rec ''t1'', var_rec ''t2'', var_rec ''t3''], FBoolean False]])"
  "term_fits (record_term ''query/relation''
     [FString (js ''triple''), list_term [var_rec ''t1'', var_rec ''t2'', var_rec ''t3''], FBoolean False])"
  "term_fits (list_term [var_rec ''t1'', var_rec ''t2'', var_rec ''t3''])"
  "term_fits (var_rec ''t1'')" "term_fits (var_rec ''t2'')" "term_fits (var_rec ''t3'')"
  by (simp_all add: pattern_rule_def var_rec_def record_term_def term_fits_def MAX_TERM_NODES_def MAX_TERM_DEPTH_def)

lemma pattern_query: "edge_tripleQuery (JObj []) = Inr (rep_term pattern_plan)"
proof -
  have s: "edge_stringTerm (js_lit n) = Inr (rep_term (FString (js n)))" for n
    by (simp add: edge_stringTerm_iff js_lit_def)
  have b: "edge_booleanTerm (JBool False) = Inr (rep_term (FBoolean False))" by (simp add: edge_booleanTerm_def js_lit_def)
  have v: "edge_queryVar n = Inr (rep_term (var_rec n))" if "term_fits (var_rec n)" for n
    using edge_record_terms [of "''query/var''" "[FString (js n)]"] that unfolding var_rec_def edge_queryVar_def s rbind.simps by simp
  note vs = v [OF pattern_fits(10)] v [OF pattern_fits(11)] v [OF pattern_fits(12)]
  note l = edge_list_terms [OF pattern_fits(9), unfolded list.map] edge_list_terms [OF pattern_fits(7), unfolded list.map]
    edge_list_terms [OF pattern_fits(5), unfolded list.map] edge_list_terms [OF pattern_fits(4), unfolded list.map]
  note r = edge_record_terms [OF KEYWORD_query_names(3) pattern_fits(6), unfolded list.map]
    edge_record_terms [OF KEYWORD_query_names(4) pattern_fits(8), unfolded list.map]
    edge_record_terms [OF KEYWORD_query_names(2) pattern_fits(1) [unfolded pattern_rule_def], unfolded list.map, folded pattern_rule_def]
    edge_record_terms [OF KEYWORD_query_names(7) pattern_fits(3), unfolded list.map]
    edge_record_terms [OF KEYWORD_query_names(6) pattern_fits(2), unfolded list.map]
    edge_record_terms [OF KEYWORD_query_names(5) pattern_plan_fits [unfolded pattern_plan_def], unfolded list.map, folded pattern_plan_def]
  have k: "edge_exactKeys (JObj []) [] [''t1'', ''t2'', ''t3''] = Inr []" by (simp add: edge_exactKeys_def object_fields_def)
  have n: "nullish (get_prop [] x)" for x by (simp add: nullish_def)
  show ?thesis
    unfolding edge_tripleQuery_def Let_def jsval.distinct if_False k rbind.simps n if_True
    by (simp only: jsval.distinct if_False k rbind.simps n if_True filter.simps rmap.simps vs list.distinct s b l r not_False_eq_True)
qed

end
