(* ===== verification/EdgeProperties.thy ===== *)
theory EdgeProperties
  imports EdgeSamples
begin

text \<open>
  The properties of the JSON client: agreement with the FRAMRPC client, what its requests say, and which replies it returns.
\<close>

text \<open>
  C28 (equivalence). On values whose Terms both representations can express, \<open>term\<close> of the JSON client and \<open>toTerm\<close> of the FRAMRPC
  client are the same function: a value is accepted by one with an array that denotes a Term of the other exactly when
  the other accepts it with that array.
\<close>

theorem clients_agree:
  "edge_term v = Inr u \<and> (\<exists>t. denotes u t) \<longleftrightarrow> toTerm v = Inr u \<and> (\<exists>t. denotes u t \<and> edge_ok t)"
  by (rule edge_term_agrees)

text \<open>
  C29 (equivalence). A method of the JSON client and the same method of the FRAMRPC client ask for the same operation with the same payload
  whenever both accept the arguments, for each of the thirteen methods.
\<close>

theorem same_payloads:
  assumes "edge_call m = Inr (path, op, p, opts)" "method_args (core_of m) = Inr a"
  shows "ca_operation a = op \<and> ca_payload a = p"
  using assms by (rule agree_call)

theorem same_payloads_witness:
  "\<exists>a. method_args (core_of edge_sample_call) = Inr a \<and> ca_operation a = ''rpc/assert'' \<and> ca_payload a = rep_term edge_sample_write"
proof -
  obtain a where "method_args (core_of edge_sample_call) = Inr a" using edge_sample_core by blast
  with same_payloads [OF edge_sample_called this] show ?thesis by blast
qed

text \<open>
  C30 (roundtrip). The body of every request the JSON client sends, read back by \<open>JSON.parse\<close>, is an object with its space, the operation, a
  payload that is an array of the same Term as the call's, and the expected version, the page and the time limit the options ask for,
  each absent when it is undefined.
\<close>

theorem edge_requests_read:
  assumes "edge_send c m = Inr (path, op, body)"
  shows "\<exists>payload opts fs. edge_call m = Inr (path, op, payload, opts) \<and> json_parse body = Inr (JObj fs) \<and>
    body_of c op payload opts fs"
  using assms by (rule send_read)

theorem edge_requests_read_witness:
  "\<exists>body fs. edge_send edge_sample edge_sample_call = Inr (''/assert'', ''rpc/assert'', body) \<and> json_parse body = Inr (JObj fs) \<and>
     body_of edge_sample ''rpc/assert'' (rep_term edge_sample_write) edge_sample_opts fs"
proof -
  obtain body where s: "edge_send edge_sample edge_sample_call = Inr (''/assert'', ''rpc/assert'', body)"
    using edge_sample_request by blast
  from edge_requests_read [OF s] obtain p opts fs where
    "edge_call edge_sample_call = Inr (''/assert'', ''rpc/assert'', p, opts)" "json_parse body = Inr (JObj fs)"
    "body_of edge_sample ''rpc/assert'' p opts fs" by blast
  then have "json_parse body = Inr (JObj fs)" "body_of edge_sample ''rpc/assert'' (rep_term edge_sample_write) edge_sample_opts fs"
    by (simp_all add: edge_sample_called)
  with s show ?thesis by blast
qed

text \<open>
  C31 (safety). What a method of the JSON client returns is the JSON of a reply to its own request: \<open>fetch\<close> was given the path and the body of
  the call, the reply was successful, of type JSON and at most a megabyte, and its value names the client's space and the operation, has a
  version in range, and every page, error and Term in it is well formed and within the limits.
\<close>

theorem edge_replies_checked:
  assumes "edge_exchange c fetch m = Inr v"
  shows "\<exists>path op body r fs. edge_send c m = Inr (path, op, body) \<and> fetch path body = Inr r \<and> ey_ok r \<and>
    media_type (ey_type r) = js ''application/json'' \<and> length (utf8_encode (ey_text r)) \<le> MAX_JSON_BYTES \<and>
    json_parse (ey_text r) = Inr v \<and> v = JObj fs \<and> reply_checked (ec_space c) op fs"
  using assms by (rule exchange_checked)

theorem edge_replies_checked_witness:
  "\<exists>body op r fs. edge_send edge_sample edge_sample_call = Inr (''/assert'', op, body) \<and> edge_sample_fetch ''/assert'' body = Inr r \<and>
     json_parse (ey_text r) = Inr (JObj fs) \<and> reply_checked (js ''notes'') op fs"
proof -
  from edge_replies_checked [OF edge_sample_exchange] obtain path op body r fs where
    s: "edge_send edge_sample edge_sample_call = Inr (path, op, body)" and r: "edge_sample_fetch path body = Inr r"
      "json_parse (ey_text r) = Inr (JObj fs)" "reply_checked (ec_space edge_sample) op fs" by metis
  have "path = ''/assert''" using s edge_sample_request by auto
  with s r show ?thesis by (auto simp: edge_sample_def)
qed

text \<open>
  C32 (roundtrip). A well-formed reply for the client's space and operation, written as JSON with any page, error and payload within the limits and
  sent as JSON of at most a megabyte, is what the method returns, with every Term as its canonical array.
\<close>

theorem edge_replies_returned:
  assumes "edge_send c m = Inr (path, op, body)" "reply_fits r"
    "fetch path body = Inr \<lparr>ey_text = reply_json (ec_space c) op r, ey_type = ty, ey_ok = True\<rparr>"
    "media_type ty = js ''application/json''" "length (utf8_encode (reply_json (ec_space c) op r)) \<le> MAX_JSON_BYTES"
  shows "edge_exchange c fetch m = Inr (reply_object (ec_space c) op r)"
  using receive_reply [OF assms(2,5,4)] assms(1,3) by (simp add: edge_exchange_def)

theorem edge_replies_returned_witness:
  "edge_exchange edge_sample edge_sample_fetch edge_sample_call = Inr (reply_object (ec_space edge_sample) ''rpc/assert'' edge_sample_reply)"
proof -
  obtain body where s: "edge_send edge_sample edge_sample_call = Inr (''/assert'', ''rpc/assert'', body)"
    using edge_sample_request by blast
  have f: "edge_sample_fetch ''/assert'' body =
    Inr \<lparr>ey_text = reply_json (ec_space edge_sample) ''rpc/assert'' edge_sample_reply, ey_type = Some (js ''application/json''), ey_ok = True\<rparr>"
    by (simp add: edge_sample_fetch_def edge_sample_def)
  have "length (utf8_encode (reply_json (ec_space edge_sample) ''rpc/assert'' edge_sample_reply)) \<le> MAX_JSON_BYTES"
    using edge_sample_reply_size by (simp add: edge_sample_def)
  from edge_replies_returned [where fetch = edge_sample_fetch, OF s edge_sample_reply_fits f edge_sample_type this] show ?thesis .
qed

text \<open>
  C40 (error). The plan \<open>tripleQuery\<close> of the JSON client builds has two fields and not the four of the service's query plans, and the FRAMRPC client refuses
  it, whatever the pattern and the options are.
\<close>

theorem edge_tripleQuery_plan_refused:
  assumes "edge_tripleQuery pattern = Inr p"
  shows "(\<exists>a b. p = record_val ''query/plan'' [a, b]) \<and> (\<exists>e. method_args (MQuery p opts) = Inl e)"
  using edge_tripleQuery_fields [OF assms] edge_tripleQuery_refused [OF assms] by blast

theorem edge_tripleQuery_plan_refused_witness:
  "edge_tripleQuery (JObj []) = Inr (rep_term pattern_plan) \<and> (\<exists>e. method_args (MQuery (rep_term pattern_plan) JUndef) = Inl e)"
  using edge_tripleQuery_plan_refused [OF pattern_query] pattern_query by blast

end
