(* ===== verification/Backup.thy ===== *)
theory Backup
  imports Restore JsonParse "HOL-Library.Char_ord"
begin

text \<open>
  The native backup tool, \<^verbatim>\<open>clients/bun/backup.mjs\<close>: \<open>createBackup\<close>, which copies the log up to a checkpoint into a new directory and commits it
  by renaming the manifest, and \<open>verifyBackup\<close>. SHA-256 and CRC-32 (\<open>Bun.CryptoHasher\<close>, \<open>Bun.hash.crc32\<close>) are arguments. The file system
  is what its calls return; what \<open>createBackup\<close> changes in the new directory is the list of its operations.
\<close>

section \<open>Limits and patterns\<close>

definition LOG_MAGIC :: "byte list" where
  "LOG_MAGIC = [0x46, 0x52, 0x41, 0x4d, 0x4c, 0x4f, 0x47, 0x00]"

text \<open>\<open>fram-snapshot/v1\<close>\<close>

definition SNAPSHOT_MAGIC :: "byte list" where
  "SNAPSHOT_MAGIC = map (\<lambda>c. word_of_nat (of_char c)) ''fram-snapshot/v1''"

definition LOG_FIXED_HEADER_BYTES :: nat where "LOG_FIXED_HEADER_BYTES = 16"
definition MAX_MANIFEST_BYTES :: nat where "MAX_MANIFEST_BYTES = 1024 * 1024"
definition MAX_RECEIPT_BYTES :: nat where "MAX_RECEIPT_BYTES = 64 * 1024"
definition MAX_SNAPSHOT_RECORD_BYTES :: nat where "MAX_SNAPSHOT_RECORD_BYTES = 1024 * 1024"
definition SAFE_MAX :: nat where "SAFE_MAX = 9007199254740991"

definition HISTORY_FILE :: string where "HISTORY_FILE = ''history.framlog''"
definition ARTIFACT_FILE :: string where "ARTIFACT_FILE = ''artifact.READY''"
definition MANIFEST_FILE :: string where "MANIFEST_FILE = ''manifest.json''"
definition MANIFEST_DIGEST_FILE :: string where "MANIFEST_DIGEST_FILE = ''manifest.sha256''"

definition COMPLETE_FILES :: "string list" where
  "COMPLETE_FILES = [ARTIFACT_FILE, HISTORY_FILE, MANIFEST_FILE, MANIFEST_DIGEST_FILE]"

definition DECIMAL :: "jstr \<Rightarrow> bool" where
  "DECIMAL s \<longleftrightarrow> s = [48] \<or> positive_text s"

text \<open>\<open>SHA256.test(value)\<close> turns its argument into text first: an array of one element is that element.\<close>

fun sha_test :: "jsval \<Rightarrow> bool" where
  "sha_test (JStr s) = SHA256 s"
| "sha_test (JArr [v]) = sha_test v"
| "sha_test v = False"

section \<open>Text and decimals\<close>

definition backup_strictUtf8 :: "jsval \<Rightarrow> nat \<Rightarrow> byte list res" where
  "backup_strictUtf8 v maximum =
     (case v of
        JStr s \<Rightarrow>
          if \<not> well_formed16 s then backupFailure ''invalid-utf8''
          else let bs = utf8_encode s
            in if bs = [] then backupFailure ''invalid-input''
               else if maximum < length bs then backupFailure ''limit''
               else Inr bs
      | _ \<Rightarrow> backupFailure ''invalid-input'')"

definition canonicalDecimal :: "jsval \<Rightarrow> int \<Rightarrow> jstr res" where
  "canonicalDecimal v maximum =
     (case (case v of JBigInt z \<Rightarrow> Some (int_text z) | JStr s \<Rightarrow> Some s | _ \<Rightarrow> None) of
        None \<Rightarrow> backupFailure ''invalid-manifest''
      | Some text \<Rightarrow>
          if \<not> DECIMAL text then backupFailure ''invalid-manifest''
          else if maximum < text_int text then backupFailure ''invalid-manifest''
          else Inr text)"

definition manifest_object :: "jsval \<Rightarrow> string list \<Rightarrow> (jstr \<times> jsval) list res" where
  "manifest_object v keys =
     (case object_fields v of
        None \<Rightarrow> backupFailure ''invalid-manifest''
      | Some fs \<Rightarrow> if sort (map fst fs) = sort (map js keys) then Inr fs else backupFailure ''invalid-manifest'')"

section \<open>Canonical JSON\<close>

definition ascii_unit :: "16 word \<Rightarrow> jstr" where
  "ascii_unit u = (if 127 \<le> unat u \<and> \<not> surrogate (unat u) then 92 # 117 # pad_start 4 (nat_text 16 (unat u)) else [u])"

definition canonical_quote :: "jstr \<Rightarrow> jstr" where
  "canonical_quote s = concat (map ascii_unit (json_quote s))"

definition canonical_object :: "(jstr \<times> jstr) list \<Rightarrow> jstr" where
  "canonical_object kts = 123 # join_with 44 (map (\<lambda>(k, t). canonical_quote k @ 58 # t) (sort_key fst kts)) @ [125]"

lemma field_size: "kv \<in> set fs \<Longrightarrow> size (snd kv) < Suc (size_list (size_prod (\<lambda>_. 0) size) fs)"
  by (induction fs) (auto simp: prod.size_gen_o_map)

function canonicalJsonValue :: "jsval \<Rightarrow> jstr res" where
  "canonicalJsonValue v =
     (case v of
        JNull \<Rightarrow> Inr (js ''null'')
      | JBool b \<Rightarrow> Inr (js (if b then ''true'' else ''false''))
      | JStr s \<Rightarrow> Inr (canonical_quote s)
      | JArr vs \<Rightarrow> rbind (rmap canonicalJsonValue vs) (\<lambda>ts. Inr (91 # join_with 44 ts @ [93]))
      | JObj fs \<Rightarrow> rbind (rmap (\<lambda>kv. canonicalJsonValue (snd kv)) fs) (\<lambda>ts. Inr (canonical_object (zip (map fst fs) ts)))
      | JDate _ \<Rightarrow> Inr (canonical_object [])
      | _ \<Rightarrow> backupFailure ''invalid-manifest'')"
  by pat_completeness auto
termination
  by (relation "measure size") (auto dest: field_size size_list_estimation' [where f = size, OF _ order_refl])

declare canonicalJsonValue.simps [simp del]

definition canonicalManifestBytes :: "jsval \<Rightarrow> byte list res" where
  "canonicalManifestBytes m = rbind (canonicalJsonValue m) (\<lambda>t. Inr (utf8_encode (t @ [10])))"

section \<open>Reading files\<close>

text \<open>
  What \<open>open\<close> finds at a path, \<open>None\<close> when it fails: whether it is a regular file, its size, and what \<open>read\<close> returns at a position for a
  number of wanted bytes, \<open>None\<close> when it throws. A read may return fewer bytes than wanted.
\<close>

record node =
  nd_file :: bool
  nd_size :: nat
  nd_read :: "nat \<Rightarrow> nat \<Rightarrow> byte list option"

definition openRegular :: "node option \<Rightarrow> node res" where
  "openRegular path =
     (case path of
        None \<Rightarrow> backupFailure ''file-open''
      | Some n \<Rightarrow> if \<not> nd_file n then backupFailure ''unsafe-path'' else Inr n)"

text \<open>The reading loop: at most \<open>cap\<close> bytes at a time, until \<open>count\<close> bytes are there.\<close>

function read_chunks :: "nat \<Rightarrow> (nat \<Rightarrow> nat \<Rightarrow> byte list option) \<Rightarrow> nat \<Rightarrow> nat \<Rightarrow> byte list \<Rightarrow> byte list res" where
  "read_chunks cap rd position count got =
     (if count \<le> length got then Inr got
      else let wanted = min cap (count - length got)
      in case rd (position + length got) wanted of
           None \<Rightarrow> Inl PlainError
         | Some bs \<Rightarrow>
             if take wanted bs = [] then backupFailure ''file-changed''
             else read_chunks cap rd position count (got @ take wanted bs))"
  by pat_completeness auto
termination
  by (relation "measure (\<lambda>(cap, rd, position, count, got). count - length got)")
    (auto simp del: take_eq_Nil take_eq_Nil2 length_take simp flip: length_greater_0_conv)

declare read_chunks.simps [simp del]

definition readHandleExact :: "node \<Rightarrow> nat \<Rightarrow> nat \<Rightarrow> byte list res" where
  "readHandleExact n sz maximum =
     (if maximum < sz \<or> SAFE_MAX < sz then backupFailure ''limit'' else read_chunks sz (nd_read n) 0 sz [])"

definition readAtExact :: "node \<Rightarrow> nat \<Rightarrow> nat \<Rightarrow> byte list res" where
  "readAtExact n position count =
     (if SAFE_MAX < position \<or> SAFE_MAX < count then backupFailure ''limit''
      else read_chunks count (nd_read n) position count [])"

definition readRegular :: "node option \<Rightarrow> nat \<Rightarrow> byte list res" where
  "readRegular path maximum = rbind (openRegular path) (\<lambda>n. readHandleExact n (nd_size n) maximum)"

text \<open>The digest is taken over the bytes in the order they are read, a megabyte at most at a time.\<close>

definition BUFFER_BYTES :: nat where "BUFFER_BYTES = 1024 * 1024"

definition hashRegular :: "(byte list \<Rightarrow> jstr) \<Rightarrow> node option \<Rightarrow> nat \<Rightarrow> nat \<Rightarrow> (jstr \<times> node) res" where
  "hashRegular sha path expectedBytes maximum =
     rbind (openRegular path) (\<lambda>n.
     if nd_size n \<noteq> expectedBytes then backupFailure ''verification''
     else if maximum < nd_size n \<or> SAFE_MAX < nd_size n then backupFailure ''limit''
     else rbind (read_chunks BUFFER_BYTES (nd_read n) 0 (nd_size n) []) (\<lambda>bs. Inr (sha bs, n)))"

section \<open>The header of the log\<close>

text \<open>The space and the length of the header.\<close>

definition parseLogHeader :: "node \<Rightarrow> (jstr \<times> nat) res" where
  "parseLogHeader n =
     (let sz = nd_size n in
      if sz < LOG_FIXED_HEADER_BYTES then backupFailure ''invalid-log''
      else rbind (readHandleExact n LOG_FIXED_HEADER_BYTES LOG_FIXED_HEADER_BYTES) (\<lambda>fixed.
      if take 8 fixed \<noteq> LOG_MAGIC then backupFailure ''invalid-log''
      else if le_nat (bytes_at 8 2 fixed) \<noteq> 1 \<or> le_nat (bytes_at 10 2 fixed) \<noteq> 0 then backupFailure ''invalid-log''
      else let len = le_nat (bytes_at 12 4 fixed)
      in if len = 0 \<or> MAX_SPACE_BYTES < len then backupFailure ''invalid-log''
         else if sz < LOG_FIXED_HEADER_BYTES + len then backupFailure ''invalid-log''
         else rbind (read_chunks len (nd_read n) LOG_FIXED_HEADER_BYTES len []) (\<lambda>bs.
         case text_decode bs of
           None \<Rightarrow> backupFailure ''invalid-log''
         | Some s \<Rightarrow> if s = [] then backupFailure ''invalid-log'' else Inr (s, LOG_FIXED_HEADER_BYTES + len))))"

section \<open>The snapshot of a checkpoint\<close>

abbreviation mismatch :: "'a res" where
  "mismatch \<equiv> backupFailure ''checkpoint-mismatch''"

text \<open>\<open>take\<close> on the trailer's payload: the next bytes and the rest.\<close>

definition take_bytes :: "nat \<Rightarrow> byte list \<Rightarrow> (byte list \<times> byte list) res" where
  "take_bytes n bs = (if length bs < n then mismatch else Inr (take n bs, drop n bs))"

definition take_u32 :: "byte list \<Rightarrow> (nat \<times> byte list) res" where
  "take_u32 bs = rbind (take_bytes 4 bs) (\<lambda>(b, r). Inr (le_nat b, r))"

text \<open>\<open>snapshotI64\<close>\<close>

definition take_i64 :: "byte list \<Rightarrow> (int \<times> byte list) res" where
  "take_i64 bs = rbind (take_bytes 8 bs) (\<lambda>(b, r). if le_int b < 0 then mismatch else Inr (le_int b, r))"

record sidecar =
  sc_sequence :: int
  sc_watermark :: int
  sc_label :: jstr
  sc_imageStart :: int
  sc_imageEnd :: int
  sc_stamp :: int
  sc_fingerprint :: int

definition snapshot_sidecar :: "byte list \<Rightarrow> sidecar res" where
  "snapshot_sidecar payload =
     rbind (take_bytes 1 payload) (\<lambda>(kind, r0).
     if kind \<noteq> [5] then mismatch
     else rbind (take_i64 r0) (\<lambda>(sequence, r1). rbind (take_i64 r1) (\<lambda>(watermark, r2).
     rbind (take_u32 r2) (\<lambda>(labelCount, r3).
     if labelCount \<noteq> 1 then mismatch
     else rbind (take_u32 r3) (\<lambda>(labelLength, r4).
     if labelLength = 0 \<or> MAX_SPACE_BYTES < labelLength then mismatch
     else rbind (take_bytes labelLength r4) (\<lambda>(lb, r5).
     case text_decode lb of
       None \<Rightarrow> mismatch
     | Some logLabel \<Rightarrow>
         rbind (take_i64 r5) (\<lambda>(imageStart, r6). rbind (take_i64 r6) (\<lambda>(imageEnd, r7). rbind (take_i64 r7) (\<lambda>(stamp, r8).
         rbind (take_u32 r8) (\<lambda>(fingerprint, r9).
         if r9 \<noteq> [] then mismatch
         else Inr \<lparr>sc_sequence = sequence, sc_watermark = watermark, sc_label = logLabel, sc_imageStart = imageStart,
                   sc_imageEnd = imageEnd, sc_stamp = stamp, sc_fingerprint = int fingerprint\<rparr>))))))))))"

text \<open>The loop over the records: where the last one begins, and its payload with the checksum, if there is one.\<close>

function snapshot_records :: "node \<Rightarrow> nat \<Rightarrow> (nat \<times> byte list) option res" where
  "snapshot_records n position =
     (if nd_size n \<le> position then Inr None
      else rbind (readAtExact n position 4) (\<lambda>lengthBytes.
      let len = le_nat lengthBytes; end' = position + 4 + len + 4
      in if len = 0 \<or> MAX_SNAPSHOT_RECORD_BYTES < len then mismatch
         else if SAFE_MAX < end' \<or> nd_size n < end' then mismatch
         else if end' = nd_size n
           then rbind (readAtExact n (position + 4) (len + 4)) (\<lambda>trailer. Inr (Some (position, trailer)))
         else snapshot_records n end'))"
  by pat_completeness auto
termination
  by (relation "measure (\<lambda>(n, position). nd_size n - position)") auto

declare snapshot_records.simps [simp del]

definition verifyCheckpointSnapshot :: "(byte list \<Rightarrow> nat) \<Rightarrow> node option \<Rightarrow> checkpoint \<Rightarrow> jstr \<Rightarrow> unit res" where
  "verifyCheckpointSnapshot crc path point spaceId =
     rbind (openRegular path) (\<lambda>n.
     if int (nd_size n) \<noteq> snapshotBytes point \<or> SAFE_MAX < nd_size n then mismatch
     else rbind (readAtExact n 0 24) (\<lambda>fixed.
     if take 16 fixed \<noteq> SNAPSHOT_MAGIC \<or> le_nat (bytes_at 16 2 fixed) \<noteq> 1 \<or> le_nat (bytes_at 18 2 fixed) \<noteq> 0 then mismatch
     else let spaceLength = le_nat (bytes_at 20 4 fixed)
     in if spaceLength = 0 \<or> MAX_SPACE_BYTES < spaceLength then mismatch
     else rbind (readAtExact n 24 (spaceLength + 8)) (\<lambda>variable.
     case text_decode (take spaceLength variable) of
       None \<Rightarrow> mismatch
     | Some snapshotSpace \<Rightarrow>
         if snapshotSpace \<noteq> spaceId \<or> le_int (bytes_at spaceLength 8 variable) \<noteq> cp_servedVersion point + 1 then mismatch
         else let imageStart = 24 + spaceLength + 8
         in rbind (snapshot_records n imageStart) (\<lambda>last.
            case last of
              None \<Rightarrow> mismatch
            | Some (trailerPosition, trailer) \<Rightarrow>
                let payload = take (length trailer - 4) trailer
                in if crc payload \<noteq> le_nat (drop (length trailer - 4) trailer) then mismatch
                else rbind (snapshot_sidecar payload) (\<lambda>sc.
                if sc_sequence sc \<noteq> cp_servedVersion point \<or> sc_watermark sc \<noteq> watermarkBytes point \<or> sc_label sc \<noteq> spaceId \<or>
                   sc_imageStart sc \<noteq> int imageStart \<or> sc_imageEnd sc \<noteq> int trailerPosition \<or>
                   sc_stamp sc \<noteq> createdAtUnixMs point \<or> sc_fingerprint sc \<noteq> snapshotCrc32 point
                then mismatch else Inr ())))))"

section \<open>The receipt of the artifact\<close>

text \<open>\<open>^fram-native-build\\/v1 ([0-9a-f]{64})\\n$\<close>, and its group.\<close>

definition RECEIPT_FORMAT :: string where "RECEIPT_FORMAT = ''fram-native-build/v1''"

definition artifactReceipt :: "byte list \<Rightarrow> jstr res" where
  "artifactReceipt bs =
     (case text_decode bs of
        None \<Rightarrow> backupFailure ''artifact-receipt''
      | Some text \<Rightarrow>
          (case starts_with_text (js RECEIPT_FORMAT @ [32]) text of
             None \<Rightarrow> backupFailure ''artifact-receipt''
           | Some r \<Rightarrow> if SHA256 (take 64 r) \<and> drop 64 r = [10] then Inr (take 64 r) else backupFailure ''artifact-receipt''))"

section \<open>The manifest\<close>

definition BACKUP_FORMAT :: string where "BACKUP_FORMAT = ''fram-backup/v1''"

abbreviation invalid_manifest :: "'a res" where
  "invalid_manifest \<equiv> backupFailure ''invalid-manifest''"

definition decimal_field :: "(jstr \<times> jsval) list \<Rightarrow> string \<Rightarrow> unit res" where
  "decimal_field fs k = rbind (canonicalDecimal (get_prop fs k) I64_MAX) (\<lambda>_. Inr ())"

definition validateManifest :: "jsval \<Rightarrow> jsval res" where
  "validateManifest v =
     rbind (manifest_object v [''artifactReceipt'', ''checkpoint'', ''format'', ''history'', ''servedVersion'', ''spaceId'']) (\<lambda>m.
     if get_prop m ''format'' \<noteq> js_lit BACKUP_FORMAT then invalid_manifest
     else rbind (backup_strictUtf8 (get_prop m ''spaceId'') MAX_SPACE_BYTES) (\<lambda>_.
     rbind (decimal_field m ''servedVersion'') (\<lambda>_.
     rbind (manifest_object (get_prop m ''history'') [''bytes'', ''file'', ''sha256'']) (\<lambda>h.
     if get_prop h ''file'' \<noteq> js_lit HISTORY_FILE then invalid_manifest
     else rbind (decimal_field h ''bytes'') (\<lambda>_.
     if \<not> sha_test (get_prop h ''sha256'') then invalid_manifest
     else rbind (manifest_object (get_prop m ''checkpoint'') [''createdAtUnixMs'', ''snapshotBytes'', ''snapshotCrc32'', ''watermarkBytes'']) (\<lambda>c.
     rbind (decimal_field c ''createdAtUnixMs'') (\<lambda>_. rbind (decimal_field c ''snapshotBytes'') (\<lambda>_.
     rbind (canonicalDecimal (get_prop c ''snapshotCrc32'') U32_MAX) (\<lambda>_. rbind (decimal_field c ''watermarkBytes'') (\<lambda>_.
     if get_prop c ''watermarkBytes'' \<noteq> get_prop h ''bytes'' then invalid_manifest
     else rbind (manifest_object (get_prop m ''artifactReceipt'') [''bytes'', ''closureSha256'', ''file'', ''format'', ''sha256'']) (\<lambda>a.
     if get_prop a ''file'' \<noteq> js_lit ARTIFACT_FILE then invalid_manifest
     else if get_prop a ''format'' \<noteq> js_lit RECEIPT_FORMAT then invalid_manifest
     else rbind (decimal_field a ''bytes'') (\<lambda>_.
     if \<not> sha_test (get_prop a ''closureSha256'') \<or> \<not> sha_test (get_prop a ''sha256'') then invalid_manifest
     else Inr v))))))))))))"

section \<open>The operations on the new directory\<close>

datatype fs_op =
    Mkdir
  | Create string
  | Append string "byte list"
  | Sync string
  | Rename string string
  | SyncDirectory
  | SyncParent

text \<open>What an asynchronous function has done to the directory when it returns or throws.\<close>

type_synonym 'a act = "fs_op list \<times> 'a res"

definition act_bind :: "'a act \<Rightarrow> ('a \<Rightarrow> 'b act) \<Rightarrow> 'b act" where
  "act_bind m f = (case m of (ops, Inl e) \<Rightarrow> (ops, Inl e) | (ops, Inr x) \<Rightarrow> (case f x of (ops', r) \<Rightarrow> (ops @ ops', r)))"

definition lift_res :: "'a res \<Rightarrow> 'a act" where
  "lift_res r = ([], r)"

definition act_try :: "bool \<Rightarrow> fs_op \<Rightarrow> unit act" where
  "act_try works a = (if works then ([a], Inr ()) else ([], Inl PlainError))"

text \<open>
  The file system's answers: whether \<open>open\<close>, \<open>sync\<close> and \<open>rename\<close> succeed, and how many of the bytes at hand \<open>write\<close> takes at an offset,
  \<open>None\<close> when it throws.
\<close>

record disk =
  dk_create :: "string \<Rightarrow> bool"
  dk_write :: "string \<Rightarrow> nat \<Rightarrow> nat \<Rightarrow> nat option"
  dk_sync :: "string \<Rightarrow> bool"
  dk_rename :: bool
  dk_syncDirectory :: "nat \<Rightarrow> bool"

function write_rest :: "disk \<Rightarrow> string \<Rightarrow> nat \<Rightarrow> byte list \<Rightarrow> unit act" where
  "write_rest dk name at bs =
     (if bs = [] then lift_res (Inr ())
      else case dk_write dk name at (length bs) of
        None \<Rightarrow> lift_res (Inl PlainError)
      | Some k \<Rightarrow>
          if k = 0 then lift_res (backupFailure ''file-write'')
          else act_bind ([Append name (take k bs)], Inr ()) (\<lambda>_. write_rest dk name (at + k) (drop k bs)))"
  by pat_completeness auto
termination
  by (relation "measure (\<lambda>(dk, name, at, bs). length bs)") auto

declare write_rest.simps [simp del]

definition writeSynced :: "disk \<Rightarrow> string \<Rightarrow> byte list \<Rightarrow> unit act" where
  "writeSynced dk name bs =
     act_bind (act_try (dk_create dk name) (Create name)) (\<lambda>_.
     act_bind (write_rest dk name 0 bs) (\<lambda>_. act_try (dk_sync dk name) (Sync name)))"

text \<open>The copying loop returns what it copied, of which the digest is taken.\<close>

function copy_chunks :: "disk \<Rightarrow> (nat \<Rightarrow> nat \<Rightarrow> byte list option) \<Rightarrow> nat \<Rightarrow> byte list \<Rightarrow> byte list act" where
  "copy_chunks dk rd count copied =
     (if count \<le> length copied then lift_res (Inr copied)
      else let wanted = min BUFFER_BYTES (count - length copied)
      in case rd (length copied) wanted of
           None \<Rightarrow> lift_res (Inl PlainError)
         | Some bs \<Rightarrow>
             if take wanted bs = [] then lift_res (backupFailure ''file-changed'')
             else act_bind (write_rest dk HISTORY_FILE (length copied) (take wanted bs)) (\<lambda>_.
               copy_chunks dk rd count (copied @ take wanted bs)))"
  by pat_completeness auto
termination
  by (relation "measure (\<lambda>(dk, rd, count, copied). count - length copied)")
    (auto simp del: take_eq_Nil take_eq_Nil2 length_take simp flip: length_greater_0_conv)

declare copy_chunks.simps [simp del]

definition copyPrefix :: "disk \<Rightarrow> node \<Rightarrow> int \<Rightarrow> byte list act" where
  "copyPrefix dk source count =
     (if int SAFE_MAX < count then lift_res (backupFailure ''limit'')
      else act_bind (act_try (dk_create dk HISTORY_FILE) (Create HISTORY_FILE)) (\<lambda>_.
           act_bind (copy_chunks dk (nd_read source) (nat count) []) (\<lambda>copied.
           act_bind (act_try (dk_sync dk HISTORY_FILE) (Sync HISTORY_FILE)) (\<lambda>_. lift_res (Inr copied)))))"

section \<open>createBackup\<close>

datatype output_stat = Absent | Present | StatFailed

datatype mkdir_result = Made | Exists | NotMade

text \<open>
  The arguments, and what the calls of other programs return: the files at the paths, the two later \<open>stat\<close>s of the log (\<open>None\<close>
  when the call throws), the outcome of the transport for the checkpoint, and the process id.
\<close>

record backup_inputs =
  nb_space :: jsval
  nb_timeout :: jsval
  nb_samePath :: bool
  nb_output :: output_stat
  nb_log :: "node option"
  nb_receipt :: "node option"
  nb_snapshot :: "node option"
  nb_checkpoint :: outcome
  nb_logAfter :: "(bool \<times> nat) option"
  nb_logFinal :: "(bool \<times> nat) option"
  nb_mkdir :: mkdir_result
  nb_disk :: disk
  nb_pid :: string

record backup_receipt =
  br_manifestSha256 :: jstr
  br_spaceId :: jsval
  br_servedVersion :: jsval
  br_historyBytes :: jsval
  br_historySha256 :: jsval

definition framNativeCheckpoint :: "jsval \<Rightarrow> jsval \<Rightarrow> outcome \<Rightarrow> checkpoint res" where
  "framNativeCheckpoint space timeout outc = rbind (framClient True space timeout) (\<lambda>c. framTransportCheckpoint c outc)"

text \<open>An exception that is no \<open>FramBackupError\<close> gets the code of the place that catches it.\<close>

definition catch_as :: "string \<Rightarrow> 'a res \<Rightarrow> 'a res" where
  "catch_as c m = (case m of Inl (BackupError d) \<Rightarrow> Inl (BackupError d) | Inl e \<Rightarrow> backupFailure c | Inr x \<Rightarrow> Inr x)"

definition manifest_value :: "(byte list \<Rightarrow> jstr) \<Rightarrow> jstr \<Rightarrow> byte list \<Rightarrow> jstr \<Rightarrow> checkpoint \<Rightarrow> jstr \<Rightarrow> jsval" where
  "manifest_value sha spaceId receiptBytes closure point historySha256 =
     JObj [
       (js ''artifactReceipt'', JObj [
         (js ''bytes'', JStr (int_text (int (length receiptBytes)))), (js ''closureSha256'', JStr closure),
         (js ''file'', js_lit ARTIFACT_FILE), (js ''format'', js_lit RECEIPT_FORMAT), (js ''sha256'', JStr (sha receiptBytes))]),
       (js ''checkpoint'', JObj [
         (js ''createdAtUnixMs'', JStr (int_text (createdAtUnixMs point))), (js ''snapshotBytes'', JStr (int_text (snapshotBytes point))),
         (js ''snapshotCrc32'', JStr (int_text (snapshotCrc32 point))), (js ''watermarkBytes'', JStr (int_text (watermarkBytes point)))]),
       (js ''format'', js_lit BACKUP_FORMAT),
       (js ''history'', JObj [
         (js ''bytes'', JStr (int_text (watermarkBytes point))), (js ''file'', js_lit HISTORY_FILE), (js ''sha256'', JStr historySha256)]),
       (js ''servedVersion'', JStr (int_text (cp_servedVersion point))),
       (js ''spaceId'', JStr spaceId)]"

definition digest_line :: "jstr \<Rightarrow> byte list" where
  "digest_line d = utf8_encode (d @ js ''  '' @ js MANIFEST_FILE @ [10])"

definition temporary_manifest :: "string \<Rightarrow> string" where
  "temporary_manifest pid = ''.'' @ MANIFEST_FILE @ ''.'' @ pid @ ''.tmp''"

definition field_of :: "jsval \<Rightarrow> string \<Rightarrow> jsval" where
  "field_of v k = (case v of JObj fs \<Rightarrow> get_prop fs k | _ \<Rightarrow> JUndef)"

definition receipt_of :: "jstr \<Rightarrow> jsval \<Rightarrow> backup_receipt" where
  "receipt_of manifestSha256 m =
     \<lparr>br_manifestSha256 = manifestSha256, br_spaceId = field_of m ''spaceId'', br_servedVersion = field_of m ''servedVersion'',
      br_historyBytes = field_of (field_of m ''history'') ''bytes'', br_historySha256 = field_of (field_of m ''history'') ''sha256''\<rparr>"

text \<open>From the copy on, in the directory that has just been made.\<close>

definition fill_backup ::
  "(byte list \<Rightarrow> jstr) \<Rightarrow> backup_inputs \<Rightarrow> jstr \<Rightarrow> node \<Rightarrow> byte list \<Rightarrow> jstr \<Rightarrow> checkpoint \<Rightarrow> backup_receipt act" where
  "fill_backup sha w spaceId source receiptBytes closure point =
     (let dk = nb_disk w; temporary = temporary_manifest (nb_pid w) in
      act_bind (copyPrefix dk source (watermarkBytes point)) (\<lambda>copied.
      act_bind (lift_res (case nb_logFinal w of
          None \<Rightarrow> Inl PlainError
        | Some (regular, n) \<Rightarrow> if \<not> regular \<or> int n < watermarkBytes point then backupFailure ''file-changed'' else Inr ())) (\<lambda>_.
      act_bind (writeSynced dk ARTIFACT_FILE receiptBytes) (\<lambda>_.
      act_bind (lift_res (validateManifest (manifest_value sha spaceId receiptBytes closure point (sha copied)))) (\<lambda>manifest.
      act_bind (lift_res (canonicalManifestBytes manifest)) (\<lambda>manifestBytes.
      act_bind (writeSynced dk MANIFEST_DIGEST_FILE (digest_line (sha manifestBytes))) (\<lambda>_.
      act_bind (act_try (dk_syncDirectory dk 0) SyncDirectory) (\<lambda>_.
      act_bind (writeSynced dk temporary manifestBytes) (\<lambda>_.
      act_bind (act_try (dk_rename dk) (Rename temporary MANIFEST_FILE)) (\<lambda>_.
      act_bind (act_try (dk_syncDirectory dk 1) SyncDirectory) (\<lambda>_.
      act_bind (act_try (dk_syncDirectory dk 2) SyncParent) (\<lambda>_.
        lift_res (Inr (receipt_of (sha manifestBytes) manifest))))))))))))))"

definition createBackup :: "(byte list \<Rightarrow> jstr) \<Rightarrow> (byte list \<Rightarrow> nat) \<Rightarrow> backup_inputs \<Rightarrow> backup_receipt act" where
  "createBackup sha crc w =
     act_bind (lift_res (backup_strictUtf8 (nb_space w) MAX_SPACE_BYTES)) (\<lambda>_.
     let spaceId = js_text (nb_space w) in
     act_bind (lift_res (
       if nb_samePath w then backupFailure ''unsafe-path''
       else case nb_output w of
         Present \<Rightarrow> backupFailure ''output-exists''
       | StatFailed \<Rightarrow> backupFailure ''file-open''
       | Absent \<Rightarrow> openRegular (nb_log w))) (\<lambda>source.
     case
       act_bind (lift_res (parseLogHeader source)) (\<lambda>(headerSpace, headerBytes).
       act_bind (lift_res (if headerSpace \<noteq> spaceId then backupFailure ''space-mismatch'' else Inr ())) (\<lambda>_.
       act_bind (lift_res (readRegular (nb_receipt w) MAX_RECEIPT_BYTES)) (\<lambda>receiptBytes.
       act_bind (lift_res (artifactReceipt receiptBytes)) (\<lambda>closure.
       act_bind (lift_res (framNativeCheckpoint (nb_space w) (nb_timeout w) (nb_checkpoint w))) (\<lambda>point.
       act_bind (lift_res (catch_as ''checkpoint-mismatch'' (verifyCheckpointSnapshot crc (nb_snapshot w) point spaceId))) (\<lambda>_.
       act_bind (lift_res (case nb_logAfter w of
           None \<Rightarrow> Inl PlainError
         | Some (regular, n) \<Rightarrow>
             if \<not> regular \<or> watermarkBytes point < int headerBytes \<or> int n < watermarkBytes point then mismatch else Inr ())) (\<lambda>_.
       act_bind (case nb_mkdir w of
           Made \<Rightarrow> ([Mkdir], Inr ())
         | Exists \<Rightarrow> lift_res (backupFailure ''output-exists'')
         | NotMade \<Rightarrow> lift_res (backupFailure ''file-write'')) (\<lambda>_.
         fill_backup sha w spaceId source receiptBytes closure point))))))))
     of (ops, r) \<Rightarrow> (ops, catch_as ''backup-failed'' r)))"

section \<open>verifyBackup\<close>

text \<open>The entries of the directory in the order \<open>readdir\<close> returns them, \<open>None\<close> when it throws.\<close>

definition verifyBackup :: "(byte list \<Rightarrow> jstr) \<Rightarrow> (string \<times> node) list option \<Rightarrow> jsval \<Rightarrow> backup_receipt res" where
  "verifyBackup sha entries wantedSpace =
     (case entries of
        None \<Rightarrow> backupFailure ''file-open''
      | Some ns \<Rightarrow>
          if sort (map fst ns) \<noteq> COMPLETE_FILES then backupFailure ''verification''
          else if \<not> list_all (\<lambda>(_, n). nd_file n) ns then backupFailure ''verification''
          else rbind (readRegular (map_of ns MANIFEST_FILE) MAX_MANIFEST_BYTES) (\<lambda>manifestBytes.
          rbind (case text_decode manifestBytes of
                   None \<Rightarrow> invalid_manifest
                 | Some text \<Rightarrow> (case json_parse text of Inl _ \<Rightarrow> invalid_manifest | Inr v \<Rightarrow> Inr v)) (\<lambda>m.
          rbind (validateManifest m) (\<lambda>_.
          rbind (canonicalManifestBytes m) (\<lambda>canonical.
          if manifestBytes \<noteq> canonical then invalid_manifest
          else rbind (readRegular (map_of ns MANIFEST_DIGEST_FILE) 256) (\<lambda>digestBytes.
          if digestBytes \<noteq> digest_line (sha manifestBytes) then backupFailure ''verification''
          else if wantedSpace \<noteq> JUndef \<and> wantedSpace \<noteq> field_of m ''spaceId'' then backupFailure ''space-mismatch''
          else let h = field_of m ''history''; a = field_of m ''artifactReceipt'' in
          rbind (hashRegular sha (map_of ns HISTORY_FILE) (nat (text_int (js_text (field_of h ''bytes'')))) SAFE_MAX) (\<lambda>(digest, history).
          if JStr digest \<noteq> field_of h ''sha256'' then backupFailure ''verification''
          else rbind (parseLogHeader history) (\<lambda>(headerSpace, _).
          if JStr headerSpace \<noteq> field_of m ''spaceId'' then backupFailure ''space-mismatch''
          else rbind (hashRegular sha (map_of ns ARTIFACT_FILE) (nat (text_int (js_text (field_of a ''bytes'')))) MAX_RECEIPT_BYTES) (\<lambda>(rdigest, rnode).
          if JStr rdigest \<noteq> field_of a ''sha256'' then backupFailure ''verification''
          else rbind (readHandleExact rnode (nd_size rnode) MAX_RECEIPT_BYTES) (\<lambda>bytes.
          rbind (artifactReceipt bytes) (\<lambda>closure.
          if JStr closure \<noteq> field_of a ''closureSha256'' then backupFailure ''verification''
          else Inr (receipt_of (sha manifestBytes) m))))))))))))"

end
