(* ===== verification/BackupFiles.thy ===== *)
theory BackupFiles
  imports Backup
begin

text \<open>
  Reading files that hold given bytes, however the reads are split, and the formats the backup tool reads from them: the header of the log and the
  receipt of the artifact.
\<close>

section \<open>Files that hold bytes\<close>

text \<open>Every read returns bytes of the content at its position, and some as long as there are any.\<close>

definition serves :: "(nat \<Rightarrow> nat \<Rightarrow> byte list option) \<Rightarrow> byte list \<Rightarrow> bool" where
  "serves rd c \<longleftrightarrow>
     (\<forall>p n. \<exists>k. rd p n = Some (take (min k n) (drop p c)) \<and> (0 < n \<longrightarrow> p < length c \<longrightarrow> 0 < k))"

definition file_holds :: "node \<Rightarrow> byte list \<Rightarrow> bool" where
  "file_holds n c \<longleftrightarrow> nd_file n \<and> nd_size n = length c \<and> serves (nd_read n) c"

lemma servesE:
  assumes "serves rd c"
  obtains k where "rd p n = Some (take (min k n) (drop p c))" "0 < n \<longrightarrow> p < length c \<longrightarrow> 0 < k"
  using assms unfolding serves_def by blast

lemma take_min: "take w (take (min k w) xs) = take (min k w) xs"
  by (simp only: take_take min_absorb2 [OF min.cobounded2])

lemma read_chunks_length: "read_chunks cap rd p count got = Inr bs \<Longrightarrow> length got \<le> count \<Longrightarrow> length bs = count"
proof (induction cap rd p count got rule: read_chunks.induct)
  case (1 cap rd p count got)
  then show ?case
    by (subst (asm) (2) read_chunks.simps) (auto simp: Let_def split: if_splits option.splits)
qed

lemma read_chunks_serves:
  "serves rd c \<Longrightarrow> 0 < cap \<or> count = 0 \<Longrightarrow> p + count \<le> length c \<Longrightarrow> length got \<le> count \<Longrightarrow> got = take (length got) (drop p c) \<Longrightarrow>
    read_chunks cap rd p count got = Inr (take count (drop p c))"
proof (induction cap rd p count got rule: read_chunks.induct)
  case (1 cap rd p count got)
  show ?case
  proof (cases "count \<le> length got")
    case True
    with "1.prems" show ?thesis by (subst read_chunks.simps) simp
  next
    case False
    let ?w = "min cap (count - length got)"
    obtain k where k: "rd (p + length got) ?w = Some (take (min k ?w) (drop (p + length got) c))"
      "0 < ?w \<longrightarrow> p + length got < length c \<longrightarrow> 0 < k"
      using servesE [OF "1.prems"(1)] by blast
    have w: "0 < ?w" using False "1.prems"(2) by auto
    let ?bs = "take (min k ?w) (drop (p + length got) c)"
    have t: "take ?w ?bs = ?bs" by (rule take_min)
    have ne: "?bs \<noteq> []" using k(2) w False "1.prems"(3) by auto
    have len: "length ?bs = min k ?w" using "1.prems"(3,4) by auto
    have g: "got @ ?bs = take (length (got @ ?bs)) (drop p c)"
      unfolding length_append len
      by (subst take_add) (use "1.prems"(5) in \<open>simp add: drop_drop add.commute\<close>)
    have "length (got @ ?bs) \<le> count" unfolding length_append len using False by auto
    then have "read_chunks cap rd p count (got @ ?bs) = Inr (take count (drop p c))"
      using "1.IH" [OF False refl k(1), unfolded t, OF ne "1.prems"(1-3) _ g] by blast
    then show ?thesis
      unfolding read_chunks.simps [of cap rd p count got] Let_def if_not_P [OF False] k(1) option.case t if_not_P [OF ne] .
  qed
qed

lemma read_chunks_short:
  "serves rd c \<Longrightarrow> length c < p + count \<Longrightarrow> length got < count \<Longrightarrow> read_chunks cap rd p count got \<noteq> Inr bs"
proof (induction cap rd p count got rule: read_chunks.induct)
  case (1 cap rd p count got)
  show ?case
  proof
    assume r: "read_chunks cap rd p count got = Inr bs"
    let ?w = "min cap (count - length got)"
    obtain k where k: "rd (p + length got) ?w = Some (take (min k ?w) (drop (p + length got) c))"
      using servesE [OF "1.prems"(1)] by blast
    let ?bs = "take (min k ?w) (drop (p + length got) c)"
    have t: "take ?w ?bs = ?bs" by (rule take_min)
    have n: "\<not> count \<le> length got" using "1.prems"(3) by simp
    note r' = r [unfolded read_chunks.simps [of cap rd p count got] Let_def if_not_P [OF n] k option.case t]
    from r' have ne: "?bs \<noteq> []" by (cases "?bs = []") simp_all
    note r'' = r' [unfolded if_not_P [OF ne]]
    have "length ?bs \<le> length c - (p + length got)" by simp
    then have "length (got @ ?bs) < count" using "1.prems"(2) n ne by (cases "p + length got \<le> length c") auto
    from "1.IH" [OF n refl k, unfolded t, OF ne "1.prems"(1,2) this] r'' show False by blast
  qed
qed

lemma read_chunks_Inr:
  assumes "serves rd c" "0 < cap \<or> count = 0"
  shows "read_chunks cap rd p count [] = Inr bs \<longleftrightarrow> (count = 0 \<or> p + count \<le> length c) \<and> bs = take count (drop p c)"
proof (cases "count = 0")
  case True
  then show ?thesis by (subst read_chunks.simps) auto
next
  case False
  show ?thesis
  proof (cases "p + count \<le> length c")
    case True
    with read_chunks_serves [OF assms True, of "[]"] show ?thesis by auto
  next
    case False
    with read_chunks_short [OF assms(1), of p count "[]" cap bs] \<open>count \<noteq> 0\<close> show ?thesis by auto
  qed
qed

lemma openRegular_holds: "file_holds n c \<Longrightarrow> openRegular (Some n) = Inr n"
  by (simp add: openRegular_def file_holds_def)

lemma readHandleExact_Inr:
  "file_holds n c \<Longrightarrow> readHandleExact n sz maximum = Inr bs \<longleftrightarrow> sz \<le> maximum \<and> sz \<le> SAFE_MAX \<and> sz \<le> length c \<and> bs = take sz c"
  using read_chunks_Inr [of "nd_read n" c sz sz 0] by (auto simp: readHandleExact_def file_holds_def)

lemma readAtExact_Inr:
  "file_holds n c \<Longrightarrow> readAtExact n p count = Inr bs \<longleftrightarrow>
     p \<le> SAFE_MAX \<and> count \<le> SAFE_MAX \<and> (count = 0 \<or> p + count \<le> length c) \<and> bs = take count (drop p c)"
  using read_chunks_Inr [of "nd_read n" c count count p] by (auto simp: readAtExact_def file_holds_def)

lemma readRegular_Inr:
  "file_holds n c \<Longrightarrow> readRegular (Some n) maximum = Inr bs \<longleftrightarrow> length c \<le> maximum \<and> length c \<le> SAFE_MAX \<and> bs = c"
  by (auto simp: readRegular_def openRegular_holds readHandleExact_Inr file_holds_def)

lemma hashRegular_Inr:
  assumes "file_holds n c"
  shows "hashRegular sha (Some n) expected maximum = Inr r \<longleftrightarrow>
    length c = expected \<and> length c \<le> maximum \<and> length c \<le> SAFE_MAX \<and> r = (sha c, n)"
proof -
  have "0 < BUFFER_BYTES" by (simp add: BUFFER_BYTES_def)
  moreover have n: "nd_size n = length c" "serves (nd_read n) c" using assms by (simp_all add: file_holds_def)
  ultimately have "read_chunks BUFFER_BYTES (nd_read n) 0 (length c) [] = Inr c"
    using read_chunks_Inr [of "nd_read n" c BUFFER_BYTES "length c" 0] by simp
  then show ?thesis unfolding hashRegular_def openRegular_holds [OF assms] rbind.simps n(1) by auto
qed

section \<open>The header of the log\<close>

lemma bytes_at_take: "p + n \<le> k \<Longrightarrow> bytes_at p n (take k c) = bytes_at p n c"
  by (simp add: bytes_at_def drop_take)

lemma LOG_MAGIC_FRAMLOG: "LOG_MAGIC = FRAMLOG_MAGIC"
  by (simp add: LOG_MAGIC_def FRAMLOG_MAGIC_def)

lemma parseFramlogHeader_iff:
  "parseFramlogHeader (Some c) = Inr s \<longleftrightarrow>
     16 \<le> length c \<and> take 8 c = LOG_MAGIC \<and> le_nat (bytes_at 8 2 c) = 1 \<and> le_nat (bytes_at 10 2 c) = 0 \<and>
     0 < le_nat (bytes_at 12 4 c) \<and> le_nat (bytes_at 12 4 c) \<le> MAX_SPACE_BYTES \<and> 16 + le_nat (bytes_at 12 4 c) \<le> length c \<and>
     text_decode (bytes_at 16 (le_nat (bytes_at 12 4 c)) c) = Some s \<and> s \<noteq> []"
  unfolding parseFramlogHeader_def LOG_MAGIC_FRAMLOG Let_def
  by (cases "text_decode (bytes_at 16 (le_nat (bytes_at 12 4 c)) c)") (auto split: if_splits)

text \<open>The native tool and the Durable Object read the same headers.\<close>

lemma parseLogHeader_iff:
  assumes "file_holds n c"
  shows "parseLogHeader n = Inr (s, hb) \<longleftrightarrow>
    parseFramlogHeader (Some c) = Inr s \<and> hb = LOG_FIXED_HEADER_BYTES + le_nat (bytes_at 12 4 c)"
proof (cases "16 \<le> length c")
  case False
  with assms show ?thesis by (simp add: parseLogHeader_def Let_def LOG_FIXED_HEADER_BYTES_def file_holds_def parseFramlogHeader_iff)
next
  case True
  let ?len = "le_nat (bytes_at 12 4 c)"
  have sz: "nd_size n = length c" "serves (nd_read n) c" using assms by (simp_all add: file_holds_def)
  have h: "readHandleExact n 16 16 = Inr (take 16 c)" using True assms by (simp add: readHandleExact_Inr SAFE_MAX_def)
  have b: "take 8 (take 16 c) = take 8 c" "bytes_at 8 2 (take 16 c) = bytes_at 8 2 c" "bytes_at 10 2 (take 16 c) = bytes_at 10 2 c"
    "bytes_at 12 4 (take 16 c) = bytes_at 12 4 c"
    by (simp_all add: bytes_at_take)
  have r: "read_chunks ?len (nd_read n) 16 ?len [] = Inr (bytes_at 16 ?len c)" if "16 + ?len \<le> length c"
    using read_chunks_Inr [OF sz(2), of ?len ?len 16] that by (auto simp: bytes_at_def)
  show ?thesis
  proof (cases "take 8 c = LOG_MAGIC \<and> le_nat (bytes_at 8 2 c) = 1 \<and> le_nat (bytes_at 10 2 c) = 0 \<and> 0 < ?len \<and> ?len \<le> MAX_SPACE_BYTES \<and>
      16 + ?len \<le> length c")
    case True
    then have "parseLogHeader n = (case text_decode (bytes_at 16 ?len c) of None \<Rightarrow> backupFailure ''invalid-log''
        | Some s \<Rightarrow> if s = [] then backupFailure ''invalid-log'' else Inr (s, 16 + ?len))"
      using \<open>16 \<le> length c\<close> r
      unfolding parseLogHeader_def Let_def LOG_FIXED_HEADER_BYTES_def sz(1) h rbind.simps b by simp
    with True \<open>16 \<le> length c\<close> show ?thesis
      by (cases "text_decode (bytes_at 16 ?len c)") (auto simp: parseFramlogHeader_iff LOG_FIXED_HEADER_BYTES_def)
  next
    case False
    then have "parseLogHeader n \<noteq> Inr (s, hb)"
      using \<open>16 \<le> length c\<close> by (auto simp: parseLogHeader_def Let_def LOG_FIXED_HEADER_BYTES_def sz(1) h b split: if_splits)
    with False show ?thesis by (auto simp: parseFramlogHeader_iff)
  qed
qed

lemma parseFramlogHeader_prefix:
  assumes "parseFramlogHeader (Some c) = Inr s" "LOG_FIXED_HEADER_BYTES + le_nat (bytes_at 12 4 c) \<le> k"
  shows "parseFramlogHeader (Some (take k c)) = Inr s"
proof -
  have k: "16 + le_nat (bytes_at 12 4 c) \<le> k" using assms(2) by (simp add: LOG_FIXED_HEADER_BYTES_def)
  have "bytes_at 12 4 (take k c) = bytes_at 12 4 c" "bytes_at 8 2 (take k c) = bytes_at 8 2 c" "bytes_at 10 2 (take k c) = bytes_at 10 2 c"
    "bytes_at 16 (le_nat (bytes_at 12 4 c)) (take k c) = bytes_at 16 (le_nat (bytes_at 12 4 c)) c" "take 8 (take k c) = take 8 c"
    using k by (simp_all add: bytes_at_take)
  with assms(1) k show ?thesis unfolding parseFramlogHeader_iff by simp
qed

end
