(* ===== verification/BackupJson.thy ===== *)
theory BackupJson
  imports BackupFiles
begin

text \<open>
  The canonical JSON of a manifest: it is ASCII apart from surrogate pairs, \<open>JSON.parse\<close> reads it back, and a manifest the tool
  writes is within the limit on its size.
\<close>

section \<open>Canonical strings\<close>

lemma ascii_unit_plain [simp]: "unat u < 127 \<Longrightarrow> ascii_unit u = [u]"
  by (simp add: ascii_unit_def)

lemma hex_plain: "hex_digit u \<Longrightarrow> unat u < 127"
  by (auto simp: hex_digit_def)

lemma pad_hex_plain: "u \<in> set (pad_start 4 (nat_text 16 n)) \<Longrightarrow> unat u < 127"
  using nat_text_hex [of n] hex_digit_unit [of 0] hex_plain by (auto simp: pad_start_def list_all_iff)

lemma escape_plain: "u \<in> set (json_escape v) \<Longrightarrow> unat u < 127"
proof (cases "map_of [(34, 34), (92, 92), (8, 98), (9, 116), (10, 110), (12, 102), (13, 114)] (unat v) :: nat option")
  case None
  then show "u \<in> set (json_escape v) \<Longrightarrow> unat u < 127" unfolding json_escape_def None using pad_hex_plain by auto
next
  case (Some c)
  then have "c < 127" by (auto split: if_splits)
  with Some show "u \<in> set (json_escape v) \<Longrightarrow> unat u < 127" unfolding json_escape_def Some by (auto simp: unat_of_nat)
qed

lemma ascii_units_id: "\<forall>u \<in> set p. unat u < 127 \<Longrightarrow> concat (map ascii_unit p) = p"
  by (induction p) auto

lemma escape_high: "127 \<le> unat u \<Longrightarrow> json_escape u = 92 # 117 # pad_start 4 (nat_text 16 (unat u))"
  by (simp add: json_escape_def)

lemma piece_ascii: "piece p u \<Longrightarrow> piece (concat (map ascii_unit p)) u"
proof -
  assume p: "piece p u"
  show ?thesis
  proof (cases "p = json_escape u")
    case True
    then show ?thesis using escape_plain ascii_units_id [of p] p by simp
  next
    case False
    with p have u: "p = [u]" "u \<noteq> 34" "u \<noteq> 92" "32 \<le> unat u" by (auto simp: piece_def)
    then show ?thesis using escape_high [of u] by (auto simp: ascii_unit_def piece_def)
  qed
qed

lemma canonical_pieces: "\<exists>ps. canonical_quote s = 34 # concat ps @ [34] \<and> list_all2 piece ps s"
proof -
  obtain ps where ps: "json_units s = concat ps" "list_all2 piece ps s" using json_units_pieces by blast
  have "concat (map ascii_unit (concat ps)) = concat (map (\<lambda>p. concat (map ascii_unit p)) ps)" for ps :: "jstr list"
    by (induction ps) auto
  then have "canonical_quote s = 34 # concat (map (\<lambda>p. concat (map ascii_unit p)) ps) @ [34]"
    by (simp add: canonical_quote_def json_quote_def ps(1))
  moreover have "list_all2 piece (map (\<lambda>p. concat (map ascii_unit p)) ps) s"
    using ps(2) piece_ascii by (simp add: list_all2_map1 list_all2_mono)
  ultimately show ?thesis by blast
qed

lemma reads_canonical: "reads (canonical_quote s) (JStr s)"
proof -
  obtain ps where ps: "canonical_quote s = 34 # concat ps @ [34]" "list_all2 piece ps s" using canonical_pieces by blast
  have "json_value n (canonical_quote s @ r) = Inr (JStr s, r)" if "0 < n" for n r
    using that pieces_read [OF ps(2), of r] by (cases n) (simp_all add: ps(1))
  then show ?thesis by (simp add: reads_def) (simp add: ps(1))
qed

text \<open>Names of properties are written as they are.\<close>

definition plain_name :: "string \<Rightarrow> bool" where
  "plain_name k \<longleftrightarrow> list_all (\<lambda>c. of_char c < (127 :: nat)) k"

lemma canonical_name: "plain_name k \<Longrightarrow> canonical_quote (js k) = json_quote (js k)"
proof -
  assume "plain_name k"
  then have k: "\<forall>u \<in> set (js k). unat u < 127" by (auto simp: plain_name_def list_all_iff js_def)
  have "\<forall>u \<in> set (json_units s). unat u < 127" if "\<forall>u \<in> set s. unat u < 127" for s
    using that
  proof (induction s rule: json_units.induct)
    case (3 u v us)
    then show ?case using escape_plain [of _ u] by (auto simp: json_unit_def split: if_splits)
  next
    case (2 u)
    then show ?case using escape_plain [of _ u] by (auto simp: json_unit_def split: if_splits)
  qed simp
  with k show ?thesis by (simp add: canonical_quote_def json_quote_def ascii_units_id)
qed

section \<open>Well-formed text\<close>

lemma well_formed16_append: "well_formed16 s \<Longrightarrow> well_formed16 t \<Longrightarrow> well_formed16 (s @ t)"
proof (induction s rule: well_formed16.induct)
  case (2 u)
  then show ?case by (cases t) (auto simp: surrogate_def high_surrogate_def low_surrogate_def)
qed (auto split: if_splits)

lemma well_formed16_plain: "\<forall>u \<in> set s. \<not> surrogate (unat u) \<Longrightarrow> well_formed16 s"
  by (induction s rule: well_formed16.induct) (auto simp: surrogate_def high_surrogate_def low_surrogate_def)

lemma plain_not_surrogate: "unat u < 127 \<Longrightarrow> \<not> surrogate (unat u)"
  by (simp add: surrogate_def high_surrogate_def low_surrogate_def)

lemma plain_units [simp]: "\<not> surrogate 92" "\<not> surrogate 117" "\<not> surrogate 34"
  by (simp_all add: surrogate_def high_surrogate_def low_surrogate_def)

lemma well_formed16_json_unit: "surrogate (unat u) \<or> \<not> surrogate (unat u) \<Longrightarrow> well_formed16 (json_unit u)"
  using escape_plain [of _ u] by (intro well_formed16_plain) (auto simp: json_unit_def plain_not_surrogate split: if_splits)

lemma well_formed16_units: "well_formed16 (json_units s)"
proof (induction s rule: json_units.induct)
  case (3 u v us)
  show ?case
  proof (cases "high_surrogate (unat u) \<and> low_surrogate (unat v)")
    case True
    with 3 show ?thesis by simp
  next
    case False
    have "well_formed16 (json_unit u @ json_units (v # us))" using 3 False by (intro well_formed16_append well_formed16_json_unit) auto
    with False show ?thesis by auto
  qed
qed (simp_all add: well_formed16_json_unit)

lemma surrogate_kept [simp]: "surrogate (unat u) \<Longrightarrow> ascii_unit u = [u]"
  by (simp add: ascii_unit_def)

lemma well_formed16_unit: "\<not> surrogate (unat u) \<Longrightarrow> well_formed16 (ascii_unit u)"
  using pad_hex_plain [of _ "unat u"] by (intro well_formed16_plain) (auto simp: ascii_unit_def plain_not_surrogate split: if_splits)

lemma well_formed16_ascii: "well_formed16 s \<Longrightarrow> well_formed16 (concat (map ascii_unit s))"
proof (induction s rule: well_formed16.induct)
  case (2 u)
  then have "\<not> surrogate (unat u)" by (simp add: surrogate_def high_surrogate_def low_surrogate_def)
  then show ?case using well_formed16_unit [of u] by simp
next
  case (3 u v us)
  show ?case
  proof (cases "high_surrogate (unat u)")
    case True
    with 3 have v: "low_surrogate (unat v)" and r: "well_formed16 (concat (map ascii_unit us))" by (auto split: if_splits)
    have "surrogate (unat u)" "surrogate (unat v)"
      using True v by (auto simp: surrogate_def high_surrogate_def low_surrogate_def)
    then have "concat (map ascii_unit (u # v # us)) = u # v # concat (map ascii_unit us)" by simp
    with True v r show ?thesis by (simp only: well_formed16.simps if_True)
  next
    case False
    with 3 have n: "\<not> surrogate (unat u)" and r: "well_formed16 (concat (map ascii_unit (v # us)))"
      by (auto simp: surrogate_def high_surrogate_def low_surrogate_def split: if_splits)
    from well_formed16_append [OF well_formed16_unit [OF n] r] show ?thesis by (simp only: list.map concat.simps)
  qed
qed simp

lemma well_formed16_canonical: "well_formed16 (canonical_quote s)"
proof -
  have "well_formed16 ([34] @ json_units s @ [34])"
    by (intro well_formed16_append well_formed16_units) (simp_all add: surrogate_def high_surrogate_def low_surrogate_def)
  then show ?thesis using well_formed16_ascii [of "json_quote s"] by (simp add: canonical_quote_def json_quote_def)
qed

section \<open>Decimals\<close>

lemma DECIMAL_int_text: "DECIMAL (int_text z) \<longleftrightarrow> 0 \<le> z"
proof (cases "z < 0")
  case True
  then show ?thesis by (simp add: DECIMAL_def int_text_def positive_text_def)
next
  case False
  then show ?thesis using positive_nat_text [of "nat z"] int_text_0 by (cases "z = 0") (auto simp: DECIMAL_def int_text_def)
qed

lemma canonicalDecimal_int: "canonicalDecimal (JStr (int_text z)) maximum = Inr t \<longleftrightarrow> 0 \<le> z \<and> z \<le> maximum \<and> t = int_text z"
  by (auto simp: canonicalDecimal_def DECIMAL_int_text)

lemma int_text_length: "0 \<le> z \<Longrightarrow> z \<le> I64_MAX \<Longrightarrow> length (int_text z) \<le> 19"
proof -
  assume z: "0 \<le> z" "z \<le> I64_MAX"
  then have "nat z < 10 ^ 19" by (simp add: I64_MAX_def)
  with z show ?thesis using to_digits_length [of 10 "nat z" 19] by (simp add: int_text_def nat_text_def)
qed

section \<open>The manifest\<close>

text \<open>The size in code units of a canonical string.\<close>

lemma ascii_unit_length: "length (ascii_unit u) \<le> 6"
  using pad_hex_length [of "unat u"] unat_16_less [of u] by (simp add: ascii_unit_def)

lemma json_unit_size: "length (json_unit u) \<le> 6"
  using pad_hex_length [of "unat u"] unat_16_less [of u] by (simp add: json_unit_def json_escape_def split: option.split)

lemma json_quote_size: "length (json_quote s) \<le> 6 * length s + 2"
proof -
  have "length (json_units s) \<le> 6 * length s"
  proof (induction s rule: json_units.induct)
    case (3 u v us)
    then show ?case using json_unit_size [of u] by auto
  qed (simp_all add: json_unit_size)
  then show ?thesis by (simp add: json_quote_def)
qed

lemma canonical_size: "length (canonical_quote s) \<le> 36 * length s + 12"
proof -
  have "length (concat (map ascii_unit t)) \<le> 6 * length t" for t
  proof (induction t)
    case (Cons u t)
    then show ?case using ascii_unit_length [of u] by simp
  qed simp
  from this [of "json_quote s"] json_quote_size [of s] show ?thesis by (simp add: canonical_quote_def)
qed

lemma utf8_size: "length (utf8_encode s) \<le> 4 * length s" "length s \<le> length (utf8_encode s)"
proof -
  have "length (concat (map utf8_of cs)) \<le> 4 * length cs" for cs
    by (induction cs) (auto simp: utf8_of_def)
  moreover have "length (code_points s) \<le> length s"
    by (induction s rule: code_points.induct) auto
  ultimately show "length (utf8_encode s) \<le> 4 * length s"
    unfolding utf8_encode_def length_map by (meson le_trans mult_le_mono2)
  have one: "0 < length (utf8_of c)" and four: "65536 \<le> c \<Longrightarrow> length (utf8_of c) = 4" for c
    by (simp_all add: utf8_of_def)
  have "length s \<le> length (concat (map utf8_of (code_points s)))"
  proof (induction s rule: code_points.induct)
    case (2 u)
    then show ?case using one [of "if surrogate (unat u) then 65533 else unat u"] by (simp add: Suc_le_eq)
  next
    case (3 u v us)
    show ?case
    proof (cases "high_surrogate (unat u) \<and> low_surrogate (unat v)")
      case True
      with 3 four [of "65536 + (unat u - 55296) * 1024 + (unat v - 56320)"] show ?thesis by simp
    next
      case False
      then have c: "code_points (u # v # us) = (if surrogate (unat u) then 65533 else unat u) # code_points (v # us)" by auto
      have "length (v # us) \<le> length (concat (map utf8_of (code_points (v # us))))" using 3(2) False by blast
      then show ?thesis unfolding c list.map concat.simps length_append
        using one [of "if surrogate (unat u) then 65533 else unat u"] by (simp only: list.size)
    qed
  qed simp
  then show "length s \<le> length (utf8_encode s)" by (simp add: utf8_encode_def)
qed

text \<open>An object whose properties are in order and have plain names.\<close>

lemma canonical_object_json:
  "sorted (map fst kts) \<Longrightarrow> \<forall>k \<in> set (map fst kts). canonical_quote k = json_quote k \<Longrightarrow> canonical_object kts = json_object kts"
proof -
  assume s: "sorted (map fst kts)" and k: "\<forall>k \<in> set (map fst kts). canonical_quote k = json_quote k"
  have "map (\<lambda>(k, t). canonical_quote k @ 58 # t) kts = map json_member kts"
    using k by (auto simp: json_member_def)
  then show ?thesis unfolding canonical_object_def json_object_def sort_key_id_if_sorted [OF s] by (simp only:)
qed

lemma artifact_keys: "sorted (map js [''bytes'', ''closureSha256'', ''file'', ''format'', ''sha256''])" 
  by (simp add: js_def)

lemma checkpoint_keys: "sorted (map js [''createdAtUnixMs'', ''snapshotBytes'', ''snapshotCrc32'', ''watermarkBytes''])"
  by (simp add: js_def)

lemma history_keys: "sorted (map js [''bytes'', ''file'', ''sha256''])"
  by (simp add: js_def)

lemma manifest_keys: "sorted (map js [''artifactReceipt'', ''checkpoint'', ''format'', ''history'', ''servedVersion'', ''spaceId''])"
  by (simp add: js_def)

lemma manifest_names:
  "\<forall>k \<in> set (map js [''artifactReceipt'', ''checkpoint'', ''format'', ''history'', ''servedVersion'', ''spaceId'', ''bytes'', ''closureSha256'',
     ''file'', ''sha256'', ''createdAtUnixMs'', ''snapshotBytes'', ''snapshotCrc32'', ''watermarkBytes'']). canonical_quote k = json_quote k"
proof -
  have "list_all plain_name [''artifactReceipt'', ''checkpoint'', ''format'', ''history'', ''servedVersion'', ''spaceId'', ''bytes'', ''closureSha256'',
     ''file'', ''sha256'', ''createdAtUnixMs'', ''snapshotBytes'', ''snapshotCrc32'', ''watermarkBytes'']"
    by (simp add: plain_name_def)
  then show ?thesis using canonical_name by (simp add: list_all_iff)
qed

text \<open>A value whose canonical text is read back as it is.\<close>

definition written_as :: "jsval \<Rightarrow> jstr \<Rightarrow> bool" where
  "written_as v t \<longleftrightarrow> canonicalJsonValue v = Inr t \<and> reads t v \<and> well_formed16 t"

lemma written_string: "written_as (JStr s) (canonical_quote s)"
  by (simp add: written_as_def canonicalJsonValue.simps [of "JStr s"] reads_canonical well_formed16_canonical)

lemma well_formed16_join: "\<forall>t \<in> set ts. well_formed16 t \<Longrightarrow> well_formed16 (join_with 44 ts)"
proof (induction "44 :: 16 word" ts rule: join_with.induct)
  case (3 x y xs)
  have "well_formed16 ([44] @ join_with 44 (y # xs))"
    using 3 by (intro well_formed16_append) (simp_all add: surrogate_def high_surrogate_def low_surrogate_def)
  with 3 well_formed16_append [of x] show ?case by simp
qed simp_all

lemma unit_well_formed: "\<not> surrogate (unat u) \<Longrightarrow> well_formed16 t \<Longrightarrow> well_formed16 (u # t)"
  using well_formed16_append [of "[u]" t] by simp

lemma json_object_well_formed:
  assumes "\<forall>(k, t) \<in> set kts. well_formed16 t \<and> well_formed16 (json_quote k)"
  shows "well_formed16 (json_object kts)"
proof -
  have b: "\<not> surrogate (unat (58 :: 16 word))" "\<not> surrogate (unat (123 :: 16 word))" "well_formed16 [125 :: 16 word]"
    by (simp_all add: surrogate_def high_surrogate_def low_surrogate_def)
  have "\<forall>t \<in> set (map json_member kts). well_formed16 t"
    using assms by (auto simp: json_member_def intro!: well_formed16_append unit_well_formed [OF b(1)])
  then show ?thesis unfolding json_object_def by (intro unit_well_formed [OF b(2)] well_formed16_append well_formed16_join b(3))
qed

lemma written_object:
  assumes "list_all2 (\<lambda>(k, v) (k', t). k = k' \<and> written_as v t) fs kts" "sorted (map fst fs)" "distinct (map fst fs)"
    "\<forall>k \<in> set (map fst fs). canonical_quote k = json_quote k"
  shows "written_as (JObj fs) (json_object kts)"
proof -
  have keys: "map fst kts = map fst fs" and r: "rmap (\<lambda>kv. canonicalJsonValue (snd kv)) fs = Inr (map snd kts)"
    and m: "list_all2 (\<lambda>(k, t) (k', v). k' = k \<and> reads t v) kts fs" and wf: "\<forall>(k, t) \<in> set kts. well_formed16 t"
    using assms(1) by (induction rule: list_all2_induct) (auto simp: written_as_def)
  have "zip (map fst fs) (map snd kts) = kts" unfolding keys [symmetric] by (simp add: zip_map_fst_snd)
  then have "canonicalJsonValue (JObj fs) = Inr (canonical_object kts)"
    by (subst canonicalJsonValue.simps) (simp add: r)
  moreover have "canonical_object kts = json_object kts"
    using assms(2,4) unfolding keys [symmetric] by (rule canonical_object_json)
  moreover have "\<forall>(k, t) \<in> set kts. well_formed16 t \<and> well_formed16 (json_quote k)"
  proof (rule ballI)
    fix kt assume kt: "kt \<in> set kts"
    then have "fst kt \<in> set (map fst fs)" unfolding keys [symmetric] by simp
    then have "json_quote (fst kt) = canonical_quote (fst kt)" by (rule bspec [OF assms(4), THEN sym])
    then have "well_formed16 (json_quote (fst kt))" using well_formed16_canonical by simp
    with wf kt show "case kt of (k, t) \<Rightarrow> well_formed16 t \<and> well_formed16 (json_quote k)" by auto
  qed
  then have "well_formed16 (json_object kts)" by (rule json_object_well_formed)
  ultimately show ?thesis using reads_object [OF m assms(3)] by (simp add: written_as_def)
qed

lemma json_object_size: "length (json_object kts) \<le> 2 + sum_list (map (\<lambda>(k, t). 6 * length k + length t + 4) kts)"
proof -
  have "length (join_with 44 ts) \<le> sum_list (map (\<lambda>t. Suc (length t)) ts)" for ts :: "jstr list"
    by (induction "44 :: 16 word" ts rule: join_with.induct) auto
  from this [of "map json_member kts"]
  have "length (join_with 44 (map json_member kts)) \<le> sum_list (map (\<lambda>kt. Suc (length (json_member kt))) kts)" by (simp add: comp_def)
  also have "\<dots> \<le> sum_list (map (\<lambda>(k, t). 6 * length k + length t + 4) kts)"
  proof (rule sum_list_mono)
    fix kt assume "kt \<in> set kts"
    show "Suc (length (json_member kt)) \<le> (case kt of (k, t) \<Rightarrow> 6 * length k + length t + 4)"
      using json_quote_size [of "fst kt"] by (cases kt) (simp add: json_member_def)
  qed
  finally show ?thesis by (simp add: json_object_def)
qed

text \<open>Objects of strings.\<close>

definition string_object :: "(string \<times> jstr) list \<Rightarrow> jsval" where
  "string_object kss = JObj (map (\<lambda>(k, s). (js k, JStr s)) kss)"

definition string_text :: "(string \<times> jstr) list \<Rightarrow> jstr" where
  "string_text kss = json_object (map (\<lambda>(k, s). (js k, canonical_quote s)) kss)"

definition text_bound :: "(string \<times> jstr) list \<Rightarrow> nat" where
  "text_bound kss = 2 + sum_list (map (\<lambda>(k, s). 6 * length k + 36 * length s + 16) kss)"

lemma keys_of_strings: "map fst (map (\<lambda>(k, s). (js k, f s)) kss) = map js (map fst kss)"
  by (simp add: comp_def case_prod_beta)

lemma written_strings:
  assumes "sorted (map js (map fst kss))" "distinct (map js (map fst kss))"
    "\<forall>k \<in> set (map js (map fst kss)). canonical_quote k = json_quote k"
  shows "written_as (string_object kss) (string_text kss)" "length (string_text kss) \<le> text_bound kss"
proof -
  show "written_as (string_object kss) (string_text kss)"
    unfolding string_object_def string_text_def
  proof (rule written_object)
    show "list_all2 (\<lambda>(k, v) (k', t). k = k' \<and> written_as v t) (map (\<lambda>(k, s). (js k, JStr s)) kss) (map (\<lambda>(k, s). (js k, canonical_quote s)) kss)"
      by (induction kss) (auto simp: written_string)
  qed (use assms in \<open>simp_all only: keys_of_strings\<close>)
  have "length (string_text kss) \<le> 2 + sum_list (map (\<lambda>(k, t). 6 * length k + length t + 4) (map (\<lambda>(k, s). (js k, canonical_quote s)) kss))"
    unfolding string_text_def by (rule json_object_size)
  also have "\<dots> \<le> text_bound kss"
    unfolding text_bound_def map_map comp_def
  proof (intro add_left_mono sum_list_mono)
    fix ks assume "ks \<in> set kss"
    show "(case case ks of (k, s) \<Rightarrow> (js k, canonical_quote s) of (k, t) \<Rightarrow> 6 * length k + length t + 4)
      \<le> (case ks of (k, s) \<Rightarrow> 6 * length k + 36 * length s + 16)"
      using canonical_size [of "snd ks"] by (cases ks) (simp add: js_def)
  qed
  finally show "length (string_text kss) \<le> text_bound kss" .
qed

text \<open>The manifest: what its parts are, and the text the tool writes.\<close>

definition artifact_part :: "(byte list \<Rightarrow> jstr) \<Rightarrow> byte list \<Rightarrow> jstr \<Rightarrow> (string \<times> jstr) list" where
  "artifact_part sha receiptBytes closure =
     [(''bytes'', int_text (int (length receiptBytes))), (''closureSha256'', closure), (''file'', js ARTIFACT_FILE),
      (''format'', js RECEIPT_FORMAT), (''sha256'', sha receiptBytes)]"

definition checkpoint_part :: "checkpoint \<Rightarrow> (string \<times> jstr) list" where
  "checkpoint_part point =
     [(''createdAtUnixMs'', int_text (createdAtUnixMs point)), (''snapshotBytes'', int_text (snapshotBytes point)),
      (''snapshotCrc32'', int_text (snapshotCrc32 point)), (''watermarkBytes'', int_text (watermarkBytes point))]"

definition history_part :: "checkpoint \<Rightarrow> jstr \<Rightarrow> (string \<times> jstr) list" where
  "history_part point historySha256 =
     [(''bytes'', int_text (watermarkBytes point)), (''file'', js HISTORY_FILE), (''sha256'', historySha256)]"

lemma manifest_value_parts:
  "manifest_value sha spaceId receiptBytes closure point hs =
     JObj [(js ''artifactReceipt'', string_object (artifact_part sha receiptBytes closure)),
       (js ''checkpoint'', string_object (checkpoint_part point)), (js ''format'', js_lit BACKUP_FORMAT),
       (js ''history'', string_object (history_part point hs)), (js ''servedVersion'', JStr (int_text (cp_servedVersion point))),
       (js ''spaceId'', JStr spaceId)]"
  by (simp add: manifest_value_def string_object_def artifact_part_def checkpoint_part_def history_part_def js_lit_def)

lemma part_names:
  "map fst (artifact_part sha receiptBytes closure) = [''bytes'', ''closureSha256'', ''file'', ''format'', ''sha256'']"
  "map fst (checkpoint_part point) = [''createdAtUnixMs'', ''snapshotBytes'', ''snapshotCrc32'', ''watermarkBytes'']"
  "map fst (history_part point hs) = [''bytes'', ''file'', ''sha256'']"
  by (simp_all add: artifact_part_def checkpoint_part_def history_part_def)

lemma artifact_written:
  "written_as (string_object (artifact_part sha receiptBytes closure)) (string_text (artifact_part sha receiptBytes closure))"
  "length (string_text (artifact_part sha receiptBytes closure)) \<le> text_bound (artifact_part sha receiptBytes closure)"
  by (rule written_strings; unfold part_names; use artifact_keys manifest_names in auto)+

lemma checkpoint_written:
  "written_as (string_object (checkpoint_part point)) (string_text (checkpoint_part point))"
  "length (string_text (checkpoint_part point)) \<le> text_bound (checkpoint_part point)"
  by (rule written_strings; unfold part_names; use checkpoint_keys manifest_names in auto)+

lemma history_written:
  "written_as (string_object (history_part point hs)) (string_text (history_part point hs))"
  "length (string_text (history_part point hs)) \<le> text_bound (history_part point hs)"
  by (rule written_strings; unfold part_names; use history_keys manifest_names in auto)+

definition manifest_text :: "(byte list \<Rightarrow> jstr) \<Rightarrow> jstr \<Rightarrow> byte list \<Rightarrow> jstr \<Rightarrow> checkpoint \<Rightarrow> jstr \<Rightarrow> jstr" where
  "manifest_text sha spaceId receiptBytes closure point hs =
     json_object [(js ''artifactReceipt'', string_text (artifact_part sha receiptBytes closure)),
       (js ''checkpoint'', string_text (checkpoint_part point)), (js ''format'', canonical_quote (js BACKUP_FORMAT)),
       (js ''history'', string_text (history_part point hs)), (js ''servedVersion'', canonical_quote (int_text (cp_servedVersion point))),
       (js ''spaceId'', canonical_quote spaceId)]"

lemma manifest_written: "written_as (manifest_value sha spaceId receiptBytes closure point hs) (manifest_text sha spaceId receiptBytes closure point hs)"
  unfolding manifest_value_parts manifest_text_def
proof (rule written_object)
  show "sorted (map fst [(js ''artifactReceipt'', string_object (artifact_part sha receiptBytes closure)),
       (js ''checkpoint'', string_object (checkpoint_part point)), (js ''format'', js_lit BACKUP_FORMAT),
       (js ''history'', string_object (history_part point hs)), (js ''servedVersion'', JStr (int_text (cp_servedVersion point))),
       (js ''spaceId'', JStr spaceId)])"
    using manifest_keys by simp
qed (use manifest_names in \<open>auto simp: artifact_written checkpoint_written history_written js_lit_def written_string\<close>)

lemma manifest_text_size:
  "length (manifest_text sha spaceId receiptBytes closure point hs) \<le>
     text_bound (artifact_part sha receiptBytes closure) + text_bound (checkpoint_part point) + text_bound (history_part point hs) +
     36 * length (int_text (cp_servedVersion point)) + 36 * length spaceId + 1200"
proof -
  let ?kts = "[(js ''artifactReceipt'', string_text (artifact_part sha receiptBytes closure)),
       (js ''checkpoint'', string_text (checkpoint_part point)), (js ''format'', canonical_quote (js BACKUP_FORMAT)),
       (js ''history'', string_text (history_part point hs)), (js ''servedVersion'', canonical_quote (int_text (cp_servedVersion point))),
       (js ''spaceId'', canonical_quote spaceId)]"
  have "length (json_object ?kts) \<le> 2 + sum_list (map (\<lambda>(k, t). 6 * length k + length t + 4) ?kts)" by (rule json_object_size)
  also have "\<dots> \<le> text_bound (artifact_part sha receiptBytes closure) + text_bound (checkpoint_part point) + text_bound (history_part point hs) +
     36 * length (int_text (cp_servedVersion point)) + 36 * length spaceId + 1200"
    using artifact_written(2) [of sha receiptBytes closure] checkpoint_written(2) [of point] history_written(2) [of point hs]
      canonical_size [of "int_text (cp_servedVersion point)"] canonical_size [of spaceId] canonical_size [of "js BACKUP_FORMAT"]
    by (simp add: js_def BACKUP_FORMAT_def)
  finally show ?thesis unfolding manifest_text_def .
qed

lemma manifest_text_starts: "\<exists>r. manifest_text sha spaceId receiptBytes closure point hs = 123 # r"
  by (simp add: manifest_text_def json_object_def)

text \<open>What a manifest has to satisfy for its text to be within the limit.\<close>

definition manifest_bounded :: "(byte list \<Rightarrow> jstr) \<Rightarrow> jstr \<Rightarrow> byte list \<Rightarrow> jstr \<Rightarrow> checkpoint \<Rightarrow> jstr \<Rightarrow> bool" where
  "manifest_bounded sha spaceId receiptBytes closure point hs \<longleftrightarrow>
     length spaceId \<le> 4096 \<and> length closure = 64 \<and> length (sha receiptBytes) = 64 \<and> length hs = 64 \<and>
     (\<forall>z \<in> {int (length receiptBytes), createdAtUnixMs point, snapshotBytes point, snapshotCrc32 point, watermarkBytes point, cp_servedVersion point}.
        length (int_text z) \<le> 19)"

lemma manifest_bytes:
  assumes "manifest_bounded sha spaceId receiptBytes closure point hs"
  obtains bs where "canonicalManifestBytes (manifest_value sha spaceId receiptBytes closure point hs) = Inr bs" "length bs \<le> MAX_MANIFEST_BYTES"
    "\<exists>t. text_decode bs = Some t \<and> json_parse t = Inr (manifest_value sha spaceId receiptBytes closure point hs)"
proof -
  let ?t = "manifest_text sha spaceId receiptBytes closure point hs"
  note w = manifest_written [of sha spaceId receiptBytes closure point hs]
  obtain r where r: "?t = 123 # r" using manifest_text_starts by blast
  have "length ?t \<le> 170000"
    using manifest_text_size [of sha spaceId receiptBytes closure point hs] assms
    by (simp add: manifest_bounded_def text_bound_def artifact_part_def checkpoint_part_def history_part_def ARTIFACT_FILE_def RECEIPT_FORMAT_def
        HISTORY_FILE_def js_def)
  then have "length (utf8_encode (?t @ [10])) \<le> MAX_MANIFEST_BYTES"
    using utf8_size(1) [of "?t @ [10]"] by (simp add: MAX_MANIFEST_BYTES_def)
  moreover have "canonicalManifestBytes (manifest_value sha spaceId receiptBytes closure point hs) = Inr (utf8_encode (?t @ [10]))"
    using w by (simp add: canonicalManifestBytes_def written_as_def)
  moreover have "text_decode (utf8_encode (?t @ [10])) = Some (?t @ [10])"
  proof (rule text_decode_encode)
    show "well_formed16 (?t @ [10])" using w by (intro well_formed16_append) (simp_all add: written_as_def surrogate_def high_surrogate_def low_surrogate_def)
    show "\<not> starts_with_bom (?t @ [10])" by (simp add: r starts_with_bom_def BOM_def)
  qed
  moreover have "json_parse (?t @ [10]) = Inr (manifest_value sha spaceId receiptBytes closure point hs)"
    using w by (intro json_parse_reads_space) (simp_all add: written_as_def delimited_def skip_space_def json_space_def)
  ultimately show thesis using that by blast
qed

end
