(* ===== verification/BackupVerify.thy ===== *)
theory BackupVerify
  imports BackupJson
begin

text \<open>
  What \<open>verifyBackup\<close> accepts: the directories whose four files satisfy \<open>valid_backup\<close>, however their reads are split, and what follows for
  two backups with the same manifest digest.
\<close>

section \<open>The four files\<close>

record backup_files =
  bf_artifact :: "byte list"
  bf_history :: "byte list"
  bf_manifest :: "byte list"
  bf_digest :: "byte list"

definition backup_entries :: "backup_files \<Rightarrow> (string \<times> byte list) list" where
  "backup_entries b = [(ARTIFACT_FILE, bf_artifact b), (HISTORY_FILE, bf_history b), (MANIFEST_FILE, bf_manifest b), (MANIFEST_DIGEST_FILE, bf_digest b)]"

text \<open>The directory has the four files, in any order, with these contents.\<close>

definition directory_holds :: "(string \<times> node) list \<Rightarrow> backup_files \<Rightarrow> bool" where
  "directory_holds ns b \<longleftrightarrow>
     distinct (map fst ns) \<and> set (map fst ns) = set COMPLETE_FILES \<and> (\<forall>(nm, n) \<in> set ns. \<exists>c. map_of (backup_entries b) nm = Some c \<and> file_holds n c)"

lemma file_names:
  "HISTORY_FILE \<noteq> ARTIFACT_FILE" "MANIFEST_FILE \<noteq> ARTIFACT_FILE" "MANIFEST_FILE \<noteq> HISTORY_FILE" "MANIFEST_DIGEST_FILE \<noteq> ARTIFACT_FILE"
  "MANIFEST_DIGEST_FILE \<noteq> HISTORY_FILE" "MANIFEST_DIGEST_FILE \<noteq> MANIFEST_FILE"
  by (simp_all add: HISTORY_FILE_def ARTIFACT_FILE_def MANIFEST_FILE_def MANIFEST_DIGEST_FILE_def)

lemmas file_names_simps [simp] = file_names file_names [symmetric]

lemma COMPLETE_FILES_sorted: "sorted COMPLETE_FILES" "distinct COMPLETE_FILES"
  unfolding COMPLETE_FILES_def HISTORY_FILE_def ARTIFACT_FILE_def MANIFEST_FILE_def MANIFEST_DIGEST_FILE_def by code_simp+

lemma sort_COMPLETE_FILES: "sort xs = COMPLETE_FILES \<longleftrightarrow> distinct xs \<and> set xs = set COMPLETE_FILES"
proof
  assume s: "sort xs = COMPLETE_FILES"
  then show "distinct xs \<and> set xs = set COMPLETE_FILES" using COMPLETE_FILES_sorted(2) by (metis distinct_sort set_sort)
next
  assume "distinct xs \<and> set xs = set COMPLETE_FILES"
  then show "sort xs = COMPLETE_FILES" using COMPLETE_FILES_sorted by (intro sorted_distinct_set_unique) simp_all
qed

lemma directory_name:
  assumes "directory_holds ns b" "map_of (backup_entries b) nm = Some c"
  obtains n where "map_of ns nm = Some n" "file_holds n c"
proof -
  have "nm \<in> set COMPLETE_FILES" using assms(2) by (auto simp: backup_entries_def COMPLETE_FILES_def split: if_splits)
  then have "nm \<in> fst ` set ns" using assms(1) by (simp add: directory_holds_def)
  then obtain n where n: "map_of ns nm = Some n" by (metis map_of_eq_None_iff not_None_eq)
  then have "\<exists>c'. map_of (backup_entries b) nm = Some c' \<and> file_holds n c'" using assms(1) map_of_SomeD [OF n] by (auto simp: directory_holds_def)
  with n assms(2) that show thesis by auto
qed

lemma directory_names:
  assumes "directory_holds ns b"
  obtains a h m d where "map_of ns ARTIFACT_FILE = Some a" "file_holds a (bf_artifact b)" "map_of ns HISTORY_FILE = Some h" "file_holds h (bf_history b)"
    "map_of ns MANIFEST_FILE = Some m" "file_holds m (bf_manifest b)" "map_of ns MANIFEST_DIGEST_FILE = Some d" "file_holds d (bf_digest b)"
  using directory_name [OF assms, of ARTIFACT_FILE] directory_name [OF assms, of HISTORY_FILE] directory_name [OF assms, of MANIFEST_FILE]
    directory_name [OF assms, of MANIFEST_DIGEST_FILE]
  by (simp add: backup_entries_def) metis

lemma directory_regular: "directory_holds ns b \<Longrightarrow> list_all (\<lambda>(_, n). nd_file n) ns"
  by (auto simp: directory_holds_def list_all_iff file_holds_def)

section \<open>Valid backups\<close>

definition valid_backup :: "(byte list \<Rightarrow> jstr) \<Rightarrow> backup_files \<Rightarrow> jsval \<Rightarrow> bool" where
  "valid_backup sha b v \<longleftrightarrow>
     length (bf_manifest b) \<le> MAX_MANIFEST_BYTES \<and> (\<exists>t. text_decode (bf_manifest b) = Some t \<and> json_parse t = Inr v) \<and>
     validateManifest v = Inr v \<and> canonicalManifestBytes v = Inr (bf_manifest b) \<and>
     bf_digest b = digest_line (sha (bf_manifest b)) \<and> length (bf_digest b) \<le> 256 \<and>
     length (bf_history b) = nat (text_int (js_text (field_of (field_of v ''history'') ''bytes''))) \<and> length (bf_history b) \<le> SAFE_MAX \<and>
     JStr (sha (bf_history b)) = field_of (field_of v ''history'') ''sha256'' \<and>
     (\<exists>s. parseFramlogHeader (Some (bf_history b)) = Inr s \<and> JStr s = field_of v ''spaceId'') \<and>
     length (bf_artifact b) = nat (text_int (js_text (field_of (field_of v ''artifactReceipt'') ''bytes''))) \<and>
     length (bf_artifact b) \<le> MAX_RECEIPT_BYTES \<and>
     JStr (sha (bf_artifact b)) = field_of (field_of v ''artifactReceipt'') ''sha256'' \<and>
     (\<exists>c. artifactReceipt (bf_artifact b) = Inr c \<and> JStr c = field_of (field_of v ''artifactReceipt'') ''closureSha256'')"

lemma validateManifest_same: "validateManifest v = Inr m \<Longrightarrow> m = v"
  by (auto simp: validateManifest_def res_simps split: if_splits)

lemma validateManifest_some: "(\<exists>m. validateManifest v = Inr m) \<longleftrightarrow> validateManifest v = Inr v"
  using validateManifest_same by blast

lemma if_Inr: "(if p then Inl e else X) = Inr r \<longleftrightarrow> \<not> p \<and> X = Inr r"
  by simp

lemma limits: "MAX_MANIFEST_BYTES \<le> SAFE_MAX" "MAX_RECEIPT_BYTES \<le> SAFE_MAX" "256 \<le> SAFE_MAX"
  by (simp_all add: MAX_MANIFEST_BYTES_def MAX_RECEIPT_BYTES_def SAFE_MAX_def)

lemma parsed_iff:
  "(case text_decode bs of None \<Rightarrow> invalid_manifest | Some text \<Rightarrow> (case json_parse text of Inl _ \<Rightarrow> invalid_manifest | Inr v \<Rightarrow> Inr v)) = Inr m \<longleftrightarrow>
     (\<exists>t. text_decode bs = Some t \<and> json_parse t = Inr m)"
  by (auto split: option.split sum.split)

lemma header_node: "file_holds n c \<Longrightarrow> (\<exists>hb. parseLogHeader n = Inr (s, hb)) \<longleftrightarrow> parseFramlogHeader (Some c) = Inr s"
  using parseLogHeader_iff by blast

lemma artifact_read: "file_holds n c \<Longrightarrow> readHandleExact n (nd_size n) MAX_RECEIPT_BYTES = Inr bs \<longleftrightarrow> length c \<le> MAX_RECEIPT_BYTES \<and> bs = c"
  using limits(2) by (auto simp: readHandleExact_Inr file_holds_def)

lemma verifyBackup_directory:
  assumes "directory_holds ns b"
  shows "verifyBackup sha (Some ns) wanted = Inr r \<longleftrightarrow>
    (\<exists>v. valid_backup sha b v \<and> (wanted = JUndef \<or> wanted = field_of v ''spaceId'') \<and> r = receipt_of (sha (bf_manifest b)) v)"
proof -
  obtain a h m d where n: "map_of ns ARTIFACT_FILE = Some a" "map_of ns HISTORY_FILE = Some h" "map_of ns MANIFEST_FILE = Some m"
      "map_of ns MANIFEST_DIGEST_FILE = Some d"
    and c: "file_holds a (bf_artifact b)" "file_holds h (bf_history b)" "file_holds m (bf_manifest b)" "file_holds d (bf_digest b)"
    by (rule directory_names [OF assms])
  have s: "sort (map fst ns) = COMPLETE_FILES" using assms sort_COMPLETE_FILES by (simp add: directory_holds_def)
  show ?thesis
    unfolding verifyBackup_def option.case s n Let_def if_Inr rbind_Inr_iff readRegular_Inr [OF c(3)] readRegular_Inr [OF c(4)] parsed_iff
      hashRegular_Inr [OF c(1)] hashRegular_Inr [OF c(2)]
    using directory_regular [OF assms] limits
    by (simp only: split_paired_Ex prod.case if_Inr rbind_Inr_iff artifact_read [OF c(1)] parseLogHeader_iff [OF c(2)] not_not simp_thms ex_simps
        hashRegular_Inr [OF c(1)] hashRegular_Inr [OF c(2)] fst_conv snd_conv prod.inject sum.inject conj_assoc validateManifest_some cong: conj_cong)
      (auto simp: valid_backup_def)
qed

text \<open>The manifest determines the other files, unless the digest has collided on them.\<close>

definition no_collision :: "(byte list \<Rightarrow> jstr) \<Rightarrow> byte list set \<Rightarrow> bool" where
  "no_collision sha S \<longleftrightarrow> (\<forall>x \<in> S. \<forall>y \<in> S. sha x = sha y \<longrightarrow> x = y)"

definition backup_contents :: "backup_files \<Rightarrow> byte list set" where
  "backup_contents b = {bf_artifact b, bf_history b, bf_manifest b}"

lemma valid_backup_unique:
  assumes "valid_backup sha b v" "valid_backup sha b' v'" "sha (bf_manifest b) = sha (bf_manifest b')" "no_collision sha (backup_contents b \<union> backup_contents b')"
  shows "bf_manifest b = bf_manifest b' \<and> bf_history b = bf_history b' \<and> bf_artifact b = bf_artifact b' \<and> bf_digest b = bf_digest b' \<and> v = v'"
proof -
  have eq: "sha x = sha y \<Longrightarrow> x = y" if "x \<in> backup_contents b" "y \<in> backup_contents b'" for x y
    using assms(4) that by (auto simp: no_collision_def)
  have m: "bf_manifest b = bf_manifest b'" by (rule eq [OF _ _ assms(3)]) (simp_all add: backup_contents_def)
  have v: "v = v'" using assms(1,2) by (auto simp: valid_backup_def m)
  have "JStr (sha (bf_history b)) = JStr (sha (bf_history b'))" "JStr (sha (bf_artifact b)) = JStr (sha (bf_artifact b'))"
    using assms(1,2) unfolding valid_backup_def v by simp_all
  then have "bf_history b = bf_history b'" "bf_artifact b = bf_artifact b'"
    by (auto intro!: eq simp: backup_contents_def)
  with m v assms(1,2) show ?thesis by (simp add: valid_backup_def)
qed

section \<open>The backups the tool writes\<close>

lemma utf8_ascii: "\<forall>u \<in> set s. unat u < 128 \<Longrightarrow> length (utf8_encode s) = length s"
proof -
  assume "\<forall>u \<in> set s. unat u < 128"
  then have "code_points s = map unat s"
    by (induction s rule: code_points.induct) (auto simp: surrogate_def high_surrogate_def low_surrogate_def)
  moreover have "length (concat (map utf8_of (map unat s))) = length s" if "\<forall>u \<in> set s. unat u < 128" for s :: jstr
    using that by (induction s) (auto simp: utf8_of_def)
  ultimately show ?thesis using \<open>\<forall>u \<in> set s. unat u < 128\<close> by (simp add: utf8_encode_def)
qed

lemma digest_line_length: "SHA256 d \<Longrightarrow> length (digest_line d) = 80"
proof -
  assume d: "SHA256 d"
  then have "\<forall>u \<in> set d. unat u < 128" using hex_plain by (fastforce simp: SHA256_def list_all_iff)
  then have "length (digest_line d) = length (d @ js ''  '' @ js MANIFEST_FILE @ [10])"
    unfolding digest_line_def by (intro utf8_ascii) (auto simp: js_def MANIFEST_FILE_def)
  with d show ?thesis by (simp add: SHA256_def js_def MANIFEST_FILE_def)
qed

lemma sha_test_string: "sha_test (JStr s) = SHA256 s" by simp

lemma artifactReceipt_length: "artifactReceipt bs = Inr c \<Longrightarrow> length c = 64"
  by (auto simp: artifactReceipt_def SHA256_def split: option.splits if_splits)

text \<open>What the validation of a manifest of the tool's own says of its parts.\<close>

lemma validate_manifest_value:
  assumes "validateManifest (manifest_value sha spaceId a closure point hs) = Inr m"
  shows "SHA256 (sha a)" "SHA256 hs" "length spaceId \<le> 4096"
    "\<forall>z \<in> {int (length a), createdAtUnixMs point, snapshotBytes point, snapshotCrc32 point, watermarkBytes point, cp_servedVersion point}.
       length (int_text z) \<le> 19"
proof -
  have u: "U32_MAX \<le> I64_MAX" by (simp add: U32_MAX_def I64_MAX_def)
  have k: "(\<exists>t. canonicalDecimal (JStr (int_text z)) maximum = Inr t) \<longleftrightarrow> 0 \<le> z \<and> z \<le> maximum" for z maximum
    by (simp add: canonicalDecimal_int)
  show "SHA256 (sha a)" "SHA256 hs" using assms by (auto simp: validateManifest_def manifest_value_def manifest_object_def object_fields_def res_simps split: if_splits)
  show "length spaceId \<le> 4096" 
    using assms utf8_size(2) [of spaceId]
    by (auto simp: validateManifest_def manifest_value_def manifest_object_def object_fields_def res_simps backup_strictUtf8_def Let_def MAX_SPACE_BYTES_def split: if_splits)
  show "\<forall>z \<in> {int (length a), createdAtUnixMs point, snapshotBytes point, snapshotCrc32 point, watermarkBytes point, cp_servedVersion point}.
       length (int_text z) \<le> 19"
    using assms int_text_length u
    by (auto simp: validateManifest_def manifest_value_def manifest_object_def object_fields_def res_simps decimal_field_def k split: if_splits)
qed

lemma created_valid:
  assumes "validateManifest (manifest_value sha spaceId a closure point (sha h)) = Inr m" "canonicalManifestBytes m = Inr mb"
    "\<forall>x. SHA256 (sha x)" "artifactReceipt a = Inr closure" "length a \<le> MAX_RECEIPT_BYTES"
    "parseFramlogHeader (Some h) = Inr spaceId" "length h = nat (watermarkBytes point)" "length h \<le> SAFE_MAX"
  shows "valid_backup sha \<lparr>bf_artifact = a, bf_history = h, bf_manifest = mb, bf_digest = digest_line (sha mb)\<rparr> m"
proof -
  have m: "m = manifest_value sha spaceId a closure point (sha h)" using validateManifest_same [OF assms(1)] .
  have "manifest_bounded sha spaceId a closure point (sha h)"
    using validate_manifest_value [OF assms(1)] artifactReceipt_length [OF assms(4)] by (simp add: manifest_bounded_def SHA256_def)
  then have mb: "length mb \<le> MAX_MANIFEST_BYTES" "\<exists>t. text_decode mb = Some t \<and> json_parse t = Inr m"
    using assms(2) unfolding m by (auto elim!: manifest_bytes)
  have f: "field_of m ''spaceId'' = JStr spaceId" "field_of (field_of m ''history'') ''sha256'' = JStr (sha h)"
    "field_of (field_of m ''history'') ''bytes'' = JStr (int_text (watermarkBytes point))"
    "field_of (field_of m ''artifactReceipt'') ''bytes'' = JStr (int_text (int (length a)))"
    "field_of (field_of m ''artifactReceipt'') ''sha256'' = JStr (sha a)"
    "field_of (field_of m ''artifactReceipt'') ''closureSha256'' = JStr closure"
    by (simp_all add: m manifest_value_def field_of_def)
  show ?thesis
    using mb assms(2-8) assms(1) [folded m] digest_line_length [of "sha mb"] by (simp add: valid_backup_def f js_text_def)
qed

end
