(* ===== verification/BackupCrash.thy ===== *)
theory BackupCrash
  imports BackupVerify
begin

text \<open>
  The new directory as a file system keeps it, and what a crash may leave of it: \<open>createBackup\<close> writes a directory that verifies only once
  everything the manifest names is durable.
\<close>

section \<open>The directory\<close>

text \<open>
  Files are numbered in the order they are created: what they hold, and whether a \<open>sync\<close> has made it durable. The directory is a map from names to
  files; \<open>fx_dirs\<close> are the maps it has had since it was last synced, the present one first, and \<open>fx_durable\<close> says whether the directory's own name is.
\<close>

record fs =
  fx_files :: "(byte list \<times> bool) list"
  fx_dirs :: "(string \<rightharpoonup> nat) list"
  fx_durable :: bool

definition fx_dir :: "fs \<Rightarrow> (string \<rightharpoonup> nat)" where
  "fx_dir x = (case fx_dirs x of [] \<Rightarrow> Map.empty | d # _ \<Rightarrow> d)"

definition new_directory :: fs where
  "new_directory = \<lparr>fx_files = [], fx_dirs = [Map.empty], fx_durable = False\<rparr>"

definition change_file :: "string \<Rightarrow> (byte list \<times> bool \<Rightarrow> byte list \<times> bool) \<Rightarrow> fs \<Rightarrow> fs" where
  "change_file nm f x = (case fx_dir x nm of None \<Rightarrow> x | Some i \<Rightarrow> x\<lparr>fx_files := (fx_files x)[i := f (fx_files x ! i)]\<rparr>)"

fun fs_step :: "fs_op \<Rightarrow> fs \<Rightarrow> fs" where
  "fs_step Mkdir x = new_directory"
| "fs_step (Create nm) x =
     x\<lparr>fx_files := fx_files x @ [([], False)], fx_dirs := (fx_dir x)(nm \<mapsto> length (fx_files x)) # fx_dirs x\<rparr>"
| "fs_step (Append nm bs) x = change_file nm (\<lambda>(c, _). (c @ bs, False)) x"
| "fs_step (Sync nm) x = change_file nm (\<lambda>(c, _). (c, True)) x"
| "fs_step (Rename a b) x = x\<lparr>fx_dirs := (fx_dir x)(b := fx_dir x a, a := None) # fx_dirs x\<rparr>"
| "fs_step SyncDirectory x = x\<lparr>fx_dirs := [fx_dir x]\<rparr>"
| "fs_step SyncParent x = x\<lparr>fx_durable := True\<rparr>"

definition fs_run :: "fs_op list \<Rightarrow> fs \<Rightarrow> fs" where
  "fs_run ops x = fold fs_step ops x"

lemma fs_run_simps [simp]: "fs_run [] x = x" "fs_run (a # ops) x = fs_run ops (fs_step a x)" "fs_run (ops @ ops') x = fs_run ops' (fs_run ops x)"
  by (simp_all add: fs_run_def)

text \<open>
  What is found later, after a crash or without one: every name as one of the maps had it, and in the files that were synced what was
  written; the others hold anything. The directory is gone if its own name was not durable.
\<close>

definition found_entries :: "fs \<Rightarrow> (string \<times> node) list \<Rightarrow> bool" where
  "found_entries x ns \<longleftrightarrow>
     (\<exists>d. (\<forall>nm. \<exists>d' \<in> set (fx_dirs x). d nm = d' nm) \<and> distinct (map fst ns) \<and> set (map fst ns) = dom d \<and>
       (\<forall>(nm, n) \<in> set ns. \<exists>i c. d nm = Some i \<and> file_holds n c \<and> (i < length (fx_files x) \<longrightarrow> snd (fx_files x ! i) \<longrightarrow> c = fst (fx_files x ! i))))"

definition found_later :: "fs \<Rightarrow> (string \<times> node) list option \<Rightarrow> bool" where
  "found_later x entries \<longleftrightarrow> (case entries of None \<Rightarrow> \<not> fx_durable x | Some ns \<Rightarrow> found_entries x ns)"

section \<open>Conditions that hold at every moment\<close>

text \<open>
  From every state with \<open>P\<close>, every prefix of the operations leads to one with \<open>C\<close>, and the whole of them to one with \<open>Q\<close> of the result.
\<close>

definition always :: "(fs \<Rightarrow> bool) \<Rightarrow> (fs \<Rightarrow> bool) \<Rightarrow> 'a act \<Rightarrow> ('a \<Rightarrow> fs \<Rightarrow> bool) \<Rightarrow> bool" where
  "always C P m Q \<longleftrightarrow>
     (\<forall>x. P x \<longrightarrow> (\<forall>n. C (fs_run (take n (fst m)) x)) \<and> (\<forall>y. snd m = Inr y \<longrightarrow> Q y (fs_run (fst m) x)))"

lemma always_lift: "(\<And>x. P x \<Longrightarrow> C x) \<Longrightarrow> (\<And>x y. P x \<Longrightarrow> r = Inr y \<Longrightarrow> Q y x) \<Longrightarrow> always C P (lift_res r) Q"
  by (simp add: always_def lift_res_def)

lemma always_op: "(\<And>x. P x \<Longrightarrow> C x \<and> C (fs_step a x) \<and> Q () (fs_step a x)) \<Longrightarrow> always C P ([a], Inr ()) Q"
  by (auto simp: always_def take_Cons split: nat.split)

lemma always_try: "(\<And>x. P x \<Longrightarrow> C x \<and> C (fs_step a x) \<and> Q () (fs_step a x)) \<Longrightarrow> always C P (act_try w a) Q"
  by (cases w) (auto simp: act_try_def intro: always_op, auto simp: always_def)

lemma always_bind:
  assumes m: "always C P m Q" and f: "\<And>y. snd m = Inr y \<Longrightarrow> always C (Q y) (f y) R"
  shows "always C P (act_bind m f) R"
proof -
  obtain ops r where mr: "m = (ops, r)" by fastforce
  show ?thesis
  proof (cases r)
    case (Inl e)
    with m mr show ?thesis by (simp add: always_def act_bind_def)
  next
    case (Inr y)
    obtain ops' r' where fr: "f y = (ops', r')" by fastforce
    have b: "act_bind m f = (ops @ ops', r')" by (simp add: act_bind_def mr Inr fr)
    have f': "always C (Q y) (ops', r') R" using f [of y] by (simp add: mr Inr fr)
    show ?thesis unfolding b always_def
    proof (intro allI impI conjI)
      fix x n assume P: "P x"
      show "C (fs_run (take n (fst (ops @ ops', r'))) x)"
      proof (cases "n \<le> length ops")
        case True
        with m P show ?thesis by (auto simp: always_def mr)
      next
        case False
        with m f' P show ?thesis by (auto simp: always_def mr Inr)
      qed
    next
      fix x z assume "P x" "snd (ops @ ops', r') = Inr z"
      with m f' show "R z (fs_run (fst (ops @ ops', r')) x)" by (auto simp: always_def mr Inr)
    qed
  qed
qed

lemma always_mono: "always C P m Q \<Longrightarrow> (\<And>x. P' x \<Longrightarrow> P x) \<Longrightarrow> (\<And>y x. snd m = Inr y \<Longrightarrow> Q y x \<Longrightarrow> Q' y x) \<Longrightarrow> always C P' m Q'"
  by (auto simp: always_def)

section \<open>Writing files\<close>

text \<open>No map of the directory has the manifest, so nothing found later verifies.\<close>

definition uncommitted :: "fs \<Rightarrow> bool" where
  "uncommitted x \<longleftrightarrow> (\<forall>d \<in> set (fx_dirs x). d MANIFEST_FILE = None)"

text \<open>The directory has these files, in this order, and all are synced.\<close>

definition names_map :: "string list \<Rightarrow> (string \<rightharpoonup> nat)" where
  "names_map nms = map_of (zip nms [0..<length nms])"

definition has_files :: "(string \<times> byte list) list \<Rightarrow> fs \<Rightarrow> bool" where
  "has_files l x \<longleftrightarrow> fx_dir x = names_map (map fst l) \<and> fx_dirs x \<noteq> [] \<and> fx_files x = map (\<lambda>(_, c). (c, True)) l \<and> uncommitted x"

definition writing :: "(string \<times> byte list) list \<Rightarrow> string \<Rightarrow> byte list \<Rightarrow> fs \<Rightarrow> bool" where
  "writing l nm c x \<longleftrightarrow> fx_dir x = names_map (map fst l @ [nm]) \<and> fx_dirs x \<noteq> [] \<and> (\<exists>s. fx_files x = map (\<lambda>(_, c). (c, True)) l @ [(c, s)]) \<and> uncommitted x"

lemma names_map_append: "nm \<notin> set nms \<Longrightarrow> names_map (nms @ [nm]) = (names_map nms)(nm \<mapsto> length nms)"
proof
  fix k assume "nm \<notin> set nms"
  then have "map_of (zip nms [0..<length nms]) nm = None" by (subst map_of_zip_is_None) simp_all
  then show "names_map (nms @ [nm]) k = ((names_map nms)(nm \<mapsto> length nms)) k"
    by (cases "k = nm"; cases "map_of (zip nms [0..<length nms]) k")
      (simp_all add: names_map_def map_of_append map_add_def del: map_of_zip_is_None)
qed

lemma last_file [simp]: "(map f l @ [a])[length l := b] = map f l @ [b]"
  by (metis length_map list_update_length)

lemma create_file:
  assumes "has_files l x" "nm \<notin> fst ` set l" "nm \<noteq> MANIFEST_FILE"
  shows "writing l nm [] (fs_step (Create nm) x)"
  using assms names_map_append [of nm "map fst l"] by (auto simp: has_files_def writing_def fx_dir_def uncommitted_def split: list.splits)

lemma writing_name: "writing l nm c x \<Longrightarrow> nm \<notin> fst ` set l \<Longrightarrow> fx_dir x nm = Some (length l)"
  using names_map_append [of nm "map fst l"] by (simp add: writing_def)

lemma append_file: "writing l nm c x \<Longrightarrow> nm \<notin> fst ` set l \<Longrightarrow> writing l nm (c @ bs) (fs_step (Append nm bs) x)"
  using writing_name [of l nm c x] by (auto simp: writing_def change_file_def fx_dir_def uncommitted_def nth_append split: list.splits)

lemma sync_file: "writing l nm c x \<Longrightarrow> nm \<notin> fst ` set l \<Longrightarrow> has_files (l @ [(nm, c)]) (fs_step (Sync nm) x)"
  using writing_name [of l nm c x] by (auto simp: writing_def has_files_def change_file_def fx_dir_def uncommitted_def nth_append split: list.splits)

lemma writing_uncommitted: "writing l nm c x \<Longrightarrow> uncommitted x"
  by (simp add: writing_def)

lemma has_files_uncommitted: "has_files l x \<Longrightarrow> uncommitted x"
  by (simp add: has_files_def)

lemma always_write_rest:
  "nm \<notin> fst ` set l \<Longrightarrow> always uncommitted (writing l nm c) (write_rest dk nm at bs) (\<lambda>_. writing l nm (c @ bs))"
proof (induction dk nm at bs arbitrary: c rule: write_rest.induct)
  case (1 dk nm at bs)
  note s = write_rest.simps [of dk nm at bs]
  show ?case
  proof (cases "bs = [] \<or> dk_write dk nm at (length bs) = None \<or> dk_write dk nm at (length bs) = Some 0")
    case True
    then have "write_rest dk nm at bs = lift_res (Inr ()) \<and> bs = [] \<or> (\<exists>e. write_rest dk nm at bs = lift_res (Inl e))"
      unfolding s by auto
    then show ?thesis by (auto intro!: always_lift writing_uncommitted)
  next
    case False
    then obtain k where k: "bs \<noteq> []" "dk_write dk nm at (length bs) = Some k" "k \<noteq> 0" by auto
    show ?thesis
      unfolding s if_not_P [OF k(1)] k(2) option.case if_not_P [OF k(3)]
    proof (rule always_bind)
      show "always uncommitted (writing l nm c) ([Append nm (take k bs)], Inr ()) (\<lambda>_. writing l nm (c @ take k bs))"
        by (rule always_op) (use append_file [OF _ "1.prems"] writing_uncommitted in blast)
      show "always uncommitted (writing l nm (c @ take k bs)) (write_rest dk nm (at + k) (drop k bs)) (\<lambda>_. writing l nm (c @ bs))"
        using "1.IH" [OF k "1.prems", of "c @ take k bs"] by simp
    qed
  qed
qed

lemma always_writeSynced:
  assumes "nm \<notin> fst ` set l" "nm \<noteq> MANIFEST_FILE"
  shows "always uncommitted (has_files l) (writeSynced dk nm bs) (\<lambda>_. has_files (l @ [(nm, bs)]))"
  unfolding writeSynced_def
proof (intro always_bind)
  show "always uncommitted (has_files l) (act_try (dk_create dk nm) (Create nm)) (\<lambda>_. writing l nm [])"
    by (rule always_try) (use create_file [OF _ assms] writing_uncommitted has_files_uncommitted in blast)
  show "always uncommitted (writing l nm []) (write_rest dk nm 0 bs) (\<lambda>_. writing l nm bs)"
    using always_write_rest [OF assms(1), of "[]"] by simp
  show "always uncommitted (writing l nm bs) (act_try (dk_sync dk nm) (Sync nm)) (\<lambda>_. has_files (l @ [(nm, bs)]))"
    by (rule always_try) (use sync_file [OF _ assms(1)] writing_uncommitted has_files_uncommitted in blast)
qed

text \<open>The copy of the log.\<close>

lemma always_copy_chunks:
  "HISTORY_FILE \<notin> fst ` set l \<Longrightarrow>
    always uncommitted (writing l HISTORY_FILE copied) (copy_chunks dk rd count copied) (writing l HISTORY_FILE)"
proof (induction dk rd count copied rule: copy_chunks.induct)
  case (1 dk rd count copied)
  note s = copy_chunks.simps [of dk rd count copied]
  let ?w = "min BUFFER_BYTES (count - length copied)"
  show ?case
  proof (cases "count \<le> length copied \<or> rd (length copied) ?w = None \<or> (\<exists>bs. rd (length copied) ?w = Some bs \<and> take ?w bs = [])")
    case True
    then have "copy_chunks dk rd count copied = lift_res (Inr copied) \<or> (\<exists>e. copy_chunks dk rd count copied = lift_res (Inl e))"
      unfolding s by (auto simp: Let_def simp del: take_eq_Nil take_eq_Nil2)
    then show ?thesis by (auto intro!: always_lift writing_uncommitted)
  next
    case False
    then obtain bs where k: "\<not> count \<le> length copied" "rd (length copied) ?w = Some bs" "take ?w bs \<noteq> []"
      by (cases "rd (length copied) ?w") auto
    show ?thesis
      unfolding s if_not_P [OF k(1)] k(2) option.case if_not_P [OF k(3)] Let_def
    proof (rule always_bind)
      show "always uncommitted (writing l HISTORY_FILE copied) (write_rest dk HISTORY_FILE (length copied) (take ?w bs))
          (\<lambda>_. writing l HISTORY_FILE (copied @ take ?w bs))"
        by (rule always_write_rest [OF "1.prems"])
      show "always uncommitted (writing l HISTORY_FILE (copied @ take ?w bs)) (copy_chunks dk rd count (copied @ take ?w bs)) (writing l HISTORY_FILE)"
        by (rule "1.IH" [OF k(1) refl k(2,3) "1.prems"])
    qed
  qed
qed

lemma always_copyPrefix:
  assumes "HISTORY_FILE \<notin> fst ` set l"
  shows "always uncommitted (has_files l) (copyPrefix dk source count) (\<lambda>copied. has_files (l @ [(HISTORY_FILE, copied)]))"
proof (cases "int SAFE_MAX < count")
  case True
  then show ?thesis by (auto simp: copyPrefix_def intro!: always_lift has_files_uncommitted)
next
  case False
  have nm: "HISTORY_FILE \<noteq> MANIFEST_FILE" by simp
  show ?thesis
    unfolding copyPrefix_def if_not_P [OF False]
  proof (intro always_bind)
    show "always uncommitted (has_files l) (act_try (dk_create dk HISTORY_FILE) (Create HISTORY_FILE)) (\<lambda>_. writing l HISTORY_FILE [])"
      by (rule always_try) (use create_file [OF _ assms nm] writing_uncommitted has_files_uncommitted in blast)
    show "always uncommitted (writing l HISTORY_FILE []) (copy_chunks dk (nd_read source) (nat count) []) (writing l HISTORY_FILE)"
      by (rule always_copy_chunks [OF assms])
    show "always uncommitted (writing l HISTORY_FILE copied) (act_try (dk_sync dk HISTORY_FILE) (Sync HISTORY_FILE))
        (\<lambda>_. has_files (l @ [(HISTORY_FILE, copied)]))" for copied
      by (rule always_try) (use sync_file [OF _ assms] writing_uncommitted has_files_uncommitted in blast)
    show "always uncommitted (has_files (l @ [(HISTORY_FILE, copied)])) (lift_res (Inr copied)) (\<lambda>copied. has_files (l @ [(HISTORY_FILE, copied)]))" for copied
      by (rule always_lift) (simp_all add: has_files_uncommitted)
  qed
qed

end
