(* ===== verification/BackupCommit.thy ===== *)
theory BackupCommit
  imports BackupCrash
begin

text \<open>
  \<open>createBackup\<close> on the file system of \<open>BackupCrash\<close>: until the manifest is renamed nothing verifies, and from then on every file the manifest
  names is durable.
\<close>

section \<open>Names that every map of the directory has\<close>

definition kept_names :: "(string \<times> nat) list \<Rightarrow> fs \<Rightarrow> bool" where
  "kept_names S x \<longleftrightarrow> fx_dirs x \<noteq> [] \<and> (\<forall>d \<in> set (fx_dirs x). \<forall>(nm, i) \<in> set S. d nm = Some i)"

definition touches :: "string \<Rightarrow> fs_op \<Rightarrow> bool" where
  "touches nm a \<longleftrightarrow> a = Create nm \<or> (\<exists>bs. a = Append nm bs) \<or> a = Sync nm"

lemma change_file_dirs [simp]: "fx_dirs (change_file nm f x) = fx_dirs x"
  by (simp add: change_file_def split: option.split)

lemma fx_dir_in: "fx_dirs x \<noteq> [] \<Longrightarrow> fx_dir x \<in> set (fx_dirs x)"
  by (cases "fx_dirs x") (simp_all add: fx_dir_def)

lemma settled_dir: "kept_names S x \<Longrightarrow> (nm, i) \<in> set S \<Longrightarrow> fx_dir x nm = Some i"
  using fx_dir_in [of x] unfolding kept_names_def by fast

lemma settled_create: "kept_names S x \<Longrightarrow> nm \<notin> fst ` set S \<Longrightarrow> kept_names S (fs_step (Create nm) x)"
  using settled_dir [of S x] by (force simp: kept_names_def)

lemma touches_settled: "touches nm a \<Longrightarrow> nm \<notin> fst ` set S \<Longrightarrow> kept_names S x \<Longrightarrow> kept_names S (fs_step a x)"
  using settled_create [of S x nm] by (auto simp: touches_def) (auto simp: kept_names_def)

lemma write_rest_touches: "\<forall>a \<in> set (fst (write_rest dk nm at bs)). touches nm a"
proof (induction dk nm at bs rule: write_rest.induct)
  case (1 dk nm at bs)
  then show ?case
    by (subst write_rest.simps) (auto simp: lift_res_def act_bind_def touches_def split: option.split sum.split prod.split)
qed

lemma act_bind_ops: "\<forall>a \<in> set (fst m). T a \<Longrightarrow> (\<And>y. \<forall>a \<in> set (fst (f y)). T a) \<Longrightarrow> \<forall>a \<in> set (fst (act_bind m f)). T a"
  by (auto simp: act_bind_def split: prod.splits sum.splits) (metis fst_conv)

lemma act_try_ops: "T a \<Longrightarrow> \<forall>b \<in> set (fst (act_try w a)). T b"
  by (simp add: act_try_def)

lemma writeSynced_touches: "\<forall>a \<in> set (fst (writeSynced dk nm bs)). touches nm a"
  unfolding writeSynced_def by (intro act_bind_ops act_try_ops write_rest_touches) (simp_all add: touches_def)

lemma always_settled:
  assumes "always C P m Q" "\<forall>a \<in> set (fst m). touches nm a" "nm \<notin> fst ` set S"
  shows "always C (\<lambda>x. P x \<and> kept_names S x) m (\<lambda>y x. Q y x \<and> kept_names S x)"
proof -
  have "kept_names S (fs_run ops x)" if "kept_names S x" "\<forall>a \<in> set ops. touches nm a" for ops x
    using that touches_settled [OF _ assms(3)] by (induction ops arbitrary: x) auto
  with assms show ?thesis by (auto simp: always_def)
qed

section \<open>Committed directories\<close>

definition names_of_three :: "(string \<times> nat) list" where
  "names_of_three = [(HISTORY_FILE, 0), (ARTIFACT_FILE, 1), (MANIFEST_DIGEST_FILE, 2)]"

definition three :: "backup_files \<Rightarrow> (string \<times> byte list) list" where
  "three b = [(HISTORY_FILE, bf_history b), (ARTIFACT_FILE, bf_artifact b), (MANIFEST_DIGEST_FILE, bf_digest b)]"

definition committed :: "backup_files \<Rightarrow> fs \<Rightarrow> bool" where
  "committed b x \<longleftrightarrow>
     fx_files x = [(bf_history b, True), (bf_artifact b, True), (bf_digest b, True), (bf_manifest b, True)] \<and>
     kept_names names_of_three x \<and> (\<forall>d \<in> set (fx_dirs x). d MANIFEST_FILE \<in> {None, Some 3})"

definition finished_map :: "string \<rightharpoonup> nat" where
  "finished_map = [HISTORY_FILE \<mapsto> 0, ARTIFACT_FILE \<mapsto> 1, MANIFEST_DIGEST_FILE \<mapsto> 2, MANIFEST_FILE \<mapsto> 3]"

definition all_durable :: "backup_files \<Rightarrow> fs \<Rightarrow> bool" where
  "all_durable b x \<longleftrightarrow> committed b x \<and> fx_dirs x = [finished_map] \<and> fx_durable x"

lemma temporary_name: "temporary_manifest pid \<noteq> MANIFEST_FILE" "temporary_manifest pid \<notin> {HISTORY_FILE, ARTIFACT_FILE, MANIFEST_DIGEST_FILE}"
  by (simp_all add: temporary_manifest_def MANIFEST_FILE_def HISTORY_FILE_def ARTIFACT_FILE_def MANIFEST_DIGEST_FILE_def)

lemma rename_commits:
  assumes "has_files (three b @ [(temporary_manifest pid, bf_manifest b)]) x" "kept_names names_of_three x"
  shows "committed b (fs_step (Rename (temporary_manifest pid) MANIFEST_FILE) x)"
    "fx_dir (fs_step (Rename (temporary_manifest pid) MANIFEST_FILE) x) = finished_map"
proof -
  have l: "fx_dir x = [HISTORY_FILE \<mapsto> 0, ARTIFACT_FILE \<mapsto> 1, MANIFEST_DIGEST_FILE \<mapsto> 2, temporary_manifest pid \<mapsto> 3]"
    using assms(1) temporary_name(2) [of pid] by (auto simp: has_files_def three_def names_map_def)
  let ?d = "(fx_dir x)(MANIFEST_FILE := fx_dir x (temporary_manifest pid), temporary_manifest pid := None)"
  have dirs: "fx_dirs (fs_step (Rename (temporary_manifest pid) MANIFEST_FILE) x) = ?d # fx_dirs x" by simp
  have d: "?d HISTORY_FILE = Some 0" "?d ARTIFACT_FILE = Some 1" "?d MANIFEST_DIGEST_FILE = Some 2" "?d MANIFEST_FILE = Some 3"
    using temporary_name [of pid] by (simp_all add: l)
  have "kept_names names_of_three (fs_step (Rename (temporary_manifest pid) MANIFEST_FILE) x)"
    using assms(2) d unfolding kept_names_def dirs names_of_three_def by simp
  moreover have "\<forall>d' \<in> set (?d # fx_dirs x). d' MANIFEST_FILE \<in> {None, Some 3}"
    using assms(1) d(4) by (simp add: has_files_def uncommitted_def)
  moreover have "fx_files (fs_step (Rename (temporary_manifest pid) MANIFEST_FILE) x) =
      [(bf_history b, True), (bf_artifact b, True), (bf_digest b, True), (bf_manifest b, True)]"
    using assms(1) by (simp add: has_files_def three_def)
  ultimately show "committed b (fs_step (Rename (temporary_manifest pid) MANIFEST_FILE) x)"
    unfolding committed_def dirs by blast
  show "fx_dir (fs_step (Rename (temporary_manifest pid) MANIFEST_FILE) x) = finished_map"
    using l temporary_name [of pid] by (auto simp: fx_dir_def finished_map_def fun_eq_iff)
qed

lemma three_settled:
  assumes "has_files (three b) x"
  shows "kept_names names_of_three (fs_step SyncDirectory x) \<and> has_files (three b) (fs_step SyncDirectory x)"
proof -
  have d: "fx_dir x = [HISTORY_FILE \<mapsto> 0, ARTIFACT_FILE \<mapsto> 1, MANIFEST_DIGEST_FILE \<mapsto> 2]"
    using assms by (auto simp: has_files_def three_def names_map_def)
  have x: "fx_dirs (fs_step SyncDirectory x) = [fx_dir x]" "fx_files (fs_step SyncDirectory x) = fx_files x"
    "fx_dir (fs_step SyncDirectory x) = fx_dir x"
    by (simp_all add: fx_dir_def)
  have "uncommitted (fs_step SyncDirectory x)" unfolding uncommitted_def x d by simp
  moreover have "kept_names names_of_three (fs_step SyncDirectory x)" unfolding kept_names_def x names_of_three_def d by simp
  ultimately show ?thesis using assms unfolding has_files_def x by simp
qed

lemma sync_committed: "committed b x \<Longrightarrow> committed b (fs_step SyncDirectory x)"
  by (cases "fx_dirs x") (auto simp: committed_def kept_names_def fx_dir_def)

lemma sync_finished: "committed b x \<Longrightarrow> fx_dir x = finished_map \<Longrightarrow> committed b (fs_step SyncDirectory x) \<and> fx_dirs (fs_step SyncDirectory x) = [finished_map]"
  using sync_committed [of b x] by simp

lemma parent_finished: "committed b x \<Longrightarrow> fx_dirs x = [finished_map] \<Longrightarrow> all_durable b (fs_step SyncParent x)"
  by (simp add: all_durable_def committed_def kept_names_def)

text \<open>What is found in such directories.\<close>

lemma committed_found:
  assumes "committed b x" "found_entries x ns" "set (map fst ns) = set COMPLETE_FILES"
  shows "directory_holds ns b"
proof -
  obtain d where d: "\<And>nm. \<exists>d' \<in> set (fx_dirs x). d nm = d' nm" "distinct (map fst ns)"
    and e: "\<And>nm n. (nm, n) \<in> set ns \<Longrightarrow> \<exists>i c. d nm = Some i \<and> file_holds n c \<and> (i < length (fx_files x) \<longrightarrow> snd (fx_files x ! i) \<longrightarrow> c = fst (fx_files x ! i))"
    using assms(2) unfolding found_entries_def by fast
  have k: "d HISTORY_FILE = Some 0" "d ARTIFACT_FILE = Some 1" "d MANIFEST_DIGEST_FILE = Some 2" "d MANIFEST_FILE \<in> {None, Some 3}"
    using assms(1) d(1) [of HISTORY_FILE] d(1) [of ARTIFACT_FILE] d(1) [of MANIFEST_DIGEST_FILE] d(1) [of MANIFEST_FILE]
    by (auto simp: committed_def kept_names_def names_of_three_def)
  show ?thesis
    unfolding directory_holds_def
  proof (intro conjI)
    show "\<forall>(nm, n) \<in> set ns. \<exists>c. map_of (backup_entries b) nm = Some c \<and> file_holds n c"
    proof (intro ballI, clarify)
      fix nm n assume n: "(nm, n) \<in> set ns"
      then have "nm \<in> set COMPLETE_FILES" using assms(3) by force
      moreover obtain i c where "d nm = Some i" "file_holds n c" "i < length (fx_files x) \<longrightarrow> snd (fx_files x ! i) \<longrightarrow> c = fst (fx_files x ! i)"
        using e [OF n] by blast
      ultimately show "\<exists>c. map_of (backup_entries b) nm = Some c \<and> file_holds n c"
        using k assms(1) by (auto simp: COMPLETE_FILES_def committed_def backup_entries_def)
    qed
  qed (use d(2) assms(3) in simp_all)
qed

lemma finished_found:
  assumes "all_durable b x" "found_later x entries"
  shows "\<exists>ns. entries = Some ns \<and> directory_holds ns b"
proof -
  obtain ns where ns: "entries = Some ns" "found_entries x ns" using assms by (auto simp: found_later_def all_durable_def split: option.splits)
  then obtain d where d: "\<And>nm. d nm = finished_map nm" "set (map fst ns) = dom d"
    using assms(1) unfolding found_entries_def all_durable_def by fastforce
  then have "d = finished_map" by blast
  with d(2) have "set (map fst ns) = set COMPLETE_FILES" by (auto simp: finished_map_def COMPLETE_FILES_def)
  with committed_found [OF _ ns(2)] assms(1) ns(1) show ?thesis by (simp add: all_durable_def)
qed

lemma verified_names: "verifyBackup sha entries wanted = Inr rc \<Longrightarrow> \<exists>ns. entries = Some ns \<and> set (map fst ns) = set COMPLETE_FILES"
proof (cases entries)
  case (Some ns)
  moreover assume "verifyBackup sha entries wanted = Inr rc"
  ultimately have "sort (map fst ns) = COMPLETE_FILES" unfolding verifyBackup_def by (simp only: option.case if_Inr not_not)
  with Some show ?thesis by (metis set_sort)
qed (simp add: verifyBackup_def)

lemma uncommitted_found:
  assumes "uncommitted x" "found_later x entries"
  shows "verifyBackup sha entries wanted \<noteq> Inr rc"
proof
  assume "verifyBackup sha entries wanted = Inr rc"
  then obtain ns where ns: "entries = Some ns" "set (map fst ns) = set COMPLETE_FILES" using verified_names by blast
  then obtain d where "\<And>nm. \<exists>d' \<in> set (fx_dirs x). d nm = d' nm" "set (map fst ns) = dom d"
    using assms(2) unfolding found_later_def found_entries_def by auto
  moreover have "MANIFEST_FILE \<in> set COMPLETE_FILES" by (simp add: COMPLETE_FILES_def)
  ultimately show False using assms(1) ns(2) by (metis domIff uncommitted_def)
qed

section \<open>createBackup\<close>

text \<open>The backup that \<open>fill_backup\<close> is about to commit, and its manifest.\<close>

definition prepared_backup :: "(byte list \<Rightarrow> jstr) \<Rightarrow> backup_inputs \<Rightarrow> jstr \<Rightarrow> node \<Rightarrow> byte list \<Rightarrow> jstr \<Rightarrow> checkpoint \<Rightarrow> backup_files \<Rightarrow> jsval \<Rightarrow> bool" where
  "prepared_backup sha w spaceId source a closure point b m \<longleftrightarrow>
     snd (copyPrefix (nb_disk w) source (watermarkBytes point)) = Inr (bf_history b) \<and> bf_artifact b = a \<and>
     validateManifest (manifest_value sha spaceId a closure point (sha (bf_history b))) = Inr m \<and>
     canonicalManifestBytes m = Inr (bf_manifest b) \<and> bf_digest b = digest_line (sha (bf_manifest b))"

definition safe_state :: "(backup_files \<Rightarrow> jsval \<Rightarrow> bool) \<Rightarrow> fs \<Rightarrow> bool" where
  "safe_state B x \<longleftrightarrow> uncommitted x \<or> (\<exists>b m. B b m \<and> committed b x)"

lemma always_weaken: "always C P m Q \<Longrightarrow> (\<And>x. C x \<Longrightarrow> C' x) \<Longrightarrow> always C' P m Q"
  by (auto simp: always_def)

lemma always_safe: "always uncommitted P m Q \<Longrightarrow> always (safe_state B) P m Q"
  by (erule always_weaken) (simp add: safe_state_def)

lemma safe_files: "has_files l x \<Longrightarrow> safe_state B x"
  by (simp add: safe_state_def has_files_def)

lemma safe_committed: "B b m \<Longrightarrow> committed b x \<Longrightarrow> safe_state B x"
  by (auto simp: safe_state_def)

lemma three_append: "three b = [(HISTORY_FILE, bf_history b)] @ [(ARTIFACT_FILE, bf_artifact b)] @ [(MANIFEST_DIGEST_FILE, bf_digest b)]"
  by (simp add: three_def)

text \<open>The commit: from the three files to the finished directory.\<close>

lemma always_commit:
  assumes B: "B b m"
  shows "always (safe_state B) (has_files (three b))
    (act_bind (act_try s0 SyncDirectory) (\<lambda>_. act_bind (writeSynced dk (temporary_manifest pid) (bf_manifest b)) (\<lambda>_.
     act_bind (act_try rn (Rename (temporary_manifest pid) MANIFEST_FILE)) (\<lambda>_. act_bind (act_try s1 SyncDirectory) (\<lambda>_.
     act_bind (act_try s2 SyncParent) (\<lambda>_. lift_res (Inr rc)))))))
    (\<lambda>y x. y = rc \<and> all_durable b x)"
proof (intro always_bind)
  let ?t = "temporary_manifest pid"
  let ?P = "\<lambda>x. has_files (three b) x \<and> kept_names names_of_three x"
  let ?Q = "\<lambda>x. has_files (three b @ [(?t, bf_manifest b)]) x \<and> kept_names names_of_three x"
  let ?R = "\<lambda>x. committed b x \<and> fx_dir x = finished_map"
  have t: "?t \<notin> fst ` set (three b)" "?t \<notin> fst ` set names_of_three"
    using temporary_name(2) [of pid] by (auto simp: three_def names_of_three_def)
  show "always (safe_state B) (has_files (three b)) (act_try s0 SyncDirectory) (\<lambda>_. ?P)"
    by (rule always_try) (use three_settled safe_files in blast)
  show "always (safe_state B) ?P (writeSynced dk ?t (bf_manifest b)) (\<lambda>_. ?Q)"
    by (intro always_safe always_settled [OF always_writeSynced [OF t(1) temporary_name(1)] writeSynced_touches t(2)])
  show "always (safe_state B) ?Q (act_try rn (Rename ?t MANIFEST_FILE)) (\<lambda>_. ?R)"
    by (rule always_try) (use rename_commits [of b pid] safe_files safe_committed [of B, OF B] in blast)
  show "always (safe_state B) ?R (act_try s1 SyncDirectory) (\<lambda>_ x. committed b x \<and> fx_dirs x = [finished_map])"
    by (rule always_try) (use sync_finished [of b] safe_committed [of B, OF B] in blast)
  show "always (safe_state B) (\<lambda>x. committed b x \<and> fx_dirs x = [finished_map]) (act_try s2 SyncParent) (\<lambda>_. all_durable b)"
    by (rule always_try) (use parent_finished [of b] safe_committed [of B, OF B] all_durable_def in blast)
  show "always (safe_state B) (all_durable b) (lift_res (Inr rc)) (\<lambda>y x. y = rc \<and> all_durable b x)"
    by (rule always_lift) (use safe_committed [of B, OF B] all_durable_def in auto)
qed

lemma always_fill:
  "always (safe_state (prepared_backup sha w spaceId source a closure point)) (has_files []) (fill_backup sha w spaceId source a closure point)
    (\<lambda>rc x. \<exists>b m. prepared_backup sha w spaceId source a closure point b m \<and> all_durable b x \<and> rc = receipt_of (sha (bf_manifest b)) m)"
    (is "always (safe_state ?B) _ _ ?R")
  unfolding fill_backup_def Let_def
proof (rule always_bind)
  show "always (safe_state ?B) (has_files []) (copyPrefix (nb_disk w) source (watermarkBytes point)) (\<lambda>h. has_files [(HISTORY_FILE, h)])"
    using always_copyPrefix [of "[]"] by (simp add: always_safe)
  fix h assume h: "snd (copyPrefix (nb_disk w) source (watermarkBytes point)) = Inr h"
  let ?l1 = "[(HISTORY_FILE, h)]" let ?l2 = "[(HISTORY_FILE, h), (ARTIFACT_FILE, a)]"
  have pure: "always (safe_state ?B) (has_files l) (lift_res r) (\<lambda>_. has_files l)" for l and r :: "'z res"
    by (rule always_lift) (simp_all add: safe_files)
  have art: "always (safe_state ?B) (has_files ?l1) (writeSynced (nb_disk w) ARTIFACT_FILE a) (\<lambda>_. has_files ?l2)"
    using always_writeSynced [of ARTIFACT_FILE ?l1] by (simp add: always_safe)
  show "always (safe_state ?B) (has_files ?l1)
     (act_bind (lift_res (case nb_logFinal w of None \<Rightarrow> Inl PlainError
        | Some (regular, n) \<Rightarrow> if \<not> regular \<or> int n < watermarkBytes point then backupFailure ''file-changed'' else Inr ())) (\<lambda>_.
      act_bind (writeSynced (nb_disk w) ARTIFACT_FILE a) (\<lambda>_.
      act_bind (lift_res (validateManifest (manifest_value sha spaceId a closure point (sha h)))) (\<lambda>manifest.
      act_bind (lift_res (canonicalManifestBytes manifest)) (\<lambda>manifestBytes.
      act_bind (writeSynced (nb_disk w) MANIFEST_DIGEST_FILE (digest_line (sha manifestBytes))) (\<lambda>_.
      act_bind (act_try (dk_syncDirectory (nb_disk w) 0) SyncDirectory) (\<lambda>_.
      act_bind (writeSynced (nb_disk w) (temporary_manifest (nb_pid w)) manifestBytes) (\<lambda>_.
      act_bind (act_try (dk_rename (nb_disk w)) (Rename (temporary_manifest (nb_pid w)) MANIFEST_FILE)) (\<lambda>_.
      act_bind (act_try (dk_syncDirectory (nb_disk w) 1) SyncDirectory) (\<lambda>_.
      act_bind (act_try (dk_syncDirectory (nb_disk w) 2) SyncParent) (\<lambda>_.
        lift_res (Inr (receipt_of (sha manifestBytes) manifest))))))))))))) ?R"
  proof (rule always_bind [OF pure], rule always_bind [OF art], rule always_bind [OF pure], rule always_bind [OF pure], rule always_bind)
    fix m mb assume m: "snd (lift_res (validateManifest (manifest_value sha spaceId a closure point (sha h)))) = Inr m"
      "snd (lift_res (canonicalManifestBytes m)) = Inr mb"
    define b where "b = \<lparr>bf_artifact = a, bf_history = h, bf_manifest = mb, bf_digest = digest_line (sha mb)\<rparr>"
    have B: "?B b m" using h m by (simp add: prepared_backup_def b_def lift_res_def)
    show "always (safe_state ?B) (has_files ?l2) (writeSynced (nb_disk w) MANIFEST_DIGEST_FILE (digest_line (sha mb))) (\<lambda>_. has_files (three b))"
      using always_writeSynced [of MANIFEST_DIGEST_FILE ?l2] by (simp add: always_safe three_def b_def)
    have mb: "bf_manifest b = mb" by (simp add: b_def)
    show "always (safe_state ?B) (has_files (three b))
     (act_bind (act_try (dk_syncDirectory (nb_disk w) 0) SyncDirectory) (\<lambda>_.
      act_bind (writeSynced (nb_disk w) (temporary_manifest (nb_pid w)) mb) (\<lambda>_.
      act_bind (act_try (dk_rename (nb_disk w)) (Rename (temporary_manifest (nb_pid w)) MANIFEST_FILE)) (\<lambda>_.
      act_bind (act_try (dk_syncDirectory (nb_disk w) 1) SyncDirectory) (\<lambda>_.
      act_bind (act_try (dk_syncDirectory (nb_disk w) 2) SyncParent) (\<lambda>_.
        lift_res (Inr (receipt_of (sha mb) m)))))))) ?R"
      by (rule always_mono [OF always_commit [where B = ?B, OF B, unfolded mb]]) (use B mb in auto)
  qed
qed

text \<open>What a call of \<open>createBackup\<close> is about to commit.\<close>

definition backup_made :: "(byte list \<Rightarrow> jstr) \<Rightarrow> backup_inputs \<Rightarrow> backup_files \<Rightarrow> jsval \<Rightarrow> bool" where
  "backup_made sha w b m \<longleftrightarrow>
     (\<exists>source hb a closure point.
        openRegular (nb_log w) = Inr source \<and> parseLogHeader source = Inr (js_text (nb_space w), hb) \<and>
        readRegular (nb_receipt w) MAX_RECEIPT_BYTES = Inr a \<and> artifactReceipt a = Inr closure \<and>
        framNativeCheckpoint (nb_space w) (nb_timeout w) (nb_checkpoint w) = Inr point \<and> int hb \<le> watermarkBytes point \<and>
        prepared_backup sha w (js_text (nb_space w)) source a closure point b m)"

lemma always_step:
  assumes "\<And>y. r = Inr y \<Longrightarrow> always (safe_state B) (has_files []) (f y) Q"
  shows "always (safe_state B) (has_files []) (act_bind (lift_res r) f) Q"
proof (rule always_bind)
  show "always (safe_state B) (has_files []) (lift_res r) (\<lambda>_. has_files [])" by (rule always_lift) (simp_all add: safe_files)
qed (use assms in \<open>simp add: lift_res_def\<close>)

lemma always_catch:
  "always C P m Q \<Longrightarrow> always C P (case m of (ops, r) \<Rightarrow> (ops, catch_as c r)) Q"
  by (auto simp: always_def catch_as_def split: prod.split sum.splits js_error.splits)

lemma always_imp: "always (safe_state B) P m Q \<Longrightarrow> (\<And>b m. B b m \<Longrightarrow> B' b m) \<Longrightarrow> (\<And>y x. Q y x \<Longrightarrow> Q' y x) \<Longrightarrow> always (safe_state B') P m Q'"
  unfolding always_def safe_state_def by blast

lemma new_directory_empty: "has_files [] new_directory"
  by (simp add: has_files_def new_directory_def names_map_def fx_dir_def uncommitted_def)

lemma always_mkdir:
  "always (safe_state B) (has_files []) (case r of Made \<Rightarrow> ([Mkdir], Inr ()) | Exists \<Rightarrow> lift_res (backupFailure c)
     | NotMade \<Rightarrow> lift_res (backupFailure c')) (\<lambda>_. has_files [])"
proof (cases r)
  case Made
  then show ?thesis by simp (rule always_op, simp add: new_directory_empty safe_files [OF new_directory_empty] safe_files)
qed (auto intro: always_lift safe_files)

lemma always_createBackup:
  "always (safe_state (backup_made sha w)) (has_files []) (createBackup sha crc w)
    (\<lambda>rc x. \<exists>b m. backup_made sha w b m \<and> all_durable b x \<and> rc = receipt_of (sha (bf_manifest b)) m)"
  unfolding createBackup_def Let_def
proof (rule always_step, rule always_step, rule always_catch, rule always_step)
  fix source header
  assume s: "(if nb_samePath w then backupFailure ''unsafe-path''
        else case nb_output w of Absent \<Rightarrow> openRegular (nb_log w) | Present \<Rightarrow> backupFailure ''output-exists''
          | StatFailed \<Rightarrow> backupFailure ''file-open'') = Inr source" "parseLogHeader source = Inr header"
  obtain hs hb where header: "header = (hs, hb)" by fastforce
  show "always (safe_state (backup_made sha w)) (has_files []) (case header of (headerSpace, headerBytes) \<Rightarrow>
       act_bind (lift_res (if headerSpace \<noteq> js_text (nb_space w) then backupFailure ''space-mismatch'' else Inr ())) (\<lambda>_.
       act_bind (lift_res (readRegular (nb_receipt w) MAX_RECEIPT_BYTES)) (\<lambda>receiptBytes.
       act_bind (lift_res (artifactReceipt receiptBytes)) (\<lambda>closure.
       act_bind (lift_res (framNativeCheckpoint (nb_space w) (nb_timeout w) (nb_checkpoint w))) (\<lambda>point.
       act_bind (lift_res (catch_as ''checkpoint-mismatch'' (verifyCheckpointSnapshot crc (nb_snapshot w) point (js_text (nb_space w))))) (\<lambda>_.
       act_bind (lift_res (case nb_logAfter w of None \<Rightarrow> Inl PlainError
         | Some (regular, n) \<Rightarrow>
             if \<not> regular \<or> watermarkBytes point < int headerBytes \<or> int n < watermarkBytes point then mismatch else Inr ())) (\<lambda>_.
       act_bind (case nb_mkdir w of Made \<Rightarrow> ([Mkdir], Inr ()) | Exists \<Rightarrow> lift_res (backupFailure ''output-exists'')
         | NotMade \<Rightarrow> lift_res (backupFailure ''file-write'')) (\<lambda>_.
         fill_backup sha w (js_text (nb_space w)) source receiptBytes closure point))))))))
    (\<lambda>rc x. \<exists>b m. backup_made sha w b m \<and> all_durable b x \<and> rc = receipt_of (sha (bf_manifest b)) m)"
    unfolding header prod.case
  proof (rule always_step, rule always_step, rule always_step, rule always_step, rule always_step, rule always_step, rule always_bind)
    fix u :: unit and a closure point v and v' :: unit
    assume g: "(if hs \<noteq> js_text (nb_space w) then backupFailure ''space-mismatch'' else Inr ()) = Inr u"
      "readRegular (nb_receipt w) MAX_RECEIPT_BYTES = Inr a" "artifactReceipt a = Inr closure"
      "framNativeCheckpoint (nb_space w) (nb_timeout w) (nb_checkpoint w) = Inr point"
      "(case nb_logAfter w of None \<Rightarrow> Inl PlainError
         | Some (regular, n) \<Rightarrow> if \<not> regular \<or> watermarkBytes point < int hb \<or> int n < watermarkBytes point then mismatch else Inr ()) = Inr v'"
    show "always (safe_state (backup_made sha w)) (has_files [])
       (case nb_mkdir w of Made \<Rightarrow> ([Mkdir], Inr ()) | Exists \<Rightarrow> lift_res (backupFailure ''output-exists'')
         | NotMade \<Rightarrow> lift_res (backupFailure ''file-write'')) (\<lambda>_. has_files [])"
      by (rule always_mkdir)
    have made: "backup_made sha w b m" if "prepared_backup sha w (js_text (nb_space w)) source a closure point b m" for b m
      using s header g that unfolding backup_made_def by (auto split: if_splits output_stat.splits option.splits)
    show "always (safe_state (backup_made sha w)) (has_files []) (fill_backup sha w (js_text (nb_space w)) source a closure point)
      (\<lambda>rc x. \<exists>b m. backup_made sha w b m \<and> all_durable b x \<and> rc = receipt_of (sha (bf_manifest b)) m)"
      by (rule always_imp [OF always_fill]) (use made in blast)+
  qed
qed

section \<open>The log as it is while the backup is made\<close>

text \<open>The log may have grown since it was opened; its first bytes are those of \<open>log\<close>.\<close>

definition log_serves :: "node option \<Rightarrow> byte list \<Rightarrow> bool" where
  "log_serves path log \<longleftrightarrow> (\<exists>n. path = Some n \<and> nd_size n \<le> length log \<and> serves (nd_read n) log)"

lemma copy_chunks_read: "snd (copy_chunks dk rd count copied) = Inr bs \<Longrightarrow> read_chunks BUFFER_BYTES rd 0 count copied = Inr bs"
proof (induction dk rd count copied rule: copy_chunks.induct)
  case (1 dk rd count copied)
  note s = copy_chunks.simps [of dk rd count copied] and r = read_chunks.simps [of BUFFER_BYTES rd 0 count copied]
  let ?w = "min BUFFER_BYTES (count - length copied)"
  show ?case
  proof (cases "count \<le> length copied")
    case True
    with "1.prems" show ?thesis unfolding s r by (simp add: lift_res_def)
  next
    case False
    note p = "1.prems" [unfolded s if_not_P [OF False] Let_def]
    from p obtain bs' where bs': "rd (length copied) ?w = Some bs'" by (cases "rd (length copied) ?w") (simp_all add: lift_res_def)
    note p = p [unfolded bs' option.case]
    from p have ne: "take ?w bs' \<noteq> []" by (cases "take ?w bs' = []") (simp_all add: lift_res_def del: take_eq_Nil take_eq_Nil2)
    note p = p [unfolded if_not_P [OF ne]]
    from p have "snd (copy_chunks dk rd count (copied @ take ?w bs')) = Inr bs"
      by (auto simp: act_bind_def split: prod.splits sum.splits)
    from "1.IH" [OF False refl bs' ne this]
    show ?thesis unfolding r Let_def if_not_P [OF False] add_0 bs' option.case if_not_P [OF ne] .
  qed
qed

lemma copyPrefix_serves:
  assumes "snd (copyPrefix dk source count) = Inr h" "serves (nd_read source) log"
  shows "h = take (nat count) log" "nat count \<le> length log" "nat count \<le> SAFE_MAX"
proof -
  have c: "\<not> int SAFE_MAX < count" and r: "snd (copy_chunks dk (nd_read source) (nat count) []) = Inr h"
    using assms(1) by (auto simp: copyPrefix_def act_bind_def lift_res_def act_try_def split: if_splits prod.splits sum.splits)
  have "0 < BUFFER_BYTES" by (simp add: BUFFER_BYTES_def)
  with read_chunks_Inr [OF assms(2), of BUFFER_BYTES "nat count" 0 h] copy_chunks_read [OF r]
  show "h = take (nat count) log" "nat count \<le> length log" by auto
  from c show "nat count \<le> SAFE_MAX" by simp
qed

lemma parseLogHeader_Inr:
  "parseLogHeader n = Inr (s, hb) \<longleftrightarrow>
     \<not> nd_size n < LOG_FIXED_HEADER_BYTES \<and>
     (\<exists>fixed. readHandleExact n LOG_FIXED_HEADER_BYTES LOG_FIXED_HEADER_BYTES = Inr fixed \<and> take 8 fixed = LOG_MAGIC \<and>
        \<not> (le_nat (bytes_at 8 2 fixed) \<noteq> 1 \<or> le_nat (bytes_at 10 2 fixed) \<noteq> 0) \<and>
        \<not> (le_nat (bytes_at 12 4 fixed) = 0 \<or> MAX_SPACE_BYTES < le_nat (bytes_at 12 4 fixed)) \<and>
        \<not> nd_size n < LOG_FIXED_HEADER_BYTES + le_nat (bytes_at 12 4 fixed) \<and>
        (\<exists>bs. read_chunks (le_nat (bytes_at 12 4 fixed)) (nd_read n) LOG_FIXED_HEADER_BYTES (le_nat (bytes_at 12 4 fixed)) [] = Inr bs \<and>
          text_decode bs = Some s \<and> s \<noteq> [] \<and> hb = LOG_FIXED_HEADER_BYTES + le_nat (bytes_at 12 4 fixed)))"
proof -
  have "(case d of None \<Rightarrow> Inl e | Some t \<Rightarrow> if t = [] then Inl e else Inr (t, k)) = Inr (s, hb) \<longleftrightarrow> d = Some s \<and> s \<noteq> [] \<and> hb = k" for d k and e :: js_error
    by (auto split: option.split)
  then show ?thesis unfolding parseLogHeader_def Let_def by (simp only: if_Inr rbind_Inr_iff not_not)
qed

lemma parseLogHeader_grown:
  assumes "parseLogHeader n = Inr (s, hb)" "nd_size n \<le> length log" "serves (nd_read n) log"
  shows "parseFramlogHeader (Some log) = Inr s \<and> hb = LOG_FIXED_HEADER_BYTES + le_nat (bytes_at 12 4 log)"
proof -
  let ?n = "n\<lparr>nd_file := True, nd_size := length log\<rparr>"
  have r: "readHandleExact ?n = readHandleExact n" by (simp add: readHandleExact_def fun_eq_iff)
  have "parseLogHeader ?n = Inr (s, hb)"
    using assms(1,2) unfolding parseLogHeader_Inr r by (auto intro: order_trans)
  moreover have "file_holds ?n log" using assms(3) by (simp add: file_holds_def)
  ultimately show ?thesis using parseLogHeader_iff by blast
qed

lemma made_valid:
  assumes "backup_made sha w b m" "\<forall>x. SHA256 (sha x)" "log_serves (nb_log w) log"
  shows "valid_backup sha b m \<and> bf_history b = take (nat (text_int (js_text (field_of (field_of m ''history'') ''bytes'')))) log \<and>
    field_of m ''spaceId'' = JStr (js_text (nb_space w))"
proof -
  obtain source hb a closure point where p: "openRegular (nb_log w) = Inr source" "parseLogHeader source = Inr (js_text (nb_space w), hb)"
      "readRegular (nb_receipt w) MAX_RECEIPT_BYTES = Inr a" "artifactReceipt a = Inr closure"
      "int hb \<le> watermarkBytes point" and B: "prepared_backup sha w (js_text (nb_space w)) source a closure point b m"
    using assms(1) unfolding backup_made_def by blast
  have n: "nd_size source \<le> length log" "serves (nd_read source) log"
    using p(1) assms(3) by (auto simp: log_serves_def openRegular_def split: if_splits)
  note b = B [unfolded prepared_backup_def]
  note h = copyPrefix_serves [OF conjunct1 [OF b] n(2)]
  note hd = parseLogHeader_grown [OF p(2) n]
  have "parseFramlogHeader (Some (bf_history b)) = Inr (js_text (nb_space w))"
    unfolding h(1) using hd p(5) by (intro parseFramlogHeader_prefix) linarith+
  moreover have "length a \<le> MAX_RECEIPT_BYTES"
    using p(3) read_chunks_length by (fastforce simp: readRegular_def readHandleExact_def res_simps split: if_splits)
  ultimately have "valid_backup sha \<lparr>bf_artifact = a, bf_history = bf_history b, bf_manifest = bf_manifest b, bf_digest = digest_line (sha (bf_manifest b))\<rparr> m"
    using b p(4) assms(2) h by (intro created_valid) auto
  moreover have "\<lparr>bf_artifact = a, bf_history = bf_history b, bf_manifest = bf_manifest b, bf_digest = digest_line (sha (bf_manifest b))\<rparr> = b"
    using b by simp
  moreover have "m = manifest_value sha (js_text (nb_space w)) a closure point (sha (bf_history b))"
    using b validateManifest_same by blast
  then have "field_of (field_of m ''history'') ''bytes'' = JStr (int_text (watermarkBytes point))" "field_of m ''spaceId'' = JStr (js_text (nb_space w))"
    by (simp_all add: manifest_value_def field_of_def)
  ultimately show ?thesis using h(1) by (simp add: js_text_def)
qed

section \<open>What is found after a backup, or after a crash during it\<close>

lemma prefix_safe:
  assumes "createBackup sha crc w = (ops, r)"
  shows "safe_state (backup_made sha w) (fs_run (take k ops) new_directory)"
  using always_createBackup [of sha w crc] new_directory_empty assms by (auto simp: always_def)

lemma interrupted_backup:
  assumes "createBackup sha crc w = (ops, r)" "found_later (fs_run (take k ops) new_directory) entries" "verifyBackup sha entries wanted = Inr rc"
    "\<forall>x. SHA256 (sha x)" "log_serves (nb_log w) log"
  shows "\<exists>ns b m. entries = Some ns \<and> directory_holds ns b \<and> valid_backup sha b m \<and> rc = receipt_of (sha (bf_manifest b)) m \<and>
     bf_history b = take (nat (text_int (js_text (br_historyBytes rc)))) log \<and> readRegular (nb_receipt w) MAX_RECEIPT_BYTES = Inr (bf_artifact b)"
proof -
  obtain b m where b: "backup_made sha w b m" "committed b (fs_run (take k ops) new_directory)"
    using prefix_safe [OF assms(1), of k] uncommitted_found [OF _ assms(2)] assms(3) unfolding safe_state_def by blast
  obtain ns where ns: "entries = Some ns" "set (map fst ns) = set COMPLETE_FILES" using verified_names [OF assms(3)] by blast
  have h: "directory_holds ns b" using committed_found [OF b(2) _ ns(2)] assms(2) ns(1) by (simp add: found_later_def)
  note v = made_valid [OF b(1) assms(4,5)]
  obtain m' where m': "valid_backup sha b m'" "rc = receipt_of (sha (bf_manifest b)) m'"
    using assms(3) unfolding ns(1) verifyBackup_directory [OF h] by blast
  have "m' = m" using m'(1) v by (auto simp: valid_backup_def)
  moreover have "readRegular (nb_receipt w) MAX_RECEIPT_BYTES = Inr (bf_artifact b)" using b(1) by (auto simp: backup_made_def prepared_backup_def)
  moreover have "br_historyBytes rc = field_of (field_of m' ''history'') ''bytes''" by (simp add: m'(2) receipt_of_def)
  ultimately show ?thesis using ns(1) h v m' by metis
qed

lemma finished_backup:
  assumes "createBackup sha crc w = (ops, Inr rc)" "found_later (fs_run ops new_directory) entries"
    "\<forall>x. SHA256 (sha x)" "log_serves (nb_log w) log"
  shows "\<exists>ns b m. entries = Some ns \<and> directory_holds ns b \<and> bf_history b = take (nat (text_int (js_text (br_historyBytes rc)))) log \<and>
    verifyBackup sha entries JUndef = Inr rc \<and> verifyBackup sha entries (JStr (js_text (nb_space w))) = Inr rc"
proof -
  obtain b m where b: "backup_made sha w b m" "all_durable b (fs_run ops new_directory)" "rc = receipt_of (sha (bf_manifest b)) m"
    using always_createBackup [of sha w crc] new_directory_empty assms(1) by (auto simp: always_def)
  obtain ns where ns: "entries = Some ns" "directory_holds ns b" using finished_found [OF b(2) assms(2)] by blast
  note v = made_valid [OF b(1) assms(3,4)]
  have "verifyBackup sha entries JUndef = Inr rc" "verifyBackup sha entries (JStr (js_text (nb_space w))) = Inr rc"
    unfolding ns(1) verifyBackup_directory [OF ns(2)] using v b(3) by auto
  with ns v b(3) show ?thesis by (auto simp: receipt_of_def)
qed

end
