(* ===== verification/BackupSnapshot.thy ===== *)
theory BackupSnapshot
  imports BackupFiles
begin

text \<open>
  The snapshot of a checkpoint: which files \<open>verifyCheckpointSnapshot\<close> accepts, as a description of their bytes.
\<close>

section \<open>The fields of the trailer\<close>

lemma take_bytes_Inr: "take_bytes n bs = Inr (b, r) \<longleftrightarrow> length b = n \<and> bs = b @ r"
  by (auto simp: take_bytes_def)

lemma le_bytes_of_nat: "length b = k \<Longrightarrow> le_nat b = m \<longleftrightarrow> m < 256 ^ k \<and> b = le_bytes k m"
  using le_nat_less [of b] le_bytes_nat [of b] le_nat_bytes [of k m] by (metis mod_less)

lemma take_u32_Inr: "take_u32 bs = Inr (m, r) \<longleftrightarrow> m < 2 ^ 32 \<and> bs = le_bytes 4 m @ r"
  unfolding take_u32_def rbind_Inr_iff split_paired_Ex take_bytes_Inr prod.case
  using le_bytes_of_nat [of _ 4 m] by fastforce

lemma i64_of_int: "length b = 8 \<Longrightarrow> le_int b = z \<longleftrightarrow> i64_ok z \<and> b = i64_bytes z"
  using le_int_range [of b] le_int_i64_bytes [of z] by (auto simp: i64_bytes_def i64_ok_def I64_MIN_def I64_MAX_def)

lemma take_i64_Inr: "take_i64 bs = Inr (z, r) \<longleftrightarrow> 0 \<le> z \<and> i64_ok z \<and> bs = i64_bytes z @ r"
proof -
  have "(if le_int b < 0 then mismatch else Inr (le_int b, q)) = Inr (z, r) \<longleftrightarrow> 0 \<le> z \<and> le_int b = z \<and> q = r" for b q by auto
  then show ?thesis
    unfolding take_i64_def rbind_Inr_iff split_paired_Ex take_bytes_Inr prod.case
    using i64_of_int [of _ z] by fastforce
qed

definition sidecar_bytes :: "sidecar \<Rightarrow> byte list \<Rightarrow> byte list" where
  "sidecar_bytes sc lb =
     [5] @ i64_bytes (sc_sequence sc) @ i64_bytes (sc_watermark sc) @ le_bytes 4 1 @ le_bytes 4 (length lb) @ lb @
     i64_bytes (sc_imageStart sc) @ i64_bytes (sc_imageEnd sc) @ i64_bytes (sc_stamp sc) @ le_bytes 4 (nat (sc_fingerprint sc))"

definition sidecar_ok :: "sidecar \<Rightarrow> byte list \<Rightarrow> bool" where
  "sidecar_ok sc lb \<longleftrightarrow>
     (\<forall>z \<in> {sc_sequence sc, sc_watermark sc, sc_imageStart sc, sc_imageEnd sc, sc_stamp sc}. 0 \<le> z \<and> i64_ok z) \<and>
     0 \<le> sc_fingerprint sc \<and> sc_fingerprint sc < 2 ^ 32 \<and> text_decode lb = Some (sc_label sc) \<and> 0 < length lb \<and> length lb \<le> MAX_SPACE_BYTES"

lemma snapshot_sidecar_bytes: "sidecar_ok sc lb \<Longrightarrow> snapshot_sidecar (sidecar_bytes sc lb) = Inr sc"
proof -
  assume ok: "sidecar_ok sc lb"
  have b: "take_bytes 1 (5 # r) = Inr ([5], r)" "take_bytes (length q) (q @ r) = Inr (q, r)" for q r :: "byte list"
    by (simp_all add: take_bytes_def)
  have u: "m < 2 ^ 32 \<Longrightarrow> take_u32 (le_bytes 4 m @ r) = Inr (m, r)" for m r by (simp add: take_u32_Inr)
  have i: "0 \<le> z \<Longrightarrow> i64_ok z \<Longrightarrow> take_i64 (i64_bytes z @ r) = Inr (z, r)" for z r by (simp add: take_i64_Inr)
  have l: "length lb < 2 ^ 32" using ok by (simp add: sidecar_ok_def MAX_SPACE_BYTES_def)
  have f: "take_u32 (le_bytes 4 (nat (sc_fingerprint sc))) = Inr (nat (sc_fingerprint sc), [])"
    using ok by (auto simp: take_u32_Inr sidecar_ok_def)
  show ?thesis
    using ok u [of 1] u [OF l] f i b
    by (simp add: snapshot_sidecar_def sidecar_bytes_def sidecar_ok_def)
qed

lemma snapshot_sidecar_Inr: "snapshot_sidecar payload = Inr sc \<longleftrightarrow> (\<exists>lb. sidecar_ok sc lb \<and> payload = sidecar_bytes sc lb)"
proof
  have label: "(case text_decode lb of None \<Rightarrow> mismatch | Some t \<Rightarrow> f t) = Inr sc \<longleftrightarrow> (\<exists>t. text_decode lb = Some t \<and> f t = Inr sc)"
    for lb and f :: "jstr \<Rightarrow> sidecar res" by (auto split: option.split)
  have guard: "(if p then mismatch else X) = Inr sc \<longleftrightarrow> \<not> p \<and> X = Inr sc" for p X by simp
  assume "snapshot_sidecar payload = Inr sc"
  then show "\<exists>lb. sidecar_ok sc lb \<and> payload = sidecar_bytes sc lb"
    unfolding snapshot_sidecar_def rbind_Inr_iff split_paired_Ex take_bytes_Inr take_u32_Inr take_i64_Inr prod.case label guard
    by (elim exE conjE) (rule exI, auto simp: sidecar_ok_def sidecar_bytes_def)
qed (auto simp: snapshot_sidecar_bytes)

section \<open>The records\<close>

text \<open>A record as it is stored: the length of its payload, the payload and four bytes of checksum.\<close>

definition raw_record :: "byte list \<times> byte list \<Rightarrow> byte list" where
  "raw_record r = le_bytes 4 (length (fst r)) @ fst r @ snd r"

definition raw_ok :: "byte list \<times> byte list \<Rightarrow> bool" where
  "raw_ok r \<longleftrightarrow> 0 < length (fst r) \<and> length (fst r) \<le> MAX_SNAPSHOT_RECORD_BYTES \<and> length (snd r) = 4"

lemma raw_length [simp]: "raw_ok r \<Longrightarrow> length (raw_record r) = 8 + length (fst r)"
  by (simp add: raw_record_def raw_ok_def)

lemma raw_nonempty [simp]: "raw_record r \<noteq> []"
proof -
  have "4 \<le> length (raw_record r)" by (simp add: raw_record_def)
  then show ?thesis by auto
qed

lemmas raw_nonempty' [simp] = raw_nonempty [symmetric]

lemma record_small: "length p \<le> MAX_SNAPSHOT_RECORD_BYTES \<Longrightarrow> length p mod 256 ^ 4 = length p"
  by (simp add: MAX_SNAPSHOT_RECORD_BYTES_def)

text \<open>One step of the loop, on a file that begins at the position with a record.\<close>

lemma snapshot_records_step:
  assumes n: "file_holds n c" "length c \<le> SAFE_MAX" and r: "raw_ok r" "drop p c = raw_record r @ rest" "p < length c"
  shows "snapshot_records n p =
    (if rest = [] then Inr (Some (p, fst r @ snd r)) else snapshot_records n (p + length (raw_record r)))"
proof -
  have sz: "nd_size n = length c" using n(1) by (simp add: file_holds_def)
  have len: "length c = p + (8 + length (fst r)) + length rest" using arg_cong [OF r(2), of length] r(1,3) by simp
  have l4: "readAtExact n p 4 = Inr (le_bytes 4 (length (fst r)))"
    using len n r by (simp add: readAtExact_Inr [OF n(1)] raw_record_def SAFE_MAX_def)
  have m: "le_nat (le_bytes 4 (length (fst r))) = length (fst r)" using r(1) record_small [of "fst r"] by (simp add: raw_ok_def)
  have t: "readAtExact n (p + 4) (length (fst r) + 4) = Inr (fst r @ snd r)"
  proof -
    have "drop (p + 4) c = drop 4 (drop p c)" by (simp add: add.commute)
    then have "drop (p + 4) c = fst r @ snd r @ rest" by (simp add: r(2) raw_record_def)
    then show ?thesis using len n r(1) by (simp add: readAtExact_Inr [OF n(1)] raw_ok_def)
  qed
  have c: "\<not> nd_size n \<le> p" "\<not> (length (fst r) = 0 \<or> MAX_SNAPSHOT_RECORD_BYTES < length (fst r))"
    "\<not> (SAFE_MAX < p + 4 + length (fst r) + 4 \<or> nd_size n < p + 4 + length (fst r) + 4)"
    using r len n(2) sz by (auto simp: raw_ok_def)
  have e: "p + 4 + length (fst r) + 4 = nd_size n \<longleftrightarrow> rest = []" using len sz by auto
  have s: "p + 4 + length (fst r) + 4 = p + length (raw_record r)" using r(1) by simp
  show ?thesis
    unfolding snapshot_records.simps [of n p] if_not_P [OF c(1)] l4 rbind.simps Let_def m if_not_P [OF c(2)] if_not_P [OF c(3)] e t
    unfolding s ..
qed

lemma snapshot_records_parts:
  assumes n: "file_holds n c" "length c \<le> SAFE_MAX"
  shows "\<forall>r \<in> set (rs @ [x]). raw_ok r \<Longrightarrow> drop p c = concat (map raw_record rs) @ raw_record x \<Longrightarrow>
    snapshot_records n p = Inr (Some (p + length (concat (map raw_record rs)), fst x @ snd x))"
proof (induction rs arbitrary: p)
  case Nil
  then have "p < length c" by (cases "p < length c") auto
  with Nil snapshot_records_step [OF n, of x p "[]"] show ?case by simp
next
  case (Cons r rs)
  let ?rest = "concat (map raw_record rs) @ raw_record x"
  have ne: "?rest \<noteq> []" by simp
  have d: "drop p c = raw_record r @ ?rest" using Cons.prems(2) by simp
  then have p: "p < length c" by (cases "p < length c") auto
  have "drop (p + length (raw_record r)) c = drop (length (raw_record r)) (drop p c)" by (simp add: add.commute)
  then have "drop (p + length (raw_record r)) c = ?rest" unfolding d by simp
  from Cons.IH [OF _ this] Cons.prems(1)
  have "snapshot_records n (p + length (raw_record r)) =
      Inr (Some (p + length (raw_record r) + length (concat (map raw_record rs)), fst x @ snd x))" by simp
  with snapshot_records_step [OF n _ d p] ne Cons.prems(1) show ?case by simp
qed

lemma drop_bytes_at: "drop p c = bytes_at p k c @ drop (p + k) c"
  unfolding bytes_at_def by (metis add.commute append_take_drop_id drop_drop)

lemma snapshot_records_only:
  assumes n: "file_holds n c" "length c \<le> SAFE_MAX"
  shows "snapshot_records n p = Inr (Some (tp, tr)) \<Longrightarrow>
    \<exists>rs x. (\<forall>r \<in> set (rs @ [x]). raw_ok r) \<and> drop p c = concat (map raw_record rs) @ raw_record x \<and>
      tp = p + length (concat (map raw_record rs)) \<and> tr = fst x @ snd x"
proof (induction "nd_size n - p" arbitrary: p rule: less_induct)
  case less
  have sz: "nd_size n = length c" using n(1) by (simp add: file_holds_def)
  have guard: "(if q then mismatch else X) = Inr y \<longleftrightarrow> \<not> q \<and> X = Inr y" for q X and y :: "(nat \<times> byte list) option" by simp
  have pos: "\<not> nd_size n \<le> p" using less.prems by (subst (asm) snapshot_records.simps) (auto split: if_splits)
  note s = less.prems [unfolded snapshot_records.simps [of n p] if_not_P [OF pos] rbind_Inr_iff readAtExact_Inr [OF n(1)] Let_def guard]
  define len where "len = le_nat (take 4 (drop p c))"
  define r where "r = (take len (drop (p + 4) c), take 4 (drop (p + 4 + len) c))"
  from s have four: "p + 4 \<le> length c" and ok: "0 < len" "len \<le> MAX_SNAPSHOT_RECORD_BYTES" "p + 4 + len + 4 \<le> length c"
    unfolding len_def sz by auto
  have rok: "raw_ok r" using ok by (simp add: raw_ok_def r_def)
  have "length (take 4 (drop p c)) = 4" using four by simp
  then have l4: "le_bytes 4 len = take 4 (drop p c)" unfolding len_def by (metis le_bytes_nat)
  have ll: "length (fst r) = len" using ok(3) by (simp add: r_def)
  have rr: "raw_record r = take 4 (drop p c) @ take len (drop (p + 4) c) @ take 4 (drop (p + 4 + len) c)"
    unfolding raw_record_def ll l4 by (simp add: r_def)
  have pp: "p + length (raw_record r) = p + 4 + len + 4" using rok ll by simp
  have "drop p c = take 4 (drop p c) @ take len (drop (p + 4) c) @ take 4 (drop (p + 4 + len) c) @ drop (p + 4 + len + 4) c"
    using drop_bytes_at [of p c 4] drop_bytes_at [of "p + 4" c len] drop_bytes_at [of "p + 4 + len" c 4] unfolding bytes_at_def by metis
  then have d: "drop p c = raw_record r @ drop (p + length (raw_record r)) c"
    unfolding pp by (simp only: rr append_assoc)
  note step = snapshot_records_step [OF n rok d]
  show ?case
  proof (cases "drop (p + length (raw_record r)) c = []")
    case True
    with step less.prems pos sz d rok show ?thesis by (intro exI [of _ "[]"] exI [of _ r]) simp
  next
    case False
    with step less.prems pos sz have m: "snapshot_records n (p + length (raw_record r)) = Inr (Some (tp, tr))" by simp
    have "nd_size n - (p + length (raw_record r)) < nd_size n - p" using pos rok by simp
    from less.hyps [OF this m] obtain rs x where rs: "\<forall>r \<in> set (rs @ [x]). raw_ok r"
      "drop (p + length (raw_record r)) c = concat (map raw_record rs) @ raw_record x"
      "tp = p + length (raw_record r) + length (concat (map raw_record rs))" "tr = fst x @ snd x" by blast
    with d rok show ?thesis by (intro exI [of _ "r # rs"] exI [of _ x]) simp
  qed
qed

section \<open>The snapshot\<close>

definition snapshot_head :: "byte list \<Rightarrow> int \<Rightarrow> byte list" where
  "snapshot_head sb v = SNAPSHOT_MAGIC @ le_bytes 2 1 @ le_bytes 2 0 @ le_bytes 4 (length sb) @ sb @ i64_bytes (v + 1)"

definition sidecar_of :: "checkpoint \<Rightarrow> jstr \<Rightarrow> nat \<Rightarrow> nat \<Rightarrow> sidecar" where
  "sidecar_of point s start end' =
     \<lparr>sc_sequence = cp_servedVersion point, sc_watermark = watermarkBytes point, sc_label = s, sc_imageStart = int start,
      sc_imageEnd = int end', sc_stamp = createdAtUnixMs point, sc_fingerprint = snapshotCrc32 point\<rparr>"

text \<open>
  The bytes of a snapshot of the point: a header with the space and the next sequence, records of any content, and last the sidecar
  with its checksum. The space and the label are encoded as \<open>sb\<close> and \<open>lb\<close>.
\<close>

definition snapshot_of :: "(byte list \<Rightarrow> nat) \<Rightarrow> checkpoint \<Rightarrow> jstr \<Rightarrow> byte list \<Rightarrow> (byte list \<times> byte list) list \<Rightarrow> byte list \<Rightarrow> byte list \<Rightarrow> bool" where
  "snapshot_of crc point s sb rs lb c \<longleftrightarrow>
     (let start = 32 + length sb; sc = sidecar_of point s start (start + length (concat (map raw_record rs))); payload = sidecar_bytes sc lb in
      c = snapshot_head sb (cp_servedVersion point) @ concat (map raw_record rs) @ raw_record (payload, le_bytes 4 (crc payload)) \<and>
      int (length c) = snapshotBytes point \<and> length c \<le> SAFE_MAX \<and> (\<forall>r \<in> set rs. raw_ok r) \<and>
      text_decode sb = Some s \<and> 0 < length sb \<and> length sb \<le> MAX_SPACE_BYTES \<and> i64_ok (cp_servedVersion point + 1) \<and>
      sidecar_ok sc lb \<and> crc payload < 2 ^ 32)"

lemma sidecar_length: "length (sidecar_bytes sc lb) = 53 + length lb"
  by (simp add: sidecar_bytes_def)

lemma sidecar_raw_ok: "sidecar_ok sc lb \<Longrightarrow> raw_ok (sidecar_bytes sc lb, le_bytes 4 k)"
  by (simp add: raw_ok_def sidecar_length sidecar_ok_def MAX_SPACE_BYTES_def MAX_SNAPSHOT_RECORD_BYTES_def)

lemma SNAPSHOT_MAGIC_length [simp]: "length SNAPSHOT_MAGIC = 16"
  by (simp add: SNAPSHOT_MAGIC_def)

lemma snapshot_head_length [simp]: "length (snapshot_head sb v) = 32 + length sb"
  by (simp add: snapshot_head_def)

text \<open>The two parts of the header.\<close>

lemma head_fields:
  assumes "length c = 24"
  shows "take 16 c = SNAPSHOT_MAGIC \<and> le_nat (bytes_at 16 2 c) = 1 \<and> le_nat (bytes_at 18 2 c) = 0 \<and> le_nat (bytes_at 20 4 c) = k \<longleftrightarrow>
    k < 2 ^ 32 \<and> c = SNAPSHOT_MAGIC @ le_bytes 2 1 @ le_bytes 2 0 @ le_bytes 4 k"
proof -
  have c: "c = take 16 c @ bytes_at 16 2 c @ bytes_at 18 2 c @ bytes_at 20 4 c"
    using drop_bytes_at [of 16 c 2] drop_bytes_at [of 18 c 2] drop_bytes_at [of 20 c 4] append_take_drop_id [of 16 c] assms by simp
  have l: "length (bytes_at 16 2 c) = 2" "length (bytes_at 18 2 c) = 2" "length (bytes_at 20 4 c) = 4" "length (take 16 c) = 16"
    using assms by (simp_all add: bytes_at_def)
  have "c = SNAPSHOT_MAGIC @ le_bytes 2 1 @ le_bytes 2 0 @ le_bytes 4 k \<longleftrightarrow>
      take 16 c = SNAPSHOT_MAGIC \<and> bytes_at 16 2 c = le_bytes 2 1 \<and> bytes_at 18 2 c = le_bytes 2 0 \<and> bytes_at 20 4 c = le_bytes 4 k"
    by (subst c) (simp add: l append_eq_append_conv)
  with l show ?thesis by (simp add: le_bytes_of_nat) blast
qed

lemma verifyCheckpointSnapshot_Inr:
  assumes "file_holds n c"
  shows "verifyCheckpointSnapshot crc (Some n) point s = Inr () \<longleftrightarrow> (\<exists>sb rs lb. snapshot_of crc point s sb rs lb c)"
proof -
  have sz: "nd_size n = length c" using assms by (simp add: file_holds_def)
  have guard: "(if q then mismatch else X) = Inr y \<longleftrightarrow> \<not> q \<and> X = Inr y" for q X and y :: unit by simp
  have dec: "(case d of None \<Rightarrow> mismatch | Some t \<Rightarrow> f t) = Inr () \<longleftrightarrow> (\<exists>t. d = Some t \<and> f t = Inr ())" for d :: "jstr option" and f by (auto split: option.split)
  have last: "(case l of None \<Rightarrow> mismatch | Some (tp, tr) \<Rightarrow> f tp tr) = Inr () \<longleftrightarrow> (\<exists>tp tr. l = Some (tp, tr) \<and> f tp tr = Inr ())"
    for l :: "(nat \<times> byte list) option" and f by (auto split: option.split)
  have cond: "verifyCheckpointSnapshot crc (Some n) point s = Inr () \<longleftrightarrow>
      int (length c) = snapshotBytes point \<and> length c \<le> SAFE_MAX \<and> 24 \<le> length c \<and>
      (\<exists>k. take 16 (take 24 c) = SNAPSHOT_MAGIC \<and> le_nat (bytes_at 16 2 (take 24 c)) = 1 \<and> le_nat (bytes_at 18 2 (take 24 c)) = 0 \<and>
        le_nat (bytes_at 20 4 (take 24 c)) = k \<and> 0 < k \<and> k \<le> MAX_SPACE_BYTES \<and> 32 + k \<le> length c \<and>
        text_decode (bytes_at 24 k c) = Some s \<and> le_int (bytes_at (24 + k) 8 c) = cp_servedVersion point + 1 \<and>
        (\<exists>tp tr sc. snapshot_records n (32 + k) = Inr (Some (tp, tr)) \<and> crc (take (length tr - 4) tr) = le_nat (drop (length tr - 4) tr) \<and>
          snapshot_sidecar (take (length tr - 4) tr) = Inr sc \<and> sc = sidecar_of point s (32 + k) tp))"
  proof -
    have sc: "\<not> (sc_sequence sc \<noteq> cp_servedVersion point \<or> sc_watermark sc \<noteq> watermarkBytes point \<or> sc_label sc \<noteq> s \<or>
        sc_imageStart sc \<noteq> int st \<or> sc_imageEnd sc \<noteq> int tp \<or> sc_stamp sc \<noteq> createdAtUnixMs point \<or> sc_fingerprint sc \<noteq> snapshotCrc32 point) \<longleftrightarrow>
        sc = sidecar_of point s st tp" for sc st tp
      by (cases sc) (auto simp: sidecar_of_def)
    have safe: "24 \<le> SAFE_MAX" "k \<le> MAX_SPACE_BYTES \<Longrightarrow> k + 8 \<le> SAFE_MAX" for k by (simp_all add: SAFE_MAX_def MAX_SPACE_BYTES_def)
    have parts: "take k (take (k + 8) (drop 24 c)) = bytes_at 24 k c" "bytes_at k 8 (take (k + 8) (drop 24 c)) = bytes_at (24 + k) 8 c"
      "24 + k + 8 = 32 + k" for k
      by (simp_all add: bytes_at_def drop_take add.commute)
    show ?thesis
      unfolding verifyCheckpointSnapshot_def openRegular_holds [OF assms] rbind.simps Let_def guard rbind_Inr_iff readAtExact_Inr [OF assms] dec last sz
        sc
      using safe by (simp add: parts) (auto simp: add.commute bytes_at_def [of 24])
  qed
  show ?thesis
  proof
    assume "verifyCheckpointSnapshot crc (Some n) point s = Inr ()"
    then obtain k tp tr sc where c: "int (length c) = snapshotBytes point" "length c \<le> SAFE_MAX" "24 \<le> length c" "0 < k" "k \<le> MAX_SPACE_BYTES"
        "32 + k \<le> length c" "text_decode (bytes_at 24 k c) = Some s"
      and hd: "take 16 (take 24 c) = SNAPSHOT_MAGIC \<and> le_nat (bytes_at 16 2 (take 24 c)) = 1 \<and> le_nat (bytes_at 18 2 (take 24 c)) = 0 \<and>
        le_nat (bytes_at 20 4 (take 24 c)) = k"
      and v: "le_int (bytes_at (24 + k) 8 c) = cp_servedVersion point + 1"
      and tr: "snapshot_records n (32 + k) = Inr (Some (tp, tr))" "crc (take (length tr - 4) tr) = le_nat (drop (length tr - 4) tr)"
        "snapshot_sidecar (take (length tr - 4) tr) = Inr sc" "sc = sidecar_of point s (32 + k) tp"
      unfolding cond by blast
    let ?sb = "bytes_at 24 k c"
    have k: "length ?sb = k" "length (bytes_at (24 + k) 8 c) = 8" using c(6) by (simp_all add: bytes_at_def)
    have "take 24 c = SNAPSHOT_MAGIC @ le_bytes 2 1 @ le_bytes 2 0 @ le_bytes 4 k" using head_fields [of "take 24 c" k] hd c(3) by simp
    moreover have "i64_ok (cp_servedVersion point + 1)" "bytes_at (24 + k) 8 c = i64_bytes (cp_servedVersion point + 1)"
      using v i64_of_int [OF k(2)] by simp_all
    moreover have "c = take 24 c @ ?sb @ bytes_at (24 + k) 8 c @ drop (32 + k) c"
      using append_take_drop_id [of 24 c] drop_bytes_at [of 24 c k] drop_bytes_at [of "24 + k" c 8] by (simp add: add.commute add.left_commute)
    ultimately have head: "c = snapshot_head ?sb (cp_servedVersion point) @ drop (32 + k) c" "i64_ok (cp_servedVersion point + 1)"
      by (simp_all add: snapshot_head_def k(1))
    obtain rs x where rs: "\<forall>r \<in> set (rs @ [x]). raw_ok r" "drop (32 + k) c = concat (map raw_record rs) @ raw_record x"
        "tp = 32 + k + length (concat (map raw_record rs))" "tr = fst x @ snd x"
      using snapshot_records_only [OF assms c(2) tr(1)] by blast
    have x: "take (length tr - 4) tr = fst x" "drop (length tr - 4) tr = snd x" "length (snd x) = 4" using rs(1,4) by (simp_all add: raw_ok_def)
    then have ck: "snd x = le_bytes 4 (crc (fst x))" "crc (fst x) < 2 ^ 32" using tr(2) le_bytes_of_nat [of "snd x" 4 "crc (fst x)"] by simp_all
    obtain lb where lb: "sidecar_ok sc lb" "fst x = sidecar_bytes sc lb" using tr(3) unfolding x snapshot_sidecar_Inr by blast
    have xe: "x = (sidecar_bytes sc lb, le_bytes 4 (crc (sidecar_bytes sc lb)))" using ck(1) lb(2) by (metis prod.collapse)
    have "snapshot_of crc point s ?sb rs lb c"
      unfolding snapshot_of_def Let_def k(1) rs(3) [symmetric] tr(4) [symmetric] xe [symmetric]
      using head rs(1,2) c lb ck(2) k(1) by (auto simp: xe) 
    then show "\<exists>sb rs lb. snapshot_of crc point s sb rs lb c" by blast
  next
    assume "\<exists>sb rs lb. snapshot_of crc point s sb rs lb c"
    then obtain sb rs lb where c: "snapshot_of crc point s sb rs lb c" by blast
    define sc where "sc = sidecar_of point s (32 + length sb) (32 + length sb + length (concat (map raw_record rs)))"
    define x where "x = (sidecar_bytes sc lb, le_bytes 4 (crc (sidecar_bytes sc lb)))"
    let ?rest = "concat (map raw_record rs) @ raw_record x"
    note c = c [unfolded snapshot_of_def Let_def, folded sc_def, folded x_def]
    have e: "c = snapshot_head sb (cp_servedVersion point) @ ?rest" using c by blast
    have len: "length sb \<le> MAX_SPACE_BYTES" "sidecar_ok sc lb" "length c \<le> SAFE_MAX" using c by blast+
    have t: "take 24 c = SNAPSHOT_MAGIC @ le_bytes 2 1 @ le_bytes 2 0 @ le_bytes 4 (length sb)" by (simp add: e snapshot_head_def)
    have d: "drop 24 c = sb @ i64_bytes (cp_servedVersion point + 1) @ ?rest" by (simp add: e snapshot_head_def)
    have b: "bytes_at 24 (length sb) c = sb" by (simp add: bytes_at_def d)
    have "drop (24 + length sb) c = drop (length sb) (drop 24 c)" by (simp add: add.commute)
    then have i: "bytes_at (24 + length sb) 8 c = i64_bytes (cp_servedVersion point + 1)" unfolding bytes_at_def d by simp
    have "drop (32 + length sb) c = ?rest" by (simp add: e)
    moreover have "\<forall>r \<in> set (rs @ [x]). raw_ok r" using c sidecar_raw_ok [OF len(2)] by (auto simp: x_def)
    ultimately have r: "snapshot_records n (32 + length sb) = Inr (Some (32 + length sb + length (concat (map raw_record rs)), fst x @ snd x))"
      using snapshot_records_parts [OF assms len(3)] by blast
    have "length (take 24 c) = 24" by (simp add: t)
    from head_fields [OF this, of "length sb"] len(1) t
    have hd: "take 16 (take 24 c) = SNAPSHOT_MAGIC \<and> le_nat (bytes_at 16 2 (take 24 c)) = 1 \<and> le_nat (bytes_at 18 2 (take 24 c)) = 0 \<and>
        le_nat (bytes_at 20 4 (take 24 c)) = length sb" by (simp add: MAX_SPACE_BYTES_def)
    have p: "take (length (fst x @ snd x) - 4) (fst x @ snd x) = fst x" "drop (length (fst x @ snd x) - 4) (fst x @ snd x) = snd x"
      by (simp_all add: x_def)
    have "crc (fst x) = le_nat (snd x)" using c by (simp add: x_def)
    moreover have "snapshot_sidecar (fst x) = Inr sc" using snapshot_sidecar_bytes [OF len(2)] by (simp add: x_def)
    ultimately have "\<exists>tp tr sc. snapshot_records n (32 + length sb) = Inr (Some (tp, tr)) \<and>
        crc (take (length tr - 4) tr) = le_nat (drop (length tr - 4) tr) \<and> snapshot_sidecar (take (length tr - 4) tr) = Inr sc \<and>
        sc = sidecar_of point s (32 + length sb) tp"
      using r p sc_def by (metis (no_types, lifting))
    moreover have "text_decode (bytes_at 24 (length sb) c) = Some s" "le_int (bytes_at (24 + length sb) 8 c) = cp_servedVersion point + 1"
      unfolding b i using c le_int_i64_bytes by blast+
    moreover have "32 + length sb \<le> length c" "24 \<le> length c" by (simp_all add: e)
    ultimately show "verifyCheckpointSnapshot crc (Some n) point s = Inr ()"
      unfolding cond using c hd by blast
  qed
qed

end
