(* ===== verification/BackupRun.thy ===== *)
theory BackupRun
  imports BackupCommit BackupSnapshot
begin

text \<open>
  When \<open>createBackup\<close> returns a receipt: on a disk that works, for a log, a receipt and a snapshot that are as they should be.
\<close>

section \<open>A disk that works\<close>

definition disk_works :: "disk \<Rightarrow> bool" where
  "disk_works dk \<longleftrightarrow>
     (\<forall>nm. dk_create dk nm \<and> dk_sync dk nm) \<and> dk_rename dk \<and> (\<forall>i. dk_syncDirectory dk i) \<and>
     (\<forall>nm at n. dk_write dk nm at n \<noteq> None \<and> (0 < n \<longrightarrow> dk_write dk nm at n \<noteq> Some 0))"

lemma snd_act_bind: "snd (act_bind m f) = rbind (snd m) (\<lambda>x. snd (f x))"
  by (cases m; cases "snd m") (auto simp: act_bind_def split: prod.split)

lemma snd_lift [simp]: "snd (lift_res r) = r"
  by (simp add: lift_res_def)

lemma snd_try [simp]: "w \<Longrightarrow> snd (act_try w a) = Inr ()"
  by (simp add: act_try_def)

lemma write_rest_works: "disk_works dk \<Longrightarrow> snd (write_rest dk nm at bs) = Inr ()"
proof (induction dk nm at bs rule: write_rest.induct)
  case (1 dk nm at bs)
  show ?case
  proof (cases "bs = []")
    case True
    then show ?thesis by (subst write_rest.simps) simp
  next
    case False
    then obtain k where k: "dk_write dk nm at (length bs) = Some k" "k \<noteq> 0"
      using "1.prems" unfolding disk_works_def by (metis length_greater_0_conv not_None_eq)
    show ?thesis
      unfolding write_rest.simps [of dk nm at bs] if_not_P [OF False] k(1) option.case if_not_P [OF k(2)] snd_act_bind
      using "1.IH" [OF False k "1.prems"] by simp
  qed
qed

lemma writeSynced_works: "disk_works dk \<Longrightarrow> snd (writeSynced dk nm bs) = Inr ()"
  by (simp add: writeSynced_def snd_act_bind write_rest_works) (simp add: disk_works_def)

lemma copy_chunks_works: "disk_works dk \<Longrightarrow> snd (copy_chunks dk rd count copied) = read_chunks BUFFER_BYTES rd 0 count copied"
proof (induction dk rd count copied rule: copy_chunks.induct)
  case (1 dk rd count copied)
  let ?w = "min BUFFER_BYTES (count - length copied)"
  note s = copy_chunks.simps [of dk rd count copied] and r = read_chunks.simps [of BUFFER_BYTES rd 0 count copied]
  show ?case
  proof (cases "count \<le> length copied")
    case True
    then show ?thesis unfolding s r by simp
  next
    case False
    show ?thesis
    proof (cases "rd (length copied) ?w")
      case None
      then show ?thesis unfolding s r if_not_P [OF False] Let_def by simp
    next
      case (Some bs)
      show ?thesis
      proof (cases "take ?w bs = []")
        case True
        then show ?thesis unfolding s r if_not_P [OF False] Let_def add_0 Some option.case if_P [OF True] by simp
      next
        case ne: False
        show ?thesis
          unfolding s r if_not_P [OF False] Let_def add_0 Some option.case if_not_P [OF ne] snd_act_bind write_rest_works [OF "1.prems"] rbind.simps
          by (rule "1.IH" [OF False refl Some ne "1.prems"])
      qed
    qed
  qed
qed

lemma copyPrefix_works:
  assumes "disk_works dk" "serves (nd_read source) log" "nat count \<le> length log" "nat count \<le> SAFE_MAX"
  shows "snd (copyPrefix dk source count) = Inr (take (nat count) log)"
proof -
  have c: "\<not> int SAFE_MAX < count" using assms(4) by linarith
  have "read_chunks BUFFER_BYTES (nd_read source) 0 (nat count) [] = Inr (take (nat count) log)"
    using read_chunks_Inr [OF assms(2), of BUFFER_BYTES "nat count" 0] assms(3) by (simp add: BUFFER_BYTES_def)
  moreover have "dk_create dk nm" "dk_sync dk nm" for nm using assms(1) by (simp_all add: disk_works_def)
  ultimately show ?thesis
    unfolding copyPrefix_def if_not_P [OF c] snd_act_bind by (simp add: copy_chunks_works [OF assms(1)])
qed

section \<open>A run that succeeds\<close>

text \<open>The numbers of a checkpoint that a manifest can hold.\<close>

definition point_ok :: "checkpoint \<Rightarrow> bool" where
  "point_ok p \<longleftrightarrow>
     (\<forall>z \<in> {cp_servedVersion p, watermarkBytes p, createdAtUnixMs p, snapshotBytes p}. 0 \<le> z \<and> z \<le> I64_MAX) \<and>
     0 \<le> snapshotCrc32 p \<and> snapshotCrc32 p \<le> U32_MAX"

lemma manifest_validates:
  assumes "point_ok point" "SHA256 (sha a)" "SHA256 hs" "SHA256 closure" "well_formed16 s" "s \<noteq> []" "length (utf8_encode s) \<le> MAX_SPACE_BYTES"
    "length a \<le> MAX_RECEIPT_BYTES"
  shows "validateManifest (manifest_value sha s a closure point hs) = Inr (manifest_value sha s a closure point hs)"
proof -
  have "utf8_encode s \<noteq> []" using utf8_size(2) [of s] assms(6) by (metis le_zero_eq length_0_conv)
  then have u: "backup_strictUtf8 (JStr s) MAX_SPACE_BYTES = Inr (utf8_encode s)" using assms(5,7) by (simp add: backup_strictUtf8_def Let_def)
  have d: "rbind (canonicalDecimal (JStr (int_text z)) maximum) (\<lambda>_. X) = X" if "0 \<le> z" "z \<le> maximum" for z maximum and X :: "'x res"
    using canonicalDecimal_int [of z maximum "int_text z"] that by simp
  have "int (length a) \<le> I64_MAX" using assms(8) by (simp add: MAX_RECEIPT_BYTES_def I64_MAX_def)
  then show ?thesis
    using assms(1-4) unfolding validateManifest_def manifest_value_def point_ok_def
    by (simp add: manifest_object_def object_fields_def decimal_field_def d u js_lit_def)
qed

text \<open>What the tool relies on: the log, the receipt and the snapshot at their paths, the checkpoint, and the calls on the new directory.\<close>

definition backup_ready :: "(byte list \<Rightarrow> nat) \<Rightarrow> backup_inputs \<Rightarrow> jstr \<Rightarrow> byte list \<Rightarrow> byte list \<Rightarrow> jstr \<Rightarrow> checkpoint \<Rightarrow> bool" where
  "backup_ready crc w s log a closure point \<longleftrightarrow>
     nb_space w = JStr s \<and> well_formed16 s \<and> length (utf8_encode s) \<le> MAX_SPACE_BYTES \<and> \<not> nb_samePath w \<and> nb_output w = Absent \<and>
     (\<exists>n. nb_log w = Some n \<and> file_holds n log) \<and> parseFramlogHeader (Some log) = Inr s \<and>
     (\<exists>n. nb_receipt w = Some n \<and> file_holds n a) \<and> length a \<le> MAX_RECEIPT_BYTES \<and> artifactReceipt a = Inr closure \<and>
     framNativeCheckpoint (nb_space w) (nb_timeout w) (nb_checkpoint w) = Inr point \<and> point_ok point \<and>
     (\<exists>n c sb rs lb. nb_snapshot w = Some n \<and> file_holds n c \<and> snapshot_of crc point s sb rs lb c) \<and>
     int (LOG_FIXED_HEADER_BYTES + le_nat (bytes_at 12 4 log)) \<le> watermarkBytes point \<and> watermarkBytes point \<le> int (length log) \<and>
     nat (watermarkBytes point) \<le> SAFE_MAX \<and>
     (\<exists>m. nb_logAfter w = Some (True, m) \<and> watermarkBytes point \<le> int m) \<and> (\<exists>m. nb_logFinal w = Some (True, m) \<and> watermarkBytes point \<le> int m) \<and>
     nb_mkdir w = Made \<and> disk_works (nb_disk w)"

lemma artifactReceipt_sha: "artifactReceipt bs = Inr c \<Longrightarrow> SHA256 c"
  by (auto simp: artifactReceipt_def split: option.splits if_splits)

lemma fill_works:
  assumes w: "disk_works (nb_disk w)" "nb_logFinal w = Some (True, m)" "watermarkBytes point \<le> int m"
    and c: "snd (copyPrefix (nb_disk w) source (watermarkBytes point)) = Inr h"
    and v: "validateManifest (manifest_value sha s a closure point (sha h)) = Inr mv" "canonicalManifestBytes mv = Inr mb"
  shows "snd (fill_backup sha w s source a closure point) = Inr (receipt_of (sha mb) mv)"
proof -
  have d: "dk_rename (nb_disk w)" "dk_syncDirectory (nb_disk w) i" for i using w(1) by (simp_all add: disk_works_def)
  show ?thesis
    unfolding fill_backup_def Let_def snd_act_bind c rbind.simps snd_lift w(2) option.case prod.case
    using w(3) d by (simp add: snd_act_bind writeSynced_works [OF w(1)] v)
qed

lemma snd_catch: "snd (case m of (ops, r) \<Rightarrow> (ops, catch_as c r)) = catch_as c (snd m)"
  by (simp add: case_prod_beta)

lemma catch_Inr [simp]: "catch_as c (Inr x) = Inr x"
  by (simp add: catch_as_def)

lemma js_text_JStr: "js_text (JStr s) = s"
  by (simp add: js_text_def)

lemma backup_succeeds:
  assumes r: "backup_ready crc w s log a closure point" and sha: "\<forall>x. SHA256 (sha x)"
  shows "\<exists>ops mb. createBackup sha crc w = (ops, Inr (receipt_of (sha mb) (manifest_value sha s a closure point (sha (take (nat (watermarkBytes point)) log))))) \<and>
    canonicalManifestBytes (manifest_value sha s a closure point (sha (take (nat (watermarkBytes point)) log))) = Inr mb"
proof -
  note r = r [unfolded backup_ready_def]
  obtain n where n: "nb_log w = Some n" "file_holds n log" using r by blast
  obtain q where q: "nb_receipt w = Some q" "file_holds q a" using r by blast
  obtain p c where p: "nb_snapshot w = Some p" "file_holds p c" "\<exists>sb rs lb. snapshot_of crc point s sb rs lb c" using r by blast
  obtain m m' where m: "nb_logAfter w = Some (True, m)" "watermarkBytes point \<le> int m" "nb_logFinal w = Some (True, m')" "watermarkBytes point \<le> int m'"
    using r by blast
  let ?h = "take (nat (watermarkBytes point)) log" let ?mv = "manifest_value sha s a closure point (sha ?h)"
  have s: "s \<noteq> []" "nb_space w = JStr s" using r by (auto simp: parseFramlogHeader_iff)
  then have u: "backup_strictUtf8 (nb_space w) MAX_SPACE_BYTES = Inr (utf8_encode s)"
    using r utf8_size(2) [of s] by (auto simp: backup_strictUtf8_def Let_def)
  have sn: "serves (nd_read n) log" using n(2) by (simp add: file_holds_def)
  have v: "validateManifest ?mv = Inr ?mv" using r sha s(1) artifactReceipt_sha by (intro manifest_validates) auto
  have "manifest_bounded sha s a closure point (sha ?h)"
    using validate_manifest_value [OF v] artifactReceipt_length [of a closure] r by (simp add: manifest_bounded_def SHA256_def)
  then obtain mb where mb: "canonicalManifestBytes ?mv = Inr mb" by (rule manifest_bytes)
  have cp: "snd (copyPrefix (nb_disk w) n (watermarkBytes point)) = Inr ?h" using r sn by (intro copyPrefix_works) auto
  have h: "parseLogHeader n = Inr (s, LOG_FIXED_HEADER_BYTES + le_nat (bytes_at 12 4 log))" using parseLogHeader_iff [OF n(2)] r by simp
  have rr: "readRegular (nb_receipt w) MAX_RECEIPT_BYTES = Inr a" unfolding q(1) readRegular_Inr [OF q(2)] using r limits(2) by simp
  have sp: "verifyCheckpointSnapshot crc (nb_snapshot w) point s = Inr ()" unfolding p(1) verifyCheckpointSnapshot_Inr [OF p(2)] by (rule p(3))
  have fill: "snd (fill_backup sha w s n a closure point) = Inr (receipt_of (sha mb) ?mv)"
    using r by (intro fill_works [OF _ m(3,4) cp v mb]) simp
  have created: "snd (createBackup sha crc w) = Inr (receipt_of (sha mb) ?mv)"
    unfolding createBackup_def Let_def snd_act_bind snd_lift
    using r m(2) by (simp add: n(1) openRegular_holds [OF n(2)] snd_catch snd_act_bind h rr sp m(1) u [unfolded s(2)] s(2) fill js_text_JStr)
  from created mb show ?thesis by (metis prod.collapse)
qed

end
