(* ===== verification/BackupSamples.thy ===== *)
theory BackupSamples
  imports BackupRun Samples
begin

text \<open>
  A run of \<open>createBackup\<close>, and the files it leaves. The witnesses of the properties of the backup tool use them.
\<close>

section \<open>A checkpoint\<close>

definition backup_point :: checkpoint where
  "backup_point = \<lparr>cp_servedVersion = 3, watermarkBytes = 22, createdAtUnixMs = 5, snapshotCrc32 = 7, snapshotBytes = 101\<rparr>"

definition backup_request :: request where
  "backup_request = \<lparr>rq_space = js ''demo'', rq_operation = ''rpc/checkpoint'', rq_expected = None, rq_page = None,
     rq_timeout = None, rq_payload = FKeyword (js ''rpc/unit'')\<rparr>"

definition backup_reply :: reply where
  "backup_reply = \<lparr>rp_space = js ''demo'', rp_operation = js ''rpc/checkpoint'', rp_served = 3, rp_page = None,
     rp_error = None, rp_payload = Some (checkpoint_term backup_point)\<rparr>"

lemma checkpoint_name [simp]: "ascii ''rpc/checkpoint''"
  by (simp add: ascii_def)

lemma backup_request_valid: "request_valid NATIVE_OPERATOR_OPERATIONS backup_request"
proof -
  have "length (request_body backup_request) \<le> MAX_BODY_BYTES"
    by (simp add: request_body_def backup_request_def opt_bytes_def wire_text_length MAX_BODY_BYTES_def del: wire.simps)
  moreover have "term_ok (FString (js ''demo''))" "term_ok (FKeyword (js ''rpc/checkpoint''))"
    "term_ok (FKeyword (js ''rpc/unit''))"
    by (simp_all add: ascii_plain)
  ultimately show ?thesis
    by (simp add: request_valid_def backup_request_def request_terms_def page_terms_def NATIVE_OPERATOR_OPERATIONS_def ascii_js
        MAX_SPACE_BYTES_def MAX_TERM_NODES_def del: term_ok_atom)
qed

lemma backup_asks: "asks (JStr (js ''demo'')) ''rpc/checkpoint'' (kw ''rpc/unit'') (JObj []) backup_request"
proof -
  have n: "name_ok ''rpc/unit''" by (simp add: name_ok_def)
  then have "denotes (kw ''rpc/unit'') (FKeyword (js ''rpc/unit''))"
    by (simp only: kw_rep) (rule denotes_rep_term, simp add: ascii_plain)
  with n show ?thesis
    by (auto simp: asks_def backup_request_def requestControls_def truthy_def plainObject_def object_fields_def
        page_denotes_def)
qed

lemma backup_reply_ok: "reply_ok backup_reply"
proof -
  have "length (reply_body backup_reply) \<le> MAX_BODY_BYTES"
    by (simp add: reply_body_def backup_reply_def checkpoint_term_def backup_point_def record_term_def opt_bytes_def wire_text_length MAX_BODY_BYTES_def
        ascii_js text_bytes_def)
  then show ?thesis
    by (simp add: reply_ok_def backup_reply_def checkpoint_term_def backup_point_def record_term_def opt_ok_def opt_cost_def readable_def limit_defs
        ascii_plain)
qed

definition backup_outcome :: outcome where
  "backup_outcome = Returned (Some (reply_frame 1 backup_reply))"

lemma backup_checkpoint: "framNativeCheckpoint (JStr (js ''demo'')) (JNum (num_of_nat 5000)) backup_outcome = Inr backup_point"
proof -
  have "strictUtf8 MAX_SPACE_BYTES (JStr (js ''demo'')) = Inr (utf8_encode (js ''demo''))"
    by (simp add: strictUtf8_def Let_def ascii_js MAX_SPACE_BYTES_def)
  then have c: "framClient True (JStr (js ''demo'')) (JNum (num_of_nat 5000)) = Inr \<lparr>cl_space = js ''demo'', requestTimeoutMs = 5000, requestCounter = 1\<rparr>"
    by (simp add: framClient_def safe_int_num_of_nat js_def)
  have e: "encodeRequest 1 (JStr (js ''demo'')) ''rpc/checkpoint'' (kw ''rpc/unit'') (JObj []) NATIVE_OPERATOR_OPERATIONS = Inr (encoded_request 1 backup_request)"
    by (rule encodeRequest_ok [OF backup_request_valid backup_asks])
  have d: "decodeResponseFrame (Some (reply_frame 1 backup_reply)) \<lparr>x_requestId = 1, x_space = js ''demo'', x_operation = ''rpc/checkpoint''\<rparr> =
      Inr (reply_seen backup_reply)"
    by (rule decodeResponseFrame_reply [OF backup_reply_ok]) (simp_all add: backup_reply_def i64_ok_def I64_MIN_def I64_MAX_def)
  have "checkpointResult (reply_seen backup_reply) = Inr backup_point"
    unfolding checkpointResult_rep by (simp add: backup_reply_def backup_point_def)
  then show ?thesis
    by (simp add: framNativeCheckpoint_def c framTransportCheckpoint_def e exchangeWithTransport_def backup_outcome_def d wrap_error_def)
qed

section \<open>The files\<close>

text \<open>A file whose reads return all there is.\<close>

definition plain_file :: "byte list \<Rightarrow> node" where
  "plain_file c = \<lparr>nd_file = True, nd_size = length c, nd_read = (\<lambda>p n. Some (take n (drop p c)))\<rparr>"

lemma holds_plain [simp]: "file_holds (plain_file c) c"
proof -
  have "serves (\<lambda>p n. Some (take n (drop p c))) c"
    unfolding serves_def
  proof (intro allI)
    fix p n
    show "\<exists>k. Some (take n (drop p c)) = Some (take (min k n) (drop p c)) \<and> (0 < n \<longrightarrow> p < length c \<longrightarrow> 0 < k)"
      by (rule exI [of _ "Suc n"]) simp
  qed
  then show ?thesis by (simp add: file_holds_def plain_file_def)
qed

definition sample_sha :: "byte list \<Rightarrow> jstr" where
  "sample_sha x = replicate 63 48 @ [if take 1 x = [123] then 48 else if take 1 x = [102] then 49 else 50]"

lemma sample_SHA256: "SHA256 (sample_sha x)"
  by (simp add: SHA256_def sample_sha_def list_all_iff hex_digit_def)

definition sample_crc :: "byte list \<Rightarrow> nat" where
  "sample_crc x = 9"

definition backup_log :: "byte list" where
  "backup_log = framlog_header (js ''demo'') @ [1, 2, 3]"

definition backup_closure :: jstr where
  "backup_closure = replicate 64 48"

definition backup_artifact :: "byte list" where
  "backup_artifact = utf8_encode (js RECEIPT_FORMAT @ [32] @ backup_closure @ [10])"

definition backup_sidecar :: "byte list" where
  "backup_sidecar = sidecar_bytes (sidecar_of backup_point (js ''demo'') 36 36) (utf8_encode (js ''demo''))"

definition backup_snapshot :: "byte list" where
  "backup_snapshot = snapshot_head (utf8_encode (js ''demo'')) 3 @ raw_record (backup_sidecar, le_bytes 4 9)"

lemma demo_bytes: "length (utf8_encode (js ''demo'')) = 4" "text_decode (utf8_encode (js ''demo'')) = Some (js ''demo'')"
  "well_formed16 (js ''demo'')"
proof -
  have a: "text_ok (js ''demo'')" "\<not> starts_with_bom (js ''demo'')" using ascii_plain [of "''demo''"] by simp_all
  then show "well_formed16 (js ''demo'')" by (simp add: text_ok_def)
  with a show "text_decode (utf8_encode (js ''demo'')) = Some (js ''demo'')" by (intro text_decode_encode) simp_all
qed (simp add: ascii_js)

lemma backup_header: "parseFramlogHeader (Some backup_log) = Inr (js ''demo'')" "length backup_log = 23" "le_nat (bytes_at 12 4 backup_log) = 4"
proof -
  show "parseFramlogHeader (Some backup_log) = Inr (js ''demo'')"
    using parseFramlogHeader_header [of "js ''demo''" "[1, 2, 3]"] demo_bytes
    by (simp add: backup_log_def sized_text_def drop_bom_def starts_with_bom_def js_def BOM_def MAX_SPACE_BYTES_def)
  show "length backup_log = 23" "le_nat (bytes_at 12 4 backup_log) = 4"
    by (simp_all add: backup_log_def framlog_header_def FRAMLOG_MAGIC_def demo_bytes bytes_at_def)
qed

lemma backup_artifact_read: "artifactReceipt backup_artifact = Inr backup_closure" "length backup_artifact = 86"
proof -
  let ?t = "js RECEIPT_FORMAT @ [32] @ backup_closure @ [10]"
  have u: "\<forall>u \<in> set ?t. unat u < 127" by (simp add: js_def RECEIPT_FORMAT_def backup_closure_def)
  have "text_decode backup_artifact = Some ?t"
    unfolding backup_artifact_def
  proof (rule text_decode_encode)
    show "well_formed16 ?t" using u plain_not_surrogate by (intro well_formed16_plain) blast
    show "\<not> starts_with_bom ?t" by (simp add: starts_with_bom_def js_def RECEIPT_FORMAT_def BOM_def)
  qed
  moreover have "SHA256 backup_closure" by (simp add: SHA256_def backup_closure_def list_all_iff hex_digit_def)
  moreover have "starts_with_text (js RECEIPT_FORMAT @ [32]) ?t = Some (backup_closure @ [10])"
  proof -
    have "starts_with_text p (p @ r) = Some r" for p r by (induction p) simp_all
    from this [of "js RECEIPT_FORMAT @ [32]"] show ?thesis by simp
  qed
  ultimately show "artifactReceipt backup_artifact = Inr backup_closure" by (simp add: artifactReceipt_def backup_closure_def)
  have "\<forall>u \<in> set ?t. unat u < 128" 
  proof (rule ballI)
    fix v assume "v \<in> set ?t"
    then have "unat v < 127" using u by blast
    then show "unat v < 128" by linarith
  qed
  from utf8_ascii [OF this] show "length backup_artifact = 86" by (simp add: backup_artifact_def js_def RECEIPT_FORMAT_def backup_closure_def)
qed

lemma backup_snapshot_of: "snapshot_of sample_crc backup_point (js ''demo'') (utf8_encode (js ''demo'')) [] (utf8_encode (js ''demo'')) backup_snapshot"
proof -
  have ok: "sidecar_ok (sidecar_of backup_point (js ''demo'') 36 36) (utf8_encode (js ''demo''))"
    by (simp add: sidecar_ok_def sidecar_of_def backup_point_def i64_ok_def I64_MIN_def I64_MAX_def demo_bytes MAX_SPACE_BYTES_def length_0_conv [symmetric] del: length_0_conv)
  have l: "length backup_sidecar = 57" by (simp add: backup_sidecar_def sidecar_length demo_bytes)
  have "length backup_snapshot = 101" by (simp add: backup_snapshot_def raw_record_def l demo_bytes)
  with ok show ?thesis
    by (simp add: snapshot_of_def Let_def demo_bytes backup_snapshot_def backup_sidecar_def sample_crc_def backup_point_def MAX_SPACE_BYTES_def
        i64_ok_def I64_MIN_def I64_MAX_def SAFE_MAX_def length_0_conv [symmetric] del: length_0_conv)
qed

section \<open>The run\<close>

definition sample_disk :: disk where
  "sample_disk = \<lparr>dk_create = (\<lambda>_. True), dk_write = (\<lambda>_ _ n. Some (min n 10)), dk_sync = (\<lambda>_. True), dk_rename = True, dk_syncDirectory = (\<lambda>_. True)\<rparr>"

definition sample_backup :: backup_inputs where
  "sample_backup = \<lparr>nb_space = JStr (js ''demo''), nb_timeout = JNum (num_of_nat 5000), nb_samePath = False, nb_output = Absent,
     nb_log = Some (plain_file backup_log), nb_receipt = Some (plain_file backup_artifact), nb_snapshot = Some (plain_file backup_snapshot),
     nb_checkpoint = backup_outcome, nb_logAfter = Some (True, 23), nb_logFinal = Some (True, 24), nb_mkdir = Made, nb_disk = sample_disk,
     nb_pid = ''77''\<rparr>"

lemma sample_ready: "backup_ready sample_crc sample_backup (js ''demo'') backup_log backup_artifact backup_closure backup_point"
proof -
  have "disk_works sample_disk" by (simp add: disk_works_def sample_disk_def)
  moreover have "point_ok backup_point" by (simp add: point_ok_def backup_point_def I64_MAX_def U32_MAX_def)
  moreover have "watermarkBytes backup_point = 22" by (simp add: backup_point_def)
  moreover have "\<exists>n c sb rs lb. nb_snapshot sample_backup = Some n \<and> file_holds n c \<and> snapshot_of sample_crc backup_point (js ''demo'') sb rs lb c"
  proof (intro exI conjI)
    show "nb_snapshot sample_backup = Some (plain_file backup_snapshot)" by (simp add: sample_backup_def)
  qed (rule holds_plain, rule backup_snapshot_of)
  ultimately show ?thesis
    using backup_checkpoint unfolding backup_ready_def
    by (auto simp: sample_backup_def demo_bytes backup_header backup_artifact_read MAX_SPACE_BYTES_def MAX_RECEIPT_BYTES_def
        LOG_FIXED_HEADER_BYTES_def SAFE_MAX_def)
qed

lemma sample_all_sha: "\<forall>x. SHA256 (sample_sha x)"
  by (simp add: sample_SHA256)

lemma sample_serves: "log_serves (nb_log sample_backup) backup_log"
  using holds_plain [of backup_log] unfolding log_serves_def file_holds_def by (simp add: sample_backup_def)

text \<open>The directory that holds the files of a backup.\<close>

definition sample_directory :: "backup_files \<Rightarrow> (string \<times> node) list" where
  "sample_directory b = map (\<lambda>(nm, c). (nm, plain_file c)) (backup_entries b)"

lemma sample_directory_holds: "directory_holds (sample_directory b) b" "directory_holds (rev (sample_directory b)) b"
  unfolding directory_holds_def sample_directory_def by (auto simp: backup_entries_def COMPLETE_FILES_def)

lemma finished_directory:
  assumes "all_durable b x"
  shows "found_later x (Some (sample_directory b))"
  unfolding found_later_def option.case found_entries_def
proof (intro exI conjI)
  show "\<forall>nm. \<exists>d' \<in> set (fx_dirs x). finished_map nm = d' nm" using assms by (simp add: all_durable_def)
  show "distinct (map fst (sample_directory b))" by (simp add: sample_directory_def backup_entries_def)
  show "set (map fst (sample_directory b)) = dom finished_map" by (auto simp: sample_directory_def backup_entries_def finished_map_def)
  have f: "fx_files x = [(bf_history b, True), (bf_artifact b, True), (bf_digest b, True), (bf_manifest b, True)]"
    using assms by (simp add: all_durable_def committed_def)
  show "\<forall>(nm, n) \<in> set (sample_directory b). \<exists>i c. finished_map nm = Some i \<and> file_holds n c \<and>
      (i < length (fx_files x) \<longrightarrow> snd (fx_files x ! i) \<longrightarrow> c = fst (fx_files x ! i))"
    unfolding f by (auto simp: sample_directory_def backup_entries_def finished_map_def intro: holds_plain)
qed

lemma utf8_first: "\<not> surrogate (unat u) \<Longrightarrow> unat u < 128 \<Longrightarrow> take 1 (utf8_encode (u # r)) = [word_of_nat (unat u)]"
  by (cases r) (simp_all add: utf8_encode_def utf8_of_def high_surrogate_def surrogate_def)

lemma manifest_first: "canonicalManifestBytes (manifest_value sha s a closure point h) = Inr mb \<Longrightarrow> take 1 mb = [123]"
proof -
  assume c: "canonicalManifestBytes (manifest_value sha s a closure point h) = Inr mb"
  obtain r where "manifest_text sha s a closure point h = 123 # r" using manifest_text_starts by blast
  with c manifest_written [of sha s a closure point h] have "mb = utf8_encode (123 # r @ [10])"
    by (simp add: canonicalManifestBytes_def written_as_def)
  then show ?thesis using utf8_first [of 123] by (simp add: surrogate_def)
qed

lemma sample_finished:
  obtains ops b m where "createBackup sample_sha sample_crc sample_backup = (ops, Inr (receipt_of (sample_sha (bf_manifest b)) m))"
    "found_later (fs_run ops new_directory) (Some (sample_directory b))" "valid_backup sample_sha b m" "field_of m ''spaceId'' = JStr (js ''demo'')"
    "bf_artifact b = backup_artifact" "bf_history b = take 22 backup_log" "take 1 (bf_manifest b) = [123]"
proof -
  obtain ops rc where c: "createBackup sample_sha sample_crc sample_backup = (ops, Inr rc)"
    using backup_succeeds [OF sample_ready sample_all_sha] by blast
  then obtain b m where b: "backup_made sample_sha sample_backup b m" "all_durable b (fs_run ops new_directory)"
      "rc = receipt_of (sample_sha (bf_manifest b)) m"
    using always_createBackup [of sample_sha sample_backup sample_crc] new_directory_empty by (auto simp: always_def)
  note v = made_valid [OF b(1) sample_all_sha sample_serves]
  have p: "framNativeCheckpoint (nb_space sample_backup) (nb_timeout sample_backup) (nb_checkpoint sample_backup) = Inr backup_point"
    using backup_checkpoint by (simp add: sample_backup_def)
  have r: "readRegular (nb_receipt sample_backup) MAX_RECEIPT_BYTES = Inr backup_artifact"
    using readRegular_Inr [OF holds_plain [of backup_artifact]] backup_artifact_read(2)
    by (simp add: sample_backup_def MAX_RECEIPT_BYTES_def SAFE_MAX_def)
  from b(1) obtain source closure where o: "prepared_backup sample_sha sample_backup (js_text (nb_space sample_backup)) source backup_artifact closure backup_point b m"
    unfolding backup_made_def p r by auto
  then have mv: "m = manifest_value sample_sha (js_text (nb_space sample_backup)) backup_artifact closure backup_point (sample_sha (bf_history b))"
    unfolding prepared_backup_def using validateManifest_same by blast
  have "take 1 (bf_manifest b) = [123]" using v manifest_first unfolding mv valid_backup_def by blast
  moreover from mv have "field_of (field_of m ''history'') ''bytes'' = JStr (int_text 22)" by (simp add: manifest_value_def field_of_def backup_point_def)
  then have "bf_history b = take 22 backup_log" using v by (simp add: js_text_def)
  moreover have "bf_artifact b = backup_artifact" using o by (simp add: prepared_backup_def)
  moreover have "field_of m ''spaceId'' = JStr (js ''demo'')" using v by (simp add: sample_backup_def js_text_def)
  ultimately show thesis using that c b(3) finished_directory [OF b(2)] v by blast
qed

text \<open>The three contents have different digests.\<close>

lemma sample_no_collision:
  assumes "valid_backup sample_sha b m" "bf_artifact b = backup_artifact" "bf_history b = take 22 backup_log" "take 1 (bf_manifest b) = [123]"
  shows "no_collision sample_sha (backup_contents b)"
proof -
  have a: "take 1 backup_artifact = [102]"
    unfolding backup_artifact_def using utf8_first [of 102] by (simp add: js_def RECEIPT_FORMAT_def surrogate_def)
  have h: "take 1 (take 22 backup_log) = [70]" by (simp add: backup_log_def framlog_header_def FRAMLOG_MAGIC_def)
  have "sample_sha backup_artifact \<noteq> sample_sha (take 22 backup_log)" "sample_sha backup_artifact \<noteq> sample_sha (bf_manifest b)"
    "sample_sha (take 22 backup_log) \<noteq> sample_sha (bf_manifest b)"
    unfolding sample_sha_def a h assms(4) by simp_all
  then show ?thesis unfolding no_collision_def backup_contents_def assms(2,3) by auto
qed

end
