(* ===== verification/BackupProperties.thy ===== *)
theory BackupProperties
  imports BackupSamples
begin

text \<open>
  The properties of the native backup tool: what a crash leaves, what \<open>verifyBackup\<close> accepts, and when a backup is made.
\<close>

text \<open>
  C24 (invariant). Whenever \<open>createBackup\<close> is interrupted, after any number of its operations on the new directory and with whatever a
  crash leaves of what has not been synced, a directory that \<open>verifyBackup\<close> then accepts is the whole backup: the history is the
  log up to the checkpoint, the artifact the receipt that was read, and the four files are valid together.
\<close>

theorem interrupted_is_complete:
  assumes "createBackup sha crc w = (ops, r)" "found_later (fs_run (take k ops) new_directory) entries"
    "verifyBackup sha entries wanted = Inr rc" "\<forall>x. SHA256 (sha x)" "log_serves (nb_log w) log"
  shows "\<exists>ns b m. entries = Some ns \<and> directory_holds ns b \<and> valid_backup sha b m \<and> rc = receipt_of (sha (bf_manifest b)) m \<and>
     bf_history b = take (nat (text_int (js_text (br_historyBytes rc)))) log \<and> readRegular (nb_receipt w) MAX_RECEIPT_BYTES = Inr (bf_artifact b)"
  using assms by (rule interrupted_backup)

text \<open>
  C25 (roundtrip). When \<open>createBackup\<close> returns a receipt, what is found at the directory from then on, after a crash too, is a backup that
  \<open>verifyBackup\<close> accepts with the same receipt, with the space given or not, and its history is the log up to the checkpoint.
\<close>

theorem returned_backup_verifies:
  assumes "createBackup sha crc w = (ops, Inr rc)" "found_later (fs_run ops new_directory) entries"
    "\<forall>x. SHA256 (sha x)" "log_serves (nb_log w) log"
  shows "\<exists>ns b m. entries = Some ns \<and> directory_holds ns b \<and> bf_history b = take (nat (text_int (js_text (br_historyBytes rc)))) log \<and>
    verifyBackup sha entries JUndef = Inr rc \<and> verifyBackup sha entries (JStr (js_text (nb_space w))) = Inr rc"
  using assms by (rule finished_backup)

text \<open>
  C36 (liveness). On a disk that works, with the log, the receipt, the checkpoint and the snapshot of the space, \<open>createBackup\<close> returns a receipt
  with the digest of the manifest it wrote, the space, the version and the history of the checkpoint.
\<close>

theorem backup_returned:
  assumes "backup_ready crc w s log a closure point" "\<forall>x. SHA256 (sha x)"
  shows "\<exists>ops mb. createBackup sha crc w = (ops, Inr (receipt_of (sha mb) (manifest_value sha s a closure point (sha (take (nat (watermarkBytes point)) log))))) \<and>
    canonicalManifestBytes (manifest_value sha s a closure point (sha (take (nat (watermarkBytes point)) log))) = Inr mb"
  using assms by (rule backup_succeeds)

text \<open>
  C33 (equivalence). For a directory with the four files, \<open>verifyBackup\<close> decides \<open>valid_backup\<close> of their contents, whatever the sizes
  of its reads and the order of the directory, and its receipt is that of the manifest; a space that is asked for has to be the
  manifest's.
\<close>

theorem verifyBackup_decides:
  assumes "directory_holds ns b"
  shows "verifyBackup sha (Some ns) wanted = Inr r \<longleftrightarrow>
    (\<exists>v. valid_backup sha b v \<and> (wanted = JUndef \<or> wanted = field_of v ''spaceId'') \<and> r = receipt_of (sha (bf_manifest b)) v)"
  using assms by (rule verifyBackup_directory)

text \<open>
  C34 (safety). The digest of the manifest pins the backup: two directories that verify with the same one have the same four files,
  unless SHA-256 has collided on their contents.
\<close>

theorem digest_pins_backup:
  assumes "directory_holds ns b" "directory_holds ns' b'" "verifyBackup sha (Some ns) wanted = Inr r" "verifyBackup sha (Some ns') wanted' = Inr r'"
    "br_manifestSha256 r = br_manifestSha256 r'" "no_collision sha (backup_contents b \<union> backup_contents b')"
  shows "b = b'"
proof -
  obtain v v' where v: "valid_backup sha b v" "r = receipt_of (sha (bf_manifest b)) v" "valid_backup sha b' v'" "r' = receipt_of (sha (bf_manifest b')) v'"
    using assms(3,4) unfolding verifyBackup_directory [OF assms(1)] verifyBackup_directory [OF assms(2)] by blast
  have "sha (bf_manifest b) = sha (bf_manifest b')" using assms(5) v by (simp add: receipt_of_def)
  from valid_backup_unique [OF v(1,3) this assms(6)] show ?thesis by simp
qed

text \<open>
  C35 (equivalence). \<open>verifyCheckpointSnapshot\<close> accepts exactly the files that are a snapshot of the checkpoint: its header, any records, and
  last, under its checksum, the sidecar with the sequence, the watermark, the space, the extent of the image, the stamp and the
  fingerprint of the checkpoint.
\<close>

theorem snapshots_accepted:
  assumes "file_holds n c"
  shows "verifyCheckpointSnapshot crc (Some n) point s = Inr () \<longleftrightarrow> (\<exists>sb rs lb. snapshot_of crc point s sb rs lb c)"
  using assms by (rule verifyCheckpointSnapshot_Inr)

section \<open>Witnesses\<close>

theorem backup_returned_witness:
  "\<exists>ops mb. createBackup sample_sha sample_crc sample_backup =
      (ops, Inr (receipt_of (sample_sha mb) (manifest_value sample_sha (js ''demo'') backup_artifact backup_closure backup_point
        (sample_sha (take (nat (watermarkBytes backup_point)) backup_log)))))"
  using backup_returned [OF sample_ready sample_all_sha] by blast

theorem interrupted_is_complete_witness:
  "\<exists>ops rc b m. createBackup sample_sha sample_crc sample_backup = (ops, Inr rc) \<and> valid_backup sample_sha b m \<and> bf_artifact b = backup_artifact"
proof -
  obtain ops b m where s: "createBackup sample_sha sample_crc sample_backup = (ops, Inr (receipt_of (sample_sha (bf_manifest b)) m))"
    "found_later (fs_run ops new_directory) (Some (sample_directory b))" "valid_backup sample_sha b m" "bf_artifact b = backup_artifact"
    by (rule sample_finished)
  have v: "verifyBackup sample_sha (Some (sample_directory b)) JUndef = Inr (receipt_of (sample_sha (bf_manifest b)) m)"
    unfolding verifyBackup_directory [OF sample_directory_holds(1)] using s(3) by blast
  have "found_later (fs_run (take (length ops) ops) new_directory) (Some (sample_directory b))" using s(2) by simp
  from interrupted_is_complete [OF s(1) this v sample_all_sha sample_serves] s(1) obtain b' m' where
    b': "valid_backup sample_sha b' m'" "readRegular (nb_receipt sample_backup) MAX_RECEIPT_BYTES = Inr (bf_artifact b')" by blast
  have "readRegular (nb_receipt sample_backup) MAX_RECEIPT_BYTES = Inr backup_artifact"
    using readRegular_Inr [OF holds_plain [of backup_artifact]] backup_artifact_read(2) by (simp add: sample_backup_def MAX_RECEIPT_BYTES_def SAFE_MAX_def)
  with b' s(1) show ?thesis by auto
qed

theorem returned_backup_verifies_witness:
  "\<exists>ops rc ns. createBackup sample_sha sample_crc sample_backup = (ops, Inr rc) \<and> found_later (fs_run ops new_directory) (Some ns) \<and>
     verifyBackup sample_sha (Some ns) (JStr (js ''demo'')) = Inr rc"
proof -
  obtain ops b m where s: "createBackup sample_sha sample_crc sample_backup = (ops, Inr (receipt_of (sample_sha (bf_manifest b)) m))"
    "found_later (fs_run ops new_directory) (Some (sample_directory b))" by (rule sample_finished)
  have "JStr (js_text (nb_space sample_backup)) = JStr (js ''demo'')" by (simp add: sample_backup_def js_text_def)
  with returned_backup_verifies [OF s sample_all_sha sample_serves] s show ?thesis by metis
qed

theorem verifyBackup_decides_witness:
  "\<exists>b rc. directory_holds (rev (sample_directory b)) b \<and> bf_history b = take 22 backup_log \<and>
     verifyBackup sample_sha (Some (rev (sample_directory b))) (JStr (js ''demo'')) = Inr rc \<and>
     verifyBackup sample_sha (Some (rev (sample_directory b))) (JStr (js ''else'')) \<noteq> Inr rc"
proof -
  obtain b m where b: "valid_backup sample_sha b m" "field_of m ''spaceId'' = JStr (js ''demo'')" "bf_history b = take 22 backup_log"
    by (rule sample_finished)
  let ?rc = "receipt_of (sample_sha (bf_manifest b)) m"
  have "verifyBackup sample_sha (Some (rev (sample_directory b))) (JStr (js ''demo'')) = Inr ?rc"
    unfolding verifyBackup_decides [OF sample_directory_holds(2)] using b by (intro exI [of _ m]) simp
  moreover have "verifyBackup sample_sha (Some (rev (sample_directory b))) (JStr (js ''else'')) \<noteq> Inr ?rc"
  proof
    assume "verifyBackup sample_sha (Some (rev (sample_directory b))) (JStr (js ''else'')) = Inr ?rc"
    then obtain v where v: "valid_backup sample_sha b v" "JStr (js ''else'') = field_of v ''spaceId''"
      unfolding verifyBackup_decides [OF sample_directory_holds(2)] by blast
    have "v = m" using v(1) b(1) unfolding valid_backup_def by force
    with v(2) b(2) show False by simp
  qed
  ultimately show ?thesis using b(3) sample_directory_holds(2) by blast
qed

theorem digest_pins_backup_witness:
  "\<exists>b b' r. directory_holds (sample_directory b) b \<and> directory_holds (rev (sample_directory b)) b' \<and>
     verifyBackup sample_sha (Some (sample_directory b)) JUndef = Inr r \<and>
     verifyBackup sample_sha (Some (rev (sample_directory b))) JUndef = Inr r \<and> b = b'"
proof -
  obtain b m where b: "valid_backup sample_sha b m" "bf_artifact b = backup_artifact" "bf_history b = take 22 backup_log"
    "take 1 (bf_manifest b) = [123]" by (rule sample_finished)
  have v: "verifyBackup sample_sha (Some (sample_directory b)) JUndef = Inr (receipt_of (sample_sha (bf_manifest b)) m)"
    "verifyBackup sample_sha (Some (rev (sample_directory b))) JUndef = Inr (receipt_of (sample_sha (bf_manifest b)) m)"
    unfolding verifyBackup_directory [OF sample_directory_holds(1)] verifyBackup_directory [OF sample_directory_holds(2)] using b(1) by blast+
  have n: "no_collision sample_sha (backup_contents b \<union> backup_contents b)" using sample_no_collision [OF b] by simp
  from digest_pins_backup [OF sample_directory_holds(1) sample_directory_holds(2) v refl n] v sample_directory_holds show ?thesis by blast
qed

theorem snapshots_accepted_witness:
  "verifyCheckpointSnapshot sample_crc (Some (plain_file backup_snapshot)) backup_point (js ''demo'') = Inr ()"
  unfolding snapshots_accepted [OF holds_plain] using backup_snapshot_of by blast

end
