(* ===== verification/BackupCli.thy ===== *)
theory BackupCli
  imports BackupRun
begin

text \<open>
  The command line of the backup tool: options, the two commands and what they print. The environment, and the files at the paths that
  are given, are arguments.
\<close>

section \<open>Options\<close>

abbreviation usage :: "'a res" where
  "usage \<equiv> backupFailure ''usage''"

definition dashes :: "jstr \<Rightarrow> bool" where
  "dashes s \<longleftrightarrow> take 2 s = js ''--''"

fun commandOptions :: "string list \<Rightarrow> (jstr \<times> jstr) list \<Rightarrow> jstr list \<Rightarrow> (jstr \<times> jstr) list res" where
  "commandOptions allowed values [] = Inr values"
| "commandOptions allowed values (flag # rest) =
     (if \<not> dashes flag \<or> flag \<notin> set (map js allowed) then usage
      else if flag \<in> set (map fst values) then usage
      else case rest of
        [] \<Rightarrow> usage
      | value # rest' \<Rightarrow> if dashes value then usage else commandOptions allowed (values @ [(flag, value)]) rest')"

definition option_value :: "(jstr \<times> jstr) list \<Rightarrow> string \<Rightarrow> jstr option" where
  "option_value values flag = map_of values (js flag)"

definition requiredOption :: "(jstr \<times> jstr) list \<Rightarrow> string \<Rightarrow> jstr res" where
  "requiredOption values flag = (case option_value values flag of None \<Rightarrow> usage | Some v \<Rightarrow> if v = [] then usage else Inr v)"

text \<open>\<open>basename\<close> of an absolute path is empty when the path has nothing but slashes.\<close>

definition pathOption :: "jstr \<Rightarrow> jstr res" where
  "pathOption value =
     (if take 1 value \<noteq> [47] then usage
      else if list_all (\<lambda>u. u = 47) value then backupFailure ''unsafe-path''
      else Inr value)"

definition integerOption :: "jstr \<Rightarrow> int \<Rightarrow> int \<Rightarrow> int res" where
  "integerOption value minimum maximum =
     (if \<not> DECIMAL value then usage
      else if text_int value < minimum \<or> maximum < text_int value then usage
      else Inr (text_int value))"

section \<open>Commands\<close>

record create_options =
  co_output :: jstr
  co_log :: jstr
  co_artifactReceipt :: jstr
  co_space :: jstr
  co_host :: jstr
  co_port :: int
  co_timeoutMs :: int

record verify_options =
  vo_backup :: jstr
  vo_space :: "jstr option"

datatype command = Help | CreateBackup create_options | VerifyBackup verify_options

text \<open>\<open>a ?? b\<close> for a value and one that is always there.\<close>

definition given :: "jstr option \<Rightarrow> jstr option \<Rightarrow> string \<Rightarrow> jstr" where
  "given value env otherwise = (case value of Some v \<Rightarrow> v | None \<Rightarrow> (case env of Some v \<Rightarrow> v | None \<Rightarrow> js otherwise))"

definition create_command :: "(string \<Rightarrow> jstr option) \<Rightarrow> jstr list \<Rightarrow> create_options res" where
  "create_command env args =
     rbind (commandOptions [''--output'', ''--log'', ''--artifact-receipt'', ''--space-id'', ''--host'', ''--port'', ''--timeout-ms''] [] args) (\<lambda>values.
     let spaceId = given (option_value values ''--space-id'') (env ''FRAM_SPACE_ID'') '''' in
     if spaceId = [] then usage
     else rbind (rbind (requiredOption values ''--output'') pathOption) (\<lambda>output.
     rbind (rbind (requiredOption values ''--log'') pathOption) (\<lambda>log.
     rbind (rbind (requiredOption values ''--artifact-receipt'') pathOption) (\<lambda>artifactReceipt.
     rbind (integerOption (given (option_value values ''--port'') (env ''FRAM_SERVER_PORT'') ''7977'') 1 65535) (\<lambda>port.
     rbind (integerOption (given (option_value values ''--timeout-ms'') None ''15000'') 1 600000) (\<lambda>timeoutMs.
       Inr \<lparr>co_output = output, co_log = log, co_artifactReceipt = artifactReceipt, co_space = spaceId,
            co_host = given (option_value values ''--host'') (env ''FRAM_SERVER_CONNECT'') ''127.0.0.1'', co_port = port, co_timeoutMs = timeoutMs\<rparr>))))))"

definition verify_command :: "jstr list \<Rightarrow> verify_options res" where
  "verify_command args =
     rbind (commandOptions [''--backup'', ''--space-id''] [] args) (\<lambda>values.
     rbind (rbind (requiredOption values ''--backup'') pathOption) (\<lambda>backup.
       Inr \<lparr>vo_backup = backup, vo_space = option_value values ''--space-id''\<rparr>))"

definition cli_command :: "(string \<Rightarrow> jstr option) \<Rightarrow> jstr list \<Rightarrow> command res" where
  "cli_command env args =
     (case args of
        [] \<Rightarrow> Inr Help
      | c # rest \<Rightarrow>
          if c = js ''--help'' \<or> c = js ''-h'' then Inr Help
          else if c = js ''create'' then rbind (create_command env rest) (\<lambda>opts. Inr (CreateBackup opts))
          else if c = js ''verify'' then rbind (verify_command rest) (\<lambda>opts. Inr (VerifyBackup opts))
          else usage)"

section \<open>What is printed\<close>

text \<open>The object that is printed: the format, the path as it is resolved, and the fields of the receipt.\<close>

definition printed_receipt :: "string \<Rightarrow> string \<Rightarrow> jstr \<Rightarrow> backup_receipt \<Rightarrow> jsval" where
  "printed_receipt format pathName path rc =
     JObj [(js ''format'', js_lit format), (js pathName, JStr path), (js ''manifestSha256'', JStr (br_manifestSha256 rc)),
       (js ''spaceId'', br_spaceId rc), (js ''servedVersion'', br_servedVersion rc), (js ''historyBytes'', br_historyBytes rc),
       (js ''historySha256'', br_historySha256 rc)]"

text \<open>Nothing for the help, whose text is not modelled.\<close>

definition printReceipt :: "jsval \<Rightarrow> byte list option res" where
  "printReceipt receipt = rbind (canonicalManifestBytes receipt) (\<lambda>bs. Inr (Some bs))"

text \<open>
  What the command does to the new directory, and what it prints. \<open>resolve\<close> is that of \<open>path\<close>; \<open>world\<close> has what the calls return for
  the options of a creation, \<open>entries\<close> the directory at a path.
\<close>

definition runCli ::
  "(byte list \<Rightarrow> jstr) \<Rightarrow> (byte list \<Rightarrow> nat) \<Rightarrow> (jstr \<Rightarrow> jstr) \<Rightarrow> (create_options \<Rightarrow> backup_inputs) \<Rightarrow> (jstr \<Rightarrow> (string \<times> node) list option) \<Rightarrow>
    (string \<Rightarrow> jstr option) \<Rightarrow> jstr list \<Rightarrow> byte list option act" where
  "runCli sha crc resolve world entries env args =
     act_bind (lift_res (cli_command env args)) (\<lambda>cmd.
     case cmd of
       Help \<Rightarrow> lift_res (Inr None)
     | CreateBackup opts \<Rightarrow>
         act_bind (createBackup sha crc ((world opts)\<lparr>nb_space := JStr (co_space opts), nb_timeout := JNum (num_of_nat (nat (co_timeoutMs opts)))\<rparr>)) (\<lambda>rc.
           lift_res (printReceipt (printed_receipt ''fram-backup/create-receipt/v1'' ''output'' (resolve (co_output opts)) rc)))
     | VerifyBackup opts \<Rightarrow>
         act_bind (lift_res (verifyBackup sha (entries (vo_backup opts)) (case vo_space opts of None \<Rightarrow> JUndef | Some s \<Rightarrow> JStr s))) (\<lambda>rc.
           lift_res (printReceipt (printed_receipt ''fram-backup/verify-receipt/v1'' ''backup'' (resolve (vo_backup opts)) rc))))"

section \<open>What the options accept\<close>

text \<open>The arguments that give these values.\<close>

definition spelled :: "(jstr \<times> jstr) list \<Rightarrow> jstr list" where
  "spelled vs = concat (map (\<lambda>(f, v). [f, v]) vs)"

definition options_ok :: "string list \<Rightarrow> (jstr \<times> jstr) list \<Rightarrow> bool" where
  "options_ok allowed vs \<longleftrightarrow>
     distinct (map fst vs) \<and> list_all (\<lambda>(f, v). dashes f \<and> f \<in> set (map js allowed) \<and> \<not> dashes v) vs"

lemma spelled_Nil [simp]: "[] = spelled vs \<longleftrightarrow> vs = []"
  by (cases vs) (auto simp: spelled_def)

lemma commandOptions_more:
  "commandOptions allowed old args = Inr vs \<longleftrightarrow>
     (\<exists>new. vs = old @ new \<and> args = spelled new \<and> list_all (\<lambda>(f, v). dashes f \<and> f \<in> set (map js allowed) \<and> \<not> dashes v) new \<and>
       distinct (map fst new) \<and> set (map fst old) \<inter> set (map fst new) = {})"
proof (induction allowed old args arbitrary: vs rule: commandOptions.induct)
  case (1 allowed old)
  show ?case by auto
next
  case (2 allowed old flag rest)
  show ?case
  proof (cases "dashes flag \<and> flag \<in> set (map js allowed) \<and> flag \<notin> set (map fst old) \<and> rest \<noteq> [] \<and> \<not> dashes (hd rest)")
    case False
    then have "commandOptions allowed old (flag # rest) \<noteq> Inr vs" by (auto split: list.splits)
    moreover have "\<not> (flag # rest = spelled new \<and> list_all (\<lambda>(f, v). dashes f \<and> f \<in> set (map js allowed) \<and> \<not> dashes v) new \<and>
        set (map fst old) \<inter> set (map fst new) = {})" for new
      using False by (cases new) (force simp: spelled_def)+
    ultimately show ?thesis by blast
  next
    case True
    then obtain v rest' where r: "rest = v # rest'" "\<not> dashes v" by (cases rest) auto
    have ih: "commandOptions allowed (old @ [(flag, v)]) rest' = Inr vs \<longleftrightarrow>
     (\<exists>new. vs = (old @ [(flag, v)]) @ new \<and> rest' = spelled new \<and> list_all (\<lambda>(f, v). dashes f \<and> f \<in> set (map js allowed) \<and> \<not> dashes v) new \<and>
       distinct (map fst new) \<and> set (map fst (old @ [(flag, v)])) \<inter> set (map fst new) = {})"
      using True r by (intro "2.IH") auto
    have "commandOptions allowed old (flag # rest) = commandOptions allowed (old @ [(flag, v)]) rest'" using True r by auto
    also note ih
    finally have step: "commandOptions allowed old (flag # rest) = Inr vs \<longleftrightarrow>
     (\<exists>new. vs = (old @ [(flag, v)]) @ new \<and> rest' = spelled new \<and> list_all (\<lambda>(f, v). dashes f \<and> f \<in> set (map js allowed) \<and> \<not> dashes v) new \<and>
       distinct (map fst new) \<and> set (map fst (old @ [(flag, v)])) \<inter> set (map fst new) = {})" .
    show ?thesis
      unfolding step
    proof (intro iffI; elim exE conjE)
      fix new assume n: "vs = (old @ [(flag, v)]) @ new" "rest' = spelled new"
        "list_all (\<lambda>(f, v). dashes f \<and> f \<in> set (map js allowed) \<and> \<not> dashes v) new"
        "distinct (map fst new)" "set (map fst (old @ [(flag, v)])) \<inter> set (map fst new) = {}"
      then show "\<exists>new. vs = old @ new \<and> flag # rest = spelled new \<and>
          list_all (\<lambda>(f, v). dashes f \<and> f \<in> set (map js allowed) \<and> \<not> dashes v) new \<and>
          distinct (map fst new) \<and> set (map fst old) \<inter> set (map fst new) = {}"
        using True r by (intro exI [of _ "(flag, v) # new"]) (auto simp: spelled_def)
    next
      fix new assume n: "vs = old @ new" "flag # rest = spelled new"
        "list_all (\<lambda>(f, v). dashes f \<and> f \<in> set (map js allowed) \<and> \<not> dashes v) new"
        "distinct (map fst new)" "set (map fst old) \<inter> set (map fst new) = {}"
      then obtain new' where "new = (flag, v) # new'" using r by (cases new) (auto simp: spelled_def)
      with n r show "\<exists>new. vs = (old @ [(flag, v)]) @ new \<and> rest' = spelled new \<and>
          list_all (\<lambda>(f, v). dashes f \<and> f \<in> set (map js allowed) \<and> \<not> dashes v) new \<and>
          distinct (map fst new) \<and> set (map fst (old @ [(flag, v)])) \<inter> set (map fst new) = {}"
        by (intro exI [of _ new']) (auto simp: spelled_def)
    qed
  qed
qed

lemma commandOptions_Inr: "commandOptions allowed [] args = Inr vs \<longleftrightarrow> args = spelled vs \<and> options_ok allowed vs"
  unfolding commandOptions_more options_ok_def by auto

text \<open>A number of the command line is in its range, and a path absolute and not the root.\<close>

lemma integerOption_Inr: "integerOption v lo hi = Inr z \<longleftrightarrow> DECIMAL v \<and> z = text_int v \<and> lo \<le> z \<and> z \<le> hi"
  by (auto simp: integerOption_def)

lemma pathOption_Inr: "pathOption v = Inr p \<longleftrightarrow> p = v \<and> take 1 v = [47] \<and> (\<exists>u \<in> set v. u \<noteq> 47)"
  by (auto simp: pathOption_def list_all_iff)

lemma requiredOption_Inr: "requiredOption values flag = Inr v \<longleftrightarrow> option_value values flag = Some v \<and> v \<noteq> []"
  by (auto simp: requiredOption_def split: option.split)

lemma create_command_Inr:
  "create_command env args = Inr opts \<longleftrightarrow>
     (\<exists>vs. args = spelled vs \<and>
        options_ok [''--output'', ''--log'', ''--artifact-receipt'', ''--space-id'', ''--host'', ''--port'', ''--timeout-ms''] vs \<and>
        co_space opts = given (option_value vs ''--space-id'') (env ''FRAM_SPACE_ID'') '''' \<and> co_space opts \<noteq> [] \<and>
        (\<forall>(p, flag) \<in> {(co_output opts, ''--output''), (co_log opts, ''--log''), (co_artifactReceipt opts, ''--artifact-receipt'')}.
           option_value vs flag = Some p \<and> pathOption p = Inr p) \<and>
        integerOption (given (option_value vs ''--port'') (env ''FRAM_SERVER_PORT'') ''7977'') 1 65535 = Inr (co_port opts) \<and>
        integerOption (given (option_value vs ''--timeout-ms'') None ''15000'') 1 600000 = Inr (co_timeoutMs opts) \<and>
        co_host opts = given (option_value vs ''--host'') (env ''FRAM_SERVER_CONNECT'') ''127.0.0.1'')"
proof -
  have path: "(\<exists>v. requiredOption vs flag = Inr v \<and> pathOption v = Inr p) \<longleftrightarrow> option_value vs flag = Some p \<and> pathOption p = Inr p" for vs flag p
    by (auto simp: requiredOption_Inr pathOption_Inr)
  show ?thesis
    unfolding create_command_def rbind_Inr_iff commandOptions_Inr Let_def if_Inr path
    by (cases opts) auto
qed

end
