(* ===== verification/Spec2Isabelle.thy ===== *)
theory Spec2Isabelle
  imports DurableObject Samples Arena SchemaProperties EdgeProperties BackupProperties BackupCli
begin

text \<open>
  A verification library for the JavaScript side of Fram: the FRAMRPC v2 client, its transports, the schema client
  over it, the client of its JSON representation, the Cloudflare Durable Object adapter that runs the Fram engine as a WebAssembly guest over chunked
  durable storage, and the native backup tool.

  \<^bold>\<open>The program.\<close> A client (\<^verbatim>\<open>clients/bun/framrpc-core.mjs\<close>) turns method calls into request frames and reply
  frames into results. A transport carries a frame: a TCP connection (\<^verbatim>\<open>clients/bun/framrpc.mjs\<close>) or the
  Durable Object (\<^verbatim>\<open>clients/cloudflare-do/src/adapter.mjs\<close>), whose \<open>exchange\<close> decodes the head of the frame,
  admits or refuses it, and hands it to a \<open>FramInstance\<close>. The instance runs the guest, which reads and writes two
  byte strings in memory, the log and the image (\<open>HostImage\<close>), and then commits both to storage in one transaction
  (\<open>DurableFramStore\<close>, \<open>ChunkedRange\<close>). The object also exports its log, restores a backup, and recovers from a
  restore that was interrupted. On top of the client, the schema client (\<^verbatim>\<open>clients/bun/schema.mjs\<close>) gives records with
  unique identities: each of its operations reads one version, plans a batch, and sends it with that version as its
  condition, again when another client was faster. The JSON client (\<^verbatim>\<open>deploy/cloudflare/worker-client.js\<close>) makes the same calls
  over HTTP: its own constructors and checks, a JSON body, and a JSON reply that it checks before it returns it. The backup tool (\<^verbatim>\<open>clients/bun/backup.mjs\<close>)
  asks the native server for a checkpoint over TCP, copies the log up to it into a new directory, and verifies such directories.

  \<^bold>\<open>Theories.\<close>
  \<^item> \<open>Prelude\<close>, \<open>JsText\<close>, \<open>JsNum\<close>, \<open>JsValue\<close>: exceptions and results as sums, JavaScript strings as UTF-16 code
    units, UTF-8 with the fatal decoder, integers as text, IEEE-754 bit patterns, and the values callers pass.
  \<^item> \<open>FramTerm\<close>: Terms as tagged arrays; the constructors, \<open>term\<close> (here \<open>toTerm\<close>) and \<open>validateTerm\<close>. The datatype
    \<open>fterm\<close> is the specification: \<open>denotes v t\<close> relates an array to the Term it stands for, \<open>rep_term\<close> is the canonical array.
  \<^item> \<open>Wire\<close>: \<open>Writer\<close>, \<open>Reader\<close>, \<open>writeTerm\<close>, \<open>Reader.term\<close>. The locale \<open>wire_codec\<close> states what a reader and a writer of one
    format owe each other; every format of the protocol is an interpretation of it, from bytes to optional records.
  \<^item> \<open>Rpc\<close>, \<open>Response\<close>, \<open>Query\<close>, \<open>Client\<close>: records and lists as Terms, request frames, reply frames and results,
    query lowering and batches, and \<open>framClient\<close> with its counter and every method.
  \<^item> \<open>Transport\<close>: the handlers of one TCP connection as a step function over socket events.
  \<^item> \<open>Request\<close>: the adapter's own partial decoder, admission, FRAMLOG headers and status frames.
  \<^item> \<open>Storage\<close>: the durable store. The locale \<open>kv_storage\<close> states what the code relies on of Durable Object storage
    (get, put, delete, list in key order, transactions that apply fully or not at all); \<open>MemoryStorage\<close> interprets it.
  \<^item> \<open>HostImage\<close>, \<open>Instance\<close>: the growing buffer, and the instance with its hooks, commit and poisoning.
  \<^item> \<open>Restore\<close>, \<open>DurableObject\<close>: the object's operations, and the object as a step relation with its invariant.
  \<^item> \<open>Arena\<close>: \<open>GuestArena\<close>, the allocator in guest memory, and every run of it as a step relation over the blocks held.
  \<^item> \<open>Json\<close>, \<open>SchemaInput\<close>, \<open>SchemaClient\<close>, \<open>SchemaRun\<close>: the keys by which Terms are compared, the normal forms of the inputs, the
    operations as programs (\<open>io\<close>) whose calls of the FRAM client wait for an answer, and their runs against a service; \<open>pool_step\<close> is
    \<open>mapWithConcurrency\<close>, with every interleaving of its reads.
  \<^item> \<open>SchemaService\<close>, \<open>SchemaSpace\<close>: the locale \<open>occ_service\<close> states what the code relies on of a service whose space other
    clients change at any time: a version never changes, queries and scans return its Triples page by page, a batch applies whole at the
    version it expects or not at all. The history of a space and the service \<open>serve\<close> on it interpret the locale.
  \<^item> \<open>SchemaOps\<close>, \<open>SchemaUpdates\<close>, \<open>SchemaTransact\<close>, \<open>SchemaTrace\<close>, \<open>SchemaPool\<close>, \<open>SchemaProperties\<close>: what each operation that returns has
    done to the set of Triples, in terms of Terms; the calls an operation makes, how many and until when; and that its pools
    of reads come to an end.
  \<^item> \<open>JsonParse\<close>, \<open>EdgeClient\<close>: \<open>JSON.parse\<close>, with the nearest double of a number, and every function of the JSON client, named
    \<open>edge_...\<close> where the FRAMRPC client has a function of the same name.
  \<^item> \<open>EdgeTerms\<close>, \<open>EdgeCalls\<close>, \<open>EdgeReplies\<close>, \<open>EdgeRecords\<close>, \<open>EdgeProperties\<close>: \<open>shape v t\<close> says that an array has the form of a Term, whatever
    its texts are; the checks of the JSON client in these terms, its agreement with the FRAMRPC client (\<open>agree\<close>, and \<open>core_of\<close> for the
    methods), what its bodies say when they are read, and which replies it returns.
  \<^item> \<open>Backup\<close>: every function of the backup tool. \<open>createBackup\<close> returns its result with the list of its operations on the new directory
    (\<open>act\<close>), so that a failure and a crash between any two of them are states of the model. \<open>BackupFiles\<close>, \<open>BackupJson\<close>, \<open>BackupSnapshot\<close>: what is
    read from a file that holds given bytes however its reads are split (\<open>file_holds\<close>), canonical JSON and its reading, and the bytes of the
    snapshots that are accepted (\<open>snapshot_of\<close>). \<open>BackupVerify\<close>: \<open>valid_backup\<close>, the specification of \<open>verifyBackup\<close>.
    \<open>BackupCrash\<close>, \<open>BackupCommit\<close>: a directory that keeps what was synced and anything of the rest (\<open>found_later\<close>), and rules for conditions that hold after every
    prefix of the operations (\<open>always\<close>). \<open>BackupRun\<close>, \<open>BackupProperties\<close>: when a backup is made, and the properties.
    \<open>BackupCli\<close>: the options, the commands and what they print, and which command lines are accepted.
  \<^item> \<open>Samples\<close>, \<open>SchemaSamples\<close>, \<open>EdgeSamples\<close>, \<open>BackupSamples\<close>: concrete inputs for the theorems that apply the properties.

  \<^bold>\<open>What the lemmas show.\<close> Each format is read back exactly as written and nothing else is accepted
  (\<open>termc\<close>, \<open>pagec\<close>, \<open>errorc\<close> and the others); each payload accepted or produced is exactly the one of the grammar; a commit is one step
  of an abstract pair of byte strings; a call of the instance refines the engine on that pair; and from an empty
  storage no sequence of operations, failures and restarts leaves the storage with half of a commit. No operation of the schema
  client that returns has lost an update of another client or left an identity with two subjects it could have seen. Both clients
  make the same arrays and payloads of what both accept. A backup that is interrupted at any point leaves a directory that does not verify or the
  whole backup, and one that was returned verifies for ever after.

  \<^bold>\<open>Bounds and fuel.\<close> Loops over lists and Terms are structural. \<open>Reader.term\<close> and \<open>writeTermUnchecked\<close> terminate by
  the depth limit and the size of the array. Paging through stored keys (\<open>clearPlan\<close>) takes fuel, because it ends only
  if the storage returns fewer keys each time; \<open>clearPlan_empties\<close> proves that more fuel than stored keys is enough,
  and \<open>restore_outcomes\<close> states totality of a restore with the same bound. \<open>JSON.parse\<close> takes fuel of twice the length of the
  text and one; \<open>json_value_fuel\<close> proves that more makes no difference.

  \<^bold>\<open>Parameters.\<close> The engine is a function from its state, the entry, the frame and the two byte strings to a new state,
  a list of storage hook calls and an outcome (\<open>engine\<close>), since its code is not JavaScript. SHA-256 is a function on
  byte strings, or absent; where two contents with one digest matter, that there are none among the files at hand is a hypothesis (\<open>no_collision\<close>), and
  that a digest is 64 hexadecimal digits is another. CRC-32 is a function on byte strings. Socket events, the answers of a transport and \<open>fetch\<close>, and the results of
  file system calls are arguments.

  \<^bold>\<open>Not modelled.\<close> Error message texts and the detail objects of schema errors; the guest memory layout, clocks, WASI stubs and usage counters of
  \<open>FramInstance\<close>; the Worker entrypoints, which pass arguments on; the base URL, the headers and the error fields of the JSON client; the help
  text of the backup tool and errors of closing a file; the tools for capacity runs (processes, HTTP). Promise queues that serialise operations
  are modelled by the order of the steps.
\<close>

section \<open>Terms\<close>

text \<open>
  C17 (roundtrip). A Term within the limits whose texts do not begin with a byte order mark is written by
  \<open>writeTerm\<close> and the bytes are read back by \<open>Reader.term\<close> to the same canonical array, all bytes consumed,
  and the writer's budget holds its node count and nesting depth.
\<close>

theorem term_roundtrip:
  assumes "term_ok t" "plain_term t"
  shows "\<exists>w bs r. writeTerm (rep_term t) fresh_budget new_writer = Inr (\<lparr>nodes = term_size t, maxDepth = term_depth t\<rparr>, w) \<and>
    w_finish w = Inr bs \<and> readTerm 0 (new_reader bs) = Inr (rep_term t, r) \<and> r_done r"
proof -
  have t: "denotes (rep_term t) t" "readable 0 0 t"
    using assms by (simp_all add: term_ok_def denotes_rep_term readable_def)
  obtain w where w: "writeTermUnchecked (rep_term t) new_writer = Inr w" "w_bytes w = wire t" "w_inv w"
    using writeTermUnchecked_wire [OF t(1), of new_writer] by auto
  have "validateTerm 0 fresh_budget (rep_term t) = Inr \<lparr>nodes = term_size t, maxDepth = term_depth t\<rparr>"
    using t(1) assms(1) by (auto simp: validateTerm_fresh)
  moreover have "readTerm 0 (new_reader (wire t)) = Inr (rep_term t, advance (length (wire t)) (term_size t) (new_reader (wire t)))"
    using t(2) by (rule termc.get_new)
  ultimately show ?thesis using w w_finish_inv [OF w(3)] by (simp add: writeTerm_def r_done_def)
qed

theorem term_roundtrip_witness:
  "\<exists>w bs r. writeTerm (rep_term sample_term) fresh_budget new_writer =
      Inr (\<lparr>nodes = term_size sample_term, maxDepth = term_depth sample_term\<rparr>, w) \<and>
    w_finish w = Inr bs \<and> readTerm 0 (new_reader bs) = Inr (rep_term sample_term, r) \<and> r_done r"
  by (rule term_roundtrip [OF sample_term_ok])

text \<open>
  \<open>validateTerm\<close> accepts exactly the arrays that denote a Term within the limits, and the budget it
  leaves is the Term's node count and depth.
\<close>

theorem validateTerm_exact:
  "validateTerm 0 fresh_budget v = Inr bud \<longleftrightarrow>
     (\<exists>t. denotes v t \<and> term_ok t \<and> bud = \<lparr>nodes = term_size t, maxDepth = term_depth t\<rparr>)"
  by (rule validateTerm_fresh)

text \<open>
  C19 (safety). Whatever bytes the reader is given, an array it returns is the canonical array of a Term within
  the limits, and the bytes consumed are an encoding of that Term.
\<close>

theorem readTerm_accepts:
  assumes "readTerm 0 (new_reader bs) = Inr (v, r)"
  shows "\<exists>t used rest. v = rep_term t \<and> term_ok t \<and> bs = used @ rest \<and> encodes t used \<and> offset r = length used"
proof -
  obtain t used where t: "v = rep_term t" "decoded 0 (new_reader bs) t used r" using readTerm_sound [OF assms] by blast
  then have "take (length used) bs = used" by (simp add: decoded_def moved_def)
  then have "bs = used @ drop (length used) bs" by (metis append_take_drop_id)
  moreover have "term_ok t" "encodes t used" "offset r = length used"
    using t(2) by (simp_all add: decoded_def moved_def term_ok_def)
  ultimately show ?thesis using t(1) by blast
qed

theorem readTerm_accepts_witness:
  "\<exists>t used rest. JArr [JStr (js ''boolean''), JBool True] = rep_term t \<and> term_ok t \<and> [5, 9] = used @ rest \<and>
     encodes t used \<and> (1::nat) = length used"
proof -
  have "readTerm 0 (new_reader [5, 9]) = Inr (JArr [JStr (js ''boolean''), JBool True], advance 1 1 (new_reader [5, 9]))"
    using termc.get_put [of "new_reader [5, 9]" "FBoolean True" "[9]"]
    by (simp add: readable_def limit_defs at_bytes_def)
  from readTerm_accepts [OF this] show ?thesis by simp
qed

text \<open>
  The encoding of readable Terms is prefix free: a byte string begins with the encoding of at
  most one Term, so a decoder never has two readings.
\<close>

theorem wire_prefix_free:
  assumes "readable 0 0 t" "readable 0 0 u" "wire t @ rest = wire u @ rest'"
  shows "t = u \<and> rest = rest'"
proof -
  have "rep_term t = rep_term u \<and> rest = rest'" using termc.prefix_free [OF assms] .
  moreover have "denotes (rep_term t) t" "denotes (rep_term u) u"
    using assms(1,2) by (simp_all add: readable_def denotes_rep_term)
  ultimately show ?thesis using denotes_unique by metis
qed

theorem wire_prefix_free_witness:
  "sample_term = sample_term \<and> ([1] :: byte list) = [1]"
proof -
  have "readable 0 0 sample_term" using sample_term_ok by (simp add: readable_def term_ok_def)
  from wire_prefix_free [OF this this, of "[1]" "[1]"] show ?thesis by simp
qed

text \<open>
  \<open>term(date)\<close> splits a date's milliseconds by flooring division, before the epoch as after it, so
  its nanoseconds are never negative.
\<close>

theorem date_floors:
  "toTerm (JDate (Some m)) = instantTerm (JBigInt (m div 1000)) (JBigInt (m mod 1000 * 1000000)) \<and>
   0 \<le> m mod 1000 * 1000000 \<and> m mod 1000 * 1000000 \<le> 999999999"
  by (simp add: toTerm_def dateTerm_floor)

text \<open>
  A number's bits are its sixteen hexadecimal digits, and every NaN has the one canonical
  pattern.
\<close>

theorem float_bits_canonical:
  "float64Term (JNum b) = Inr (rep_term (FFloat (if is_nan b then 0x7ff8000000000000 else b)))"
  by (simp add: float64Term_def floatBits_JNum)

section \<open>Requests\<close>

text \<open>
  Values that coerce to Terms whose list is within the limits are packed by \<open>rpcRecord\<close>, and
  \<open>rawRecordFields\<close> takes the record apart, under its own tag and arity, into exactly those Terms.
\<close>

theorem record_roundtrip:
  assumes "name_ok tag" "terms_of vs ts" "term_ok (list_term ts)"
  shows "rpcRecord tag vs = Inr (rep_term (record_term tag ts)) \<and>
    rawRecordFields (rep_term (record_term tag ts)) tag (length vs) = Inr (map rep_term ts)"
  using rpcRecord_rep [OF assms] rawRecordFields_rep [OF assms(3)] list_all2_lengthD [OF assms(2)] by simp

theorem record_roundtrip_witness:
  "rpcRecord ''rpc/demo'' [JBool True, JStr (js ''x'')] =
      Inr (rep_term (record_term ''rpc/demo'' [FBoolean True, FString (js ''x'')])) \<and>
   rawRecordFields (rep_term (record_term ''rpc/demo'' [FBoolean True, FString (js ''x'')])) ''rpc/demo''
      (length [JBool True, JStr (js ''x'')]) = Inr (map rep_term [FBoolean True, FString (js ''x'')])"
proof (rule record_roundtrip)
  show "name_ok ''rpc/demo''" by (simp add: name_ok_def ascii_def)
  show "terms_of [JBool True, JStr (js ''x'')] [FBoolean True, FString (js ''x'')]"
    by (simp add: toTerm_def booleanTerm_def stringTerm_Inr_iff ascii_plain ascii_def)
  show "term_ok (list_term [FBoolean True, FString (js ''x'')])"
    by (simp add: term_ok_def limit_defs ascii_plain ascii_def)
qed


text \<open>
  Request ids stay in the positive 64-bit range, and two calls of a client have the same id only
  after the whole range has been used.
\<close>

theorem request_ids:
  assumes "1 \<le> n" "n \<le> I64_MAX" "i < j" "int j - int i < I64_MAX"
  shows "(nextRequestId ^^ i) n \<noteq> (nextRequestId ^^ j) n \<and> 1 \<le> (nextRequestId ^^ i) n \<and> (nextRequestId ^^ i) n \<le> I64_MAX"
proof -
  have "0 \<le> (n - 1 + int i) mod I64_MAX" "(n - 1 + int i) mod I64_MAX < I64_MAX"
    by (simp_all add: I64_MAX_def)
  then show ?thesis using nextRequestId_distinct [OF assms] nextRequestId_iterate [OF assms(1,2), of i] by simp
qed

theorem request_ids_witness:
  "(nextRequestId ^^ 0) 1 \<noteq> (nextRequestId ^^ 1) 1 \<and> (1 :: int) \<le> (nextRequestId ^^ 0) 1 \<and> (nextRequestId ^^ 0) 1 \<le> I64_MAX"
  by (rule request_ids) (simp_all add: I64_MAX_def)

text \<open>
  The object \<open>preflightBatch\<close> returns, handed back as the \<open>preflight\<close> option of the same batch, is
  accepted and the frame sent has the announced size; any other counts are refused before anything is sent.
\<close>

theorem preflight_enforced:
  assumes "preflightBatch c actions (JObj fs) = Inr p" "js ''preflight'' \<notin> fst ` set fs"
  shows "(\<exists>a s. method_args (MBatch actions (JObj (fs @ [(js ''preflight'', preflight_object p)]))) = Inr a \<and>
      prepareCall c a = Inr s \<and> length (sent_frame s) = pre_requestBytes p \<and> sent_entry s = ''transact'') \<and>
    (small_counts q \<longrightarrow> q \<noteq> p \<longrightarrow>
      (\<exists>a. method_args (MBatch actions (JObj (fs @ [(js ''preflight'', preflight_object q)]))) = Inr a \<and>
        prepareCall c a = fail ''client/preflight-mismatch''))"
  using preflight_object_accepted [OF assms] preflight_object_rejected [OF assms] by blast

theorem preflight_enforced_witness:
  "\<exists>a. method_args (MBatch (JArr [sample_action]) (JObj [(js ''preflight'', preflight_object \<lparr>actionCount = 1,
        pre_requestBytes = 0, pre_bodyBytes = 0, pre_termCount = 0, pre_maxTermDepth = 0\<rparr>)])) = Inr a \<and>
      prepareCall sample_client a = fail ''client/preflight-mismatch''"
proof -
  let ?q = "\<lparr>actionCount = 1, pre_requestBytes = 0, pre_bodyBytes = 0, pre_termCount = 0, pre_maxTermDepth = 0\<rparr>"
  let ?p = "batchPreflight (encoded_request 0 sample_batch_request) 1"
  have "pre_requestBytes ?p = 26 + length (request_body sample_batch_request)"
    by (simp add: batchPreflight_def encoded_request_def request_frame_def)
  then have "pre_requestBytes ?p \<noteq> pre_requestBytes ?q" by simp
  then have "?q \<noteq> ?p" by metis
  then show ?thesis using preflight_enforced [OF sample_preflight, of ?q] by (simp add: small_counts_def)
qed

section \<open>Calls and replies\<close>



text \<open>
  C22 (safety). A call that succeeds has received a complete frame that names the request id it used, its own space
  and its own operation, and carries no error; whatever else a transport returns becomes an error.
\<close>

theorem call_own_answer:
  assumes "call c m sig outc = (c', Inr pb)"
  shows "\<exists>bs a. outc = Returned (Some bs) \<and> method_args m = Inr a \<and>
    le_int (bytes_at 18 8 bs) = requestCounter c \<and> length bs = 26 + le_nat (bytes_at 14 4 bs) \<and>
    rs_space (pb_response pb) = JStr (cl_space c) \<and> rs_operation (pb_response pb) = JStr (js (ca_operation a)) \<and>
    rs_error (pb_response pb) = None \<and> requestCounter c' = nextRequestId (requestCounter c)"
  using assms by (rule call_accepts)

theorem call_own_answer_witness:
  "rs_space (reply_seen sample_reply) = JStr (cl_space sample_client) \<and> rs_error (reply_seen sample_reply) = None"
proof -
  have c: "call sample_client (MVersion JUndef) NoSignal (Returned (Some (reply_frame (requestCounter sample_client) sample_reply))) =
    (sample_client\<lparr>requestCounter := nextRequestId (requestCounter sample_client)\<rparr>,
     Inr \<lparr>pb_response = reply_seen sample_reply, pb_result = RNull\<rparr>)"
  proof -
    have "rp_space sample_reply = cl_space sample_client" "rp_operation sample_reply = js (ca_operation sample_args)"
      "1 \<le> requestCounter sample_client" "requestCounter sample_client \<le> I64_MAX"
      by (simp_all add: sample_reply_def sample_client_def sample_args_def I64_MAX_def)
    from call_reply [OF sample_method sample_prepared disjI1 [OF refl] sample_reply_ok this] show ?thesis
      by (simp add: sample_public sample_args_def)
  qed
  from call_own_answer [OF c] show ?thesis by auto
qed



text \<open>
  A connection that resolves has received the frame first, of exactly its declared length and within
  the limit, and no event after that changes the outcome.
\<close>

theorem tcp_resolves_once:
  assumes "settled (tcp_run (map Data cs) (tcp_init False)) = Some (Inr fr)"
  shows "(\<exists>rest. concat cs = fr @ rest) \<and> framRpcDeclaredFrameBytes (Some fr) = Inr (Some (length fr)) \<and>
    length fr \<le> MAX_FRAME_BYTES \<and> settled (tcp_run (map Data cs @ evs) (tcp_init False)) = Some (Inr fr)"
proof -
  note r = tcp_result [OF assms]
  have "tcp_run evs (tcp_run (map Data cs) (tcp_init False)) = tcp_run (map Data cs) (tcp_init False)"
    by (rule tcp_run_settled [OF assms])
  then show ?thesis using r declared_Inr assms by (auto simp: tcp_run_def)
qed

theorem tcp_resolves_once_witness:
  "settled (tcp_run (map Data [reply_frame 1 sample_reply] @ [SocketEnd]) (tcp_init False)) = Some (Inr (reply_frame 1 sample_reply))"
proof -
  have "settled (tcp_run (map Data [reply_frame 1 sample_reply]) (tcp_init False)) = Some (Inr (reply_frame 1 sample_reply))"
    using tcp_no_error [OF tcp_init_inv [of False], of "[reply_frame 1 sample_reply]"] declared_reply [OF sample_reply_ok, of 1]
    by (simp add: tcp_init_def limit_defs reply_frame_def frame_header_def MAGIC_def)
  from tcp_resolves_once [OF this, of "[SocketEnd]"] show ?thesis by blast
qed

section \<open>Queries, batches and results\<close>

text \<open>
  C38 (type). A query object that \<open>lowerQueryPlan\<close> accepts becomes a plan of the service's grammar: one find clause,
  a list of strata of rules, a list of orders, and an optional integer limit.
\<close>

theorem lowered_plan_wf:
  assumes "lowerQueryPlan v = Inr u"
  shows "is_array u \<and> plan_wf u"
  using assms by (rule lowerQueryPlan_wf)

theorem lowered_plan_wf_witness: "plan_wf (rep_term sample_plan)"
  using lowered_plan_wf [OF sample_lowered] by blast

text \<open>
  \<open>tripleQuery\<close> of a pattern of values builds the same plan as the general lowering does for the
  query it abbreviates: one rule over \<open>triple\<close> whose head lists the unbound positions, or all three when none is.
\<close>

theorem tripleQuery_plan_equiv:
  assumes "exactKeys pattern [''t1'', ''t2'', ''t3''] = Inr fs"
    "\<And>n. n \<in> set pattern_names \<Longrightarrow> nullish (get_prop fs n) \<or> object_fields (get_prop fs n) = None"
  shows "tripleQuery pattern = Inr u \<longleftrightarrow> lowerQueryPlan (pattern_query fs) = Inr u"
  using assms by (rule tripleQuery_lower)

theorem tripleQuery_plan_equiv_witness: "tripleQuery (JObj []) = Inr (rep_term sample_plan)"
proof -
  have e: "exactKeys (JObj []) [''t1'', ''t2'', ''t3''] = Inr []"
    by (simp add: exactKeys_def plainObject_def object_fields_def)
  have n: "nullish (get_prop [] n) \<or> object_fields (get_prop [] n) = None" for n by (simp add: nullish_def)
  show ?thesis using tripleQuery_plan_equiv [OF e n, of "rep_term sample_plan"] sample_lowered by blast
qed

text \<open>
  A batch that is prepared has between 1 and 247 actions, one record per action in their order, each of
  the grammar of an action.
\<close>

theorem batch_bounds:
  assumes "prepareBatch actions options allow = Inr p"
  shows "batch_wf (bt_payload p) \<and> 1 \<le> bt_actionCount p \<and> bt_actionCount p \<le> 247 \<and>
    (\<exists>as l fence. actions = JArr as \<and> bt_actionCount p = length as \<and> length l = length as \<and>
       bt_payload p = record_val ''rpc/batch'' [list_val l, fence])"
  using assms by (rule prepareBatch_wf)

theorem batch_bounds_witness: "batch_wf (rep_term batch_term)"
  using batch_bounds [OF sample_batch] by simp

text \<open>
  \<open>queryRows\<close> returns rows exactly when the payload is the record of those rows, so no payload is
  read as other rows and no row is dropped.
\<close>

theorem queryRows_exact:
  "queryRows payload = Inr rows \<longleftrightarrow>
     payload = rows_val rows \<and> length rows \<le> MAX_TERM_NODES \<and> (\<forall>cells \<in> set rows. length cells \<le> MAX_TERM_NODES)"
  by (rule queryRows_iff)

theorem queryRows_exact_witness: "queryRows (rows_val [[JNull], []]) = Inr [[JNull], []]"
  by (rule queryRows_exact [THEN iffD2]) (simp add: MAX_TERM_NODES_def)

text \<open>
  An occurrence coordinate is accepted exactly when it is the Term of a transaction of a nonempty space
  with a nonnegative sequence and a nonnegative ordinal, and it is passed on unchanged.
\<close>

theorem occurrenceCoordinate_exact:
  "occurrenceCoordinate (rep_term t) = Inr u \<longleftrightarrow>
     u = rep_term t \<and> (\<exists>space seqno ord. t = coordinate_of space seqno ord \<and> space \<noteq> [] \<and> 0 \<le> seqno \<and> 0 \<le> ord)"
  by (rule occurrenceCoordinate_rep)

text \<open>
  A checkpoint reply is accepted exactly when it carries the record of the checkpoint it reports,
  five nonnegative integers of which the first is the served version and the fourth fits 32 bits.
\<close>

theorem checkpointResult_exact:
  "checkpointResult (reply_seen rep) = Inr c \<longleftrightarrow>
     rp_error rep = None \<and> rp_page rep = None \<and> rp_payload rep = Some (checkpoint_term c) \<and>
     cp_servedVersion c = rp_served rep \<and> 0 \<le> rp_served rep \<and> 0 \<le> watermarkBytes c \<and> 0 \<le> createdAtUnixMs c \<and>
     0 \<le> snapshotCrc32 c \<and> snapshotCrc32 c < 2 ^ 32 \<and> 0 \<le> snapshotBytes c"
  by (rule checkpointResult_rep)

section \<open>The adapter reads the client's frames\<close>

text \<open>
  The adapter's partial decoder reads from the frame of any valid request its space without a
  leading byte order mark, its operation, its request id and its sizes.
\<close>

theorem inspect_client_request:
  assumes "request_valid ops r" "set ops \<subseteq> set FRAMRPC_OPERATIONS" "i64_ok i" "drop_bom (rq_space r) \<noteq> []"
  shows "inspectFramRpcRequest (Some (request_frame i r)) = Inr
    \<lparr>in_space = drop_bom (rq_space r), in_operation = js (rq_operation r), in_requestId = i,
     in_frameBytes = length (request_frame i r), in_bodyBytes = length (request_body r)\<rparr>"
  using assms by (rule inspect_request)

theorem inspect_client_request_witness:
  "\<exists>n k. inspectFramRpcRequest (Some (request_frame 1 sample_request)) = Inr
    \<lparr>in_space = js ''demo'', in_operation = js ''rpc/version'', in_requestId = 1, in_frameBytes = n, in_bodyBytes = k\<rparr>"
proof -
  have "set OPERATIONS \<subseteq> set FRAMRPC_OPERATIONS" by (auto simp: OPERATIONS_def FRAMRPC_OPERATIONS_def)
  moreover have "drop_bom (js ''demo'') = js ''demo''" by (simp add: drop_bom_def ascii_js)
  ultimately show ?thesis
    using inspect_client_request [OF sample_valid, of 1] by (simp add: limit_defs sample_request_def)
qed

text \<open>
  C20 (safety). Every frame a client of a space sends for one of its methods is admitted by that space's object under
  the entry the client names, unless the space begins with a byte order mark; then it is refused.
\<close>

theorem client_call_admitted:
  assumes "prepareCall c a = Inr s" "1 \<le> requestCounter c" "requestCounter c \<le> I64_MAX"
  shows "exchange_admits (cl_space c) (Some (sent_frame s)) (exchange_options (sent_entry s) (cl_space c)) = Inr (sent_entry s)
    \<longleftrightarrow> \<not> starts_with_bom (cl_space c)"
proof (cases "starts_with_bom (cl_space c)")
  case False
  then show ?thesis using exchange_admits_call [OF assms] by simp
next
  case True
  obtain r where r: "request_valid OPERATIONS r" "rq_space r = cl_space c" "sent_frame s = request_frame (requestCounter c) r"
    using prepareCall_Inr [OF assms(1)] by blast
  have ne: "drop_bom (cl_space c) \<noteq> cl_space c" if "drop_bom (cl_space c) \<noteq> []"
    using True that by (cases "cl_space c") (auto simp: drop_bom_def starts_with_bom_def)
  have sub: "set OPERATIONS \<subseteq> set FRAMRPC_OPERATIONS" by (auto simp: OPERATIONS_def FRAMRPC_OPERATIONS_def)
  have "i64_ok (requestCounter c)" using assms(2,3) by (simp add: i64_ok_def I64_MIN_def)
  from inspect_request [OF r(1) sub this] r(2,3)
  have i: "drop_bom (cl_space c) \<noteq> [] \<Longrightarrow> \<exists>i. inspectFramRpcRequest (Some (sent_frame s)) = Inr i \<and> in_space i \<noteq> cl_space c"
    using ne by auto
  have "exchange_admits (cl_space c) (Some (sent_frame s)) opts \<noteq> Inr e" for opts e
  proof
    assume a: "exchange_admits (cl_space c) (Some (sent_frame s)) opts = Inr e"
    from exchange_admits_safe [OF a] obtain i' where i': "inspectFramRpcRequest (Some (sent_frame s)) = Inr i'"
      "in_space i' = cl_space c" by blast
    moreover have "in_space i' \<noteq> []"
      using i'(1) by (auto simp: inspectFramRpcRequest_def Let_def res_simps split: option.splits if_splits)
    show False
    proof (cases "drop_bom (cl_space c) = []")
      case True
      with inspect_bom_only [OF r(1)] r(2,3) i'(1) show False by auto
    next
      case False
      with i i' show False by auto
    qed
  qed
  with True show ?thesis by blast
qed

theorem client_call_admitted_witness:
  "exchange_admits (js ''demo'') (Some (sent_frame sample_sent)) (exchange_options ''query'' (js ''demo'')) = Inr ''query''"
  using client_call_admitted [OF sample_prepared]
  by (simp add: sample_client_def sample_sent_def I64_MAX_def ascii_js)

text \<open>
  A frame the object admits is for its own space and for a data-plane operation under the entry that
  operation needs: no checkpoint, and a mutation only through \<open>transact\<close>.
\<close>

theorem admitted_frames:
  assumes "exchange_admits spaceId fr options = Inr entry"
  shows "\<exists>i. inspectFramRpcRequest fr = Inr i \<and> in_space i = spaceId \<and> in_operation i \<noteq> js ''rpc/checkpoint'' \<and>
    entryAccepts (in_operation i) entry \<and> in_operation i \<in> set (map js FRAMRPC_OPERATIONS) \<and>
    (in_operation i \<in> set (map js FRAMRPC_MUTATIONS) \<longleftrightarrow> entry = ''transact'')"
  using assms by (rule exchange_admits_safe)

theorem admitted_frames_witness:
  "\<exists>i. inspectFramRpcRequest (Some (sent_frame sample_sent)) = Inr i \<and> in_space i = js ''demo''"
proof -
  have "exchange_admits (js ''demo'') (Some (sent_frame sample_sent)) (exchange_options ''query'' (js ''demo'')) = Inr ''query''"
    using exchange_admits_call [OF sample_prepared]
    by (simp add: sample_client_def sample_sent_def I64_MAX_def ascii_js)
  from admitted_frames [OF this] show ?thesis by blast
qed

text \<open>
  The status request the backup sends is the request frame of \<open>rpc/status\<close>, and the version it reads
  from a status reply of its space is the served version of that reply.
\<close>

theorem status_exchange:
  assumes "textBytes (rp_space rep) = Inr bs" "reply_ok rep" "rp_operation rep = js ''rpc/status''" "rp_page rep = None"
    "rp_error rep = None" "rp_payload rep = Some t" "0 \<le> rp_served rep"
  shows "statusFrame (rp_space rep) = Inr (request_frame 0 (status_request (rp_space rep))) \<and>
    decodeStatusServedVersion (Some (reply_frame 0 rep)) (rp_space rep) = Inr (int_text (rp_served rep))"
  using statusFrame_request [OF assms(1)] decodeStatus_reply [OF assms(2-)] by blast

theorem status_exchange_witness:
  "decodeStatusServedVersion (Some (reply_frame 0 (sample_reply\<lparr>rp_operation := js ''rpc/status''\<rparr>))) (js ''demo'') =
     Inr (int_text 3)"
proof -
  let ?r = "sample_reply\<lparr>rp_operation := js ''rpc/status''\<rparr>"
  have "length (reply_body ?r) \<le> MAX_BODY_BYTES"
    by (simp add: reply_body_def sample_reply_def opt_bytes_def text_bytes_def ascii_js MAX_BODY_BYTES_def ascii_def)
  then have "reply_ok ?r"
    by (simp add: reply_ok_def sample_reply_def opt_ok_def opt_cost_def readable_def limit_defs ascii_plain ascii_def)
  moreover have "textBytes (rp_space ?r) = Inr (utf8_encode (js ''demo''))"
    by (simp add: sample_reply_def textBytes_name name_ok_def)
  ultimately show ?thesis
    using status_exchange [of ?r "utf8_encode (js ''demo'')" "FKeyword (js ''rpc/unit'')"] by (simp add: sample_reply_def)
qed

text \<open>
  The space read from the header of a FRAMLOG is the one written in it, without a leading byte order
  mark, whatever follows the header.
\<close>

theorem framlog_space:
  assumes "sized_text MAX_SPACE_BYTES s" "drop_bom s \<noteq> []"
  shows "parseFramlogHeader (Some (framlog_header s @ rest)) = Inr (drop_bom s)"
  using assms by (rule parseFramlogHeader_header)

theorem framlog_space_witness: "parseFramlogHeader (Some (framlog_header (js ''demo'') @ [1, 2])) = Inr (js ''demo'')"
proof -
  have d: "drop_bom (js ''demo'') = js ''demo''" by (simp add: drop_bom_def ascii_js)
  have "sized_text MAX_SPACE_BYTES (js ''demo'')" by (simp add: sized_text_def ascii_js MAX_SPACE_BYTES_def)
  from framlog_space [OF this, of "[1, 2]"] d show ?thesis by simp
qed

section \<open>The durable store\<close>

text \<open>
  A byte string kept in chunks is loaded back byte for byte, whatever chunk and batch sizes the
  loading object was configured with: the chunk size in the storage wins.
\<close>

theorem load_any_geometry:
  assumes "kv_storage ops valid" "stored ops s r d" "prefix r0 = prefix r" "0 < chunkBytes r0"
  shows "\<exists>r'. range_load ops s r0 = Inr (d, r') \<and> prefix r' = prefix r \<and> batchKeys r' = batchKeys r0 \<and>
    chunkCount r' = Some (ceil_div (length d) (chunkBytes r')) \<and> stored ops s r' d"
  using kv_storage.load_stored [OF assms] .

theorem load_any_geometry_witness:
  "\<exists>r'. range_load memory_kv sample_memory (new_range (js ''framlog/'') 7 1) = Inr ([1, 2, 3, 4, 5], r')"
proof -
  have "prefix (new_range (js ''framlog/'') 7 1) = prefix sample_range" "0 < chunkBytes (new_range (js ''framlog/'') 7 1)"
    by (simp_all add: new_range_def sample_range_def)
  from load_any_geometry [OF mem.kv_storage_axioms sample_stored this] show ?thesis by blast
qed



text \<open>
  The inventory that precedes a restore reads every key of a range in pages, so with more fuel than
  keys it ends; it refuses a range with a foreign key, and otherwise the plan it returns empties the range and touches
  no key outside it.
\<close>

theorem clearPlan_empties:
  assumes "kv_storage ops valid" "valid s" "0 < batchKeys r" "0 < chunkBytes r"
    "card (inventory ops s (prefix r) None) < fuel"
  shows "\<exists>ks. set ks = inventory ops s (prefix r) None \<and> distinct ks \<and>
    clearPlan fuel ops s r = Some (if list_all (known_key (prefix r)) ks
      then Inr \<lparr>writes = [], stale = ks, plan_chunks = 0, plan_length = 0, publishMeta = False\<rparr> else Inl PlainError) \<and>
    (\<forall>p s' r'. clearPlan fuel ops s r = Some (Inr p) \<longrightarrow> applyTo ops p (s, r) = (s', r') \<longrightarrow>
       stored ops s' (settle p r') [] \<and> inventory ops s' (prefix r) None = {} \<and>
       (\<forall>k. \<not> starts_with (prefix r) k \<longrightarrow> kv_get ops s' k = kv_get ops s k))"
  using kv_storage.clearPlan_total [OF assms(1-3,5)] kv_storage.clearPlan_clears [OF assms] by blast

theorem clearPlan_empties_witness:
  "\<exists>ks. set ks = inventory memory_kv [] (js ''framlog/'') None \<and> distinct ks"
proof -
  have "inventory memory_kv [] (prefix (new_range (js ''framlog/'') 4 2)) None = {}"
    by (simp add: inventory_def memory_kv_def mem_get_def)
  then have "card (inventory memory_kv [] (prefix (new_range (js ''framlog/'') 4 2)) None) < 1" by simp
  from clearPlan_empties [OF mem.kv_storage_axioms _ _ _ this] show ?thesis
    by (auto simp: new_range_def)
qed

text \<open>
  C27 (refinement). The growing buffer of an image implements a byte string: \<open>append\<close> adds at the end, \<open>truncate\<close>
  succeeds exactly up to the length, \<open>read\<close> returns the bytes or refuses, and the buffer never holds fewer bytes than
  its length.
\<close>

theorem host_image_refines:
  assumes "hi_inv im"
  shows "hi_inv (hi_append bs im) \<and> content (hi_append bs im) = content im @ bs \<and>
    hi_inv (snd (hi_truncate n im)) \<and> (fst (hi_truncate n im) \<longleftrightarrow> n \<le> length (content im)) \<and>
    content (snd (hi_truncate n im)) = (if n \<le> length (content im) then take n (content im) else content im) \<and>
    hi_read off n im = (if off + n \<le> length (content im) then Some (take n (drop off (content im))) else None)"
  using hi_append_ok [OF assms, of bs] hi_truncate_ok [OF assms, of n "fst (hi_truncate n im)" "snd (hi_truncate n im)"]
    hi_read_ok [OF assms] content_length [OF assms] by auto

theorem host_image_refines_witness:
  "content (hi_append [3] (new_image [1, 2])) = [1, 2, 3] \<and> hi_read 1 1 (new_image [1, 2]) = Some [2]"
  using host_image_refines [of "new_image [1, 2]" "[3]" 1 1] by simp

section \<open>An engine instance\<close>

text \<open>
  C26 (invariant). Whatever host calls a guest makes, the parts a commit would take describe the guest's view exactly:
  unchanged below the low water marks, and publishing them turns the stored pair into that view.
\<close>

theorem dirty_parts_exact:
  fixes i :: "'g inst"
  assumes "\<And>w. tracks (d w) (get_image w i)"
  shows "contents (fold host_step hops i) = fold spec_op hops (contents i) \<and>
    publish (dirty_parts (fold host_step hops i)) d = fold spec_op hops (contents i) \<and>
    (\<forall>p \<in> set (dirty_parts (fold host_step hops i)). part_ok d p)"
proof -
  note h = host_steps_tracks [OF assms, of hops]
  have "part_ok d p" if "p \<in> set (dirty_parts (fold host_step hops i))" for p
    using that dirty_part_ok [of d _ "fold host_step hops i"] h by (auto simp: dirty_parts_def)
  then show ?thesis using h publish_dirty [of d "fold host_step hops i"] by auto
qed

theorem dirty_parts_exact_witness:
  "contents (fold host_step [StorageAppend Log [1, 2], StorageTruncate Log 1] open_inst) Log = [1]"
proof -
  have "tracks [] (get_image w open_inst)" for w using open_synced by (simp add: synced_def)
  from dirty_parts_exact [of "\<lambda>_. []", OF this, of "[StorageAppend Log [1, 2], StorageTruncate Log 1]"] open_contents
  show ?thesis by simp
qed



text \<open>
  C4 (refinement). A run of calls that all return refines the engine alone on an abstract pair of byte strings: the
  same answers, the guest in the same state, and the storage holding the pair.
\<close>

theorem calls_refine_engine:
  assumes "kv_storage ops valid" "synced ops s i f" "in_guest i = Some g" "contents i = f"
    "run_calls ops eng cs (s, i) = ((s', i'), rs)" "list_all (Not \<circ> isl) rs"
  shows "\<exists>g' f'. spec_calls eng cs (g, f) = ((g', f'), rs) \<and> synced ops s' i' f' \<and> in_guest i' = Some g' \<and> contents i' = f'"
  using kv_storage.run_calls_refine [OF assms] .

lemma toy_run: "\<exists>s' i' r. run_calls memory_kv toy_engine [(''t'', [7])] ([], open_inst) = ((s', i'), [Inr r])"
  using toy_call [OF open_synced open_guest(1,2), of "''t''" "[7]"] by auto

theorem calls_refine_engine_witness:
  "\<exists>s' i'. synced memory_kv s' i' ((\<lambda>_. [])(Log := [7])) \<and> in_guest i' = Some (1 :: nat)"
proof -
  obtain s' i' r where c: "run_calls memory_kv toy_engine [(''t'', [7])] ([], open_inst) = ((s', i'), [Inr r])"
    using toy_run by blast
  from calls_refine_engine [OF mem.kv_storage_axioms open_synced open_guest(1) open_contents c] show ?thesis
    by (auto simp: toy_engine_def fun_upd_def)
qed

text \<open>
  C3 (safety). After a run of calls that all return, an instance that starts over the same storage, with any chunk and
  batch sizes, hands its guest exactly the log and the image the engine's own run ends with.
\<close>

theorem restart_sees_published:
  fixes eng :: "'g engine"
  assumes "kv_storage ops valid" "synced ops s i f" "in_guest i = Some g" "contents i = f"
    "run_calls ops eng cs (s, i) = ((s', i'), rs)" "list_all (Not \<circ> isl) rs" "same_prefixes (in_store i) st"
    "0 < chunkBytes (logRange st)" "0 < chunkBytes (imageRange st)"
    "inst_open ops eng sp (s', new_inst Durable st) = ((s'', i''), Inr n)"
  shows "\<exists>g' f' g'' hops. spec_calls eng cs (g, f) = ((g', f'), rs) \<and> e_open eng (f' Log) (f' Image) = (g'', hops, Inr n) \<and>
    synced ops s'' i'' (fold spec_op hops f') \<and> in_guest i'' = Some g''"
proof -
  obtain g' f' where r: "spec_calls eng cs (g, f) = ((g', f'), rs)" "synced ops s' i' f'"
    using kv_storage.run_calls_refine [OF assms(1-6)] by blast
  have "same_prefixes (in_store i) (in_store i')"
    using run_calls_prefixes [OF _ assms(5)] assms(2) by (simp add: synced_def)
  then have "prefix (logRange st) = prefix (logRange (in_store i'))" "prefix (imageRange st) = prefix (imageRange (in_store i'))"
    using assms(7) by (simp_all add: same_prefixes_def all_which get_range_def)
  moreover have "holds ops s' (in_store i') f'" using r(2) by (simp add: synced_def)
  ultimately show ?thesis
    using kv_storage.inst_open_ok [OF assms(1) _ _ _ assms(8-10)] r(1) by blast
qed

theorem restart_sees_published_witness:
  "\<exists>s'' i''. synced memory_kv s'' i'' ((\<lambda>_. [])(Log := [7])) \<and> in_guest i'' = Some (0 :: nat)"
proof -
  obtain s' i' r where c: "run_calls memory_kv toy_engine [(''t'', [7])] ([], open_inst) = ((s', i'), [Inr r])"
    using toy_run by blast
  let ?st = "new_store 8 3"
  have p: "same_prefixes (in_store open_inst) ?st"
    by (simp add: same_prefixes_def all_which get_range_def open_guest empty_store_def new_store_def new_range_def Let_def)
  have pos: "0 < chunkBytes (logRange ?st)" "0 < chunkBytes (imageRange ?st)" by (simp_all add: new_store_def new_range_def)
  have "\<exists>f'. synced memory_kv s' i' f'"
    using mem.run_calls_refine [OF open_synced open_guest(1) open_contents c] by auto
  then obtain f' where h: "holds memory_kv s' (in_store i') f'" by (auto simp: synced_def)
  have "same_prefixes (in_store open_inst) (in_store i')"
    using run_calls_prefixes [OF _ c] open_synced by (simp add: synced_def)
  then have q: "prefix (logRange ?st) = prefix (logRange (in_store i'))" "prefix (imageRange ?st) = prefix (imageRange (in_store i'))"
    using p by (simp_all add: same_prefixes_def all_which get_range_def)
  obtain s'' i'' where o: "inst_open memory_kv toy_engine (js ''demo'') (s', new_inst Durable ?st) = ((s'', i''), Inr 0)"
    using toy_open [OF h q pos] by blast
  from restart_sees_published [OF mem.kv_storage_axioms open_synced open_guest(1) open_contents c _ p pos o] show ?thesis
    by (auto simp: toy_engine_def fun_upd_def)
qed

section \<open>The durable object\<close>

text \<open>
  C1 (invariant). From a new object over an empty storage, after any exchanges, checkpoints, exports, recycles, restores
  and restarts, in any order and with any outcomes, the storage holds a whole log and a whole image, and the live
  instance, if there is one, agrees with them or is poisoned.
\<close>

theorem object_states_whole:
  assumes "kv_storage ops valid" "FramDurableObject sp name cb bk = Inr d" "0 < cb" "0 < bk" "valid s"
    "\<And>k. kv_get ops s k = None" "(object_step digest ops eng)\<^sup>*\<^sup>* (s, d) (s', d')"
  shows "valid s' \<and> (\<exists>st f. same_prefixes st (object_store d') \<and> holds ops s' st f \<and>
    (\<forall>i. do_instance d' = Some i \<longrightarrow> poisoned i \<noteq> None \<or> synced ops s' i f))"
proof -
  have "object_inv ops valid (s, d)" using kv_storage.object_inv_new [OF assms(1-6)] .
  from kv_storage.object_steps_inv [OF assms(1,7) this] show ?thesis
    by (auto simp: object_inv_def object_ok_def live_ok_def)
qed

theorem object_states_whole_witness:
  "\<exists>s' d'. fst (exchange memory_kv toy_engine (Some (sent_frame sample_sent)) (exchange_options ''query'' (js ''demo''))
       ([], sample_object)) = (s', d') \<and> (\<exists>st f. same_prefixes st (object_store d') \<and> holds memory_kv s' st f)"
proof -
  obtain s' d' r where e: "exchange memory_kv toy_engine (Some (sent_frame sample_sent))
      (exchange_options ''query'' (js ''demo'')) ([], sample_object) = ((s', d'), r)" by (metis prod.exhaust)
  then have "(object_step None memory_kv toy_engine)\<^sup>*\<^sup>* ([], sample_object) (s', d')"
    by (intro r_into_rtranclp) (rule object_step.Exchange)
  from object_states_whole [OF mem.kv_storage_axioms sample_object_new _ _ _ _ this] e show ?thesis
    by (auto simp: memory_kv_def mem_get_def)
qed





text \<open>
  While a restore is pending in the storage of an object that has not booted, or the object is fenced,
  exchanges, checkpoints and exports fail, enter no guest and write nothing.
\<close>

theorem pending_restore_shuts:
  assumes "do_fence d \<noteq> None \<or> do_instance d = None \<and> kv_get ops s FRAMLOG_RESTORE_KEY \<noteq> None"
  shows "(\<exists>d' e. exchange ops eng fr options (s, d) = ((s, d'), Inl e)) \<and>
    (\<exists>d' e. checkpoint_object ops eng bs (s, d) = ((s, d'), Inl e)) \<and>
    (\<exists>d' e. exportFramlog digest ops eng (s, d) = ((s, d'), Inl e)) \<and>
    (\<exists>d' e. fram ops eng (s, d) = ((s, d'), Inl (BackupError e)) \<and> do_fence d' \<noteq> None \<and> do_instance d' = do_instance d)"
  using shut_operations [OF assms] fram_shut [OF assms] by blast

theorem pending_restore_shuts_witness:
  "\<exists>d' e. exchange memory_kv toy_engine None JNull ([(FRAMLOG_RESTORE_KEY, VMeta 0 0)], sample_object) =
     (([(FRAMLOG_RESTORE_KEY, VMeta 0 0)], d'), Inl e)"
  using pending_restore_shuts [of sample_object memory_kv "[(FRAMLOG_RESTORE_KEY, VMeta 0 0)]" toy_engine None JNull]
  by (simp add: sample_object_def memory_kv_def mem_get_def)

text \<open>
  A backup that verifies has the object's space in its fields and in the header of its bytes, and its
  length and digest are those of the bytes.
\<close>

theorem verified_backups:
  assumes "verifiedBackup digest b space = Inr v"
  shows "bk_bytes b = Some (vf_bytes v) \<and> bk_spaceId b = JStr space \<and> bk_format b = JStr FRAMLOG_BACKUP_FORMAT \<and>
    parseFramlogHeader (Some (vf_bytes v)) = Inr space \<and> sha256Hex digest (vf_bytes v) = Inr (vf_digest v) \<and>
    bk_sha256 b = JStr (vf_digest v) \<and> equals_count (bk_byteLength b) (length (vf_bytes v)) \<and>
    SHA256 (vf_digest v) \<and> bk_servedVersion b = JStr (vf_served v) \<and> served_text (JStr (vf_served v))"
  using assms by (rule verifiedBackup_sound)

theorem verified_backups_witness:
  "\<exists>b v. verifiedBackup (Some sample_digest) b (js ''demo'') = Inr v \<and> bk_bytes b = Some (vf_bytes v)"
proof -
  obtain s' d' ex where x: "exportFramlog (Some sample_digest) memory_kv status_engine ([], export_object) = ((s', d'), Inr ex)"
    "ex_bytes ex = framlog_header (js ''demo'')"
    using sample_export by auto
  have "length (ex_bytes ex) < 2 ^ 53" using x(2) by (simp add: framlog_header_def FRAMLOG_MAGIC_def ascii_js)
  from export_verifies [OF x(1) _ this] obtain b v where
    v: "verifiedBackup (Some sample_digest) b (js ''demo'') = Inr v"
    by (auto simp: sample_digest_def export_object_def sample_object_def)
  from verified_backups [OF v] v show ?thesis by blast
qed

text \<open>
  C23 (roundtrip). What an export returns passes the verification of a restore into an object of the same space, with the
  same bytes, digest and version, provided SHA-256 yields its 32 bytes and the log has a length JavaScript can count.
\<close>

theorem exports_restore:
  assumes "exportFramlog (Some dg) ops eng (s, d) = ((s', d'), Inr ex)" "length (dg (ex_bytes ex)) = 32"
    "length (ex_bytes ex) < 2 ^ 53"
  shows "\<exists>b. captureBackup (backup_of ex) = Inr b \<and>
    verifiedBackup (Some dg) b (do_spaceId d) = Inr \<lparr>vf_bytes = ex_bytes ex, vf_digest = ex_sha256 ex, vf_served = ex_served ex\<rparr>"
  using assms by (rule export_verifies)

theorem exports_restore_witness:
  "\<exists>ex b v. captureBackup (backup_of ex) = Inr b \<and> verifiedBackup (Some sample_digest) b (js ''demo'') = Inr v \<and>
     vf_bytes v = framlog_header (js ''demo'')"
proof -
  obtain s' d' ex where x: "exportFramlog (Some sample_digest) memory_kv status_engine ([], export_object) = ((s', d'), Inr ex)"
    "ex_bytes ex = framlog_header (js ''demo'')"
    using sample_export by auto
  have "length (ex_bytes ex) < 2 ^ 53" using x(2) by (simp add: framlog_header_def FRAMLOG_MAGIC_def ascii_js)
  from exports_restore [OF x(1) _ this] obtain b where b: "captureBackup (backup_of ex) = Inr b"
    "verifiedBackup (Some sample_digest) b (js ''demo'') =
      Inr \<lparr>vf_bytes = ex_bytes ex, vf_digest = ex_sha256 ex, vf_served = ex_served ex\<rparr>"
    by (auto simp: sample_digest_def export_object_def sample_object_def)
  show ?thesis by (intro exI conjI) (rule b, rule b, simp add: x(2))
qed

end
